(* ===== verification/Prelude.thy ===== *)
theory Prelude
  imports Main "HOL-Library.Word" "HOL-Library.Char_ord"
begin

text \<open>
  What every component shares.

  \<^item> Machine integers: \<open>u8\<close>, \<open>u32\<close>, \<open>u64\<close> for the unsigned types of the C and C++ code.
  \<^item> Undefined behaviour as a value: a computation of the C code has type \<open>fault + 'a\<close>;
    \<open>Inl\<close> names the first undefined operation (a read or a write outside a buffer, a null
    pointer read, a signed overflow, a read of an object that was never set, a conversion of a
    number that does not fit, a run that never returns), \<open>Inr\<close> the result of a defined run.
  \<^item> Output buffers: \<open>emit cap xs out\<close> is the sequence of writes \<open>*p++ = x\<close> for the
    elements of \<open>xs\<close>, into a buffer of \<open>cap\<close> elements of which \<open>out\<close> is the written
    front; it faults where the C code would write past the buffer.
  \<^item> C strings: a pointer into a NUL terminated string is the suffix it points at,
    \<open>c_at\<close> is \<open>*p\<close> (NUL at the end), \<open>advance k\<close> is \<open>p += k\<close>, which faults once the
    pointer is past the terminator.
  \<^item> \<open>codec\<close>: the interface of a pair of an encoder and a decoder, which the hexadecimal
    and the base64 components provide.
\<close>

unbundle bit_operations_syntax

type_synonym u8 = "8 word"
type_synonym u32 = "32 word"
type_synonym u64 = "64 word"

named_theorems c_simps \<open>equations that run the model of the C run time\<close>
named_theorems bound_simps \<open>lengths of what the operations write\<close>

lemma unat_of_nat_small: "n < 2 ^ LENGTH('a) \<Longrightarrow> unat (of_nat n :: 'a::len word) = n"
  by (simp add: unsigned_of_nat take_bit_nat_eq_self)

lemma unat_u8_lt: "unat (c :: u8) < 256"
  using unsigned_less [of c] by simp

lemma unat_u32_lt: "unat (n :: u32) < 4294967296"
  using unsigned_less [of n] by simp

lemma unat_u32_add: "unat (i :: u32) + k < 4294967296 \<Longrightarrow> unat (i + of_nat k) = unat i + k"
  by (simp add: unat_word_ariths unsigned_of_nat take_bit_nat_eq_self)

lemma div_mod_nat_unique:
  fixes k :: nat
  assumes "k = d * q + r" and "r < d"
  shows "k div d = q" "k mod d = r"
  using assms by simp_all

lemma nat_mod3_cases:
  obtains q :: nat where "n = 3 * q" "n div 3 = q" "(n + 2) div 3 = q"
  | q where "n = 3 * q + 1" "n div 3 = q" "(n + 2) div 3 = q + 1"
  | q where "n = 3 * q + 2" "n div 3 = q" "(n + 2) div 3 = q + 1"
proof -
  obtain q r where n: "n = 3 * q + r" and "r < 3"
    by (rule that [of "n div 3" "n mod 3"]) simp_all
  then consider "r = 0" | "r = 1" | "r = 2" by linarith
  then show thesis
  proof cases
    case 1
    have "n div 3 = q" by (rule div_mod_nat_unique(1) [of _ 3 _ 0]) (use n 1 in simp_all)
    moreover have "(n + 2) div 3 = q"
      by (rule div_mod_nat_unique(1) [of _ 3 _ 2]) (use n 1 in simp_all)
    ultimately show thesis using n 1 that(1) [of q] by simp
  next
    case 2
    have "n div 3 = q" by (rule div_mod_nat_unique(1) [of _ 3 _ 1]) (use n 2 in simp_all)
    moreover have "(n + 2) div 3 = q + 1"
      by (rule div_mod_nat_unique(1) [of _ 3 _ 0]) (use n 2 in simp_all)
    ultimately show thesis using n 2 that(2) [of q] by simp
  next
    case 3
    have "n div 3 = q" by (rule div_mod_nat_unique(1) [of _ 3 _ 2]) (use n 3 in simp_all)
    moreover have "(n + 2) div 3 = q + 1"
      by (rule div_mod_nat_unique(1) [of _ 3 _ 1]) (use n 3 in simp_all)
    ultimately show thesis using n 3 that(3) [of q] by simp
  qed
qed

section \<open>Undefined behaviour\<close>

datatype fault = Read_past_end | Write_past_end | Null_deref | Signed_overflow | Uninit_read | Bad_cast
  | No_return

definition rbind :: "'e + 'a \<Rightarrow> ('a \<Rightarrow> 'e + 'b) \<Rightarrow> 'e + 'b" where
  "rbind r f = (case r of Inl e \<Rightarrow> Inl e | Inr x \<Rightarrow> f x)"

lemma rbind_simps [simp]:
  "rbind (Inl e) f = Inl e"
  "rbind (Inr x) f = f x"
  by (simp_all add: rbind_def)

lemma rbind_cong [fundef_cong]:
  "r = r' \<Longrightarrow> (\<And>x. r' = Inr x \<Longrightarrow> f x = g x) \<Longrightarrow> rbind r f = rbind r' g"
  by (cases r') (auto simp: rbind_def)

lemma rbind_eq_Inr: "rbind r f = Inr y \<longleftrightarrow> (\<exists>x. r = Inr x \<and> f x = Inr y)"
  by (cases r) auto

lemma rbind_eq_Inl: "rbind r f = Inl e \<longleftrightarrow> r = Inl e \<or> (\<exists>x. r = Inr x \<and> f x = Inl e)"
  by (cases r) auto

text \<open>
  The same with a state that survives the fault: \<open>sbind\<close> runs a step on the state another
  step left.
\<close>

definition sbind :: "('e + 'a) \<times> 's \<Rightarrow> ('a \<Rightarrow> 's \<Rightarrow> ('e + 'b) \<times> 's) \<Rightarrow> ('e + 'b) \<times> 's" where
  "sbind r f = (case r of (Inl e, s) \<Rightarrow> (Inl e, s) | (Inr x, s) \<Rightarrow> f x s)"

lemma sbind_simps [simp]:
  "sbind (Inl e, s) f = (Inl e, s)"
  "sbind (Inr x, s) f = f x s"
  by (simp_all add: sbind_def)

lemma sbind_cong [fundef_cong]:
  "r = r' \<Longrightarrow> (\<And>x s. r' = (Inr x, s) \<Longrightarrow> f x s = g x s) \<Longrightarrow> sbind r f = sbind r' g"
  by (cases r'; cases "fst r'") auto

text \<open>What holds of the state behind the first step and is kept by the second holds at the end.\<close>

lemma sbind_invariant:
  assumes "P (snd r)" and "\<And>x s. r = (Inr x, s) \<Longrightarrow> P s \<Longrightarrow> P (snd (f x s))"
  shows "P (snd (sbind r f))"
  using assms by (cases r; cases "fst r") auto

section \<open>Output buffers\<close>

definition emit :: "nat \<Rightarrow> 'a list \<Rightarrow> 'a list \<Rightarrow> fault + 'a list" where
  "emit cap xs out = (if length out + length xs \<le> cap then Inr (out @ xs) else Inl Write_past_end)"

lemma emit_fits [c_simps]: "length out + length xs \<le> cap \<Longrightarrow> emit cap xs out = Inr (out @ xs)"
  by (simp add: emit_def)

lemma emit_overflows [c_simps]: "cap < length out + length xs \<Longrightarrow> emit cap xs out = Inl Write_past_end"
  by (simp add: emit_def)

lemma emit_InrD: "emit cap xs out = Inr out' \<Longrightarrow> out' = out @ xs \<and> length out' \<le> cap"
  by (auto simp: emit_def split: if_splits)

lemma emit_InlD: "emit cap xs out = Inl f \<Longrightarrow> f = Write_past_end \<and> cap < length out + length xs"
  by (auto simp: emit_def split: if_splits)

text \<open>A write at an index of a block that exists already.\<close>

definition set_at :: "'a list \<Rightarrow> nat \<Rightarrow> 'a \<Rightarrow> fault + 'a list" where
  "set_at buf i b = (if i < length buf then Inr (buf[i := b]) else Inl Write_past_end)"

lemma set_at_fits [c_simps]: "i < length buf \<Longrightarrow> set_at buf i b = Inr (buf[i := b])"
  by (simp add: set_at_def)

lemma set_at_length: "set_at buf i b = Inr buf' \<Longrightarrow> length buf' = length buf"
  by (auto simp: set_at_def split: if_splits)

section \<open>C strings\<close>

abbreviation NUL :: char where "NUL \<equiv> CHR 0x00"

text \<open>\<open>c_str\<close> is what a C function sees of a C++ string that may hold NUL bytes.\<close>

definition c_str :: "string \<Rightarrow> string" where
  "c_str s = takeWhile (\<lambda>c. c \<noteq> NUL) s"

definition c_at :: "string \<Rightarrow> char" where
  "c_at s = (case s of [] \<Rightarrow> NUL | c # _ \<Rightarrow> c)"

definition advance :: "nat \<Rightarrow> string \<Rightarrow> fault + string" where
  "advance k s = (if k \<le> length s then Inr (drop k s) else Inl Read_past_end)"

lemma c_at_simps [simp]: "c_at [] = NUL" "c_at (c # s) = c"
  by (simp_all add: c_at_def)

lemma c_at_append [simp]: "s \<noteq> [] \<Longrightarrow> c_at (s @ t) = c_at s"
  by (cases s) simp_all

lemma c_at_neq_NUL: "c_at s \<noteq> NUL \<Longrightarrow> s \<noteq> []"
  by (cases s) auto

lemma advance_simps [c_simps]:
  "k \<le> length s \<Longrightarrow> advance k s = Inr (drop k s)"
  "length s < k \<Longrightarrow> advance k s = Inl Read_past_end"
  by (simp_all add: advance_def)

lemma advance_InrD: "advance k s = Inr t \<Longrightarrow> t = drop k s \<and> k \<le> length s"
  by (auto simp: advance_def split: if_splits)

lemma c_str_id: "NUL \<notin> set s \<Longrightarrow> c_str s = s"
  by (simp add: c_str_def takeWhile_eq_all_conv) metis

lemma c_str_no_NUL [simp]: "NUL \<notin> set (c_str s)"
  by (auto simp: c_str_def dest: set_takeWhileD)

text \<open>Bytes and characters: \<open>char\<close> is the byte of a C++ string.\<close>

abbreviation ord :: "char \<Rightarrow> nat" where "ord c \<equiv> of_char c"

definition byte_of_char :: "char \<Rightarrow> u8" where
  "byte_of_char c = of_char c"

definition char_of_byte :: "u8 \<Rightarrow> char" where
  "char_of_byte b = char_of (unat b)"

lemma unat_byte_of_char [simp]: "unat (byte_of_char c) = ord c"
proof -
  have "byte_of_char c = word_of_nat (ord c)"
    by (simp add: byte_of_char_def of_nat_of_char)
  then show ?thesis using nat_of_char_less_256 [of c]
    by (simp add: unat_of_nat)
qed

lemma char_of_byte_inverse [simp]:
  "char_of_byte (byte_of_char c) = c"
  by (simp add: char_of_byte_def)

lemma byte_of_char_inverse [simp]: "byte_of_char (char_of_byte b) = b"
proof -
  have "unat b < 256" using unsigned_less [of b] by simp
  then have "unat (byte_of_char (char_of_byte b)) = unat b"
    by (simp add: char_of_byte_def)
  then show ?thesis by (simp add: word_unat_eq_iff)
qed

section \<open>Encoders and decoders\<close>

locale codec =
  fixes enc :: "'a \<Rightarrow> 'b"
    and dec :: "'b \<Rightarrow> 'a option"
    and valid :: "'a \<Rightarrow> bool"
  assumes dec_enc: "valid x \<Longrightarrow> dec (enc x) = Some x"
begin

lemma enc_eq_iff: "valid x \<Longrightarrow> valid y \<Longrightarrow> enc x = enc y \<longleftrightarrow> x = y"
  by (metis dec_enc option.inject)

lemma enc_inj_on: "inj_on enc {x. valid x}"
  by (auto simp: inj_on_def enc_eq_iff)

lemma dec_of_enc: "valid x \<Longrightarrow> b = enc x \<Longrightarrow> \<exists>y. dec b = Some y \<and> enc y = b"
  by (simp add: dec_enc)

end

end
