(* ===== verification/Decimal.thy ===== *)
theory Decimal
  imports Prelude
begin

text \<open>
  Decimal numbers of the C and C++ run time: \<open>dec_str\<close> is what \<^verbatim>\<open>%u\<close> and \<^verbatim>\<open>std::to_string\<close>
  print for an unsigned number, \<open>dec_val\<close> the value of a string of digits,
  \<open>hex_val\<close> the value of a hexadecimal digit. Shared by the
  addresses, the JSON numbers and the record ids of the requests.
\<close>

definition is_digit :: "char \<Rightarrow> bool" where
  "is_digit c \<longleftrightarrow> CHR ''0'' \<le> c \<and> c \<le> CHR ''9''"

definition hex_val :: "char \<Rightarrow> nat option" where
  "hex_val c = (if is_digit c then Some (ord c - 48)
     else if CHR ''a'' \<le> c \<and> c \<le> CHR ''f'' then Some (ord c - 87)
     else if CHR ''A'' \<le> c \<and> c \<le> CHR ''F'' then Some (ord c - 55) else None)"

definition digit_val :: "char \<Rightarrow> nat" where
  "digit_val c = ord c - 48"

definition digit_char :: "nat \<Rightarrow> char" where
  "digit_char k = char_of (48 + k)"

fun dec_str :: "nat \<Rightarrow> string" where
  "dec_str n = (if n < 10 then [digit_char n] else dec_str (n div 10) @ [digit_char (n mod 10)])"

declare dec_str.simps [simp del]

definition dec_val :: "string \<Rightarrow> nat" where
  "dec_val s = foldl (\<lambda>v c. 10 * v + digit_val c) 0 s"

lemma is_digit_ord: "is_digit c \<longleftrightarrow> 48 \<le> ord c \<and> ord c \<le> 57"
  by (simp add: is_digit_def less_eq_char_def)

lemma digit_char_simps [simp]:
  "k < 10 \<Longrightarrow> is_digit (digit_char k)"
  "k < 10 \<Longrightarrow> digit_val (digit_char k) = k"
  "k < 10 \<Longrightarrow> digit_char k = CHR ''0'' \<longleftrightarrow> k = 0"
proof -
  assume k: "k < 10"
  then have o: "ord (digit_char k) = 48 + k" by (simp add: digit_char_def)
  with k show "is_digit (digit_char k)" "digit_val (digit_char k) = k"
    by (simp_all add: is_digit_ord digit_val_def)
  have "ord (digit_char k) = ord CHR ''0'' \<longleftrightarrow> k = 0" using o by simp
  then show "digit_char k = CHR ''0'' \<longleftrightarrow> k = 0" by (simp only: of_char_eq_iff)
qed

lemma dec_str_digits: "c \<in> set (dec_str n) \<Longrightarrow> is_digit c"
proof (induction n rule: dec_str.induct)
  case (1 n)
  then show ?case by (subst (asm) (2) dec_str.simps) (auto split: if_splits)
qed

lemma dec_str_nonempty [simp]: "dec_str n \<noteq> []"
  by (subst dec_str.simps) simp

lemma dec_val_snoc: "dec_val (s @ [c]) = 10 * dec_val s + digit_val c"
  by (simp add: dec_val_def)

lemma dec_val_dec_str [simp]: "dec_val (dec_str n) = n"
proof (induction n rule: dec_str.induct)
  case (1 n)
  show ?case
  proof (cases "n < 10")
    case True
    then show ?thesis by (subst dec_str.simps) (simp add: dec_val_def)
  next
    case False
    with 1 show ?thesis by (subst dec_str.simps) (simp add: dec_val_snoc)
  qed
qed

lemma dec_str_inject [simp]: "dec_str m = dec_str n \<longleftrightarrow> m = n"
  by (metis dec_val_dec_str)

lemma dec_str_first: "0 < n \<Longrightarrow> hd (dec_str n) \<noteq> CHR ''0''"
proof (induction n rule: dec_str.induct)
  case (1 n)
  show ?case
  proof (cases "n < 10")
    case True
    with 1(2) show ?thesis by (subst dec_str.simps) simp
  next
    case False
    then have "0 < n div 10" by simp
    with 1(1) False show ?thesis by (subst dec_str.simps) simp
  qed
qed

lemma dec_str_0: "dec_str 0 = ''0''"
  by code_simp

lemma dec_str_no_special:
  "c \<in> set (dec_str n) \<Longrightarrow> c \<noteq> CHR ''.'' \<and> c \<noteq> CHR '':'' \<and> c \<noteq> CHR 0x22 \<and> c \<noteq> NUL"
  using dec_str_digits [of c n] by (auto simp: is_digit_def)

end
