(* ===== verification/Ip_Address.thy ===== *)
theory Ip_Address
  imports Decimal
begin

text \<open>
  The addresses of the host: \<^verbatim>\<open>src/src/x86/develop/check_ip_wan.cpp\<close> and \<^verbatim>\<open>.hpp\<close>.

  \<open>ipaddress\<close> is the class \<^verbatim>\<open>Ipaddress\<close> with the fields of both subclasses; the methods pass
  it on. An interface of \<open>getifaddrs\<close> is its name and its address, if it has one. The
  conversions of the C library the code calls are modelled as glibc has them: an IPv4
  address is a number in host order, an IPv6 address its eight 16-bit groups;
  \<open>inet_ntop4\<close>, \<open>inet_ntop6\<close> print them, \<open>inet_pton4\<close> reads a dotted quad (\<open>None\<close> where
  it fails and leaves \<open>addr\<close> unset), \<open>strtol16\<close> is \<open>strtol\<close> with base 16. A \<open>char *\<close>
  is the text up to its NUL; \<open>addressBuffer\<close> has 46 bytes, zeroed before each use.
\<close>

section \<open>The class\<close>

datatype ip_type_t = CLASS_IPV6 | CLASS_IPV4

record ipaddress =
  class_type_ip :: ip_type_t
  domain :: string
  ip_domain :: string
  ip_wan :: string
  ip_ddns_modify :: string
  ip_local :: string
  valid_ipwan :: bool

definition new_ipaddress :: "ip_type_t \<Rightarrow> string \<Rightarrow> ipaddress" where
  "new_ipaddress t name = \<lparr>class_type_ip = t, domain = name, ip_domain = [], ip_wan = [],
     ip_ddns_modify = [], ip_local = [], valid_ipwan = False\<rparr>"

datatype sockaddr = AF_INET u32 | AF_INET6 "16 word list" | AF_OTHER

record ifaddrs =
  ifa_name :: string
  ifa_addr :: "sockaddr option"

abbreviation RETURN_SUCC :: int where "RETURN_SUCC \<equiv> 0"
abbreviation RETURN_FAIL :: int where "RETURN_FAIL \<equiv> - 1"

section \<open>The C library's conversions\<close>

definition inet_ntop4 :: "u32 \<Rightarrow> string" where
  "inet_ntop4 a =
    (let n = unat a
     in dec_str (n div 16777216) @ ''.'' @ dec_str (n div 65536 mod 256) @ ''.''
        @ dec_str (n div 256 mod 256) @ ''.'' @ dec_str (n mod 256))"

text \<open>\<open>octets\<close> are the finished ones, \<open>cur\<close> the current one, \<open>saw\<close> that it has a digit.\<close>

fun inet_pton4_loop :: "string \<Rightarrow> nat list \<Rightarrow> nat \<Rightarrow> bool \<Rightarrow> nat list option" where
  "inet_pton4_loop [] octets cur saw =
    (if length octets = 3 \<and> saw then Some (octets @ [cur]) else None)"
| "inet_pton4_loop (c # s) octets cur saw =
    (if is_digit c then
       (if saw \<and> cur = 0 then None
        else if 255 < 10 * cur + digit_val c then None
        else if \<not> saw \<and> 4 \<le> length octets then None
        else inet_pton4_loop s octets (10 * cur + digit_val c) True)
     else if c = CHR ''.'' \<and> saw then
       (if length octets = 3 then None else inet_pton4_loop s (octets @ [cur]) 0 False)
     else None)"

definition inet_pton4 :: "string \<Rightarrow> u32 option" where
  "inet_pton4 s = map_option (\<lambda>os. of_nat (foldl (\<lambda>v k. 256 * v + k) 0 os)) (inet_pton4_loop s [] 0 False)"

fun hex_str :: "nat \<Rightarrow> string" where
  "hex_str n = (if n < 16 then [''0123456789abcdef'' ! n]
                else hex_str (n div 16) @ [''0123456789abcdef'' ! (n mod 16)])"

declare hex_str.simps [simp del]

text \<open>The longest run of zero groups, the first of the longest, at least two: (base, length).\<close>

fun zero_run :: "16 word list \<Rightarrow> nat" where
  "zero_run [] = 0"
| "zero_run (w # ws) = (if w = 0 then Suc (zero_run ws) else 0)"

fun best_run :: "16 word list \<Rightarrow> nat \<Rightarrow> nat \<times> nat \<Rightarrow> nat \<times> nat" where
  "best_run [] i best = best"
| "best_run (w # ws) i best =
    best_run ws (Suc i) (if snd best < zero_run (w # ws) then (i, zero_run (w # ws)) else best)"

definition ntop6_best :: "16 word list \<Rightarrow> (nat \<times> nat) option" where
  "ntop6_best ws = (let b = best_run ws 0 (0, 0) in if 2 \<le> snd b then Some b else None)"

definition in_best :: "(nat \<times> nat) option \<Rightarrow> nat \<Rightarrow> bool" where
  "in_best best i = (case best of None \<Rightarrow> False | Some (base, len) \<Rightarrow> base \<le> i \<and> i < base + len)"

text \<open>An IPv4 address in the last 32 bits is printed as a dotted quad.\<close>

definition ntop6_v4 :: "(nat \<times> nat) option \<Rightarrow> 16 word list \<Rightarrow> bool" where
  "ntop6_v4 best ws = (case best of None \<Rightarrow> False
     | Some (base, len) \<Rightarrow> base = 0 \<and> (len = 6 \<or> len = 5 \<and> ws ! 5 = 0xFFFF))"

fun ntop6_loop :: "(nat \<times> nat) option \<Rightarrow> 16 word list \<Rightarrow> nat list \<Rightarrow> string" where
  "ntop6_loop best ws [] = []"
| "ntop6_loop best ws (i # is) =
    (if in_best best i then (if best \<noteq> None \<and> fst (the best) = i then '':'' else []) @ ntop6_loop best ws is
     else (if i \<noteq> 0 then '':'' else [])
        @ (if i = 6 \<and> ntop6_v4 best ws
           then inet_ntop4 (of_nat (unat (ws ! 6) * 65536 + unat (ws ! 7)))
           else hex_str (unat (ws ! i)) @ ntop6_loop best ws is))"

definition inet_ntop6 :: "16 word list \<Rightarrow> string" where
  "inet_ntop6 ws =
    (let best = ntop6_best ws
     in ntop6_loop best ws [0, 1, 2, 3, 4, 5, 6, 7]
        @ (case best of None \<Rightarrow> [] | Some (base, len) \<Rightarrow> if base + len = 8 then '':'' else []))"

fun strtol16_digits :: "string \<Rightarrow> int \<Rightarrow> int" where
  "strtol16_digits [] v = v"
| "strtol16_digits (c # s) v = (case hex_val c of None \<Rightarrow> v | Some d \<Rightarrow> strtol16_digits s (16 * v + int d))"

definition is_space :: "char \<Rightarrow> bool" where
  "is_space c \<longleftrightarrow> c = CHR '' '' \<or> (9 \<le> ord c \<and> ord c \<le> 13)"

text \<open>White space, a sign, an optional \<open>0x\<close> before a digit, then the digits.\<close>

definition strtol16 :: "string \<Rightarrow> int" where
  "strtol16 s =
    (let s1 = dropWhile is_space s;
         neg = (c_at s1 = CHR ''-'');
         s2 = (if c_at s1 = CHR ''-'' \<or> c_at s1 = CHR ''+'' then tl s1 else s1);
         s3 = (if c_at s2 = CHR ''0'' \<and> c_at (tl s2) \<in> {CHR ''x'', CHR ''X''}
                  \<and> hex_val (c_at (tl (tl s2))) \<noteq> None then tl (tl s2) else s2)
     in if neg then - strtol16_digits s3 0 else strtol16_digits s3 0)"

section \<open>Public or private\<close>

definition isIPv4_wan :: "string \<Rightarrow> fault + bool" where
  "isIPv4_wan ip =
    (case inet_pton4 ip of
       None \<Rightarrow> Inl Uninit_read
     | Some ip_hex \<Rightarrow>
        if (0x0A000000 < ip_hex \<and> ip_hex < 0x0AFFFFFF) \<or>
           (0xAC100000 < ip_hex \<and> ip_hex < 0xAC1FFFFF) \<or>
           (0xC0A80000 < ip_hex \<and> ip_hex < 0xC0A8FFFF) \<or>
           (0x7F000000 < ip_hex \<and> ip_hex < 0x7FFFFFFF)
        then Inr False else Inr True)"

text \<open>The loop over the first 32 bytes of the buffer: the index of the first colon.\<close>

fun find_colon :: "string \<Rightarrow> nat \<Rightarrow> nat \<Rightarrow> nat option" where
  "find_colon buf 0 i = None"
| "find_colon buf (Suc k) i =
    (case buf of [] \<Rightarrow> None | c # buf' \<Rightarrow> if c = CHR '':'' then Some i else find_colon buf' k (Suc i))"

definition isIPv6_wan :: "string \<Rightarrow> bool" where
  "isIPv6_wan ipv6 =
    (case find_colon ipv6 32 0 of
       None \<Rightarrow> False
     | Some end_star \<Rightarrow>
        if end_star = 4 then
          (let num = (of_int (strtol16 (take 4 ipv6)) :: 16 word) in drop_bit 13 num = 1)
        else False)"

fun ip_valid_loop :: "string \<Rightarrow> string \<Rightarrow> fault + bool" where
  "ip_valid_loop ip [] = Inr False"
| "ip_valid_loop ip (c # s) =
    (if c = CHR ''.'' then isIPv4_wan ip
     else if c = CHR '':'' then Inr (isIPv6_wan ip)
     else ip_valid_loop ip s)"

definition ip_valid :: "string \<Rightarrow> fault + bool" where
  "ip_valid ip = ip_valid_loop ip ip"

section \<open>The methods\<close>

text \<open>
  One pass of the loop of \<^verbatim>\<open>check_local_ip\<close>: the class after the branches and the text left
  in \<open>addressBuffer\<close>; \<open>None\<close> is \<open>continue\<close>.
\<close>

definition check_local_ip_entry :: "ipaddress \<Rightarrow> ifaddrs \<Rightarrow> fault + (ipaddress \<times> string) option" where
  "check_local_ip_entry this ifa =
    (case ifa_addr ifa of
       None \<Rightarrow> Inr None
     | Some sa \<Rightarrow>
        (case sa of
           AF_INET a \<Rightarrow>
             if class_type_ip this = CLASS_IPV4 then
               (if valid_ipwan this then Inr None
                else rbind (ip_valid (inet_ntop4 a))
                  (\<lambda>v. Inr (Some (this\<lparr>valid_ipwan := v\<rparr>, inet_ntop4 a))))
             else Inr (Some (this, []))
         | AF_INET6 ws \<Rightarrow>
             if class_type_ip this = CLASS_IPV6 then
               (if valid_ipwan this then Inr None
                else rbind (ip_valid (inet_ntop6 ws))
                  (\<lambda>v. Inr (Some (this\<lparr>valid_ipwan := v\<rparr>, inet_ntop6 ws))))
             else Inr (Some (this, []))
         | AF_OTHER \<Rightarrow> Inr (Some (this, []))))"

fun check_local_ip :: "ipaddress \<Rightarrow> ifaddrs list \<Rightarrow> fault + ipaddress" where
  "check_local_ip this [] = Inr this"
| "check_local_ip this (ifa # ifas) =
    rbind (check_local_ip_entry this ifa)
      (\<lambda>r. case r of
         None \<Rightarrow> check_local_ip this ifas
       | Some (this', addressBuffer) \<Rightarrow>
          if valid_ipwan this' then Inr (this'\<lparr>ip_local := addressBuffer\<rparr>)
          else check_local_ip this' ifas)"

text \<open>\<^verbatim>\<open>decode_ipwan\<close>: the response without its trailing line ends.\<close>

definition decode_ipwan :: "ipaddress \<Rightarrow> string \<Rightarrow> ipaddress" where
  "decode_ipwan ipaddr src =
    ipaddr\<lparr>ip_wan := rev (dropWhile (\<lambda>c. c = CHR 0x0A \<or> c = CHR 0x0D) (rev src))\<rparr>"

definition match_wanip_with_localip :: "ipaddress \<Rightarrow> int \<times> ipaddress" where
  "match_wanip_with_localip this =
    (if valid_ipwan this \<and> ip_wan this = ip_local this
     then (RETURN_SUCC, this\<lparr>ip_ddns_modify := ip_local this\<rparr>)
     else (RETURN_FAIL, this))"


section \<open>IPv4: printing and reading\<close>

lemma pton4_dec_str:
  "n \<le> 255 \<Longrightarrow> length octets \<le> 3 \<Longrightarrow>
     inet_pton4_loop (dec_str n @ s) octets 0 False = inet_pton4_loop s octets n True"
proof (induction n arbitrary: s rule: dec_str.induct)
  case (1 n)
  show ?case
  proof (cases "n < 10")
    case True
    with 1(3) show ?thesis by (subst dec_str.simps) simp
  next
    case False
    then have "n div 10 \<noteq> 0" "10 * (n div 10) + n mod 10 = n" by simp_all
    with False 1 show ?thesis by (subst dec_str.simps) simp
  qed
qed

lemma octets_of_address:
  fixes n :: nat
  shows "256 * (256 * (256 * (n div 16777216) + n div 65536 mod 256) + n div 256 mod 256) + n mod 256 = n"
proof -
  have "n div 256 div 256 = n div 65536" "n div 65536 div 256 = n div 16777216"
    by (simp_all add: div_mult2_eq [symmetric])
  then have "256 * (n div 16777216) + n div 65536 mod 256 = n div 65536"
    "256 * (n div 65536) + n div 256 mod 256 = n div 256"
    by (metis mult_div_mod_eq)+
  then show ?thesis by simp
qed

lemma inet_pton4_inverse: "inet_pton4 (inet_ntop4 a) = Some a"
proof -
  let ?n = "unat a"
  have "?n div 16777216 \<le> 255" using unat_u32_lt [of a] by (simp add: div_le_mono less_mult_imp_div_less
      less_Suc_eq_le [symmetric])
  then have "inet_pton4_loop (inet_ntop4 a) [] 0 False =
      Some [?n div 16777216, ?n div 65536 mod 256, ?n div 256 mod 256, ?n mod 256]"
    using pton4_dec_str [of _ _ "[]"]
    by (simp add: inet_ntop4_def Let_def pton4_dec_str is_digit_def less_Suc_eq_le [symmetric])
  then show ?thesis
    using octets_of_address [of ?n] by (simp add: inet_pton4_def)
qed

text \<open>
  Reading back a printed IPv4 address gives the address: \<open>inet_pton\<close> accepts every text
  \<open>inet_ntop\<close> writes, so the address \<open>isIPv4_wan\<close> tests is the one of the interface and
  never an unset variable.
\<close>

lemma inet_pton4_ntop4: "inet_pton4 (inet_ntop4 a) = Some a"
  by (rule inet_pton4_inverse)

definition private_ipv4 :: "u32 \<Rightarrow> bool" where
  "private_ipv4 a \<longleftrightarrow> unat a div 2 ^ 24 = 10 \<or> unat a div 2 ^ 20 = 0xAC1 \<or> unat a div 2 ^ 16 = 0xC0A8
     \<or> unat a div 2 ^ 24 = 127"

text \<open>The ends of the four documented ranges: 10/8, 172.16/12, 192.168/16, 127/8.\<close>

definition range_ends :: "u32 list" where
  "range_ends = [0x0A000000, 0x0AFFFFFF, 0xAC100000, 0xAC1FFFFF,
                 0xC0A80000, 0xC0A8FFFF, 0x7F000000, 0x7FFFFFFF]"

lemma nat_div_eq_iff: "0 < (d::nat) \<Longrightarrow> n div d = q \<longleftrightarrow> d * q \<le> n \<and> n < d * q + d"
  by (auto simp: div_nat_eqI dividend_less_div_times mult.commute)
    (metis add.commute dividend_less_div_times mult.commute)


definition in_range :: "nat \<Rightarrow> nat \<Rightarrow> nat \<Rightarrow> bool" where
  "in_range lo hi n \<longleftrightarrow> lo \<le> n \<and> n \<le> hi"

definition strictly_in :: "nat \<Rightarrow> nat \<Rightarrow> nat \<Rightarrow> bool" where
  "strictly_in lo hi n \<longleftrightarrow> lo < n \<and> n < hi"

lemma strictly_in_iff: "strictly_in lo hi n \<longleftrightarrow> in_range lo hi n \<and> n \<noteq> lo \<and> n \<noteq> hi"
  by (auto simp: in_range_def strictly_in_def)

lemma isIPv4_wan_ranges:
  "isIPv4_wan (inet_ntop4 a) = Inr (\<not> private_ipv4 a \<or> a \<in> set range_ends)"
proof -
  let ?n = "unat a"
  have p: "private_ipv4 a \<longleftrightarrow> in_range 0x0A000000 0x0AFFFFFF ?n \<or> in_range 0xAC100000 0xAC1FFFFF ?n
      \<or> in_range 0xC0A80000 0xC0A8FFFF ?n \<or> in_range 0x7F000000 0x7FFFFFFF ?n"
    unfolding private_ipv4_def in_range_def by (auto simp: nat_div_eq_iff)
  have e: "a \<in> set range_ends \<longleftrightarrow> ?n \<in> {0x0A000000, 0x0AFFFFFF, 0xAC100000, 0xAC1FFFFF,
      0xC0A80000, 0xC0A8FFFF, 0x7F000000, 0x7FFFFFFF}"
    by (simp add: range_ends_def word_unat_eq_iff)
  have w: "isIPv4_wan (inet_ntop4 a) = Inr (\<not> (strictly_in 0x0A000000 0x0AFFFFFF ?n \<or> strictly_in 0xAC100000 0xAC1FFFFF ?n
      \<or> strictly_in 0xC0A80000 0xC0A8FFFF ?n \<or> strictly_in 0x7F000000 0x7FFFFFFF ?n))"
    unfolding isIPv4_wan_def inet_pton4_inverse option.case word_less_nat_alt strictly_in_def by simp
  show ?thesis
  proof (cases "a \<in> set range_ends")
    case True
    then have "\<not> (strictly_in 0x0A000000 0x0AFFFFFF ?n \<or> strictly_in 0xAC100000 0xAC1FFFFF ?n
      \<or> strictly_in 0xC0A80000 0xC0A8FFFF ?n \<or> strictly_in 0x7F000000 0x7FFFFFFF ?n)"
      unfolding e by (elim insertE emptyE) (simp_all add: strictly_in_def)
    with w True show ?thesis by simp
  next
    case False
    with w show ?thesis unfolding e p by (simp add: strictly_in_iff)
  qed
qed

text \<open>
  C32: \<open>isIPv4_wan\<close> on the text of an address: it answers "private" exactly inside the four
  ranges its comment lists, but not for the first and the last address of each of them,
  which it takes for public ones (the comparisons are strict on both sides).
\<close>

theorem isIPv4_wan_exact:
  "isIPv4_wan (inet_ntop4 a) = Inr (\<not> (private_ipv4 a \<and> a \<notin> set range_ends))"
  by (simp only: isIPv4_wan_ranges de_Morgan_conj not_not)

section \<open>IPv6: the prefix test\<close>

lemma hex_digit_facts:
  "k < 16 \<Longrightarrow> hex_val (''0123456789abcdef'' ! k) = Some k"
  "k < 16 \<Longrightarrow> ''0123456789abcdef'' ! k \<noteq> CHR '':''"
proof -
  have "list_all (\<lambda>k. hex_val (''0123456789abcdef'' ! k) = Some k
      \<and> ''0123456789abcdef'' ! k \<noteq> CHR '':'') [0..<16]" by code_simp
  then show "k < 16 \<Longrightarrow> hex_val (''0123456789abcdef'' ! k) = Some k"
    "k < 16 \<Longrightarrow> ''0123456789abcdef'' ! k \<noteq> CHR '':''"
    by (simp_all only: list_all_iff) simp_all
qed

lemma hex_str_chars: "c \<in> set (hex_str n) \<Longrightarrow> \<exists>d. hex_val c = Some d"
proof (induction n rule: hex_str.induct)
  case (1 n)
  then show ?case by (subst (asm) (2) hex_str.simps) (auto simp: hex_digit_facts split: if_splits)
qed

lemma hex_val_NoneI: "c \<in> {CHR '':'', CHR ''x'', CHR ''X'', CHR ''-'', CHR ''+''} \<Longrightarrow> hex_val c = None"
  by (elim insertE emptyE) (simp_all add: hex_val_def is_digit_def)

lemma hex_val_not_space: "hex_val c = Some d \<Longrightarrow> \<not> is_space c"
  by (auto simp: hex_val_def is_space_def is_digit_ord less_eq_char_def split: if_splits)

lemma strtol16_digits_hex_str: "strtol16_digits (hex_str n @ t) 0 = strtol16_digits t (int n)"
proof (induction n arbitrary: t rule: hex_str.induct)
  case (1 n)
  show ?case
  proof (cases "n < 16")
    case True
    then show ?thesis by (subst hex_str.simps) (simp add: hex_digit_facts)
  next
    case False
    have "16 * int (n div 16) + int (n mod 16) = int n"
      by (metis mult_div_mod_eq of_nat_add of_nat_mult of_nat_numeral)
    with 1 False show ?thesis by (subst hex_str.simps) (simp add: hex_digit_facts)
  qed
qed

lemma strtol16_hex_str: "strtol16 (hex_str n) = int n"
proof -
  obtain c s where cs: "hex_str n = c # s" by (cases "hex_str n") (auto simp: hex_str.simps [of n] split: if_splits)
  then obtain d where d: "hex_val c = Some d" using hex_str_chars [of c n] by auto
  have "c_at s \<notin> {CHR ''x'', CHR ''X''}"
  proof (cases s)
    case (Cons c' s')
    then obtain d' where "hex_val c' = Some d'" using hex_str_chars [of c' n] cs by auto
    then show ?thesis using Cons hex_val_NoneI [of c'] by auto
  qed simp
  moreover have "c \<noteq> CHR ''-''" "c \<noteq> CHR ''+''" using d hex_val_NoneI [of c] by auto
  ultimately show ?thesis
    using strtol16_digits_hex_str [of n "[]"] d hex_val_not_space [OF d]
    by (simp add: strtol16_def cs Let_def)
qed

lemma length_hex_str:
  assumes "n < 65536"
  shows "length (hex_str n) \<le> 4" "length (hex_str n) = 4 \<longleftrightarrow> 4096 \<le> n"
proof -
  have L: "length (hex_str k) = (if k < 16 then 1 else Suc (length (hex_str (k div 16))))" for k
    by (subst hex_str.simps) simp
  have "length (hex_str n) = (if n < 16 then 1 else if n div 16 < 16 then 2
      else if n div 256 < 16 then 3 else if n div 4096 < 16 then 4
      else 4 + length (hex_str (n div 65536)))"
    using L [of n] L [of "n div 16"] L [of "n div 256"] L [of "n div 4096"]
    by (simp add: div_mult2_eq [symmetric])
  then show "length (hex_str n) \<le> 4" "length (hex_str n) = 4 \<longleftrightarrow> 4096 \<le> n"
    using assms by (auto simp: div_less_iff_less_mult)
qed

lemma find_colon_at: "CHR '':'' \<notin> set s \<Longrightarrow> length s < k \<Longrightarrow> find_colon (s @ CHR '':'' # t) k i = Some (i + length s)"
proof (induction s arbitrary: k i)
  case Nil
  then show ?case by (cases k) simp_all
next
  case (Cons c s)
  then show ?case by (cases k) auto
qed

lemma best_run_zero:
  "best_run ws i best = (b, l) \<Longrightarrow>
     (b, l) = best \<or> i \<le> b \<and> l = zero_run (drop (b - i) ws)"
proof (induction ws arbitrary: i best)
  case (Cons w ws)
  then have "best_run ws (Suc i) (if snd best < zero_run (w # ws) then (i, zero_run (w # ws)) else best) = (b, l)"
    by simp
  from Cons.IH [OF this] show ?case
    by (auto simp: Suc_diff_le drop_Cons' split: if_splits)
qed simp

lemma in_best_first: "in_best (ntop6_best ws) 0 \<Longrightarrow> ws \<noteq> [] \<and> hd ws = 0 \<and> fst (the (ntop6_best ws)) = 0"
proof -
  assume "in_best (ntop6_best ws) 0"
  then obtain l where "best_run ws 0 (0, 0) = (0, l)" "2 \<le> l" and b: "ntop6_best ws = Some (0, l)"
    by (cases "best_run ws 0 (0, 0)") (auto simp: in_best_def ntop6_best_def Let_def split: if_splits)
  with best_run_zero [of ws 0 "(0, 0)" 0 l] have "0 < zero_run ws" by auto
  then show ?thesis using b by (cases ws) (auto split: if_splits)
qed

text \<open>The text starts with a colon, or with the first group and a colon.\<close>

lemma inet_ntop6_start:
  assumes "length ws = 8"
  shows "\<exists>t. inet_ntop6 ws = (if in_best (ntop6_best ws) 0 then CHR '':'' # t
                              else hex_str (unat (ws ! 0)) @ CHR '':'' # t)"
proof (cases "in_best (ntop6_best ws) 0")
  case True
  with in_best_first [OF True] show ?thesis
    by (auto simp: inet_ntop6_def Let_def in_best_def split: option.splits)
next
  case False
  then have "in_best (ntop6_best ws) 1 \<Longrightarrow> fst (the (ntop6_best ws)) = 1 \<and> ntop6_best ws \<noteq> None"
    by (auto simp: in_best_def split: option.splits)
  with False show ?thesis by (auto simp: inet_ntop6_def Let_def)
qed


definition global_unicast6 :: "16 word list \<Rightarrow> bool" where
  "global_unicast6 ws \<longleftrightarrow> 0x2000 \<le> unat (ws ! 0) \<and> unat (ws ! 0) < 0x4000"

lemma isIPv6_wan_unicast:
  assumes "length ws = 8"
  shows "isIPv6_wan (inet_ntop6 ws) \<longleftrightarrow> global_unicast6 ws"
proof (cases "in_best (ntop6_best ws) 0")
  case True
  with inet_ntop6_start [OF assms] obtain t where "inet_ntop6 ws = CHR '':'' # t" by auto
  moreover have "find_colon (CHR '':'' # t) 32 0 = Some 0" using find_colon_at [of "[]" 32 t 0] by simp
  moreover have "ws ! 0 = 0" using in_best_first [OF True] by (metis hd_conv_nth)
  ultimately show ?thesis by (simp add: isIPv6_wan_def global_unicast6_def)
next
  case False
  let ?w = "unat (ws ! 0)"
  let ?h = "hex_str ?w"
  from False inet_ntop6_start [OF assms] obtain t where start: "inet_ntop6 ws = ?h @ CHR '':'' # t" by auto
  have w: "?w < 65536" using unsigned_less [of "ws ! 0"] by simp
  have "CHR '':'' \<notin> set ?h" using hex_str_chars [of _ ?w] hex_val_NoneI by force
  then have colon: "find_colon (inet_ntop6 ws) 32 0 = Some (length ?h)"
    unfolding start using length_hex_str(1) [OF w] by (subst find_colon_at) auto
  show ?thesis
  proof (cases "length ?h = 4")
    case four: True
    have "strtol16 (take 4 (inet_ntop6 ws)) = int ?w"
      unfolding start using four by (simp add: strtol16_hex_str)
    moreover have "(of_int (int ?w) :: 16 word) = ws ! 0" by simp
    moreover have "drop_bit 13 (ws ! 0) = 1 \<longleftrightarrow> unat (drop_bit 13 (ws ! 0)) = 1"
      by (simp add: word_unat_eq_iff)
    moreover have "unat (drop_bit 13 (ws ! 0)) = ?w div 8192"
      using w by (simp only: unsigned_drop_bit_eq) (simp add: drop_bit_eq_div take_bit_nat_eq_self)
    moreover have "?w div 8192 = 1 \<longleftrightarrow> global_unicast6 ws"
      by (auto simp: nat_div_eq_iff global_unicast6_def)
    ultimately show ?thesis using colon four by (simp add: isIPv6_wan_def Let_def)
  next
    case four: False
    then have "?w < 4096" using length_hex_str(2) [OF w] by simp
    then show ?thesis using colon four by (simp add: isIPv6_wan_def global_unicast6_def)
  qed
qed

text \<open>
  \<open>isIPv6_wan\<close>, which looks at the text only, decides the prefix \<open>2000::/3\<close> of its
  comment: for the text \<open>inet_ntop\<close> gives for any eight groups, compressed or not, the
  answer is whether the first three bits of the address are 001.
\<close>

lemma isIPv6_wan_prefix:
  assumes "length ws = 8"
  shows "isIPv6_wan (inet_ntop6 ws) \<longleftrightarrow> global_unicast6 ws"
  using assms by (rule isIPv6_wan_unicast)

lemma isIPv6_wan_prefix_instance:
  "isIPv6_wan (inet_ntop6 [0x2408, 0x8459, 0, 0, 0, 0, 1, 2])
   \<and> \<not> isIPv6_wan (inet_ntop6 [0xFE80, 0, 0, 0, 0, 0, 0, 1])"
  using isIPv6_wan_prefix [of "[0x2408, 0x8459, 0, 0, 0, 0, 1, 2]"]
    isIPv6_wan_prefix [of "[0xFE80, 0, 0, 0, 0, 0, 0, 1]"]
  by (simp add: global_unicast6_def)

section \<open>Choosing the local address\<close>

text \<open>\<open>ip_valid\<close> takes the branch of the address family.\<close>

lemma ip_valid_loop_skip:
  "\<forall>c\<in>set p. c \<noteq> CHR ''.'' \<and> c \<noteq> CHR '':'' \<Longrightarrow> ip_valid_loop ip (p @ s) = ip_valid_loop ip s"
  by (induction p) simp_all

lemma ip_valid_ntop4: "ip_valid (inet_ntop4 a) = isIPv4_wan (inet_ntop4 a)"
proof -
  obtain t where t: "inet_ntop4 a = dec_str (unat a div 16777216) @ CHR ''.'' # t"
    by (auto simp: inet_ntop4_def Let_def)
  have "\<forall>c\<in>set (dec_str (unat a div 16777216)). c \<noteq> CHR ''.'' \<and> c \<noteq> CHR '':''"
    using dec_str_no_special by blast
  then have "ip_valid_loop ip (inet_ntop4 a) = isIPv4_wan ip" for ip
    unfolding t by (simp add: ip_valid_loop_skip)
  then show ?thesis by (simp add: ip_valid_def)
qed

lemma hex_str_no_dot: "\<forall>c\<in>set (hex_str n). c \<noteq> CHR ''.'' \<and> c \<noteq> CHR '':''"
proof
  fix c assume "c \<in> set (hex_str n)"
  then obtain d where "hex_val c = Some d" using hex_str_chars by blast
  then show "c \<noteq> CHR ''.'' \<and> c \<noteq> CHR '':''" by (auto simp: hex_val_def is_digit_def)
qed

lemma ip_valid_ntop6: "length ws = 8 \<Longrightarrow> ip_valid (inet_ntop6 ws) = Inr (isIPv6_wan (inet_ntop6 ws))"
proof -
  assume "length ws = 8"
  from inet_ntop6_start [OF this] obtain t where t: "inet_ntop6 ws =
    (if in_best (ntop6_best ws) 0 then CHR '':'' # t else hex_str (unat (ws ! 0)) @ CHR '':'' # t)" by blast
  have "ip_valid_loop ip (inet_ntop6 ws) = Inr (isIPv6_wan ip)" for ip
    unfolding t by (simp add: ip_valid_loop_skip [OF hex_str_no_dot])
  then show ?thesis by (simp add: ip_valid_def)
qed

text \<open>The text of an interface's address where it is a public address of the class's family.\<close>

definition public_text :: "ip_type_t \<Rightarrow> ifaddrs \<Rightarrow> string option" where
  "public_text t ifa =
    (case (ifa_addr ifa, t) of
       (Some (AF_INET a), CLASS_IPV4) \<Rightarrow>
         if \<not> private_ipv4 a \<or> a \<in> set range_ends then Some (inet_ntop4 a) else None
     | (Some (AF_INET6 ws), CLASS_IPV6) \<Rightarrow>
         if global_unicast6 ws then Some (inet_ntop6 ws) else None
     | _ \<Rightarrow> None)"

definition well_formed_ifa :: "ifaddrs \<Rightarrow> bool" where
  "well_formed_ifa ifa \<longleftrightarrow> (case ifa_addr ifa of Some (AF_INET6 ws) \<Rightarrow> length ws = 8 | _ \<Rightarrow> True)"

fun first_public :: "ip_type_t \<Rightarrow> ifaddrs list \<Rightarrow> string option" where
  "first_public t [] = None"
| "first_public t (ifa # ifas) =
    (case public_text t ifa of Some x \<Rightarrow> Some x | None \<Rightarrow> first_public t ifas)"

lemma check_local_ip_entry_spec:
  assumes "well_formed_ifa ifa" and "\<not> valid_ipwan this"
  shows "case public_text (class_type_ip this) ifa of
      Some x \<Rightarrow> check_local_ip_entry this ifa = Inr (Some (this\<lparr>valid_ipwan := True\<rparr>, x))
    | None \<Rightarrow> check_local_ip_entry this ifa = Inr None
        \<or> (\<exists>buf. check_local_ip_entry this ifa = Inr (Some (this, buf)))"
proof -
  have same: "this\<lparr>valid_ipwan := False\<rparr> = this" using assms(2) by simp
  show ?thesis
    using assms same
    by (cases "class_type_ip this")
      (auto simp: public_text_def check_local_ip_entry_def well_formed_ifa_def ip_valid_ntop4
        isIPv4_wan_ranges ip_valid_ntop6 isIPv6_wan_unicast split: option.splits sockaddr.splits)
qed

lemma check_local_ip_spec:
  assumes "\<forall>ifa\<in>set ifas. well_formed_ifa ifa" and "\<not> valid_ipwan this"
  shows "check_local_ip this ifas =
    Inr (case first_public (class_type_ip this) ifas of
           None \<Rightarrow> this
         | Some x \<Rightarrow> this\<lparr>valid_ipwan := True, ip_local := x\<rparr>)"
  using assms
proof (induction ifas)
  case (Cons ifa ifas)
  then have IH: "check_local_ip this ifas =
    Inr (case first_public (class_type_ip this) ifas of
           None \<Rightarrow> this | Some x \<Rightarrow> this\<lparr>valid_ipwan := True, ip_local := x\<rparr>)" by simp
  have "well_formed_ifa ifa" using Cons.prems by simp
  note entry = check_local_ip_entry_spec [OF this Cons.prems(2)]
  show ?case
  proof (cases "public_text (class_type_ip this) ifa")
    case None
    with entry consider "check_local_ip_entry this ifa = Inr None"
      | buf where "check_local_ip_entry this ifa = Inr (Some (this, buf))" by auto
    then show ?thesis using None IH Cons.prems(2) by cases simp_all
  next
    case (Some x)
    with entry show ?thesis by simp
  qed
qed simp



lemma match_wanip_spec:
  "match_wanip_with_localip this = (r, this') \<Longrightarrow>
     (r = RETURN_SUCC \<longleftrightarrow> valid_ipwan this \<and> ip_wan this = ip_local this)
     \<and> (r = RETURN_SUCC \<longrightarrow> ip_ddns_modify this' = ip_wan this)"
  by (auto simp: match_wanip_with_localip_def split: if_splits)

text \<open>The response of the outside server, with any line end, gives the address it holds.\<close>

lemma decode_ipwan_line:
  "set e \<subseteq> {CHR 0x0A, CHR 0x0D} \<Longrightarrow> x = [] \<or> last x \<notin> {CHR 0x0A, CHR 0x0D} \<Longrightarrow>
     decode_ipwan this (x @ e) = this\<lparr>ip_wan := x\<rparr>"
proof -
  assume e: "set e \<subseteq> {CHR 0x0A, CHR 0x0D}" and x: "x = [] \<or> last x \<notin> {CHR 0x0A, CHR 0x0D}"
  have "dropWhile (\<lambda>c. c = CHR 0x0A \<or> c = CHR 0x0D) (rev e @ rev x) =
      dropWhile (\<lambda>c. c = CHR 0x0A \<or> c = CHR 0x0D) (rev x)"
    using e by (subst dropWhile_append2) auto
  also have "\<dots> = rev x" using x by (cases x rule: rev_cases) auto
  finally show ?thesis by (simp add: decode_ipwan_def)
qed

end
