(* ===== verification/Double.thy ===== *)
theory Double
  imports Complex_Main Decimal
begin

text \<open>
  The C type \<^verbatim>\<open>double\<close> as the JSON code uses it: IEEE 754 binary64 with rounding to nearest,
  ties to even. A finite double is its rational value; \<open>Fin 0\<close> is both zeros, which nothing
  in the modelled code tells apart. \<open>rnd\<close> rounds an exact result; an operation is the exact
  operation followed by \<open>rnd\<close>. \<open>dpow10 k\<close> is \<^verbatim>\<open>pow(10.0, k)\<close> of the C library for an integral
  \<open>k\<close>, correctly rounded.

  \<open>dbl_to_int\<close> is the conversion \<^verbatim>\<open>(int)d\<close> on x86, which yields \<open>INT_MIN\<close> for a value that
  does not fit; \<open>dbl_to_u64\<close> is \<^verbatim>\<open>static_cast<uint64_t>(d)\<close>, which faults for one.
\<close>

section \<open>Rounding\<close>

datatype dbl = Fin rat | Inf bool | NaN

fun nbits :: "nat \<Rightarrow> nat" where
  "nbits n = (if n = 0 then 0 else Suc (nbits (n div 2)))"

declare nbits.simps [simp del]

definition floor_log2 :: "rat \<Rightarrow> int" where
  "floor_log2 x =
    (let (p, q) = quotient_of x; k = int (nbits (nat p)) - int (nbits (nat q))
     in if 2 powi k \<le> x then k else k - 1)"

definition round_half_even :: "rat \<Rightarrow> int" where
  "round_half_even y =
    (let f = \<lfloor>y\<rfloor>; r = y - of_int f
     in if r < 1/2 then f else if 1/2 < r then f + 1 else if even f then f else f + 1)"

definition rnd :: "rat \<Rightarrow> dbl" where
  "rnd x =
    (if x = 0 then Fin 0
     else
       let e = max (floor_log2 \<bar>x\<bar> - 52) (-1074);
           v = of_int (round_half_even (x / 2 powi e)) * 2 powi e
       in if 2 ^ 1024 \<le> \<bar>v\<bar> then Inf (x < 0) else Fin v)"

section \<open>Operations\<close>

definition dneg_sign :: "dbl \<Rightarrow> bool" where
  "dneg_sign d = (case d of Fin x \<Rightarrow> x < 0 | Inf s \<Rightarrow> s | NaN \<Rightarrow> False)"

definition dmul :: "dbl \<Rightarrow> dbl \<Rightarrow> dbl" where
  "dmul a b =
    (case (a, b) of
       (Fin x, Fin y) \<Rightarrow> rnd (x * y)
     | (NaN, _) \<Rightarrow> NaN
     | (_, NaN) \<Rightarrow> NaN
     | _ \<Rightarrow> if a = Fin 0 \<or> b = Fin 0 then NaN else Inf (dneg_sign a \<noteq> dneg_sign b))"

definition dadd :: "dbl \<Rightarrow> dbl \<Rightarrow> dbl" where
  "dadd a b =
    (case (a, b) of
       (Fin x, Fin y) \<Rightarrow> rnd (x + y)
     | (NaN, _) \<Rightarrow> NaN
     | (_, NaN) \<Rightarrow> NaN
     | (Inf s, Inf t) \<Rightarrow> if s = t then Inf s else NaN
     | (Inf s, Fin _) \<Rightarrow> Inf s
     | (Fin _, Inf t) \<Rightarrow> Inf t)"

definition dpow10 :: "int \<Rightarrow> dbl" where
  "dpow10 k = (if 400 < k then Inf False else if k < -400 then Fin 0 else rnd (10 powi k))"

definition dsub :: "dbl \<Rightarrow> dbl \<Rightarrow> dbl" where
  "dsub a b = dadd a (case b of Fin y \<Rightarrow> Fin (- y) | Inf s \<Rightarrow> Inf (\<not> s) | NaN \<Rightarrow> NaN)"

definition dabs :: "dbl \<Rightarrow> dbl" where
  "dabs a = (case a of Fin x \<Rightarrow> Fin \<bar>x\<bar> | Inf s \<Rightarrow> Inf False | NaN \<Rightarrow> NaN)"

definition dfloor :: "dbl \<Rightarrow> dbl" where
  "dfloor a = (case a of Fin x \<Rightarrow> Fin (of_int \<lfloor>x\<rfloor>) | Inf s \<Rightarrow> Inf s | NaN \<Rightarrow> NaN)"

text \<open>\<^verbatim>\<open><\<close> and \<^verbatim>\<open><=\<close> of doubles: no comparison with a NaN holds.\<close>

fun dlt :: "dbl \<Rightarrow> dbl \<Rightarrow> bool" where
  "dlt (Fin x) (Fin y) = (x < y)"
| "dlt (Fin x) (Inf s) = (\<not> s)"
| "dlt (Inf s) (Fin y) = s"
| "dlt (Inf s) (Inf t) = (s \<and> \<not> t)"
| "dlt NaN b = False"
| "dlt a NaN = False"

definition dle :: "dbl \<Rightarrow> dbl \<Rightarrow> bool" where
  "dle a b = (dlt a b \<or> a \<noteq> NaN \<and> a = b)"

section \<open>Conversions\<close>

abbreviation INT_MAX :: int where "INT_MAX \<equiv> 2147483647"
abbreviation INT_MIN :: int where "INT_MIN \<equiv> -2147483648"

definition trunc :: "rat \<Rightarrow> int" where
  "trunc r = (if 0 \<le> r then \<lfloor>r\<rfloor> else \<lceil>r\<rceil>)"

definition dbl_to_int :: "dbl \<Rightarrow> int" where
  "dbl_to_int d =
    (case d of
       Fin r \<Rightarrow> if INT_MIN \<le> trunc r \<and> trunc r \<le> INT_MAX then trunc r else INT_MIN
     | _ \<Rightarrow> INT_MIN)"

definition dbl_to_u64 :: "dbl \<Rightarrow> fault + u64" where
  "dbl_to_u64 d =
    (case d of
       Fin r \<Rightarrow> if 0 \<le> trunc r \<and> trunc r < 2 ^ 64 then Inr (of_int (trunc r)) else Inl Bad_cast
     | _ \<Rightarrow> Inl Bad_cast)"

section \<open>Integers up to \<open>2 ^ 53\<close> are exact\<close>

lemma nbits_bounds: "0 < n \<Longrightarrow> 0 < nbits n \<and> 2 ^ (nbits n - 1) \<le> n \<and> n < 2 ^ nbits n"
proof (induction n rule: nbits.induct)
  case (1 n)
  show ?case
  proof (cases "n < 2")
    case True
    with 1(2) have "n = 1" by simp
    then show ?thesis by (simp add: nbits.simps)
  next
    case False
    then have h: "0 < n div 2" and n: "2 * (n div 2) \<le> n" "n < 2 * (n div 2) + 2" by auto
    with 1(1) 1(2) have IH: "0 < nbits (n div 2)" "2 ^ (nbits (n div 2) - 1) \<le> n div 2"
      "n div 2 < 2 ^ nbits (n div 2)" by auto
    have nb: "nbits n = Suc (nbits (n div 2))" using 1(2) by (subst nbits.simps) simp
    have "2 ^ nbits (n div 2) = 2 * (2 :: nat) ^ (nbits (n div 2) - 1)"
      using IH(1) by (simp add: power_eq_if)
    then have "2 ^ nbits (n div 2) \<le> n" "n < 2 * 2 ^ nbits (n div 2)"
      using IH(2,3) n by linarith+
    then show ?thesis by (simp add: nb)
  qed
qed

lemma nbits_bounds_rat:
  assumes "0 < p"
  shows "0 < nbits (nat p)" "(2 :: rat) ^ (nbits (nat p) - 1) \<le> of_int p"
    "of_int p < (2 :: rat) ^ nbits (nat p)"
proof -
  have n: "0 < nbits (nat p)" "2 ^ (nbits (nat p) - 1) \<le> nat p" "nat p < 2 ^ nbits (nat p)"
    using nbits_bounds [of "nat p"] assms by auto
  have p: "of_int p = (of_nat (nat p) :: rat)" using assms by simp
  show "0 < nbits (nat p)" by (rule n(1))
  have "of_nat (2 ^ (nbits (nat p) - 1)) \<le> (of_nat (nat p) :: rat)"
    using n(2) by (rule of_nat_mono)
  then show "(2 :: rat) ^ (nbits (nat p) - 1) \<le> of_int p"
    by (simp only: p of_nat_power of_nat_numeral)
  have "(of_nat (nat p) :: rat) < of_nat (2 ^ nbits (nat p))"
    using n(3) by (simp only: of_nat_less_iff)
  then show "of_int p < (2 :: rat) ^ nbits (nat p)"
    by (simp only: p of_nat_power of_nat_numeral)
qed

lemma floor_log2_le:
  assumes "0 < x"
  shows "2 powi (floor_log2 x) \<le> x"
proof -
  obtain p q where pq: "quotient_of x = (p, q)" by (cases "quotient_of x")
  have x: "x = of_int p / of_int q" and q: "0 < q"
    using quotient_of_div [OF pq] quotient_of_denom_pos [OF pq] by auto
  with assms have p: "0 < p" by (simp add: zero_less_divide_iff)
  let ?a = "nbits (nat p)" and ?b = "nbits (nat q)"
  have eq: "int ?a - int ?b - 1 = int (?a - 1) - int ?b"
    using nbits_bounds_rat(1) [OF p] by simp
  have "(2 :: rat) powi (int ?a - int ?b - 1) = 2 ^ (?a - 1) / 2 ^ ?b"
    unfolding eq by (subst power_int_diff) simp_all
  also have "\<dots> \<le> of_int p / of_int q"
    by (rule frac_le) (use nbits_bounds_rat(2) [OF p] nbits_bounds_rat(3) [OF q] p q in simp_all)
  finally have "2 powi (int ?a - int ?b - 1) \<le> x" using x by simp
  then show ?thesis by (simp add: floor_log2_def pq Let_def)
qed

lemma round_half_even_int [simp]: "round_half_even (of_int k) = k"
  by (simp add: round_half_even_def)

lemma rnd_exact:
  assumes "x \<noteq> 0" and "x / 2 powi (max (floor_log2 \<bar>x\<bar> - 52) (-1074)) = of_int k" and "\<bar>x\<bar> < 2 ^ 1024"
  shows "rnd x = Fin x"
proof -
  let ?e = "max (floor_log2 \<bar>x\<bar> - 52) (-1074)"
  have "of_int k * 2 powi ?e = x" using assms(2) by (metis nonzero_eq_divide_eq power_int_eq_0_iff zero_neq_numeral)
  then show ?thesis using assms unfolding rnd_def Let_def assms(2) by simp
qed

lemma rnd_of_int:
  assumes "\<bar>n\<bar> \<le> 2 ^ 53"
  shows "rnd (of_int n) = Fin (of_int n)"
proof (cases "n = 0")
  case True
  then show ?thesis by (simp add: rnd_def)
next
  case False
  let ?x = "of_int n :: rat"
  define f where "f = floor_log2 \<bar>?x\<bar>"
  define e where "e = max (f - 52) (-1074)"
  have le: "2 powi f \<le> \<bar>?x\<bar>" unfolding f_def by (rule floor_log2_le) (use False in simp)
  have "of_int \<bar>n\<bar> \<le> (of_int (2 ^ 53) :: rat)" using assms by (rule of_int_le_iff [THEN iffD2])
  then have ub: "\<bar>?x\<bar> \<le> 2 ^ 53" by (simp only: of_int_abs of_int_power of_int_numeral)
  have f: "f \<le> 53"
  proof (rule ccontr)
    assume "\<not> f \<le> 53"
    then have "(2 :: rat) powi 53 < 2 powi f" by (intro power_int_strict_increasing) simp_all
    with le ub show False by simp
  qed
  have "\<exists>k. ?x / 2 powi e = of_int k"
  proof (cases "f = 53")
    case True
    with le ub have "\<bar>?x\<bar> = 2 ^ 53" by simp
    then have "n = 2 ^ 53 \<or> n = - (2 ^ 53)" by (simp add: abs_if split: if_splits)
    moreover have "e = 1" using True by (simp add: e_def)
    moreover have "(of_int (2 ^ 53) :: rat) / 2 powi 1 = of_int (2 ^ 52)"
      "(of_int (- (2 ^ 53)) :: rat) / 2 powi 1 = of_int (- (2 ^ 52))" by simp_all
    ultimately show ?thesis by metis
  next
    case False
    with f have "e \<le> 0" by (simp add: e_def)
    then have "2 powi e = inverse (2 ^ nat (- e) :: rat)" by (auto simp: power_int_def power_inverse [symmetric])
    then have "?x / 2 powi e = of_int (n * 2 ^ nat (- e))" by (simp add: divide_inverse)
    then show ?thesis by blast
  qed
  then obtain k where "?x / 2 powi e = of_int k" ..
  then have "?x / 2 powi (max (floor_log2 \<bar>?x\<bar> - 52) (-1074)) = of_int k"
    unfolding e_def f_def .
  moreover have "\<bar>?x\<bar> < 2 ^ 1024" using ub by (rule le_less_trans) simp
  moreover have "?x \<noteq> 0" using False by simp
  ultimately show ?thesis by (intro rnd_exact)
qed

end
