(* ===== verification/Cjson.thy ===== *)
theory Cjson
  imports Double
begin

text \<open>
  The data of \<^verbatim>\<open>util/tretap_CJSON.c\<close>: its node type, the constructor, the queries and the
  copy of a tree.

  A node is the C structure with the sibling chain \<open>next\<close>/\<open>prev\<close> of its children as the list
  \<open>child\<close>; a null \<open>char *\<close> is \<open>None\<close>. Strings hold no NUL byte. The allocator
  \<open>ddns_mem_alloc\<close> runs over a schedule, the list of the outcomes of the next calls of
  \<^verbatim>\<open>malloc\<close>; a schedule that has run out succeeds, so \<open>[]\<close> is a run with enough memory.
\<close>

section \<open>Allocation\<close>

type_synonym sched = "bool list"

definition ddns_mem_alloc :: "nat \<Rightarrow> sched \<Rightarrow> bool \<times> sched" where
  "ddns_mem_alloc sz m =
    (if sz = 0 then (False, m) else case m of [] \<Rightarrow> (True, []) | ok # m' \<Rightarrow> (ok, m'))"

lemma ddns_mem_alloc_Nil [c_simps]: "0 < n \<Longrightarrow> ddns_mem_alloc n [] = (True, [])"
  by (simp add: ddns_mem_alloc_def)

section \<open>Nodes\<close>

datatype cjson = CJson (jtype: nat) (valuestring: "string option") (valueint: int)
  (valuedouble: dbl) (jstring: "string option") (child: "cjson list")

abbreviation (input) "J_False \<equiv> 0 :: nat"
abbreviation (input) "J_True \<equiv> 1 :: nat"
abbreviation (input) "J_NULL \<equiv> 2 :: nat"
abbreviation (input) "J_Number \<equiv> 3 :: nat"
abbreviation (input) "J_String \<equiv> 4 :: nat"
abbreviation (input) "J_Array \<equiv> 5 :: nat"
abbreviation (input) "J_Object \<equiv> 6 :: nat"
abbreviation (input) "IsReference \<equiv> 256 :: nat"
abbreviation (input) "StringIsConst \<equiv> 512 :: nat"

definition blank_item :: cjson where
  "blank_item = CJson 0 None 0 (Fin 0) None []"

definition New_Item :: "sched \<Rightarrow> cjson option \<times> sched" where
  "New_Item m = (case ddns_mem_alloc 64 m of (ok, m') \<Rightarrow> (if ok then Some blank_item else None, m'))"

definition set_jtype :: "nat \<Rightarrow> cjson \<Rightarrow> cjson" where
  "set_jtype t c = CJson t (valuestring c) (valueint c) (valuedouble c) (jstring c) (child c)"

definition set_valuestring :: "string option \<Rightarrow> cjson \<Rightarrow> cjson" where
  "set_valuestring s c = CJson (jtype c) s (valueint c) (valuedouble c) (jstring c) (child c)"

definition set_valueint :: "int \<Rightarrow> cjson \<Rightarrow> cjson" where
  "set_valueint i c = CJson (jtype c) (valuestring c) i (valuedouble c) (jstring c) (child c)"

definition set_valuedouble :: "dbl \<Rightarrow> cjson \<Rightarrow> cjson" where
  "set_valuedouble d c = CJson (jtype c) (valuestring c) (valueint c) d (jstring c) (child c)"

definition set_jstring :: "string option \<Rightarrow> cjson \<Rightarrow> cjson" where
  "set_jstring s c = CJson (jtype c) (valuestring c) (valueint c) (valuedouble c) s (child c)"

definition set_child :: "cjson list \<Rightarrow> cjson \<Rightarrow> cjson" where
  "set_child cs c = CJson (jtype c) (valuestring c) (valueint c) (valuedouble c) (jstring c) cs"

lemmas cjson_setters = set_jtype_def set_valuestring_def set_valueint_def set_valuedouble_def
  set_jstring_def set_child_def blank_item_def

lemma New_Item_Nil [c_simps]: "New_Item [] = (Some blank_item, [])"
  by (simp add: New_Item_def ddns_mem_alloc_def)

lemma New_Item_SomeD: "New_Item m = (Some c, m') \<Longrightarrow> c = blank_item"
  by (auto simp: New_Item_def split: prod.splits if_splits)

definition cjson_strdup :: "string \<Rightarrow> sched \<Rightarrow> string option \<times> sched" where
  "cjson_strdup s m =
    (case ddns_mem_alloc (length s + 1) m of (ok, m') \<Rightarrow> (if ok then Some s else None, m'))"

lemma cjson_strdup_Nil [c_simps]: "cjson_strdup s [] = (Some s, [])"
  by (simp add: cjson_strdup_def ddns_mem_alloc_def)

section \<open>Comparing names\<close>

definition tolower :: "char \<Rightarrow> char" where
  "tolower c = (if CHR ''A'' \<le> c \<and> c \<le> CHR ''Z'' then char_of (ord c + 32) else c)"

fun strcasecmp_loop :: "string \<Rightarrow> string \<Rightarrow> int" where
  "strcasecmp_loop [] [] = 0"
| "strcasecmp_loop [] (c # _) = - int (ord (tolower c))"
| "strcasecmp_loop (c # _) [] = int (ord (tolower c))"
| "strcasecmp_loop (c # s) (d # t) =
    (if tolower c = tolower d then strcasecmp_loop s t
     else int (ord (tolower c)) - int (ord (tolower d)))"

definition cjson_strcasecmp :: "string option \<Rightarrow> string option \<Rightarrow> int" where
  "cjson_strcasecmp s1 s2 =
    (case (s1, s2) of
       (None, None) \<Rightarrow> 0
     | (None, Some _) \<Rightarrow> 1
     | (Some _, None) \<Rightarrow> 1
     | (Some a, Some b) \<Rightarrow> strcasecmp_loop a b)"

lemma ord_eq_0: "ord c = (0 :: nat) \<longleftrightarrow> c = NUL"
proof -
  have "ord c = (0 :: nat) \<longleftrightarrow> ord c = (ord NUL :: nat)" by simp
  then show ?thesis by (simp only: of_char_eq_iff)
qed

lemma tolower_eq_NUL [simp]: "tolower c = NUL \<longleftrightarrow> c = NUL"
proof (cases "CHR ''A'' \<le> c \<and> c \<le> CHR ''Z''")
  case True
  then have "ord (tolower c) = ord c + 32"
    by (simp add: tolower_def less_eq_char_def)
  then have "tolower c \<noteq> NUL" by (metis ord_eq_0 add_is_0 zero_neq_numeral)
  with True show ?thesis by (auto simp: less_eq_char_def)
next
  case False
  then have "tolower c = c" unfolding tolower_def by (rule if_not_P)
  then show ?thesis by simp
qed

lemma strcasecmp_loop_0_iff:
  assumes "NUL \<notin> set s" and "NUL \<notin> set t"
  shows "strcasecmp_loop s t = 0 \<longleftrightarrow> map tolower s = map tolower t"
  using assms by (induction s t rule: strcasecmp_loop.induct) 
    (auto simp: order.strict_iff_not ord_eq_0 eq_commute [of NUL])

section \<open>Queries\<close>

definition GetArraySize :: "cjson \<Rightarrow> nat" where
  "GetArraySize array = length (child array)"

fun nth_sibling :: "cjson list \<Rightarrow> int \<Rightarrow> cjson option" where
  "nth_sibling [] item = None"
| "nth_sibling (c # cs) item = (if 0 < item then nth_sibling cs (item - 1) else Some c)"

definition GetArrayItem :: "cjson \<Rightarrow> int \<Rightarrow> cjson option" where
  "GetArrayItem array item = nth_sibling (child array) item"

fun named_sibling :: "cjson list \<Rightarrow> string option \<Rightarrow> cjson option" where
  "named_sibling [] name = None"
| "named_sibling (c # cs) name =
    (if cjson_strcasecmp (jstring c) name \<noteq> 0 then named_sibling cs name else Some c)"

definition GetObjectItem :: "cjson \<Rightarrow> string option \<Rightarrow> cjson option" where
  "GetObjectItem obj name = named_sibling (child obj) name"

lemma GetArrayItem_nth:
  "GetArrayItem array (int i) = (if i < GetArraySize array then Some (child array ! i) else None)"
proof -
  have "nth_sibling cs (int i) = (if i < length cs then Some (cs ! i) else None)" for cs
    by (induction cs arbitrary: i) (auto simp: nth_Cons split: nat.splits)
  then show ?thesis by (simp add: GetArrayItem_def GetArraySize_def)
qed

text \<open>\<open>has_name n c\<close>: the node carries the name \<open>n\<close> up to the case of ASCII letters.\<close>

definition has_name :: "string \<Rightarrow> cjson \<Rightarrow> bool" where
  "has_name n c \<longleftrightarrow> (\<exists>s. jstring c = Some s \<and> map tolower s = map tolower n)"

definition name_ok :: "cjson \<Rightarrow> bool" where
  "name_ok c \<longleftrightarrow> (\<forall>s. jstring c = Some s \<longrightarrow> NUL \<notin> set s)"

lemma cjson_strcasecmp_has_name:
  assumes "name_ok c" and "NUL \<notin> set n"
  shows "cjson_strcasecmp (jstring c) (Some n) = 0 \<longleftrightarrow> has_name n c"
  using assms strcasecmp_loop_0_iff
  by (auto simp: cjson_strcasecmp_def has_name_def name_ok_def split: option.splits)

lemma named_sibling_find:
  assumes "\<forall>c\<in>set cs. name_ok c" and "NUL \<notin> set n"
  shows "named_sibling cs (Some n) = find (has_name n) cs"
  using assms by (induction cs) (auto simp: cjson_strcasecmp_has_name)

section \<open>Copying a tree\<close>

text \<open>\<open>mbind\<close>: an allocation that failed ends the operation with a null pointer.\<close>

definition mbind :: "'a option \<times> sched \<Rightarrow> ('a \<Rightarrow> sched \<Rightarrow> 'b option \<times> sched) \<Rightarrow> 'b option \<times> sched" where
  "mbind r f = (case r of (None, m) \<Rightarrow> (None, m) | (Some x, m) \<Rightarrow> f x m)"

lemma mbind_simps [simp]:
  "mbind (None, m) f = (None, m)"
  "mbind (Some x, m) f = f x m"
  by (simp_all add: mbind_def)

lemma mbind_cong [fundef_cong]:
  "r = r' \<Longrightarrow> (\<And>x m. r' = (Some x, m) \<Longrightarrow> f x m = g x m) \<Longrightarrow> mbind r f = mbind r' g"
  by (cases r'; cases "fst r'") auto

lemma mbind_SomeD: "mbind r f = (Some y, m') \<Longrightarrow> \<exists>x m. r = (Some x, m) \<and> f x m = (Some y, m')"
  by (cases r; cases "fst r") auto

definition strdup_field :: "string option \<Rightarrow> sched \<Rightarrow> string option option \<times> sched" where
  "strdup_field s m =
    (case s of None \<Rightarrow> (Some None, m) | Some t \<Rightarrow> mbind (cjson_strdup t m) (\<lambda>u m. (Some (Some u), m)))"

fun Duplicate :: "cjson \<Rightarrow> bool \<Rightarrow> sched \<Rightarrow> cjson option \<times> sched"
  and Duplicate_children :: "cjson list \<Rightarrow> sched \<Rightarrow> cjson list option \<times> sched" where
  "Duplicate (CJson ty vs vi vd nm cs) recurse m =
    mbind (New_Item m) (\<lambda>new m.
      let new = set_valuedouble vd (set_valueint vi (set_jtype (unset_bit 8 ty) new)) in
      mbind (strdup_field vs m) (\<lambda>s m.
        let new = set_valuestring s new in
        mbind (strdup_field nm m) (\<lambda>n m.
          let new = set_jstring n new in
          if \<not> recurse then (Some new, m)
          else mbind (Duplicate_children cs m) (\<lambda>ds m. (Some (set_child ds new), m)))))"
| "Duplicate_children [] m = (Some [], m)"
| "Duplicate_children (c # cs) m =
    mbind (Duplicate c True m) (\<lambda>d m.
      mbind (Duplicate_children cs m) (\<lambda>ds m. (Some (d # ds), m)))"

primrec no_refs :: "cjson \<Rightarrow> cjson" where
  "no_refs (CJson ty vs vi vd nm cs) = CJson (unset_bit 8 ty) vs vi vd nm (map no_refs cs)"

lemma strdup_field_cases: "strdup_field s m = (Some t, m') \<Longrightarrow> t = s"
  by (auto simp: strdup_field_def cjson_strdup_def split: option.splits prod.splits if_splits
      dest!: mbind_SomeD)

lemma strdup_field_Nil [c_simps]: "strdup_field s [] = (Some s, [])"
  by (simp add: strdup_field_def c_simps split: option.split)

lemma Duplicate_children_map:
  assumes "\<And>c m d m'. c \<in> set cs \<Longrightarrow> Duplicate c True m = (Some d, m') \<Longrightarrow> d = no_refs c"
    and "Duplicate_children cs m = (Some ds, m')"
  shows "ds = map no_refs cs"
  using assms
proof (induction cs arbitrary: m ds)
  case (Cons c cs)
  from Cons.prems(2) obtain d m1 ds' where c: "Duplicate c True m = (Some d, m1)"
    and cs: "Duplicate_children cs m1 = (Some ds', m')" and ds: "ds = d # ds'"
    by (auto dest!: mbind_SomeD)
  have "d = no_refs c" by (rule Cons.prems(1) [OF _ c]) simp
  moreover have "ds' = map no_refs cs" by (rule Cons.IH [OF _ cs]) (use Cons.prems(1) in auto)
  ultimately show ?case by (simp add: ds)
qed simp

lemma Duplicate_result:
  "Duplicate c r m = (Some d, m') \<Longrightarrow> d = (if r then no_refs c else set_child [] (no_refs c))"
proof (induction c arbitrary: r m d m')
  case (CJson ty vs vi vd nm cs)
  have IH: "d = no_refs c" if "c \<in> set cs" "Duplicate c True m = (Some d, m')" for c m d m'
    using CJson.IH [OF that] by simp
  have IH': "ds = map no_refs cs" if "Duplicate_children cs m = (Some ds, m')" for ds m m'
    by (rule Duplicate_children_map [OF IH that])
  from CJson.prems show ?case
    by (auto simp: Let_def cjson_setters dest!: mbind_SomeD New_Item_SomeD strdup_field_cases
        split: if_splits dest!: IH')
qed

lemma Duplicate_Nil:
  "Duplicate c r [] = (Some (if r then no_refs c else set_child [] (no_refs c)), [])"
proof (induction c arbitrary: r)
  case (CJson ty vs vi vd nm cs)
  have IH: "Duplicate c True [] = (Some (no_refs c), [])" if "c \<in> set cs" for c
    using CJson.IH [OF that] by simp
  then have "Duplicate_children cs [] = (Some (map no_refs cs), [])" by (induction cs) auto
  then show ?case by (simp add: c_simps cjson_setters)
qed

text \<open>
  \<open>tretap_CJson_Duplicate\<close>, whatever calls of the allocator fail, returns either a null
  pointer or the exact copy of its argument with the reference marks cleared: the whole tree, the
  children in their order, when it recurses, the node alone when it does not. It returns the copy
  when memory suffices.
\<close>

lemma Duplicate_faithful:
  "fst (Duplicate c r m) \<in> {None, Some (if r then no_refs c else set_child [] (no_refs c))} \<and>
   fst (Duplicate c r []) = Some (if r then no_refs c else set_child [] (no_refs c))"
  using Duplicate_result [of c r m] Duplicate_Nil [of c r]
  by (cases "Duplicate c r m"; cases "fst (Duplicate c r m)") auto

end
