(* ===== verification/Http.thy ===== *)
theory Http
  imports Ip_Address Cjson
begin

text \<open>
  The world outside the program, and the transport \<^verbatim>\<open>curl_request\<close> of
  \<^verbatim>\<open>util/curl_request_api.cpp\<close>.

  \<open>env\<close> collects what the program takes from code that is not its own: the digests of OpenSSL,
  the answers of libcurl, the clock, the interfaces of the host, the outcome of its memory
  requests. Each may depend on the requests sent so far. The state the network sees is the list
  of these requests, \<open>sent\<close>. Headers and bodies are the C strings libcurl receives.
\<close>

section \<open>The environment\<close>

record request =
  req_method :: string
  req_url :: string
  req_headers :: "string list"
  req_body :: "string option"

text \<open>
  One use of a curl handle: \<^verbatim>\<open>curl_easy_init\<close> failed, or \<^verbatim>\<open>curl_easy_perform\<close> returned with or
  without an error after the given calls of the write callback.
\<close>

datatype curl_outcome = Curl_init_failed | Curl_performed bool "string list"

record env =
  e_sha256 :: "u8 list \<Rightarrow> u8 list"
  e_hmac :: "u8 list \<Rightarrow> u8 list \<Rightarrow> u8 list"
  e_curl :: "request list \<Rightarrow> request \<Rightarrow> curl_outcome"
  e_time :: "request list \<Rightarrow> u64"
  e_sched :: "request list \<Rightarrow> sched"
  e_config :: string
  e_ifaddrs :: "ifaddrs list"

section \<open>Requests\<close>

text \<open>
  \<^verbatim>\<open>record_info_write_cb\<close> and \<^verbatim>\<open>check_wan_ip_handle_cb\<close>: append the \<open>size * nmemb\<close> bytes of
  the call and report all of them taken.
\<close>

definition write_cb :: "string \<Rightarrow> string \<Rightarrow> nat \<times> string" where
  "write_cb contents resp = (length contents, resp @ contents)"

fun run_callbacks :: "string list \<Rightarrow> string \<Rightarrow> string" where
  "run_callbacks [] resp = resp"
| "run_callbacks (c # cs) resp = run_callbacks cs (snd (write_cb c resp))"

definition curl_slist_append :: "string list \<Rightarrow> string \<Rightarrow> string list" where
  "curl_slist_append headers h = headers @ [c_str h]"

text \<open>
  A failed \<^verbatim>\<open>curl_easy_init\<close> makes the function return \<^verbatim>\<open>NULL\<close> as a \<^verbatim>\<open>std::string\<close>, a
  construction from a null pointer; a failed transfer returns what arrived before the error.
\<close>

definition curl_request ::
  "env \<Rightarrow> string \<Rightarrow> string \<Rightarrow> string option \<Rightarrow> string list \<Rightarrow> request list \<Rightarrow> (fault + string) \<times> request list"
where
  "curl_request env url method post_fields headers sent =
    (let req = \<lparr>req_method = c_str method, req_url = c_str url, req_headers = headers,
                req_body = map_option c_str post_fields\<rparr>
     in case e_curl env sent req of
          Curl_init_failed \<Rightarrow> (Inl Null_deref, sent)
        | Curl_performed ok chunks \<Rightarrow> (Inr (run_callbacks chunks []), sent @ [req]))"

lemma run_callbacks_concat [c_simps]: "run_callbacks cs resp = resp @ concat cs"
  by (induction cs arbitrary: resp) (simp_all add: write_cb_def)

lemma curl_request_sent:
  "snd (curl_request env url method body headers sent) = sent \<or>
   snd (curl_request env url method body headers sent) =
     sent @ [\<lparr>req_method = c_str method, req_url = c_str url, req_headers = headers,
              req_body = map_option c_str body\<rparr>]"
  by (auto simp: curl_request_def Let_def split: curl_outcome.split)

text \<open>A concrete environment, for closed instances of the theorems: an echo of digests, a silent service.\<close>

definition sample_env :: env where
  "sample_env = \<lparr>e_sha256 = (\<lambda>xs. [of_nat (length xs)]), e_hmac = (\<lambda>k m. k @ m),
     e_curl = (\<lambda>sent req. Curl_performed True [''{}'']), e_time = (\<lambda>sent. 1700000000),
     e_sched = (\<lambda>sent. []), e_config = ''keyid=AKID'' @ [CHR 0x0A] @ ''key=SK'', e_ifaddrs = []\<rparr>"

end
