(* ===== verification/Hex.thy ===== *)
theory Hex
  imports Prelude
begin

text \<open>
  \<^verbatim>\<open>HexEncode\<close>, \<^verbatim>\<open>sha256Hex\<close> and \<^verbatim>\<open>HmacSha256\<close> of
  \<^verbatim>\<open>src/src/x86/develop/cloudTencent/custom_cloudTencent.cpp\<close>.

  The digests come from OpenSSL: \<open>sha256\<close> (bytes to digest bytes) and \<open>hmac\<close> (key and
  message to digest bytes) are parameters of the two functions that call them. What is
  modelled is what the program does with the digest: \<open>sha256Hex\<close> prints each byte with
  \<^verbatim>\<open>snprintf(buf, 3, "%02x", b)\<close>, \<open>HmacSha256\<close> returns the raw bytes.
  \<open>hex_decode\<close> is the reference inverse.
\<close>

section \<open>The functions\<close>

definition hex_lut :: string where
  "hex_lut = ''0123456789abcdef''"

fun HexEncode_loop :: "string \<Rightarrow> string \<Rightarrow> string" where
  "HexEncode_loop [] out = out"
| "HexEncode_loop (i # input) out =
    (let c = byte_of_char i
     in HexEncode_loop input
          (out @ [hex_lut ! unat (drop_bit 4 c)] @ [hex_lut ! unat (c AND 15)]))"

definition HexEncode :: "string \<Rightarrow> string" where
  "HexEncode input = HexEncode_loop input []"

text \<open>
  \<open>%x\<close> prints an unsigned number in base 16 without leading zeros; the flag and the width
  of \<open>%02x\<close> fill up with zeros to two characters.
\<close>

fun print_x :: "nat \<Rightarrow> string" where
  "print_x n = (if n < 16 then [''0123456789abcdef'' ! n]
                else print_x (n div 16) @ [''0123456789abcdef'' ! (n mod 16)])"

definition print_02x :: "nat \<Rightarrow> string" where
  "print_02x n = (let s = print_x n in replicate (2 - length s) CHR ''0'' @ s)"

declare print_x.simps [simp del]

fun sha256Hex_loop :: "u8 list \<Rightarrow> string \<Rightarrow> string" where
  "sha256Hex_loop [] NewString = NewString"
| "sha256Hex_loop (b # hash) NewString = sha256Hex_loop hash (NewString @ print_02x (unat b))"

definition sha256Hex :: "(u8 list \<Rightarrow> u8 list) \<Rightarrow> string \<Rightarrow> string" where
  "sha256Hex sha256 str = sha256Hex_loop (sha256 (map byte_of_char str)) []"

definition HmacSha256 :: "(u8 list \<Rightarrow> u8 list \<Rightarrow> u8 list) \<Rightarrow> string \<Rightarrow> string \<Rightarrow> string" where
  "HmacSha256 hmac key input = map char_of_byte (hmac (map byte_of_char key) (map byte_of_char input))"

section \<open>The reference decoder\<close>

fun hex_digit :: "char \<Rightarrow> nat option" where
  "hex_digit c = (if c \<in> set ''0123456789'' then Some (ord c - 48)
                  else if c \<in> set ''abcdef'' then Some (ord c - 87) else None)"

fun hex_decode :: "string \<Rightarrow> string option" where
  "hex_decode [] = Some []"
| "hex_decode (a # b # s) =
    (case (hex_digit a, hex_digit b, hex_decode s) of
       (Some h, Some l, Some r) \<Rightarrow> Some (char_of (16 * h + l) # r)
     | _ \<Rightarrow> None)"
| "hex_decode _ = None"

section \<open>Correctness\<close>

lemma hex_lut_digit: "k < 16 \<Longrightarrow> hex_digit (hex_lut ! k) = Some k"
proof -
  have "list_all (\<lambda>k. hex_digit (hex_lut ! k) = Some k) [0..<16]" by code_simp
  then show "k < 16 \<Longrightarrow> ?thesis" by (simp add: list_all_iff)
qed

lemma unat_nibbles:
  "unat (drop_bit 4 (b :: u8)) = unat b div 16"
  "unat (b AND 15) = unat b mod 16"
proof -
  show "unat (drop_bit 4 b) = unat b div 16"
    using unat_u8_lt [of b]
    by (simp only: unsigned_drop_bit_eq) (simp add: drop_bit_eq_div take_bit_nat_eq_self)
  have "b AND 15 = take_bit 4 b" by (simp add: take_bit_eq_mask mask_eq_exp_minus_1)
  then show "unat (b AND 15) = unat b mod 16"
    by (simp only: unsigned_take_bit_eq) (simp add: take_bit_eq_mod)
qed

definition hex_pair :: "char \<Rightarrow> string" where
  "hex_pair c = [hex_lut ! (ord c div 16), hex_lut ! (ord c mod 16)]"

lemma HexEncode_loop_concat: "HexEncode_loop input out = out @ concat (map hex_pair input)"
  by (induction input arbitrary: out) (simp_all add: unat_nibbles hex_pair_def Let_def)

lemma HexEncode_concat: "HexEncode input = concat (map hex_pair input)"
  by (simp add: HexEncode_def HexEncode_loop_concat)

lemma length_HexEncode [bound_simps]: "length (HexEncode s) = 2 * length s"
  by (induction s) (simp_all add: HexEncode_concat hex_pair_def)

lemma ord_lt: "ord c < 256"
  by (rule nat_of_char_less_256)

lemma hex_decode_encode: "hex_decode (HexEncode s) = Some s"
proof (induction s)
  case Nil
  then show ?case by (simp add: HexEncode_concat)
next
  case (Cons c s)
  have "ord c div 16 < 16" using ord_lt [of c] by (simp add: less_mult_imp_div_less)
  then have "hex_digit (hex_lut ! (ord c div 16)) = Some (ord c div 16)"
    "hex_digit (hex_lut ! (ord c mod 16)) = Some (ord c mod 16)"
    by (simp_all add: hex_lut_digit del: hex_digit.simps)
  with Cons show ?case
    by (simp add: HexEncode_concat hex_pair_def del: hex_digit.simps)
qed

interpretation hex: codec HexEncode hex_decode "\<lambda>_. True"
  by unfold_locales (rule hex_decode_encode)

lemma print_02x_pair: "print_02x (unat b) = hex_pair (char_of_byte b)"
proof -
  have b: "unat b < 256" by (rule unat_u8_lt)
  have ord: "ord (char_of_byte b) = unat b" using b by (simp add: char_of_byte_def)
  show ?thesis
  proof (cases "unat b < 16")
    case True
    then show ?thesis
      by (simp add: print_02x_def print_x.simps [of "unat b"] hex_pair_def ord hex_lut_def)
  next
    case False
    have "unat b div 16 < 16" using b by simp
    with False show ?thesis
      by (simp add: print_02x_def print_x.simps [of "unat b"] print_x.simps [of "unat b div 16"]
          hex_pair_def ord hex_lut_def)
  qed
qed

lemma sha256Hex_loop_concat:
  "sha256Hex_loop hash s = s @ concat (map (\<lambda>b. hex_pair (char_of_byte b)) hash)"
  by (induction hash arbitrary: s) (simp_all add: print_02x_pair)

lemma sha256Hex_HexEncode:
  "sha256Hex sha256 str = HexEncode (map char_of_byte (sha256 (map byte_of_char str)))"
  by (simp add: sha256Hex_def sha256Hex_loop_concat HexEncode_concat comp_def)

lemma HexEncode_chars: "c \<in> set (HexEncode s) \<Longrightarrow> c \<in> set hex_lut"
proof -
  have "length hex_lut = 16" by (simp add: hex_lut_def)
  moreover have "ord d div 16 < 16" for d using ord_lt [of d] by (simp add: less_mult_imp_div_less)
  ultimately show "c \<in> set (HexEncode s) \<Longrightarrow> ?thesis"
    by (auto simp: HexEncode_concat hex_pair_def intro!: nth_mem)
qed

lemma HexEncode_no_NUL: "NUL \<notin> set (HexEncode s)"
  using HexEncode_chars [of NUL s] by (auto simp: hex_lut_def)

text \<open>
  \<open>HexEncode\<close> is a faithful, injective rendering: the lower-case digits it writes, two
  per byte, decode to the input, and two inputs with the same text are equal.
\<close>

lemma HexEncode_roundtrip:
  "hex_decode (HexEncode s) = Some s \<and> length (HexEncode s) = 2 * length s
   \<and> (HexEncode s = HexEncode t \<longrightarrow> s = t)"
  using hex_decode_encode length_HexEncode hex.enc_eq_iff [of s t] by simp

lemma HexEncode_roundtrip_instance:
  "HexEncode ''Az'' = ''417a'' \<and> hex_decode (HexEncode ''Az'') = Some ''Az''"
proof -
  have "HexEncode ''Az'' = ''417a''" by code_simp
  then show ?thesis using HexEncode_roundtrip [of "''Az''" "''Az''"] by simp
qed

text \<open>
  The two hexadecimal printers of the signing code agree: \<open>sha256Hex\<close>, which prints
  with \<open>%02x\<close>, is \<open>HexEncode\<close> of the raw digest bytes, whatever the digest function.
\<close>

lemma sha256Hex_is_HexEncode:
  "sha256Hex sha256 str = HexEncode (map char_of_byte (sha256 (map byte_of_char str)))"
  by (rule sha256Hex_HexEncode)

end
