(* ===== verification/Cjson_Parse.thy ===== *)
theory Cjson_Parse
  imports Cjson
begin

text \<open>
  The JSON parser of \<^verbatim>\<open>util/tretap_CJSON.c\<close>: \<open>parse_hex4\<close>, \<open>parse_string\<close>,
  \<open>parse_number\<close>, \<open>parse_value\<close>, \<open>parse_array\<close>, \<open>parse_object\<close> and
  \<open>tretap_CJson_Parse\<close>.

  The pointer into the text is the suffix it points at. A parser returns \<open>POk\<close> with its
  result, the advanced pointer and the allocation schedule; \<open>PFail e\<close> for the null pointer, where
  \<open>e\<close> is the value of the global \<open>ep\<close> (\<open>None\<close> after a failed allocation);
  \<open>PFault\<close> for an undefined operation. The recursion of \<open>parse_value\<close> and the loops over
  the elements carry fuel; \<open>PFuel\<close> is its end, which \<open>Cjson_Parse_Correct\<close> excludes for the
  fuel \<open>ParseWithOpts\<close> provides. The length counters of type \<^verbatim>\<open>int\<close> are unbounded here, so
  the model is of texts below 2 GiB.
\<close>

section \<open>Results\<close>

datatype 'a parse = POk 'a string sched | PFail "string option" | PFault fault | PFuel

definition pbind :: "'a parse \<Rightarrow> ('a \<Rightarrow> string \<Rightarrow> sched \<Rightarrow> 'b parse) \<Rightarrow> 'b parse" where
  "pbind r f = (case r of POk x s m \<Rightarrow> f x s m | PFail e \<Rightarrow> PFail e | PFault u \<Rightarrow> PFault u | PFuel \<Rightarrow> PFuel)"

definition plift :: "fault + 'a \<Rightarrow> ('a \<Rightarrow> 'b parse) \<Rightarrow> 'b parse" where
  "plift r f = (case r of Inl u \<Rightarrow> PFault u | Inr x \<Rightarrow> f x)"

lemma pbind_simps [simp]:
  "pbind (POk x s m) f = f x s m"
  "pbind (PFail e) f = PFail e"
  "pbind (PFault u) f = PFault u"
  "pbind PFuel f = PFuel"
  by (simp_all add: pbind_def)

lemma plift_simps [simp]: "plift (Inl u) f = PFault u" "plift (Inr x) f = f x"
  by (simp_all add: plift_def)

definition with_new_item :: "sched \<Rightarrow> (cjson \<Rightarrow> sched \<Rightarrow> 'b parse) \<Rightarrow> 'b parse" where
  "with_new_item m f = (case New_Item m of (None, _) \<Rightarrow> PFail None | (Some c, m') \<Rightarrow> f c m')"

lemma with_new_item_Nil [c_simps]: "with_new_item [] f = f blank_item []"
  by (simp add: with_new_item_def c_simps)

section \<open>White space\<close>

definition skip :: "string \<Rightarrow> string" where
  "skip s = dropWhile (\<lambda>c. ord c \<le> 32) s"

lemma skip_simps [c_simps]:
  "skip [] = []"
  "\<not> ord c \<le> 32 \<Longrightarrow> skip (c # s) = c # s"
  "ord c \<le> 32 \<Longrightarrow> skip (c # s) = skip s"
  by (simp_all add: skip_def)

section \<open>Hexadecimal escapes\<close>

definition hex4_digit :: "char \<Rightarrow> u32 option" where
  "hex4_digit c =
    (if CHR ''0'' \<le> c \<and> c \<le> CHR ''9'' then Some (of_nat (ord c) - 48)
     else if CHR ''A'' \<le> c \<and> c \<le> CHR ''F'' then Some (10 + of_nat (ord c) - 65)
     else if CHR ''a'' \<le> c \<and> c \<le> CHR ''f'' then Some (10 + of_nat (ord c) - 97)
     else None)"

fun hex4_loop :: "nat \<Rightarrow> u32 \<Rightarrow> string \<Rightarrow> u32" where
  "hex4_loop 0 h str = h"
| "hex4_loop (Suc n) h str =
    (case hex4_digit (c_at str) of None \<Rightarrow> 0 | Some d \<Rightarrow> hex4_loop n (push_bit 4 h + d) (drop 1 str))"

definition parse_hex4 :: "string \<Rightarrow> u32" where
  "parse_hex4 str = hex4_loop 4 0 str"

section \<open>Strings\<close>

text \<open>The first pass: \<open>len\<close>, the characters of the literal with each escape counted once.\<close>

fun string_len :: "string \<Rightarrow> fault + nat" where
  "string_len [] = Inr 0"
| "string_len (c # s) =
    (if c = CHR 0x22 then Inr 0
     else if c = CHR 0x5C
       then (case s of [] \<Rightarrow> Inl Read_past_end | _ # s' \<Rightarrow> rbind (string_len s') (\<lambda>n. Inr (Suc n)))
     else rbind (string_len s) (\<lambda>n. Inr (Suc n)))"

definition firstByteMark :: "u32 list" where
  "firstByteMark = [0x00, 0x00, 0xC0, 0xE0, 0xF0, 0xF8, 0xFC]"

definition utf8_len :: "u32 \<Rightarrow> nat" where
  "utf8_len uc = (if uc < 0x80 then 1 else if uc < 0x800 then 2 else if uc < 0x10000 then 3 else 4)"

definition low_char :: "u32 \<Rightarrow> char" where
  "low_char w = char_of_byte (ucast w)"

fun utf8_bytes :: "nat \<Rightarrow> nat \<Rightarrow> u32 \<Rightarrow> string" where
  "utf8_bytes len 0 uc = []"
| "utf8_bytes len (Suc 0) uc = [low_char (uc OR firstByteMark ! len)]"
| "utf8_bytes len (Suc n) uc = utf8_bytes len n (drop_bit 6 uc) @ [low_char ((uc OR 0x80) AND 0xBF)]"

definition utf8 :: "u32 \<Rightarrow> string" where
  "utf8 uc = utf8_bytes (utf8_len uc) (utf8_len uc) uc"

text \<open>
  The case \<open>'u'\<close> of the switch, with \<open>p\<close> at the letter \<open>u\<close>: the code point, 0 for the
  escapes that write nothing, and the pointer at the last character of the escape.
\<close>

definition utf16_escape :: "string \<Rightarrow> fault + (u32 \<times> string)" where
  "utf16_escape p =
    (let uc = parse_hex4 (drop 1 p) in
     rbind (advance 4 p) (\<lambda>p.
       if 0xDC00 \<le> uc \<and> uc \<le> 0xDFFF \<or> uc = 0 then Inr (0, p)
       else if 0xD800 \<le> uc \<and> uc \<le> 0xDBFF then
         (if c_at (drop 1 p) \<noteq> CHR 0x5C \<or> c_at (drop 2 p) \<noteq> CHR ''u'' then Inr (0, p)
          else
            let uc2 = parse_hex4 (drop 3 p) in
            rbind (advance 6 p) (\<lambda>p.
              if uc2 < 0xDC00 \<or> 0xDFFF < uc2 then Inr (0, p)
              else Inr (0x10000 + (push_bit 10 (uc AND 0x3FF) OR (uc2 AND 0x3FF)), p)))
       else Inr (uc, p)))"

text \<open>The switch, with \<open>p\<close> behind the backslash, and \<open>ptr++\<close> after it.\<close>

definition simple_escape :: "char \<Rightarrow> char" where
  "simple_escape c =
    (if c = CHR ''b'' then CHR 0x08
     else if c = CHR ''f'' then CHR 0x0C
     else if c = CHR ''n'' then CHR 0x0A
     else if c = CHR ''r'' then CHR 0x0D
     else if c = CHR ''t'' then CHR 0x09
     else c)"

definition unescape_switch :: "nat \<Rightarrow> string \<Rightarrow> string \<Rightarrow> fault + (string \<times> string)" where
  "unescape_switch cap out p =
    (if c_at p = CHR ''u'' then
       rbind (utf16_escape p) (\<lambda>(uc, p).
         if uc = 0 then Inr (out, p) else rbind (emit cap (utf8 uc) out) (\<lambda>out. Inr (out, p)))
     else rbind (emit cap [simple_escape (c_at p)] out) (\<lambda>out. Inr (out, p)))"

definition unescape_one :: "nat \<Rightarrow> string \<Rightarrow> string \<Rightarrow> fault + (string \<times> string)" where
  "unescape_one cap out p =
    rbind (unescape_switch cap out p) (\<lambda>(out, p). rbind (advance 1 p) (\<lambda>p. Inr (out, p)))"

lemma utf16_escape_shrinks:
  "utf16_escape p = Inr (uc, q) \<Longrightarrow> length q \<le> length p"
  by (auto simp: utf16_escape_def Let_def rbind_eq_Inr split: if_splits dest!: advance_InrD)

lemma unescape_one_shrinks:
  "unescape_one cap out p = Inr (out', q) \<Longrightarrow> length q < length p"
  by (auto simp: unescape_one_def unescape_switch_def rbind_eq_Inr split: if_splits
      dest!: advance_InrD utf16_escape_shrinks)

text \<open>The second pass, into a buffer of \<open>cap\<close> bytes.\<close>

function unescape :: "nat \<Rightarrow> string \<Rightarrow> string \<Rightarrow> fault + (string \<times> string)" where
  "unescape cap out [] = Inr (out, [])"
| "unescape cap out (c # s) =
    (if c = CHR 0x22 then Inr (out, c # s)
     else if c \<noteq> CHR 0x5C then rbind (emit cap [c] out) (\<lambda>out. unescape cap out s)
     else rbind (unescape_one cap out s) (\<lambda>(out, p). unescape cap out p))"
  by pat_completeness auto
termination
  by (relation "measure (\<lambda>(cap, out, p). length p)") (auto dest: unescape_one_shrinks)

definition parse_string :: "cjson \<Rightarrow> string \<Rightarrow> sched \<Rightarrow> cjson parse" where
  "parse_string item str m =
    (if c_at str \<noteq> CHR 0x22 then PFail (Some str)
     else plift (string_len (drop 1 str)) (\<lambda>len.
       case ddns_mem_alloc (len + 1) m of
         (False, _) \<Rightarrow> PFail None
       | (True, m) \<Rightarrow>
           plift (unescape (len + 1) [] (drop 1 str)) (\<lambda>(out, ptr).
             plift (emit (len + 1) [NUL] out) (\<lambda>_.
               POk (set_jtype J_String (set_valuestring (Some out) item))
                 (if c_at ptr = CHR 0x22 then drop 1 ptr else ptr) m))))"

section \<open>Numbers\<close>

fun number_digits :: "dbl \<Rightarrow> int \<Rightarrow> string \<Rightarrow> dbl \<times> int \<times> string" where
  "number_digits n k [] = (n, k, [])"
| "number_digits n k (c # s) =
    (if is_digit c then number_digits (dadd (dmul n (Fin 10)) (Fin (of_nat (digit_val c)))) (k + 1) s
     else (n, k, c # s))"

fun exponent_digits :: "int \<Rightarrow> string \<Rightarrow> fault + (int \<times> string)" where
  "exponent_digits e [] = Inr (e, [])"
| "exponent_digits e (c # s) =
    (if is_digit c
     then (let e' = e * 10 + int (digit_val c)
           in if INT_MAX < e' then Inl Signed_overflow else exponent_digits e' s)
     else Inr (e, c # s))"

definition number_exponent :: "string \<Rightarrow> fault + (int \<times> string)" where
  "number_exponent s =
    (if c_at s = CHR ''e'' \<or> c_at s = CHR ''E'' then
       (let s = drop 1 s;
            signsubscale = (if c_at s = CHR ''-'' then -1 else 1);
            s = (if c_at s = CHR ''+'' \<or> c_at s = CHR ''-'' then drop 1 s else s)
        in rbind (exponent_digits 0 s) (\<lambda>(subscale, s). Inr (subscale * signsubscale, s)))
     else Inr (0, s))"

definition parse_number :: "cjson \<Rightarrow> string \<Rightarrow> sched \<Rightarrow> cjson parse" where
  "parse_number item num m =
    (let sign = (if c_at num = CHR ''-'' then Fin (-1) else Fin 1);
         num = (if c_at num = CHR ''-'' then drop 1 num else num);
         num = (if c_at num = CHR ''0'' then drop 1 num else num);
         (n, _, num) = (if CHR ''1'' \<le> c_at num \<and> c_at num \<le> CHR ''9''
           then number_digits (Fin 0) 0 num else (Fin 0, 0, num));
         (n, fraction, num) = (if c_at num = CHR ''.'' \<and> is_digit (c_at (drop 1 num))
           then number_digits n 0 (drop 1 num) else (n, 0, num));
         scale = - fraction
     in plift (number_exponent num) (\<lambda>(subscale, num).
          let n = dmul (dmul sign n) (dpow10 (scale + subscale))
          in POk (set_jtype J_Number (set_valueint (dbl_to_int n) (set_valuedouble n item))) num m))"

section \<open>Arrays, objects and values\<close>

type_synonym value_parser = "cjson \<Rightarrow> string \<Rightarrow> sched \<Rightarrow> cjson parse"

text \<open>\<open>parse_value\<close> is the argument \<open>pv\<close> of the parsers it is mutually recursive with.\<close>

fun array_loop :: "value_parser \<Rightarrow> nat \<Rightarrow> cjson list \<Rightarrow> string \<Rightarrow> sched \<Rightarrow> cjson list parse" where
  "array_loop pv 0 cs s m = PFuel"
| "array_loop pv (Suc k) cs s m =
    (if c_at s = CHR '','' then
       with_new_item m (\<lambda>c m.
         pbind (pv c (skip (drop 1 s)) m) (\<lambda>c s m. array_loop pv k (cs @ [c]) (skip s) m))
     else POk cs s m)"

definition parse_elements :: "value_parser \<Rightarrow> string \<Rightarrow> sched \<Rightarrow> cjson list parse" where
  "parse_elements pv s m =
    with_new_item m (\<lambda>c m.
      pbind (pv c (skip s) m) (\<lambda>c s m. array_loop pv (Suc (length s)) [c] (skip s) m))"

definition parse_array :: "value_parser \<Rightarrow> value_parser" where
  "parse_array pv item s m =
    (if c_at s \<noteq> CHR ''['' then PFail (Some s)
     else
       let item = set_jtype J_Array item; s = skip (drop 1 s) in
       if c_at s = CHR '']'' then POk item (drop 1 s) m
       else pbind (parse_elements pv s m) (\<lambda>cs s m.
         if c_at s = CHR '']'' then POk (set_child cs item) (drop 1 s) m else PFail (Some s)))"

definition parse_member :: "value_parser \<Rightarrow> value_parser" where
  "parse_member pv c s m =
    pbind (parse_string c (skip s) m) (\<lambda>c s m.
      let s = skip s; c = set_valuestring None (set_jstring (valuestring c) c) in
      if c_at s \<noteq> CHR '':'' then PFail (Some s)
      else pbind (pv c (skip (drop 1 s)) m) (\<lambda>c s m. POk c (skip s) m))"

fun object_loop :: "value_parser \<Rightarrow> nat \<Rightarrow> cjson list \<Rightarrow> string \<Rightarrow> sched \<Rightarrow> cjson list parse" where
  "object_loop pv 0 cs s m = PFuel"
| "object_loop pv (Suc k) cs s m =
    (if c_at s = CHR '','' then
       with_new_item m (\<lambda>c m.
         pbind (parse_member pv c (drop 1 s) m) (\<lambda>c s m. object_loop pv k (cs @ [c]) s m))
     else POk cs s m)"

definition parse_members :: "value_parser \<Rightarrow> string \<Rightarrow> sched \<Rightarrow> cjson list parse" where
  "parse_members pv s m =
    with_new_item m (\<lambda>c m.
      pbind (parse_member pv c s m) (\<lambda>c s m. object_loop pv (Suc (length s)) [c] s m))"

definition parse_object :: "value_parser \<Rightarrow> value_parser" where
  "parse_object pv item s m =
    (if c_at s \<noteq> CHR ''{'' then PFail (Some s)
     else
       let item = set_jtype J_Object item; s = skip (drop 1 s) in
       if c_at s = CHR ''}'' then POk item (drop 1 s) m
       else pbind (parse_members pv s m) (\<lambda>cs s m.
         if c_at s = CHR ''}'' then POk (set_child cs item) (drop 1 s) m else PFail (Some s)))"

primrec parse_value :: "nat \<Rightarrow> value_parser" where
  "parse_value 0 item s m = PFuel"
| "parse_value (Suc n) item s m =
    (if take 4 s = ''null'' then POk (set_jtype J_NULL item) (drop 4 s) m
     else if take 5 s = ''false'' then POk (set_jtype J_False item) (drop 5 s) m
     else if take 4 s = ''true'' then POk (set_valueint 1 (set_jtype J_True item)) (drop 4 s) m
     else if c_at s = CHR 0x22 then parse_string item s m
     else if c_at s = CHR ''-'' \<or> is_digit (c_at s) then parse_number item s m
     else if c_at s = CHR ''['' then parse_array (parse_value n) item s m
     else if c_at s = CHR ''{'' then parse_object (parse_value n) item s m
     else PFail (Some s))"

definition ParseWithOpts :: "string \<Rightarrow> bool \<Rightarrow> sched \<Rightarrow> cjson parse" where
  "ParseWithOpts value require_null_terminated m =
    with_new_item m (\<lambda>c m.
      pbind (parse_value (Suc (length value)) c (skip value) m) (\<lambda>c rest m.
        if require_null_terminated
        then (let rest = skip rest in if rest \<noteq> [] then PFail (Some rest) else POk c rest m)
        else POk c rest m))"

definition Parse :: "string \<Rightarrow> sched \<Rightarrow> cjson parse" where
  "Parse value m = ParseWithOpts value False m"

end
