(* ===== verification/Config_File.thy ===== *)
theory Config_File
  imports Prelude
begin

text \<open>
  The configuration file \<^verbatim>\<open>./ddns_config.txt\<close>: \<^verbatim>\<open>config_t\<close> of \<^verbatim>\<open>inc/config.h\<close>, its reader
  \<^verbatim>\<open>file_config_read\<close> of \<^verbatim>\<open>main.cpp\<close> and the reader of the credentials,
  \<^verbatim>\<open>file_security_config_read\<close> of \<^verbatim>\<open>custom_cloudTencent.cpp\<close>.

  Both read the whole file, split it with \<open>std::getline\<close>, clean each line (one trailing CR,
  everything from the first \<open>;\<close> on) and compare the start of the line with their keys. The
  file is its content, the empty string where it cannot be opened. The two readers share the
  locale \<open>line_config\<close>, whose lemmas say how a file built from lines is read.
\<close>

section \<open>Data\<close>

record config_t =
  domain_name :: string
  domain_subname :: string
  domain_full :: string
  check_ip_url_ipv4 :: string
  check_ip_url_ipv6 :: string

text \<open>The global \<^verbatim>\<open>g_file_config\<close> before \<^verbatim>\<open>main\<close>: C++ strings start empty.\<close>

definition g_file_config_init :: config_t where
  "g_file_config_init = \<lparr>domain_name = [], domain_subname = [], domain_full = [],
     check_ip_url_ipv4 = [], check_ip_url_ipv6 = []\<rparr>"

abbreviation LF :: char where "LF \<equiv> CHR 0x0A"
abbreviation CR :: char where "CR \<equiv> CHR 0x0D"

section \<open>Lines\<close>

text \<open>
  \<open>while (std::getline(ss, line))\<close>: the pieces between line feeds; a last piece that is
  empty is not a line.
\<close>

fun getlines :: "string \<Rightarrow> string \<Rightarrow> string list" where
  "getlines line [] = (if line = [] then [] else [line])"
| "getlines line (c # s) = (if c = LF then line # getlines [] s else getlines (line @ [c]) s)"

text \<open>\<open>if (!line.empty() && line.back() == '\r') line.pop_back()\<close>\<close>

definition strip_cr :: "string \<Rightarrow> string" where
  "strip_cr line = (if line \<noteq> [] \<and> last line = CR then butlast line else line)"

text \<open>\<open>pos = line.find(';')\<close>; if found, \<open>line = line.substr(0, pos)\<close>\<close>

definition strip_comment :: "string \<Rightarrow> string" where
  "strip_comment line = takeWhile (\<lambda>c. c \<noteq> CHR '';'') line"

definition clean_line :: "string \<Rightarrow> string" where
  "clean_line line = strip_comment (strip_cr line)"

text \<open>\<open>line.compare(0, len, key) == 0\<close>, with \<open>len\<close> the length of \<open>key\<close>, and the value \<open>line.substr(len)\<close>.\<close>

definition starts_with :: "string \<Rightarrow> string \<Rightarrow> bool" where
  "starts_with key line \<longleftrightarrow> take (length key) line = key"

definition value_of :: "string \<Rightarrow> string \<Rightarrow> string" where
  "value_of key line = drop (length key) line"

section \<open>The readers\<close>

definition config_line :: "string \<Rightarrow> config_t \<Rightarrow> config_t" where
  "config_line line cfg =
    (if starts_with ''domain_name='' line
       then cfg\<lparr>domain_name := value_of ''domain_name='' line\<rparr>
     else if starts_with ''domain_subname='' line
       then cfg\<lparr>domain_subname := value_of ''domain_subname='' line\<rparr>
     else if starts_with ''check_ip_url_ipv4='' line
       then cfg\<lparr>check_ip_url_ipv4 := value_of ''check_ip_url_ipv4='' line\<rparr>
     else if starts_with ''check_ip_url_ipv6='' line
       then cfg\<lparr>check_ip_url_ipv6 := value_of ''check_ip_url_ipv6='' line\<rparr>
     else cfg)"

fun config_lines :: "string list \<Rightarrow> config_t \<Rightarrow> config_t" where
  "config_lines [] cfg = cfg"
| "config_lines (line # ls) cfg = config_lines ls (config_line (clean_line line) cfg)"

definition file_config_read :: "string \<Rightarrow> config_t \<Rightarrow> config_t" where
  "file_config_read file cfg0 =
    (let cfg = config_lines (getlines [] file) cfg0
     in if domain_subname cfg \<noteq> []
        then cfg\<lparr>domain_full := domain_subname cfg @ ''.'' @ domain_name cfg\<rparr>
        else cfg\<lparr>domain_full := domain_name cfg\<rparr>)"

text \<open>The credentials: \<open>(security_id, security_key)\<close>.\<close>

definition security_line :: "string \<Rightarrow> string \<times> string \<Rightarrow> string \<times> string" where
  "security_line line sec =
    (if starts_with ''key='' line then (fst sec, value_of ''key='' line)
     else if starts_with ''keyid='' line then (value_of ''keyid='' line, snd sec)
     else sec)"

fun security_lines :: "string list \<Rightarrow> string \<times> string \<Rightarrow> string \<times> string" where
  "security_lines [] sec = sec"
| "security_lines (line # ls) sec = security_lines ls (security_line (clean_line line) sec)"

definition file_security_config_read :: "string \<Rightarrow> string \<times> string \<Rightarrow> string \<times> string" where
  "file_security_config_read file sec = security_lines (getlines [] file) sec"


section \<open>Lines of a file\<close>

definition unlines :: "string list \<Rightarrow> string" where
  "unlines ls = concat (map (\<lambda>l. l @ [LF]) ls)"

definition unlines_crlf :: "string list \<Rightarrow> string" where
  "unlines_crlf ls = concat (map (\<lambda>l. l @ [CR, LF]) ls)"

lemma getlines_line: "LF \<notin> set l \<Longrightarrow> getlines acc (l @ LF # s) = (acc @ l) # getlines [] s"
  by (induction l arbitrary: acc) auto

lemma getlines_unlines: "\<forall>l\<in>set ls. LF \<notin> set l \<Longrightarrow> getlines [] (unlines ls) = ls"
  by (induction ls) (simp_all add: unlines_def getlines_line)

lemma getlines_unlines_crlf:
  "\<forall>l\<in>set ls. LF \<notin> set l \<Longrightarrow> getlines [] (unlines_crlf ls) = map (\<lambda>l. l @ [CR]) ls"
proof (induction ls)
  case (Cons l ls)
  then have "getlines [] ((l @ [CR]) @ LF # unlines_crlf ls) = (l @ [CR]) # map (\<lambda>l. l @ [CR]) ls"
    by (subst getlines_line) simp_all
  then show ?case by (simp add: unlines_crlf_def)
qed (simp add: unlines_crlf_def)

text \<open>A line of the file may end in CR only as part of its line end.\<close>

definition plain_line :: "string \<Rightarrow> bool" where
  "plain_line l \<longleftrightarrow> LF \<notin> set l \<and> \<not> (l \<noteq> [] \<and> last l = CR)"

lemma clean_line_cr: "plain_line l \<Longrightarrow> clean_line (l @ [CR]) = clean_line l"
  by (auto simp: clean_line_def strip_cr_def plain_line_def)

lemma takeWhile_comment: "CHR '';'' \<notin> set l \<Longrightarrow> takeWhile (\<lambda>c. c \<noteq> CHR '';'') (l @ CHR '';'' # junk) = l"
  by (subst takeWhile_append2) auto

lemma clean_line_comment: "CHR '';'' \<notin> set l \<Longrightarrow> clean_line (l @ CHR '';'' # junk) = l"
proof -
  assume l: "CHR '';'' \<notin> set l"
  have "\<exists>junk'. strip_cr (l @ CHR '';'' # junk) = l @ CHR '';'' # junk'"
    by (cases "junk = []") (auto simp: strip_cr_def butlast_append)
  then show ?thesis
    using takeWhile_comment [OF l] by (auto simp: clean_line_def strip_comment_def)
qed

section \<open>The interface of the two readers\<close>

locale line_config =
  fixes step :: "string \<Rightarrow> 's \<Rightarrow> 's"
    and run :: "string list \<Rightarrow> 's \<Rightarrow> 's"
  assumes run_Nil: "run [] s = s"
    and run_Cons: "run (l # ls) s = run ls (step (clean_line l) s)"
begin

lemma run_append: "run (ls @ ls') s = run ls' (run ls s)"
  by (induction ls arbitrary: s) (simp_all add: run_Nil run_Cons)

lemma run_of_cleaned: "run ls s = fold step (map clean_line ls) s"
  by (induction ls arbitrary: s) (simp_all add: run_Nil run_Cons)

lemma run_clean_cong: "map clean_line ls = map clean_line ls' \<Longrightarrow> run ls s = run ls' s"
  by (simp add: run_of_cleaned)

lemma run_crlf:
  "\<forall>l\<in>set ls. plain_line l \<Longrightarrow>
     run (getlines [] (unlines_crlf ls)) s = run (getlines [] (unlines ls)) s"
proof (rule run_clean_cong)
  assume plain: "\<forall>l\<in>set ls. plain_line l"
  then have "\<forall>l\<in>set ls. LF \<notin> set l" by (simp add: plain_line_def)
  then show "map clean_line (getlines [] (unlines_crlf ls)) = map clean_line (getlines [] (unlines ls))"
    using plain by (simp add: getlines_unlines getlines_unlines_crlf clean_line_cr)
qed

end

text \<open>The value the last line for a key sets; the old value where there is none.\<close>

fun last_value :: "string \<Rightarrow> string list \<Rightarrow> string \<Rightarrow> string" where
  "last_value key [] d = d"
| "last_value key (l # ls) d =
    last_value key ls (if starts_with key (clean_line l) then value_of key (clean_line l) else d)"

locale config_field = line_config step run
  for step :: "string \<Rightarrow> 's \<Rightarrow> 's" and run :: "string list \<Rightarrow> 's \<Rightarrow> 's" +
  fixes key :: string
    and get :: "'s \<Rightarrow> string"
  assumes get_step: "get (step l s) = (if starts_with key l then value_of key l else get s)"
begin

lemma get_run: "get (run ls s) = last_value key ls (get s)"
  by (induction ls arbitrary: s) (simp_all add: run_Nil run_Cons get_step)

end

lemma starts_with_excl:
  "starts_with k l \<Longrightarrow> take (length k') k \<noteq> take (length k) k' \<Longrightarrow> \<not> starts_with k' l"
  unfolding starts_with_def by (metis take_take min.commute)

interpretation cfg: line_config config_line config_lines
  by unfold_locales simp_all

interpretation sec: line_config security_line security_lines
  by unfold_locales simp_all

interpretation cfg_name: config_field config_line config_lines "''domain_name=''" domain_name
  by unfold_locales (auto simp: config_line_def dest: starts_with_excl)

interpretation cfg_subname: config_field config_line config_lines "''domain_subname=''" domain_subname
  by unfold_locales (auto simp: config_line_def dest: starts_with_excl [of _ _ "''domain_name=''"])

interpretation cfg_ipv4: config_field config_line config_lines "''check_ip_url_ipv4=''" check_ip_url_ipv4
  by unfold_locales (auto simp: config_line_def dest: starts_with_excl [of _ _ "''domain_name=''"]
      starts_with_excl [of _ _ "''domain_subname=''"])

interpretation cfg_ipv6: config_field config_line config_lines "''check_ip_url_ipv6=''" check_ip_url_ipv6
  by unfold_locales (auto simp: config_line_def dest: starts_with_excl [of _ _ "''domain_name=''"]
      starts_with_excl [of _ _ "''domain_subname=''"] starts_with_excl [of _ _ "''check_ip_url_ipv4=''"])

interpretation sec_key: config_field security_line security_lines "''key=''" snd
  by unfold_locales (auto simp: security_line_def)

interpretation sec_id: config_field security_line security_lines "''keyid=''" fst
  by unfold_locales (auto simp: security_line_def dest: starts_with_excl [of _ _ "''key=''"])


section \<open>Properties\<close>

text \<open>
  What \<open>file_config_read\<close> makes of a file: each of the four settings is the value of the
  last line that sets it and keeps its old value where no line does, and \<open>domain_full\<close> is
  the subdomain and the domain joined by a dot, or the domain alone for an empty subdomain.
\<close>

lemma file_config_read_fields:
  fixes content :: string and cfg0 :: config_t
  defines "cfg \<equiv> file_config_read content cfg0" and "ls \<equiv> getlines [] content"
  shows "domain_name cfg = last_value ''domain_name='' ls (domain_name cfg0)
    \<and> domain_subname cfg = last_value ''domain_subname='' ls (domain_subname cfg0)
    \<and> check_ip_url_ipv4 cfg = last_value ''check_ip_url_ipv4='' ls (check_ip_url_ipv4 cfg0)
    \<and> check_ip_url_ipv6 cfg = last_value ''check_ip_url_ipv6='' ls (check_ip_url_ipv6 cfg0)
    \<and> domain_full cfg = (if domain_subname cfg = [] then domain_name cfg
        else domain_subname cfg @ ''.'' @ domain_name cfg)"
  unfolding cfg_def ls_def file_config_read_def Let_def
  by (simp add: cfg_name.get_run cfg_subname.get_run cfg_ipv4.get_run cfg_ipv6.get_run)

text \<open>
  The line ends do not matter: a file of lines ended by CR LF is read, by both readers,
  as the same lines ended by LF.
\<close>

lemma config_line_ends:
  assumes "\<forall>l\<in>set ls. plain_line l"
  shows "file_config_read (unlines_crlf ls) cfg0 = file_config_read (unlines ls) cfg0
    \<and> file_security_config_read (unlines_crlf ls) sec = file_security_config_read (unlines ls) sec"
  using cfg.run_crlf [OF assms, of cfg0] sec.run_crlf [OF assms, of sec]
  by (simp_all add: file_config_read_def file_security_config_read_def)

lemma config_line_ends_instance:
  "domain_name (file_config_read (unlines_crlf [''domain_name=a.b'']) g_file_config_init) = ''a.b''
   \<and> snd (file_security_config_read (unlines_crlf [''key=k'']) ([], [])) = ''k''"
proof -
  have plain: "\<forall>l\<in>set [''domain_name=a.b'']. plain_line l" "\<forall>l\<in>set [''key=k'']. plain_line l"
    by (simp_all add: plain_line_def)
  have "domain_name (file_config_read (unlines [''domain_name=a.b'']) g_file_config_init) = ''a.b''"
    "snd (file_security_config_read (unlines [''key=k'']) ([], [])) = ''k''"
    by code_simp+
  then show ?thesis
    using config_line_ends [OF plain(1), of g_file_config_init "([], [])"]
      config_line_ends [OF plain(2), of g_file_config_init "([], [])"] by simp
qed

text \<open>A configuration file as the repository's \<^verbatim>\<open>ddns_config.txt\<close> lays it out.\<close>

definition config_text :: "string \<Rightarrow> string \<Rightarrow> config_t \<Rightarrow> string" where
  "config_text key keyid cfg = unlines
    [''key='' @ key @ '';'',
     ''keyid='' @ keyid @ '';'',
     ''domain_name='' @ domain_name cfg @ '';'',
     ''domain_subname='' @ domain_subname cfg @ '';'',
     ''check_ip_url_ipv4='' @ check_ip_url_ipv4 cfg @ '';'',
     ''check_ip_url_ipv6='' @ check_ip_url_ipv6 cfg @ '';'']"

definition config_value :: "string \<Rightarrow> bool" where
  "config_value v \<longleftrightarrow> LF \<notin> set v \<and> CHR '';'' \<notin> set v"

lemma clean_setting:
  "CHR '';'' \<notin> set k \<Longrightarrow> config_value v \<Longrightarrow> clean_line (k @ v @ '';'') = k @ v"
  using clean_line_comment [of "k @ v" "[]"] by (simp add: config_value_def)

lemma getlines_config_text:
  assumes "config_value key" "config_value keyid" "config_value (domain_name cfg)"
    "config_value (domain_subname cfg)" "config_value (check_ip_url_ipv4 cfg)"
    "config_value (check_ip_url_ipv6 cfg)"
  shows "map clean_line (getlines [] (config_text key keyid cfg)) =
    [''key='' @ key, ''keyid='' @ keyid, ''domain_name='' @ domain_name cfg,
     ''domain_subname='' @ domain_subname cfg, ''check_ip_url_ipv4='' @ check_ip_url_ipv4 cfg,
     ''check_ip_url_ipv6='' @ check_ip_url_ipv6 cfg]"
proof -
  note clean = assms [THEN clean_setting [rotated]]
  show ?thesis
    unfolding config_text_def
    by (subst getlines_unlines)
      (use assms clean(1) [of "''key=''"] clean(2) [of "''keyid=''"] clean(3) [of "''domain_name=''"]
        clean(4) [of "''domain_subname=''"] clean(5) [of "''check_ip_url_ipv4=''"]
        clean(6) [of "''check_ip_url_ipv6=''"] in \<open>simp_all add: config_value_def\<close>)
qed

text \<open>
  C34: Writing a configuration and reading it back is the identity: for values without a
  semicolon or a line feed, the two readers recover from one file the settings, the full
  domain name and the two credentials, each ignoring the lines of the other.
\<close>

theorem config_roundtrip:
  assumes "config_value key" "config_value keyid" "config_value (domain_name cfg)"
    "config_value (domain_subname cfg)" "config_value (check_ip_url_ipv4 cfg)"
    "config_value (check_ip_url_ipv6 cfg)"
  shows "file_config_read (config_text key keyid cfg) g_file_config_init =
      cfg\<lparr>domain_full := (if domain_subname cfg = [] then domain_name cfg
                         else domain_subname cfg @ ''.'' @ domain_name cfg)\<rparr>
    \<and> file_security_config_read (config_text key keyid cfg) sec = (keyid, key)"
proof
  note lines = getlines_config_text [OF assms]
  show "file_config_read (config_text key keyid cfg) g_file_config_init =
      cfg\<lparr>domain_full := (if domain_subname cfg = [] then domain_name cfg
                         else domain_subname cfg @ ''.'' @ domain_name cfg)\<rparr>"
    unfolding file_config_read_def cfg.run_of_cleaned lines
    by (simp add: config_line_def starts_with_def value_of_def g_file_config_init_def Let_def)
  show "file_security_config_read (config_text key keyid cfg) sec = (keyid, key)"
    unfolding file_security_config_read_def sec.run_of_cleaned lines
    by (simp add: security_line_def starts_with_def value_of_def)
qed

theorem config_roundtrip_witness:
  "file_config_read (config_text ''k'' ''i'' (g_file_config_init\<lparr>domain_name := ''d.cn'', domain_subname := ''w''\<rparr>))
      g_file_config_init =
    g_file_config_init\<lparr>domain_name := ''d.cn'', domain_subname := ''w'', domain_full := ''w.d.cn''\<rparr>"
  using config_roundtrip [of "''k''" "''i''" "g_file_config_init\<lparr>domain_name := ''d.cn'', domain_subname := ''w''\<rparr>" "([], [])"]
  by (simp add: config_value_def g_file_config_init_def)

end
