(* ===== verification/Response_Decode.thy ===== *)
theory Response_Decode
  imports Cjson_Parse Config_File
begin

text \<open>
  The answers of the service: \<^verbatim>\<open>custom_cloudTencent_response_decode.cpp\<close>, and the state of the class
  \<^verbatim>\<open>cloudTencent_dnspod\<close> (\<^verbatim>\<open>custom_cloudTencent.hpp\<close>) it fills.

  A decoder returns its \<^verbatim>\<open>bool\<close> and the object; the object keeps what was stored before an early
  \<^verbatim>\<open>return false\<close>. Assigning a null \<^verbatim>\<open>valuestring\<close> to a \<^verbatim>\<open>std::string\<close> or passing it to
  \<^verbatim>\<open>strcmp\<close> is the fault \<open>Null_deref\<close>.
\<close>

section \<open>The object\<close>

record record_list_t =
  rec_id :: u64
  rec_value :: string
  rec_type :: string

record dnspod =
  record_ipv4 :: "record_list_t list"
  record_ipv6 :: "record_list_t list"
  domain_id :: u64
  domain_grade :: string
  request_authorization :: string
  security_id :: string
  security_key :: string
  request_version :: string
  request_time_utc :: string
  request_timestamp :: u64
  request_content_type :: string

section \<open>Decoders\<close>

definition parse_response :: "string \<Rightarrow> sched \<Rightarrow> fault + cjson option" where
  "parse_response src m =
    (case Parse (c_str src) m of
       POk tree _ _ \<Rightarrow> Inr (Some tree)
     | PFail _ \<Rightarrow> Inr None
     | PFault u \<Rightarrow> Inl u
     | PFuel \<Rightarrow> Inl No_return)"

text \<open>\<^verbatim>\<open>FUNC_JSON_CHECK\<close>: leave the decoder with \<^verbatim>\<open>false\<close> at a null pointer.\<close>

definition json_check ::
  "cjson option \<Rightarrow> 's \<Rightarrow> (cjson \<Rightarrow> (fault + bool) \<times> 's) \<Rightarrow> (fault + bool) \<times> 's" where
  "json_check r s f = (case r of None \<Rightarrow> (Inr False, s) | Some c \<Rightarrow> f c)"

lemma json_check_simps [simp]:
  "json_check None s f = (Inr False, s)"
  "json_check (Some c) s f = f c"
  by (simp_all add: json_check_def)

lemma json_check_cong [fundef_cong]:
  "r = r' \<Longrightarrow> s = s' \<Longrightarrow> (\<And>c. r' = Some c \<Longrightarrow> f c = g c) \<Longrightarrow> json_check r s f = json_check r' s' g"
  by (cases r') auto

definition need_string :: "cjson \<Rightarrow> 's \<Rightarrow> (string \<Rightarrow> (fault + bool) \<times> 's) \<Rightarrow> (fault + bool) \<times> 's" where
  "need_string c s f = (case valuestring c of None \<Rightarrow> (Inl Null_deref, s) | Some v \<Rightarrow> f v)"

lemma need_string_cong [fundef_cong]:
  "c = c' \<Longrightarrow> s = s' \<Longrightarrow> (\<And>v. valuestring c' = Some v \<Longrightarrow> f v = g v) \<Longrightarrow>
   need_string c s f = need_string c' s' g"
  by (cases "valuestring c'") (auto simp: need_string_def)

text \<open>The condition of both loops: the field is a string equal to \<open>name\<close>.\<close>

definition is_string_of :: "cjson \<Rightarrow> string \<Rightarrow> bool" where
  "is_string_of c name \<longleftrightarrow> jtype c = J_String \<and> valuestring c = Some (c_str name)"

fun domain_items :: "string \<Rightarrow> cjson list \<Rightarrow> dnspod \<Rightarrow> (fault + bool) \<times> dnspod" where
  "domain_items temp [] dn = (Inr True, dn)"
| "domain_items temp (domain # rest) dn =
    json_check (GetObjectItem domain (Some ''Name'')) dn (\<lambda>fourth.
      if is_string_of fourth temp then
        json_check (GetObjectItem domain (Some ''DomainId'')) dn (\<lambda>fourth.
          let dn = dn\<lparr>domain_id := word_of_int (valueint fourth)\<rparr> in
          json_check (GetObjectItem domain (Some ''Grade'')) dn (\<lambda>fourth.
            need_string fourth dn (\<lambda>grade.
              domain_items temp rest (dn\<lparr>domain_grade := grade\<rparr>))))
      else domain_items temp rest dn)"

definition decode_domain_list :: "config_t \<Rightarrow> string \<Rightarrow> sched \<Rightarrow> dnspod \<Rightarrow> (fault + bool) \<times> dnspod" where
  "decode_domain_list g_file_config src m dn =
    (case parse_response src m of
       Inl u \<Rightarrow> (Inl u, dn)
     | Inr None \<Rightarrow> (Inr False, dn)
     | Inr (Some tree) \<Rightarrow>
         let temp = domain_name g_file_config in
         json_check (GetObjectItem tree (Some ''Response'')) dn (\<lambda>second.
         json_check (GetObjectItem second (Some ''DomainList'')) dn (\<lambda>third.
           if jtype third = J_Array then domain_items temp (child third) dn
           else (Inr True, dn))))"

text \<open>One A or AAAA record: its value, then its id, out of the fields of \<open>domain\<close>.\<close>

definition read_record ::
  "cjson \<Rightarrow> string \<Rightarrow> dnspod \<Rightarrow> (record_list_t \<Rightarrow> (fault + bool) \<times> dnspod) \<Rightarrow> (fault + bool) \<times> dnspod" where
  "read_record domain ty dn push =
    json_check (GetObjectItem domain (Some ''Value'')) dn (\<lambda>fifth.
      need_string fifth dn (\<lambda>v.
        json_check (GetObjectItem domain (Some ''RecordId'')) dn (\<lambda>fifth.
          case dbl_to_u64 (valuedouble fifth) of
            Inl u \<Rightarrow> (Inl u, dn)
          | Inr i \<Rightarrow> push \<lparr>rec_id = i, rec_value = v, rec_type = ty\<rparr>)))"

lemma read_record_cong [fundef_cong]:
  "d = d' \<Longrightarrow> t = t' \<Longrightarrow> dn = dn' \<Longrightarrow> (\<And>r. f r = g r) \<Longrightarrow> read_record d t dn f = read_record d' t' dn' g"
  by (metis ext)

definition record_item :: "string \<Rightarrow> cjson \<Rightarrow> dnspod \<Rightarrow> (fault + bool) \<times> dnspod" where
  "record_item temp domain dn =
    json_check (GetObjectItem domain (Some ''Name'')) dn (\<lambda>fourth.
      if is_string_of fourth temp then
        json_check (GetObjectItem domain (Some ''Type'')) dn (\<lambda>fourth.
          need_string fourth dn (\<lambda>ty.
            sbind
              (if ty = ''A'' then read_record domain ''A'' dn (\<lambda>r.
                 (Inr True, dn\<lparr>record_ipv4 := record_ipv4 dn @ [r]\<rparr>))
               else (Inr True, dn))
              (\<lambda>ok dn.
                 if \<not> ok then (Inr False, dn)
                 else if ty = ''AAAA'' then read_record domain ''AAAA'' dn (\<lambda>r.
                   (Inr True, dn\<lparr>record_ipv6 := record_ipv6 dn @ [r]\<rparr>))
                 else (Inr True, dn))))
      else (Inr True, dn))"

fun record_items :: "string \<Rightarrow> cjson list \<Rightarrow> dnspod \<Rightarrow> (fault + bool) \<times> dnspod" where
  "record_items temp [] dn = (Inr True, dn)"
| "record_items temp (domain # rest) dn =
    sbind (record_item temp domain dn) (\<lambda>ok dn.
      if ok then record_items temp rest dn else (Inr False, dn))"

definition decode_record_list_filter ::
  "config_t \<Rightarrow> string \<Rightarrow> sched \<Rightarrow> dnspod \<Rightarrow> (fault + bool) \<times> dnspod" where
  "decode_record_list_filter g_file_config src m dn =
    (case parse_response src m of
       Inl u \<Rightarrow> (Inl u, dn)
     | Inr None \<Rightarrow> (Inr False, dn)
     | Inr (Some tree) \<Rightarrow>
         let temp = (if domain_subname g_file_config = [] then ''@''
                     else c_str (domain_subname g_file_config)) in
         json_check (GetObjectItem tree (Some ''Response'')) dn (\<lambda>second.
         json_check (GetObjectItem second (Some ''RecordList'')) dn (\<lambda>third.
           if jtype third = J_Array then record_items temp (child third) dn
           else (Inr True, dn))))"

section \<open>What the record decoder collects\<close>

definition field_string :: "cjson \<Rightarrow> string \<Rightarrow> string option" where
  "field_string d k = Option.bind (GetObjectItem d (Some k)) valuestring"

definition field_id :: "cjson \<Rightarrow> u64 option" where
  "field_id d = Option.bind (GetObjectItem d (Some ''RecordId''))
     (\<lambda>f. case dbl_to_u64 (valuedouble f) of Inl _ \<Rightarrow> None | Inr i \<Rightarrow> Some i)"

definition item_matches :: "string \<Rightarrow> cjson \<Rightarrow> bool" where
  "item_matches temp d \<longleftrightarrow>
    (case GetObjectItem d (Some ''Name'') of None \<Rightarrow> False | Some f \<Rightarrow> is_string_of f temp)"

text \<open>
  The items a regular answer has: a name; for the searched name a type string; for the address
  types a value string and an id in the range of \<^verbatim>\<open>uint64_t\<close>.
\<close>

definition regular_item :: "string \<Rightarrow> cjson \<Rightarrow> bool" where
  "regular_item temp d \<longleftrightarrow>
    GetObjectItem d (Some ''Name'') \<noteq> None \<and>
    (item_matches temp d \<longrightarrow>
      field_string d ''Type'' \<noteq> None \<and>
      (field_string d ''Type'' \<in> {Some ''A'', Some ''AAAA''} \<longrightarrow>
        field_string d ''Value'' \<noteq> None \<and> field_id d \<noteq> None))"

definition records_of :: "string \<Rightarrow> string \<Rightarrow> cjson list \<Rightarrow> record_list_t list" where
  "records_of temp ty ds =
    map (\<lambda>d. \<lparr>rec_id = the (field_id d), rec_value = the (field_string d ''Value''), rec_type = ty\<rparr>)
      (filter (\<lambda>d. item_matches temp d \<and> field_string d ''Type'' = Some ty) ds)"

definition add_records :: "string \<Rightarrow> cjson list \<Rightarrow> dnspod \<Rightarrow> dnspod" where
  "add_records temp ds dn =
    dn\<lparr>record_ipv4 := record_ipv4 dn @ records_of temp ''A'' ds,
       record_ipv6 := record_ipv6 dn @ records_of temp ''AAAA'' ds\<rparr>"

lemma read_record_regular:
  assumes "field_string d ''Value'' = Some v" and "field_id d = Some i"
  shows "read_record d ty dn push = push \<lparr>rec_id = i, rec_value = v, rec_type = ty\<rparr>"
proof -
  obtain f where "GetObjectItem d (Some ''RecordId'') = Some f" "dbl_to_u64 (valuedouble f) = Inr i"
    using assms(2) by (cases "GetObjectItem d (Some ''RecordId'')")
      (auto simp: field_id_def split: sum.splits)
  moreover obtain g where "GetObjectItem d (Some ''Value'') = Some g" "valuestring g = Some v"
    using assms(1) by (auto simp: field_string_def bind_eq_Some_conv)
  ultimately show ?thesis by (simp add: read_record_def need_string_def)
qed

lemma records_of_Cons:
  "records_of temp ty (d # ds) = records_of temp ty [d] @ records_of temp ty ds"
  by (simp add: records_of_def)

lemma add_records_Cons: "add_records temp (d # ds) dn = add_records temp ds (add_records temp [d] dn)"
  by (simp add: add_records_def records_of_Cons [of _ _ d ds])

lemma record_item_regular:
  assumes "regular_item temp d"
  shows "record_item temp d dn = (Inr True, add_records temp [d] dn)"
proof (cases "item_matches temp d")
  case False
  then have "records_of temp ty [d] = []" for ty by (simp add: records_of_def)
  with False assms show ?thesis
    by (auto simp: record_item_def regular_item_def item_matches_def add_records_def)
next
  case True
  then obtain f where f: "GetObjectItem d (Some ''Name'') = Some f" "is_string_of f temp"
    by (auto simp: item_matches_def split: option.splits)
  obtain t ty where t: "GetObjectItem d (Some ''Type'') = Some t" "valuestring t = Some ty"
    using assms True by (auto simp: regular_item_def field_string_def bind_eq_Some_conv)
  then have ty: "field_string d ''Type'' = Some ty" by (simp add: field_string_def)
  consider "ty = ''A''" | "ty = ''AAAA''" | "ty \<noteq> ''A''" "ty \<noteq> ''AAAA''" by blast
  then show ?thesis
  proof cases
    case 3
    with f t ty show ?thesis
      by (simp add: record_item_def need_string_def add_records_def records_of_def)
  next
    case 1
    obtain v i where "field_string d ''Value'' = Some v" "field_id d = Some i"
      using assms True ty 1 by (auto simp: regular_item_def)
    with f t ty True 1 show ?thesis
      by (simp add: record_item_def need_string_def add_records_def records_of_def read_record_regular)
  next
    case 2
    obtain v i where "field_string d ''Value'' = Some v" "field_id d = Some i"
      using assms True ty 2 by (auto simp: regular_item_def)
    with f t ty True 2 show ?thesis
      by (simp add: record_item_def need_string_def add_records_def records_of_def read_record_regular)
  qed
qed

lemma record_items_regular:
  assumes "\<forall>d\<in>set ds. regular_item temp d"
  shows "record_items temp ds dn = (Inr True, add_records temp ds dn)"
  using assms
proof (induction ds arbitrary: dn)
  case Nil
  then show ?case by (simp add: add_records_def records_of_def)
next
  case (Cons d ds)
  then show ?case by (simp add: record_item_regular add_records_Cons [of _ d ds])
qed

text \<open>
  On the items of a regular answer the record decoder succeeds and appends, in the order of
  the answer, exactly the A records of the searched name to \<open>record_ipv4\<close> and exactly its AAAA
  records to \<open>record_ipv6\<close>, each with the value and the id of its item; records of other names
  and other types leave no trace.
\<close>

lemma record_items_collects:
  assumes "\<forall>d\<in>set ds. regular_item temp d"
  shows "record_items temp ds dn = (Inr True, add_records temp ds dn)"
  using assms by (rule record_items_regular)

text \<open>An answer with one A and one AAAA record of the searched name and a record of another name.\<close>

definition sample_dnspod :: dnspod where
  "sample_dnspod = \<lparr>record_ipv4 = [], record_ipv6 = [], domain_id = 0, domain_grade = [],
     request_authorization = [], security_id = ''AKID'', security_key = ''SK'', request_version = [],
     request_time_utc = [], request_timestamp = 0, request_content_type = []\<rparr>"

definition j_string :: "string \<Rightarrow> string \<Rightarrow> cjson" where
  "j_string k v = CJson J_String (Some v) 0 (Fin 0) (Some k) []"

definition j_number :: "string \<Rightarrow> int \<Rightarrow> rat \<Rightarrow> cjson" where
  "j_number k i d = CJson J_Number None i (Fin d) (Some k) []"

definition sample_record :: "string \<Rightarrow> string \<Rightarrow> string \<Rightarrow> int \<Rightarrow> cjson" where
  "sample_record n ty v i = CJson J_Object None 0 (Fin 0) None
     [j_string ''Name'' n, j_string ''Type'' ty, j_string ''Value'' v, j_number ''RecordId'' i (of_int i)]"

lemmas sample_simps = sample_record_def j_string_def j_number_def GetObjectItem_def
  cjson_strcasecmp_def tolower_def

lemma sample_record_fields:
  "GetObjectItem (sample_record n ty v i) (Some ''Name'') = Some (j_string ''Name'' n)"
  "GetObjectItem (sample_record n ty v i) (Some ''Type'') = Some (j_string ''Type'' ty)"
  "GetObjectItem (sample_record n ty v i) (Some ''Value'') = Some (j_string ''Value'' v)"
  "GetObjectItem (sample_record n ty v i) (Some ''RecordId'') = Some (j_number ''RecordId'' i (of_int i))"
  by (simp_all add: sample_simps less_eq_char_def)

lemma sample_record_regular:
  "0 \<le> i \<Longrightarrow> i < 2 ^ 64 \<Longrightarrow> regular_item temp (sample_record n ty v i)"
  by (simp add: regular_item_def field_string_def field_id_def sample_record_fields j_string_def
      j_number_def dbl_to_u64_def trunc_def)

lemma record_items_collects_instance:
  "record_items ''www''
     [sample_record ''www'' ''A'' ''1.2.3.4'' 7, sample_record ''mail'' ''A'' ''1.2.3.5'' 8,
      sample_record ''www'' ''AAAA'' ''240e::1'' 9] dn =
   (Inr True, add_records ''www''
     [sample_record ''www'' ''A'' ''1.2.3.4'' 7, sample_record ''mail'' ''A'' ''1.2.3.5'' 8,
      sample_record ''www'' ''AAAA'' ''240e::1'' 9] dn)"
  by (rule record_items_collects) (simp add: sample_record_regular)

section \<open>What every answer leaves intact\<close>

definition typed_records :: "dnspod \<Rightarrow> bool" where
  "typed_records dn \<longleftrightarrow>
    (\<forall>r\<in>set (record_ipv4 dn). rec_type r = ''A'') \<and> (\<forall>r\<in>set (record_ipv6 dn). rec_type r = ''AAAA'')"

text \<open>What the requests for the answers were signed with.\<close>

definition credentials :: "dnspod \<Rightarrow> string \<times> string \<times> string \<times> string" where
  "credentials dn = (security_id dn, security_key dn, request_version dn, request_content_type dn)"

definition keeps :: "dnspod \<Rightarrow> dnspod \<Rightarrow> bool" where
  "keeps dn dn' \<longleftrightarrow>
    (typed_records dn \<longrightarrow> typed_records dn') \<and>
    (\<exists>l. record_ipv4 dn' = record_ipv4 dn @ l) \<and> (\<exists>l. record_ipv6 dn' = record_ipv6 dn @ l) \<and>
    credentials dn' = credentials dn"

lemma keeps_refl [simp]: "keeps dn dn"
  by (simp add: keeps_def)

lemma keeps_trans: "keeps a b \<Longrightarrow> keeps b c \<Longrightarrow> keeps a c"
  unfolding keeps_def by (metis append.assoc)

lemma keeps_json_check:
  "keeps dn0 s \<Longrightarrow> (\<And>c. keeps dn0 (snd (f c))) \<Longrightarrow> keeps dn0 (snd (json_check r s f))"
  by (simp add: json_check_def split: option.split)

lemma keeps_need_string:
  "keeps dn0 s \<Longrightarrow> (\<And>v. keeps dn0 (snd (f v))) \<Longrightarrow> keeps dn0 (snd (need_string c s f))"
  by (simp add: need_string_def split: option.split)

lemma keeps_read_record:
  "keeps dn0 dn \<Longrightarrow> (\<And>r. rec_type r = ty \<Longrightarrow> keeps dn0 (snd (push r))) \<Longrightarrow>
   keeps dn0 (snd (read_record d ty dn push))"
  unfolding read_record_def
  by (intro keeps_json_check keeps_need_string) (simp_all split: sum.split)

lemma keeps_push:
  "rec_type r = ''A'' \<Longrightarrow> keeps dn (dn\<lparr>record_ipv4 := record_ipv4 dn @ [r]\<rparr>)"
  "rec_type r = ''AAAA'' \<Longrightarrow> keeps dn (dn\<lparr>record_ipv6 := record_ipv6 dn @ [r]\<rparr>)"
  by (auto simp: keeps_def typed_records_def credentials_def)

lemma keeps_record_item: "keeps dn (snd (record_item temp d dn))"
proof -
  have "keeps dn (snd (sbind
        (if ty = ''A'' then read_record d ''A'' dn (\<lambda>r. (Inr True, dn\<lparr>record_ipv4 := record_ipv4 dn @ [r]\<rparr>))
         else (Inr True, dn))
        (\<lambda>ok dn. if \<not> ok then (Inr False, dn)
           else if ty = ''AAAA'' then read_record d ''AAAA'' dn (\<lambda>r.
             (Inr True, dn\<lparr>record_ipv6 := record_ipv6 dn @ [r]\<rparr>))
           else (Inr True, dn))))" for ty
  proof (rule sbind_invariant)
    show "keeps dn (snd (if ty = ''A''
        then read_record d ''A'' dn (\<lambda>r. (Inr True, dn\<lparr>record_ipv4 := record_ipv4 dn @ [r]\<rparr>))
        else (Inr True, dn) :: (fault + bool) \<times> dnspod))"
      by (simp add: keeps_read_record keeps_push)
  next
    fix x s assume "keeps dn s"
    then show "keeps dn (snd (if \<not> x then (Inr False, s)
           else if ty = ''AAAA'' then read_record d ''AAAA'' s (\<lambda>r.
             (Inr True, s\<lparr>record_ipv6 := record_ipv6 s @ [r]\<rparr>))
           else (Inr True, s)))"
      by (auto intro!: keeps_read_record intro: keeps_trans [OF _ keeps_push(2)])
  qed
  then show ?thesis
    unfolding record_item_def by (intro keeps_json_check) (simp_all add: keeps_json_check keeps_need_string)
qed

lemma keeps_record_items: "keeps dn (snd (record_items temp ds dn))"
proof (induction ds arbitrary: dn)
  case (Cons d ds)
  have "keeps dn (snd (sbind (record_item temp d dn) (\<lambda>ok dn.
      if ok then record_items temp ds dn else (Inr False, dn))))"
    by (rule sbind_invariant) (auto intro: keeps_record_item keeps_trans Cons.IH)
  then show ?case by simp
qed simp

lemma keeps_domain_items: "keeps dn (snd (domain_items temp ds dn))"
proof (induction ds arbitrary: dn)
  case (Cons d ds)
  have id: "keeps dn (dn\<lparr>domain_id := i\<rparr>)" "keeps dn (dn\<lparr>domain_id := i, domain_grade := g\<rparr>)" for i g
    by (simp_all add: keeps_def typed_records_def credentials_def)
  show ?case
    by (auto simp: Let_def Cons.IH id intro!: keeps_json_check keeps_need_string
        intro: keeps_trans [OF id(2) Cons.IH])
qed simp

lemma keeps_decoders:
  "keeps dn (snd (decode_record_list_filter cfg src m dn))"
  "keeps dn (snd (decode_domain_list cfg src m dn))"
  by (auto simp: decode_record_list_filter_def decode_domain_list_def Let_def keeps_record_items
      keeps_domain_items split: sum.split option.split intro!: keeps_json_check)

text \<open>
  C26: Whatever the service answers, valid JSON or not, and wherever a decoder stops or faults, no
  record that was known is lost or reordered, \<open>record_ipv4\<close> holds only A and \<open>record_ipv6\<close>
  only AAAA records if it was so before, and the credentials are untouched.
\<close>

theorem decoders_keep_records:
  "keeps dn (snd (decode_record_list_filter cfg src m dn)) \<and> keeps dn (snd (decode_domain_list cfg src m dn))"
  using keeps_decoders by blast

section \<open>Numbers of the answers\<close>

text \<open>
  The domain id goes through the \<^verbatim>\<open>int\<close> field \<open>valueint\<close>: for a domain whose answer
  carries the id \<open>n\<close>, \<open>domain_id\<close> is \<open>n\<close> up to \<open>INT_MAX\<close> and the constant
  \<open>2 ^ 64 - 2 ^ 31\<close> above it, while a record id, read from \<open>valuedouble\<close>, keeps every
  value up to \<open>2 ^ 53\<close>.
\<close>

lemma domain_id_truncated:
  assumes "n \<le> 2 ^ 53" and "valuedouble f = Fin (of_nat n)" and "valueint f = dbl_to_int (valuedouble f)"
    and "GetObjectItem d (Some ''Name'') = Some nm" and "is_string_of nm temp"
    and "GetObjectItem d (Some ''DomainId'') = Some f"
    and "GetObjectItem d (Some ''Grade'') = Some g" and "valuestring g = Some grade"
  shows "domain_id (snd (domain_items temp [d] dn)) =
      (if int n \<le> INT_MAX then of_nat n else 0xFFFFFFFF80000000) \<and>
    dbl_to_u64 (valuedouble f) = Inr (of_nat n)"
proof -
  have "valueint f = (if int n \<le> INT_MAX then int n else INT_MIN)"
    using assms(2,3) by (auto simp: dbl_to_int_def trunc_def)
  moreover have "domain_id (snd (domain_items temp [d] dn)) = word_of_int (valueint f)"
    using assms(4-8) by (simp add: need_string_def)
  moreover have "dbl_to_u64 (valuedouble f) = Inr (of_nat n)"
    using assms(1,2) by (simp add: dbl_to_u64_def trunc_def)
  ultimately show ?thesis by simp
qed

lemma domain_id_truncated_instance:
  "domain_id (snd (domain_items ''d'' [CJson J_Object None 0 (Fin 0) None
      [j_string ''Name'' ''d'', j_number ''DomainId'' INT_MIN 2147483648, j_string ''Grade'' ''DP_FREE'']] sample_dnspod)) =
      (if int 2147483648 \<le> INT_MAX then of_nat 2147483648 else 0xFFFFFFFF80000000) \<and>
    dbl_to_u64 (valuedouble (j_number ''DomainId'' INT_MIN 2147483648)) = Inr (of_nat 2147483648)"
  by (rule domain_id_truncated [where nm = "j_string ''Name'' ''d''" and g = "j_string ''Grade'' ''DP_FREE''"
        and grade = "''DP_FREE''"])
    (simp_all add: sample_simps less_eq_char_def is_string_of_def c_str_def dbl_to_int_def trunc_def)

text \<open>
  An item of the searched domain whose field \<open>Grade\<close> is present and no string, \<^verbatim>\<open>null\<close> for
  example, is a read of a null pointer in the domain decoder, after the domain id was stored.
\<close>

lemma domain_grade_null:
  assumes "GetObjectItem d (Some ''Name'') = Some nm" and "is_string_of nm temp"
    and "GetObjectItem d (Some ''DomainId'') = Some f"
    and "GetObjectItem d (Some ''Grade'') = Some g" and "valuestring g = None"
  shows "domain_items temp (d # ds) dn = (Inl Null_deref, dn\<lparr>domain_id := word_of_int (valueint f)\<rparr>)"
  using assms by (simp add: need_string_def)

lemma domain_grade_null_instance:
  "domain_items ''d'' ([CJson J_Object None 0 (Fin 0) None
      [j_string ''Name'' ''d'', j_number ''DomainId'' 5 5, CJson J_NULL None 0 (Fin 0) (Some ''Grade'') []]] @ [])
     dn = (Inl Null_deref, dn\<lparr>domain_id := word_of_int 5\<rparr>)"
  unfolding append_Cons append_Nil
  by (subst domain_grade_null [where nm = "j_string ''Name'' ''d''"
        and f = "j_number ''DomainId'' 5 5" and g = "CJson J_NULL None 0 (Fin 0) (Some ''Grade'') []"])
    (simp_all add: sample_simps less_eq_char_def is_string_of_def c_str_def)

end
