(* ===== verification/Tc3.thy ===== *)
theory Tc3
  imports Http Hex Response_Decode
begin

text \<open>
  The authentication of a request: \<^verbatim>\<open>generate_http_authorization\<close> and
  \<^verbatim>\<open>generate_http_header\<close> of \<^verbatim>\<open>custom_cloudTencent.cpp\<close>, the constructor of
  \<^verbatim>\<open>cloudTencent_dnspod\<close>, and the verification a service performs as the reference.

  The clock is \<^verbatim>\<open>e_time\<close>, seconds since 1970; \<open>utc_date\<close> is what \<^verbatim>\<open>gmtime_r\<close> and
  \<^verbatim>\<open>strftime\<close> with the format \<^verbatim>\<open>%Y-%m-%d\<close> print for it, the Gregorian calendar counted up
  year by year.
\<close>

section \<open>The calendar\<close>

definition leap :: "nat \<Rightarrow> bool" where
  "leap y \<longleftrightarrow> y mod 4 = 0 \<and> (y mod 100 \<noteq> 0 \<or> y mod 400 = 0)"

definition year_len :: "nat \<Rightarrow> nat" where
  "year_len y = (if leap y then 366 else 365)"

definition month_lens :: "nat \<Rightarrow> nat list" where
  "month_lens y = [31, if leap y then 29 else 28, 31, 30, 31, 30, 31, 31, 30, 31, 30, 31]"

lemma year_len_pos [simp]: "0 < year_len y"
  by (simp add: year_len_def)

function gm_year :: "nat \<Rightarrow> nat \<Rightarrow> nat \<times> nat" where
  "gm_year y d = (if d < year_len y then (y, d) else gm_year (y + 1) (d - year_len y))"
  by pat_completeness auto
termination
  by (relation "measure snd") (auto simp: not_less intro!: diff_less intro: less_le_trans [OF year_len_pos])

declare gm_year.simps [simp del]

fun gm_month :: "nat list \<Rightarrow> nat \<Rightarrow> nat \<Rightarrow> nat \<times> nat" where
  "gm_month [] m d = (m, d)"
| "gm_month (l # ls) m d = (if d < l then (m, d) else gm_month ls (m + 1) (d - l))"

definition two_digits :: "nat \<Rightarrow> string" where
  "two_digits n = (if n < 10 then ''0'' @ dec_str n else dec_str n)"

definition utc_date :: "u64 \<Rightarrow> string" where
  "utc_date t =
    (case gm_year 1970 (unat t div 86400) of (y, yd) \<Rightarrow>
     case gm_month (month_lens y) 1 yd of (m, d) \<Rightarrow>
       dec_str y @ ''-'' @ two_digits m @ ''-'' @ two_digits (d + 1))"

text \<open>The day of the year and the year account for all days since 1970.\<close>

lemma gm_year_days:
  "gm_year y d = (y', r) \<Longrightarrow> r < year_len y' \<and> y \<le> y' \<and> d = (\<Sum>k = y..<y'. year_len k) + r"
proof (induction y d rule: gm_year.induct)
  case (1 y d)
  show ?case
  proof (cases "d < year_len y")
    case True
    with 1(2) show ?thesis by (simp add: gm_year.simps [of y d])
  next
    case False
    with 1 have r: "r < year_len y'" "y + 1 \<le> y'" "d - year_len y = (\<Sum>k = y + 1..<y'. year_len k) + r"
      by (auto simp: gm_year.simps [of y d])
    moreover have "(\<Sum>k = y..<y'. year_len k) = year_len y + (\<Sum>k = y + 1..<y'. year_len k)"
      using r(2) by (simp add: sum.atLeast_Suc_lessThan)
    ultimately show ?thesis using False by simp
  qed
qed

section \<open>The methods\<close>

definition TENCENT_REQUEST_URL :: string where
  "TENCENT_REQUEST_URL = ''dnspod.tencentcloudapi.com''"

definition DEF_VERSION :: string where
  "DEF_VERSION = ''2021-03-23''"

definition DEF_CONTENT_TYPE :: string where
  "DEF_CONTENT_TYPE = ''application/json''"

text \<open>The constructor; \<^verbatim>\<open>request_timestamp\<close> is the zero of a static object.\<close>

definition new_dnspod :: "string \<Rightarrow> dnspod" where
  "new_dnspod config_file =
    (case file_security_config_read config_file ([], []) of (sid, skey) \<Rightarrow>
      \<lparr>record_ipv4 = [], record_ipv6 = [], domain_id = 0, domain_grade = [],
       request_authorization = [], security_id = sid, security_key = skey,
       request_version = DEF_VERSION, request_time_utc = [], request_timestamp = 0,
       request_content_type = DEF_CONTENT_TYPE\<rparr>)"

definition generate_http_authorization :: "env \<Rightarrow> string \<Rightarrow> string \<Rightarrow> request list \<Rightarrow> dnspod \<Rightarrow> dnspod" where
  "generate_http_authorization env method payload sent this =
    (let t = e_time env sent;
         this = this\<lparr>request_timestamp := t, request_time_utc := utc_date t\<rparr>;
         canonicalUri = ''/'';
         canonicalQueryString = '''';
         canonicalHeaders = ''content-type:application/json'' @ [LF] @ ''host:'' @ TENCENT_REQUEST_URL @ [LF];
         signedHeaders = ''content-type;host'';
         hashedRequestPayload = sha256Hex (e_sha256 env) payload;
         canonicalRequest = method @ [LF] @ canonicalUri @ [LF] @ canonicalQueryString @ [LF]
           @ canonicalHeaders @ [LF] @ signedHeaders @ [LF] @ hashedRequestPayload;
         algorithm = ''TC3-HMAC-SHA256'';
         requestTimestamp = dec_str (unat (request_timestamp this));
         credentialScope = request_time_utc this @ ''/'' @ ''dnspod'' @ ''/'' @ ''tc3_request'';
         hashedCanonicalRequest = sha256Hex (e_sha256 env) canonicalRequest;
         stringToSign = ''TC3-HMAC-SHA256'' @ [LF] @ requestTimestamp @ [LF] @ credentialScope @ [LF]
           @ hashedCanonicalRequest;
         kKey = ''TC3'' @ security_key this;
         kDate = HmacSha256 (e_hmac env) kKey (c_str (request_time_utc this));
         kService = HmacSha256 (e_hmac env) kDate ''dnspod'';
         kSigning = HmacSha256 (e_hmac env) kService ''tc3_request'';
         signature = HexEncode (HmacSha256 (e_hmac env) kSigning stringToSign)
     in this\<lparr>request_authorization := algorithm @ '' '' @ ''Credential='' @ security_id this @ ''/''
          @ credentialScope @ '', '' @ ''SignedHeaders='' @ signedHeaders @ '', '' @ ''Signature='' @ signature\<rparr>)"

definition generate_http_header :: "dnspod \<Rightarrow> string list \<Rightarrow> string \<Rightarrow> string list" where
  "generate_http_header this headers action =
    (let headers = curl_slist_append headers (''Authorization: '' @ request_authorization this);
         headers = curl_slist_append headers (''Content-Type: '' @ request_content_type this);
         headers = curl_slist_append headers (''Host: '' @ TENCENT_REQUEST_URL);
         headers = curl_slist_append headers (''X-TC-Action: '' @ action);
         headers = curl_slist_append headers (''X-TC-Timestamp: '' @ dec_str (unat (request_timestamp this)));
         headers = curl_slist_append headers (''X-TC-Version: '' @ request_version this);
         headers = curl_slist_append headers ''X-TC-Language: zh-CN'';
         headers = curl_slist_append headers ''X-TC-Token: ''
     in headers)"

section \<open>The service's verification\<close>

text \<open>
  The check of the signature as the service documents it, out of nothing but the request: the
  value of a header is looked up by its name, the date is that of the time stamp header, the
  canonical request is built from the method, the headers and the body received.
\<close>

fun join_lines :: "string list \<Rightarrow> string" where
  "join_lines [] = ''''"
| "join_lines [l] = l"
| "join_lines (l # ls) = l @ LF # join_lines ls"

definition header_value :: "string \<Rightarrow> string list \<Rightarrow> string option" where
  "header_value name headers =
    map_option (drop (length name + 2)) (find (starts_with (name @ '': '')) headers)"

definition tc3_signature ::
  "env \<Rightarrow> string \<Rightarrow> string \<Rightarrow> string \<Rightarrow> string \<Rightarrow> string \<Rightarrow> string \<Rightarrow> string \<Rightarrow> string" where
  "tc3_signature env key date stamp method ctype host body =
    (let hex = HexEncode \<circ> map char_of_byte \<circ> e_sha256 env \<circ> map byte_of_char;
         mac = (\<lambda>k m. map char_of_byte (e_hmac env (map byte_of_char k) (map byte_of_char m)));
         request = join_lines [method, ''/'', '''', ''content-type:'' @ ctype, ''host:'' @ host, '''',
           ''content-type;host'', hex body];
         text_to_sign = join_lines [''TC3-HMAC-SHA256'', stamp, date @ ''/dnspod/tc3_request'', hex request]
     in HexEncode (mac (mac (mac (mac (''TC3'' @ key) date) ''dnspod'') ''tc3_request'') text_to_sign))"

definition tc3_accepts :: "env \<Rightarrow> string \<Rightarrow> string \<Rightarrow> request \<Rightarrow> bool" where
  "tc3_accepts env sid key req =
    (case (header_value ''Authorization'' (req_headers req), header_value ''Content-Type'' (req_headers req),
           header_value ''Host'' (req_headers req), header_value ''X-TC-Timestamp'' (req_headers req),
           req_body req) of
       (Some auth, Some ctype, Some host, Some stamp, Some body) \<Rightarrow>
         let date = utc_date (of_nat (dec_val stamp)) in
         (\<forall>c\<in>set stamp. is_digit c) \<and>
         auth = ''TC3-HMAC-SHA256 Credential='' @ sid @ ''/'' @ date @ ''/dnspod/tc3_request, ''
           @ ''SignedHeaders=content-type;host, Signature=''
           @ tc3_signature env key date stamp (req_method req) ctype host body
     | _ \<Rightarrow> False)"

lemma utc_date_no_NUL: "NUL \<notin> set (utc_date t)"
proof -
  have "NUL \<notin> set (dec_str n)" for n using dec_str_no_special [of NUL n] by auto
  then show ?thesis by (simp add: utc_date_def two_digits_def split: prod.split)
qed

lemma dec_str_no_NUL: "NUL \<notin> set (dec_str n)"
  using dec_str_no_special [of NUL n] by auto

definition plain_credentials :: "dnspod \<Rightarrow> bool" where
  "plain_credentials dn \<longleftrightarrow> NUL \<notin> set (security_id dn) \<and> request_content_type dn = DEF_CONTENT_TYPE"

text \<open>The headers as they reach the service.\<close>

lemma generate_http_header_values:
  assumes "NUL \<notin> set (request_authorization dn)" and "request_content_type dn = DEF_CONTENT_TYPE"
  shows "header_value ''Authorization'' (generate_http_header dn [] action) = Some (request_authorization dn)"
    and "header_value ''Content-Type'' (generate_http_header dn [] action) = Some DEF_CONTENT_TYPE"
    and "header_value ''Host'' (generate_http_header dn [] action) = Some TENCENT_REQUEST_URL"
    and "header_value ''X-TC-Timestamp'' (generate_http_header dn [] action) =
      Some (dec_str (unat (request_timestamp dn)))"
proof -
  have c: "c_str (x # s) = (if x = NUL then [] else x # c_str s)" "c_str [] = []" for x s
    by (simp_all add: c_str_def)
  have a: "c_str (request_authorization dn) = request_authorization dn" using assms(1) by (rule c_str_id)
  have d: "c_str (dec_str n) = dec_str n" for n by (rule c_str_id [OF dec_str_no_NUL])
  show "header_value ''Authorization'' (generate_http_header dn [] action) = Some (request_authorization dn)"
    "header_value ''Content-Type'' (generate_http_header dn [] action) = Some DEF_CONTENT_TYPE"
    "header_value ''Host'' (generate_http_header dn [] action) = Some TENCENT_REQUEST_URL"
    "header_value ''X-TC-Timestamp'' (generate_http_header dn [] action) =
      Some (dec_str (unat (request_timestamp dn)))"
    by (simp_all add: header_value_def generate_http_header_def curl_slist_append_def starts_with_def
        c a d assms(2) DEF_CONTENT_TYPE_def TENCENT_REQUEST_URL_def Let_def)
qed

lemma generate_http_authorization_fields:
  "request_timestamp (generate_http_authorization env method payload sent dn) = e_time env sent"
  "request_content_type (generate_http_authorization env method payload sent dn) = request_content_type dn"
  "security_id (generate_http_authorization env method payload sent dn) = security_id dn"
  "security_key (generate_http_authorization env method payload sent dn) = security_key dn"
  "keeps dn (generate_http_authorization env method payload sent dn)"
  by (simp_all add: generate_http_authorization_def Let_def keeps_def typed_records_def credentials_def)

lemma generate_http_authorization_signature:
  "request_authorization (generate_http_authorization env method payload sent dn) =
    ''TC3-HMAC-SHA256 Credential='' @ security_id dn @ ''/'' @ utc_date (e_time env sent)
      @ ''/dnspod/tc3_request, '' @ ''SignedHeaders=content-type;host, Signature=''
      @ tc3_signature env (security_key dn) (utc_date (e_time env sent)) (dec_str (unat (e_time env sent)))
          method DEF_CONTENT_TYPE TENCENT_REQUEST_URL payload"
  by (simp add: generate_http_authorization_def Let_def tc3_signature_def sha256Hex_HexEncode
      HmacSha256_def c_str_id [OF utc_date_no_NUL] DEF_CONTENT_TYPE_def)

lemma signed_request:
  assumes "plain_credentials dn" and "NUL \<notin> set payload"
    and "dn' = generate_http_authorization env ''POST'' payload sent dn"
  shows "tc3_accepts env (security_id dn) (security_key dn)
    \<lparr>req_method = ''POST'', req_url = url, req_headers = generate_http_header dn' [] action,
     req_body = Some (c_str payload)\<rparr>"
proof -
  have "NUL \<notin> set (tc3_signature env key date stamp m ct h b)" for key date stamp m ct h b
    by (simp add: tc3_signature_def Let_def HexEncode_no_NUL)
  then have "NUL \<notin> set (request_authorization dn')"
    using assms(1) utc_date_no_NUL
    by (simp add: assms(3) generate_http_authorization_signature plain_credentials_def)
  moreover have "request_content_type dn' = DEF_CONTENT_TYPE"
    using assms(1) by (simp add: assms(3) generate_http_authorization_fields plain_credentials_def)
  ultimately show ?thesis
    using dec_str_digits
    by (auto simp: tc3_accepts_def generate_http_header_values generate_http_authorization_fields
        generate_http_authorization_signature assms(3) c_str_id [OF assms(2)] Let_def)
qed

text \<open>
  C5: Every request the class builds is accepted by a service that holds the same key and checks
  the signature against the headers and the body it receives, whatever the payload, the action, the
  clock and the digest functions: the signed text is the one the headers of
  \<open>generate_http_header\<close> describe.
\<close>

theorem tc3_signed_requests_verify:
  assumes "plain_credentials dn" and "NUL \<notin> set payload"
    and "dn' = generate_http_authorization env ''POST'' payload sent dn"
  shows "tc3_accepts env (security_id dn) (security_key dn)
    \<lparr>req_method = ''POST'', req_url = url, req_headers = generate_http_header dn' [] action,
     req_body = Some (c_str payload)\<rparr>"
  using assms by (rule signed_request)

lemma new_dnspod_sample: "plain_credentials (new_dnspod (e_config sample_env))"
  "security_id (new_dnspod (e_config sample_env)) = ''AKID''"
  "security_key (new_dnspod (e_config sample_env)) = ''SK''"
  by (simp_all add: plain_credentials_def new_dnspod_def sample_env_def file_security_config_read_def
      security_line_def clean_line_def strip_cr_def strip_comment_def starts_with_def value_of_def
      DEF_CONTENT_TYPE_def)

theorem tc3_signed_requests_verify_witness:
  "tc3_accepts sample_env ''AKID'' ''SK''
    \<lparr>req_method = ''POST'', req_url = ''https://dnspod.tencentcloudapi.com'',
     req_headers = generate_http_header
       (generate_http_authorization sample_env ''POST'' ''{}'' [] (new_dnspod (e_config sample_env))) [] ''Action'',
     req_body = Some (c_str ''{}'')\<rparr>"
  using tc3_signed_requests_verify [where dn = "new_dnspod (e_config sample_env)" and payload = "''{}''"
      and env = sample_env and sent = "[]" and action = "''Action''"
      and url = "''https://dnspod.tencentcloudapi.com''", OF new_dnspod_sample(1) _ refl]
  by (simp add: new_dnspod_sample)

end
