(* ===== verification/Dnspod.thy ===== *)
theory Dnspod
  imports Tc3
begin

text \<open>
  The requests of the class \<^verbatim>\<open>cloudTencent_dnspod\<close>: the \<^verbatim>\<open>dnspod_\<close> methods of
  \<^verbatim>\<open>custom_cloudTencent.cpp\<close>.

  The state is the object and the list of the requests sent, which a fault leaves as they were
  when it happened. \<open>tencent_post\<close> is the sequence every method runs: sign, build the
  headers, send, return the answer. The payloads are the concatenations of the code; \<open>jq s\<close>
  is \<open>s\<close> between double quotes.
\<close>

section \<open>State\<close>

type_synonym client = "dnspod \<times> request list"

definition jq :: "string \<Rightarrow> string" where
  "jq s = CHR 0x22 # s @ [CHR 0x22]"

definition tencent_post :: "env \<Rightarrow> string \<Rightarrow> string \<Rightarrow> client \<Rightarrow> (fault + string) \<times> client" where
  "tencent_post env action payload st =
    (case st of (dn, sent) \<Rightarrow>
      let url = ''https://'' @ TENCENT_REQUEST_URL;
          dn = generate_http_authorization env ''POST'' payload sent dn;
          headers = generate_http_header dn [] action;
          (response, sent) = curl_request env url ''POST'' (Some payload) headers sent
      in (response, (dn, sent)))"

section \<open>Queries\<close>

definition dnspod_domain_list :: "env \<Rightarrow> config_t \<Rightarrow> client \<Rightarrow> (fault + bool) \<times> client" where
  "dnspod_domain_list env g_file_config st =
    sbind (tencent_post env ''DescribeDomainList'' ''{}'' st) (\<lambda>response (dn, sent).
      case decode_domain_list g_file_config response (e_sched env sent) dn of
        (r, dn) \<Rightarrow> (r, (dn, sent)))"

definition record_list_payload :: "config_t \<Rightarrow> string" where
  "record_list_payload g_file_config =
    (if domain_subname g_file_config = []
     then ''{'' @ jq ''Domain'' @ '': '' @ jq (domain_name g_file_config) @ ''}''
     else ''{'' @ jq ''Domain'' @ '': '' @ jq (domain_name g_file_config) @ '', ''
       @ jq ''SubDomain'' @ '': '' @ jq (domain_subname g_file_config) @ ''}'')"

definition dnspod_record_list :: "env \<Rightarrow> config_t \<Rightarrow> client \<Rightarrow> (fault + bool) \<times> client" where
  "dnspod_record_list env g_file_config st =
    sbind (tencent_post env ''DescribeRecordList'' (record_list_payload g_file_config) st)
      (\<lambda>response st. (Inr True, st))"

definition record_line_list_payload :: "config_t \<Rightarrow> string \<Rightarrow> string" where
  "record_line_list_payload g_file_config grade =
    (if domain_subname g_file_config = []
     then ''{'' @ jq ''Domain'' @ '': '' @ jq (domain_name g_file_config) @ ''}''
     else ''{'' @ jq ''Domain'' @ '': '' @ jq (domain_name g_file_config) @ '', ''
       @ jq ''DomainGrade'' @ '': '' @ jq grade @ ''}'')"

definition dnspod_record_line_list :: "env \<Rightarrow> config_t \<Rightarrow> client \<Rightarrow> (fault + bool) \<times> client" where
  "dnspod_record_line_list env g_file_config st =
    sbind (tencent_post env ''DescribeRecordLineList''
        (record_line_list_payload g_file_config (domain_grade (fst st))) st)
      (\<lambda>response st. (Inr True, st))"

definition record_list_filter_payload :: "config_t \<Rightarrow> string" where
  "record_list_filter_payload g_file_config =
    (if domain_subname g_file_config = []
     then ''{'' @ jq ''Domain'' @ '': '' @ jq (domain_name g_file_config) @ ''}''
     else ''{'' @ jq ''Domain'' @ '': '' @ jq (domain_name g_file_config) @ '', ''
       @ jq ''SubDomain'' @ '': '' @ jq (domain_subname g_file_config) @ '', ''
       @ jq ''IsExactSubDomain'' @ '': true}'')"

definition dnspod_record_list_filter :: "env \<Rightarrow> config_t \<Rightarrow> client \<Rightarrow> (fault + bool) \<times> client" where
  "dnspod_record_list_filter env g_file_config st =
    sbind (tencent_post env ''DescribeRecordFilterList'' (record_list_filter_payload g_file_config) st)
      (\<lambda>response (dn, sent).
        case decode_record_list_filter g_file_config response (e_sched env sent) dn of
          (r, dn) \<Rightarrow> (r, (dn, sent)))"

section \<open>Deletion\<close>

text \<open>The parameter \<^verbatim>\<open>uint32_t record_id\<close> takes the low 32 bits of the 64-bit id.\<close>

definition record_delete_payload :: "string \<Rightarrow> u32 \<Rightarrow> string" where
  "record_delete_payload name record_id =
    ''{'' @ jq ''Domain'' @ '': '' @ jq name @ '', '' @ jq ''RecordId'' @ '': ''
      @ dec_str (unat record_id) @ ''}''"

definition dnspod_record_delete :: "env \<Rightarrow> string \<Rightarrow> u32 \<Rightarrow> client \<Rightarrow> (fault + bool) \<times> client" where
  "dnspod_record_delete env name record_id st =
    sbind (tencent_post env ''DeleteRecord'' (record_delete_payload name record_id) st)
      (\<lambda>response st. (Inr True, st))"

fun delete_loop :: "env \<Rightarrow> config_t \<Rightarrow> record_list_t list \<Rightarrow> client \<Rightarrow> (fault + unit) \<times> client" where
  "delete_loop env g_file_config [] st = (Inr (), st)"
| "delete_loop env g_file_config (r # rs) st =
    sbind (dnspod_record_delete env (domain_name g_file_config) (ucast (rec_id r)) st)
      (\<lambda>_ st. delete_loop env g_file_config rs st)"

definition record_delete_remain_one :: "env \<Rightarrow> config_t \<Rightarrow> client \<Rightarrow> (fault + unit) \<times> client" where
  "record_delete_remain_one env g_file_config st =
    sbind (if 1 < length (record_ipv4 (fst st))
           then delete_loop env g_file_config (drop 1 (record_ipv4 (fst st))) st else (Inr (), st))
      (\<lambda>_ st. if 1 < length (record_ipv6 (fst st))
              then delete_loop env g_file_config (drop 1 (record_ipv6 (fst st))) st else (Inr (), st))"

section \<open>Modification\<close>

text \<open>The UTF-8 text of the default line.\<close>

definition default_line :: string where
  "default_line = [CHR 0xE9, CHR 0xBB, CHR 0x98, CHR 0xE8, CHR 0xAE, CHR 0xA4]"

definition records_for :: "ip_type_t \<Rightarrow> dnspod \<Rightarrow> record_list_t list" where
  "records_for ip_type dn = (if ip_type = CLASS_IPV6 then record_ipv6 dn else record_ipv4 dn)"

definition record_modify_payload :: "config_t \<Rightarrow> record_list_t \<Rightarrow> string \<Rightarrow> string" where
  "record_modify_payload g_file_config r ip_addr =
    (let payload = ''{'' @ jq ''Domain'' @ '': '' @ jq (domain_name g_file_config)
           @ '', '' @ jq ''RecordType'' @ '': '' @ jq (rec_type r)
           @ '', '' @ jq ''RecordLine'' @ '': '' @ jq default_line
           @ '', '' @ jq ''Value'' @ '': '' @ jq ip_addr
           @ '', '' @ jq ''RecordId'' @ '': '' @ dec_str (unat (rec_id r))
     in if domain_subname g_file_config = [] then payload @ ''}''
        else payload @ '', '' @ jq ''SubDomain'' @ '': '' @ jq (domain_subname g_file_config) @ ''}'')"

definition dnspod_record_modify :: "env \<Rightarrow> config_t \<Rightarrow> ip_type_t \<Rightarrow> string \<Rightarrow> client \<Rightarrow> (fault + int) \<times> client" where
  "dnspod_record_modify env g_file_config ip_type ip_addr st =
    (let record = records_for ip_type (fst st) in
     if record = [] then (Inr RETURN_FAIL, st)
     else sbind (tencent_post env ''ModifyRecord'' (record_modify_payload g_file_config (record ! 0) ip_addr) st)
       (\<lambda>response st. (Inr RETURN_SUCC, st)))"

definition TXT_modify_payload :: "config_t \<Rightarrow> record_list_t \<Rightarrow> string \<Rightarrow> string" where
  "TXT_modify_payload g_file_config r ip_addr =
    (if domain_subname g_file_config = []
     then ''{'' @ jq ''Domain'' @ '': '' @ jq (domain_name g_file_config) @ ''}''
     else ''{'' @ jq ''Domain'' @ '': '' @ jq (domain_name g_file_config)
       @ '', '' @ jq ''SubDomain'' @ '': '' @ jq (domain_subname g_file_config)
       @ '', '' @ jq ''Value'' @ '': '' @ jq ip_addr
       @ '', '' @ jq ''RecordLine'' @ '': '' @ jq default_line
       @ '', '' @ jq ''RecordId'' @ '': '' @ dec_str (unat (rec_id r)) @ ''}'')"

definition dnspod_record_TXT_modify ::
  "env \<Rightarrow> config_t \<Rightarrow> ip_type_t \<Rightarrow> string \<Rightarrow> client \<Rightarrow> (fault + int) \<times> client" where
  "dnspod_record_TXT_modify env g_file_config ip_type ip_addr st =
    (let record = records_for ip_type (fst st) in
     if record = [] then (Inr RETURN_FAIL, st)
     else sbind (tencent_post env ''ModifyTXTRecord'' (TXT_modify_payload g_file_config (record ! 0) ip_addr) st)
       (\<lambda>response st. (Inr RETURN_SUCC, st)))"

end
