(* ===== verification/Cjson_Values.thy ===== *)
theory Cjson_Values
  imports Cjson_Parse
begin

text \<open>
  What the parser computes: the UTF-8 bytes of an escape, and the two numbers it stores for a
  decimal literal.
\<close>

section \<open>Bits\<close>

lemma bit_128: "bit (128 :: nat) k \<longleftrightarrow> k = 7"
proof -
  have "bit (2 ^ 7 :: nat) k \<longleftrightarrow> k = 7" by (simp only: bit_exp_iff) simp
  then show ?thesis by simp
qed
lemma nat_cont: "(n OR 128) AND 191 = 128 + n mod (64 :: nat)"
proof -
  have m: "(191 :: nat) = mask 6 OR 128" by (simp add: mask_numeral)
  have "(128 :: nat) + take_bit 6 n = 128 OR take_bit 6 n"
    by (rule disjunctive_add) (auto simp: bit_take_bit_iff bit_128)
  also have "\<dots> = (n OR 128) AND 191"
    unfolding m by (rule bit_eqI) (auto simp: bit_or_iff bit_and_iff bit_take_bit_iff bit_mask_iff bit_128)
  finally show ?thesis by (simp add: take_bit_eq_mod)
qed
lemma nat_lead: "n < 2 ^ k \<Longrightarrow> n OR (2 ^ k * j) = n + 2 ^ k * (j::nat)"
proof -
  assume n: "n < 2 ^ k"
  then have t: "take_bit k n = n" by (rule take_bit_nat_eq_self)
  have "bit n i \<Longrightarrow> i < k" for i using t by (metis bit_take_bit_iff)
  then have "n + push_bit k j = n OR push_bit k j"
    by (intro disjunctive_add) (force simp: bit_push_bit_iff)
  then show ?thesis by (simp add: push_bit_eq_mult mult.commute)
qed
section \<open>UTF-8\<close>

text \<open>The encoding of RFC 3629, in arithmetic.\<close>

definition rfc3629 :: "nat \<Rightarrow> nat list" where
  "rfc3629 n =
    (if n < 0x80 then [n]
     else if n < 0x800 then [0xC0 + n div 64, 0x80 + n mod 64]
     else if n < 0x10000 then [0xE0 + n div 4096, 0x80 + n div 64 mod 64, 0x80 + n mod 64]
     else [0xF0 + n div 262144, 0x80 + n div 4096 mod 64, 0x80 + n div 64 mod 64, 0x80 + n mod 64])"

lemma ord_low_char: "ord (low_char w) = unat w mod 256"
proof -
  have "unat (ucast w :: u8) = unat w mod 256"
    by (simp add: unsigned_ucast_eq take_bit_eq_mod)
  then show ?thesis by (simp add: low_char_def char_of_byte_def)
qed

lemma ord_cont: "ord (low_char ((w OR 0x80) AND 0xBF)) = 128 + unat w mod 64"
proof -
  have "unat ((w OR 0x80) AND 0xBF) = 128 + unat w mod 64"
    by (simp add: unsigned_and_eq unsigned_or_eq nat_cont)
  then show ?thesis by (simp add: ord_low_char)
qed

lemma ord_lead:
  assumes "unat w < 2 ^ k" and "mark = word_of_nat (2 ^ k * j)" and "2 ^ k * j + 2 ^ k \<le> 256"
  shows "ord (low_char (w OR mark)) = 2 ^ k * j + unat w"
proof -
  have "unat mark = 2 ^ k * j"
    unfolding assms(2) using assms(3) by (intro unat_of_nat_small) simp
  then have "unat (w OR mark) = unat w + 2 ^ k * j"
    using nat_lead [OF assms(1)] by (simp add: unsigned_or_eq)
  then show ?thesis using assms(1,3) by (simp add: ord_low_char)
qed
lemma unat_drop:
  "unat (drop_bit 6 (w :: u32)) = unat w div 64"
  "unat (drop_bit 12 (w :: u32)) = unat w div 4096"
  "unat (drop_bit 18 (w :: u32)) = unat w div 262144"
  by (simp_all add: drop_bit_eq_div unat_div)

lemma utf8_bytes_unfold:
  "utf8_bytes len 1 uc = [low_char (uc OR firstByteMark ! len)]"
  "utf8_bytes len 2 uc = utf8_bytes len 1 (drop_bit 6 uc) @ [low_char ((uc OR 0x80) AND 0xBF)]"
  "utf8_bytes len 3 uc = utf8_bytes len 2 (drop_bit 6 uc) @ [low_char ((uc OR 0x80) AND 0xBF)]"
  "utf8_bytes len 4 uc = utf8_bytes len 3 (drop_bit 6 uc) @ [low_char ((uc OR 0x80) AND 0xBF)]"
  by (simp_all add: eval_nat_numeral)

lemma firstByteMark_nth:
  "firstByteMark ! 1 = 0" "firstByteMark ! 2 = 0xC0" "firstByteMark ! 3 = 0xE0" "firstByteMark ! 4 = 0xF0"
  by (simp_all add: firstByteMark_def)

lemmas utf8_unfold = utf8_def utf8_bytes_unfold firstByteMark_nth unat_drop ord_cont

text \<open>
  For every code point up to U+10FFFF the bytes \<open>parse_string\<close> writes for a Unicode escape
  are its UTF-8 encoding.
\<close>

lemma utf8_is_rfc3629:
  assumes "uc < 0x110000"
  shows "map ord (utf8 uc) = rfc3629 (unat uc)"
proof -
  let ?n = "unat uc"
  have n: "?n < 0x110000" using assms by (simp add: word_less_nat_alt)
  have len: "utf8_len uc = (if ?n < 0x80 then 1 else if ?n < 0x800 then 2 else if ?n < 0x10000 then 3 else 4)"
    by (simp add: utf8_len_def word_less_nat_alt)
  consider "?n < 0x80" | "0x80 \<le> ?n" "?n < 0x800" | "0x800 \<le> ?n" "?n < 0x10000" | "0x10000 \<le> ?n" by linarith
  then show ?thesis
  proof cases
    case 1
    then show ?thesis using ord_lead [where w = uc and k = 7 and j = 0]
      by (simp add: utf8_unfold len rfc3629_def del: One_nat_def)
  next
    case 2
    then have "?n div 64 < 2 ^ 5" by simp
    with 2 show ?thesis using ord_lead [where w = "drop_bit 6 uc" and k = 5 and j = 6]
      by (simp add: utf8_unfold len rfc3629_def del: One_nat_def)
  next
    case 3
    then have "?n div 64 div 64 < 2 ^ 4" by simp
    with 3 show ?thesis using ord_lead [where w = "drop_bit 6 (drop_bit 6 uc)" and k = 4 and j = 14]
      by (simp add: utf8_unfold len rfc3629_def div_mult2_eq [symmetric] del: One_nat_def)
  next
    case 4
    then have "?n div 64 div 64 div 64 < 2 ^ 3" using n by simp
    with 4 show ?thesis using ord_lead [where w = "drop_bit 6 (drop_bit 6 (drop_bit 6 uc))" and k = 3 and j = 30]
      by (simp add: utf8_unfold len rfc3629_def div_mult2_eq [symmetric] del: One_nat_def)
  qed
qed

lemma utf8_is_rfc3629_instance: "map ord (utf8 0x1F600) = rfc3629 (unat (0x1F600 :: u32))"
  by (rule utf8_is_rfc3629) simp

section \<open>Numbers\<close>

lemma foldl_digits_ge: "a \<le> foldl (\<lambda>v c. 10 * v + digit_val c) a ds"
proof (induction ds arbitrary: a)
  case (Cons d ds)
  have "a \<le> 10 * a + digit_val d" by simp
  also have "\<dots> \<le> foldl (\<lambda>v c. 10 * v + digit_val c) (10 * a + digit_val d) ds" by (rule Cons.IH)
  finally show ?case by simp
qed simp

lemma number_digits_exact:
  assumes "\<forall>d\<in>set ds. is_digit d" and "rest = [] \<or> \<not> is_digit (hd rest)"
    and "foldl (\<lambda>v c. 10 * v + digit_val c) a ds \<le> 2 ^ 53"
  shows "number_digits (Fin (of_nat a)) k (ds @ rest) =
    (Fin (of_nat (foldl (\<lambda>v c. 10 * v + digit_val c) a ds)), k + int (length ds), rest)"
  using assms
proof (induction ds arbitrary: a k)
  case Nil
  then show ?case by (cases rest) auto
next
  case (Cons d ds)
  let ?b = "10 * a + digit_val d"
  have b: "?b \<le> 2 ^ 53"
    using foldl_digits_ge [of ?b ds] Cons.prems(3) by simp
  have "rnd (of_int (int (10 * a))) = Fin (of_int (int (10 * a)))"
    by (rule rnd_of_int) (use b in simp)
  then have "dmul (Fin (of_nat a)) (Fin 10) = Fin (of_nat (10 * a))"
    by (simp add: dmul_def mult.commute)
  moreover have "rnd (of_int (int ?b)) = Fin (of_int (int ?b))"
    by (rule rnd_of_int) (use b in simp)
  then have "dadd (Fin (of_nat (10 * a))) (Fin (of_nat (digit_val d))) = Fin (of_nat ?b)"
    by (simp add: dadd_def)
  ultimately have "number_digits (Fin (of_nat a)) k ((d # ds) @ rest) =
      number_digits (Fin (of_nat ?b)) (k + 1) (ds @ rest)"
    using Cons.prems(1) by simp
  also have "\<dots> = (Fin (of_nat (foldl (\<lambda>v c. 10 * v + digit_val c) ?b ds)), k + 1 + int (length ds), rest)"
    by (rule Cons.IH) (use Cons.prems in simp_all)
  finally show ?case by simp
qed

lemma dec_str_split:
  assumes "0 < n"
  obtains d ds where "dec_str n = d # ds" "CHR ''1'' \<le> d" "d \<le> CHR ''9''" "is_digit d"
proof -
  obtain d ds where d: "dec_str n = d # ds" by (cases "dec_str n") auto
  have "is_digit d" using dec_str_digits [of d n] d by simp
  moreover have "d \<noteq> CHR ''0''" using dec_str_first [OF assms] d by simp
  then have "ord d \<noteq> ord CHR ''0''" by (simp only: of_char_eq_iff) simp
  ultimately have "49 \<le> ord d" "ord d \<le> 57" by (auto simp: is_digit_ord)
  then show thesis using that [OF d] \<open>is_digit d\<close> by (simp add: less_eq_char_def)
qed

lemma dmul_1: "\<bar>n\<bar> \<le> 2 ^ 53 \<Longrightarrow> dmul (Fin 1) (Fin (of_int n)) = Fin (of_int n)"
  by (simp add: dmul_def rnd_of_int)

lemma dmul_1': "\<bar>n\<bar> \<le> 2 ^ 53 \<Longrightarrow> dmul (Fin (of_int n)) (Fin 1) = Fin (of_int n)"
  by (simp add: dmul_def rnd_of_int)

lemma dpow10_0: "dpow10 0 = Fin 1"
  using rnd_of_int [of 1] by (simp add: dpow10_def)

definition number_end :: "string \<Rightarrow> bool" where
  "number_end s \<longleftrightarrow> c_at s \<notin> {CHR ''.'', CHR ''e'', CHR ''E''} \<and> \<not> is_digit (c_at s)"

lemma dbl_to_int_of_nat:
  "dbl_to_int (Fin (of_nat n)) = (if int n \<le> INT_MAX then int n else INT_MIN)"
  by (auto simp: dbl_to_int_def trunc_def)

lemma parse_number_value:
  assumes "n \<le> 2 ^ 53" and "number_end rest"
  shows "parse_number item (dec_str n @ rest) m =
    POk (set_jtype J_Number (set_valueint (if int n \<le> INT_MAX then int n else INT_MIN)
      (set_valuedouble (Fin (of_nat n)) item))) rest m"
proof -
  have e: "number_exponent rest = Inr (0, rest)"
    using assms(2) by (auto simp: number_exponent_def number_end_def)
  have r: "rest = [] \<or> \<not> is_digit (hd rest)"
    using assms(2) by (cases rest) (auto simp: number_end_def)
  have final: "dmul (dmul (Fin 1) (Fin (of_nat n))) (dpow10 0) = Fin (of_nat n)"
    using dmul_1 [of "int n"] dmul_1' [of "int n"] assms(1) by (simp add: dpow10_0)
  show ?thesis
  proof (cases "n = 0")
    case True
    have "\<not> CHR ''1'' \<le> c_at rest \<or> \<not> c_at rest \<le> CHR ''9''"
      using assms(2) by (auto simp: number_end_def is_digit_def less_eq_char_def)
    then show ?thesis using True final e assms(2)
      by (elim disjE) (simp_all add: parse_number_def dec_str_0 Let_def number_end_def
          dbl_to_int_of_nat [of 0, simplified])
  next
    case False
    then obtain d ds where d: "dec_str n = d # ds" "CHR ''1'' \<le> d" "d \<le> CHR ''9''" "is_digit d"
      using dec_str_split by blast
    have "\<forall>c\<in>set (dec_str n). is_digit c" using dec_str_digits by blast
    moreover have v: "foldl (\<lambda>v c. 10 * v + digit_val c) 0 (dec_str n) = n"
      using dec_val_dec_str [of n] by (simp only: dec_val_def)
    ultimately obtain k where digits: "number_digits (Fin 0) 0 (dec_str n @ rest) = (Fin (of_nat n), k, rest)"
      using number_digits_exact [of "dec_str n" rest 0 0] r assms(1) by simp
    have "d \<noteq> CHR ''-''" "d \<noteq> CHR ''0''" using d(2) by (auto simp: less_eq_char_def)
    then show ?thesis using d(1-3) digits final e assms(2)
      by (simp add: parse_number_def Let_def number_end_def dbl_to_int_of_nat)
  qed
qed

text \<open>
  A decimal literal of a natural number up to \<open>2 ^ 53\<close>, as the service prints ids, is read
  exactly into \<open>valuedouble\<close>. The field \<open>valueint\<close> holds the number only up to
  \<open>INT_MAX\<close>; above it the conversion \<^verbatim>\<open>(int)n\<close> leaves \<open>INT_MIN\<close>.
\<close>

lemma parse_number_decimal:
  assumes "n \<le> 2 ^ 53" and "number_end rest"
  shows "parse_number item (dec_str n @ rest) m =
    POk (set_jtype J_Number (set_valueint (if int n \<le> INT_MAX then int n else INT_MIN)
      (set_valuedouble (Fin (of_nat n)) item))) rest m"
  using assms by (rule parse_number_value)

lemma parse_number_decimal_instance:
  "parse_number blank_item (dec_str 4294967297 @ '']'') [] =
    POk (set_jtype J_Number (set_valueint (if int 4294967297 \<le> INT_MAX then int 4294967297 else INT_MIN)
      (set_valuedouble (Fin (of_nat 4294967297)) blank_item))) '']'' []"
  by (rule parse_number_decimal) (simp_all add: number_end_def is_digit_ord)

end
