(* ===== verification/Cjson_Parse_Correct.thy ===== *)
theory Cjson_Parse_Correct
  imports Cjson_Parse "HOL-Library.Sublist"
begin

text \<open>
  The parser terminates within its fuel, its pointers stay inside the text, and it runs without an
  undefined operation on every text whose escapes are complete and whose exponents are short;
  both conditions are needed.
\<close>

section \<open>Texts\<close>

fun escapes_ok :: "string \<Rightarrow> bool" where
  "escapes_ok [] = True"
| "escapes_ok (c # s) =
    (if c = CHR 0x5C
     then (case s of [] \<Rightarrow> False
           | d # t \<Rightarrow> (d = CHR ''u'' \<longrightarrow>
               4 \<le> length t \<and> list_all (\<lambda>x. hex4_digit x \<noteq> None) (take 4 t)) \<and> escapes_ok t)
     else escapes_ok s)"

fun exponents_ok :: "string \<Rightarrow> bool" where
  "exponents_ok [] = True"
| "exponents_ok (c # s) =
    ((c = CHR ''e'' \<or> c = CHR ''E'' \<longrightarrow>
       length (takeWhile is_digit
         (if c_at s = CHR ''+'' \<or> c_at s = CHR ''-'' then drop 1 s else s)) \<le> 9) \<and>
     exponents_ok s)"

definition text_ok :: "string \<Rightarrow> bool" where
  "text_ok s \<longleftrightarrow> escapes_ok s \<and> exponents_ok s"

lemma escapes_ok_plain [simp]: "c \<noteq> CHR 0x5C \<Longrightarrow> escapes_ok (c # s) = escapes_ok s"
  by simp

lemma escapes_ok_append: "CHR 0x5C \<notin> set u \<Longrightarrow> escapes_ok (u @ s) = escapes_ok s"
  by (induction u) auto

lemma exponents_ok_suffix: "suffix t s \<Longrightarrow> exponents_ok s \<Longrightarrow> exponents_ok t"
proof -
  have "exponents_ok (u @ t) \<Longrightarrow> exponents_ok t" for u by (induction u) auto
  then show "suffix t s \<Longrightarrow> exponents_ok s \<Longrightarrow> exponents_ok t" by (auto simp: suffix_def)
qed

lemma text_ok_plain: "CHR 0x5C \<notin> set u \<Longrightarrow> text_ok (u @ s) \<Longrightarrow> text_ok s"
  using exponents_ok_suffix [of s "u @ s"] by (auto simp: text_ok_def escapes_ok_append suffix_def)

lemma hex4_digit_plain: "hex4_digit c \<noteq> None \<Longrightarrow> c \<noteq> CHR 0x5C \<and> c \<noteq> CHR 0x22"
  by (auto simp: hex4_digit_def less_eq_char_def)

section \<open>The two passes of \<open>parse_string\<close>\<close>

lemma string_len_plain:
  "c \<noteq> CHR 0x22 \<Longrightarrow> c \<noteq> CHR 0x5C \<Longrightarrow> string_len (c # s) = rbind (string_len s) (\<lambda>n. Inr (Suc n))"
  by simp

lemma string_len_escape: "string_len (CHR 0x5C # d # s) = rbind (string_len s) (\<lambda>n. Inr (Suc n))"
  by simp

lemma string_len_total: "escapes_ok s \<Longrightarrow> \<exists>n. string_len s = Inr n"
proof (induction s rule: length_induct)
  case (1 s)
  show ?case
  proof (cases s)
    case (Cons c t)
    consider "c = CHR 0x22" | "c = CHR 0x5C" | "c \<noteq> CHR 0x22" "c \<noteq> CHR 0x5C" by blast
    then show ?thesis
    proof cases
      case 2
      with "1.prems" Cons obtain d u where u: "t = d # u" "escapes_ok u" by (cases t) auto
      then obtain n where "string_len u = Inr n" using "1.IH" Cons by force
      then show ?thesis by (simp add: Cons 2 u)
    next
      case 3
      then obtain n where "string_len t = Inr n" using "1.IH" "1.prems" Cons by force
      with 3 show ?thesis by (simp add: Cons)
    qed (simp add: Cons)
  qed simp
qed

lemma hex_prefix:
  assumes "4 \<le> length t" and "list_all (\<lambda>x. hex4_digit x \<noteq> None) (take 4 t)"
  shows "string_len t = rbind (string_len (drop 4 t)) (\<lambda>n. Inr (n + 4))"
    and "escapes_ok t = escapes_ok (drop 4 t)"
proof -
  obtain a b c d t' where t: "t = a # b # c # d # t'"
    using assms(1) by (auto simp: numeral_eq_Suc Suc_le_length_iff)
  with assms(2) have "hex4_digit a \<noteq> None" "hex4_digit b \<noteq> None" "hex4_digit c \<noteq> None" "hex4_digit d \<noteq> None"
    by (simp_all add: numeral_eq_Suc)
  then show "string_len t = rbind (string_len (drop 4 t)) (\<lambda>n. Inr (n + 4))"
    and "escapes_ok t = escapes_ok (drop 4 t)"
    using hex4_digit_plain by (auto simp: t rbind_def split: sum.splits)
qed

lemma length_utf8: "length (utf8 uc) = utf8_len uc"
proof -
  have "length (utf8_bytes len n w) = n" for len n w
    by (induction len n w rule: utf8_bytes.induct) auto
  then show ?thesis by (simp add: utf8_def)
qed

lemma utf8_len_le_4: "utf8_len uc \<le> 4"
  by (simp add: utf8_len_def)

text \<open>What an escape consumes covers what it writes.\<close>

lemma utf16_escape_ok:
  assumes "escapes_ok (CHR 0x5C # p)" and "string_len (CHR 0x5C # p) = Inr n"
    and "c_at p = CHR ''u''"
  obtains uc q q' k where "utf16_escape p = Inr (uc, q)" "advance 1 q = Inr q'"
    "escapes_ok q'" "string_len q' = Inr k" "k + 4 \<le> n" "suffix q' p"
proof -
  obtain t where p: "p = CHR ''u'' # t" using assms(3) by (cases p) auto
  from assms(1) have t: "4 \<le> length t" "list_all (\<lambda>x. hex4_digit x \<noteq> None) (take 4 t)" "escapes_ok t"
    by (simp_all add: p)
  obtain k where k: "string_len (drop 4 t) = Inr k" "n = k + 5"
    using assms(2) hex_prefix(1) [OF t(1,2)] by (auto simp: p rbind_eq_Inr)
  have e: "escapes_ok (drop 4 t)" using hex_prefix(2) [OF t(1,2)] t(3) by simp
  have s4: "suffix (drop 4 t) p" by (simp add: p suffix_drop suffix_Cons)
  have adv: "advance 4 p = Inr (drop 3 t)" using t(1) by (simp add: advance_def p)
  have one: "advance 1 (drop 3 t) = Inr (drop 4 t)" using t(1) by (simp add: advance_def)
  let ?uc = "parse_hex4 t"
  consider (plain) uc where "utf16_escape p = Inr (uc, drop 3 t)"
    | (pair) "c_at (drop 4 t) = CHR 0x5C" "c_at (drop 5 t) = CHR ''u''" "0xD800 \<le> ?uc" "?uc \<le> 0xDBFF"
      "\<not> (0xDC00 \<le> ?uc \<and> ?uc \<le> 0xDFFF \<or> ?uc = 0)"
  proof (cases "(0xDC00 \<le> ?uc \<and> ?uc \<le> 0xDFFF \<or> ?uc = 0) \<or> \<not> (0xD800 \<le> ?uc \<and> ?uc \<le> 0xDBFF)
      \<or> c_at (drop 4 t) \<noteq> CHR 0x5C \<or> c_at (drop 5 t) \<noteq> CHR ''u''")
    case True
    then have "\<exists>uc. utf16_escape p = Inr (uc, drop 3 t)"
      unfolding utf16_escape_def using adv by (auto simp: p Let_def)
    then show ?thesis using plain by blast
  qed (use pair in blast)
  then show thesis
  proof cases
    case plain
    then show ?thesis using that one e k s4 by simp
  next
    case pair
    obtain u where u: "drop 4 t = CHR 0x5C # CHR ''u'' # u"
      using pair(1,2) by (cases "drop 4 t"; cases "drop 5 t")
        (auto simp: drop_Suc tl_drop numeral_eq_Suc)
    from e have h: "4 \<le> length u" "list_all (\<lambda>x. hex4_digit x \<noteq> None) (take 4 u)" "escapes_ok u"
      by (simp_all add: u)
    obtain k' where k': "string_len (drop 4 u) = Inr k'" "k = k' + 5"
      using k(1) hex_prefix(1) [OF h(1,2)] by (auto simp: u rbind_eq_Inr)
    have e': "escapes_ok (drop 4 u)" using hex_prefix(2) [OF h(1,2)] h(3) by simp
    obtain x where x: "drop 3 t = x # CHR 0x5C # CHR ''u'' # u"
      using u t(1) by (cases "drop 3 t") (auto simp: drop_Suc tl_drop numeral_eq_Suc)
    have adv6: "advance 6 (drop 3 t) = Inr (drop 3 u)" using h(1) by (simp add: advance_def x)
    have one': "advance 1 (drop 3 u) = Inr (drop 4 u)" using h(1) by (simp add: advance_def)
    have s: "suffix (drop 4 u) p"
      using s4 by (metis (no_types, lifting) u suffix_drop suffix_Cons suffix_order.order_trans)
    have "\<exists>uc. utf16_escape p = Inr (uc, drop 3 u)"
      using pair adv adv6 by (auto simp: utf16_escape_def p Let_def x [unfolded p])
    then show ?thesis using that one' e' k' k(2) s by auto
  qed
qed

lemma unescape_one_ok:
  assumes "escapes_ok (CHR 0x5C # p)" and "string_len (CHR 0x5C # p) = Inr n"
    and "length out + n \<le> cap"
  obtains out' q k where "unescape_one cap out p = Inr (out', q)" "escapes_ok q"
    "string_len q = Inr k" "length out' + k \<le> length out + n" "suffix q p"
proof (cases "c_at p = CHR ''u''")
  case True
  obtain uc r q k where r: "utf16_escape p = Inr (uc, r)" "advance 1 r = Inr q"
    "escapes_ok q" "string_len q = Inr k" "k + 4 \<le> n" "suffix q p"
    by (rule utf16_escape_ok [OF assms(1,2) True])
  show ?thesis
  proof (cases "uc = 0")
    case uc: True
    show ?thesis
      by (rule that [of out q k]) (use True uc r in \<open>simp_all add: unescape_one_def unescape_switch_def\<close>)
  next
    case False
    have "length out + length (utf8 uc) + k \<le> length out + n"
      using r(5) utf8_len_le_4 [of uc] by (simp add: length_utf8)
    then show ?thesis
      by (intro that [of "out @ utf8 uc" q k])
        (use True False r assms(3) in \<open>simp_all add: unescape_one_def unescape_switch_def emit_fits\<close>)
  qed
next
  case False
  obtain d t where p: "p = d # t" "escapes_ok t" using assms(1) by (cases p) auto
  with assms(2) obtain k where k: "string_len t = Inr k" "n = Suc k"
    by (auto simp: rbind_eq_Inr)
  show ?thesis
    by (rule that [of "out @ [simple_escape d]" t k])
      (use False p k assms(3) in \<open>simp_all add: unescape_one_def unescape_switch_def emit_fits
         advance_def suffix_Cons\<close>)
qed

lemma unescape_ok:
  assumes "escapes_ok s" and "string_len s = Inr n" and "length out + n \<le> cap"
  shows "\<exists>out' q. unescape cap out s = Inr (out', q) \<and> escapes_ok q \<and>
    length out' \<le> length out + n \<and> suffix q s"
  using assms
proof (induction s arbitrary: out n rule: length_induct)
  case (1 s)
  show ?case
  proof (cases s)
    case (Cons c t)
    consider "c = CHR 0x22" | "c = CHR 0x5C" | "c \<noteq> CHR 0x22" "c \<noteq> CHR 0x5C" by blast
    then show ?thesis
    proof cases
      case 1
      then show ?thesis using "1.prems" Cons by simp
    next
      case 2
      from "1.prems" obtain out1 q k where one: "unescape_one cap out t = Inr (out1, q)"
        "escapes_ok q" "string_len q = Inr k" "length out1 + k \<le> length out + n" "suffix q t"
        unfolding Cons 2 by (rule unescape_one_ok)
      have "length q < length s" using unescape_one_shrinks [OF one(1)] Cons by simp
      with "1.IH" one(2-4) "1.prems"(3) obtain out' r where "unescape cap out1 q = Inr (out', r)"
        "escapes_ok r" "length out' \<le> length out1 + k" "suffix r q"
        by (metis (no_types, lifting) order_trans)
      moreover from this one(5) have "suffix r s"
        by (auto simp: Cons suffix_Cons dest: suffix_order.trans)
      ultimately show ?thesis using one Cons 2 by simp
    next
      case 3
      with "1.prems" Cons obtain k where k: "string_len t = Inr k" "n = Suc k"
        by (auto simp: rbind_eq_Inr)
      have "length t < length s" "escapes_ok t" "length (out @ [c]) + k \<le> cap"
        using "1.prems" Cons 3 k by simp_all
      with "1.IH" k(1) obtain out' r where "unescape cap (out @ [c]) t = Inr (out', r)"
        "escapes_ok r" "length out' \<le> length (out @ [c]) + k" "suffix r t"
        by blast
      with 3 k "1.prems"(3) show ?thesis by (simp add: Cons emit_fits suffix_Cons)
    qed
  qed (use "1.prems" in simp)
qed

section \<open>Results that stay in the text\<close>

text \<open>
  \<open>ok_result s r\<close>: the parser called at \<open>s\<close> returned in its fuel, the pointer it
  returns or leaves in \<open>ep\<close> is inside \<open>s\<close>, and it met no undefined operation if
  \<open>s\<close> is a regular text, of which it then leaves a regular rest.
\<close>

definition ok_result :: "string \<Rightarrow> 'a parse \<Rightarrow> bool" where
  "ok_result s r =
    (case r of
       POk x t m \<Rightarrow> suffix t s \<and> (text_ok s \<longrightarrow> text_ok t)
     | PFail e \<Rightarrow> (\<forall>t. e = Some t \<longrightarrow> suffix t s)
     | PFault u \<Rightarrow> \<not> text_ok s
     | PFuel \<Rightarrow> False)"

lemma ok_result_simps [simp]:
  "ok_result s (POk x t m) \<longleftrightarrow> suffix t s \<and> (text_ok s \<longrightarrow> text_ok t)"
  "ok_result s (PFail None)"
  "ok_result s (PFail (Some t)) \<longleftrightarrow> suffix t s"
  "ok_result s (PFault u) \<longleftrightarrow> \<not> text_ok s"
  "\<not> ok_result s PFuel"
  by (simp_all add: ok_result_def)

lemma ok_result_trans:
  assumes "ok_result t r" and "suffix t s" and "text_ok s \<Longrightarrow> text_ok t"
  shows "ok_result s r"
  using assms by (auto simp: ok_result_def split: parse.splits dest: suffix_order.trans)

lemma ok_result_pbind:
  assumes "ok_result s r"
    and "\<And>x t m. r = POk x t m \<Longrightarrow> suffix t s \<Longrightarrow> ok_result t (f x t m)"
  shows "ok_result s (pbind r f)"
  using assms by (cases r) (auto simp: ok_result_def split: option.splits parse.splits
      dest: suffix_order.trans)

lemma ok_result_new_item:
  "(\<And>c m'. New_Item m = (Some c, m') \<Longrightarrow> ok_result s (f c m')) \<Longrightarrow> ok_result s (with_new_item m f)"
  by (auto simp: with_new_item_def split: prod.splits option.splits)

lemma skip_text: "suffix (skip s) s" "text_ok s \<Longrightarrow> text_ok (skip s)"
proof -
  have s: "s = takeWhile (\<lambda>c. ord c \<le> (32 :: nat)) s @ skip s" by (simp add: skip_def)
  then show "suffix (skip s) s" by (metis suffixI)
  have "CHR 0x5C \<notin> set (takeWhile (\<lambda>c. ord c \<le> (32 :: nat)) s)"
    by (auto dest!: set_takeWhileD)
  then show "text_ok s \<Longrightarrow> text_ok (skip s)" using s text_ok_plain by metis
qed

lemma length_skip: "length (skip s) \<le> length s"
  by (simp add: skip_def length_dropWhile_le)

lemma ok_result_skip: "ok_result (skip s) r \<Longrightarrow> ok_result s r"
  by (rule ok_result_trans [OF _ skip_text])

lemma ok_result_Cons: "ok_result s r \<Longrightarrow> c \<noteq> CHR 0x5C \<Longrightarrow> ok_result (c # s) r"
  by (erule ok_result_trans) (auto simp: suffix_Cons text_ok_def)

lemma ok_result_drop:
  "ok_result (drop k s) r \<Longrightarrow> CHR 0x5C \<notin> set (take k s) \<Longrightarrow> ok_result s r"
  by (erule ok_result_trans) (auto simp: suffix_drop intro: text_ok_plain [of "take k s"])

section \<open>The parsers\<close>

lemma utf16_escape_suffix: "utf16_escape p = Inr (uc, q) \<Longrightarrow> suffix q p"
  by (auto simp: utf16_escape_def Let_def rbind_eq_Inr suffix_drop split: if_splits
      dest!: advance_InrD)

lemma unescape_one_suffix:
  assumes "unescape_one cap out p = Inr (r, q)"
  shows "suffix q p"
proof -
  obtain out1 p1 where "unescape_switch cap out p = Inr (out1, p1)" and q: "advance 1 p1 = Inr q"
    using assms by (auto simp: unescape_one_def rbind_eq_Inr)
  then have "suffix p1 p"
    by (auto simp: unescape_switch_def rbind_eq_Inr split: if_splits dest: utf16_escape_suffix)
  moreover have "suffix q p1" using advance_InrD [OF q] by (simp add: suffix_drop)
  ultimately show ?thesis by (rule suffix_order.trans [rotated])
qed

lemma unescape_suffix:
  "unescape cap out s = Inr (out', q) \<Longrightarrow> suffix q s"
proof (induction cap out s rule: unescape.induct)
  case (2 cap out c s)
  consider "c = CHR 0x22" | "c = CHR 0x5C" | "c \<noteq> CHR 0x22" "c \<noteq> CHR 0x5C" by blast
  then show ?case
  proof cases
    case 2
    with "2.prems" obtain r p where "unescape_one cap out s = Inr (r, p)" "unescape cap r p = Inr (out', q)"
      by (auto simp: rbind_eq_Inr)
    with 2 have "suffix q p" "suffix p s" using "2.IH"(2) unescape_one_suffix by auto
    then show ?thesis by (meson suffix_ConsI suffix_order.trans)
  next
    case 3
    with "2.prems" obtain r where "emit cap [c] out = Inr r" "unescape cap r s = Inr (out', q)"
      by (auto simp: rbind_eq_Inr)
    with 3 have "suffix q s" using "2.IH"(1) by auto
    then show ?thesis by (rule suffix_ConsI)
  qed (use "2.prems" in simp)
qed simp

lemma ok_parse_string: "ok_result s (parse_string item s m)"
proof (cases "c_at s = CHR 0x22")
  case True
  then obtain t where s: "s = CHR 0x22 # t" by (cases s) auto
  have sfx: "suffix (if c_at q = CHR 0x22 then drop 1 q else q) s" if "suffix q t" for q
    using that by (auto simp: s intro: suffix_ConsI suffix_order.trans [OF suffix_drop])
  show ?thesis
  proof (cases "text_ok s")
    case ok: True
    then have t: "escapes_ok t" by (simp add: s text_ok_def)
    then obtain n where n: "string_len t = Inr n" using string_len_total by blast
    have "length ([] :: string) + n \<le> n + 1" by simp
    from unescape_ok [OF t n this] obtain out q where u: "unescape (n + 1) [] t = Inr (out, q)"
      "escapes_ok q" "length out \<le> n" "suffix q t" by auto
    have "escapes_ok (if c_at q = CHR 0x22 then drop 1 q else q)"
      using u(2) by (cases q) auto
    then have "text_ok (if c_at q = CHR 0x22 then drop 1 q else q)"
      using exponents_ok_suffix [OF sfx [OF u(4)]] ok by (auto simp: text_ok_def)
    then show ?thesis using u sfx [OF u(4)]
      by (auto simp: parse_string_def s n emit_fits split: prod.splits bool.splits)
  next
    case False
    then show ?thesis
      by (auto simp: parse_string_def s plift_def split: sum.splits prod.splits bool.splits
          dest!: unescape_suffix dest: sfx [unfolded s])
  qed
qed (simp add: parse_string_def)

lemma number_digits_split:
  assumes "number_digits n k s = (n', k', t)"
  shows "t = dropWhile is_digit s" "k' = k + int (length (takeWhile is_digit s))"
  using assms by (induction n k s rule: number_digits.induct) (auto split: if_splits)

lemma exponent_digits_split:
  "exponent_digits e s = Inr (e', t) \<Longrightarrow> t = dropWhile is_digit s"
  by (induction e s rule: exponent_digits.induct) (auto simp: Let_def split: if_splits)

lemma digit_val_le: "is_digit c \<Longrightarrow> digit_val c \<le> 9"
  by (auto simp: is_digit_ord digit_val_def)

lemma exponent_digits_short:
  assumes "e < 10 ^ j" and "length (takeWhile is_digit s) + j \<le> 9"
  shows "\<exists>e'. exponent_digits e s = Inr (e', dropWhile is_digit s)"
  using assms
proof (induction s arbitrary: e j)
  case (Cons c s)
  show ?case
  proof (cases "is_digit c")
    case True
    have "e * 10 + int (digit_val c) < 10 ^ Suc j"
      using Cons.prems(1) digit_val_le [OF True] by simp
    moreover have "length (takeWhile is_digit s) + Suc j \<le> 9" using Cons.prems(2) True by simp
    ultimately have "\<exists>e'. exponent_digits (e * 10 + int (digit_val c)) s = Inr (e', dropWhile is_digit s)"
      by (rule Cons.IH)
    moreover have "(10 :: int) ^ Suc j \<le> 10 ^ 9"
      by (rule power_increasing) (use Cons.prems(2) True in simp_all)
    ultimately show ?thesis using True \<open>_ < 10 ^ Suc j\<close> by (simp add: Let_def)
  qed simp
qed simp

text \<open>Steps of a pointer over characters other than a backslash.\<close>

definition text_step :: "string \<Rightarrow> string \<Rightarrow> bool" where
  "text_step s t \<longleftrightarrow> suffix t s \<and> (text_ok s \<longrightarrow> text_ok t)"

lemma text_step_refl [simp]: "text_step s s"
  by (simp add: text_step_def)

lemma text_step_trans: "text_step s t \<Longrightarrow> text_step t u \<Longrightarrow> text_step s u"
  by (auto simp: text_step_def dest: suffix_order.trans)

lemma text_step_append: "CHR 0x5C \<notin> set u \<Longrightarrow> text_step (u @ s) s"
  by (auto simp: text_step_def suffix_def dest: text_ok_plain)

lemma text_step_drop1: "c_at s \<noteq> CHR 0x5C \<Longrightarrow> text_step s (drop 1 s)"
  using text_step_append [of "take 1 s" "drop 1 s"] by (cases s) auto

lemma text_step_drop1' [intro]:
  "c_at s = c \<Longrightarrow> c \<noteq> CHR 0x5C \<Longrightarrow> text_step s (drop (Suc 0) s)"
  using text_step_drop1 [of s] by simp

lemma text_step_digits: "text_step s (dropWhile is_digit s)"
proof -
  have "CHR 0x5C \<notin> set (takeWhile is_digit s)"
    by (auto dest!: set_takeWhileD simp: is_digit_ord)
  then show ?thesis using text_step_append [of "takeWhile is_digit s" "dropWhile is_digit s"] by simp
qed

lemma ok_result_step: "text_step s t \<Longrightarrow> ok_result t r \<Longrightarrow> ok_result s r"
  using ok_result_trans [of t r s] by (auto simp: text_step_def)

lemma number_exponent_ok:
  "case number_exponent s of Inl u \<Rightarrow> \<not> text_ok s | Inr (e, t) \<Rightarrow> text_step s t"
proof (cases "c_at s = CHR ''e'' \<or> c_at s = CHR ''E''")
  case True
  then obtain c t where s: "s = c # t" "c = CHR ''e'' \<or> c = CHR ''E''" by (cases s) auto
  define r where "r = (if c_at t = CHR ''+'' \<or> c_at t = CHR ''-'' then drop 1 t else t)"
  have "text_step s t" using text_step_drop1 [of s] True s by auto
  moreover have "text_step t r" by (auto simp: r_def intro: text_step_drop1')
  ultimately have step: "text_step s r" by (rule text_step_trans)
  show ?thesis
  proof (cases "exponent_digits 0 r")
    case (Inl u)
    have "\<not> text_ok s"
    proof
      assume "text_ok s"
      then have "length (takeWhile is_digit r) + 0 \<le> 9" using s by (simp add: text_ok_def r_def)
      with exponent_digits_short [of 0 0 r] Inl show False by simp
    qed
    then show ?thesis using Inl True s by (simp add: number_exponent_def Let_def r_def)
  next
    case (Inr p)
    obtain e q where p: "p = (e, q)" by (cases p)
    have "q = dropWhile is_digit r" using exponent_digits_split Inr p by blast
    then have "text_step s q" using text_step_trans [OF step text_step_digits] by simp
    then show ?thesis using Inr True s p by (simp add: number_exponent_def Let_def r_def)
  qed
qed (simp add: number_exponent_def)

lemma ok_parse_number: "ok_result s (parse_number item s m)"
proof -
  define s1 where "s1 = (if c_at s = CHR ''-'' then drop 1 s else s)"
  define s2 where "s2 = (if c_at s1 = CHR ''0'' then drop 1 s1 else s1)"
  obtain n k s3 where s3: "(if CHR ''1'' \<le> c_at s2 \<and> c_at s2 \<le> CHR ''9''
    then number_digits (Fin 0) 0 s2 else (Fin 0, 0, s2)) = (n, k, s3)"
    by (metis prod_cases3)
  obtain n' k' s4 where s4: "(if c_at s3 = CHR ''.'' \<and> is_digit (c_at (drop 1 s3))
    then number_digits n 0 (drop 1 s3) else (n, 0, s3)) = (n', k', s4)"
    by (metis prod_cases3)
  have "text_step s s1" by (auto simp: s1_def intro: text_step_drop1')
  moreover have "text_step s1 s2" by (auto simp: s2_def intro: text_step_drop1')
  moreover have "text_step s2 s3"
    using s3 text_step_digits [of s2] by (auto split: if_splits dest!: number_digits_split(1))
  moreover have "text_step s3 s4"
    using s4 text_step_trans [OF text_step_drop1 text_step_digits, of s3]
    by (auto split: if_splits dest!: number_digits_split(1))
  ultimately have "text_step s s4" by (blast intro: text_step_trans)
  moreover have "ok_result s4 (plift (number_exponent s4) (\<lambda>(subscale, num). POk (f subscale) num m))"
    for f :: "int \<Rightarrow> cjson"
    using number_exponent_ok [of s4]
    by (cases "number_exponent s4") (auto simp: text_step_def)
  ultimately show ?thesis
    unfolding parse_number_def Let_def s1_def [symmetric] s2_def [symmetric] s3 s4 prod.case
    by (rule ok_result_step)
qed

section \<open>Arrays, objects and values\<close>

definition ok_parser :: "value_parser \<Rightarrow> nat \<Rightarrow> bool" where
  "ok_parser pv L \<longleftrightarrow> (\<forall>c s m. length s < L \<longrightarrow> ok_result s (pv c s m))"

lemma ok_parserD: "ok_parser pv L \<Longrightarrow> length s < L \<Longrightarrow> ok_result s (pv c s m)"
  by (simp add: ok_parser_def)

lemma ok_array_loop:
  assumes "ok_parser pv L"
  shows "length s < k \<Longrightarrow> length s \<le> L \<Longrightarrow> ok_result s (array_loop pv k cs s m)"
proof (induction k arbitrary: cs s m)
  case (Suc k)
  show ?case
  proof (cases "c_at s = CHR '',''")
    case True
    then obtain t where s: "s = CHR '','' # t" by (cases s) auto
    have "ok_result t (pbind (pv c (skip t) m) (\<lambda>c s m. array_loop pv k (cs @ [c]) (skip s) m))" for c m
    proof (rule ok_result_skip, rule ok_result_pbind)
      show "ok_result (skip t) (pv c (skip t) m)"
        using Suc.prems length_skip [of t] s by (intro ok_parserD [OF assms]) simp
    next
      fix x r m' assume "suffix r (skip t)"
      then have "length (skip r) \<le> length t"
        using length_skip [of r] length_skip [of t] suffix_length_le [of r "skip t"] by linarith
      then have "ok_result (skip r) (array_loop pv k (cs @ [x]) (skip r) m')"
        using Suc.prems s by (intro Suc.IH) simp_all
      then show "ok_result r (array_loop pv k (cs @ [x]) (skip r) m')" by (rule ok_result_skip)
    qed
    then show ?thesis using s by (auto intro!: ok_result_new_item ok_result_Cons)
  qed simp
qed simp

lemma ok_result_close:
  "ok_result s (if c_at s = CHR '']'' then POk x (drop 1 s) m else PFail (Some s))"
  "ok_result s (if c_at s = CHR ''}'' then POk x (drop 1 s) m else PFail (Some s))"
  using text_step_drop1 [of s] by (simp_all add: text_step_def)

lemma ok_parse_elements:
  assumes "ok_parser pv L" and "length s < L"
  shows "ok_result s (parse_elements pv s m)"
  unfolding parse_elements_def
proof (rule ok_result_new_item, rule ok_result_skip, rule ok_result_pbind)
  fix c m
  show "ok_result (skip s) (pv c (skip s) m)"
    using assms(2) length_skip [of s] by (intro ok_parserD [OF assms(1)]) simp
next
  fix x r m' assume "suffix r (skip s)"
  then have "length (skip r) < L"
    using assms(2) length_skip [of r] length_skip [of s] suffix_length_le [of r "skip s"] by linarith
  then have "ok_result (skip r) (array_loop pv (Suc (length r)) [x] (skip r) m')"
    using length_skip [of r] by (intro ok_array_loop [OF assms(1)]) simp_all
  then show "ok_result r (array_loop pv (Suc (length r)) [x] (skip r) m')"
    by (rule ok_result_skip)
qed

lemma ok_parse_array:
  assumes "ok_parser pv L" and "length s \<le> L"
  shows "ok_result s (parse_array pv item s m)"
proof (cases "c_at s = CHR ''[''")
  case True
  then obtain t where s: "s = CHR ''['' # t" by (cases s) auto
  let ?t = "skip t"
  have "length ?t < L" using assms(2) length_skip [of t] s by simp
  then have "ok_result ?t (pbind (parse_elements pv ?t m) (\<lambda>cs s m.
    if c_at s = CHR '']'' then POk (set_child cs (set_jtype 5 item)) (drop 1 s) m else PFail (Some s)))"
    by (intro ok_result_pbind ok_parse_elements [OF assms(1)] ok_result_close)
  moreover have "text_step ?t (drop 1 ?t)" if "c_at ?t = CHR '']''"
    using text_step_drop1 that by simp
  ultimately have "ok_result t (parse_array pv item s m)"
    by - (rule ok_result_skip, simp add: parse_array_def s text_step_def Let_def)
  then show ?thesis unfolding s by (rule ok_result_Cons) simp
qed (simp add: parse_array_def)

lemma ok_parse_member:
  assumes "ok_parser pv L" and "length s < L"
  shows "ok_result s (parse_member pv c s m)"
  unfolding parse_member_def
proof (rule ok_result_skip, rule ok_result_pbind)
  show "ok_result (skip s) (parse_string c (skip s) m)" by (rule ok_parse_string)
next
  fix x r m' assume r: "suffix r (skip s)"
  let ?c = "set_valuestring None (set_jstring (valuestring x) x)"
  show "ok_result r (let s = skip r; c = ?c in
      if c_at s \<noteq> CHR '':'' then PFail (Some s)
      else pbind (pv c (skip (drop 1 s)) m') (\<lambda>c s m. POk c (skip s) m))"
  proof (rule ok_result_skip, cases "c_at (skip r) = CHR '':''")
    case True
    then obtain t where t: "skip r = CHR '':'' # t" by (cases "skip r") auto
    have "length (skip t) < L"
      using assms(2) length_skip [of r] length_skip [of s] length_skip [of t]
        suffix_length_le [OF r] t by simp
    then have "ok_result (skip t) (pv ?c (skip t) m')" by (rule ok_parserD [OF assms(1)])
    then have "ok_result t (pbind (pv ?c (skip t) m') (\<lambda>c s m. POk c (skip s) m))"
      by - (rule ok_result_skip, intro ok_result_pbind; use skip_text in auto)
    from ok_result_Cons [OF this, of "CHR '':''"]
    show "ok_result (skip r) (let s = skip r; c = ?c in
      if c_at s \<noteq> CHR '':'' then PFail (Some s)
      else pbind (pv c (skip (drop 1 s)) m') (\<lambda>c s m. POk c (skip s) m))"
      by (simp add: t)
  qed simp
qed

lemma ok_object_loop:
  assumes "ok_parser pv L"
  shows "length s < k \<Longrightarrow> length s \<le> L \<Longrightarrow> ok_result s (object_loop pv k cs s m)"
proof (induction k arbitrary: cs s m)
  case (Suc k)
  show ?case
  proof (cases "c_at s = CHR '',''")
    case True
    then obtain t where s: "s = CHR '','' # t" by (cases s) auto
    have "ok_result t (pbind (parse_member pv c t m) (\<lambda>c s m. object_loop pv k (cs @ [c]) s m))" for c m
    proof (rule ok_result_pbind)
      show "ok_result t (parse_member pv c t m)"
        using Suc.prems s by (intro ok_parse_member [OF assms]) simp
    next
      fix x r m' assume "suffix r t"
      then show "ok_result r (object_loop pv k (cs @ [x]) r m')"
        using Suc.prems s suffix_length_le [of r t] by (intro Suc.IH) simp_all
    qed
    then show ?thesis using s by (auto intro!: ok_result_new_item ok_result_Cons)
  qed simp
qed simp

lemma ok_parse_members:
  assumes "ok_parser pv L" and "length s < L"
  shows "ok_result s (parse_members pv s m)"
  unfolding parse_members_def
proof (rule ok_result_new_item, rule ok_result_pbind)
  fix c m
  show "ok_result s (parse_member pv c s m)" by (rule ok_parse_member [OF assms])
next
  fix x r m' assume "suffix r s"
  then show "ok_result r (object_loop pv (Suc (length r)) [x] r m')"
    using assms(2) suffix_length_le [of r s] by (intro ok_object_loop [OF assms(1)]) simp_all
qed

lemma ok_parse_object:
  assumes "ok_parser pv L" and "length s \<le> L"
  shows "ok_result s (parse_object pv item s m)"
proof (cases "c_at s = CHR ''{''")
  case True
  then obtain t where s: "s = CHR ''{'' # t" by (cases s) auto
  let ?t = "skip t"
  have "length ?t < L" using assms(2) length_skip [of t] s by simp
  then have "ok_result ?t (pbind (parse_members pv ?t m) (\<lambda>cs s m.
    if c_at s = CHR ''}'' then POk (set_child cs (set_jtype 6 item)) (drop 1 s) m else PFail (Some s)))"
    by (intro ok_result_pbind ok_parse_members [OF assms(1)] ok_result_close)
  moreover have "text_step ?t (drop 1 ?t)" if "c_at ?t = CHR ''}''"
    using text_step_drop1 that by simp
  ultimately have "ok_result t (parse_object pv item s m)"
    by - (rule ok_result_skip, simp add: parse_object_def s text_step_def Let_def)
  then show ?thesis unfolding s by (rule ok_result_Cons) simp
qed (simp add: parse_object_def)

lemma ok_literal:
  assumes "take k s = w" and "CHR 0x5C \<notin> set w"
  shows "ok_result s (POk x (drop k s) m)"
proof -
  have "w @ drop k s = s" using assms(1) by auto
  with text_step_append [OF assms(2), of "drop k s"] show ?thesis by (simp add: text_step_def)
qed

lemma ok_result_if:
  "(P \<Longrightarrow> ok_result s a) \<Longrightarrow> (\<not> P \<Longrightarrow> ok_result s b) \<Longrightarrow> ok_result s (if P then a else b)"
  by simp

lemma ok_parse_value: "ok_parser (parse_value n) n"
proof (induction n)
  case (Suc n)
  have "ok_result s (parse_value (Suc n) item s m)" if "length s < Suc n" for item s m
  proof -
    have "length s \<le> n" using that by simp
    note sub = ok_parse_array [OF Suc.IH this] ok_parse_object [OF Suc.IH this]
    show ?thesis
      unfolding parse_value.simps
      by (intro ok_result_if sub ok_parse_string ok_parse_number)
        (erule ok_literal, simp | simp)+
  qed
  then show ?case by (simp add: ok_parser_def)
qed (simp add: ok_parser_def)

lemma text_ok_Nil [simp]: "text_ok []"
  by (simp add: text_ok_def)

lemma ok_ParseWithOpts: "ok_result v (ParseWithOpts v z m)"
  unfolding ParseWithOpts_def
proof (rule ok_result_new_item, rule ok_result_skip, rule ok_result_pbind)
  fix c m
  show "ok_result (skip v) (parse_value (Suc (length v)) c (skip v) m)"
    using length_skip [of v] by (intro ok_parserD [OF ok_parse_value]) simp
qed (use skip_text in \<open>auto simp: Let_def simp del: parse_value.simps\<close>)

section \<open>Termination and memory safety\<close>

text \<open>
  C6: \<open>tretap_CJson_ParseWithOpts\<close> returns on every text, whatever calls of the allocator fail:
  the nesting and the loops end within the fuel the model provides. The end of the value it
  reports and the position it leaves for \<open>tretap_CJson_GetErrorPtr\<close> are positions of the
  text.
\<close>

theorem ParseWithOpts_terminates:
  "case ParseWithOpts v z m of
     POk c t m' \<Rightarrow> suffix t v
   | PFail e \<Rightarrow> (case e of None \<Rightarrow> True | Some t \<Rightarrow> suffix t v)
   | PFault u \<Rightarrow> True
   | PFuel \<Rightarrow> False"
  using ok_ParseWithOpts [of v z m] by (cases "ParseWithOpts v z m") (auto split: option.split)

text \<open>
  C7: On a text in which every backslash is followed by a character, every \<^verbatim>\<open>\u\<close> by four
  hexadecimal digits and every exponent has at most nine digits, the parser has no undefined
  operation: no read behind the terminator, no write behind the buffer of a string (the count of
  the first pass covers what the second one writes), no signed overflow in an exponent. This holds
  for every text of that form, valid JSON or not, and every schedule of the allocator.
\<close>

theorem ParseWithOpts_memory_safe:
  assumes "escapes_ok v" and "exponents_ok v"
  shows "ParseWithOpts v z m \<noteq> PFault u"
  using ok_ParseWithOpts [of v z m] assms by (auto simp: text_ok_def)

theorem ParseWithOpts_memory_safe_witness:
  "ParseWithOpts ''{:[1.5e3,-2E+08]'' True [] \<noteq> PFault Write_past_end"
  by (rule ParseWithOpts_memory_safe) (simp_all add: is_digit_ord)

lemma string_len_plain_append:
  "\<forall>c\<in>set w. c \<noteq> CHR 0x22 \<and> c \<noteq> CHR 0x5C \<Longrightarrow>
   string_len (w @ s) = rbind (string_len s) (\<lambda>n. Inr (length w + n))"
proof (induction w)
  case Nil
  then show ?case by (cases "string_len s") auto
next
  case (Cons c w)
  then show ?case by (cases "string_len s") auto
qed

lemma unescape_plain_append:
  "\<forall>c\<in>set w. c \<noteq> CHR 0x22 \<and> c \<noteq> CHR 0x5C \<Longrightarrow>
   unescape cap out (w @ s) =
     (if length out + length w \<le> cap \<or> w = [] then unescape cap (out @ w) s else Inl Write_past_end)"
proof (induction w arbitrary: out)
  case (Cons c w)
  show ?case
  proof (cases "length out + 1 \<le> cap")
    case True
    then have "unescape cap out ((c # w) @ s) = unescape cap (out @ [c]) (w @ s)"
      using Cons.prems by (simp add: emit_fits)
    also have "\<dots> = (if length (out @ [c]) + length w \<le> cap \<or> w = []
        then unescape cap ((out @ [c]) @ w) s else Inl Write_past_end)"
      using Cons.prems by (intro Cons.IH) auto
    finally show ?thesis using True by (cases w) auto
  next
    case False
    then show ?thesis using Cons.prems by (simp add: emit_overflows)
  qed
qed simp

text \<open>
  A string literal whose text ends in a lone backslash, in the first position where the two
  characters of an escape are expected, sends both passes of \<open>parse_string\<close> behind the
  terminator of the text: \<^verbatim>\<open>if (*ptr++ == '\\') ptr++;\<close> steps over the NUL.
\<close>

lemma parse_string_lone_backslash:
  assumes "\<forall>c\<in>set w. c \<noteq> CHR 0x22 \<and> c \<noteq> CHR 0x5C"
  shows "parse_string item (CHR 0x22 # w @ [CHR 0x5C]) m = PFault Read_past_end"
  using string_len_plain_append [OF assms, of "[CHR 0x5C]"]
  by (simp add: parse_string_def)

lemma parse_string_lone_backslash_instance:
  "parse_string blank_item (CHR 0x22 # ''ab'' @ [CHR 0x5C]) [] = PFault Read_past_end"
  by (rule parse_string_lone_backslash) simp

text \<open>
  C35: The skip of four characters after an incomplete \<^verbatim>\<open>\u\<close> jumps over the closing quote, and
  the second pass copies the text behind the literal into a buffer sized for the literal: in
  \<^verbatim>\<open>"\u"\<close> followed by six or more plain characters the write runs off the heap block.
\<close>

theorem parse_string_heap_overflow:
  assumes "\<forall>c\<in>set w. c \<noteq> CHR 0x22 \<and> c \<noteq> CHR 0x5C" and "6 \<le> length w"
  shows "parse_string item (CHR 0x22 # CHR 0x5C # CHR ''u'' # CHR 0x22 # w @ s) [] = PFault Write_past_end"
proof -
  have hex: "parse_hex4 (CHR 0x22 # w @ s) = 0"
    by (simp add: parse_hex4_def numeral_eq_Suc hex4_digit_def less_eq_char_def)
  have len: "Suc 0 \<le> length w + length s - 2" using assms(2) by arith
  have one: "unescape_one cap [] (CHR ''u'' # CHR 0x22 # w @ s) = Inr ([], drop 3 w @ s)" for cap
    using assms(2) hex len
    by (simp add: unescape_one_def unescape_switch_def utf16_escape_def advance_def numeral_3_eq_3)
  have plain: "\<forall>c\<in>set (drop 3 w). c \<noteq> CHR 0x22 \<and> c \<noteq> CHR 0x5C"
    using assms(1) by (blast dest: in_set_dropD)
  have over: "unescape (Suc (Suc 0)) [] (drop 3 w @ s) = Inl Write_past_end"
  proof -
    have "\<not> length ([] @ drop 3 w) \<le> Suc (Suc 0)" "drop 3 w \<noteq> []" using assms(2) by auto
    then show ?thesis unfolding unescape_plain_append [OF plain] by simp
  qed
  have "string_len (CHR 0x5C # CHR ''u'' # CHR 0x22 # w @ s) = Inr (Suc 0)" by simp
  moreover have "unescape (Suc (Suc 0)) [] (CHR 0x5C # CHR ''u'' # CHR 0x22 # w @ s) = Inl Write_past_end"
    by (subst unescape.simps) (simp add: one over del: unescape.simps)
  ultimately show ?thesis
    by (simp add: parse_string_def ddns_mem_alloc_def del: unescape.simps string_len.simps)
qed

theorem parse_string_heap_overflow_witness:
  "parse_string blank_item (CHR 0x22 # CHR 0x5C # CHR ''u'' # CHR 0x22 # ''abcdef'' @ []) []
     = PFault Write_past_end"
  by (rule parse_string_heap_overflow) simp_all

end
