(* ===== verification/Dnspod_Correct.thy ===== *)
theory Dnspod_Correct
  imports Dnspod Cjson_Values Cjson_Parse_Correct
begin

text \<open>
  The requests of \<open>Dnspod\<close>: their payloads are the JSON objects they are meant to be, read back
  by the program's own parser; what each method sends, on every branch.
\<close>

section \<open>Objects of plain fields\<close>

datatype jfield = FStr string string | FNum string nat | FTrue string

fun render_field :: "jfield \<Rightarrow> string" where
  "render_field (FStr k v) = jq k @ '': '' @ jq v"
| "render_field (FNum k n) = jq k @ '': '' @ dec_str n"
| "render_field (FTrue k) = jq k @ '': true''"

definition render_object :: "jfield list \<Rightarrow> string" where
  "render_object fs = (case fs of [] \<Rightarrow> ''{}''
     | f # gs \<Rightarrow> ''{'' @ render_field f @ concat (map (\<lambda>g. '', '' @ render_field g) gs) @ ''}'')"

text \<open>The node the parser builds for a field.\<close>

fun field_item :: "jfield \<Rightarrow> cjson" where
  "field_item (FStr k v) = CJson J_String (Some v) 0 (Fin 0) (Some k) []"
| "field_item (FNum k n) =
    CJson J_Number None (if int n \<le> INT_MAX then int n else INT_MIN) (Fin (of_nat n)) (Some k) []"
| "field_item (FTrue k) = CJson J_True None 1 (Fin 0) (Some k) []"

definition plain_text :: "string \<Rightarrow> bool" where
  "plain_text s \<longleftrightarrow> (\<forall>c\<in>set s. c \<noteq> CHR 0x22 \<and> c \<noteq> CHR 0x5C \<and> c \<noteq> NUL)"

fun plain_field :: "jfield \<Rightarrow> bool" where
  "plain_field (FStr k v) \<longleftrightarrow> plain_text k \<and> plain_text v"
| "plain_field (FNum k n) \<longleftrightarrow> plain_text k \<and> n \<le> 2 ^ 53"
| "plain_field (FTrue k) \<longleftrightarrow> plain_text k"

definition object_of :: "jfield list \<Rightarrow> cjson" where
  "object_of fs = CJson J_Object None 0 (Fin 0) None (map field_item fs)"

lemma parse_string_plain:
  assumes "plain_text v"
  shows "parse_string item (jq v @ rest) [] = POk (set_jtype J_String (set_valuestring (Some v) item)) rest []"
proof -
  have p: "\<forall>c\<in>set v. c \<noteq> CHR 0x22 \<and> c \<noteq> CHR 0x5C" using assms by (simp add: plain_text_def)
  have "string_len (v @ CHR 0x22 # rest) = Inr (length v)"
    using string_len_plain_append [OF p, of "CHR 0x22 # rest"] by simp
  moreover have "unescape (length v + 1) [] (v @ CHR 0x22 # rest) = Inr (v, CHR 0x22 # rest)"
    unfolding unescape_plain_append [OF p] by simp
  ultimately show ?thesis
    by (simp add: parse_string_def jq_def ddns_mem_alloc_def emit_def)
qed

definition closes :: "string \<Rightarrow> bool" where
  "closes s \<longleftrightarrow> (\<exists>t. s = CHR '','' # t \<or> s = CHR ''}'' # t)"

lemma closes_skip: "closes s \<Longrightarrow> skip s = s"
  by (auto simp: closes_def skip_def)

lemma closes_number_end: "closes s \<Longrightarrow> number_end s"
  by (auto simp: closes_def number_end_def is_digit_ord)

lemma skip_jq: "skip (jq v @ s) = jq v @ s" "skip (CHR '' '' # s) = skip s"
  by (simp_all add: skip_def jq_def)

lemma parse_value_field:
  assumes "closes rest"
  shows "plain_text v \<Longrightarrow> parse_value (Suc n) item (jq v @ rest) [] =
      POk (set_jtype J_String (set_valuestring (Some v) item)) rest []"
    and "k \<le> 2 ^ 53 \<Longrightarrow> parse_value (Suc n) item (dec_str k @ rest) [] =
      POk (set_jtype J_Number (set_valueint (if int k \<le> INT_MAX then int k else INT_MIN)
        (set_valuedouble (Fin (of_nat k)) item))) rest []"
    and "parse_value (Suc n) item (''true'' @ rest) [] = POk (set_valueint 1 (set_jtype J_True item)) rest []"
proof -
  show "parse_value (Suc n) item (jq v @ rest) [] =
      POk (set_jtype J_String (set_valuestring (Some v) item)) rest []" if "plain_text v"
    using parse_string_plain [OF that, of item rest] by (simp add: jq_def)
  show "parse_value (Suc n) item (''true'' @ rest) [] = POk (set_valueint 1 (set_jtype J_True item)) rest []"
    by simp
  assume k: "k \<le> 2 ^ 53"
  obtain d ds where d: "dec_str k = d # ds" by (cases "dec_str k") auto
  then have dig: "is_digit d" using dec_str_digits [of d k] by simp
  then have "d \<notin> {CHR ''n'', CHR ''f'', CHR ''t'', CHR 0x22}" by (auto simp: is_digit_ord)
  then show "parse_value (Suc n) item (dec_str k @ rest) [] =
      POk (set_jtype J_Number (set_valueint (if int k \<le> INT_MAX then int k else INT_MIN)
        (set_valuedouble (Fin (of_nat k)) item))) rest []"
    using parse_number_value [OF k closes_number_end [OF assms], of item "[]"] dig d by simp
qed

lemma skip_value:
  "skip (jq v @ s) = jq v @ s"
  "skip (dec_str k @ s) = dec_str k @ s"
  "skip (''true'' @ s) = ''true'' @ s"
proof -
  obtain d ds where d: "dec_str k = d # ds" by (cases "dec_str k") auto
  then have "is_digit d" using dec_str_digits [of d k] by simp
  then show "skip (dec_str k @ s) = dec_str k @ s" by (simp add: d skip_def is_digit_ord)
qed (simp_all add: skip_def jq_def)

lemma parse_member_key:
  assumes "plain_text k" and "skip (body @ rest) = body @ rest" and "closes rest"
    and "pv (CJson J_String None 0 (Fin 0) (Some k) []) (body @ rest) [] = POk c rest []"
  shows "parse_member pv blank_item (jq k @ '': '' @ body @ rest) [] = POk c rest []"
proof -
  have colon: "skip (CHR '':'' # t) = CHR '':'' # t" for t by (simp add: skip_def)
  have "parse_string blank_item (skip (jq k @ '': '' @ body @ rest)) [] =
      POk (CJson J_String (Some k) 0 (Fin 0) None []) ('': '' @ body @ rest) []"
    unfolding skip_jq(1) by (simp add: parse_string_plain [OF assms(1)] cjson_setters)
  then show ?thesis
    using assms(2,4) unfolding parse_member_def
    by (simp add: colon skip_jq(2) cjson_setters closes_skip [OF assms(3)])
qed

lemma parse_member_field:
  assumes "plain_field f" and "closes rest"
  shows "parse_member (parse_value (Suc n)) blank_item (render_field f @ rest) [] = POk (field_item f) rest []"
    and "parse_member (parse_value (Suc n)) blank_item (CHR '' '' # render_field f @ rest) [] =
      POk (field_item f) rest []"
proof -
  show 1: "parse_member (parse_value (Suc n)) blank_item (render_field f @ rest) [] = POk (field_item f) rest []"
  proof (cases f)
    case (FStr k v)
    then show ?thesis
      using parse_member_key [of k "jq v" rest "parse_value (Suc n)" "field_item f"]
        parse_value_field(1) [OF assms(2), of v n] skip_value(1) assms
      by (simp add: cjson_setters del: parse_value.simps)
  next
    case (FNum k v)
    then show ?thesis
      using parse_member_key [of k "dec_str v" rest "parse_value (Suc n)" "field_item f"]
        parse_value_field(2) [OF assms(2), of v n] skip_value(2) assms
      by (simp add: cjson_setters del: parse_value.simps)
  next
    case (FTrue k)
    then show ?thesis
      using parse_member_key [of k "''true''" rest "parse_value (Suc n)" "field_item f"]
        parse_value_field(3) [OF assms(2), of n] skip_value(3) assms
      by (simp add: cjson_setters del: parse_value.simps)
  qed
  then show "parse_member (parse_value (Suc n)) blank_item (CHR '' '' # render_field f @ rest) [] =
      POk (field_item f) rest []"
    by (simp add: parse_member_def skip_jq(2))
qed

lemma object_loop_fields:
  assumes "\<forall>f\<in>set fs. plain_field f" and "length fs < k"
  shows "object_loop (parse_value (Suc n)) k cs
      (concat (map (\<lambda>g. '', '' @ render_field g) fs) @ CHR ''}'' # rest) [] =
    POk (cs @ map field_item fs) (CHR ''}'' # rest) []"
  using assms
proof (induction fs arbitrary: k cs)
  case Nil
  then show ?case by (cases k) auto
next
  case (Cons f fs)
  then obtain k' where k: "k = Suc k'" by (cases k) auto
  let ?rest = "concat (map (\<lambda>g. '', '' @ render_field g) fs) @ CHR ''}'' # rest"
  have "closes ?rest" by (cases fs) (auto simp: closes_def)
  then have m: "parse_member (parse_value (Suc n)) blank_item (CHR '' '' # render_field f @ ?rest) [] =
      POk (field_item f) ?rest []"
    using Cons.prems by (intro parse_member_field(2)) simp_all
  have "object_loop (parse_value (Suc n)) k' (cs @ [field_item f]) ?rest [] =
      POk ((cs @ [field_item f]) @ map field_item fs) (CHR ''}'' # rest) []"
    using Cons.prems k by (intro Cons.IH) auto
  with m show ?case by (simp add: k with_new_item_Nil del: parse_value.simps)
qed

lemma length_concat_ge: "length fs \<le> length (concat (map (\<lambda>g. '', '' @ render_field g) fs))"
  by (induction fs) auto

lemma parse_object_fields:
  assumes "\<forall>f\<in>set fs. plain_field f"
  shows "parse_object (parse_value (Suc n)) item (render_object fs @ rest) [] =
    POk (set_child (map field_item fs @ (if fs = [] then child item else [])) (set_jtype J_Object item)) rest []"
proof (cases fs)
  case Nil
  then show ?thesis by (simp add: render_object_def skip_def parse_object_def cjson_setters)
next
  case (Cons f gs)
  let ?rest = "concat (map (\<lambda>g. '', '' @ render_field g) gs) @ CHR ''}'' # rest"
  let ?body = "render_field f @ ?rest"
  have cl: "closes ?rest" by (cases gs) (auto simp: closes_def)
  have "\<exists>t. ?body = CHR 0x22 # t" by (cases f) (simp_all add: jq_def)
  then have skip: "skip ?body = ?body" "c_at ?body = CHR 0x22" by (auto simp: skip_def)
  have "parse_member (parse_value (Suc n)) blank_item ?body [] = POk (field_item f) ?rest []"
    using assms Cons cl by (intro parse_member_field(1)) simp_all
  moreover have "object_loop (parse_value (Suc n)) (Suc (length ?rest)) [field_item f] ?rest [] =
      POk ([field_item f] @ map field_item gs) (CHR ''}'' # rest) []"
    using assms Cons length_concat_ge [of gs] by (intro object_loop_fields) simp_all
  ultimately have "parse_members (parse_value (Suc n)) ?body [] = POk (map field_item fs) (CHR ''}'' # rest) []"
    using Cons by (simp add: parse_members_def with_new_item_Nil del: parse_value.simps object_loop.simps)
  then show ?thesis
    using skip Cons by (simp add: parse_object_def render_object_def del: parse_value.simps)
qed

lemma parse_value_object:
  "parse_value (Suc n) item (CHR ''{'' # t) m = parse_object (parse_value n) item (CHR ''{'' # t) m"
  by (simp add: is_digit_ord)

lemma render_object_brace: "\<exists>t. render_object fs = CHR ''{'' # t"
  by (cases fs) (simp_all add: render_object_def)

lemma parse_value_render_object:
  assumes "\<forall>f\<in>set fs. plain_field f"
  shows "parse_value (Suc (Suc n)) blank_item (render_object fs @ rest) [] = POk (object_of fs) rest []"
proof -
  obtain t where t: "render_object fs = CHR ''{'' # t" using render_object_brace by blast
  have "parse_value (Suc (Suc n)) blank_item (render_object fs @ rest) [] =
      parse_object (parse_value (Suc n)) blank_item (render_object fs @ rest) []"
    unfolding t append_Cons by (rule parse_value_object)
  then show ?thesis
    by (simp add: parse_object_fields [OF assms] object_of_def cjson_setters del: parse_value.simps)
qed

lemma Parse_render_object:
  assumes "\<forall>f\<in>set fs. plain_field f"
  shows "Parse (render_object fs) [] = POk (object_of fs) [] []"
proof -
  obtain t where t: "render_object fs = CHR ''{'' # t" using render_object_brace by blast
  then have "skip (render_object fs) = render_object fs" by (simp add: skip_def)
  moreover have "parse_value (Suc (length (render_object fs))) blank_item (render_object fs) [] =
      POk (object_of fs) [] []"
    using parse_value_render_object [OF assms, of "length t" "[]"] t by simp
  ultimately show ?thesis
    by (simp add: Parse_def ParseWithOpts_def with_new_item_Nil del: parse_value.simps)
qed

section \<open>The payloads\<close>

definition modify_fields :: "config_t \<Rightarrow> record_list_t \<Rightarrow> string \<Rightarrow> jfield list" where
  "modify_fields cfg r ip =
    [FStr ''Domain'' (domain_name cfg), FStr ''RecordType'' (rec_type r), FStr ''RecordLine'' default_line,
     FStr ''Value'' ip, FNum ''RecordId'' (unat (rec_id r))]
    @ (if domain_subname cfg = [] then [] else [FStr ''SubDomain'' (domain_subname cfg)])"

definition filter_fields :: "config_t \<Rightarrow> jfield list" where
  "filter_fields cfg = FStr ''Domain'' (domain_name cfg) #
    (if domain_subname cfg = [] then []
     else [FStr ''SubDomain'' (domain_subname cfg), FTrue ''IsExactSubDomain''])"

definition delete_fields :: "string \<Rightarrow> nat \<Rightarrow> jfield list" where
  "delete_fields name i = [FStr ''Domain'' name, FNum ''RecordId'' i]"

definition plain_config :: "config_t \<Rightarrow> bool" where
  "plain_config cfg \<longleftrightarrow> plain_text (domain_name cfg) \<and> plain_text (domain_subname cfg)"

lemma payloads_render:
  "record_modify_payload cfg r ip = render_object (modify_fields cfg r ip)"
  "record_list_filter_payload cfg = render_object (filter_fields cfg)"
  "record_delete_payload name i = render_object (delete_fields name (unat i))"
  by (simp_all add: record_modify_payload_def record_list_filter_payload_def record_delete_payload_def
      render_object_def modify_fields_def filter_fields_def delete_fields_def Let_def)

text \<open>
  C23: The payload of \<open>dnspod_record_modify\<close> is the JSON object the interface asks for: the
  program's own parser reads back the domain, the type and the id of the first record, the default
  line, the new address and, if one is configured, the sub-domain, each under its name, and nothing
  else. The hypotheses are that the texts hold no quote, backslash or NUL, which the code does not
  escape, and that the id is one a double carries exactly.
\<close>

theorem modify_payload_parses:
  assumes "plain_config cfg" and "plain_text ip" and "plain_text (rec_type r)" and "unat (rec_id r) \<le> 2 ^ 53"
  shows "Parse (record_modify_payload cfg r ip) [] = POk (object_of (modify_fields cfg r ip)) [] []"
  unfolding payloads_render(1)
  by (rule Parse_render_object)
    (use assms in \<open>auto simp: modify_fields_def plain_config_def default_line_def plain_text_def\<close>)

definition sample_config :: config_t where
  "sample_config = \<lparr>domain_name = ''example.com'', domain_subname = ''www'', domain_full = ''www.example.com'',
     check_ip_url_ipv4 = ''https://ip.sb'', check_ip_url_ipv6 = ''https://ip.sb''\<rparr>"

lemma sample_config_plain: "plain_config sample_config"
  by (simp add: plain_config_def sample_config_def plain_text_def)

theorem modify_payload_parses_witness:
  "Parse (record_modify_payload sample_config \<lparr>rec_id = 77, rec_value = [], rec_type = ''A''\<rparr> ''223.5.5.5'') [] =
   POk (object_of (modify_fields sample_config \<lparr>rec_id = 77, rec_value = [], rec_type = ''A''\<rparr> ''223.5.5.5'')) [] []"
  by (rule modify_payload_parses) (simp_all add: sample_config_plain plain_text_def)

text \<open>
  The payload of \<open>dnspod_record_list_filter\<close> reads back as the configured domain alone, or
  with the sub-domain and the request for an exact match.
\<close>

lemma filter_payload_parses:
  assumes "plain_config cfg"
  shows "Parse (record_list_filter_payload cfg) [] = POk (object_of (filter_fields cfg)) [] []"
  unfolding payloads_render(2)
  by (rule Parse_render_object) (use assms in \<open>auto simp: filter_fields_def plain_config_def plain_text_def\<close>)

lemma filter_payload_parses_instance:
  "Parse (record_list_filter_payload sample_config) [] = POk (object_of (filter_fields sample_config)) [] []"
  by (rule filter_payload_parses [OF sample_config_plain])

lemma delete_payload_fields:
  assumes "plain_text name"
  shows "Parse (record_delete_payload name i) [] = POk (object_of (delete_fields name (unat i))) [] []"
  unfolding payloads_render(3)
  by (rule Parse_render_object)
    (use assms unat_u32_lt [of i] in \<open>auto simp: delete_fields_def plain_text_def\<close>)

text \<open>
  The deletion of a record names, for the id \<open>i\<close> of a record, the id \<open>i mod 2 ^ 32\<close>: the
  parameter of \<open>dnspod_record_delete\<close> has 32 bits, the id has 64. A record whose id does not fit
  in 32 bits is not deleted; the request is for another one.
\<close>

lemma delete_payload_truncates:
  assumes "plain_text name"
  shows "Parse (record_delete_payload name (ucast (i :: u64))) [] =
    POk (object_of (delete_fields name (unat i mod 2 ^ 32))) [] []"
proof -
  have "unat (ucast i :: u32) = unat i mod 2 ^ 32"
    by (simp add: unsigned_ucast_eq take_bit_eq_mod)
  then show ?thesis using delete_payload_fields [OF assms, of "ucast i"] by simp
qed

lemma delete_payload_truncates_instance:
  "Parse (record_delete_payload ''d'' (ucast (0x100000007 :: u64))) [] =
    POk (object_of (delete_fields ''d'' (unat (0x100000007 :: u64) mod 2 ^ 32))) [] []"
  by (rule delete_payload_truncates) (simp add: plain_text_def)

section \<open>What is sent\<close>

definition api_call :: "string \<Rightarrow> string \<Rightarrow> request \<Rightarrow> bool" where
  "api_call action body r \<longleftrightarrow>
    req_method r = ''POST'' \<and> req_url r = ''https://dnspod.tencentcloudapi.com'' \<and>
    header_value ''X-TC-Action'' (req_headers r) = Some action \<and> req_body r = Some (c_str body)"

text \<open>A request is signed with the credentials of an object if the service accepts it for them.\<close>

definition signed_by :: "env \<Rightarrow> dnspod \<Rightarrow> request \<Rightarrow> bool" where
  "signed_by env dn r \<longleftrightarrow> tc3_accepts env (security_id dn) (security_key dn) r"

lemma action_header:
  assumes "NUL \<notin> set action"
  shows "header_value ''X-TC-Action'' (generate_http_header dn [] action) = Some action"
proof -
  have c: "c_str (x # s) = (if x = NUL then [] else x # c_str s)" "c_str [] = []" for x s
    by (simp_all add: c_str_def)
  show ?thesis
    by (simp add: header_value_def generate_http_header_def curl_slist_append_def starts_with_def
        c c_str_id [OF assms] TENCENT_REQUEST_URL_def Let_def)
qed

lemma authorization_keeps_records:
  "record_ipv4 (generate_http_authorization env m p sent dn) = record_ipv4 dn"
  "record_ipv6 (generate_http_authorization env m p sent dn) = record_ipv6 dn"
  by (simp_all add: generate_http_authorization_def Let_def)

lemma c_str_const: "c_str ''POST'' = ''POST''"
  "c_str (''https://'' @ TENCENT_REQUEST_URL) = ''https://dnspod.tencentcloudapi.com''"
  "c_str (CHR ''h'' # CHR ''t'' # CHR ''t'' # CHR ''p'' # CHR ''s'' # CHR '':'' # CHR ''/'' # CHR ''/''
     # TENCENT_REQUEST_URL) = ''https://dnspod.tencentcloudapi.com''"
  by (simp_all add: c_str_def TENCENT_REQUEST_URL_def)

text \<open>One call: the object keeps its records, and at most one request is sent.\<close>

lemma tencent_post_cases:
  assumes "tencent_post env action payload (dn, sent) = (resp, (dn', sent'))" and "NUL \<notin> set action"
  obtains req where "api_call action payload req"
    "plain_credentials dn \<and> NUL \<notin> set payload \<longrightarrow> signed_by env dn req"
    "resp = Inl Null_deref \<and> sent' = sent \<or> (\<exists>x. resp = Inr x) \<and> sent' = sent @ [req]"
    "keeps dn dn'" "record_ipv4 dn' = record_ipv4 dn" "record_ipv6 dn' = record_ipv6 dn"
proof -
  define dn1 where "dn1 = generate_http_authorization env ''POST'' payload sent dn"
  define req where "req = \<lparr>req_method = ''POST'', req_url = ''https://dnspod.tencentcloudapi.com'',
    req_headers = generate_http_header dn1 [] action, req_body = Some (c_str payload)\<rparr>"
  have run: "curl_request env (''https://'' @ TENCENT_REQUEST_URL) ''POST'' (Some payload)
      (generate_http_header dn1 [] action) sent = (resp, sent')" and dn': "dn' = dn1"
    using assms(1) by (auto simp: tencent_post_def Let_def dn1_def split: prod.splits)
  have "api_call action payload req"
    using action_header [OF assms(2)] by (simp add: api_call_def req_def)
  moreover have "plain_credentials dn \<and> NUL \<notin> set payload \<longrightarrow> signed_by env dn req"
    using signed_request [of dn payload dn1 env sent] by (simp add: signed_by_def req_def dn1_def)
  moreover have "resp = Inl Null_deref \<and> sent' = sent \<or> (\<exists>x. resp = Inr x) \<and> sent' = sent @ [req]"
    using run by (auto simp: curl_request_def Let_def c_str_const req_def split: curl_outcome.splits)
  moreover have "keeps dn dn'" by (simp add: dn' dn1_def generate_http_authorization_fields(5))
  ultimately show thesis using that by (simp add: dn' dn1_def authorization_keeps_records)
qed

text \<open>
  C24: \<open>dnspod_record_modify\<close> without a known record of the family sends nothing and reports
  failure. With one it sends exactly one \<^verbatim>\<open>ModifyRecord\<close> request, for the first record and the
  given address, and reports success, whatever the service answers; the object keeps its records.
  Only a failure of \<^verbatim>\<open>curl_easy_init\<close> leaves it without a request, in undefined behaviour.
\<close>

theorem record_modify_branches:
  "case dnspod_record_modify env cfg t ip (dn, sent) of (r, (dn', sent')) \<Rightarrow>
    if records_for t dn = [] then r = Inr RETURN_FAIL \<and> (dn', sent') = (dn, sent)
    else keeps dn dn' \<and> records_for t dn' = records_for t dn \<and>
      (r = Inl Null_deref \<and> sent' = sent \<or>
       r = Inr RETURN_SUCC \<and>
         (\<exists>req. sent' = sent @ [req] \<and>
           api_call ''ModifyRecord'' (record_modify_payload cfg (hd (records_for t dn)) ip) req))"
proof (cases "records_for t dn = []")
  case True
  then show ?thesis by (simp add: dnspod_record_modify_def)
next
  case False
  let ?p = "record_modify_payload cfg (hd (records_for t dn)) ip"
  obtain resp dn1 sent1 where run: "tencent_post env ''ModifyRecord'' ?p (dn, sent) = (resp, (dn1, sent1))"
    by (metis prod_cases3)
  then obtain req where req: "api_call ''ModifyRecord'' ?p req"
    "resp = Inl Null_deref \<and> sent1 = sent \<or> (\<exists>x. resp = Inr x) \<and> sent1 = sent @ [req]"
    "keeps dn dn1" "record_ipv4 dn1 = record_ipv4 dn" "record_ipv6 dn1 = record_ipv6 dn"
    by (rule tencent_post_cases) auto
  have "records_for t dn1 = records_for t dn" using req(4,5) by (simp add: records_for_def)
  moreover have "dnspod_record_modify env cfg t ip (dn, sent) =
      sbind (resp, (dn1, sent1)) (\<lambda>response st. (Inr RETURN_SUCC, st))"
    using False run by (simp add: dnspod_record_modify_def hd_conv_nth)
  ultimately show ?thesis using False req by (auto simp: records_for_def)
qed

lemma delete_loop_requests:
  assumes "delete_loop env cfg rs (dn, sent) = (r, (dn', sent'))"
  shows "\<exists>new k. sent' = sent @ new \<and> keeps dn dn' \<and>
    record_ipv4 dn' = record_ipv4 dn \<and> record_ipv6 dn' = record_ipv6 dn \<and>
    list_all2 (\<lambda>x req. api_call ''DeleteRecord'' (record_delete_payload (domain_name cfg) (ucast (rec_id x))) req)
      (take k rs) new \<and>
    (r = Inr () \<and> length rs \<le> k \<or> r = Inl Null_deref \<and> k < length rs)"
  using assms
proof (induction rs arbitrary: dn sent)
  case Nil
  then show ?case by (intro exI [of _ "[]"] exI [of _ 0]) simp
next
  case (Cons x rs)
  let ?p = "record_delete_payload (domain_name cfg) (ucast (rec_id x))"
  obtain resp dn1 sent1 where run: "tencent_post env ''DeleteRecord'' ?p (dn, sent) = (resp, (dn1, sent1))"
    by (metis prod_cases3)
  then obtain req where req: "api_call ''DeleteRecord'' ?p req"
    "resp = Inl Null_deref \<and> sent1 = sent \<or> (\<exists>y. resp = Inr y) \<and> sent1 = sent @ [req]"
    "keeps dn dn1" "record_ipv4 dn1 = record_ipv4 dn" "record_ipv6 dn1 = record_ipv6 dn"
    by (rule tencent_post_cases) auto
  from req(2) show ?case
  proof
    assume fail: "resp = Inl Null_deref \<and> sent1 = sent"
    with Cons.prems run have "r = Inl Null_deref" "dn' = dn1" "sent' = sent"
      by (auto simp: dnspod_record_delete_def)
    with req show ?thesis by (intro exI [of _ "[]"] exI [of _ 0]) simp
  next
    assume ok: "(\<exists>y. resp = Inr y) \<and> sent1 = sent @ [req]"
    with Cons.prems run have "delete_loop env cfg rs (dn1, sent @ [req]) = (r, (dn', sent'))"
      by (auto simp: dnspod_record_delete_def)
    from Cons.IH [OF this] obtain new k where "sent' = (sent @ [req]) @ new" "keeps dn1 dn'"
      "record_ipv4 dn' = record_ipv4 dn1" "record_ipv6 dn' = record_ipv6 dn1"
      "list_all2 (\<lambda>x req. api_call ''DeleteRecord'' (record_delete_payload (domain_name cfg) (ucast (rec_id x))) req)
        (take k rs) new"
      "r = Inr () \<and> length rs \<le> k \<or> r = Inl Null_deref \<and> k < length rs" by blast
    with req show ?thesis
      by (intro exI [of _ "req # new"] exI [of _ "Suc k"]) (auto intro: keeps_trans)
  qed
qed

definition deletes :: "config_t \<Rightarrow> record_list_t \<Rightarrow> request \<Rightarrow> bool" where
  "deletes cfg x = api_call ''DeleteRecord'' (record_delete_payload (domain_name cfg) (ucast (rec_id x)))"

lemma remain_one_loops:
  "record_delete_remain_one env cfg st =
    sbind (delete_loop env cfg (drop 1 (record_ipv4 (fst st))) st)
      (\<lambda>_ st. delete_loop env cfg (drop 1 (record_ipv6 (fst st))) st)"
proof -
  have l: "(if 1 < length rs then delete_loop env cfg (drop 1 rs) st else (Inr (), st)) =
    delete_loop env cfg (drop 1 rs) st" for rs st by (cases rs) auto
  show ?thesis unfolding record_delete_remain_one_def l ..
qed

text \<open>
  C25: \<open>record_delete_remain_one\<close> sends one \<^verbatim>\<open>DeleteRecord\<close> request for every record of each family
  but the first, IPv4 before IPv6, in the order of the lists and no other request; a failure of
  \<^verbatim>\<open>curl_easy_init\<close> cuts this sequence short. It leaves the two lists as they are.
\<close>

theorem remain_one_requests:
  "case record_delete_remain_one env cfg (dn, sent) of (r, (dn', sent')) \<Rightarrow>
    let extra = drop 1 (record_ipv4 dn) @ drop 1 (record_ipv6 dn) in
    \<exists>new k. sent' = sent @ new \<and> list_all2 (deletes cfg) (take k extra) new \<and>
      keeps dn dn' \<and> record_ipv4 dn' = record_ipv4 dn \<and> record_ipv6 dn' = record_ipv6 dn \<and>
      (r = Inr () \<and> k = length extra \<or> r = Inl Null_deref \<and> k < length extra)"
proof -
  let ?a = "drop 1 (record_ipv4 dn)" and ?b = "drop 1 (record_ipv6 dn)"
  obtain r1 dn1 sent1 where l1: "delete_loop env cfg ?a (dn, sent) = (r1, (dn1, sent1))"
    by (metis prod_cases3)
  from delete_loop_requests [OF l1] obtain new1 k1 where 1: "sent1 = sent @ new1" "keeps dn dn1"
    "record_ipv4 dn1 = record_ipv4 dn" "record_ipv6 dn1 = record_ipv6 dn"
    "list_all2 (deletes cfg) (take k1 ?a) new1"
    "r1 = Inr () \<and> length ?a \<le> k1 \<or> r1 = Inl Null_deref \<and> k1 < length ?a"
    unfolding deletes_def by blast
  show ?thesis
  proof (cases r1)
    case (Inl u)
    with 1 l1 show ?thesis
      by (auto simp: remain_one_loops Let_def intro!: exI [of _ new1] exI [of _ k1])
  next
    case (Inr u)
    obtain r2 dn2 sent2 where l2: "delete_loop env cfg ?b (dn1, sent1) = (r2, (dn2, sent2))"
      by (metis prod_cases3)
    from delete_loop_requests [OF l2] obtain new2 k2 where 2: "sent2 = sent1 @ new2" "keeps dn1 dn2"
      "record_ipv4 dn2 = record_ipv4 dn1" "record_ipv6 dn2 = record_ipv6 dn1"
      "list_all2 (deletes cfg) (take k2 ?b) new2"
      "r2 = Inr () \<and> length ?b \<le> k2 \<or> r2 = Inl Null_deref \<and> k2 < length ?b"
      unfolding deletes_def by blast
    define k where "k = length ?a + min k2 (length ?b)"
    have "take k (?a @ ?b) = take k1 ?a @ take k2 ?b" using 1(6) Inr by (simp add: k_def min_def)
    then have "list_all2 (deletes cfg) (take k (?a @ ?b)) (new1 @ new2)"
      using 1(5) 2(5) by (simp add: list_all2_appendI)
    moreover have "record_delete_remain_one env cfg (dn, sent) = (r2, (dn2, sent2))"
      using l1 l2 Inr 1(4) by (simp add: remain_one_loops)
    moreover have "r2 = Inr () \<and> k = length (?a @ ?b) \<or> r2 = Inl Null_deref \<and> k < length (?a @ ?b)"
      using 2(6) by (auto simp: k_def)
    ultimately show ?thesis using 1 2 keeps_trans [OF 1(2) 2(2)]
      by (auto simp: Let_def intro!: exI [of _ "new1 @ new2"] exI [of _ k])
  qed
qed

section \<open>Clients that make only allowed calls\<close>

text \<open>
  A client makes its calls through the methods of \<open>Dnspod\<close>. Given the pairs of an action and a
  payload it allows itself, everything it sends stays among them and is signed with the credentials
  of the object it started from; the records it knew stay known.
\<close>

definition good_call :: "env \<Rightarrow> dnspod \<Rightarrow> string \<Rightarrow> string \<Rightarrow> request \<Rightarrow> bool" where
  "good_call env dn0 action body req \<longleftrightarrow>
    api_call action body req \<and> (plain_credentials dn0 \<and> NUL \<notin> set body \<longrightarrow> signed_by env dn0 req)"

definition client_inv ::
  "env \<Rightarrow> dnspod \<Rightarrow> (string \<Rightarrow> string \<Rightarrow> bool) \<Rightarrow> (request \<Rightarrow> bool) \<Rightarrow> client \<Rightarrow> bool" where
  "client_inv env dn0 allowed earlier st \<longleftrightarrow> keeps dn0 (fst st) \<and>
    (\<forall>req\<in>set (snd st). earlier req \<or> (\<exists>a b. allowed a b \<and> good_call env dn0 a b req))"

locale allowed_calls =
  fixes env :: env and dn0 :: dnspod
    and allowed :: "string \<Rightarrow> string \<Rightarrow> bool" and earlier :: "request \<Rightarrow> bool"
  assumes action_text: "allowed a b \<Longrightarrow> NUL \<notin> set a"
begin

lemma post_inv:
  assumes "client_inv env dn0 allowed earlier st" and "allowed a b"
  shows "client_inv env dn0 allowed earlier (snd (tencent_post env a b st))"
proof -
  obtain dn sent where st: "st = (dn, sent)" by (cases st)
  obtain resp dn' sent' where run: "tencent_post env a b (dn, sent) = (resp, (dn', sent'))"
    by (metis prod_cases3)
  from run action_text [OF assms(2)] obtain req where req: "api_call a b req"
    "plain_credentials dn \<and> NUL \<notin> set b \<longrightarrow> signed_by env dn req"
    "resp = Inl Null_deref \<and> sent' = sent \<or> (\<exists>x. resp = Inr x) \<and> sent' = sent @ [req]"
    "keeps dn dn'" by (rule tencent_post_cases) auto
  have "keeps dn0 dn" using assms(1) by (simp add: client_inv_def st)
  then have "credentials dn = credentials dn0" by (simp add: keeps_def)
  then have "good_call env dn0 a b req"
    using req(1,2) by (simp add: good_call_def plain_credentials_def signed_by_def credentials_def)
  moreover have "keeps dn0 dn'" using \<open>keeps dn0 dn\<close> req(4) by (rule keeps_trans)
  ultimately show ?thesis using assms req(3) by (auto simp: client_inv_def st run)
qed

lemma decoded_inv:
  "client_inv env dn0 allowed earlier (dn, sent) \<Longrightarrow> keeps dn dn' \<Longrightarrow>
   client_inv env dn0 allowed earlier (dn', sent)"
  by (auto simp: client_inv_def intro: keeps_trans)

lemma domain_list_inv:
  assumes "client_inv env dn0 allowed earlier st" and "allowed ''DescribeDomainList'' ''{}''"
  shows "client_inv env dn0 allowed earlier (snd (dnspod_domain_list env cfg st))"
  unfolding dnspod_domain_list_def
proof (rule sbind_invariant)
  show "client_inv env dn0 allowed earlier (snd (tencent_post env ''DescribeDomainList'' ''{}'' st))"
    by (rule post_inv [OF assms])
next
  fix x :: string and s assume "client_inv env dn0 allowed earlier s"
  then show "client_inv env dn0 allowed earlier (snd (case s of (dn, sent) \<Rightarrow>
      case decode_domain_list cfg x (e_sched env sent) dn of (r, dn) \<Rightarrow> (r, (dn, sent))))"
    using keeps_decoders(2) [of "fst s" cfg x "e_sched env (snd s)"]
    by (cases s; cases "decode_domain_list cfg x (e_sched env (snd s)) (fst s)") (auto intro: decoded_inv)
qed

lemma record_list_filter_inv:
  assumes "client_inv env dn0 allowed earlier st"
    and "allowed ''DescribeRecordFilterList'' (record_list_filter_payload cfg)"
  shows "client_inv env dn0 allowed earlier (snd (dnspod_record_list_filter env cfg st))"
  unfolding dnspod_record_list_filter_def
proof (rule sbind_invariant)
  show "client_inv env dn0 allowed earlier
      (snd (tencent_post env ''DescribeRecordFilterList'' (record_list_filter_payload cfg) st))"
    by (rule post_inv [OF assms])
next
  fix x :: string and s assume "client_inv env dn0 allowed earlier s"
  then show "client_inv env dn0 allowed earlier (snd (case s of (dn, sent) \<Rightarrow>
      case decode_record_list_filter cfg x (e_sched env sent) dn of (r, dn) \<Rightarrow> (r, (dn, sent))))"
    using keeps_decoders(1) [of "fst s" cfg x "e_sched env (snd s)"]
    by (cases s; cases "decode_record_list_filter cfg x (e_sched env (snd s)) (fst s)") (auto intro: decoded_inv)
qed

lemma delete_loop_inv:
  assumes "client_inv env dn0 allowed earlier st"
    and "\<And>i. allowed ''DeleteRecord'' (record_delete_payload (domain_name cfg) i)"
  shows "client_inv env dn0 allowed earlier (snd (delete_loop env cfg rs st))"
  using assms(1)
proof (induction rs arbitrary: st)
  case (Cons r rs)
  have "client_inv env dn0 allowed earlier
      (snd (sbind (dnspod_record_delete env (domain_name cfg) (ucast (rec_id r)) st)
        (\<lambda>_ st. delete_loop env cfg rs st)))"
  proof (rule sbind_invariant)
    show "client_inv env dn0 allowed earlier
        (snd (dnspod_record_delete env (domain_name cfg) (ucast (rec_id r)) st))"
      unfolding dnspod_record_delete_def by (rule sbind_invariant) (simp_all add: post_inv Cons.prems assms(2))
  qed (rule Cons.IH)
  then show ?case by simp
qed simp

lemma remain_one_inv:
  assumes "client_inv env dn0 allowed earlier st"
    and "\<And>i. allowed ''DeleteRecord'' (record_delete_payload (domain_name cfg) i)"
  shows "client_inv env dn0 allowed earlier (snd (record_delete_remain_one env cfg st))"
  unfolding remain_one_loops by (rule sbind_invariant) (auto intro: delete_loop_inv assms)

lemma modify_inv:
  assumes "client_inv env dn0 allowed earlier st"
    and "records_for t (fst st) \<noteq> [] \<Longrightarrow>
      allowed ''ModifyRecord'' (record_modify_payload cfg (hd (records_for t (fst st))) ip)"
  shows "client_inv env dn0 allowed earlier (snd (dnspod_record_modify env cfg t ip st))"
proof (cases "records_for t (fst st) = []")
  case False
  have "client_inv env dn0 allowed earlier (snd (sbind
      (tencent_post env ''ModifyRecord'' (record_modify_payload cfg (hd (records_for t (fst st))) ip) st)
      (\<lambda>response st. (Inr RETURN_SUCC :: fault + int, st))))"
    by (rule sbind_invariant) (simp_all add: post_inv assms False)
  then show ?thesis using False by (simp add: dnspod_record_modify_def hd_conv_nth)
qed (simp add: dnspod_record_modify_def assms(1))

end

end
