(* ===== verification/Answers.thy ===== *)
theory Answers
  imports Dnspod_Correct
begin

text \<open>
  The record list of the service, end to end: the text of an answer, as the service sends it, is
  parsed and decoded into the records the answer holds.
\<close>

section \<open>Arrays\<close>

text \<open>An element: a text and the node its parsing gives, whatever follows it.\<close>

definition parses_to :: "value_parser \<Rightarrow> string \<times> cjson \<Rightarrow> bool" where
  "parses_to pv e \<longleftrightarrow> (\<forall>rest. pv blank_item (fst e @ rest) [] = POk (snd e) rest [] \<and>
     skip (fst e @ rest) = fst e @ rest \<and> c_at (fst e @ rest) \<noteq> CHR '']'')"

definition render_array :: "string list \<Rightarrow> string" where
  "render_array ts = (case ts of [] \<Rightarrow> ''[]''
     | t # us \<Rightarrow> ''['' @ t @ concat (map ((#) CHR '','') us) @ '']'')"

lemma array_loop_elements:
  assumes "\<forall>e\<in>set es. parses_to pv e" and "length es < k"
  shows "array_loop pv k cs (concat (map ((#) CHR '','') (map fst es)) @ CHR '']'' # rest) [] =
    POk (cs @ map snd es) (CHR '']'' # rest) []"
  using assms
proof (induction es arbitrary: k cs)
  case Nil
  then show ?case by (cases k) auto
next
  case (Cons e es)
  then obtain k' where k: "k = Suc k'" by (cases k) auto
  let ?rest = "concat (map ((#) CHR '','') (map fst es)) @ CHR '']'' # rest"
  have skip: "skip ?rest = ?rest" by (cases es) (simp_all add: skip_def)
  have e: "pv blank_item (fst e @ ?rest) [] = POk (snd e) ?rest []" "skip (fst e @ ?rest) = fst e @ ?rest"
    using Cons.prems by (simp_all add: parses_to_def)
  have "array_loop pv k' (cs @ [snd e]) ?rest [] = POk ((cs @ [snd e]) @ map snd es) (CHR '']'' # rest) []"
    using Cons.prems k by (intro Cons.IH) auto
  with e skip show ?case by (simp add: k with_new_item_Nil)
qed

lemma parse_array_elements:
  assumes "\<forall>e\<in>set es. parses_to pv e"
  shows "parse_array pv item (render_array (map fst es) @ rest) [] =
    POk (set_child (map snd es @ (if es = [] then child item else [])) (set_jtype J_Array item)) rest []"
proof (cases es)
  case Nil
  then show ?thesis by (simp add: render_array_def skip_def parse_array_def cjson_setters)
next
  case (Cons e fs)
  let ?rest = "concat (map ((#) CHR '','') (map fst fs)) @ CHR '']'' # rest"
  have skip: "skip ?rest = ?rest" by (cases fs) (simp_all add: skip_def)
  have e: "pv blank_item (fst e @ ?rest) [] = POk (snd e) ?rest []" "skip (fst e @ ?rest) = fst e @ ?rest"
    "c_at (fst e @ ?rest) \<noteq> CHR '']''"
    using assms Cons by (simp_all add: parses_to_def)
  have "length fs \<le> length (concat (map ((#) CHR '','') (map fst fs)))" by (induction fs) auto
  then have "array_loop pv (Suc (length ?rest)) [snd e] ?rest [] = POk ([snd e] @ map snd fs) (CHR '']'' # rest) []"
    using assms Cons by (intro array_loop_elements) auto
  then have "parse_elements pv (fst e @ ?rest) [] = POk (map snd es) (CHR '']'' # rest) []"
    using e skip Cons by (simp add: parse_elements_def with_new_item_Nil del: array_loop.simps)
  then show ?thesis using e Cons by (simp add: parse_array_def render_array_def)
qed

lemma parse_value_bracket:
  "parse_value (Suc n) item (CHR ''['' # t) m = parse_array (parse_value n) item (CHR ''['' # t) m"
  by (simp add: is_digit_ord)

lemma render_array_bracket: "\<exists>t. render_array ts = CHR ''['' # t"
  by (cases ts) (simp_all add: render_array_def)

section \<open>Objects of one member\<close>

definition single :: "string \<Rightarrow> string \<Rightarrow> string" where
  "single k t = ''{'' @ jq k @ '': '' @ t @ ''}''"

lemma parse_single:
  assumes "plain_text k" and "\<And>rest. skip (t @ rest) = t @ rest"
    and "\<And>rest. pv (CJson J_String None 0 (Fin 0) (Some k) []) (t @ rest) [] = POk c rest []"
  shows "parse_object pv item (single k t @ rest) [] = POk (set_child [c] (set_jtype J_Object item)) rest []"
proof -
  let ?body = "jq k @ '': '' @ t @ CHR ''}'' # rest"
  have "parse_member pv blank_item ?body [] = POk c (CHR ''}'' # rest) []"
    by (rule parse_member_key) (use assms in \<open>simp_all add: closes_def\<close>)
  moreover have "skip ?body = ?body" by (rule skip_jq(1))
  moreover have "c_at ?body = CHR 0x22" by (simp add: jq_def)
  ultimately show ?thesis
    by (simp add: parse_object_def single_def parse_members_def with_new_item_Nil)
qed

lemma single_brace: "\<exists>s. single k t = CHR ''{'' # s"
  by (simp add: single_def)

section \<open>A record list\<close>

text \<open>A record of the service: its name, type, value and id.\<close>

type_synonym zone_record = "string \<times> string \<times> string \<times> nat"

definition record_fields :: "zone_record \<Rightarrow> jfield list" where
  "record_fields r = (case r of (n, ty, v, i) \<Rightarrow>
    [FStr ''Name'' n, FStr ''Type'' ty, FStr ''Value'' v, FNum ''RecordId'' i])"

definition answer_text :: "zone_record list \<Rightarrow> string" where
  "answer_text rs = single ''Response'' (single ''RecordList''
     (render_array (map (\<lambda>r. render_object (record_fields r)) rs)))"

definition answer_tree :: "zone_record list \<Rightarrow> cjson" where
  "answer_tree rs = CJson J_Object None 0 (Fin 0) None
     [CJson J_Object None 0 (Fin 0) (Some ''Response'')
       [CJson J_Array None 0 (Fin 0) (Some ''RecordList'') (map (\<lambda>r. object_of (record_fields r)) rs)]]"

definition plain_record :: "zone_record \<Rightarrow> bool" where
  "plain_record r \<longleftrightarrow> (case r of (n, ty, v, i) \<Rightarrow> plain_text n \<and> plain_text ty \<and> plain_text v \<and> i \<le> 2 ^ 53)"

lemma skip_open: "x \<in> {CHR ''{'', CHR ''[''} \<Longrightarrow> skip (x # s) = x # s"
  by (auto simp: skip_def)

lemma parse_array_records:
  assumes "\<forall>r\<in>set rs. plain_record r"
  shows "parse_value (Suc (Suc (Suc n))) item (render_array (map (\<lambda>r. render_object (record_fields r)) rs) @ rest) [] =
    POk (set_child (map (\<lambda>r. object_of (record_fields r)) rs @ (if rs = [] then child item else []))
      (set_jtype J_Array item)) rest []"
proof -
  let ?e = "\<lambda>r. (render_object (record_fields r), object_of (record_fields r))"
  have "parses_to (parse_value (Suc (Suc n))) (?e r)" if "r \<in> set rs" for r
  proof -
    have "\<forall>f\<in>set (record_fields r). plain_field f"
      using assms that by (auto simp: record_fields_def plain_record_def plain_text_def split: prod.splits)
    moreover obtain t where "render_object (record_fields r) = CHR ''{'' # t" using render_object_brace by blast
    ultimately show ?thesis
      by (simp add: parses_to_def parse_value_render_object skip_open del: parse_value.simps)
        (metis append_Cons parse_value_render_object)
  qed
  then have "\<forall>e\<in>set (map ?e rs). parses_to (parse_value (Suc (Suc n))) e" by auto
  from parse_array_elements [OF this, of item rest]
  have arr: "parse_array (parse_value (Suc (Suc n))) item
      (render_array (map (\<lambda>r. render_object (record_fields r)) rs) @ rest) [] =
    POk (set_child (map (\<lambda>r. object_of (record_fields r)) rs @ (if rs = [] then child item else []))
      (set_jtype J_Array item)) rest []"
    by (simp add: comp_def del: parse_value.simps)
  obtain t where t: "render_array (map (\<lambda>r. render_object (record_fields r)) rs) = CHR ''['' # t"
    using render_array_bracket by blast
  have "parse_value (Suc (Suc (Suc n))) item (CHR ''['' # t @ rest) [] =
      parse_array (parse_value (Suc (Suc n))) item (CHR ''['' # t @ rest) []"
    by (rule parse_value_bracket)
  with arr show ?thesis by (simp add: t del: parse_value.simps)
qed

lemma parse_value_single:
  assumes "plain_text k" and "\<And>rest. skip (t @ rest) = t @ rest"
    and "\<And>rest. parse_value n (CJson J_String None 0 (Fin 0) (Some k) []) (t @ rest) [] = POk c rest []"
  shows "parse_value (Suc n) item (single k t @ rest) [] = POk (set_child [c] (set_jtype J_Object item)) rest []"
proof -
  obtain s where s: "single k t = CHR ''{'' # s" using single_brace by blast
  have "parse_value (Suc n) item (CHR ''{'' # s @ rest) [] =
      parse_object (parse_value n) item (CHR ''{'' # s @ rest) []"
    by (rule parse_value_object)
  moreover have "parse_object (parse_value n) item (single k t @ rest) [] =
      POk (set_child [c] (set_jtype J_Object item)) rest []"
    by (rule parse_single) (rule assms)+
  ultimately show ?thesis by (simp add: s del: parse_value.simps)
qed

lemma length_answer_text: "5 \<le> length (answer_text rs)"
  by (simp add: answer_text_def single_def)

lemma Parse_answer_text:
  assumes "\<forall>r\<in>set rs. plain_record r"
  shows "Parse (answer_text rs) [] = POk (answer_tree rs) [] []"
proof -
  let ?arr = "render_array (map (\<lambda>r. render_object (record_fields r)) rs)"
  let ?list = "single ''RecordList'' ?arr"
  let ?item = "\<lambda>k. CJson J_String None 0 (Fin 0) (Some k) []"
  obtain n where n: "length (answer_text rs) = Suc (Suc (Suc (Suc n)))"
    using le_Suc_ex [OF length_answer_text [of rs]] by auto
  have skip: "skip (?arr @ rest) = ?arr @ rest" "skip (?list @ rest) = ?list @ rest"
    "skip (answer_text rs) = answer_text rs" for rest
    using render_array_bracket single_brace
    by (metis append_Cons insertI1 insertI2 skip_open) (simp_all add: single_def answer_text_def skip_def)
  have 1: "parse_value (Suc (Suc (Suc n))) (?item ''RecordList'') (?arr @ rest) [] =
      POk (CJson J_Array None 0 (Fin 0) (Some ''RecordList'') (map (\<lambda>r. object_of (record_fields r)) rs)) rest []"
    for rest
    by (simp add: parse_array_records [OF assms] cjson_setters del: parse_value.simps)
  have 2: "parse_value (Suc (Suc (Suc (Suc n)))) (?item ''Response'') (?list @ rest) [] =
      POk (CJson J_Object None 0 (Fin 0) (Some ''Response'')
        [CJson J_Array None 0 (Fin 0) (Some ''RecordList'') (map (\<lambda>r. object_of (record_fields r)) rs)]) rest []"
    for rest
    using parse_value_single [OF _ skip(1) 1]
    by (simp add: plain_text_def cjson_setters del: parse_value.simps)
  have "parse_value (Suc (Suc (Suc (Suc (Suc n))))) blank_item (answer_text rs @ []) [] = POk (answer_tree rs) [] []"
    unfolding answer_text_def
    by (subst parse_value_single [OF _ skip(2) 2])
      (simp_all add: plain_text_def cjson_setters answer_tree_def del: parse_value.simps)
  then show ?thesis
    using skip(3) n by (simp add: Parse_def ParseWithOpts_def with_new_item_Nil del: parse_value.simps)
qed

section \<open>Decoding a record list\<close>

definition answer_records :: "string \<Rightarrow> string \<Rightarrow> zone_record list \<Rightarrow> record_list_t list" where
  "answer_records host ty rs =
    map (\<lambda>(n, t, v, i). \<lparr>rec_id = of_nat i, rec_value = v, rec_type = t\<rparr>)
      (filter (\<lambda>(n, t, v, i). n = host \<and> t = ty) rs)"

definition own_name :: "config_t \<Rightarrow> string" where
  "own_name cfg = (if domain_subname cfg = [] then ''@'' else c_str (domain_subname cfg))"

lemma record_fields_of:
  "GetObjectItem (object_of (record_fields (n, ty, v, i))) (Some ''Name'') = Some (field_item (FStr ''Name'' n))"
  "GetObjectItem (object_of (record_fields (n, ty, v, i))) (Some ''Type'') = Some (field_item (FStr ''Type'' ty))"
  "GetObjectItem (object_of (record_fields (n, ty, v, i))) (Some ''Value'') = Some (field_item (FStr ''Value'' v))"
  "GetObjectItem (object_of (record_fields (n, ty, v, i))) (Some ''RecordId'') = Some (field_item (FNum ''RecordId'' i))"
  by (simp_all add: record_fields_def object_of_def GetObjectItem_def cjson_strcasecmp_def tolower_def
      less_eq_char_def)

lemma c_str_idem: "c_str (c_str s) = c_str s"
  by (simp add: c_str_id)

lemma record_of_answer:
  assumes "i \<le> 2 ^ 53" and "c_str host = host" and "d = object_of (record_fields (n, ty, v, i))"
  shows "regular_item host d" and "item_matches host d \<longleftrightarrow> n = host"
    and "field_string d ''Type'' = Some ty" and "field_string d ''Value'' = Some v"
    and "field_id d = Some (of_nat i)"
  using assms
  by (simp_all add: regular_item_def item_matches_def field_string_def field_id_def record_fields_of
      is_string_of_def dbl_to_u64_def trunc_def)

lemma records_of_answer:
  assumes "\<forall>r\<in>set rs. plain_record r" and "c_str host = host"
  shows "records_of host ty (map (\<lambda>r. object_of (record_fields r)) rs) = answer_records host ty rs"
  using assms(1)
proof (induction rs)
  case Nil
  then show ?case by (simp add: records_of_def answer_records_def)
next
  case (Cons r rs)
  obtain n t v i where r: "r = (n, t, v, i)" by (cases r)
  have i: "i \<le> 2 ^ 53" using Cons.prems by (simp add: r plain_record_def)
  have f: "item_matches host (object_of (record_fields (n, t, v, i))) \<longleftrightarrow> n = host"
    "field_string (object_of (record_fields (n, t, v, i))) ''Type'' = Some t"
    "field_string (object_of (record_fields (n, t, v, i))) ''Value'' = Some v"
    "field_id (object_of (record_fields (n, t, v, i))) = Some (of_nat i)"
    using record_of_answer [OF i assms(2) refl, of n t v] by blast+
  have "records_of host ty [object_of (record_fields r)] =
      (if n = host \<and> t = ty then [\<lparr>rec_id = of_nat i, rec_value = v, rec_type = t\<rparr>] else [])"
    using f by (auto simp: records_of_def r)
  moreover have "records_of host ty (map (\<lambda>r. object_of (record_fields r)) rs) = answer_records host ty rs"
    using Cons by simp
  ultimately show ?case
    unfolding list.map by (subst records_of_Cons) (auto simp: answer_records_def r)
qed

lemma answer_no_NUL:
  assumes "\<forall>r\<in>set rs. plain_record r"
  shows "NUL \<notin> set (answer_text rs)"
proof -
  have j: "NUL \<notin> set s \<Longrightarrow> NUL \<notin> set (jq s)" for s by (simp add: jq_def)
  have p: "plain_text s \<Longrightarrow> NUL \<notin> set s" for s by (auto simp: plain_text_def)
  have d: "NUL \<notin> set (dec_str i)" for i by (rule dec_str_no_NUL)
  have "NUL \<notin> set (render_object (record_fields r))" if "r \<in> set rs" for r
    using assms that
    by (cases r) (auto simp: render_object_def record_fields_def plain_record_def d jq_def dest: p)
  then show ?thesis
    by (auto simp: answer_text_def single_def render_array_def jq_def split: list.splits)
qed

lemma decode_answer_text:
  assumes "\<forall>r\<in>set rs. plain_record r"
  shows "decode_record_list_filter cfg (answer_text rs) [] dn =
    (Inr True, dn\<lparr>record_ipv4 := record_ipv4 dn @ answer_records (own_name cfg) ''A'' rs,
                  record_ipv6 := record_ipv6 dn @ answer_records (own_name cfg) ''AAAA'' rs\<rparr>)"
proof -
  let ?ds = "map (\<lambda>r. object_of (record_fields r)) rs"
  have host: "c_str (own_name cfg) = own_name cfg" by (simp add: own_name_def c_str_idem) (simp add: c_str_def)
  have parse: "parse_response (answer_text rs) [] = Inr (Some (answer_tree rs))"
    by (simp add: parse_response_def c_str_id [OF answer_no_NUL [OF assms]] Parse_answer_text [OF assms])
  have "\<forall>d\<in>set ?ds. regular_item (own_name cfg) d"
    using assms record_of_answer(1) [OF _ host refl] by (auto simp: plain_record_def)
  then have items: "record_items (own_name cfg) ?ds dn = (Inr True, add_records (own_name cfg) ?ds dn)"
    by (rule record_items_regular)
  show ?thesis
    using items
    by (simp add: decode_record_list_filter_def parse answer_tree_def GetObjectItem_def own_name_def
        cjson_strcasecmp_def tolower_def less_eq_char_def Let_def add_records_def
        records_of_answer [OF assms host, unfolded own_name_def])
qed



end
