(* ===== verification/Ddns_Main.thy ===== *)
theory Ddns_Main
  imports Answers
begin

text \<open>
  The program: \<^verbatim>\<open>main.cpp\<close>, with \<^verbatim>\<open>check_demo_http_check\<close> and \<^verbatim>\<open>check_nat_wan_ip\<close> of
  \<^verbatim>\<open>check_ip_wan.cpp\<close>.

  \<open>world\<close> holds the three singletons and the requests sent. Each step runs on the world the
  step before left; a fault ends the program with the world it had then. The configuration is read
  once, at the start.
\<close>

section \<open>State\<close>

record world =
  w_ip4 :: ipaddress
  w_ip6 :: ipaddress
  w_dn :: dnspod
  w_sent :: "request list"

definition family :: "ip_type_t \<Rightarrow> world \<Rightarrow> ipaddress" where
  "family t w = (case t of CLASS_IPV4 \<Rightarrow> w_ip4 w | CLASS_IPV6 \<Rightarrow> w_ip6 w)"

definition set_family :: "ip_type_t \<Rightarrow> ipaddress \<Rightarrow> world \<Rightarrow> world" where
  "set_family t a w = (case t of CLASS_IPV4 \<Rightarrow> w\<lparr>w_ip4 := a\<rparr> | CLASS_IPV6 \<Rightarrow> w\<lparr>w_ip6 := a\<rparr>)"

definition wan_url :: "ip_type_t \<Rightarrow> config_t \<Rightarrow> string" where
  "wan_url t cfg = (case t of CLASS_IPV4 \<Rightarrow> check_ip_url_ipv4 cfg | CLASS_IPV6 \<Rightarrow> check_ip_url_ipv6 cfg)"

section \<open>Addresses\<close>

definition run_check_local_ip :: "env \<Rightarrow> ip_type_t \<Rightarrow> world \<Rightarrow> (fault + unit) \<times> world" where
  "run_check_local_ip env t w =
    (case check_local_ip (family t w) (e_ifaddrs env) of
       Inl u \<Rightarrow> (Inl u, w)
     | Inr a \<Rightarrow> (Inr (), set_family t a w))"

definition check_nat_wan_ip :: "env \<Rightarrow> config_t \<Rightarrow> ip_type_t \<Rightarrow> world \<Rightarrow> (fault + unit) \<times> world" where
  "check_nat_wan_ip env g_file_config t w =
    (let headers = curl_slist_append [] '': '';
         (resp, sent) = curl_request env (wan_url t g_file_config) ''GET'' None headers (w_sent w);
         w = w\<lparr>w_sent := sent\<rparr>
     in case resp of
          Inl u \<Rightarrow> (Inl u, w)
        | Inr src \<Rightarrow> (Inr (), set_family t (decode_ipwan (family t w) src) w))"

definition check_demo_http_check :: "env \<Rightarrow> config_t \<Rightarrow> world \<Rightarrow> (fault + unit) \<times> world" where
  "check_demo_http_check env g_file_config w =
    sbind (run_check_local_ip env CLASS_IPV4 w) (\<lambda>_ w.
    sbind (run_check_local_ip env CLASS_IPV6 w) (\<lambda>_ w.
    sbind (check_nat_wan_ip env g_file_config CLASS_IPV4 w) (\<lambda>_ w.
      check_nat_wan_ip env g_file_config CLASS_IPV6 w)))"

section \<open>The main program\<close>

definition on_dnspod :: "(client \<Rightarrow> (fault + 'a) \<times> client) \<Rightarrow> world \<Rightarrow> (fault + 'a) \<times> world" where
  "on_dnspod f w = (case f (w_dn w, w_sent w) of (r, (dn, sent)) \<Rightarrow> (r, w\<lparr>w_dn := dn, w_sent := sent\<rparr>))"

definition update_family :: "env \<Rightarrow> config_t \<Rightarrow> ip_type_t \<Rightarrow> world \<Rightarrow> (fault + unit) \<times> world" where
  "update_family env g_file_config t w =
    (case match_wanip_with_localip (family t w) of (ret, a) \<Rightarrow>
      let w = set_family t a w in
      if RETURN_SUCC = ret
      then sbind (on_dnspod (dnspod_record_modify env g_file_config t (ip_ddns_modify a)) w)
             (\<lambda>_ w. (Inr (), w))
      else (Inr (), w))"

definition cloud_steps :: "env \<Rightarrow> config_t \<Rightarrow> world \<Rightarrow> (fault + int) \<times> world" where
  "cloud_steps env g_file_config w =
    sbind (on_dnspod (dnspod_domain_list env g_file_config) w) (\<lambda>_ w.
    sbind (on_dnspod (dnspod_record_list_filter env g_file_config) w) (\<lambda>_ w.
    sbind (on_dnspod (record_delete_remain_one env g_file_config) w) (\<lambda>_ w.
    sbind (update_family env g_file_config CLASS_IPV4 w) (\<lambda>_ w.
    sbind (update_family env g_file_config CLASS_IPV6 w) (\<lambda>_ w.
      (Inr 0, w))))))"

definition main_config :: "env \<Rightarrow> config_t" where
  "main_config env = file_config_read (e_config env) g_file_config_init"

definition initial_world :: "config_t \<Rightarrow> world" where
  "initial_world g_file_config =
    \<lparr>w_ip4 = new_ipaddress CLASS_IPV4 (domain_full g_file_config),
     w_ip6 = new_ipaddress CLASS_IPV6 (domain_full g_file_config),
     w_dn = new_dnspod [], w_sent = []\<rparr>"

definition ddns_main :: "env \<Rightarrow> (fault + int) \<times> world" where
  "ddns_main env =
    (let g_file_config = main_config env in
     sbind (check_demo_http_check env g_file_config (initial_world g_file_config)) (\<lambda>_ w.
       cloud_steps env g_file_config (w\<lparr>w_dn := new_dnspod (e_config env)\<rparr>)))"

section \<open>The address phase\<close>

definition type_name :: "ip_type_t \<Rightarrow> string" where
  "type_name t = (case t of CLASS_IPV4 \<Rightarrow> ''A'' | CLASS_IPV6 \<Rightarrow> ''AAAA'')"

lemma family_simps [simp]:
  "family t (set_family t a w) = a"
  "t \<noteq> t' \<Longrightarrow> family t (set_family t' a w) = family t w"
  "family t (w\<lparr>w_dn := dn\<rparr>) = family t w"
  "family t (w\<lparr>w_sent := s\<rparr>) = family t w"
  "w_dn (set_family t a w) = w_dn w"
  "w_sent (set_family t a w) = w_sent w"
  by (cases t; cases t'; simp add: family_def set_family_def)+

text \<open>
  What is known of the addresses of a world: an address that counts as public is the first public
  one of the host's interfaces, for its family.
\<close>

definition address_ok :: "env \<Rightarrow> ip_type_t \<Rightarrow> ipaddress \<Rightarrow> bool" where
  "address_ok env t a \<longleftrightarrow> class_type_ip a = t \<and>
    (valid_ipwan a \<longrightarrow> first_public t (e_ifaddrs env) = Some (ip_local a))"

definition is_get :: "request \<Rightarrow> bool" where
  "is_get r \<longleftrightarrow> req_method r = ''GET'' \<and> req_headers r = ['': ''] \<and> req_body r = None"

definition address_inv :: "env \<Rightarrow> world \<Rightarrow> bool" where
  "address_inv env w \<longleftrightarrow> (\<forall>t. address_ok env t (family t w)) \<and> (\<forall>r\<in>set (w_sent w). is_get r)"

definition not_checked :: "ip_type_t \<Rightarrow> world \<Rightarrow> bool" where
  "not_checked t w \<longleftrightarrow> \<not> valid_ipwan (family t w)"

lemma run_check_local_ip_inv:
  assumes "\<forall>ifa\<in>set (e_ifaddrs env). well_formed_ifa ifa" and "not_checked t w" and "address_inv env w"
  obtains w' where "run_check_local_ip env t w = (Inr (), w')" "address_inv env w'"
    "\<And>t'. t' \<noteq> t \<Longrightarrow> not_checked t' w' = not_checked t' w"
proof -
  let ?a = "case first_public (class_type_ip (family t w)) (e_ifaddrs env) of
           None \<Rightarrow> family t w
         | Some x \<Rightarrow> (family t w)\<lparr>valid_ipwan := True, ip_local := x\<rparr>"
  have "run_check_local_ip env t w = (Inr (), set_family t ?a w)"
    using check_local_ip_spec [OF assms(1), of "family t w"] assms(2)
    by (simp add: run_check_local_ip_def not_checked_def)
  moreover have "address_ok env t ?a"
    using assms(2,3) by (auto simp: address_inv_def address_ok_def not_checked_def split: option.split)
  then have "address_ok env t' (family t' (set_family t ?a w))" for t'
    using assms(3) by (cases "t' = t") (auto simp: address_inv_def)
  then have "address_inv env (set_family t ?a w)"
    using assms(3) by (simp add: address_inv_def)
  ultimately show thesis using that by (simp add: not_checked_def)
qed

lemma check_nat_wan_ip_inv:
  assumes "address_inv env w"
  shows "address_inv env (snd (check_nat_wan_ip env cfg t w))"
proof -
  obtain resp sent where run: "curl_request env (wan_url t cfg) ''GET'' None ['': ''] (w_sent w) = (resp, sent)"
    by (cases "curl_request env (wan_url t cfg) ''GET'' None ['': ''] (w_sent w)")
  have sl: "curl_slist_append [] '': '' = ['': '']" by (simp add: curl_slist_append_def c_str_def)
  have sent: "\<forall>r\<in>set sent. is_get r"
    using curl_request_sent [of env "wan_url t cfg" "''GET''" None "['': '']" "w_sent w"] assms
    by (auto simp: run address_inv_def is_get_def c_str_def)
  have "address_ok env t (decode_ipwan (family t w) src)" for src
    using assms by (simp add: address_inv_def address_ok_def decode_ipwan_def)
  then have "address_ok env t' (family t' (set_family t (decode_ipwan (family t w) src) (w\<lparr>w_sent := sent\<rparr>)))"
    for src t'
    using assms by (cases "t' = t") (auto simp: address_inv_def)
  then show ?thesis
    using sent assms by (auto simp: check_nat_wan_ip_def Let_def sl run address_inv_def split: sum.split)
qed

lemma check_demo_inv:
  assumes "\<forall>ifa\<in>set (e_ifaddrs env). well_formed_ifa ifa"
  shows "address_inv env (snd (check_demo_http_check env cfg (initial_world cfg)))"
proof -
  have 0: "address_inv env (initial_world cfg)" "not_checked t (initial_world cfg)" for t
    by (cases t; simp add: address_inv_def address_ok_def initial_world_def family_def new_ipaddress_def
        not_checked_def split: ip_type_t.split)+
  obtain w1 where 1: "run_check_local_ip env CLASS_IPV4 (initial_world cfg) = (Inr (), w1)"
    "address_inv env w1" "not_checked CLASS_IPV6 w1"
    using run_check_local_ip_inv [OF assms 0(2) 0(1)] 0(2) by (metis ip_type_t.distinct(1))
  obtain w2 where 2: "run_check_local_ip env CLASS_IPV6 w1 = (Inr (), w2)" "address_inv env w2"
    using run_check_local_ip_inv [OF assms 1(3) 1(2)] by metis
  have "address_inv env (snd (sbind (check_nat_wan_ip env cfg CLASS_IPV4 w2) (\<lambda>_ w.
      check_nat_wan_ip env cfg CLASS_IPV6 w)))"
    by (rule sbind_invariant) (auto intro: check_nat_wan_ip_inv 2)
  then show ?thesis by (simp add: check_demo_http_check_def 1 2)
qed

section \<open>The calls of the program\<close>

text \<open>
  The pairs of an action and a payload the program may send, given the answers \<open>wan\<close> of the
  address services: a modification is for the first public address of the host's interfaces in its
  family, which is also the answer of the service, and for a record of the type of the family.
\<close>

definition allowed_call :: "env \<Rightarrow> config_t \<Rightarrow> (ip_type_t \<Rightarrow> string) \<Rightarrow> string \<Rightarrow> string \<Rightarrow> bool" where
  "allowed_call env cfg wan action body \<longleftrightarrow>
    action = ''DescribeDomainList'' \<and> body = ''{}'' \<or>
    action = ''DescribeRecordFilterList'' \<and> body = record_list_filter_payload cfg \<or>
    action = ''DeleteRecord'' \<and> (\<exists>i. body = record_delete_payload (domain_name cfg) i) \<or>
    action = ''ModifyRecord'' \<and> (\<exists>t r. first_public t (e_ifaddrs env) = Some (wan t) \<and>
      rec_type r = type_name t \<and> body = record_modify_payload cfg r (wan t))"

interpretation main_calls: allowed_calls env dn0 "allowed_call env cfg wan" is_get for env cfg wan dn0
  by unfold_locales (auto simp: allowed_call_def)

definition cloud_inv :: "env \<Rightarrow> config_t \<Rightarrow> (ip_type_t \<Rightarrow> string) \<Rightarrow> dnspod \<Rightarrow> world \<Rightarrow> bool" where
  "cloud_inv env cfg wan dn0 w \<longleftrightarrow>
    client_inv env dn0 (allowed_call env cfg wan) is_get (w_dn w, w_sent w) \<and>
    (\<forall>t. address_ok env t (family t w) \<and> ip_wan (family t w) = wan t)"

lemma on_dnspod_inv:
  assumes "cloud_inv env cfg wan dn0 w"
    and "client_inv env dn0 (allowed_call env cfg wan) is_get (w_dn w, w_sent w) \<Longrightarrow>
      client_inv env dn0 (allowed_call env cfg wan) is_get (snd (f (w_dn w, w_sent w)))"
  shows "cloud_inv env cfg wan dn0 (snd (on_dnspod f w))"
  using assms by (auto simp: cloud_inv_def on_dnspod_def split: prod.split)

lemma update_family_inv:
  assumes "cloud_inv env cfg wan dn0 w" and "typed_records dn0"
  shows "cloud_inv env cfg wan dn0 (snd (update_family env cfg t w))"
proof -
  obtain ret a where m: "match_wanip_with_localip (family t w) = (ret, a)"
    by (cases "match_wanip_with_localip (family t w)")
  let ?w = "set_family t a w"
  have a: "a = family t w \<or> a = (family t w)\<lparr>ip_ddns_modify := ip_local (family t w)\<rparr>"
    using m by (auto simp: match_wanip_with_localip_def split: if_splits)
  then have "address_ok env t a" "ip_wan a = wan t"
    using assms(1) by (auto simp: cloud_inv_def address_ok_def)
  then have fam: "\<forall>t'. address_ok env t' (family t' ?w) \<and> ip_wan (family t' ?w) = wan t'"
  proof -
    assume h: "address_ok env t a" "ip_wan a = wan t"
    have "address_ok env t' (family t' ?w) \<and> ip_wan (family t' ?w) = wan t'" for t'
      using h assms(1) by (cases "t' = t") (auto simp: cloud_inv_def)
    then show ?thesis by blast
  qed
  have w: "cloud_inv env cfg wan dn0 ?w" using assms(1) fam by (simp add: cloud_inv_def)
  show ?thesis
  proof (cases "ret = RETURN_SUCC")
    case True
    then have ok: "valid_ipwan (family t w)" "ip_wan (family t w) = ip_local (family t w)"
      and ip: "ip_ddns_modify a = ip_local (family t w)"
      using m by (auto simp: match_wanip_with_localip_def split: if_splits)
    have wan: "first_public t (e_ifaddrs env) = Some (wan t)" "ip_ddns_modify a = wan t"
      using assms(1) ok ip by (auto simp: cloud_inv_def address_ok_def)
    have "allowed_call env cfg wan ''ModifyRecord''
        (record_modify_payload cfg (hd (records_for t (w_dn w))) (wan t))"
      if ne: "records_for t (w_dn w) \<noteq> []"
    proof -
      have "typed_records (w_dn w)"
        using assms by (simp add: cloud_inv_def client_inv_def keeps_def)
      then have "rec_type (hd (records_for t (w_dn w))) = type_name t"
        using ne hd_in_set [OF ne]
        by (cases t) (auto simp: typed_records_def records_for_def type_name_def)
      then show ?thesis using wan by (auto simp: allowed_call_def)
    qed
    then have "cloud_inv env cfg wan dn0 (snd (on_dnspod (dnspod_record_modify env cfg t (ip_ddns_modify a)) ?w))"
      using wan(2) by (intro on_dnspod_inv [OF w] main_calls.modify_inv) auto
    then have "cloud_inv env cfg wan dn0 (snd (sbind
        (on_dnspod (dnspod_record_modify env cfg t (ip_ddns_modify a)) ?w) (\<lambda>_ w. (Inr () :: fault + unit, w))))"
      by (rule sbind_invariant) simp
    then show ?thesis using True by (simp add: update_family_def m Let_def)
  next
    case False
    then show ?thesis using w by (simp add: update_family_def m Let_def)
  qed
qed

lemma cloud_inv_sbind:
  "cloud_inv env cfg wan dn0 (snd r) \<Longrightarrow>
   (\<And>x w. cloud_inv env cfg wan dn0 w \<Longrightarrow> cloud_inv env cfg wan dn0 (snd (f x w))) \<Longrightarrow>
   cloud_inv env cfg wan dn0 (snd (sbind r f))"
  by (rule sbind_invariant)

lemma cloud_steps_inv:
  assumes "cloud_inv env cfg wan dn0 w" and "typed_records dn0"
  shows "cloud_inv env cfg wan dn0 (snd (cloud_steps env cfg w))"
proof -
  have a: "allowed_call env cfg wan ''DescribeDomainList'' ''{}''"
    "allowed_call env cfg wan ''DescribeRecordFilterList'' (record_list_filter_payload cfg)"
    "allowed_call env cfg wan ''DeleteRecord'' (record_delete_payload (domain_name cfg) i)" for i
    by (auto simp: allowed_call_def)
  show ?thesis
    unfolding cloud_steps_def
    by (intro cloud_inv_sbind on_dnspod_inv update_family_inv assms main_calls.domain_list_inv
        main_calls.record_list_filter_inv main_calls.remain_one_inv a) (simp_all add: assms)
qed

lemma new_dnspod_typed: "typed_records (new_dnspod file)"
  by (simp add: new_dnspod_def typed_records_def split: prod.split)

lemma main_inv:
  assumes "\<forall>ifa\<in>set (e_ifaddrs env). well_formed_ifa ifa"
  obtains wan where "cloud_inv env (main_config env) wan (new_dnspod (e_config env)) (snd (ddns_main env))"
    | "\<forall>req\<in>set (w_sent (snd (ddns_main env))). is_get req"
proof -
  let ?cfg = "main_config env"
  obtain r w where check: "check_demo_http_check env ?cfg (initial_world ?cfg) = (r, w)"
    by (cases "check_demo_http_check env ?cfg (initial_world ?cfg)")
  have inv: "address_inv env w" using check_demo_inv [OF assms, of ?cfg] by (simp add: check)
  show thesis
  proof (cases r)
    case (Inl u)
    then have "snd (ddns_main env) = w" by (simp add: ddns_main_def Let_def check)
    then show thesis using inv that(2) by (simp add: address_inv_def)
  next
    case (Inr u)
    let ?w = "w\<lparr>w_dn := new_dnspod (e_config env)\<rparr>"
    have "cloud_inv env ?cfg (\<lambda>t. ip_wan (family t w)) (new_dnspod (e_config env)) ?w"
      using inv by (simp add: cloud_inv_def client_inv_def address_inv_def)
    from cloud_steps_inv [OF this new_dnspod_typed]
    show thesis using Inr that(1) by (simp add: ddns_main_def Let_def check)
  qed
qed

text \<open>
  C1: Whatever the network, the services, the memory and the clock do, the program changes a DNS
  record only to an address that is the first public address of its family on the host's own
  interfaces and that the address service of that family reports as well; the record is of the type
  of the family, and the body of the request is the payload for them.
\<close>

theorem main_modifies_only_to_own_public_address:
  assumes "\<forall>ifa\<in>set (e_ifaddrs env). well_formed_ifa ifa"
    and "req \<in> set (w_sent (snd (ddns_main env)))"
    and "header_value ''X-TC-Action'' (req_headers req) = Some ''ModifyRecord''"
  shows "\<exists>t ip r. first_public t (e_ifaddrs env) = Some ip \<and> ip_wan (family t (snd (ddns_main env))) = ip \<and>
    rec_type r = type_name t \<and> req_body req = Some (c_str (record_modify_payload (main_config env) r ip))"
proof -
  have get: "\<not> is_get req"
    using assms(3) by (auto simp: is_get_def header_value_def starts_with_def)
  from main_inv [OF assms(1)] obtain wan where
    inv: "cloud_inv env (main_config env) wan (new_dnspod (e_config env)) (snd (ddns_main env))"
    using get assms(2) by blast
  then have "\<forall>req\<in>set (w_sent (snd (ddns_main env))). is_get req \<or> (\<exists>a b.
      allowed_call env (main_config env) wan a b \<and> good_call env (new_dnspod (e_config env)) a b req)"
    by (simp add: cloud_inv_def client_inv_def)
  with assms(2) get obtain a b where call: "allowed_call env (main_config env) wan a b" "api_call a b req"
    unfolding good_call_def by blast
  then have "a = ''ModifyRecord''" using assms(3) by (simp add: api_call_def)
  with call obtain t r where "first_public t (e_ifaddrs env) = Some (wan t)" "rec_type r = type_name t"
    "req_body req = Some (c_str (record_modify_payload (main_config env) r (wan t)))"
    by (auto simp: allowed_call_def api_call_def)
  then show ?thesis using inv by (auto simp: cloud_inv_def)
qed

section \<open>Texts without NUL\<close>

lemma getlines_no_NUL: "NUL \<notin> set acc \<Longrightarrow> NUL \<notin> set s \<Longrightarrow> l \<in> set (getlines acc s) \<Longrightarrow> NUL \<notin> set l"
  by (induction acc s rule: getlines.induct) (auto split: if_splits)

lemma clean_value_no_NUL: "NUL \<notin> set l \<Longrightarrow> NUL \<notin> set (value_of key (clean_line l))"
  by (auto simp: value_of_def clean_line_def strip_comment_def strip_cr_def
      dest!: in_set_dropD set_takeWhileD in_set_butlastD split: if_splits)

definition config_no_NUL :: "config_t \<Rightarrow> bool" where
  "config_no_NUL cfg \<longleftrightarrow> NUL \<notin> set (domain_name cfg) \<and> NUL \<notin> set (domain_subname cfg)"

lemma main_config_no_NUL:
  assumes "NUL \<notin> set (e_config env)"
  shows "config_no_NUL (main_config env)"
proof -
  have lines: "\<forall>l\<in>set ls. NUL \<notin> set l \<Longrightarrow> config_no_NUL cfg \<Longrightarrow> config_no_NUL (config_lines ls cfg)" for ls cfg
    by (induction ls arbitrary: cfg) (auto simp: config_no_NUL_def config_line_def clean_value_no_NUL)
  have "config_no_NUL (config_lines (getlines [] (e_config env)) g_file_config_init)"
    by (rule lines) (use getlines_no_NUL [of "[]" "e_config env"] assms in
      \<open>auto simp: config_no_NUL_def g_file_config_init_def\<close>)
  then show ?thesis by (simp add: main_config_def file_config_read_def Let_def config_no_NUL_def)
qed

lemma new_dnspod_plain:
  assumes "NUL \<notin> set conf"
  shows "plain_credentials (new_dnspod conf)"
proof -
  have lines: "\<forall>l\<in>set ls. NUL \<notin> set l \<Longrightarrow> NUL \<notin> set (fst sec) \<Longrightarrow> NUL \<notin> set (fst (security_lines ls sec))" for ls sec
    by (induction ls arbitrary: sec) (auto simp: security_line_def clean_value_no_NUL)
  have "NUL \<notin> set (fst (file_security_config_read conf ([], [])))"
    unfolding file_security_config_read_def
    by (rule lines) (use getlines_no_NUL [of "[]" conf] assms in auto)
  then show ?thesis
    by (cases "file_security_config_read conf ([], [])") (simp add: new_dnspod_def plain_credentials_def)
qed

lemma inet_ntop4_no_NUL: "NUL \<notin> set (inet_ntop4 a)"
  by (simp add: inet_ntop4_def Let_def dec_str_no_NUL)

lemma inet_ntop6_no_NUL: "NUL \<notin> set (inet_ntop6 ws)"
proof -
  have h: "NUL \<notin> set (hex_str n)" for n
  proof -
    have "hex_val NUL = None" by (simp add: hex_val_def is_digit_def less_eq_char_def)
    then show ?thesis using hex_str_chars [of NUL n] by (metis option.distinct(1))
  qed
  have "NUL \<notin> set (ntop6_loop best ws is)" for best "is"
  proof (induction "is")
    case (Cons i "is")
    then show ?case unfolding ntop6_loop.simps by (simp add: h inet_ntop4_no_NUL del: ntop6_loop.simps)
  qed simp
  then show ?thesis by (auto simp: inet_ntop6_def Let_def simp del: ntop6_loop.simps split: option.split)
qed

lemma first_public_no_NUL: "first_public t ifas = Some x \<Longrightarrow> NUL \<notin> set x"
  by (induction ifas)
    (auto simp: public_text_def inet_ntop4_no_NUL inet_ntop6_no_NUL split: option.splits sockaddr.splits
      ip_type_t.splits if_splits)

lemma allowed_call_no_NUL:
  assumes "config_no_NUL cfg" and "allowed_call env cfg wan a b"
  shows "NUL \<notin> set b"
proof -
  have "NUL \<notin> set (type_name t)" for t by (cases t) (simp_all add: type_name_def)
  then show ?thesis
    using assms first_public_no_NUL
    by (auto simp: allowed_call_def config_no_NUL_def record_list_filter_payload_def record_delete_payload_def
        record_modify_payload_def jq_def dec_str_no_NUL default_line_def Let_def split: if_splits)
qed

text \<open>
  C2: Whatever the services answer and wherever a run ends, every request the program sends to the
  API is accepted by a service that holds the key of the configuration file and verifies the
  signature against the headers and the body it receives.
\<close>

theorem main_requests_signed:
  assumes "\<forall>ifa\<in>set (e_ifaddrs env). well_formed_ifa ifa" and "NUL \<notin> set (e_config env)"
    and "req \<in> set (w_sent (snd (ddns_main env)))" and "req_method req = ''POST''"
  shows "tc3_accepts env (fst (file_security_config_read (e_config env) ([], [])))
    (snd (file_security_config_read (e_config env) ([], []))) req"
proof -
  let ?dn = "new_dnspod (e_config env)"
  have get: "\<not> is_get req" using assms(4) by (simp add: is_get_def)
  from main_inv [OF assms(1)] obtain wan where
    "cloud_inv env (main_config env) wan ?dn (snd (ddns_main env))"
    using get assms(3) by blast
  then have "\<forall>req\<in>set (w_sent (snd (ddns_main env))). is_get req \<or> (\<exists>a b.
      allowed_call env (main_config env) wan a b \<and> good_call env ?dn a b req)"
    by (simp add: cloud_inv_def client_inv_def)
  with assms(3) get obtain a b where call: "allowed_call env (main_config env) wan a b" "good_call env ?dn a b req"
    by blast
  have "NUL \<notin> set b" using allowed_call_no_NUL [OF main_config_no_NUL [OF assms(2)] call(1)] .
  with call(2) new_dnspod_plain [OF assms(2)] have "signed_by env ?dn req" by (simp add: good_call_def)
  then show ?thesis by (simp add: signed_by_def new_dnspod_def split: prod.splits)
qed

section \<open>A run with answers\<close>

text \<open>
  An environment in which everything answers: the host has the public IPv4 address \<open>ip\<close>, the
  address service reports it with any line end, the record list of the service holds \<open>rs\<close>, the
  domain list is one the decoder can read, memory suffices.
\<close>

definition cooperative :: "env \<Rightarrow> string \<Rightarrow> string \<Rightarrow> zone_record list \<Rightarrow> bool" where
  "cooperative env ip domains rs \<longleftrightarrow>
    (\<forall>ifa\<in>set (e_ifaddrs env). well_formed_ifa ifa) \<and>
    first_public CLASS_IPV4 (e_ifaddrs env) = Some ip \<and>
    (\<forall>sent. e_sched env sent = []) \<and>
    (\<forall>sent req. e_curl env sent req \<noteq> Curl_init_failed) \<and>
    (\<forall>sent req ok chunks. e_curl env sent req = Curl_performed ok chunks \<longrightarrow>
      (is_get req \<and> req_url req = c_str (check_ip_url_ipv4 (main_config env)) \<longrightarrow>
        (\<exists>e. concat chunks = ip @ e \<and> set e \<subseteq> {LF, CR})) \<and>
      (header_value ''X-TC-Action'' (req_headers req) = Some ''DescribeDomainList'' \<longrightarrow> concat chunks = domains) \<and>
      (header_value ''X-TC-Action'' (req_headers req) = Some ''DescribeRecordFilterList'' \<longrightarrow>
        concat chunks = answer_text rs)) \<and>
    (\<forall>dn u. fst (decode_domain_list (main_config env) domains [] dn) \<noteq> Inl u) \<and>
    (\<forall>r\<in>set rs. plain_record r)"

lemma inet_ntop4_end: "last (inet_ntop4 a) \<notin> {LF, CR}"
proof -
  have "last (inet_ntop4 a) \<in> set (dec_str (unat a mod 256))"
    by (simp add: inet_ntop4_def Let_def)
  then have "is_digit (last (inet_ntop4 a))" by (rule dec_str_digits)
  then show ?thesis by (auto simp: is_digit_ord)
qed

lemma first_public4_text: "first_public CLASS_IPV4 ifas = Some x \<Longrightarrow> \<exists>a. x = inet_ntop4 a"
  by (induction ifas) (auto simp: public_text_def split: option.splits sockaddr.splits if_splits)

text \<open>One call that is answered.\<close>

lemma tencent_post_answered:
  assumes "\<forall>sent req. e_curl env sent req \<noteq> Curl_init_failed" and "NUL \<notin> set a"
  obtains req dn' ok chunks where "tencent_post env a p (dn, sent) = (Inr (concat chunks), (dn', sent @ [req]))"
    "api_call a p req" "e_curl env sent req = Curl_performed ok chunks"
    "keeps dn dn'" "record_ipv4 dn' = record_ipv4 dn" "record_ipv6 dn' = record_ipv6 dn"
proof -
  obtain resp dn' sent' where run: "tencent_post env a p (dn, sent) = (resp, (dn', sent'))"
    by (metis prod_cases3)
  then obtain req where req: "api_call a p req"
    "resp = Inl Null_deref \<and> sent' = sent \<or> (\<exists>x. resp = Inr x) \<and> sent' = sent @ [req]"
    "keeps dn dn'" "record_ipv4 dn' = record_ipv4 dn" "record_ipv6 dn' = record_ipv6 dn"
    using tencent_post_cases [OF run assms(2)] by metis
  have "\<exists>req' ok chunks. e_curl env sent req' = Curl_performed ok chunks \<and> resp = Inr (concat chunks) \<and> sent' = sent @ [req']"
    using run assms(1) by (auto simp: tencent_post_def curl_request_def Let_def c_simps split: prod.splits curl_outcome.splits)
  with req(2) obtain ok chunks where "e_curl env sent req = Curl_performed ok chunks" "resp = Inr (concat chunks)" "sent' = sent @ [req]"
    by auto
  with run req that show thesis by blast
qed
lemma domain_items_records:
  "record_ipv4 (snd (domain_items temp ds dn)) = record_ipv4 dn"
  "record_ipv6 (snd (domain_items temp ds dn)) = record_ipv6 dn"
proof (induction ds arbitrary: dn)
  case (Cons d ds)
  case 1 show ?case by (auto simp: json_check_def need_string_def Let_def Cons split: option.split)
  case 2 show ?case by (auto simp: json_check_def need_string_def Let_def Cons split: option.split)
qed simp_all

lemma decode_domain_list_records:
  "record_ipv4 (snd (decode_domain_list cfg src m dn)) = record_ipv4 dn"
  "record_ipv6 (snd (decode_domain_list cfg src m dn)) = record_ipv6 dn"
  by (auto simp: decode_domain_list_def json_check_def Let_def domain_items_records split: sum.split option.split)

lemma remain_one_answered:
  assumes "\<forall>sent req. e_curl env sent req \<noteq> Curl_init_failed"
  obtains dn' new where "record_delete_remain_one env cfg (dn, sent) = (Inr (), (dn', sent @ new))"
     "record_ipv4 dn' = record_ipv4 dn" "record_ipv6 dn' = record_ipv6 dn"
proof -
  have loop: "\<exists>dn' new. delete_loop env cfg rs (dn, sent) = (Inr (), (dn', sent @ new)) \<and>
     record_ipv4 dn' = record_ipv4 dn \<and> record_ipv6 dn' = record_ipv6 dn" for rs dn sent
  proof (induction rs arbitrary: dn sent)
    case (Cons r rs)
    obtain req dn1 ok chunks where 1: "tencent_post env ''DeleteRecord'' (record_delete_payload (domain_name cfg) (ucast (rec_id r))) (dn, sent)
       = (Inr (concat chunks), (dn1, sent @ [req]))" "record_ipv4 dn1 = record_ipv4 dn" "record_ipv6 dn1 = record_ipv6 dn"
      by (rule tencent_post_answered [OF assms, of "''DeleteRecord''"]) auto
    from Cons.IH [of dn1 "sent @ [req]"] 1 show ?case by (auto simp: dnspod_record_delete_def)
  qed simp
  obtain dn1 new1 where 1: "delete_loop env cfg (drop 1 (record_ipv4 dn)) (dn, sent) = (Inr (), (dn1, sent @ new1))"
     "record_ipv4 dn1 = record_ipv4 dn" "record_ipv6 dn1 = record_ipv6 dn" using loop by blast
  obtain dn2 new2 where 2: "delete_loop env cfg (drop 1 (record_ipv6 dn1)) (dn1, sent @ new1) = (Inr (), (dn2, (sent @ new1) @ new2))"
     "record_ipv4 dn2 = record_ipv4 dn1" "record_ipv6 dn2 = record_ipv6 dn1" using loop by blast
  from 1 2 that show thesis by (simp add: remain_one_loops)
qed

text \<open>The address phase of a cooperative run.\<close>

lemma check_nat_answered:
  assumes "\<forall>sent req. e_curl env sent req \<noteq> Curl_init_failed"
  obtains req ok chunks where "e_curl env (w_sent w) req = Curl_performed ok chunks" "is_get req"
    "req_url req = c_str (wan_url t cfg)"
    "check_nat_wan_ip env cfg t w = (Inr (), set_family t (decode_ipwan (family t w) (concat chunks)) (w\<lparr>w_sent := w_sent w @ [req]\<rparr>))"
proof -
  let ?req = "\<lparr>req_method = c_str ''GET'', req_url = c_str (wan_url t cfg), req_headers = ['': ''], req_body = None\<rparr>"
  have sl: "curl_slist_append [] '': '' = ['': '']" by (simp add: curl_slist_append_def c_str_def)
  obtain ok chunks where e: "e_curl env (w_sent w) ?req = Curl_performed ok chunks"
    using assms by (cases "e_curl env (w_sent w) ?req") auto
  show thesis
    by (rule that [OF e]) (use e in \<open>simp_all add: is_get_def c_str_def check_nat_wan_ip_def Let_def sl curl_request_def c_simps\<close>)
qed

lemma check_demo_cooperative:
  assumes "cooperative env ip domains rs"
  obtains w where "check_demo_http_check env (main_config env) (initial_world (main_config env)) = (Inr (), w)"
    "valid_ipwan (family CLASS_IPV4 w)" "ip_wan (family CLASS_IPV4 w) = ip" "ip_local (family CLASS_IPV4 w) = ip"
proof -
  let ?cfg = "main_config env" and ?w = "initial_world (main_config env)"
  have wf: "\<forall>ifa\<in>set (e_ifaddrs env). well_formed_ifa ifa"
    and pub: "first_public CLASS_IPV4 (e_ifaddrs env) = Some ip"
    and init: "\<forall>sent req. e_curl env sent req \<noteq> Curl_init_failed"
    using assms by (simp_all add: cooperative_def)
  have new: "\<not> valid_ipwan (family t ?w)" "class_type_ip (family t ?w) = t" for t
    by (cases t; simp add: family_def initial_world_def new_ipaddress_def)+
  define w1 where "w1 = set_family CLASS_IPV4 ((family CLASS_IPV4 ?w)\<lparr>valid_ipwan := True, ip_local := ip\<rparr>) ?w"
  have 1: "run_check_local_ip env CLASS_IPV4 ?w = (Inr (), w1)"
    by (simp add: run_check_local_ip_def check_local_ip_spec [OF wf new(1)] new pub w1_def)
  have v6: "\<not> valid_ipwan (family CLASS_IPV6 w1)" by (simp add: w1_def new)
  obtain b where 2: "run_check_local_ip env CLASS_IPV6 w1 = (Inr (), set_family CLASS_IPV6 b w1)"
    by (simp add: run_check_local_ip_def check_local_ip_spec [OF wf v6])
  define w2 where "w2 = set_family CLASS_IPV6 b w1"
  have a2: "family CLASS_IPV4 w2 = (family CLASS_IPV4 ?w)\<lparr>valid_ipwan := True, ip_local := ip\<rparr>"
    by (simp add: w2_def w1_def)
  obtain req ok chunks where 3: "e_curl env (w_sent w2) req = Curl_performed ok chunks" "is_get req"
    "req_url req = c_str (wan_url CLASS_IPV4 ?cfg)"
    "check_nat_wan_ip env ?cfg CLASS_IPV4 w2 = (Inr (),
      set_family CLASS_IPV4 (decode_ipwan (family CLASS_IPV4 w2) (concat chunks)) (w2\<lparr>w_sent := w_sent w2 @ [req]\<rparr>))"
    by (rule check_nat_answered [OF init])
  define w3 where "w3 = set_family CLASS_IPV4 (decode_ipwan (family CLASS_IPV4 w2) (concat chunks)) (w2\<lparr>w_sent := w_sent w2 @ [req]\<rparr>)"
  have "req_url req = c_str (check_ip_url_ipv4 ?cfg)" using 3(3) by (simp add: wan_url_def)
  then obtain e where e: "concat chunks = ip @ e" "set e \<subseteq> {LF, CR}"
    using assms 3(1,2) unfolding cooperative_def by blast
  obtain x where "ip = inet_ntop4 x" using first_public4_text [OF pub] by blast
  then have a3: "family CLASS_IPV4 w3 = (family CLASS_IPV4 w2)\<lparr>ip_wan := ip\<rparr>"
    using e inet_ntop4_end [of x] by (auto simp: w3_def intro: decode_ipwan_line)
  obtain req' ok' chunks' where 4: "check_nat_wan_ip env ?cfg CLASS_IPV6 w3 = (Inr (),
      set_family CLASS_IPV6 (decode_ipwan (family CLASS_IPV6 w3) (concat chunks')) (w3\<lparr>w_sent := w_sent w3 @ [req']\<rparr>))"
    by (rule check_nat_answered [OF init, of w3 CLASS_IPV6 ?cfg])
  have "check_demo_http_check env ?cfg ?w = (Inr (),
      set_family CLASS_IPV6 (decode_ipwan (family CLASS_IPV6 w3) (concat chunks')) (w3\<lparr>w_sent := w_sent w3 @ [req']\<rparr>))"
    by (simp add: check_demo_http_check_def 1 2 w2_def [symmetric] 3(4) w3_def [symmetric] 4)
  then show thesis by (rule that) (simp_all add: a3 a2)
qed

lemma on_dnspod_run: "f (w_dn w, w_sent w) = (r, (dn, sent)) \<Longrightarrow> on_dnspod f w = (r, w\<lparr>w_dn := dn, w_sent := sent\<rparr>)"
  by (simp add: on_dnspod_def)

lemma update_family_answered:
  assumes "\<forall>sent req. e_curl env sent req \<noteq> Curl_init_failed"
  obtains w' new where "update_family env cfg t w = (Inr (), w')" "w_sent w' = w_sent w @ new"
    "valid_ipwan (family t w) \<and> ip_wan (family t w) = ip_local (family t w) \<and> records_for t (w_dn w) \<noteq> [] \<longrightarrow>
      (\<exists>req\<in>set new. api_call ''ModifyRecord''
        (record_modify_payload cfg (hd (records_for t (w_dn w))) (ip_local (family t w))) req)"
proof -
  let ?a = "family t w"
  let ?w = "set_family t (?a\<lparr>ip_ddns_modify := ip_local ?a\<rparr>) w"
  consider (no) "\<not> (valid_ipwan ?a \<and> ip_wan ?a = ip_local ?a)"
    | (none) "valid_ipwan ?a" "ip_wan ?a = ip_local ?a" "records_for t (w_dn w) = []"
    | (some) "valid_ipwan ?a" "ip_wan ?a = ip_local ?a" "records_for t (w_dn w) \<noteq> []" by blast
  then show thesis
  proof cases
    case no
    then have "update_family env cfg t w = (Inr (), set_family t ?a w)"
      by (auto simp: update_family_def match_wanip_with_localip_def)
    then show thesis by (rule that [of _ "[]"]) (use no in auto)
  next
    case none
    then have "update_family env cfg t w = (Inr (), ?w\<lparr>w_dn := w_dn w, w_sent := w_sent w\<rparr>)"
      by (simp add: update_family_def match_wanip_with_localip_def on_dnspod_def dnspod_record_modify_def)
    then show thesis by (rule that [of _ "[]"]) (use none in simp_all)
  next
    case some
    obtain req dn' ok chunks where post: "tencent_post env ''ModifyRecord''
        (record_modify_payload cfg (hd (records_for t (w_dn w))) (ip_local ?a)) (w_dn w, w_sent w) =
        (Inr (concat chunks), (dn', w_sent w @ [req]))"
      "api_call ''ModifyRecord'' (record_modify_payload cfg (hd (records_for t (w_dn w))) (ip_local ?a)) req"
      by (rule tencent_post_answered [OF assms, of "''ModifyRecord''"]) auto
    have "update_family env cfg t w = (Inr (), ?w\<lparr>w_dn := dn', w_sent := w_sent w @ [req]\<rparr>)"
      using some post(1)
      by (simp add: update_family_def match_wanip_with_localip_def on_dnspod_def dnspod_record_modify_def hd_conv_nth)
    then show thesis by (rule that [of _ "[req]"]) (use post(2) in simp_all)
  qed
qed

lemma main_updates:
  assumes coop: "cooperative env ip domains rs"
    and ne: "answer_records (own_name (main_config env)) ''A'' rs \<noteq> []"
  shows "fst (ddns_main env) = Inr 0 \<and> (\<exists>req\<in>set (w_sent (snd (ddns_main env))).
    api_call ''ModifyRecord'' (record_modify_payload (main_config env)
      (hd (answer_records (own_name (main_config env)) ''A'' rs)) ip) req)"
proof -
  let ?cfg = "main_config env"
  have init: "\<forall>sent req. e_curl env sent req \<noteq> Curl_init_failed" and sched: "\<And>sent. e_sched env sent = []"
    and dl: "\<And>dn u. fst (decode_domain_list ?cfg domains [] dn) \<noteq> Inl u"
    and plain: "\<forall>r\<in>set rs. plain_record r"
    using coop by (simp_all add: cooperative_def)
  obtain w0 where w0: "check_demo_http_check env ?cfg (initial_world ?cfg) = (Inr (), w0)"
    "valid_ipwan (family CLASS_IPV4 w0)" "ip_wan (family CLASS_IPV4 w0) = ip" "ip_local (family CLASS_IPV4 w0) = ip"
    by (rule check_demo_cooperative [OF coop])
  let ?dn0 = "new_dnspod (e_config env)"
  define w where "w = w0\<lparr>w_dn := ?dn0\<rparr>"
  obtain req1 dn1 ok1 ch1 where r1: "tencent_post env ''DescribeDomainList'' ''{}'' (w_dn w, w_sent w) =
      (Inr (concat ch1), (dn1, w_sent w @ [req1]))"
    "api_call ''DescribeDomainList'' ''{}'' req1" "e_curl env (w_sent w) req1 = Curl_performed ok1 ch1"
    "record_ipv4 dn1 = record_ipv4 (w_dn w)" "record_ipv6 dn1 = record_ipv6 (w_dn w)"
    by (rule tencent_post_answered [OF init, of "''DescribeDomainList''"]) auto
  have "concat ch1 = domains"
    using coop r1(2,3) unfolding cooperative_def api_call_def by blast
  obtain b1 dn2 where d1: "decode_domain_list ?cfg domains [] dn1 = (Inr b1, dn2)"
    using dl [of dn1] by (cases "decode_domain_list ?cfg domains [] dn1"; cases "fst (decode_domain_list ?cfg domains [] dn1)") auto
  have rec2: "record_ipv4 dn2 = []" 
    using decode_domain_list_records(1) [of ?cfg domains "[]" dn1] r1(4)
    by (simp add: d1 w_def new_dnspod_def split: prod.splits)
  define w1 where "w1 = w\<lparr>w_dn := dn2, w_sent := w_sent w @ [req1]\<rparr>"
  have s1: "on_dnspod (dnspod_domain_list env ?cfg) w = (Inr b1, w1)"
    by (simp add: on_dnspod_def dnspod_domain_list_def r1(1) sched \<open>concat ch1 = domains\<close> d1 w1_def)
  obtain req2 dn3 ok2 ch2 where r2: "tencent_post env ''DescribeRecordFilterList'' (record_list_filter_payload ?cfg)
      (w_dn w1, w_sent w1) = (Inr (concat ch2), (dn3, w_sent w1 @ [req2]))"
    "api_call ''DescribeRecordFilterList'' (record_list_filter_payload ?cfg) req2"
    "e_curl env (w_sent w1) req2 = Curl_performed ok2 ch2"
    "record_ipv4 dn3 = record_ipv4 (w_dn w1)"
    by (rule tencent_post_answered [OF init, of "''DescribeRecordFilterList''"]) auto
  have "concat ch2 = answer_text rs"
    using coop r2(2,3) unfolding cooperative_def api_call_def by blast
  define dn4 where "dn4 = snd (decode_record_list_filter ?cfg (answer_text rs) [] dn3)"
  have d2: "decode_record_list_filter ?cfg (answer_text rs) [] dn3 = (Inr True, dn4)"
    by (simp add: dn4_def decode_answer_text [OF plain])
  have rec4: "record_ipv4 dn4 = answer_records (own_name ?cfg) ''A'' rs"
    using r2(4) rec2 by (simp add: dn4_def decode_answer_text [OF plain] w1_def)
  define w2 where "w2 = w1\<lparr>w_dn := dn4, w_sent := w_sent w1 @ [req2]\<rparr>"
  have s2: "on_dnspod (dnspod_record_list_filter env ?cfg) w1 = (Inr True, w2)"
    by (simp add: on_dnspod_def dnspod_record_list_filter_def r2(1) sched \<open>concat ch2 = answer_text rs\<close> d2 w2_def)
  obtain dn5 new where d3: "record_delete_remain_one env ?cfg (w_dn w2, w_sent w2) = (Inr (), (dn5, w_sent w2 @ new))"
    "record_ipv4 dn5 = record_ipv4 (w_dn w2)"
    by (rule remain_one_answered [OF init]) auto
  define w3 where "w3 = w2\<lparr>w_dn := dn5, w_sent := w_sent w2 @ new\<rparr>"
  have s3: "on_dnspod (record_delete_remain_one env ?cfg) w2 = (Inr (), w3)"
    by (simp add: on_dnspod_def d3 w3_def)
  have rec5: "records_for CLASS_IPV4 (w_dn w3) = answer_records (own_name ?cfg) ''A'' rs"
    by (simp add: w3_def d3 w2_def rec4 records_for_def)
  have "family CLASS_IPV4 w3 = family CLASS_IPV4 w0" by (simp add: w3_def w2_def w1_def w_def)
  then obtain w4 new1 where s4: "update_family env ?cfg CLASS_IPV4 w3 = (Inr (), w4)" "w_sent w4 = w_sent w3 @ new1"
    "\<exists>req\<in>set new1. api_call ''ModifyRecord''
      (record_modify_payload ?cfg (hd (answer_records (own_name ?cfg) ''A'' rs)) ip) req"
    using update_family_answered [OF init, of ?cfg CLASS_IPV4 w3] w0 rec5 ne by auto
  obtain w5 new2 where s5: "update_family env ?cfg CLASS_IPV6 w4 = (Inr (), w5)" "w_sent w5 = w_sent w4 @ new2"
    using update_family_answered [OF init, of ?cfg CLASS_IPV6 w4] by blast
  have "ddns_main env = (Inr 0, w5)"
    by (simp add: ddns_main_def Let_def w0 w_def [symmetric] cloud_steps_def s1 s2 s3 s4(1) s5(1))
  then show ?thesis using s4 s5 by auto
qed

text \<open>A run with one public interface, whose address the service confirms, and one A record.\<close>

definition online_env :: env where
  "online_env = \<lparr>e_sha256 = (\<lambda>xs. []), e_hmac = (\<lambda>k m. []),
     e_curl = (\<lambda>sent req. Curl_performed True
       (if header_value ''X-TC-Action'' (req_headers req) = Some ''DescribeDomainList'' then [''{}'']
        else if header_value ''X-TC-Action'' (req_headers req) = Some ''DescribeRecordFilterList''
          then [answer_text [(''@'', ''A'', ''1.1.1.1'', 7)]]
        else [inet_ntop4 0xDF050505, [CHR 0x0A]])),
     e_time = (\<lambda>sent. 0), e_sched = (\<lambda>sent. []), e_config = ''domain_name=d'',
     e_ifaddrs = [\<lparr>ifa_name = ''eth0'', ifa_addr = Some (AF_INET 0xDF050505)\<rparr>]\<rparr>"

lemma online_config: "main_config online_env = \<lparr>domain_name = ''d'', domain_subname = [],
  domain_full = ''d'', check_ip_url_ipv4 = [], check_ip_url_ipv6 = []\<rparr>"
  by (simp add: main_config_def online_env_def file_config_read_def g_file_config_init_def
      config_line_def clean_line_def strip_cr_def strip_comment_def starts_with_def value_of_def Let_def)

lemma online_cooperative:
  "cooperative online_env (inet_ntop4 0xDF050505) ''{}'' [(''@'', ''A'', ''1.1.1.1'', 7)]"
proof -
  have "\<not> (is_get req \<and> header_value ''X-TC-Action'' (req_headers req) = Some x)" for req x
    by (auto simp: is_get_def header_value_def starts_with_def)
  then have e: "\<forall>sent req ok chunks. e_curl online_env sent req = Curl_performed ok chunks \<longrightarrow>
      (is_get req \<and> req_url req = c_str (check_ip_url_ipv4 (main_config online_env)) \<longrightarrow>
        (\<exists>e. concat chunks = inet_ntop4 0xDF050505 @ e \<and> set e \<subseteq> {LF, CR})) \<and>
      (header_value ''X-TC-Action'' (req_headers req) = Some ''DescribeDomainList'' \<longrightarrow> concat chunks = ''{}'') \<and>
      (header_value ''X-TC-Action'' (req_headers req) = Some ''DescribeRecordFilterList'' \<longrightarrow>
        concat chunks = answer_text [(''@'', ''A'', ''1.1.1.1'', 7)])"
    by (auto simp: online_env_def)
  have "Parse ''{}'' [] = POk (object_of []) [] []"
    using Parse_render_object [of "[]"] by (simp add: render_object_def)
  then have d: "fst (decode_domain_list cfg ''{}'' [] dn) \<noteq> Inl u" for cfg dn u
    by (simp add: decode_domain_list_def parse_response_def c_str_def object_of_def GetObjectItem_def)
  have p: "first_public CLASS_IPV4 (e_ifaddrs online_env) = Some (inet_ntop4 0xDF050505)"
    "\<forall>ifa\<in>set (e_ifaddrs online_env). well_formed_ifa ifa"
    by (simp_all add: online_env_def public_text_def private_ipv4_def range_ends_def well_formed_ifa_def)
  have r: "\<forall>r\<in>set [(''@'', ''A'', ''1.1.1.1'', 7)]. plain_record r"
    by (simp add: plain_record_def plain_text_def)
  have i: "\<forall>sent. e_sched online_env sent = []" "\<forall>sent req. e_curl online_env sent req \<noteq> Curl_init_failed"
    by (simp_all add: online_env_def)
  show ?thesis unfolding cooperative_def using e d p r i by blast
qed


theorem main_modifies_only_to_own_public_address_witness:
  "\<exists>req\<in>set (w_sent (snd (ddns_main online_env))). \<exists>t ip r.
    first_public t (e_ifaddrs online_env) = Some ip \<and> ip_wan (family t (snd (ddns_main online_env))) = ip \<and>
    rec_type r = type_name t \<and> req_body req = Some (c_str (record_modify_payload (main_config online_env) r ip))"
proof -
  have "answer_records (own_name (main_config online_env)) ''A'' [(''@'', ''A'', ''1.1.1.1'', 7)] \<noteq> []"
    by (simp add: answer_records_def own_name_def online_config)
  then obtain req where req: "req \<in> set (w_sent (snd (ddns_main online_env)))"
    "header_value ''X-TC-Action'' (req_headers req) = Some ''ModifyRecord''"
    using main_updates [OF online_cooperative] by (auto simp: api_call_def)
  have "\<forall>ifa\<in>set (e_ifaddrs online_env). well_formed_ifa ifa"
    by (simp add: online_env_def well_formed_ifa_def)
  from main_modifies_only_to_own_public_address [OF this req] req(1) show ?thesis by blast
qed

theorem main_requests_signed_witness:
  "\<exists>req\<in>set (w_sent (snd (ddns_main online_env))). tc3_accepts online_env
    (fst (file_security_config_read (e_config online_env) ([], [])))
    (snd (file_security_config_read (e_config online_env) ([], []))) req"
proof -
  have "answer_records (own_name (main_config online_env)) ''A'' [(''@'', ''A'', ''1.1.1.1'', 7)] \<noteq> []"
    by (simp add: answer_records_def own_name_def online_config)
  then obtain req where req: "req \<in> set (w_sent (snd (ddns_main online_env)))" "req_method req = ''POST''"
    using main_updates [OF online_cooperative] by (auto simp: api_call_def)
  have "\<forall>ifa\<in>set (e_ifaddrs online_env). well_formed_ifa ifa" "NUL \<notin> set (e_config online_env)"
    by (simp_all add: online_env_def well_formed_ifa_def)
  from main_requests_signed [OF this req] req(1) show ?thesis by blast
qed

end
