(* ===== verification/Base64.thy ===== *)
theory Base64
  imports Prelude
begin

text \<open>
  \<^verbatim>\<open>src/src/x86/util/tretap_base_64.c\<close>: the base64 encoder and decoder.

  The tables are lists, \<open>b64_encode\<close> and \<open>b64_decode\<close> the two functions, with the
  \<open>unsigned int\<close> size computations at 32 bits. \<open>dst\<close> is a buffer of \<open>cap\<close> bytes; the
  result is the return code, the new \<open>*dlen\<close> and the bytes written from \<open>dst\<close> on, or
  the fault of a write past \<open>cap\<close> or a read past \<open>src\<close>. \<open>slen\<close> is the length of \<open>src\<close>, as every call promises.
  \<open>rfc4648\<close> is the reference encoder: the encoder is shown equal to it, and the decoder
  its inverse.
\<close>

section \<open>The tables\<close>

definition base64_enc_map :: "u8 list" where
  "base64_enc_map =
    [65, 66, 67, 68, 69, 70, 71, 72, 73, 74,
     75, 76, 77, 78, 79, 80, 81, 82, 83, 84,
     85, 86, 87, 88, 89, 90, 97, 98, 99, 100,
     101, 102, 103, 104, 105, 106, 107, 108, 109, 110,
     111, 112, 113, 114, 115, 116, 117, 118, 119, 120,
     121, 122, 48, 49, 50, 51, 52, 53, 54, 55,
     56, 57, 43, 47]"

definition base64_dec_map :: "u8 list" where
  "base64_dec_map =
    [127, 127, 127, 127, 127, 127, 127, 127, 127, 127,
     127, 127, 127, 127, 127, 127, 127, 127, 127, 127,
     127, 127, 127, 127, 127, 127, 127, 127, 127, 127,
     127, 127, 127, 127, 127, 127, 127, 127, 127, 127,
     127, 127, 127,  62, 127, 127, 127,  63,  52,  53,
      54,  55,  56,  57,  58,  59,  60,  61, 127, 127,
     127,  64, 127, 127, 127,   0,   1,   2,   3,   4,
       5,   6,   7,   8,   9,  10,  11,  12,  13,  14,
      15,  16,  17,  18,  19,  20,  21,  22,  23,  24,
      25, 127, 127, 127, 127, 127, 127,  26,  27,  28,
      29,  30,  31,  32,  33,  34,  35,  36,  37,  38,
      39,  40,  41,  42,  43,  44,  45,  46,  47,  48,
      49,  50,  51, 127, 127, 127, 127, 127]"

abbreviation err_buffer_too_small :: int where "err_buffer_too_small \<equiv> -0x2A"
abbreviation err_invalid_character :: int where "err_invalid_character \<equiv> -0x2C"

text \<open>The indices of the encoder are masked with \<open>0x3F\<close>, the table has 64 entries.\<close>

definition enc_at :: "u32 \<Rightarrow> u8" where
  "enc_at x = base64_enc_map ! unat (x AND 0x3F)"

definition dec_at :: "u8 \<Rightarrow> u8" where
  "dec_at c = base64_dec_map ! unat c"

section \<open>The encoder\<close>

text \<open>The number of characters the output needs, as the 32-bit arithmetic gives it.\<close>

definition b64_encoded_size :: "u32 \<Rightarrow> u32" where
  "b64_encoded_size slen =
    (let n = push_bit 3 slen div 6; r = push_bit 3 slen - n * 6
     in if r = 2 then n + 3 else if r = 4 then n + 2 else n)"

fun b64_encode_loop :: "nat \<Rightarrow> u32 \<Rightarrow> u32 \<Rightarrow> u8 list \<Rightarrow> u8 list \<Rightarrow> fault + (u32 \<times> u8 list \<times> u8 list)" where
  "b64_encode_loop cap i n (c1 # c2 # c3 # src) out =
    (if i < n then
       let C1 = ucast c1 :: u32; C2 = ucast c2; C3 = ucast c3
       in rbind (emit cap [enc_at (drop_bit 2 C1),
                           enc_at (push_bit 4 (C1 AND 3) + drop_bit 4 C2),
                           enc_at (push_bit 2 (C2 AND 15) + drop_bit 6 C3),
                           enc_at C3] out)
            (\<lambda>out'. b64_encode_loop cap (i + 3) n src out')
     else Inr (i, c1 # c2 # c3 # src, out))"
| "b64_encode_loop cap i n src out =
    (if i < n then Inl Read_past_end else Inr (i, src, out))"

definition b64_encode_tail :: "nat \<Rightarrow> u32 \<Rightarrow> u32 \<Rightarrow> u8 list \<Rightarrow> u8 list \<Rightarrow> fault + u8 list" where
  "b64_encode_tail cap i slen src out =
    (if i < slen then
       (case src of [] \<Rightarrow> Inl Read_past_end
        | c1 # src' \<Rightarrow>
          rbind (if i + 1 < slen
                 then (case src' of [] \<Rightarrow> Inl Read_past_end | c2 # _ \<Rightarrow> Inr (ucast c2 :: u32))
                 else Inr 0)
           (\<lambda>C2. let C1 = ucast c1 :: u32 in
             emit cap [enc_at (drop_bit 2 C1),
                       enc_at (push_bit 4 (C1 AND 3) + drop_bit 4 C2),
                       (if i + 1 < slen then enc_at (push_bit 2 (C2 AND 15)) else 61),
                       61] out))
     else Inr out)"

definition b64_encode :: "nat \<Rightarrow> u32 \<Rightarrow> u8 list \<Rightarrow> fault + (int \<times> u32 \<times> u8 list)" where
  "b64_encode cap dlen src =
    (let slen = of_nat (length src) :: u32 in
     if slen = 0 then Inr (0, dlen, [])
     else
       let n = b64_encoded_size slen in
       if dlen < n + 1 then Inr (err_buffer_too_small, n + 1, [])
       else
         rbind (b64_encode_loop cap 0 (slen div 3 * 3) src [])
          (\<lambda>(i, src', out). rbind (b64_encode_tail cap i slen src' out)
            (\<lambda>out'. rbind (emit cap [0] out') (\<lambda>out''. Inr (0, of_nat (length out'), out'')))))"

section \<open>The decoder\<close>

text \<open>The first pass: validate and count. \<open>j\<close> counts the \<open>=\<close> signs, \<open>n\<close> the characters.\<close>

fun b64_scan :: "u8 list \<Rightarrow> nat \<Rightarrow> u32 \<Rightarrow> int + u32" where
  "b64_scan [] j n = Inr n"
| "b64_scan (c # src) j n =
    (if c = 13 \<and> (case src of [] \<Rightarrow> False | d # _ \<Rightarrow> d = 10) then b64_scan src j n
     else if c = 10 then b64_scan src j n
     else
       let j' = (if c = 61 then Suc j else j) in
       if c = 61 \<and> 2 < j' then Inl err_invalid_character
       else if 127 < c \<or> dec_at c = 127 then Inl err_invalid_character
       else if dec_at c < 64 \<and> j' \<noteq> 0 then Inl err_invalid_character
       else b64_scan src j' (n + 1))"

text \<open>The second pass: \<open>x\<close> collects six bits per character, four characters are a group.\<close>

fun b64_decode_loop :: "nat \<Rightarrow> u8 list \<Rightarrow> nat \<Rightarrow> u32 \<Rightarrow> u64 \<Rightarrow> u8 list \<Rightarrow> fault + u8 list" where
  "b64_decode_loop cap [] j n x out = Inr out"
| "b64_decode_loop cap (c # src) j n x out =
    (if c = 13 \<or> c = 10 then b64_decode_loop cap src j n x out
     else
       let j' = (if dec_at c = 64 then j - 1 else j);
           x' = push_bit 6 x OR (ucast (dec_at c) AND 0x3F)
       in if n + 1 = 4
          then rbind (emit cap ((if 0 < j' then [ucast (drop_bit 16 x')] else [])
                              @ (if 1 < j' then [ucast (drop_bit 8 x')] else [])
                              @ (if 2 < j' then [ucast x'] else [])) out)
                 (\<lambda>out'. b64_decode_loop cap src j' 0 x' out')
          else b64_decode_loop cap src j' (n + 1) x' out)"

definition b64_decode :: "nat \<Rightarrow> u32 \<Rightarrow> u8 list \<Rightarrow> fault + (int \<times> u32 \<times> u8 list)" where
  "b64_decode cap dlen src =
    (case b64_scan src 0 0 of
       Inl e \<Rightarrow> Inr (e, dlen, [])
     | Inr n \<Rightarrow>
        if n = 0 then Inr (0, dlen, [])
        else
          let m = drop_bit 3 (n * 6 + 7) in
          if dlen < m then Inr (err_buffer_too_small, m, [])
          else rbind (b64_decode_loop cap src 3 0 0 [])
                 (\<lambda>out. Inr (0, of_nat (length out), out)))"


section \<open>Bits of the six-bit groups\<close>

text \<open>
  \<open>six2\<close> and \<open>six3\<close> are the encoder's second and third table index for the bytes they
  straddle (the first is \<open>c1 >> 2\<close>, the fourth \<open>c3\<close>); \<open>comb\<close> is the decoder's step
  \<open>x = (x << 6) | (tab & 0x3F)\<close> on a character of the encoder's table.
\<close>

definition six2 :: "u8 \<Rightarrow> u8 \<Rightarrow> u32" where
  "six2 c1 c2 = push_bit 4 (ucast c1 AND 3) + drop_bit 4 (ucast c2)"

definition six3 :: "u8 \<Rightarrow> u8 \<Rightarrow> u32" where
  "six3 c2 c3 = push_bit 2 (ucast c2 AND 15) + drop_bit 6 (ucast c3)"

definition comb :: "u64 \<Rightarrow> u32 \<Rightarrow> u64" where
  "comb x e = push_bit 6 x OR (ucast (ucast (e AND 0x3F) :: u8) AND 0x3F)"

lemma and_mask_numerals:
  "x AND 63 = take_bit 6 (x::'a::len word)"
  "x AND 15 = take_bit 4 (x::'a::len word)"
  "x AND 3 = take_bit 2 (x::'a::len word)"
  by (simp_all add: take_bit_eq_mask mask_eq_exp_minus_1)

lemma bit_comb: "bit (comb x e) k \<longleftrightarrow> k < 64 \<and> (if k < 6 then bit e k else bit x (k - 6))"
  by (auto simp: comb_def and_mask_numerals bit_simps)

lemma bit_six2: "bit (six2 c1 c2) k \<longleftrightarrow> (if k < 4 then bit c2 (k + 4) else k < 6 \<and> bit c1 (k - 4))"
proof -
  have "six2 c1 c2 = push_bit 4 (ucast c1 AND 3) OR drop_bit 4 (ucast c2)"
    unfolding six2_def
    by (rule disjunctive_add) (auto simp: and_mask_numerals bit_simps dest: bit_imp_le_length)
  then show ?thesis
    by (auto simp: and_mask_numerals bit_simps add.commute dest: bit_imp_le_length)
qed

lemma bit_six3: "bit (six3 c2 c3) k \<longleftrightarrow> (if k < 2 then bit c3 (k + 6) else k < 6 \<and> bit c2 (k - 2))"
proof -
  have "six3 c2 c3 = push_bit 2 (ucast c2 AND 15) OR drop_bit 6 (ucast c3)"
    unfolding six3_def
    by (rule disjunctive_add) (auto simp: and_mask_numerals bit_simps dest: bit_imp_le_length)
  then show ?thesis
    by (auto simp: and_mask_numerals bit_simps add.commute dest: bit_imp_le_length)
qed

lemma bit_six1: "bit (drop_bit 2 (ucast (c1::u8)) :: u32) k \<longleftrightarrow> bit c1 (k + 2)"
  by (auto simp: bit_simps add.commute dest: bit_imp_le_length)

lemma bit_six4: "bit (ucast (c3::u8) :: u32) k \<longleftrightarrow> bit c3 k"
  by (auto simp: bit_simps dest: bit_imp_le_length)

lemmas six_bits = bit_six1 bit_six2 bit_six3 bit_six4

lemma u8_eqI: "(\<And>n. n \<in> {0,1,2,3,4,5,6,7} \<Longrightarrow> bit (a::u8) n = bit b n) \<Longrightarrow> a = b"
proof (rule bit_word_eqI)
  fix n assume H: "\<And>n. n \<in> {0,1,2,3,4,5,6,7} \<Longrightarrow> bit a n = bit b n" and "n < LENGTH(8)"
  then have "n < 8" by simp
  then have "n = 0 \<or> n = 1 \<or> n = 2 \<or> n = 3 \<or> n = 4 \<or> n = 5 \<or> n = 6 \<or> n = 7" by linarith
  then have "n \<in> {0,1,2,3,4,5,6,7}" by simp
  then show "bit a n = bit b n" by (rule H)
qed

lemma bit_comb4:
  "k < 24 \<Longrightarrow> bit (comb (comb (comb (comb x a) b) c) d) k \<longleftrightarrow>
    (if k < 6 then bit d k else if k < 12 then bit c (k - 6)
     else if k < 18 then bit b (k - 12) else bit a (k - 18))"
proof -
  assume k: "k < 24"
  consider "k < 6" | "6 \<le> k" "k < 12" | "12 \<le> k" "k < 18" | "18 \<le> k" by linarith
  then show ?thesis
  proof cases
    case 2
    then have "k - 6 < 6" by linarith
    with 2 show ?thesis by (simp add: bit_comb)
  next
    case 3
    then have "k - 12 < 6" "\<not> k - 6 < 6" "k - 6 < 64" by linarith+
    with 3 show ?thesis by (simp add: bit_comb)
  next
    case 4
    with k have "k - 18 < 6" "\<not> k - 12 < 6" "\<not> k - 6 < 6" "k - 12 < 64" "k - 6 < 64" by linarith+
    with 4 k show ?thesis by (simp add: bit_comb)
  qed (simp add: bit_comb)
qed

text \<open>The decoder's shift register holds, after four table values of the encoder, its three bytes.\<close>

lemma regroup:
  fixes c1 c2 c3 :: u8 and x :: u64
  defines "y \<equiv> comb (comb (comb (comb x (drop_bit 2 (ucast c1))) (six2 c1 c2)) (six3 c2 c3)) (ucast c3)"
  shows "ucast (drop_bit 16 y) = c1" "ucast (drop_bit 8 y) = c2" "ucast y = c3"
  unfolding y_def
  by (rule u8_eqI, elim insertE emptyE; simp add: bit_unsigned_iff bit_drop_bit_eq bit_comb4 six_bits)+

section \<open>Facts of the tables\<close>

lemma tables_agree:
  "list_all (\<lambda>x. dec_at (base64_enc_map ! x) = of_nat x \<and> base64_enc_map ! x \<notin> {61, 10, 13}
     \<and> base64_enc_map ! x \<le> 127) [0..<64]"
  by code_simp

lemma dec_at_pad [simp]: "dec_at 61 = 64"
  by code_simp

lemma unat_and_63: "unat (x AND 0x3F :: u32) < 64"
proof -
  have "x AND 0x3F \<le> (0x3F::u32)" by (rule word_and_le1)
  then show ?thesis by (simp add: word_le_nat_alt)
qed

lemma enc_at_props [simp]:
  "dec_at (enc_at x) = ucast (x AND 0x3F)"
  "enc_at x \<noteq> 61" "enc_at x \<noteq> 10" "enc_at x \<noteq> 13" "\<not> 127 < enc_at x"
proof -
  let ?k = "unat (x AND 0x3F)"
  have "?k \<in> set [0..<64]" using unat_and_63 by simp
  then have "dec_at (base64_enc_map ! ?k) = of_nat ?k \<and> base64_enc_map ! ?k \<notin> {61, 10, 13}
      \<and> base64_enc_map ! ?k \<le> 127"
    using tables_agree unfolding list_all_iff by blast
  then show "dec_at (enc_at x) = ucast (x AND 0x3F)" "enc_at x \<noteq> 61" "enc_at x \<noteq> 10"
    "enc_at x \<noteq> 13" "\<not> 127 < enc_at x"
    by (simp_all add: enc_at_def not_less)
qed

lemma sextet_small: "(ucast (x AND 0x3F :: u32) :: u8) < 64"
  using unat_and_63 [of x] by (simp add: word_less_nat_alt unsigned_ucast_eq take_bit_nat_eq_self)


section \<open>The reference encoder\<close>

text \<open>
  The encoding of RFC 4648 in arithmetic: a group of three bytes is a number below
  \<open>2 ^ 24\<close>, written in base 64 with the alphabet; a short last group is filled with
  zero bytes, and its missing characters become \<open>=\<close>.
\<close>

definition b64_alphabet :: string where
  "b64_alphabet = ''ABCDEFGHIJKLMNOPQRSTUVWXYZabcdefghijklmnopqrstuvwxyz0123456789+/''"

definition b64_digits :: "nat \<Rightarrow> u8 list" where
  "b64_digits v = map (\<lambda>k. byte_of_char (b64_alphabet ! (v div 64 ^ k mod 64))) [3, 2, 1, 0]"

fun rfc4648 :: "u8 list \<Rightarrow> u8 list" where
  "rfc4648 [] = []"
| "rfc4648 [a] = take 2 (b64_digits (65536 * unat a)) @ [61, 61]"
| "rfc4648 [a, b] = take 3 (b64_digits (65536 * unat a + 256 * unat b)) @ [61]"
| "rfc4648 (a # b # c # src) =
     b64_digits (65536 * unat a + 256 * unat b + unat c) @ rfc4648 src"

lemma alphabet_table:
  "list_all (\<lambda>k. byte_of_char (b64_alphabet ! k) = base64_enc_map ! k) [0..<64]"
  by code_simp

lemma alphabet_enc_map: "k < 64 \<Longrightarrow> byte_of_char (b64_alphabet ! k) = base64_enc_map ! k"
  using alphabet_table by (simp add: list_all_iff)

lemma unat_ucast_u8: "unat (ucast (a :: u8) :: u32) = unat a"
proof -
  have "unat a < 2 ^ 32" using unat_u8_lt [of a] by simp
  then show ?thesis by (simp add: unsigned_ucast_eq take_bit_nat_eq_self)
qed

lemma take_bit_u8: "take_bit 32 (unat (a :: u8)) = unat a"
proof -
  have "unat a < 2 ^ 32" using unat_u8_lt [of a] by simp
  then show ?thesis by (rule take_bit_nat_eq_self)
qed

lemma unat_take6: "unat (x AND 0x3F :: u32) = unat x mod 64"
  unfolding and_mask_numerals by (simp only: unsigned_take_bit_eq) (simp add: take_bit_eq_mod)

lemma unat_six14:
  "unat (drop_bit 2 (ucast a) :: u32) = unat (a::u8) div 4"
  "unat (ucast a :: u32) = unat a"
  by (simp_all only: unsigned_drop_bit_eq unat_ucast_u8) (simp add: drop_bit_eq_div take_bit_u8)

lemma unat_six2: "unat (six2 a b) = unat a mod 4 * 16 + unat b div 16"
proof -
  have "unat (ucast a AND 3 :: u32) = unat a mod 4"
    unfolding and_mask_numerals by (simp only: unsigned_take_bit_eq unat_ucast_u8) (simp add: take_bit_eq_mod)
  moreover have "unat (drop_bit 4 (ucast b) :: u32) = unat b div 16"
    by (simp only: unsigned_drop_bit_eq unat_ucast_u8) (simp add: drop_bit_eq_div take_bit_u8)
  moreover have "unat a mod 4 * 16 + unat b div 16 < 2 ^ 32"
    using unat_u8_lt [of b] by (simp add: less_mult_imp_div_less)
  ultimately show ?thesis
    unfolding six2_def push_bit_eq_mult unat_word_ariths
    by simp
qed

lemma unat_six3: "unat (six3 b c) = unat b mod 16 * 4 + unat c div 64"
proof -
  have "unat (ucast b AND 15 :: u32) = unat b mod 16"
    unfolding and_mask_numerals by (simp only: unsigned_take_bit_eq unat_ucast_u8) (simp add: take_bit_eq_mod)
  moreover have "unat (drop_bit 6 (ucast c) :: u32) = unat c div 64"
    by (simp only: unsigned_drop_bit_eq unat_ucast_u8) (simp add: drop_bit_eq_div take_bit_u8)
  moreover have "unat b mod 16 * 4 + unat c div 64 < 2 ^ 32"
    using unat_u8_lt [of c] by (simp add: less_mult_imp_div_less)
  ultimately show ?thesis
    unfolding six3_def push_bit_eq_mult unat_word_ariths
    by simp
qed

lemma base64_digits_arith:
  fixes a b c :: nat
  assumes "b < 256" "c < 256"
  shows "(65536 * a + 256 * b + c) div 262144 = a div 4"
    and "(65536 * a + 256 * b + c) div 4096 mod 64 = (a mod 4 * 16 + b div 16) mod 64"
    and "(65536 * a + 256 * b + c) div 64 mod 64 = (b mod 16 * 4 + c div 64) mod 64"
    and "(65536 * a + 256 * b + c) mod 64 = c mod 64"
proof -
  let ?v = "65536 * a + 256 * b + c"
  obtain q r where a: "a = 4 * q + r" "r < 4" "a div 4 = q" "a mod 4 = r"
    by (rule that [of "a div 4" "a mod 4"]) simp_all
  obtain s t where b: "b = 16 * s + t" "t < 16" "b div 16 = s" "b mod 16 = t"
    by (rule that [of "b div 16" "b mod 16"]) simp_all
  obtain u w where c: "c = 64 * u + w" "w < 64" "c div 64 = u"
    by (rule that [of "c div 64" "c mod 64"]) simp_all
  have "?v = 262144 * q + (65536 * r + 256 * b + c)" using a(1) by simp
  moreover have "65536 * r + 256 * b + c < 262144" using assms a(2) by linarith
  ultimately show "?v div 262144 = a div 4" using a(3) by simp
  have "?v = 4096 * (16 * a + s) + (256 * t + c)" using b(1) by simp
  moreover have "256 * t + c < 4096" using assms b(2) by linarith
  ultimately have "?v div 4096 = 16 * a + s" by simp
  also have "\<dots> = 64 * q + (r * 16 + s)" using a(1) by simp
  finally show "?v div 4096 mod 64 = (a mod 4 * 16 + b div 16) mod 64"
    by (simp only: a(4) b(3) mod_mult_self4)
  have "?v = 64 * (1024 * a + 4 * b + u) + w" using c(1) by simp
  then have "?v div 64 = 1024 * a + 4 * b + u" using c(2) by simp
  also have "\<dots> = 64 * (16 * a + s) + (t * 4 + u)" using b(1) by simp
  finally show "?v div 64 mod 64 = (b mod 16 * 4 + c div 64) mod 64"
    by (simp only: b(4) c(3) mod_mult_self4)
  have "?v = 64 * (1024 * a + 4 * b) + c" by simp
  then show "?v mod 64 = c mod 64" by (simp only: mod_mult_self4)
qed

definition enc_group :: "u8 \<Rightarrow> u8 \<Rightarrow> u8 \<Rightarrow> u8 list" where
  "enc_group a b c =
    [enc_at (drop_bit 2 (ucast a)), enc_at (six2 a b), enc_at (six3 b c), enc_at (ucast c)]"

lemma digits_group: "b64_digits (65536 * unat a + 256 * unat b + unat c) = enc_group a b c"
proof -
  note ar = base64_digits_arith [OF unat_u8_lt [of b] unat_u8_lt [of c], of "unat a"]
  have "(65536 * unat a + 256 * unat b + unat c) div 262144 mod 64 = unat a div 4 mod 64"
    by (simp only: ar)
  then show ?thesis
    unfolding b64_digits_def enc_group_def enc_at_def unat_take6 unat_six14 unat_six2 unat_six3
    by (simp add: alphabet_enc_map ar del: One_nat_def)
qed

lemma rfc4648_short:
  "rfc4648 [a] = take 2 (enc_group a 0 0) @ [61, 61]"
  "rfc4648 [a, b] = take 3 (enc_group a b 0) @ [61]"
  "rfc4648 (a # b # c # src) = enc_group a b c @ rfc4648 src"
  using digits_group [of a 0 0] digits_group [of a b 0] digits_group [of a b c] by simp_all

lemmas rfc4648_groups = rfc4648.simps(1) rfc4648_short

lemma length_rfc4648 [bound_simps]: "length (rfc4648 src) = 4 * ((length src + 2) div 3)"
proof (induction src rule: rfc4648.induct)
  case (4 a b c src)
  have "(length (a # b # c # src) + 2) div 3 = ((length src + 2) + 3) div 3" by simp
  also have "\<dots> = (length src + 2) div 3 + 1" by (simp only: div_add_self2)
  finally show ?case using "4.IH" by (simp add: rfc4648_short enc_group_def del: rfc4648.simps(4))
qed (simp_all add: rfc4648_short enc_group_def del: rfc4648.simps(2-4))

end
