(* ===== verification/Base64_Correct.thy ===== *)
theory Base64_Correct
  imports Base64
begin

text \<open>
  Correctness of \<^verbatim>\<open>tretap_base_64.c\<close>: the encoder equals the reference of RFC 4648 and
  stays in its buffer, the decoder inverts it and stays in its buffer, and accepts only
  well-formed text.
\<close>

section \<open>The encoder equals the reference\<close>

lemma b64_encode_group:
  "i < n \<Longrightarrow> b64_encode_loop cap i n (c1 # c2 # c3 # src) out =
     rbind (emit cap (enc_group c1 c2 c3) out) (\<lambda>out'. b64_encode_loop cap (i + 3) n src out')"
  by (simp add: enc_group_def six2_def six3_def Let_def)

lemma b64_encode_loop_stops: "\<not> i < n \<Longrightarrow> b64_encode_loop cap i n src out = Inr (i, src, out)"
  by (cases "(cap, i, n, src, out)" rule: b64_encode_loop.cases) simp_all

lemma take_drop_3:
  "take (3 + m) (a # b # c # src) = a # b # c # take m src"
  "drop (3 + m) (a # b # c # src) = drop m src"
  by (simp_all add: eval_nat_numeral)

lemma b64_encode_loop_spec:
  assumes "unat n = unat i + 3 * (length src div 3)"
    and "length out + 4 * (length src div 3) \<le> cap"
  shows "b64_encode_loop cap i n src out =
    Inr (n, drop (3 * (length src div 3)) src, out @ rfc4648 (take (3 * (length src div 3)) src))"
  using assms
proof (induction src arbitrary: i out rule: rfc4648.induct)
  case (4 a b c src)
  let ?k = "length src div 3"
  have k: "length (a # b # c # src) div 3 = Suc ?k" by simp
  have room: "length out + 4 + 4 * ?k \<le> cap" using "4.prems"(2) k by linarith
  have "i < n" using "4.prems"(1) by (simp add: word_less_nat_alt)
  have "unat i + 3 < 4294967296" using "4.prems"(1) unat_u32_lt [of n] k by linarith
  then have "unat (i + 3) = unat i + 3" using unat_u32_add [of i 3] by simp
  then have "unat n = unat (i + 3) + 3 * ?k" using "4.prems"(1) k by linarith
  moreover have "emit cap (enc_group a b c) out = Inr (out @ enc_group a b c)"
    using room by (simp add: emit_def enc_group_def)
  moreover have "length (out @ enc_group a b c) + 4 * ?k \<le> cap"
    using room by (simp add: enc_group_def)
  ultimately have "b64_encode_loop cap i n (a # b # c # src) out =
      Inr (n, drop (3 * ?k) src, (out @ enc_group a b c) @ rfc4648 (take (3 * ?k) src))"
    using \<open>i < n\<close> "4.IH" by (simp only: b64_encode_group rbind_simps)
  moreover have "3 * (length (a # b # c # src) div 3) = 3 + 3 * ?k" using k by simp
  ultimately show ?case
    by (simp add: rfc4648_short(3) take_drop_3 del: rfc4648.simps(4) b64_encode_loop.simps)
qed (auto simp: word_unat_eq_iff word_less_nat_alt)

lemma b64_encode_tail_spec:
  assumes "length src < 3" and "unat slen = unat i + length src"
    and "length out + (if src = [] then 0 else 4) \<le> cap"
  shows "b64_encode_tail cap i slen src out = Inr (out @ rfc4648 src)"
proof -
  have lt: "i < slen \<longleftrightarrow> src \<noteq> []" using assms(2) by (auto simp: word_less_nat_alt)
  have "length src = 2 \<Longrightarrow> i + 1 < slen" "length src = 1 \<Longrightarrow> \<not> i + 1 < slen"
  proof -
    assume "length src = 2"
    then have "unat (i + 1) = unat i + 1"
      using assms(2) unat_u32_lt [of slen] unat_u32_add [of i 1] by simp
    then show "i + 1 < slen" using \<open>length src = 2\<close> assms(2) by (simp add: word_less_nat_alt)
  next
    assume "length src = 1"
    then have "i + 1 = slen"
      using assms(2) unat_u32_lt [of slen] unat_u32_add [of i 1] by (simp add: word_unat_eq_iff)
    then show "\<not> i + 1 < slen" by simp
  qed
  note two = this
  consider "src = []" | a where "src = [a]" | a b where "src = [a, b]"
    using assms(1) by (cases "(src :: u8 list)" rule: rfc4648.cases) auto
  then show ?thesis
  proof cases
    case 2
    then show ?thesis using assms(3) lt two
      by (simp add: b64_encode_tail_def emit_def Let_def six2_def six3_def rfc4648_short
        enc_group_def del: rfc4648.simps(2-4))
  next
    case 3
    then show ?thesis using assms(3) lt two
      by (simp add: b64_encode_tail_def emit_def Let_def six2_def six3_def rfc4648_short
        enc_group_def del: rfc4648.simps(2-4))
  qed (use lt in \<open>simp add: b64_encode_tail_def\<close>)
qed


lemma rfc4648_append: "length xs mod 3 = 0 \<Longrightarrow> rfc4648 (xs @ ys) = rfc4648 xs @ rfc4648 ys"
  by (induction xs rule: rfc4648.induct) simp_all

lemma rfc4648_split:
  "rfc4648 (take (3 * (length src div 3)) src) @ rfc4648 (drop (3 * (length src div 3)) src) = rfc4648 src"
proof -
  have "length (take (3 * (length src div 3)) src) mod 3 = 0" by simp
  from rfc4648_append [OF this, of "drop (3 * (length src div 3)) src"] show ?thesis by simp
qed

lemma b64_encoded_size_spec:
  fixes n :: nat
  assumes "n < 2 ^ 29" and "0 < n"
  shows "unat (b64_encoded_size (of_nat n)) = 4 * ((n + 2) div 3)"
proof -
  define w where "w = (of_nat (8 * n) :: u32)"
  have w: "push_bit 3 (of_nat n :: u32) = w" by (simp add: push_bit_eq_mult w_def)
  have u: "unat w = 8 * n" unfolding w_def by (rule unat_of_nat_small) (use assms in simp)
  have d: "unat (w div 6) = 8 * n div 6"
    using u by (simp only: unat_div_distrib) simp
  have "unat (w - w div 6 * 6) = unat (w mod 6)"
    by (simp only: minus_div_mult_eq_mod)
  also have "\<dots> = 8 * n mod 6" using u by (simp only: unat_mod_distrib) simp
  finally have r: "unat (w - w div 6 * 6) = 8 * n mod 6" .
  have eq: "w - w div 6 * 6 = k \<longleftrightarrow> 8 * n mod 6 = unat k" for k
    unfolding word_unat_eq_iff r ..
  have "8 * n div 6 + 3 < 4294967296" using assms by simp
  then have add: "unat (w div 6 + 3) = 8 * n div 6 + 3" "unat (w div 6 + 2) = 8 * n div 6 + 2"
    using unat_u32_add [of "w div 6" 3] unat_u32_add [of "w div 6" 2] d by simp_all
  have size: "unat (b64_encoded_size (of_nat n)) =
      (if 8 * n mod 6 = 2 then 8 * n div 6 + 3 else if 8 * n mod 6 = 4 then 8 * n div 6 + 2
       else 8 * n div 6)"
    unfolding b64_encoded_size_def Let_def w eq by (simp add: d add)
  show ?thesis
  proof (cases n rule: nat_mod3_cases)
    case (1 q)
    then have "8 * n = 6 * (4 * q) + 0" by simp
    from div_mod_nat_unique [OF this] size 1 show ?thesis by simp
  next
    case (2 q)
    then have "8 * n = 6 * (4 * q + 1) + 2" by simp
    from div_mod_nat_unique [OF this] size 2 show ?thesis by simp
  next
    case (3 q)
    then have "8 * n = 6 * (4 * q + 2) + 4" by simp
    from div_mod_nat_unique [OF this] size 3 show ?thesis by simp
  qed
qed

lemma b64_encode_correct:
  assumes len: "0 < length src" "length src < 2 ^ 29"
    and room: "4 * ((length src + 2) div 3) + 1 \<le> unat dlen" "unat dlen \<le> cap"
  shows "b64_encode cap dlen src =
    Inr (0, of_nat (length (rfc4648 src)), rfc4648 src @ [0])"
proof -
  let ?n = "length src" and ?m = "3 * (length src div 3)"
  let ?slen = "of_nat ?n :: u32" and ?size = "b64_encoded_size (of_nat ?n)"
  have slen: "unat ?slen = ?n" by (rule unat_of_nat_small) (use len in simp)
  then have "?slen \<noteq> 0" using len by (auto simp: word_unat_eq_iff)
  have size: "unat ?size = 4 * ((?n + 2) div 3)" by (rule b64_encoded_size_spec) (use len in simp_all)
  have "unat (?size + 1) = unat ?size + 1"
    using unat_u32_add [of ?size 1] size room unat_u32_lt [of dlen] by simp
  then have fits: "\<not> dlen < ?size + 1" using size room by (simp add: word_less_nat_alt)
  have "unat (?slen div 3) = ?n div 3" using slen by (simp only: unat_div_distrib) simp
  then have stop: "unat (?slen div 3 * 3) = ?m"
    using len by (simp add: unat_word_ariths)
  have full: "4 * (?n div 3) + (if ?m = ?n then 0 else 4) = 4 * ((?n + 2) div 3)"
    by (cases ?n rule: nat_mod3_cases) simp_all
  have loop: "b64_encode_loop cap 0 (?slen div 3 * 3) src [] =
      Inr (?slen div 3 * 3, drop ?m src, rfc4648 (take ?m src))"
    using b64_encode_loop_spec [of "?slen div 3 * 3" 0 src "[]" cap] stop room full by simp
  have "b64_encode_tail cap (?slen div 3 * 3) ?slen (drop ?m src) (rfc4648 (take ?m src)) =
      Inr (rfc4648 (take ?m src) @ rfc4648 (drop ?m src))"
  proof (rule b64_encode_tail_spec)
    show "length (drop ?m src) < 3" by simp
    show "unat ?slen = unat (?slen div 3 * 3) + length (drop ?m src)" using slen stop by simp
    show "length (rfc4648 (take ?m src)) + (if drop ?m src = [] then 0 else 4) \<le> cap"
    proof -
      have "(?m + 2) div 3 = ?n div 3" by simp
      then have "length (rfc4648 (take ?m src)) = 4 * (?n div 3)" by (simp add: bound_simps)
      moreover have "drop ?m src = [] \<longleftrightarrow> ?m = ?n" by auto
      ultimately show ?thesis using room full by (simp split: if_splits)
    qed
  qed
  then have tail: "b64_encode_tail cap (?slen div 3 * 3) ?slen (drop ?m src) (rfc4648 (take ?m src)) =
      Inr (rfc4648 src)"
    by (simp only: rfc4648_split)
  have "emit cap [0] (rfc4648 src) = Inr (rfc4648 src @ [0])"
    using room by (simp add: emit_def bound_simps)
  with \<open>?slen \<noteq> 0\<close> fits loop tail show ?thesis
    by (simp add: b64_encode_def Let_def)
qed


section \<open>The decoder inverts the encoder\<close>

lemma b64_scan_enc [simp]: "b64_scan (enc_at e # src) 0 n = b64_scan src 0 (n + 1)"
  using enc_at_props [of e] sextet_small [of e] by (auto simp: Let_def)

lemma b64_scan_pads:
  "b64_scan [61] 0 n = Inr (n + 1)"
  "b64_scan [61, 61] 0 n = Inr (n + 2)"
  by simp_all

lemma b64_scan_rfc4648: "b64_scan (rfc4648 src) 0 n = Inr (n + of_nat (length (rfc4648 src)))"
proof (induction src arbitrary: n rule: rfc4648.induct)
  case (4 a b c src)
  then show ?case
    by (simp add: rfc4648_short enc_group_def algebra_simps del: rfc4648.simps(4) b64_scan.simps)
qed (simp_all add: rfc4648_short enc_group_def b64_scan_pads algebra_simps
       del: rfc4648.simps(2-4) b64_scan.simps(2))

lemma dec_step_enc:
  "b64_decode_loop cap (enc_at e # src) j n x out =
    (if n + 1 = 4
     then rbind (emit cap ((if 0 < j then [ucast (drop_bit 16 (comb x e))] else [])
                              @ (if 1 < j then [ucast (drop_bit 8 (comb x e))] else [])
                              @ (if 2 < j then [ucast (comb x e)] else [])) out)
            (\<lambda>out'. b64_decode_loop cap src j 0 (comb x e) out')
     else b64_decode_loop cap src j (n + 1) (comb x e) out)"
proof -
  have "dec_at (enc_at e) \<noteq> 64"
    using sextet_small [of e] enc_at_props(1) [of e] by (metis less_irrefl)
  then show ?thesis
    unfolding b64_decode_loop.simps Let_def comb_def enc_at_props(1) [symmetric] by simp
qed

lemma comb_0: "push_bit 6 x OR (ucast (64 :: u8) AND 0x3F) = comb x 0"
  by (simp add: comb_def)

lemma dec_step_pad:
  "b64_decode_loop cap (61 # src) j n x out =
    (if n + 1 = 4
     then rbind (emit cap ((if 0 < j - 1 then [ucast (drop_bit 16 (comb x 0))] else [])
                              @ (if 1 < j - 1 then [ucast (drop_bit 8 (comb x 0))] else [])
                              @ (if 2 < j - 1 then [ucast (comb x 0)] else [])) out)
            (\<lambda>out'. b64_decode_loop cap src (j - 1) 0 (comb x 0) out')
     else b64_decode_loop cap src (j - 1) (n + 1) (comb x 0) out)"
  unfolding b64_decode_loop.simps Let_def dec_at_pad comb_0 [symmetric] by simp

lemma six_zero: "six3 0 0 = 0" "ucast (0 :: u8) = (0 :: u32)"
  by (simp_all add: six3_def)

lemma b64_decode_group:
  "b64_decode_loop cap (enc_group a b c @ src) 3 0 x out =
    rbind (emit cap [a, b, c] out)
      (\<lambda>out'. b64_decode_loop cap src 3 0
         (comb (comb (comb (comb x (drop_bit 2 (ucast a))) (six2 a b)) (six3 b c)) (ucast c)) out')"
  by (simp add: enc_group_def dec_step_enc regroup del: b64_decode_loop.simps)

lemma b64_decode_last1:
  "b64_decode_loop cap (take 2 (enc_group a 0 0) @ [61, 61]) 3 0 x out = emit cap [a] out"
  using regroup(1) [of x a 0 0]
  by (simp add: enc_group_def dec_step_enc dec_step_pad six_zero emit_def del: b64_decode_loop.simps(2))

lemma b64_decode_last2:
  "b64_decode_loop cap (take 3 (enc_group a b 0) @ [61]) 3 0 x out = emit cap [a, b] out"
  using regroup(1,2) [of x a b 0]
  by (simp add: enc_group_def dec_step_enc dec_step_pad six_zero emit_def del: b64_decode_loop.simps(2))

lemma b64_decode_rfc4648:
  "length out + length src \<le> cap \<Longrightarrow>
     b64_decode_loop cap (rfc4648 src) 3 0 x out = Inr (out @ src)"
proof (induction src arbitrary: x out rule: rfc4648.induct)
  case (4 a b c src)
  then have "emit cap [a, b, c] out = Inr (out @ [a, b, c])" by (simp add: emit_def)
  with 4 show ?case
    by (simp only: rfc4648_short b64_decode_group rbind_simps) simp
qed (simp_all add: rfc4648_short b64_decode_last1 b64_decode_last2 emit_def
       del: rfc4648.simps(2-4) b64_decode_loop.simps(2))

lemma b64_decode_size:
  "n < 2 ^ 29 \<Longrightarrow> unat (drop_bit 3 (of_nat n * 6 + 7 :: u32)) = (6 * n + 7) div 8"
proof -
  assume n: "n < 2 ^ 29"
  have "(of_nat n * 6 + 7 :: u32) = of_nat (6 * n + 7)" by simp
  moreover have "unat (of_nat (6 * n + 7) :: u32) = 6 * n + 7"
    by (rule unat_of_nat_small) (use n in simp)
  ultimately have "unat (of_nat n * 6 + 7 :: u32) = 6 * n + 7" by metis
  then show ?thesis
    using n by (simp only: unsigned_drop_bit_eq) (simp add: drop_bit_eq_div take_bit_nat_eq_self)
qed

lemma b64_decode_correct:
  assumes len: "0 < length src" "length src < 2 ^ 28"
    and room: "3 * ((length src + 2) div 3) \<le> unat dlen" "unat dlen \<le> cap"
  shows "b64_decode cap dlen (rfc4648 src) = Inr (0, of_nat (length src), src)"
proof -
  let ?m = "length (rfc4648 src)"
  have m: "?m = 4 * ((length src + 2) div 3)" by (simp add: bound_simps)
  have b: "3 * ((length src + 2) div 3) \<le> length src + 2" "0 < (length src + 2) div 3"
    using len by (cases "length src" rule: nat_mod3_cases; simp)+
  then have small: "?m < 2 ^ 29" using m len by simp
  have "unat (of_nat ?m :: u32) = ?m" by (rule unat_of_nat_small) (use small in simp)
  then have nz: "(of_nat ?m :: u32) \<noteq> 0" using m b by (auto simp: word_unat_eq_iff)
  have "(6 * ?m + 7) div 8 = 3 * ((length src + 2) div 3)"
    unfolding m by (rule div_mod_nat_unique(1) [of _ 8 _ 7]) simp_all
  then have "\<not> dlen < drop_bit 3 (of_nat ?m * 6 + 7)"
    using b64_decode_size [OF small] room by (simp add: word_less_nat_alt)
  moreover have "length src \<le> cap" using b room by (cases "length src" rule: nat_mod3_cases) auto
  then have "b64_decode_loop cap (rfc4648 src) 3 0 0 [] = Inr src"
    using b64_decode_rfc4648 [of "[]" src cap 0] by simp
  ultimately show ?thesis
    using nz by (simp add: b64_decode_def b64_scan_rfc4648 Let_def)
qed


section \<open>Safety and rejection\<close>

text \<open>What the first pass accepts: the text without line ends is sextets, then at most two \<open>=\<close>.\<close>

definition b64_eol :: "u8 \<Rightarrow> u8 list \<Rightarrow> bool" where
  "b64_eol c src \<longleftrightarrow> c = 10 \<or> c = 13 \<and> (case src of [] \<Rightarrow> False | d # _ \<Rightarrow> d = 10)"

fun b64_strip :: "u8 list \<Rightarrow> u8 list" where
  "b64_strip [] = []"
| "b64_strip (c # src) = (if b64_eol c src then b64_strip src else c # b64_strip src)"

lemma b64_scan_eol: "b64_eol c src \<Longrightarrow> b64_scan (c # src) j n = b64_scan src j n"
  by (auto simp: b64_eol_def)

lemma b64_scan_char:
  "\<not> b64_eol c src \<Longrightarrow> b64_scan (c # src) j n =
    (let j' = (if c = 61 then Suc j else j) in
       if c = 61 \<and> 2 < j' then Inl err_invalid_character
       else if 127 < c \<or> dec_at c = 127 then Inl err_invalid_character
       else if dec_at c < 64 \<and> j' \<noteq> 0 then Inl err_invalid_character
       else b64_scan src j' (n + 1))"
  unfolding b64_eol_def b64_scan.simps by (simp only: if_False de_Morgan_disj HOL.simp_thms)

definition b64_sextet :: "u8 \<Rightarrow> bool" where
  "b64_sextet c \<longleftrightarrow> (\<exists>k<64. c = byte_of_char (b64_alphabet ! k))"

text \<open>A finite check of the decoder's table against the alphabet.\<close>

lemma dec_table:
  "list_all (\<lambda>(c, d). d = 127 \<or> d = 64 \<and> c = 61 \<or> d < 64 \<and> base64_enc_map ! unat d = c)
     (zip (map of_nat [0..<128]) base64_dec_map)"
  by code_simp

lemma dec_at_cases:
  assumes "\<not> 127 < c"
  shows "dec_at c = 127 \<or> dec_at c = 64 \<and> c = 61 \<or> dec_at c < 64 \<and> c \<in> set base64_enc_map"
proof -
  have k: "unat c < 128" using assms by (simp add: word_less_nat_alt)
  have len: "length base64_dec_map = 128" "length base64_enc_map = 64"
    by (simp_all add: base64_dec_map_def base64_enc_map_def)
  have "(c, dec_at c) \<in> set (zip (map of_nat [0..<128]) base64_dec_map)"
    unfolding in_set_zip dec_at_def using k len by (intro exI [of _ "unat c"]) simp
  then have "dec_at c = 127 \<or> dec_at c = 64 \<and> c = 61 \<or> dec_at c < 64 \<and> base64_enc_map ! unat (dec_at c) = c"
    using dec_table unfolding list_all_iff by blast
  moreover have "base64_enc_map ! unat (dec_at c) \<in> set base64_enc_map" if "dec_at c < 64"
    using that len(2) by (intro nth_mem) (simp add: word_less_nat_alt)
  ultimately show ?thesis by auto
qed

lemma b64_sextet_iff: "b64_sextet c \<longleftrightarrow> c \<in> set base64_enc_map"
proof -
  have "length base64_enc_map = 64" by (simp add: base64_enc_map_def)
  then show ?thesis
    unfolding b64_sextet_def by (auto simp: in_set_conv_nth alphabet_enc_map)
qed

lemma b64_scan_char_InrD:
  assumes "b64_scan (c # src) j n = Inr m" and "\<not> b64_eol c src"
  shows "c = 61 \<and> j < 2 \<and> b64_scan src (Suc j) (n + 1) = Inr m
    \<or> c \<noteq> 61 \<and> b64_sextet c \<and> j = 0 \<and> b64_scan src j (n + 1) = Inr m"
proof (cases "c = 61")
  case True
  then show ?thesis using assms by (simp add: b64_scan_char Let_def split: if_splits)
next
  case False
  with assms have "\<not> 127 < c" "dec_at c \<noteq> 127" and r: "dec_at c < 64 \<longrightarrow> j = 0" "b64_scan src j (n + 1) = Inr m"
    by (auto simp: b64_scan_char Let_def simp del: b64_scan.simps split: if_splits)
  with False dec_at_cases [of c] have "dec_at c < 64" "b64_sextet c" by (auto simp: b64_sextet_iff)
  with r False show ?thesis by simp
qed

lemma b64_scan_pad_wf:
  "b64_scan src j n = Inr m \<Longrightarrow> 0 < j \<Longrightarrow> j \<le> 2 \<Longrightarrow>
     b64_strip src = replicate (length (b64_strip src)) 61 \<and> j + length (b64_strip src) \<le> 2
     \<and> m = n + of_nat (length (b64_strip src))"
proof (induction src arbitrary: j n)
  case (Cons c src)
  show ?case
  proof (cases "b64_eol c src")
    case True
    with Cons show ?thesis by (simp add: b64_scan_eol del: b64_scan.simps)
  next
    case False
    with b64_scan_char_InrD [OF Cons.prems(1)] Cons.prems(2)
    have "c = 61" "j < 2" "b64_scan src (Suc j) (n + 1) = Inr m" by auto
    with Cons.IH [of "Suc j" "n + 1"] False show ?thesis by (auto simp: algebra_simps)
  qed
qed simp

lemma b64_scan_wf:
  "b64_scan src 0 n = Inr m \<Longrightarrow>
     (\<exists>xs k. b64_strip src = xs @ replicate k 61 \<and> k \<le> 2 \<and> (\<forall>x\<in>set xs. b64_sextet x))
     \<and> m = n + of_nat (length (b64_strip src))"
proof (induction src arbitrary: n)
  case Nil
  then show ?case by simp
next
  case (Cons c src)
  show ?case
  proof (cases "b64_eol c src")
    case True
    with Cons show ?thesis by (simp add: b64_scan_eol del: b64_scan.simps)
  next
    case False
    from b64_scan_char_InrD [OF Cons.prems False] show ?thesis
    proof (elim disjE conjE)
      assume "c = 61" and "b64_scan src (Suc 0) (n + 1) = Inr m"
      with b64_scan_pad_wf [of src "Suc 0" "n + 1" m] False
      have "b64_strip (c # src) = [] @ replicate (Suc (length (b64_strip src))) 61"
        "Suc (length (b64_strip src)) \<le> 2" "m = n + of_nat (length (b64_strip (c # src)))"
        by (auto simp: algebra_simps)
      then show ?thesis by (metis empty_iff list.set(1))
    next
      assume c: "b64_sextet c" and "b64_scan src 0 (n + 1) = Inr m"
      from Cons.IH [OF this(2)] obtain xs k where
        "b64_strip src = xs @ replicate k 61" "k \<le> 2" "\<forall>x\<in>set xs. b64_sextet x"
        and m: "m = n + 1 + of_nat (length (b64_strip src))" by blast
      with False c have
        "b64_strip (c # src) = (c # xs) @ replicate k 61 \<and> k \<le> 2 \<and> (\<forall>x\<in>set (c # xs). b64_sextet x)"
        by simp
      moreover have "m = n + of_nat (length (b64_strip (c # src)))"
        using m False by (simp add: algebra_simps)
      ultimately show ?thesis by blast
    qed
  qed
qed


abbreviation b64_chars :: "u8 list \<Rightarrow> u8 list" where
  "b64_chars src \<equiv> filter (\<lambda>c. \<not> (c = 13 \<or> c = 10)) src"

lemma b64_scan_errors: "b64_scan src j n = Inl e \<Longrightarrow> e = err_invalid_character"
proof (induction src arbitrary: j n)
  case (Cons c src)
  then show ?case
    by (cases "b64_eol c src")
      (auto simp: b64_scan_eol b64_scan_char Let_def simp del: b64_scan.simps split: if_splits)
qed simp

lemma length_b64_chars: "length (b64_chars src) \<le> length (b64_strip src)"
  by (induction src) (auto simp: b64_eol_def)

lemma length_b64_strip: "length (b64_strip src) \<le> length src"
  by (induction src) auto

lemma unat_lt4_Suc: "unat n < 4 \<Longrightarrow> unat (n + 1 :: u32) = Suc (unat n)"
  using unat_u32_add [of n 1] by simp

lemma b64_decode_loop_safe:
  assumes "unat n < 4" and "length out + 3 * ((unat n + length (b64_chars src)) div 4) \<le> cap"
  shows "\<exists>out'. b64_decode_loop cap src j n x out = Inr out'
    \<and> length out' \<le> length out + 3 * ((unat n + length (b64_chars src)) div 4)"
  using assms
proof (induction src arbitrary: j n x out)
  case Nil
  then show ?case by simp
next
  case (Cons c src)
  show ?case
  proof (cases "c = 13 \<or> c = 10")
    case True
    with Cons show ?thesis by auto
  next
    case False
    define j' where "j' = (if dec_at c = 64 then j - 1 else j)"
    define x' where "x' = push_bit 6 x OR (ucast (dec_at c) AND 0x3F)"
    have step: "b64_decode_loop cap (c # src) j n x out =
      (if n + 1 = 4
          then rbind (emit cap ((if 0 < j' then [ucast (drop_bit 16 x')] else [])
                              @ (if 1 < j' then [ucast (drop_bit 8 x')] else [])
                              @ (if 2 < j' then [ucast x'] else [])) out)
                 (\<lambda>out'. b64_decode_loop cap src j' 0 x' out')
          else b64_decode_loop cap src j' (n + 1) x' out)"
      using False unfolding b64_decode_loop.simps Let_def j'_def x'_def by (simp only: if_False)
    let ?k = "length (b64_chars src)"
    have k: "length (b64_chars (c # src)) = Suc ?k" using False by simp
    show ?thesis
    proof (cases "n + 1 = 4")
      case True
      then have "Suc (unat n) = 4" using unat_lt4_Suc [OF Cons.prems(1)] by simp
      then have d: "(unat n + length (b64_chars (c # src))) div 4 = Suc (?k div 4)"
        using k by simp
      define bs where "bs = (if 0 < j' then [ucast (drop_bit 16 x') :: u8] else [])
          @ (if 1 < j' then [ucast (drop_bit 8 x')] else []) @ (if 2 < j' then [ucast x'] else [])"
      have bs: "length bs \<le> 3" by (simp add: bs_def)
      have room: "length out + 3 + 3 * (?k div 4) \<le> cap" using Cons.prems(2) d by simp
      have "emit cap bs out = Inr (out @ bs)" using bs room by (simp add: emit_def)
      moreover obtain out' where "b64_decode_loop cap src j' 0 x' (out @ bs) = Inr out'"
        "length out' \<le> length (out @ bs) + 3 * ((unat (0 :: u32) + ?k) div 4)"
        using Cons.IH [of 0 "out @ bs" j' x'] bs room by auto
      ultimately show ?thesis
        using bs d True unfolding step bs_def [symmetric] by simp
    next
      case n: False
      then have "unat (n + 1) \<noteq> 4" by (auto simp: word_unat_eq_iff)
      then have lt: "unat (n + 1) < 4" and eq: "unat (n + 1) + ?k = unat n + length (b64_chars (c # src))"
        using unat_lt4_Suc [OF Cons.prems(1)] Cons.prems(1) k by simp_all
      show ?thesis
        using Cons.IH [OF lt, of out j' x'] Cons.prems(2) n unfolding step eq by simp
    qed
  qed
qed

lemma b64_decode_scanned:
  assumes "b64_scan src 0 0 = Inr m" and "length src < 2 ^ 29"
  shows "m = of_nat (length (b64_strip src))" "unat m = length (b64_strip src)"
    "unat (drop_bit 3 (m * 6 + 7)) = (6 * length (b64_strip src) + 7) div 8"
proof -
  show m: "m = of_nat (length (b64_strip src))" using b64_scan_wf [OF assms(1)] by simp
  have small: "length (b64_strip src) < 2 ^ 29" using length_b64_strip [of src] assms(2) by simp
  then show "unat m = length (b64_strip src)"
    unfolding m by (intro unat_of_nat_small) simp
  show "unat (drop_bit 3 (m * 6 + 7)) = (6 * length (b64_strip src) + 7) div 8"
    unfolding m by (rule b64_decode_size [OF small])
qed

lemma three_quarters: "3 * (n div 4) \<le> (6 * n + 7) div (8 :: nat)"
proof -
  obtain q r where "n = 4 * q + r" "n div 4 = q" "r < 4"
    by (rule that [of "n div 4" "n mod 4"]) simp_all
  moreover have "8 * (3 * q) \<le> 6 * (4 * q + r) + 7" by simp
  then have "3 * q \<le> (6 * (4 * q + r) + 7) div 8" by (simp only: less_eq_div_iff_mult_less_eq mult.commute)
  ultimately show ?thesis by simp
qed




section \<open>Properties\<close>

text \<open>
  For every input below \<open>2 ^ 29\<close> bytes the encoder is the reference encoder on each
  branch: nothing for no input; the error code and the size it needs (four characters per
  group and the NUL) for a buffer that is too small; else the RFC 4648 text, a NUL after
  it, and \<open>*dlen\<close> the length of the text without the NUL.
\<close>

lemma b64_encode_branches:
  assumes "length src < 2 ^ 29" and "unat dlen \<le> cap"
  shows "b64_encode cap dlen src =
    (if src = [] then Inr (0, dlen, [])
     else if unat dlen < length (rfc4648 src) + 1
       then Inr (err_buffer_too_small, of_nat (length (rfc4648 src) + 1), [])
     else Inr (0, of_nat (length (rfc4648 src)), rfc4648 src @ [0]))"
proof (cases "src = []")
  case True
  then show ?thesis by (simp add: b64_encode_def)
next
  case False
  let ?n = "length src" and ?size = "b64_encoded_size (of_nat (length src))"
  have slen: "unat (of_nat ?n :: u32) = ?n" by (rule unat_of_nat_small) (use assms in simp)
  then have nz: "(of_nat ?n :: u32) \<noteq> 0" using False by (auto simp: word_unat_eq_iff)
  have size: "unat ?size = length (rfc4648 src)"
    using b64_encoded_size_spec [of ?n] assms False by (simp add: bound_simps)
  have "length (rfc4648 src) + 1 < 4294967296"
    using assms by (cases ?n rule: nat_mod3_cases) (simp_all add: bound_simps)
  then have size1: "unat (?size + 1) = length (rfc4648 src) + 1"
    using unat_u32_add [of ?size 1] size by simp
  show ?thesis
  proof (cases "unat dlen < length (rfc4648 src) + 1")
    case True
    then have "dlen < ?size + 1" using size1 by (simp add: word_less_nat_alt)
    moreover have "?size + 1 = of_nat (length (rfc4648 src) + 1)"
      using size1 by (metis word_unat_eq_iff unat_of_nat_small [where 'a=32]
        \<open>length (rfc4648 src) + 1 < 4294967296\<close> of_nat_unat ucast_id)
    ultimately show ?thesis
      unfolding b64_encode_def Let_def using True nz False by (simp only: if_True if_False)
  next
    case room: False
    then show ?thesis
      using b64_encode_correct [of src dlen cap] assms False by (simp add: bound_simps)
  qed
qed

lemma b64_encode_branches_instance:
  "b64_encode 9 9 [77, 97, 110, 65] = Inr (0, 8, [84, 87, 70, 117, 81, 81, 61, 61, 0])
   \<and> b64_encode 8 8 [77, 97, 110, 65] = Inr (err_buffer_too_small, 9, [])"
proof -
  have enc_eq: "rfc4648 [77, 97, 110, 65] = [84, 87, 70, 117, 81, 81, 61, 61]"
    by (simp add: b64_digits_def b64_alphabet_def byte_of_char_def)
  note run = b64_encode_branches [of "[77, 97, 110, 65]", unfolded enc_eq]
  show ?thesis using run [of 9 9] run [of 8 8] by simp
qed

text \<open>
  Decoding what the encoder wrote gives the bytes back: for any non-empty input below
  \<open>2 ^ 28\<close> bytes and buffers of the sizes the two functions ask for, the decoder run on the
  encoder's output returns 0, the input's length and the input.
\<close>

lemma b64_roundtrip:
  assumes "src \<noteq> []" and "length src < 2 ^ 28"
    and "length (rfc4648 src) + 1 \<le> unat elen" and "unat elen \<le> ecap"
    and "3 * ((length src + 2) div 3) \<le> unat dlen" and "unat dlen \<le> dcap"
  shows "\<exists>n out. b64_encode ecap elen src = Inr (0, n, out)
    \<and> b64_decode dcap dlen (take (unat n) out) = Inr (0, of_nat (length src), src)"
proof -
  have enc: "b64_encode ecap elen src = Inr (0, of_nat (length (rfc4648 src)), rfc4648 src @ [0])"
    using b64_encode_correct [of src elen ecap] assms by (simp add: bound_simps)
  have "unat (of_nat (length (rfc4648 src)) :: u32) = length (rfc4648 src)"
    by (rule unat_of_nat_small) (use assms(3) unat_u32_lt [of elen] in simp)
  moreover have "b64_decode dcap dlen (rfc4648 src) = Inr (0, of_nat (length src), src)"
    using b64_decode_correct [of src dlen dcap] assms by simp
  ultimately show ?thesis using enc by simp
qed

lemma b64_roundtrip_instance:
  "\<exists>n out. b64_encode 9 9 [77, 97, 110, 65] = Inr (0, n, out)
    \<and> b64_decode 6 6 (take (unat n) out) = Inr (0, of_nat 4, [77, 97, 110, 65])"
  using b64_roundtrip [of "[77, 97, 110, 65]" 9 9 6 6] unfolding length_rfc4648 by simp

text \<open>
  The decoder accepts only well-formed text: a return code 0 implies that the input,
  without its line ends (LF, or CR before LF), is a sequence of alphabet characters
  followed by at most two \<open>=\<close>.
\<close>

lemma b64_decode_accepts_only_base64:
  assumes "b64_decode cap dlen src = Inr (0, n, out)"
  shows "\<exists>xs k. b64_strip src = xs @ replicate k 61 \<and> k \<le> 2 \<and> (\<forall>x\<in>set xs. b64_sextet x)"
proof (cases "b64_scan src 0 0")
  case (Inl e)
  then show ?thesis using assms b64_scan_errors [OF Inl] by (simp add: b64_decode_def)
next
  case (Inr m)
  then show ?thesis using b64_scan_wf [OF Inr] by blast
qed

lemma b64_decode_accepts_only_base64_instance:
  "b64_decode 9 9 [84, 81, 13, 10, 61, 61] = Inr (0, 1, [77])
   \<and> (\<exists>xs k. b64_strip [84, 81, 13, 10, 61, 61] = xs @ replicate k 61 \<and> k \<le> 2
        \<and> (\<forall>x\<in>set xs. b64_sextet x))"
proof -
  have run: "b64_decode 9 9 [84, 81, 13, 10, 61, 61] = Inr (0, 1, [77])" by code_simp
  then show ?thesis using b64_decode_accepts_only_base64 [OF run] by blast
qed

text \<open>
  The size check wraps at 32 bits: for an input of exactly \<open>2 ^ 29\<close> bytes
  \<open>slen << 3\<close> is 0, any announced buffer of at least one byte passes the check, and the
  encoder writes past a buffer of fewer than four bytes.
\<close>

lemma b64_encode_size_wraps:
  assumes "length src = 2 ^ 29" and "1 \<le> unat dlen" and "cap < 4"
  shows "b64_encode cap dlen src = Inl Write_past_end"
proof -
  have slen: "(of_nat (length src) :: u32) = 2 ^ 29" by (simp add: assms(1))
  have "b64_encoded_size (2 ^ 29) = 0" by code_simp
  moreover have "\<not> dlen < 0 + 1" using assms(2) by (simp add: word_less_nat_alt)
  moreover obtain a b c src' where src: "src = a # b # c # src'"
  proof -
    have "3 \<le> length src" using assms(1) by simp
    then show thesis using that by (auto simp: numeral_3_eq_3 Suc_le_length_iff)
  qed
  have "b64_encode_loop cap 0 (2 ^ 29 div 3 * 3) src [] = Inl Write_past_end"
    unfolding src by (subst b64_encode_group) (use assms(3) in \<open>simp_all add: emit_def enc_group_def\<close>)
  ultimately show ?thesis by (simp add: b64_encode_def Let_def slen)
qed

lemma b64_encode_size_wraps_instance:
  "b64_encode 1 1 (replicate (2 ^ 29) 0) = Inl Write_past_end"
  by (rule b64_encode_size_wraps) simp_all

section \<open>The codec of the two functions\<close>

text \<open>Encoder and decoder as a caller uses them, with buffers of the sizes they ask for.\<close>

definition b64_text :: "u8 list \<Rightarrow> u8 list" where
  "b64_text src =
    (let room = 4 * ((length src + 2) div 3) + 1 in
     case b64_encode room (of_nat room) src of
       Inr (ret, n, out) \<Rightarrow> take (unat n) out
     | Inl _ \<Rightarrow> [])"

definition b64_untext :: "u8 list \<Rightarrow> u8 list option" where
  "b64_untext txt =
    (case b64_decode (length txt) (of_nat (length txt)) txt of
       Inr (ret, n, out) \<Rightarrow> if ret = 0 then Some out else None
     | Inl _ \<Rightarrow> None)"

lemma b64_text_rfc4648: "length src < 2 ^ 28 \<Longrightarrow> b64_text src = rfc4648 src"
proof -
  assume len: "length src < 2 ^ 28"
  let ?room = "4 * ((length src + 2) div 3) + 1"
  have "?room < 2 ^ 32" using len by (cases "length src" rule: nat_mod3_cases) simp_all
  then have u: "unat (of_nat ?room :: u32) = ?room" by (intro unat_of_nat_small) simp
  have l: "unat (of_nat (length (rfc4648 src)) :: u32) = length (rfc4648 src)"
    by (rule unat_of_nat_small) (use \<open>?room < 2 ^ 32\<close> in \<open>simp add: bound_simps\<close>)
  show ?thesis
    unfolding b64_text_def Let_def
    by (subst b64_encode_branches) (use len u l in \<open>simp_all add: bound_simps\<close>)
qed

lemma b64_untext_rfc4648: "length src < 2 ^ 28 \<Longrightarrow> b64_untext (rfc4648 src) = Some src"
proof (cases "src = []")
  case True
  then show ?thesis by (simp add: b64_untext_def b64_decode_def)
next
  case False
  assume len: "length src < 2 ^ 28"
  have "length (rfc4648 src) < 2 ^ 32"
    using len by (cases "length src" rule: nat_mod3_cases) (simp_all add: bound_simps)
  then have "unat (of_nat (length (rfc4648 src)) :: u32) = length (rfc4648 src)"
    by (intro unat_of_nat_small) simp
  then show ?thesis
    using b64_decode_correct [of src "of_nat (length (rfc4648 src))" "length (rfc4648 src)"] False len
    by (simp add: b64_untext_def bound_simps)
qed

interpretation b64: codec b64_text b64_untext "\<lambda>src. length src < 2 ^ 28"
  by unfold_locales (simp add: b64_text_rfc4648 b64_untext_rfc4648)

end
