(* ===== verification/Cjson_Print.thy ===== *)
theory Cjson_Print
  imports Cjson
begin

text \<open>
  The printers of \<^verbatim>\<open>util/tretap_CJSON.c\<close> that build their text from allocated pieces, the case
  \<^verbatim>\<open>p == 0\<close> of \<^verbatim>\<open>print_number\<close>, \<^verbatim>\<open>print_string_ptr\<close>, \<^verbatim>\<open>print_value\<close>, \<^verbatim>\<open>print_array\<close> and
  \<^verbatim>\<open>print_object\<close>, with \<^verbatim>\<open>tretap_CJson_Print\<close> and \<^verbatim>\<open>tretap_CJson_PrintUnformatted\<close>.
  \<open>Cjson_Buffer\<close> has the other case.

  A printer returns the text or \<open>None\<close> for the null pointer, with the allocation schedule;
  every piece is written into the block the code allocates for it, through \<open>emit\<close>, so a size
  that is too small is a fault. Sizes are natural numbers: the model is of trees whose text has
  fewer than \<open>2 ^ 31\<close> bytes.
\<close>

section \<open>The conversions of \<^verbatim>\<open>sprintf\<close>\<close>

definition fmt_d :: "int \<Rightarrow> string" where
  "fmt_d i = (if i < 0 then CHR ''-'' # dec_str (nat (- i)) else dec_str (nat i))"

definition pad0 :: "nat \<Rightarrow> string \<Rightarrow> string" where
  "pad0 k s = replicate (k - length s) CHR ''0'' @ s"

definition fmt_sign :: "rat \<Rightarrow> string" where
  "fmt_sign r = (if r < 0 then ''-'' else [])"

definition fmt_0f :: "rat \<Rightarrow> string" where
  "fmt_0f r = fmt_sign r @ dec_str (nat (round_half_even \<bar>r\<bar>))"

definition fmt_f :: "rat \<Rightarrow> string" where
  "fmt_f r = (let n = nat (round_half_even (\<bar>r\<bar> * 10 ^ 6))
    in fmt_sign r @ dec_str (n div 10 ^ 6) @ ''.'' @ pad0 6 (dec_str (n mod 10 ^ 6)))"

definition floor_log10 :: "rat \<Rightarrow> int" where
  "floor_log10 x =
    (let (p, q) = quotient_of x; k = int (length (dec_str (nat p))) - int (length (dec_str (nat q)))
     in if 10 powi k \<le> x then k else k - 1)"

definition fmt_e :: "rat \<Rightarrow> string" where
  "fmt_e r =
    (let e = floor_log10 \<bar>r\<bar>;
         n = nat (round_half_even (\<bar>r\<bar> / 10 powi (e - 6)));
         (n, e) = (if n = 10 ^ 7 then (10 ^ 6, e + 1) else (n, e))
     in fmt_sign r @ dec_str (n div 10 ^ 6) @ ''.'' @ pad0 6 (dec_str (n mod 10 ^ 6)) @ ''e''
       @ (if e < 0 then ''-'' else ''+'') @ pad0 2 (dec_str (nat \<bar>e\<bar>)))"

text \<open>An operation of the x86 that yields a NaN yields the one with the sign bit set.\<close>

definition fmt_dbl :: "(rat \<Rightarrow> string) \<Rightarrow> dbl \<Rightarrow> string" where
  "fmt_dbl f d = (case d of Fin r \<Rightarrow> f r | Inf s \<Rightarrow> (if s then ''-inf'' else ''inf'') | NaN \<Rightarrow> ''-nan'')"

definition fmt_u04x :: "nat \<Rightarrow> string" where
  "fmt_u04x n = [CHR ''u'', CHR ''0'', CHR ''0'', ''0123456789abcdef'' ! (n div 16), ''0123456789abcdef'' ! (n mod 16)]"

section \<open>Numbers and strings\<close>

definition DBL_EPSILON :: dbl where
  "DBL_EPSILON = Fin (1 / 2 ^ 52)"

text \<open>The size of the block \<^verbatim>\<open>print_number\<close> asks for and the text it writes.\<close>

definition number_text :: "cjson \<Rightarrow> nat \<times> string" where
  "number_text item =
    (let d = valuedouble item in
     if d = Fin 0 then (2, ''0'')
     else if dle (dabs (dsub (Fin (of_int (valueint item))) d)) DBL_EPSILON
       \<and> dle d (Fin (of_int INT_MAX)) \<and> dle (Fin (of_int INT_MIN)) d
     then (21, fmt_d (valueint item))
     else (64,
       if dle (dabs (dsub (dfloor d) d)) DBL_EPSILON \<and> dlt (dabs d) (rnd (10 ^ 60))
       then fmt_dbl fmt_0f d
       else if dlt (dabs d) (rnd (1 / 10 ^ 6)) \<or> dlt (Fin (10 ^ 9)) (dabs d)
       then fmt_dbl fmt_e d
       else fmt_dbl fmt_f d))"

definition alloc_text :: "nat \<Rightarrow> string \<Rightarrow> sched \<Rightarrow> fault + (string option \<times> sched)" where
  "alloc_text n s m =
    (case ddns_mem_alloc n m of
       (False, m) \<Rightarrow> Inr (None, m)
     | (True, m) \<Rightarrow> rbind (emit n (s @ [NUL]) []) (\<lambda>_. Inr (Some s, m)))"

definition print_number :: "cjson \<Rightarrow> sched \<Rightarrow> fault + (string option \<times> sched)" where
  "print_number item m = (case number_text item of (n, s) \<Rightarrow> alloc_text n s m)"

text \<open>The three loops of \<^verbatim>\<open>print_string_ptr\<close>: is there something to escape, the length, the text.\<close>

definition needs_escape :: "char \<Rightarrow> bool" where
  "needs_escape c \<longleftrightarrow> (0 < (ord c :: nat) \<and> ord c < (32 :: nat)) \<or> c = CHR 0x22 \<or> c = CHR 0x5C"

fun escaped_len :: "string \<Rightarrow> nat" where
  "escaped_len [] = 0"
| "escaped_len (c # s) =
    (if c \<in> {CHR 0x22, CHR 0x5C, CHR 0x08, CHR 0x0C, CHR 0x0A, CHR 0x0D, CHR 0x09} then 2
     else if ord c < (32 :: nat) then 6 else 1) + escaped_len s"

definition escape_char :: "char \<Rightarrow> string" where
  "escape_char c =
    (if 31 < (ord c :: nat) \<and> c \<noteq> CHR 0x22 \<and> c \<noteq> CHR 0x5C then [c]
     else CHR 0x5C #
       (if c = CHR 0x5C then [CHR 0x5C]
        else if c = CHR 0x22 then [CHR 0x22]
        else if c = CHR 0x08 then ''b''
        else if c = CHR 0x0C then ''f''
        else if c = CHR 0x0A then ''n''
        else if c = CHR 0x0D then ''r''
        else if c = CHR 0x09 then ''t''
        else fmt_u04x (ord c)))"

fun escape_loop :: "string \<Rightarrow> string" where
  "escape_loop [] = []"
| "escape_loop (c # s) = escape_char c @ escape_loop s"

definition string_text :: "string \<Rightarrow> nat \<times> string" where
  "string_text str =
    (if \<not> list_ex needs_escape str then (length str + 3, CHR 0x22 # str @ [CHR 0x22])
     else (escaped_len str + 3, CHR 0x22 # escape_loop str @ [CHR 0x22]))"

text \<open>The first loop reads \<^verbatim>\<open>*ptr\<close> before the test for a null \<^verbatim>\<open>str\<close>.\<close>

definition print_string_ptr :: "string option \<Rightarrow> sched \<Rightarrow> fault + (string option \<times> sched)" where
  "print_string_ptr str m =
    (case str of None \<Rightarrow> Inl Null_deref | Some s \<Rightarrow> (case string_text s of (n, t) \<Rightarrow> alloc_text n t m))"

section \<open>Arrays and objects\<close>

abbreviation TAB :: char where "TAB \<equiv> CHR 0x09"
abbreviation NL :: char where "NL \<equiv> CHR 0x0A"

text \<open>\<open>gap\<close> is the white space of the formatted output, \<^verbatim>\<open>if (fmt) *ptr++ = w\<close>.\<close>

definition gap :: "bool \<Rightarrow> string \<Rightarrow> string" where
  "gap fmt w = (if fmt then w else [])"

text \<open>The sizes and the texts of a composed array and of a composed object.\<close>

definition array_len :: "bool \<Rightarrow> string list \<Rightarrow> nat" where
  "array_len fmt es = 5 + sum_list (map (\<lambda>e. length e + 2 + (if fmt then 1 else 0)) es)"

fun array_entries :: "bool \<Rightarrow> string list \<Rightarrow> string" where
  "array_entries fmt [] = []"
| "array_entries fmt (e # es) =
    e @ (if es = [] then [] else CHR '','' # gap fmt '' '') @ array_entries fmt es"

definition array_text :: "bool \<Rightarrow> string list \<Rightarrow> string" where
  "array_text fmt es = CHR ''['' # array_entries fmt es @ '']''"

definition object_len :: "bool \<Rightarrow> nat \<Rightarrow> (string \<times> string) list \<Rightarrow> nat" where
  "object_len fmt depth ps = 7 + (if fmt then depth else 0)
    + sum_list (map (\<lambda>(str, ret). length ret + length str + 2 + (if fmt then 2 + depth else 0)) ps)"

fun object_entries :: "bool \<Rightarrow> nat \<Rightarrow> (string \<times> string) list \<Rightarrow> string" where
  "object_entries fmt depth [] = []"
| "object_entries fmt depth ((str, ret) # ps) =
    gap fmt (replicate depth TAB) @ str @ CHR '':'' # gap fmt [TAB] @ ret
      @ (if ps = [] then [] else '','') @ gap fmt [NL] @ object_entries fmt depth ps"

definition object_text :: "bool \<Rightarrow> nat \<Rightarrow> (string \<times> string) list \<Rightarrow> string" where
  "object_text fmt depth ps =
    CHR ''{'' # gap fmt [NL] @ object_entries fmt depth ps
      @ gap fmt (replicate (depth - 1) TAB) @ ''}''"

definition empty_object_text :: "bool \<Rightarrow> nat \<Rightarrow> string" where
  "empty_object_text fmt depth = CHR ''{'' # gap fmt (NL # replicate (depth - 1) TAB) @ ''}''"

text \<open>
  \<open>loop\<close> is the loop over the children: it ends at the first null pointer for an array, it goes
  through all names and values for an object.
\<close>

definition print_array ::
  "(sched \<Rightarrow> fault + (string list option \<times> sched)) \<Rightarrow> nat \<Rightarrow> bool \<Rightarrow> sched \<Rightarrow> fault + (string option \<times> sched)" where
  "print_array loop numentries fmt m =
    (if numentries = 0 then alloc_text 3 ''[]'' m
     else case ddns_mem_alloc (numentries * 8) m of
       (False, m) \<Rightarrow> Inr (None, m)
     | (True, m) \<Rightarrow> rbind (loop m) (\<lambda>(entries, m).
         case entries of
           None \<Rightarrow> Inr (None, m)
         | Some es \<Rightarrow> alloc_text (array_len fmt es) (array_text fmt es) m))"

definition both_texts :: "string option \<Rightarrow> string option \<Rightarrow> (string \<times> string) option" where
  "both_texts str ret = (case (str, ret) of (Some s, Some r) \<Rightarrow> Some (s, r) | _ \<Rightarrow> None)"

definition print_object ::
  "(sched \<Rightarrow> fault + ((string \<times> string) option list \<times> sched)) \<Rightarrow> nat \<Rightarrow> nat \<Rightarrow> bool \<Rightarrow> sched
    \<Rightarrow> fault + (string option \<times> sched)" where
  "print_object loop numentries depth fmt m =
    (if numentries = 0 then alloc_text (if fmt then depth + 4 else 3) (empty_object_text fmt depth) m
     else case ddns_mem_alloc (numentries * 8) m of
       (False, m) \<Rightarrow> Inr (None, m)
     | (True, m) \<Rightarrow>
         (case ddns_mem_alloc (numentries * 8) m of
            (False, m) \<Rightarrow> Inr (None, m)
          | (True, m) \<Rightarrow> rbind (loop m) (\<lambda>(entries, m).
              if None \<in> set entries then Inr (None, m)
              else
                let ps = map the entries; depth = depth + 1 in
                alloc_text (object_len fmt depth ps) (object_text fmt depth ps) m)))"

fun print_value :: "cjson \<Rightarrow> nat \<Rightarrow> bool \<Rightarrow> sched \<Rightarrow> fault + (string option \<times> sched)"
  and print_elements :: "cjson list \<Rightarrow> nat \<Rightarrow> bool \<Rightarrow> sched \<Rightarrow> fault + (string list option \<times> sched)"
  and print_members ::
    "cjson list \<Rightarrow> nat \<Rightarrow> bool \<Rightarrow> sched \<Rightarrow> fault + ((string \<times> string) option list \<times> sched)" where
  "print_value (CJson ty vs vi vd nm cs) depth fmt m =
    (let t = ty AND 255 in
     if t = J_NULL then Inr (cjson_strdup ''null'' m)
     else if t = J_False then Inr (cjson_strdup ''false'' m)
     else if t = J_True then Inr (cjson_strdup ''true'' m)
     else if t = J_Number then print_number (CJson ty vs vi vd nm cs) m
     else if t = J_String then print_string_ptr vs m
     else if t = J_Array then print_array (\<lambda>m. print_elements cs (depth + 1) fmt m) (length cs) fmt m
     else if t = J_Object then print_object (\<lambda>m. print_members cs (depth + 1) fmt m) (length cs) depth fmt m
     else Inr (None, m))"
| "print_elements [] depth fmt m = Inr (Some [], m)"
| "print_elements (c # cs) depth fmt m =
    rbind (print_value c depth fmt m) (\<lambda>(ret, m).
      case ret of
        None \<Rightarrow> Inr (None, m)
      | Some e \<Rightarrow> rbind (print_elements cs depth fmt m) (\<lambda>(es, m).
          Inr (map_option ((#) e) es, m)))"
| "print_members [] depth fmt m = Inr ([], m)"
| "print_members (c # cs) depth fmt m =
    rbind (print_string_ptr (jstring c) m) (\<lambda>(str, m).
      rbind (print_value c depth fmt m) (\<lambda>(ret, m).
        rbind (print_members cs depth fmt m) (\<lambda>(ps, m). Inr (both_texts str ret # ps, m))))"

definition Print :: "cjson \<Rightarrow> sched \<Rightarrow> fault + (string option \<times> sched)" where
  "Print item m = print_value item 0 True m"

definition PrintUnformatted :: "cjson \<Rightarrow> sched \<Rightarrow> fault + (string option \<times> sched)" where
  "PrintUnformatted item m = print_value item 0 False m"

end
