(* ===== verification/Cjson_Print_Correct.thy ===== *)
theory Cjson_Print_Correct
  imports Cjson_Print Cjson_Values Cjson_Parse_Correct
begin

text \<open>
  The printers of \<open>Cjson_Print\<close> against the parser: \<open>render\<close> is the text of a tree, the printers
  write it or run out of memory, within their blocks, and the parser reads it back.
\<close>

section \<open>Escapes\<close>

lemma hex4_digit_nth: "k < 16 \<Longrightarrow> hex4_digit (''0123456789abcdef'' ! k) = Some (of_nat k)"
proof -
  have "list_all (\<lambda>k. hex4_digit (''0123456789abcdef'' ! k) = Some (of_nat k)) [0..<16]" by code_simp
  then show "k < 16 \<Longrightarrow> ?thesis" by (simp add: list_all_iff)
qed

lemma parse_hex4_Cons:
  assumes "hex4_digit a = Some w" "hex4_digit b = Some x" "hex4_digit c = Some y" "hex4_digit d = Some z"
  shows "parse_hex4 (a # b # c # d # t) =
    push_bit 4 (push_bit 4 (push_bit 4 w + x) + y) + z"
proof -
  have "(4 :: nat) = Suc (Suc (Suc (Suc 0)))" by simp
  then show ?thesis unfolding parse_hex4_def by (simp only: hex4_loop.simps c_at_simps assms option.case drop_Suc_Cons drop_0 One_nat_def push_bit_0_id) (simp add: push_bit_eq_mult)
qed

lemma parse_hex4_u04x:
  assumes "n < 256"
  shows "parse_hex4 (tl (fmt_u04x n) @ t) = of_nat n"
proof -
  let ?h = "''0123456789abcdef''"
  have d: "n div 16 < 16" using assms by simp
  have "hex4_digit (CHR ''0'') = Some 0" by code_simp
  from parse_hex4_Cons [OF this this hex4_digit_nth [OF d] hex4_digit_nth [of "n mod 16"], of t]
  have "parse_hex4 (tl (fmt_u04x n) @ t) = push_bit 4 (of_nat (n div 16)) + of_nat (n mod 16)"
    by (simp add: fmt_u04x_def del: nth_Cons_numeral)
  moreover have "(of_nat n :: u32) = of_nat (16 * (n div 16) + n mod 16)" by simp
  then have "(of_nat n :: u32) = 16 * of_nat (n div 16) + of_nat (n mod 16)"
    by (simp only: of_nat_add of_nat_mult of_nat_numeral)
  ultimately show ?thesis by (simp add: push_bit_eq_mult)
qed

lemma hex_digit_plain: "k < 16 \<Longrightarrow> ''0123456789abcdef'' ! k \<notin> {CHR 0x22, CHR 0x5C}"
proof -
  have "list_all (\<lambda>k. ''0123456789abcdef'' ! k \<notin> {CHR 0x22, CHR 0x5C}) [0..<16]" by code_simp
  then show "k < 16 \<Longrightarrow> ?thesis" by (simp add: list_all_iff del: nth_Cons_numeral)
qed

lemma utf8_ascii:
  assumes "0 < n" "n < 128"
  shows "utf8 (of_nat n) = [char_of n]"
proof -
  have u: "unat (of_nat n :: u32) = n" using assms by (simp add: unat_of_nat_small)
  then have "(of_nat n :: u32) < 0x80" using assms by (simp add: word_less_nat_alt)
  moreover have "unat (ucast (of_nat n :: u32) :: u8) = n"
    using assms u by (simp add: unsigned_ucast_eq take_bit_nat_eq_self)
  ultimately show ?thesis
    by (simp add: utf8_def utf8_len_def firstByteMark_def low_char_def char_of_byte_def)
qed

lemma escape_char_cases:
  obtains (plain) "escape_char c = [c]" "c \<noteq> CHR 0x22" "c \<noteq> CHR 0x5C"
  | (two) d where "escape_char c = [CHR 0x5C, d]" "simple_escape d = c" "d \<noteq> CHR ''u''"
  | (hex) "escape_char c = CHR 0x5C # fmt_u04x (ord c)" "ord c < (32 :: nat)"
proof -
  consider "c = CHR 0x5C" | "c = CHR 0x22" | "c = CHR 0x08" | "c = CHR 0x0C" | "c = CHR 0x0A" | "c = CHR 0x0D"
    | "c = CHR 0x09" | (other) "c \<notin> {CHR 0x22, CHR 0x5C, CHR 0x08, CHR 0x0C, CHR 0x0A, CHR 0x0D, CHR 0x09}"
    by blast
  then show thesis
  proof cases
    case other
    then show thesis
    proof (cases "31 < (ord c :: nat)")
      case True
      with other show thesis by (intro plain) (simp_all add: escape_char_def)
    next
      case False
      with other show thesis by (intro hex) (simp_all add: escape_char_def)
    qed
  qed (rule two, simp add: escape_char_def, simp_all add: simple_escape_def)+
qed

lemma unescape_one_hex:
  assumes "0 < n" and "n < 128" and "length out < cap"
  shows "unescape_one cap out (fmt_u04x n @ t) = Inr (out @ [char_of n], t)"
proof -
  define x y where "x = ''0123456789abcdef'' ! (n div 16)" and "y = ''0123456789abcdef'' ! (n mod 16)"
  have e: "fmt_u04x n @ t = CHR ''u'' # CHR ''0'' # CHR ''0'' # x # y # t"
    by (simp add: fmt_u04x_def x_def y_def)
  have p: "parse_hex4 (CHR ''0'' # CHR ''0'' # x # y # t) = of_nat n"
    using parse_hex4_u04x [of n t] assms(2) by (simp add: fmt_u04x_def x_def y_def)
  have n: "unat (of_nat n :: u32) = n" using assms(2) by (simp add: unat_of_nat_small)
  then have ne: "(of_nat n :: u32) \<noteq> 0" using assms(1) by (metis unat_0 less_irrefl)
  have lt: "\<not> 0xDC00 \<le> (of_nat n :: u32)" "\<not> 0xD800 \<le> (of_nat n :: u32)"
    using n assms(2) by (simp_all add: word_le_nat_alt)
  have "utf16_escape (fmt_u04x n @ t) = Inr (of_nat n, y # t)"
    using p ne lt unfolding utf16_escape_def Let_def e by (simp add: advance_def)
  then show ?thesis
    using utf8_ascii [OF assms(1,2)] ne assms(3)
    unfolding unescape_one_def unescape_switch_def e by (simp add: emit_def advance_def)
qed

lemma unescape_escape_char:
  assumes "c \<noteq> NUL" and "length out < cap"
  shows "unescape cap out (escape_char c @ t) = unescape cap (out @ [c]) t"
proof (cases c rule: escape_char_cases)
  case plain
  then show ?thesis using assms by (simp add: emit_def)
next
  case (two d)
  then have "unescape_one cap out (d # t) = Inr (out @ [c], t)"
    using assms(2) by (simp add: unescape_one_def unescape_switch_def emit_def advance_def)
  then show ?thesis by (simp add: two)
next
  case hex
  have "0 < (ord c :: nat)" using assms(1) ord_eq_0 [of c] by simp
  then have "unescape_one cap out (fmt_u04x (ord c) @ t) = Inr (out @ [c], t)"
    using unescape_one_hex [of "ord c"] hex(2) assms(2) by simp
  then show ?thesis by (simp add: hex(1))
qed

lemma unescape_escape_loop:
  assumes "NUL \<notin> set s" and "length out + length s \<le> cap"
  shows "unescape cap out (escape_loop s @ CHR 0x22 # t) = Inr (out @ s, CHR 0x22 # t)"
  using assms
proof (induction s arbitrary: out)
  case (Cons c s)
  then have "c \<noteq> NUL" "length out < cap" by auto
  with Cons show ?case using unescape_escape_char [of c out cap "escape_loop s @ CHR 0x22 # t"] by simp
qed simp

lemma string_len_escape_char:
  assumes "string_len t = Inr k"
  shows "\<exists>j. string_len (escape_char c @ t) = Inr j \<and> k < j"
proof (cases c rule: escape_char_cases)
  case hex
  define x y where "x = ''0123456789abcdef'' ! (ord c div 16)" and "y = ''0123456789abcdef'' ! (ord c mod 16)"
  have p: "x \<notin> {CHR 0x22, CHR 0x5C}" "y \<notin> {CHR 0x22, CHR 0x5C}"
    using hex(2) unfolding x_def y_def by (intro hex_digit_plain; simp)+
  have "escape_char c @ t = [CHR 0x5C, CHR ''u'', CHR ''0'', CHR ''0'', x, y] @ t"
    by (simp add: hex(1) fmt_u04x_def x_def y_def)
  then show ?thesis using p assms by simp
qed (use assms in auto)

lemma string_len_escape_loop:
  "\<exists>k. string_len (escape_loop s @ CHR 0x22 # t) = Inr k \<and> length s \<le> k"
proof (induction s)
  case (Cons c s)
  then obtain k where "string_len (escape_loop s @ CHR 0x22 # t) = Inr k" "length s \<le> k" by blast
  with string_len_escape_char [OF this(1), of c] show ?case by fastforce
qed simp

lemma escape_loop_plain: "NUL \<notin> set s \<Longrightarrow> \<not> list_ex needs_escape s \<Longrightarrow> escape_loop s = s"
proof (induction s)
  case (Cons c s)
  then have "31 < (ord c :: nat)" using ord_eq_0 [of c] by (auto simp: needs_escape_def)
  with Cons show ?case by (simp add: escape_char_def needs_escape_def)
qed simp

lemma string_text_quoted: "NUL \<notin> set s \<Longrightarrow> snd (string_text s) = CHR 0x22 # escape_loop s @ [CHR 0x22]"
  using escape_loop_plain [of s] by (simp add: string_text_def)

lemma parse_string_text:
  assumes "NUL \<notin> set s"
  shows "parse_string item (snd (string_text s) @ rest) [] =
    POk (set_jtype J_String (set_valuestring (Some s) item)) rest []"
proof -
  obtain k where k: "string_len (escape_loop s @ CHR 0x22 # rest) = Inr k" "length s \<le> k"
    using string_len_escape_loop by blast
  then have "unescape (k + 1) [] (escape_loop s @ CHR 0x22 # rest) = Inr (s, CHR 0x22 # rest)"
    using unescape_escape_loop [OF assms, of "[]" "k + 1" rest] by simp
  with k show ?thesis
    by (simp add: string_text_quoted [OF assms] parse_string_def ddns_mem_alloc_def emit_def)
qed

section \<open>Numbers\<close>

lemma parse_number_negative:
  assumes "0 < n" and "n \<le> 2 ^ 31" and "number_end rest"
  shows "parse_number item (CHR ''-'' # dec_str n @ rest) m =
    POk (set_jtype J_Number (set_valueint (- int n) (set_valuedouble (Fin (- of_nat n)) item))) rest m"
proof -
  have e: "number_exponent rest = Inr (0, rest)"
    using assms(3) by (auto simp: number_exponent_def number_end_def)
  have r: "rest = [] \<or> \<not> is_digit (hd rest)"
    using assms(3) by (cases rest) (auto simp: number_end_def)
  obtain d ds where d: "dec_str n = d # ds" "CHR ''1'' \<le> d" "d \<le> CHR ''9''" "is_digit d"
    using dec_str_split [OF assms(1)] by blast
  have "\<forall>c\<in>set (dec_str n). is_digit c" using dec_str_digits by blast
  moreover have v: "foldl (\<lambda>v c. 10 * v + digit_val c) 0 (dec_str n) = n"
    using dec_val_dec_str [of n] by (simp only: dec_val_def)
  ultimately obtain k where digits: "number_digits (Fin 0) 0 (dec_str n @ rest) = (Fin (of_nat n), k, rest)"
    using number_digits_exact [of "dec_str n" rest 0 0] r assms(2) by simp
  have "rnd (of_int (- int n)) = Fin (of_int (- int n))" by (rule rnd_of_int) (use assms(2) in simp)
  then have final: "dmul (dmul (Fin (- 1)) (Fin (of_nat n))) (dpow10 0) = Fin (- of_nat n)"
    by (simp add: dmul_def dpow10_0)
  have i: "dbl_to_int (Fin (- of_nat n)) = - int n"
    using assms(1,2) by (auto simp: dbl_to_int_def trunc_def ceiling_minus)
  have "d \<noteq> CHR ''0''" using d(2) by (auto simp: less_eq_char_def)
  then show ?thesis using d(1-3) digits final e i assms(3)
    by (simp add: parse_number_def Let_def number_end_def)
qed

lemma parse_number_fmt_d:
  assumes "INT_MIN \<le> i" and "i \<le> INT_MAX" and "number_end rest"
  shows "parse_number item (fmt_d i @ rest) m =
    POk (set_jtype J_Number (set_valueint i (set_valuedouble (Fin (of_int i)) item))) rest m"
proof (cases "i < 0")
  case True
  then have "of_nat (nat (- i)) = (of_int (- i) :: rat)" by simp
  then show ?thesis
    using True parse_number_negative [of "nat (- i)" rest item m] assms by (simp add: fmt_d_def)
next
  case False
  then have "of_nat (nat i) = (of_int i :: rat)" by simp
  then show ?thesis
    using False parse_number_value [of "nat i" rest item m] assms by (simp add: fmt_d_def)
qed

lemma number_text_int:
  assumes "INT_MIN \<le> i" and "i \<le> INT_MAX"
  shows "snd (number_text (CJson ty vs i (Fin (of_int i)) nm cs)) = fmt_d i"
proof -
  have "rnd 0 = Fin 0" by (simp add: rnd_def)
  moreover have "of_int i \<le> (of_int INT_MAX :: rat)" "of_int INT_MIN \<le> (of_int i :: rat)"
    using assms by (simp_all only: of_int_le_iff)
  ultimately show ?thesis
    by (auto simp: number_text_def fmt_d_def dec_str_0 dle_def dabs_def dsub_def dadd_def DBL_EPSILON_def Let_def)
qed

lemma fmt_d_head:
  obtains d ds where "fmt_d i = d # ds" "d = CHR ''-'' \<or> is_digit d"
proof (cases "i < 0")
  case True
  then show thesis by (intro that [of "CHR ''-''" "dec_str (nat (- i))"]) (simp_all add: fmt_d_def)
next
  case False
  obtain d ds where d: "dec_str (nat i) = d # ds" by (cases "dec_str (nat i)") auto
  then have "is_digit d" using dec_str_digits [of d "nat i"] by simp
  with d False show thesis by (intro that [of d ds]) (simp_all add: fmt_d_def)
qed

section \<open>The text of a tree\<close>

fun render :: "bool \<Rightarrow> nat \<Rightarrow> cjson \<Rightarrow> string" where
  "render fmt depth (CJson ty vs vi vd nm cs) =
    (let t = ty AND 255 in
     if t = J_NULL then ''null''
     else if t = J_False then ''false''
     else if t = J_True then ''true''
     else if t = J_Number then snd (number_text (CJson ty vs vi vd nm cs))
     else if t = J_String then snd (string_text (the vs))
     else if t = J_Array
       then (if cs = [] then ''[]'' else array_text fmt (map (\<lambda>c. render fmt (depth + 1) c) cs))
     else if cs = [] then empty_object_text fmt depth
     else object_text fmt (depth + 1)
       (map (\<lambda>c. (snd (string_text (the (jstring c))), render fmt (depth + 1) c)) cs))"

text \<open>The trees the parser builds: the nodes of a text whose numbers are integers of 32 bits.\<close>

definition leaf :: "nat \<Rightarrow> string option \<Rightarrow> int \<Rightarrow> string option \<Rightarrow> cjson" where
  "leaf ty vs i nm = CJson ty vs i (Fin (if ty = J_Number then of_int i else 0)) nm []"

definition plain_name :: "string option \<Rightarrow> bool" where
  "plain_name s \<longleftrightarrow> (case s of None \<Rightarrow> False | Some t \<Rightarrow> NUL \<notin> set t)"

fun parsed_form :: "cjson \<Rightarrow> bool" where
  "parsed_form (CJson ty vs vi vd nm cs) \<longleftrightarrow>
    (ty \<in> {J_Array, J_Object} \<and> vs = None \<and> vi = 0 \<and> vd = Fin 0 \<and>
       (\<forall>c\<in>set cs. parsed_form c \<and> (if ty = J_Array then jstring c = None else plain_name (jstring c)))) \<or>
    (cs = [] \<and>
      ((ty = J_NULL \<or> ty = J_False) \<and> vs = None \<and> vi = 0 \<and> vd = Fin 0 \<or>
       ty = J_True \<and> vs = None \<and> vi = 1 \<and> vd = Fin 0 \<or>
       ty = J_Number \<and> vs = None \<and> INT_MIN \<le> vi \<and> vi \<le> INT_MAX \<and> vd = Fin (of_int vi) \<or>
       ty = J_String \<and> plain_name vs \<and> vi = 0 \<and> vd = Fin 0))"

fun jdepth :: "cjson \<Rightarrow> nat" where
  "jdepth (CJson ty vs vi vd nm cs) = Suc (foldr max (map (\<lambda>c. jdepth c) cs) 0)"

lemma foldr_max_ge: "c \<in> set cs \<Longrightarrow> f c \<le> foldr max (map f cs) (0 :: nat)"
  by (induction cs) (auto simp: le_max_iff_disj)

definition solid :: "string \<Rightarrow> bool" where
  "solid t \<longleftrightarrow> t \<noteq> [] \<and> 32 < (ord (hd t) :: nat) \<and> hd t \<noteq> CHR '']''"

lemma skip_solid: "solid t \<Longrightarrow> skip (t @ s) = t @ s"
  by (cases t) (auto simp: solid_def skip_def)

lemma skip_white: "\<forall>c\<in>set w. ord c \<le> (32 :: nat) \<Longrightarrow> skip (w @ s) = skip s"
  by (induction w) (auto simp: skip_def)

section \<open>Reading a text back\<close>

definition reads :: "value_parser \<Rightarrow> string \<Rightarrow> cjson \<Rightarrow> bool" where
  "reads pv t c \<longleftrightarrow> solid t \<and> (\<forall>ty0 rest. number_end rest \<longrightarrow>
    pv (CJson ty0 None 0 (Fin 0) (jstring c) []) (t @ rest) [] = POk c rest [])"

lemma readsD:
  assumes "reads pv t c" and "number_end rest" and "jstring c = nm"
  shows "pv (CJson ty0 None 0 (Fin 0) nm []) (t @ rest) [] = POk c rest []"
  using assms by (auto simp: reads_def)

lemma number_end_simps [simp]:
  "number_end []" "number_end (CHR '','' # s)" "number_end (CHR '']'' # s)" "number_end (CHR ''}'' # s)"
  "number_end (NL # s)"
  by (simp_all add: number_end_def is_digit_ord)

lemma skip_marks [simp]:
  "skip (CHR '','' # s) = CHR '','' # s" "skip (CHR '']'' # s) = CHR '']'' # s"
  "skip (CHR ''}'' # s) = CHR ''}'' # s" "skip (CHR '':'' # s) = CHR '':'' # s" "skip (CHR 0x22 # s) = CHR 0x22 # s"
  "skip (NL # s) = skip s" "skip (TAB # s) = skip s" "skip (CHR '' '' # s) = skip s"
  by (simp_all add: skip_def)

lemma skip_tabs [simp]: "skip (replicate k TAB @ s) = skip s"
  by (rule skip_white) auto

lemma skip_gap [simp]: "\<forall>c\<in>set w. ord c \<le> (32 :: nat) \<Longrightarrow> skip (gap fmt w @ s) = skip s"
  by (simp add: gap_def skip_white)

lemma gap_Cons: "gap fmt (x # w) = gap fmt [x] @ gap fmt w"
  by (simp add: gap_def)

lemma array_entries_Cons:
  "array_entries fmt (e # es) = e @ concat (map (\<lambda>e. CHR '','' # gap fmt '' '' @ e) es)"
  by (induction es arbitrary: e) simp_all

lemma array_loop_reads:
  assumes "\<forall>c\<in>set cs. reads pv (r c) c \<and> jstring c = None" and "length cs < k"
  shows "array_loop pv k acc
      (concat (map (\<lambda>e. CHR '','' # gap fmt '' '' @ e) (map r cs)) @ CHR '']'' # rest) [] =
    POk (acc @ cs) (CHR '']'' # rest) []"
  using assms
proof (induction cs arbitrary: acc k)
  case Nil
  then show ?case by (cases k) auto
next
  case (Cons c cs)
  then obtain k' where k: "k = Suc k'" by (cases k) auto
  let ?rest = "concat (map (\<lambda>e. CHR '','' # gap fmt '' '' @ e) (map r cs)) @ CHR '']'' # rest"
  have c: "reads pv (r c) c" "jstring c = None" using Cons.prems by simp_all
  have e: "number_end ?rest" "skip ?rest = ?rest" by (cases cs; simp)+
  have s: "skip (gap fmt '' '' @ r c @ ?rest) = r c @ ?rest"
    using c(1) skip_solid [of "r c" ?rest] by (simp add: reads_def)
  have "pv blank_item (r c @ ?rest) [] = POk c ?rest []"
    unfolding blank_item_def using c e(1) by (intro readsD)
  moreover have "array_loop pv k' (acc @ [c]) ?rest [] = POk ((acc @ [c]) @ cs) (CHR '']'' # rest) []"
    using Cons.prems k by (intro Cons.IH) auto
  ultimately show ?case using s e by (simp add: k with_new_item_Nil)
qed

lemma length_array_tail: "length es \<le> length (concat (map (\<lambda>e. CHR '','' # w @ e) es))"
  by (induction es) auto

lemma parse_array_reads:
  assumes "\<forall>c\<in>set cs. reads pv (r c) c \<and> jstring c = None"
  shows "parse_array pv (CJson ty0 None 0 (Fin 0) nm [])
      ((if cs = [] then ''[]'' else array_text fmt (map r cs)) @ rest) [] =
    POk (CJson J_Array None 0 (Fin 0) nm cs) rest []"
proof (cases cs)
  case Nil
  then show ?thesis by (simp add: parse_array_def cjson_setters)
next
  case (Cons c ds)
  let ?rest = "concat (map (\<lambda>e. CHR '','' # gap fmt '' '' @ e) (map r ds)) @ CHR '']'' # rest"
  have c: "reads pv (r c) c" "jstring c = None" using assms Cons by simp_all
  then have sol: "solid (r c)" by (simp add: reads_def)
  then have s: "skip (r c @ ?rest) = r c @ ?rest" by (rule skip_solid)
  have ne: "c_at (r c @ ?rest) \<noteq> CHR '']''" using sol by (cases "r c") (auto simp: solid_def)
  have e: "number_end ?rest" "skip ?rest = ?rest" by (cases ds; simp)+
  have "pv blank_item (r c @ ?rest) [] = POk c ?rest []"
    unfolding blank_item_def using c e(1) by (intro readsD)
  moreover have "array_loop pv (Suc (length ?rest)) [c] ?rest [] = POk ([c] @ ds) (CHR '']'' # rest) []"
    using assms Cons length_array_tail [of "map r ds" "gap fmt '' ''"]
    by (intro array_loop_reads) (auto simp: le_imp_less_Suc trans_le_add1 trans_le_add2)
  ultimately have "parse_elements pv (r c @ ?rest) [] = POk cs (CHR '']'' # rest) []"
    using s e by (simp add: parse_elements_def with_new_item_Nil Cons del: array_loop.simps)
  then show ?thesis
    using s ne unfolding Cons list.map array_text_def array_entries_Cons parse_array_def
    by (simp add: cjson_setters)
qed

fun member_tail :: "bool \<Rightarrow> nat \<Rightarrow> (string \<times> string) list \<Rightarrow> string" where
  "member_tail fmt depth [] = gap fmt (NL # replicate (depth - 1) TAB) @ ''}''"
| "member_tail fmt depth ((s, r) # ps) =
    CHR '','' # gap fmt (NL # replicate depth TAB) @ s @ CHR '':'' # gap fmt [TAB]
      @ r @ member_tail fmt depth ps"

lemma object_entries_Cons:
  "object_entries fmt depth ((s, r) # ps) @ gap fmt (replicate (depth - 1) TAB) @ ''}'' =
    gap fmt (replicate depth TAB) @ s @ CHR '':'' # gap fmt [TAB] @ r
      @ member_tail fmt depth ps"
proof (induction ps arbitrary: s r)
  case (Cons p ps)
  obtain s' r' where p: "p = (s', r')" by (cases p)
  show ?case using Cons [of s' r'] gap_Cons [of fmt NL "replicate depth TAB"] by (auto simp: p)
qed (use gap_Cons [of fmt NL "replicate (depth - 1) TAB"] in simp)

lemma number_end_tail: "number_end (member_tail fmt depth ps @ rest)"
  by (cases ps; cases "hd ps") (auto simp: gap_def)

lemma length_member_tail: "length ps \<le> length (member_tail fmt depth ps)"
  by (induction ps) auto

lemma length_skip_tail: "length ps \<le> length (skip (member_tail fmt depth ps @ rest))"
  by (cases ps; cases "hd ps") (use length_member_tail [of "tl ps" fmt depth] in auto)

lemma parse_member_reads:
  assumes "reads pv t c" and "jstring c = Some n" and "NUL \<notin> set n" and "number_end rest"
  shows "parse_member pv blank_item (snd (string_text n) @ CHR '':'' # gap fmt [TAB] @ t @ rest) [] =
    POk c (skip rest) []"
proof -
  let ?s = "snd (string_text n)"
  have q: "?s = CHR 0x22 # tl ?s" by (simp add: string_text_quoted [OF assms(3)])
  then have s: "skip (?s @ u) = ?s @ u" for u by (metis append_Cons skip_marks(5))
  have p: "parse_string blank_item (?s @ u) [] = POk (CJson J_String (Some n) 0 (Fin 0) None []) u []" for u
    unfolding parse_string_text [OF assms(3)] by (simp add: cjson_setters)
  have t: "skip (gap fmt [TAB] @ t @ rest) = t @ rest"
    using assms(1) skip_solid [of t rest] by (simp add: reads_def)
  then show ?thesis
    using readsD [OF assms(1,4,2)] unfolding parse_member_def s p
    by (simp add: t set_jstring_def set_valuestring_def Let_def)
qed

lemma object_loop_reads:
  assumes "\<forall>c\<in>set cs. reads pv (r c) c \<and> (\<exists>n. jstring c = Some n \<and> NUL \<notin> set n)" and "length cs < k"
  shows "object_loop pv k acc
      (skip (member_tail fmt depth (map (\<lambda>c. (snd (string_text (the (jstring c))), r c)) cs) @ rest)) [] =
    POk (acc @ cs) (CHR ''}'' # rest) []"
  using assms
proof (induction cs arbitrary: acc k)
  case Nil
  then show ?case by (cases k) auto
next
  case (Cons c cs)
  then obtain k' where k: "k = Suc k'" by (cases k) auto
  let ?ps = "map (\<lambda>c. (snd (string_text (the (jstring c))), r c)) cs"
  obtain n where n: "jstring c = Some n" "NUL \<notin> set n" using Cons.prems by auto
  have c: "reads pv (r c) c" using Cons.prems by simp
  have "parse_member pv blank_item (snd (string_text n) @ CHR '':'' # gap fmt [TAB] @ r c
      @ (member_tail fmt depth ?ps @ rest)) [] = POk c (skip (member_tail fmt depth ?ps @ rest)) []"
    by (rule parse_member_reads [OF c n number_end_tail])
  then have "parse_member pv blank_item (gap fmt (NL # replicate depth TAB) @ snd (string_text n)
      @ CHR '':'' # gap fmt [TAB] @ r c @ member_tail fmt depth ?ps @ rest) [] =
      POk c (skip (member_tail fmt depth ?ps @ rest)) []"
    by (simp add: parse_member_def)
  moreover have "object_loop pv k' (acc @ [c]) (skip (member_tail fmt depth ?ps @ rest)) [] =
      POk ((acc @ [c]) @ cs) (CHR ''}'' # rest) []"
    using Cons.prems k by (intro Cons.IH) auto
  ultimately show ?case by (simp add: k n with_new_item_Nil)
qed

lemma quote_head: "t = CHR 0x22 # u \<Longrightarrow> skip t = t" "t = CHR 0x22 # u \<Longrightarrow> c_at t = CHR 0x22"
  by simp_all

lemma parse_object_reads:
  assumes "\<forall>c\<in>set cs. reads pv (r c) c \<and> (\<exists>n. jstring c = Some n \<and> NUL \<notin> set n)"
  shows "parse_object pv (CJson ty0 None 0 (Fin 0) nm [])
      ((if cs = [] then empty_object_text fmt depth else object_text fmt (depth + 1)
         (map (\<lambda>c. (snd (string_text (the (jstring c))), r c)) cs)) @ rest) [] =
    POk (CJson J_Object None 0 (Fin 0) nm cs) rest []"
proof (cases cs)
  case Nil
  then show ?thesis by (auto simp: parse_object_def empty_object_text_def cjson_setters)
next
  case (Cons c ds)
  let ?ps = "map (\<lambda>c. (snd (string_text (the (jstring c))), r c)) ds"
  obtain n where n: "jstring c = Some n" "NUL \<notin> set n" using assms Cons by auto
  have c: "reads pv (r c) c" using assms Cons by simp
  let ?rest = "member_tail fmt (depth + 1) ?ps @ rest"
  let ?body = "snd (string_text n) @ CHR '':'' # gap fmt [TAB] @ r c @ ?rest"
  have m: "parse_member pv blank_item ?body [] = POk c (skip ?rest) []"
    by (rule parse_member_reads [OF c n number_end_tail])
  have "length ds < Suc (length (skip ?rest))" using length_skip_tail [of ?ps fmt "depth + 1" rest] by simp
  then have "object_loop pv (Suc (length (skip ?rest))) [c] (skip ?rest) [] = POk ([c] @ ds) (CHR ''}'' # rest) []"
    using assms Cons by (intro object_loop_reads) simp_all
  with m have p: "parse_members pv ?body [] = POk cs (CHR ''}'' # rest) []"
    by (simp add: parse_members_def with_new_item_Nil Cons del: object_loop.simps)
  have t: "object_text fmt (depth + 1) ((snd (string_text n), r c) # ?ps) @ rest =
      CHR ''{'' # gap fmt (NL # replicate (depth + 1) TAB) @ ?body"
    using object_entries_Cons [of fmt "depth + 1" "snd (string_text n)" "r c" ?ps]
    by (simp add: object_text_def gap_Cons [of fmt NL "replicate (Suc depth) TAB"] del: object_entries.simps replicate_Suc)
  have "?body = CHR 0x22 # tl ?body" by (simp add: string_text_quoted [OF n(2)])
  then have s: "skip ?body = ?body" "c_at ?body = CHR 0x22" by (rule quote_head)+
  have "skip (gap fmt (NL # replicate (depth + 1) TAB) @ ?body) = ?body"
    by (subst skip_gap) (simp, rule s(1))
  then show ?thesis
    using p s(2) t by (simp add: parse_object_def Cons n cjson_setters del: object_entries.simps replicate_Suc)
qed

lemma render_simps:
  "render fmt d (CJson J_NULL vs vi vd nm cs) = ''null''"
  "render fmt d (CJson J_False vs vi vd nm cs) = ''false''"
  "render fmt d (CJson J_True vs vi vd nm cs) = ''true''"
  "render fmt d (CJson J_Number vs vi vd nm cs) = snd (number_text (CJson J_Number vs vi vd nm cs))"
  "render fmt d (CJson J_String vs vi vd nm cs) = snd (string_text (the vs))"
  "render fmt d (CJson J_Array vs vi vd nm cs) =
    (if cs = [] then ''[]'' else array_text fmt (map (render fmt (d + 1)) cs))"
  "render fmt d (CJson J_Object vs vi vd nm cs) =
    (if cs = [] then empty_object_text fmt d
     else object_text fmt (d + 1) (map (\<lambda>c. (snd (string_text (the (jstring c))), render fmt (d + 1) c)) cs))"
  by (simp_all add: Let_def)

lemma solidI: "32 < (ord c :: nat) \<Longrightarrow> c \<noteq> CHR '']'' \<Longrightarrow> solid (c # t)"
  by (simp add: solid_def)

lemma parse_value_string:
  "t = CHR 0x22 # u \<Longrightarrow> parse_value (Suc n) item (t @ rest) m = parse_string item (t @ rest) m"
  by simp

lemma parse_value_array:
  "t = CHR ''['' # u \<Longrightarrow> parse_value (Suc n) item (t @ rest) m = parse_array (parse_value n) item (t @ rest) m"
  by (simp add: is_digit_ord)

lemma parse_value_brace:
  "t = CHR ''{'' # u \<Longrightarrow> parse_value (Suc n) item (t @ rest) m = parse_object (parse_value n) item (t @ rest) m"
  by (simp add: is_digit_ord)

lemma parse_value_number:
  assumes "d = CHR ''-'' \<or> is_digit d"
  shows "parse_value (Suc n) item (d # t) m = parse_number item (d # t) m"
proof -
  have "d \<notin> {CHR ''n'', CHR ''f'', CHR ''t'', CHR 0x22}" using assms by (auto simp: is_digit_ord)
  then show ?thesis using assms by simp
qed

lemma reads_render:
  assumes "parsed_form c" and "jdepth c \<le> n"
  shows "reads (parse_value n) (render fmt d c) c"
  using assms
proof (induction c arbitrary: n d)
  case (CJson ty vs vi vd nm cs)
  then obtain k where k: "n = Suc k" by (cases n) auto
  have IH: "reads (parse_value k) (render fmt (d + 1) c) c" if "c \<in> set cs" for c
  proof (rule CJson.IH [OF that])
    show "parsed_form c" using CJson.prems(1) that by auto
    have "jdepth c \<le> foldr max (map jdepth cs) 0" by (rule foldr_max_ge [OF that])
    then show "jdepth c \<le> k" using CJson.prems(2) k by simp
  qed
  consider (null) "ty = J_NULL" | (false) "ty = J_False" | (true) "ty = J_True" | (number) "ty = J_Number"
    | (str) "ty = J_String" | (array) "ty = J_Array" | (object) "ty = J_Object"
    using CJson.prems(1) by auto
  then show ?case
  proof cases
    case number
    then have p: "vs = None" "cs = []" "vd = Fin (of_int vi)" "INT_MIN \<le> vi" "vi \<le> INT_MAX" using CJson.prems(1) by auto
    obtain x xs where x: "fmt_d vi = x # xs" "x = CHR ''-'' \<or> is_digit x" by (rule fmt_d_head)
    have "solid (fmt_d vi)" unfolding x(1) by (rule solidI) (use x(2) in \<open>auto simp: is_digit_ord\<close>)
    moreover have "parse_value n item (fmt_d vi @ rest) [] =
        POk (set_jtype J_Number (set_valueint vi (set_valuedouble (Fin (of_int vi)) item))) rest []"
      if "number_end rest" for item rest
      using parse_number_fmt_d [OF p(4,5) that, of item "[]"] parse_value_number [OF x(2), of k item "xs @ rest" "[]"]
      by (simp add: k x(1) del: parse_value.simps)
    ultimately show ?thesis
      by (simp add: reads_def number p number_text_int cjson_setters render_simps del: render.simps parse_value.simps)
  next
    case str
    then obtain s where p: "vs = Some s" "NUL \<notin> set s" "cs = []" "vi = 0" "vd = Fin 0"
      using CJson.prems(1) by (auto simp: plain_name_def split: option.splits)
    have q: "snd (string_text s) = CHR 0x22 # tl (snd (string_text s))" by (simp add: string_text_quoted [OF p(2)])
    have "solid (snd (string_text s))" by (subst q) (rule solidI; simp)
    moreover have "parse_value n item (snd (string_text s) @ rest) [] =
        POk (set_jtype J_String (set_valuestring (Some s) item)) rest []" for item rest
      unfolding k parse_value_string [OF q] by (rule parse_string_text [OF p(2)])
    ultimately show ?thesis
      by (simp add: reads_def str p cjson_setters render_simps del: render.simps parse_value.simps)
  next
    case array
    then have p: "vs = None" "vi = 0" "vd = Fin 0" "\<forall>c\<in>set cs. jstring c = None" using CJson.prems(1) by auto
    let ?t = "if cs = [] then ''[]'' else array_text fmt (map (render fmt (d + 1)) cs)"
    have q: "?t = CHR ''['' # tl ?t" by (simp add: array_text_def)
    have "solid ?t" by (subst q) (rule solidI; simp)
    moreover have "parse_value n (CJson ty0 None 0 (Fin 0) nm []) (?t @ rest) [] =
        POk (CJson J_Array None 0 (Fin 0) nm cs) rest []" for ty0 rest
      unfolding k parse_value_array [OF q] by (rule parse_array_reads) (use IH p(4) in blast)
    ultimately show ?thesis
      unfolding reads_def array p render_simps cjson.sel by blast
  next
    case object
    then have p: "vs = None" "vi = 0" "vd = Fin 0" "\<forall>c\<in>set cs. \<exists>n. jstring c = Some n \<and> NUL \<notin> set n"
      using CJson.prems(1) by (auto simp: plain_name_def split: option.splits)
    let ?t = "if cs = [] then empty_object_text fmt d else object_text fmt (d + 1)
      (map (\<lambda>c. (snd (string_text (the (jstring c))), render fmt (d + 1) c)) cs)"
    have q: "?t = CHR ''{'' # tl ?t" by (simp add: object_text_def empty_object_text_def)
    have "solid ?t" by (subst q) (rule solidI; simp)
    moreover have "parse_value n (CJson ty0 None 0 (Fin 0) nm []) (?t @ rest) [] =
        POk (CJson J_Object None 0 (Fin 0) nm cs) rest []" for ty0 rest
      unfolding k parse_value_brace [OF q] by (rule parse_object_reads) (use IH p(4) in blast)
    ultimately show ?thesis
      unfolding reads_def object p render_simps cjson.sel by blast
  qed (use CJson.prems(1) k in \<open>auto simp: reads_def solid_def cjson_setters\<close>)
qed

lemma sum_list_ge: "x \<in> set xs \<Longrightarrow> f x \<le> sum_list (map f xs :: nat list)"
  by (induction xs) auto

lemma length_array_entries: "e \<in> set es \<Longrightarrow> length e \<le> length (array_entries fmt es)"
  by (induction es) (auto intro: trans_le_add2)

lemma length_object_entries: "(s, r) \<in> set ps \<Longrightarrow> length r \<le> length (object_entries fmt depth ps)"
  by (induction ps) (auto intro: trans_le_add2)

lemma foldr_max_le: "(\<And>c. c \<in> set cs \<Longrightarrow> f c \<le> b) \<Longrightarrow> foldr max (map f cs) 0 \<le> (b :: nat)"
  by (induction cs) auto

lemma jdepth_render:
  "parsed_form c \<Longrightarrow> jdepth c \<le> length (render fmt d c)"
proof (induction c arbitrary: d)
  case (CJson ty vs vi vd nm cs)
  show ?case
  proof (cases "cs = []")
    case True
    have "render fmt d (CJson ty vs vi vd nm cs) \<noteq> []"
      using reads_render [OF CJson.prems order.refl, of fmt d] by (auto simp: reads_def solid_def simp del: render.simps)
    then show ?thesis using True by (simp add: Suc_le_eq del: render.simps)
  next
    case False
    have IH: "jdepth c \<le> length (render fmt (d + 1) c)" if "c \<in> set cs" for c
      by (rule CJson.IH [OF that]) (use CJson.prems that in auto)
    from False CJson.prems consider "ty = J_Array" | "ty = J_Object" by auto
    then show ?thesis
    proof cases
      case 1
      have "jdepth c \<le> length (array_entries fmt (map (render fmt (d + 1)) cs))" if "c \<in> set cs" for c
        using IH [OF that] length_array_entries [of "render fmt (d + 1) c" "map (render fmt (d + 1)) cs" fmt] that
        by (auto intro: order_trans)
      then have "foldr max (map jdepth cs) 0 \<le> length (array_entries fmt (map (render fmt (d + 1)) cs))"
        by (rule foldr_max_le)
      then show ?thesis using False by (simp add: 1 render_simps array_text_def del: render.simps)
    next
      case 2
      let ?ps = "map (\<lambda>c. (snd (string_text (the (jstring c))), render fmt (d + 1) c)) cs"
      have "jdepth c \<le> length (object_entries fmt (d + 1) ?ps)" if "c \<in> set cs" for c
        using IH [OF that] length_object_entries [of "snd (string_text (the (jstring c)))" "render fmt (d + 1) c" ?ps fmt "d + 1"] that
        by (auto intro: order_trans)
      then have "foldr max (map jdepth cs) 0 \<le> length (object_entries fmt (d + 1) ?ps)"
        by (rule foldr_max_le)
      then show ?thesis using False by (simp add: 2 render_simps object_text_def del: render.simps)
    qed
  qed
qed

lemma Parse_render:
  assumes "parsed_form c" and "jstring c = None"
  shows "Parse (render fmt 0 c) [] = POk c [] []"
proof -
  let ?t = "render fmt 0 c"
  have r: "reads (parse_value (Suc (length ?t))) ?t c"
    by (rule reads_render [OF assms(1)]) (use jdepth_render [OF assms(1), of fmt 0] in simp)
  then have "skip ?t = ?t" using skip_solid [of ?t "[]"] by (simp add: reads_def)
  then show ?thesis
    using readsD [OF r, of "[]" None 0] assms(2)
    by (simp add: Parse_def ParseWithOpts_def with_new_item_Nil blank_item_def del: parse_value.simps)
qed

section \<open>The sizes of printed numbers\<close>

lemma dec_str_length_le: "n < 10 ^ k \<Longrightarrow> 0 < k \<Longrightarrow> length (dec_str n) \<le> k"
proof (induction n arbitrary: k rule: dec_str.induct)
  case (1 n)
  show ?case
  proof (cases "n < 10")
    case True
    then show ?thesis using 1(3) by (subst dec_str.simps) simp
  next
    case False
    then obtain j where k: "k = Suc j" using 1(3) by (cases k) auto
    have j: "k = Suc j" "0 < j" using 1(2) False k by (cases j; simp)+
    then have "n div 10 < 10 ^ j" using 1(2) by (simp add: less_mult_imp_div_less)
    then show ?thesis using 1(1) [of j] False j by (subst dec_str.simps) simp
  qed
qed

lemma dec_str_bounds: "0 < n \<Longrightarrow> 10 ^ (length (dec_str n) - 1) \<le> n \<and> n < 10 ^ length (dec_str n)"
proof (induction n rule: dec_str.induct)
  case (1 n)
  show ?case
  proof (cases "n < 10")
    case True
    then show ?thesis using 1(2) by (subst (1 2) dec_str.simps) simp
  next
    case False
    then have IH: "10 ^ (length (dec_str (n div 10)) - 1) \<le> n div 10" "n div 10 < 10 ^ length (dec_str (n div 10))"
      using 1(1) by auto
    have l: "length (dec_str n) = Suc (length (dec_str (n div 10)))"
      using False by (subst dec_str.simps) simp
    have "length (dec_str (n div 10)) = Suc (length (dec_str (n div 10)) - 1)"
      by (simp add: Suc_pred' [symmetric])
    then have "10 ^ length (dec_str (n div 10)) \<le> 10 * (n div 10)"
      using IH(1) by (metis mult_le_mono2 power_Suc)
    then have "10 ^ length (dec_str (n div 10)) \<le> n" by (rule order_trans) simp
    moreover have "n < 10 * 10 ^ length (dec_str (n div 10))" using IH(2) by simp
    ultimately show ?thesis by (simp add: l)
  qed
qed

lemma dec_str_bounds_rat:
  assumes "0 < p"
  shows "(10 :: rat) powi (int (length (dec_str (nat p))) - 1) \<le> of_int p"
    "of_int p < (10 :: rat) powi int (length (dec_str (nat p)))"
proof -
  let ?a = "length (dec_str (nat p))"
  have b: "10 ^ (?a - 1) \<le> nat p" "nat p < 10 ^ ?a" using dec_str_bounds [of "nat p"] assms by auto
  have a: "int ?a - 1 = int (?a - 1)" by (cases ?a) simp_all
  have p: "of_int p = (of_nat (nat p) :: rat)" using assms by simp
  have "of_nat (10 ^ (?a - 1)) \<le> (of_nat (nat p) :: rat)" using b(1) by (rule of_nat_mono)
  then show "(10 :: rat) powi (int ?a - 1) \<le> of_int p"
    unfolding a power_int_of_nat p by (simp only: of_nat_power of_nat_numeral)
  have "(of_nat (nat p) :: rat) < of_nat (10 ^ ?a)" using b(2) by (simp only: of_nat_less_iff)
  then show "of_int p < (10 :: rat) powi int ?a"
    unfolding power_int_of_nat p by (simp only: of_nat_power of_nat_numeral)
qed

lemma floor_log10_bounds:
  assumes "0 < x"
  shows "10 powi floor_log10 x \<le> x" "x < 10 powi (floor_log10 x + 1)"
proof -
  obtain p q where pq: "quotient_of x = (p, q)" by (cases "quotient_of x")
  have x: "x = of_int p / of_int q" and q: "0 < q"
    using quotient_of_div [OF pq] quotient_of_denom_pos [OF pq] by auto
  with assms have p: "0 < p" by (simp add: zero_less_divide_iff)
  let ?a = "int (length (dec_str (nat p)))" and ?b = "int (length (dec_str (nat q)))"
  have eq: "?a - ?b - 1 = (?a - 1) - ?b" "?a - ?b + 1 = ?a - (?b - 1)" by simp_all
  have "(10 :: rat) powi (?a - ?b - 1) = 10 powi (?a - 1) / 10 powi ?b"
    unfolding eq by (rule power_int_diff) simp
  also have "\<dots> \<le> of_int p / of_int q"
    by (rule frac_le) (use dec_str_bounds_rat [OF p] dec_str_bounds_rat [OF q] p q in \<open>simp_all add: less_imp_le\<close>)
  finally have lo: "10 powi (?a - ?b - 1) \<le> x" using x by simp
  have "of_int p / of_int q < (10 :: rat) powi ?a / 10 powi (?b - 1)"
    by (rule frac_less) (use dec_str_bounds_rat [OF p] dec_str_bounds_rat [OF q] p q in simp_all)
  also have "\<dots> = 10 powi (?a - ?b + 1)" unfolding eq by (rule power_int_diff [symmetric]) simp
  finally have hi: "x < 10 powi (?a - ?b + 1)" using x by simp
  show "10 powi floor_log10 x \<le> x" "x < 10 powi (floor_log10 x + 1)"
    using lo hi by (auto simp: floor_log10_def pq Let_def)
qed

lemma round_half_even_near: "\<bar>of_int (round_half_even y) - y\<bar> \<le> (1 / 2 :: rat)"
proof -
  define f :: rat where "f = of_int \<lfloor>y\<rfloor>"
  have "f \<le> y" "y < f + 1" unfolding f_def by linarith+
  then have "\<bar>f - y\<bar> \<le> 1 / 2" if "y - f \<le> 1 / 2" using that by linarith
  moreover have "\<bar>f + 1 - y\<bar> \<le> 1 / 2" if "1 / 2 \<le> y - f" using that \<open>y < f + 1\<close> by linarith
  ultimately show ?thesis unfolding round_half_even_def Let_def f_def [symmetric]
    by (simp add: f_def [symmetric] not_less)
qed

lemma round_half_even_le:
  assumes "y \<le> of_int k"
  shows "round_half_even y \<le> k"
proof (cases "of_int \<lfloor>y\<rfloor> = y")
  case True
  then have "round_half_even y = \<lfloor>y\<rfloor>" by (metis round_half_even_int)
  then show ?thesis using assms True by (metis of_int_le_iff)
next
  case False
  then have "of_int \<lfloor>y\<rfloor> < y" using of_int_floor_le [of y] by linarith
  then have "of_int \<lfloor>y\<rfloor> < (of_int k :: rat)" using assms by linarith
  then have "\<lfloor>y\<rfloor> < k" by simp
  then show ?thesis by (simp add: round_half_even_def Let_def)
qed

lemma rnd_bound:
  assumes "\<bar>x\<bar> < 2 powi 1000" and "2 powi - 1000 \<le> \<bar>x\<bar>"
  shows "\<exists>v. rnd x = Fin v \<and> \<bar>v\<bar> \<le> 2 * \<bar>x\<bar>"
proof -
  have x0: "0 < \<bar>x\<bar>" using assms(2) by (rule less_le_trans [rotated]) simp
  define e where "e = max (floor_log2 \<bar>x\<bar> - 52) (-1074)"
  define v :: rat where "v = of_int (round_half_even (x / 2 powi e)) * 2 powi e"
  have "(2 :: rat) powi e \<le> \<bar>x\<bar>"
  proof (cases "e = -1074")
    case True
    have "(2 :: rat) powi - 1074 \<le> 2 powi - 1000" by (rule power_int_increasing) simp_all
    also note assms(2)
    finally show ?thesis by (simp only: True)
  next
    case False
    then have "e \<le> floor_log2 \<bar>x\<bar>" by (simp add: e_def)
    then have "(2 :: rat) powi e \<le> 2 powi floor_log2 \<bar>x\<bar>" by (rule power_int_increasing) simp
    also have "\<dots> \<le> \<bar>x\<bar>" by (rule floor_log2_le [OF x0])
    finally show ?thesis .
  qed
  moreover have "\<bar>v - x\<bar> \<le> 1 / 2 * 2 powi e"
  proof -
    have "v - x = (of_int (round_half_even (x / 2 powi e)) - x / 2 powi e) * 2 powi e"
      by (simp add: v_def algebra_simps)
    then have "\<bar>v - x\<bar> = \<bar>of_int (round_half_even (x / 2 powi e)) - x / 2 powi e\<bar> * 2 powi e"
      by (simp add: abs_mult)
    also have "\<dots> \<le> 1 / 2 * 2 powi e" by (rule mult_right_mono [OF round_half_even_near]) simp
    finally show ?thesis .
  qed
  ultimately have v: "\<bar>v\<bar> \<le> 2 * \<bar>x\<bar>" by linarith
  then have "\<bar>v\<bar> < 2 * 2 powi 1000" by (rule le_less_trans) (rule mult_strict_left_mono [OF assms(1)], simp)
  also have "(2 :: rat) * 2 powi 1000 = 2 powi (1000 + 1)" by (rule power_int_add_1' [symmetric]) simp
  also have "\<dots> \<le> 2 powi 1024" by (rule power_int_increasing) simp_all
  also have "\<dots> = 2 ^ 1024" by (simp only: power_int_numeral)
  finally have "\<not> 2 ^ 1024 \<le> \<bar>v\<bar>" by simp
  then have "rnd x = Fin v" using x0 unfolding rnd_def Let_def e_def [symmetric] v_def [symmetric] by simp
  with v show ?thesis by blast
qed

definition double_ok :: "dbl \<Rightarrow> bool" where
  "double_ok d \<longleftrightarrow> (case d of Fin r \<Rightarrow> r = 0 \<or> 2 powi - 1074 \<le> \<bar>r\<bar> \<and> \<bar>r\<bar> < 2 powi 1024 | _ \<Rightarrow> True)"

lemma length_fmt_d:
  assumes "INT_MIN \<le> i" and "i \<le> INT_MAX"
  shows "length (fmt_d i) \<le> 11"
proof -
  have "nat i < 10 ^ 10" "nat (- i) < 10 ^ 10" using assms by simp_all
  from this [THEN dec_str_length_le] show ?thesis by (simp add: fmt_d_def)
qed

lemma length_pad0: "n < 10 ^ k \<Longrightarrow> 0 < k \<Longrightarrow> length (pad0 k (dec_str n)) = k"
  using dec_str_length_le [of n k] by (simp add: pad0_def)

lemma length_fmt_sign: "length (fmt_sign r) \<le> 1"
  by (simp add: fmt_sign_def)

lemma length_fmt_0f:
  assumes "\<bar>r\<bar> \<le> 10 ^ 61 - 1"
  shows "length (fmt_0f r) \<le> 62"
proof -
  have "round_half_even \<bar>r\<bar> \<le> 10 ^ 61 - 1" by (rule round_half_even_le) (use assms in simp)
  then have "nat (round_half_even \<bar>r\<bar>) < 10 ^ 61" by (simp add: nat_less_iff)
  from dec_str_length_le [OF this] length_fmt_sign [of r] show ?thesis by (simp add: fmt_0f_def)
qed

lemma length_fmt_f:
  assumes "\<bar>r\<bar> \<le> 10 ^ 9"
  shows "length (fmt_f r) \<le> 18"
proof -
  let ?n = "nat (round_half_even (\<bar>r\<bar> * 10 ^ 6))"
  have "round_half_even (\<bar>r\<bar> * 10 ^ 6) \<le> 10 ^ 15" by (rule round_half_even_le) (use assms in simp)
  then have "?n div 10 ^ 6 < 10 ^ 10" by (simp add: div_less_iff_less_mult nat_less_iff)
  from dec_str_length_le [OF this] length_fmt_sign [of r] show ?thesis
    by (simp add: fmt_f_def Let_def length_pad0 [of "?n mod 10 ^ 6" 6, simplified])
qed

lemma powers_2_10:
  "(2 :: rat) powi 1024 \<le> 10 powi 342" "(10 :: rat) powi - 358 \<le> 2 powi - 1074"
proof -
  have "(2 :: rat) ^ 1024 \<le> 2 ^ (3 * 342)" by (rule power_increasing) simp_all
  also have "\<dots> = (2 ^ 3) ^ 342" by (rule power_mult)
  also have "\<dots> \<le> 10 ^ 342" by (rule power_mono) simp_all
  finally show "(2 :: rat) powi 1024 \<le> 10 powi 342" by (simp only: power_int_numeral)
  have "(2 :: rat) ^ (3 * 358) = (2 ^ 3) ^ 358" by (rule power_mult)
  also have "\<dots> \<le> 10 ^ 358" by (rule power_mono) simp_all
  finally have "(2 :: rat) ^ 1074 \<le> 10 ^ 358" by (simp only: mult_numeral_1 semiring_norm num.simps) 
  then have "inverse ((10 :: rat) ^ 358) \<le> inverse (2 ^ 1074)" by (rule le_imp_inverse_le) (simp only: zero_less_power zero_less_numeral)
  then show "(10 :: rat) powi - 358 \<le> 2 powi - 1074" by (simp only: power_int_minus power_int_numeral)
qed

lemma powi_10_less: "(10 :: rat) powi a < 10 powi b \<Longrightarrow> a < b"
  by (rule ccontr) (use power_int_increasing [of b a "10 :: rat"] in simp)

lemma floor_log10_range:
  assumes "2 powi - 1074 \<le> x" and "x < 2 powi 1024"
  shows "- 360 \<le> floor_log10 x" "floor_log10 x < 342"
proof -
  have x: "0 < x" using assms(1) by (rule less_le_trans [rotated]) (simp only: zero_less_power_int zero_less_numeral)
  have "10 powi floor_log10 x < (10 :: rat) powi 342"
    using floor_log10_bounds(1) [OF x] assms(2) powers_2_10(1) by (meson le_less_trans less_le_trans)
  then show "floor_log10 x < 342" by (rule powi_10_less)
  have "(10 :: rat) powi - 358 < 10 powi (floor_log10 x + 1)"
    using floor_log10_bounds(2) [OF x] assms(1) powers_2_10(2) by (meson le_less_trans less_le_trans)
  then have "- 358 < floor_log10 x + 1" by (rule powi_10_less)
  then show "- 360 \<le> floor_log10 x" by simp
qed

lemma length_fmt_e:
  assumes "2 powi - 1074 \<le> \<bar>r\<bar>" and "\<bar>r\<bar> < 2 powi 1024"
  shows "length (fmt_e r) \<le> 15"
proof -
  let ?e = "floor_log10 \<bar>r\<bar>"
  define n where "n = nat (round_half_even (\<bar>r\<bar> / 10 powi (?e - 6)))"
  define m where "m = (if n = 10 ^ 7 then 10 ^ 6 else n)"
  define e where "e = (if n = 10 ^ 7 then ?e + 1 else ?e)"
  have r: "0 < \<bar>r\<bar>" using assms(1) by (rule less_le_trans [rotated]) (simp only: zero_less_power_int zero_less_numeral)
  have "\<bar>r\<bar> / 10 powi (?e - 6) < 10 powi (?e + 1) / 10 powi (?e - 6)"
    using floor_log10_bounds(2) [OF r] by (simp add: divide_strict_right_mono)
  also have "\<dots> = 10 ^ 7" by (simp add: power_int_diff [symmetric])
  finally have "round_half_even (\<bar>r\<bar> / 10 powi (?e - 6)) \<le> 10 ^ 7"
    by (intro round_half_even_le) simp
  then have n: "n \<le> 10 ^ 7" by (simp add: n_def nat_le_iff)
  then have m: "m div 10 ^ 6 < 10 ^ 1" unfolding m_def by (simp add: div_less_iff_less_mult)
  have "\<bar>e\<bar> < 1000" using floor_log10_range [OF assms] by (auto simp: e_def)
  define E where "E = pad0 2 (dec_str (nat \<bar>e\<bar>))"
  define S where "S = (if e < 0 then ''-'' else ''+'')"
  have S: "length S = 1" by (simp add: S_def)
  have e: "length E \<le> 3" using \<open>\<bar>e\<bar> < 1000\<close> unfolding E_def
    using dec_str_length_le [of "nat \<bar>e\<bar>" 3] by (simp add: pad0_def nat_less_iff)
  have "fmt_e r = fmt_sign r @ dec_str (m div 10 ^ 6) @ ''.'' @ pad0 6 (dec_str (m mod 10 ^ 6)) @ ''e''
       @ S @ E"
    unfolding fmt_e_def Let_def n_def [symmetric] by (simp add: m_def e_def S_def E_def)
  then show ?thesis
    using dec_str_length_le [OF m] length_fmt_sign [of r] e S length_pad0 [of "m mod 10 ^ 6" 6] by simp
qed

lemma number_text_fits:
  assumes "INT_MIN \<le> valueint c" "valueint c \<le> INT_MAX" and "double_ok (valuedouble c)"
  shows "length (snd (number_text c)) + 1 \<le> fst (number_text c)"
proof (cases "valuedouble c")
  case (Fin r)
  define B where "B = rnd (10 ^ 60)"
  have "\<bar>(10 :: rat) ^ 60\<bar> < 2 powi 1000" "2 powi - 1000 \<le> \<bar>(10 :: rat) ^ 60\<bar>"
    by (simp_all add: power_int_minus)
  then obtain v where v: "B = Fin v" "\<bar>v\<bar> \<le> 2 * \<bar>10 ^ 60\<bar>" using rnd_bound unfolding B_def by blast
  have f0: "length (fmt_0f r) \<le> 62" if "\<bar>r\<bar> < v"
    by (rule length_fmt_0f) (use that v(2) in simp)
  have f1: "length (fmt_f r) \<le> 18" if "\<not> dlt (Fin (10 ^ 9)) (Fin \<bar>r\<bar>)" using that by (intro length_fmt_f) simp
  have f2: "length (fmt_e r) \<le> 15" if "r \<noteq> 0" using that assms(3) Fin by (intro length_fmt_e) (simp_all add: double_ok_def)
  show ?thesis using length_fmt_d [OF assms(1,2)] f0 f1 f2
    unfolding number_text_def Let_def Fin B_def [symmetric] v(1) dabs_def dbl.case
    by (auto simp: fmt_dbl_def simp del: power_numeral)
qed (use length_fmt_d [OF assms(1,2)] in \<open>auto simp: number_text_def Let_def fmt_dbl_def\<close>)

section \<open>What the printers return\<close>

text \<open>
  \<open>yields r x m\<close>: the run \<open>r\<close> over the schedule \<open>m\<close> is defined and returns \<open>x\<close> or a null
  pointer, and \<open>x\<close> when memory suffices.
\<close>

definition yields :: "fault + ('a option \<times> sched) \<Rightarrow> 'a \<Rightarrow> sched \<Rightarrow> bool" where
  "yields r x m \<longleftrightarrow> (\<exists>p m'. r = Inr (p, m') \<and> (p = None \<or> p = Some x) \<and> (m = [] \<longrightarrow> p = Some x \<and> m' = []))"

lemma yields_alloc_text: "length s + 1 \<le> n \<Longrightarrow> yields (alloc_text n s m) s m"
  by (cases m) (auto simp: yields_def alloc_text_def ddns_mem_alloc_def emit_def split: bool.splits)

lemma yields_strdup: "yields (Inr (cjson_strdup s m)) s m"
  by (cases m) (auto simp: yields_def cjson_strdup_def ddns_mem_alloc_def)

lemma length_escape_loop: "length (escape_loop s) = escaped_len s"
  by (induction s) (auto simp: escape_char_def fmt_u04x_def)

lemma string_text_fits: "length (snd (string_text s)) + 1 \<le> fst (string_text s)"
  by (simp add: string_text_def length_escape_loop)

lemma yields_string: "yields (print_string_ptr (Some s) m) (snd (string_text s)) m"
  using yields_alloc_text [OF string_text_fits] by (simp add: print_string_ptr_def case_prod_beta)

lemma length_gap: "length (gap fmt w) = (if fmt then length w else 0)"
  by (simp add: gap_def)

lemma length_array_entries_le: "length (array_entries fmt es) \<le> sum_list (map (\<lambda>e. length e + 2 + (if fmt then 1 else 0)) es)"
  by (induction es) (auto simp: length_gap)

lemma array_text_fits: "length (array_text fmt es) + 1 \<le> array_len fmt es"
  using length_array_entries_le [of fmt es] by (simp add: array_text_def array_len_def)

lemma length_object_entries_le:
  "length (object_entries fmt depth ps) \<le>
    sum_list (map (\<lambda>(s, r). length r + length s + 2 + (if fmt then 2 + depth else 0)) ps)"
  by (induction ps) (auto simp: length_gap)

lemma object_text_fits: "length (object_text fmt depth ps) + 1 \<le> object_len fmt depth ps"
  using length_object_entries_le [of fmt depth ps] by (auto simp: object_text_def object_len_def length_gap)

lemma empty_object_text_fits: "length (empty_object_text fmt d) + 1 \<le> (if fmt then d + 4 else 3)"
  by (auto simp: empty_object_text_def length_gap)

lemma yields_array:
  assumes "n = length es" and "\<And>m. yields (loop m) es m"
  shows "yields (print_array loop n fmt m) (if es = [] then ''[]'' else array_text fmt es) m"
proof (cases "es = []")
  case True
  then show ?thesis using assms(1) yields_alloc_text [of "''[]''" 3] by (simp add: print_array_def)
next
  case False
  obtain ok m1 where a: "ddns_mem_alloc (n * 8) m = (ok, m1)" "m = [] \<Longrightarrow> ok \<and> m1 = []"
    using False assms(1) by (cases m) (auto simp: ddns_mem_alloc_def)
  obtain p m2 where l: "loop m1 = Inr (p, m2)" "p = None \<or> p = Some es" "m1 = [] \<Longrightarrow> p = Some es \<and> m2 = []"
    using assms(2) [of m1] by (auto simp: yields_def)
  then show ?thesis
    using False assms(1) a yields_alloc_text [OF array_text_fits, of fmt es m2]
    by (cases ok; cases p) (auto simp: print_array_def yields_def)
qed

definition both_ok :: "(string \<times> string) option list \<Rightarrow> (string \<times> string) list \<Rightarrow> bool" where
  "both_ok qs ps \<longleftrightarrow> list_all2 (\<lambda>q p. q = None \<or> q = Some p) qs ps"

lemma both_ok_full: "both_ok qs ps \<Longrightarrow> None \<notin> set qs \<Longrightarrow> map the qs = ps"
  unfolding both_ok_def by (induction rule: list_all2_induct) auto

lemma both_ok_Some: "both_ok (map Some ps) qs \<longleftrightarrow> ps = qs"
  by (auto simp: both_ok_def list_all2_map1 list_all2_eq [symmetric] list.rel_eq)

lemma yields_object:
  assumes "n = length ps"
    and "\<And>m. \<exists>qs m'. loop m = Inr (qs, m') \<and> both_ok qs ps \<and> (m = [] \<longrightarrow> qs = map Some ps \<and> m' = [])"
  shows "yields (print_object loop n d fmt m)
    (if ps = [] then empty_object_text fmt d else object_text fmt (d + 1) ps) m"
proof (cases "ps = []")
  case True
  then show ?thesis using assms(1) yields_alloc_text [OF empty_object_text_fits] by (simp add: print_object_def)
next
  case False
  obtain ok1 m1 where a: "ddns_mem_alloc (n * 8) m = (ok1, m1)" "m = [] \<Longrightarrow> ok1 \<and> m1 = []"
    using False assms(1) by (cases m) (auto simp: ddns_mem_alloc_def)
  obtain ok2 m2 where b: "ddns_mem_alloc (n * 8) m1 = (ok2, m2)" "m1 = [] \<Longrightarrow> ok2 \<and> m2 = []"
    using False assms(1) by (cases m1) (auto simp: ddns_mem_alloc_def)
  obtain qs m3 where l: "loop m2 = Inr (qs, m3)" "both_ok qs ps" "m2 = [] \<Longrightarrow> qs = map Some ps \<and> m3 = []"
    using assms(2) [of m2] by blast
  show ?thesis
  proof (cases "None \<in> set qs")
    case True
    then have "m \<noteq> []" using a b l by auto
    with True False a b l assms(1) show ?thesis
      by (cases ok1; cases ok2) (auto simp: print_object_def yields_def)
  next
    case nn: False
    then have "map the qs = ps" using both_ok_full [OF l(2)] by simp
    then show ?thesis
      using nn False assms(1) a b l yields_alloc_text [OF object_text_fits, of fmt "d + 1" ps m3]
      by (cases ok1; cases ok2) (auto simp: print_object_def yields_def)
  qed
qed

text \<open>What a caller must provide: strings and names that are there, numbers within their C types.\<close>

fun printable :: "cjson \<Rightarrow> bool" where
  "printable (CJson ty vs vi vd nm cs) \<longleftrightarrow>
    (let t = ty AND 255 in
     t \<le> J_Object \<and> (t = J_String \<longrightarrow> plain_name vs) \<and>
     (t = J_Number \<longrightarrow> INT_MIN \<le> vi \<and> vi \<le> INT_MAX \<and> double_ok vd) \<and>
     (t = J_Array \<or> t = J_Object \<longrightarrow> (\<forall>c\<in>set cs. printable c \<and> (t = J_Object \<longrightarrow> plain_name (jstring c)))))"

lemma yields_elements:
  assumes "\<And>c m. c \<in> set cs \<Longrightarrow> yields (print_value c d fmt m) (f c) m"
  shows "yields (print_elements cs d fmt m) (map f cs) m"
  using assms
proof (induction cs arbitrary: m)
  case Nil
  then show ?case by (simp add: yields_def)
next
  case (Cons c cs)
  obtain p m1 where p: "print_value c d fmt m = Inr (p, m1)" "p = None \<or> p = Some (f c)"
    "m = [] \<longrightarrow> p = Some (f c) \<and> m1 = []" using Cons.prems [of c m] by (auto simp: yields_def)
  have "yields (print_elements cs d fmt m1) (map f cs) m1" by (rule Cons.IH) (use Cons.prems in simp)
  with p show ?case by (cases p) (auto simp: yields_def)
qed

lemma members_ok:
  assumes "\<And>c m. c \<in> set cs \<Longrightarrow> yields (print_value c d fmt m) (f c) m" and "\<forall>c\<in>set cs. jstring c \<noteq> None"
  shows "\<exists>qs m'. print_members cs d fmt m = Inr (qs, m') \<and>
    both_ok qs (map (\<lambda>c. (snd (string_text (the (jstring c))), f c)) cs) \<and>
    (m = [] \<longrightarrow> qs = map Some (map (\<lambda>c. (snd (string_text (the (jstring c))), f c)) cs) \<and> m' = [])"
  using assms
proof (induction cs arbitrary: m)
  case Nil
  then show ?case by (simp add: both_ok_def)
next
  case (Cons c cs)
  obtain n where n: "jstring c = Some n" using Cons.prems(2) by auto
  let ?s = "snd (string_text n)"
  obtain q m1 where q: "print_string_ptr (Some n) m = Inr (q, m1)" "q = None \<or> q = Some ?s"
    "m = [] \<longrightarrow> q = Some ?s \<and> m1 = []" using yields_string [of n m] by (auto simp: yields_def)
  obtain p m2 where p: "print_value c d fmt m1 = Inr (p, m2)" "p = None \<or> p = Some (f c)"
    "m1 = [] \<longrightarrow> p = Some (f c) \<and> m2 = []" using Cons.prems(1) [of c m1] by (auto simp: yields_def)
  obtain qs m3 where "print_members cs d fmt m2 = Inr (qs, m3)"
    "both_ok qs (map (\<lambda>c. (snd (string_text (the (jstring c))), f c)) cs)"
    "m2 = [] \<longrightarrow> qs = map Some (map (\<lambda>c. (snd (string_text (the (jstring c))), f c)) cs) \<and> m3 = []"
    using Cons.IH [of m2] Cons.prems by auto
  then show ?case using q p n by (auto simp: both_ok_def both_texts_def split: option.splits)
qed

lemma plain_name_Some: "plain_name s \<Longrightarrow> s \<noteq> None"
  by (cases s) (simp_all add: plain_name_def)

lemma and_255_cases:
  fixes t :: nat
  assumes "t \<le> J_Object"
  shows "t = J_False \<or> t = J_True \<or> t = J_NULL \<or> t = J_Number \<or> t = J_String \<or> t = J_Array \<or> t = J_Object"
  using assms by linarith

lemma yields_print_value:
  "printable c \<Longrightarrow> yields (print_value c d fmt m) (render fmt d c) m"
proof (induction c arbitrary: d m)
  case (CJson ty vs vi vd nm cs)
  define t where "t = ty AND 255"
  have p: "t \<le> J_Object" "t = J_String \<Longrightarrow> plain_name vs"
    "t = J_Number \<Longrightarrow> INT_MIN \<le> vi \<and> vi \<le> INT_MAX \<and> double_ok vd"
    "t = J_Array \<or> t = J_Object \<Longrightarrow> c \<in> set cs \<Longrightarrow> printable c \<and> (t = J_Object \<longrightarrow> plain_name (jstring c))" for c
    using CJson.prems by (auto simp: Let_def t_def)
  have IH: "yields (print_value c (d + 1) fmt m) (render fmt (d + 1) c) m"
    if "t = J_Array \<or> t = J_Object" "c \<in> set cs" for c m
    using CJson.IH [OF that(2)] p(4) [OF that] by blast
  from and_255_cases [OF p(1)] show ?case
  proof (elim disjE)
    assume t: "t = J_Number"
    have "length (snd (number_text (CJson ty vs vi vd nm cs))) + 1 \<le> fst (number_text (CJson ty vs vi vd nm cs))"
      by (rule number_text_fits) (use p(3) [OF t] in simp_all)
    then show ?thesis using t yields_alloc_text by (simp add: t_def print_number_def Let_def case_prod_beta)
  next
    assume t: "t = J_String"
    then show ?thesis using p(2) plain_name_Some yields_string by (fastforce simp: t_def Let_def)
  next
    assume t: "t = J_Array"
    have "yields (print_elements cs (d + 1) fmt m) (map (render fmt (d + 1)) cs) m" for m
      by (rule yields_elements) (use IH t in blast)
    from yields_array [OF _ this, of "length cs" fmt m] t show ?thesis
      by (simp add: t_def Let_def)
  next
    assume t: "t = J_Object"
    have "\<exists>qs m'. print_members cs (d + 1) fmt m = Inr (qs, m') \<and>
      both_ok qs (map (\<lambda>c. (snd (string_text (the (jstring c))), render fmt (d + 1) c)) cs) \<and>
      (m = [] \<longrightarrow> qs = map Some (map (\<lambda>c. (snd (string_text (the (jstring c))), render fmt (d + 1) c)) cs) \<and> m' = [])" for m
      by (rule members_ok) (use IH t p(4) plain_name_Some in blast)+
    from yields_object [OF _ this, of "length cs" d fmt m] t show ?thesis
      by (simp add: t_def Let_def)
  qed (use yields_strdup in \<open>auto simp: t_def Let_def\<close>)
qed

lemma parsed_form_printable: "parsed_form c \<Longrightarrow> printable c"
proof (induction c)
  case (CJson ty vs vi vd nm cs)
  have i: "double_ok (Fin (of_int vi))" if "INT_MIN \<le> vi" "vi \<le> INT_MAX"
  proof (cases "vi = 0")
    case False
    then have "1 \<le> \<bar>vi\<bar>" by simp
    then have "of_int 1 \<le> (of_int \<bar>vi\<bar> :: rat)" by (simp only: of_int_le_iff)
    then have "(2 :: rat) powi 0 \<le> \<bar>of_int vi\<bar>" by simp
    moreover have "(2 :: rat) powi - 1074 \<le> 2 powi 0" by (rule power_int_increasing) simp_all
    moreover have "\<bar>vi\<bar> \<le> 2 ^ 31" using that by simp
    then have "(of_int \<bar>vi\<bar> :: rat) \<le> of_int (2 ^ 31)" by (simp only: of_int_le_iff)
    then have "\<bar>of_int vi\<bar> \<le> (2 :: rat) powi 31" by simp
    moreover have "(2 :: rat) powi 31 < 2 powi 1024" by (rule power_int_strict_increasing) simp_all
    ultimately show ?thesis unfolding double_ok_def dbl.case by linarith
  qed (simp add: double_ok_def)
  from CJson.prems consider "ty \<in> {J_Array, J_Object}" "\<forall>c\<in>set cs. parsed_form c \<and> (ty = J_Object \<longrightarrow> plain_name (jstring c))"
    | "ty \<in> {J_NULL, J_False, J_True}" | "ty = J_Number" "INT_MIN \<le> vi" "vi \<le> INT_MAX" "vd = Fin (of_int vi)"
    | "ty = J_String" "plain_name vs" by auto
  then show ?case
  proof cases
    case 1
    then show ?thesis using CJson.IH plain_name_Some by (auto simp: Let_def)
  next
    case 2
    then show ?thesis by (auto simp: Let_def)
  next
    case 3
    then show ?thesis using i by (simp add: Let_def)
  next
    case 4
    then show ?thesis using plain_name_Some by (auto simp: Let_def)
  qed
qed

text \<open>
  C29: The printers are memory safe and exact: for a tree whose strings and names are present and
  whose numbers are within their C types, whatever calls of the allocator fail, no block is
  written past its end, and the result is a null pointer or the one text of the tree; it is the text
  when memory suffices.
\<close>

theorem print_value_safe:
  assumes "printable c"
  shows "\<exists>p m'. print_value c depth fmt m = Inr (p, m') \<and> (p = None \<or> p = Some (render fmt depth c)) \<and>
    print_value c depth fmt [] = Inr (Some (render fmt depth c), [])"
  using yields_print_value [OF assms, of depth fmt m] yields_print_value [OF assms, of depth fmt "[]"]
  by (auto simp: yields_def)

definition sample_tree :: cjson where
  "sample_tree = CJson J_Object None 0 (Fin 0) None
    [CJson J_String (Some [CHR ''a'', CHR 0x22, CHR 0x01]) 0 (Fin 0) (Some ''k'') [],
     CJson J_Array None 0 (Fin 0) (Some ''l'') [CJson J_Number None (-7) (Fin (-7)) None [], CJson J_True None 1 (Fin 0) None []],
     CJson J_Object None 0 (Fin 0) (Some ''o'') []]"

lemma sample_tree_parsed: "parsed_form sample_tree" "jstring sample_tree = None"
  by (simp_all add: sample_tree_def plain_name_def)

theorem print_value_safe_witness:
  "\<exists>p m'. print_value sample_tree 0 True [True, True, False] = Inr (p, m') \<and>
    (p = None \<or> p = Some (render True 0 sample_tree)) \<and>
    print_value sample_tree 0 True [] = Inr (Some (render True 0 sample_tree), [])"
  by (rule print_value_safe) (rule parsed_form_printable [OF sample_tree_parsed(1)])

text \<open>
  C17: Parsing what the printers wrote gives the tree back, formatted or not: for every tree of the
  form the parser builds, with 32-bit integers for its numbers, any bytes but NUL in its strings
  and names, and any nesting.
\<close>

theorem print_parse_roundtrip:
  assumes "parsed_form c" and "jstring c = None"
  shows "\<exists>t u. Print c [] = Inr (Some t, []) \<and> Parse t [] = POk c [] [] \<and>
    PrintUnformatted c [] = Inr (Some u, []) \<and> Parse u [] = POk c [] []"
  using yields_print_value [OF parsed_form_printable [OF assms(1)], of 0 _ "[]"] Parse_render [OF assms]
  by (simp add: yields_def Print_def PrintUnformatted_def)

theorem print_parse_roundtrip_witness:
  "\<exists>t u. Print sample_tree [] = Inr (Some t, []) \<and> Parse t [] = POk sample_tree [] [] \<and>
    PrintUnformatted sample_tree [] = Inr (Some u, []) \<and> Parse u [] = POk sample_tree [] []"
  by (rule print_parse_roundtrip) (rule sample_tree_parsed)+

end
