(* ===== verification/Cjson_Tree.thy ===== *)
theory Cjson_Tree
  imports Cjson_Print_Correct
begin

text \<open>
  The rest of \<^verbatim>\<open>util/tretap_CJSON.c\<close>: the constructors of values and arrays, the list surgery on the
  children of a node, and \<^verbatim>\<open>tretap_CJson_Minify\<close>.

  An operation that changes the chain of children returns the changed node; a node that it takes
  out is a result of its own. \<open>None\<close> is a null pointer argument. A reference shares the children of
  its original; nothing here changes a node in place, so it carries a copy of them.
\<close>

section \<open>Constructors\<close>

definition with_item :: "sched \<Rightarrow> (cjson \<Rightarrow> cjson) \<Rightarrow> cjson option \<times> sched" where
  "with_item m f = (case New_Item m of (item, m) \<Rightarrow> (map_option f item, m))"

definition CreateNull :: "sched \<Rightarrow> cjson option \<times> sched" where
  "CreateNull m = with_item m (set_jtype J_NULL)"

definition CreateTrue :: "sched \<Rightarrow> cjson option \<times> sched" where
  "CreateTrue m = with_item m (set_jtype J_True)"

definition CreateFalse :: "sched \<Rightarrow> cjson option \<times> sched" where
  "CreateFalse m = with_item m (set_jtype J_False)"

definition CreateBool :: "bool \<Rightarrow> sched \<Rightarrow> cjson option \<times> sched" where
  "CreateBool b m = with_item m (set_jtype (if b then J_True else J_False))"

definition CreateNumber :: "dbl \<Rightarrow> sched \<Rightarrow> cjson option \<times> sched" where
  "CreateNumber num m =
    with_item m (\<lambda>item. set_valueint (dbl_to_int num) (set_valuedouble num (set_jtype J_Number item)))"

definition CreateString :: "string \<Rightarrow> sched \<Rightarrow> cjson option \<times> sched" where
  "CreateString str m =
    (case New_Item m of
       (None, m) \<Rightarrow> (None, m)
     | (Some item, m) \<Rightarrow>
         (case cjson_strdup str m of (s, m) \<Rightarrow> (Some (set_valuestring s (set_jtype J_String item)), m)))"

definition CreateArray :: "sched \<Rightarrow> cjson option \<times> sched" where
  "CreateArray m = with_item m (set_jtype J_Array)"

definition CreateObject :: "sched \<Rightarrow> cjson option \<times> sched" where
  "CreateObject m = with_item m (set_jtype J_Object)"

text \<open>
  The loop of the array constructors. \<open>create\<close> makes the node of an element; \<open>cs\<close> are the
  children so far, empty for \<^verbatim>\<open>i == 0\<close> and after a failure at it. \<^verbatim>\<open>suffix_object(p,n)\<close> writes through
  both pointers, so a null pointer in either is a fault.
\<close>

fun create_loop ::
  "('a \<Rightarrow> sched \<Rightarrow> cjson option \<times> sched) \<Rightarrow> bool \<Rightarrow> 'a list \<Rightarrow> cjson list \<Rightarrow> sched \<Rightarrow> fault + (cjson list \<times> sched)" where
  "create_loop create first [] cs m = Inr (cs, m)"
| "create_loop create first (x # xs) cs m =
    (case create x m of
       (n, m) \<Rightarrow>
         if first then create_loop create False xs (case n of None \<Rightarrow> [] | Some c \<Rightarrow> [c]) m
         else (case n of
                 None \<Rightarrow> Inl Null_deref
               | Some c \<Rightarrow> if cs = [] then Inl Null_deref else create_loop create False xs (cs @ [c]) m))"

definition create_array ::
  "('a \<Rightarrow> sched \<Rightarrow> cjson option \<times> sched) \<Rightarrow> 'a list \<Rightarrow> sched \<Rightarrow> fault + (cjson option \<times> sched)" where
  "create_array create xs m =
    (case CreateArray m of
       (None, m) \<Rightarrow> Inr (None, m)
     | (Some a, m) \<Rightarrow> rbind (create_loop create True xs [] m) (\<lambda>(cs, m). Inr (Some (set_child cs a), m)))"

definition CreateIntArray :: "int list \<Rightarrow> sched \<Rightarrow> fault + (cjson option \<times> sched)" where
  "CreateIntArray numbers m = create_array (\<lambda>n. CreateNumber (Fin (of_int n))) numbers m"

definition CreateDoubleArray :: "dbl list \<Rightarrow> sched \<Rightarrow> fault + (cjson option \<times> sched)" where
  "CreateDoubleArray numbers m = create_array CreateNumber numbers m"

definition CreateStringArray :: "string list \<Rightarrow> sched \<Rightarrow> fault + (cjson option \<times> sched)" where
  "CreateStringArray strings m = create_array CreateString strings m"

section \<open>The children of a node\<close>

definition create_reference :: "cjson \<Rightarrow> sched \<Rightarrow> cjson option \<times> sched" where
  "create_reference item m = with_item m (\<lambda>_. set_jstring None (set_jtype (set_bit 8 (jtype item)) item))"

definition AddItemToArray :: "cjson \<Rightarrow> cjson option \<Rightarrow> cjson" where
  "AddItemToArray array item =
    (case item of None \<Rightarrow> array | Some i \<Rightarrow> set_child (child array @ [i]) array)"

definition AddItemToObject :: "cjson \<Rightarrow> string \<Rightarrow> cjson option \<Rightarrow> sched \<Rightarrow> cjson \<times> sched" where
  "AddItemToObject obj name item m =
    (case item of
       None \<Rightarrow> (obj, m)
     | Some i \<Rightarrow> (case cjson_strdup name m of (s, m) \<Rightarrow> (AddItemToArray obj (Some (set_jstring s i)), m)))"

definition AddItemToObjectCS :: "cjson \<Rightarrow> string \<Rightarrow> cjson option \<Rightarrow> cjson" where
  "AddItemToObjectCS obj name item =
    (case item of
       None \<Rightarrow> obj
     | Some i \<Rightarrow> AddItemToArray obj (Some (set_jtype (set_bit 9 (jtype i)) (set_jstring (Some name) i))))"

definition AddItemReferenceToArray :: "cjson \<Rightarrow> cjson \<Rightarrow> sched \<Rightarrow> cjson \<times> sched" where
  "AddItemReferenceToArray array item m =
    (case create_reference item m of (r, m) \<Rightarrow> (AddItemToArray array r, m))"

definition AddItemReferenceToObject :: "cjson \<Rightarrow> string \<Rightarrow> cjson \<Rightarrow> sched \<Rightarrow> cjson \<times> sched" where
  "AddItemReferenceToObject obj name item m =
    (case create_reference item m of (r, m) \<Rightarrow> AddItemToObject obj name r m)"

text \<open>
  The walks \<^verbatim>\<open>while (c && which>0) c=c->next,which--\<close>: the children before the one they stop at, that
  one and those behind it. The walk by name counts the steps.
\<close>

fun walk :: "cjson list \<Rightarrow> int \<Rightarrow> cjson list \<times> cjson list" where
  "walk [] which = ([], [])"
| "walk (c # cs) which =
    (if 0 < which then (case walk cs (which - 1) of (before, rest) \<Rightarrow> (c # before, rest)) else ([], c # cs))"

fun walk_name :: "cjson list \<Rightarrow> string option \<Rightarrow> int \<Rightarrow> int option" where
  "walk_name [] name i = None"
| "walk_name (c # cs) name i =
    (if cjson_strcasecmp (jstring c) name \<noteq> 0 then walk_name cs name (i + 1) else Some i)"

definition DetachItemFromArray :: "cjson \<Rightarrow> int \<Rightarrow> cjson option \<times> cjson" where
  "DetachItemFromArray array which =
    (case walk (child array) which of
       (before, []) \<Rightarrow> (None, array)
     | (before, c # rest) \<Rightarrow> (Some c, set_child (before @ rest) array))"

definition DetachItemFromObject :: "cjson \<Rightarrow> string option \<Rightarrow> cjson option \<times> cjson" where
  "DetachItemFromObject obj name =
    (case walk_name (child obj) name 0 of
       None \<Rightarrow> (None, obj)
     | Some i \<Rightarrow> DetachItemFromArray obj i)"

definition DeleteItemFromArray :: "cjson \<Rightarrow> int \<Rightarrow> cjson" where
  "DeleteItemFromArray array which = snd (DetachItemFromArray array which)"

definition DeleteItemFromObject :: "cjson \<Rightarrow> string option \<Rightarrow> cjson" where
  "DeleteItemFromObject obj name = snd (DetachItemFromObject obj name)"

definition InsertItemInArray :: "cjson \<Rightarrow> int \<Rightarrow> cjson \<Rightarrow> cjson" where
  "InsertItemInArray array which newitem =
    (case walk (child array) which of
       (before, []) \<Rightarrow> AddItemToArray array (Some newitem)
     | (before, c # rest) \<Rightarrow> set_child (before @ newitem # c # rest) array)"

definition ReplaceItemInArray :: "cjson \<Rightarrow> int \<Rightarrow> cjson \<Rightarrow> cjson" where
  "ReplaceItemInArray array which newitem =
    (case walk (child array) which of
       (before, []) \<Rightarrow> array
     | (before, c # rest) \<Rightarrow> set_child (before @ newitem # rest) array)"

definition ReplaceItemInObject :: "cjson \<Rightarrow> string \<Rightarrow> cjson \<Rightarrow> sched \<Rightarrow> cjson \<times> sched" where
  "ReplaceItemInObject obj name newitem m =
    (case walk_name (child obj) (Some name) 0 of
       None \<Rightarrow> (obj, m)
     | Some i \<Rightarrow>
         (case cjson_strdup name m of (s, m) \<Rightarrow> (ReplaceItemInArray obj i (set_jstring s newitem), m)))"

section \<open>Minify\<close>

text \<open>The multi-line comment: the text behind \<^verbatim>\<open>*/\<close>; the skip of two runs off a text without it.\<close>

fun skip_comment :: "string \<Rightarrow> fault + string" where
  "skip_comment [] = Inl Read_past_end"
| "skip_comment (c # s) = (if c = CHR ''*'' \<and> c_at s = CHR ''/'' then Inr (drop 1 s) else skip_comment s)"

text \<open>The string literal behind its opening quote: what is copied, and the text behind it.\<close>

fun copy_literal :: "string \<Rightarrow> fault + (string \<times> string)" where
  "copy_literal [] = Inl Read_past_end"
| "copy_literal (c # s) =
    (if c = CHR 0x22 then Inr ([c], s)
     else if c = CHR 0x5C
       then (case s of
               [] \<Rightarrow> Inl Read_past_end
             | d # s' \<Rightarrow> rbind (copy_literal s') (\<lambda>(out, t). Inr (c # d # out, t)))
     else rbind (copy_literal s) (\<lambda>(out, t). Inr (c # out, t)))"

lemma skip_comment_length: "skip_comment s = Inr t \<Longrightarrow> length t < length s"
  by (induction s rule: skip_comment.induct) (auto split: if_splits)

lemma copy_literal_length: "copy_literal s = Inr (out, t) \<Longrightarrow> length t < length s"
  by (induction s arbitrary: out t rule: copy_literal.induct)
    (fastforce simp: rbind_eq_Inr split: if_splits list.splits)+

definition is_ws :: "char \<Rightarrow> bool" where
  "is_ws c \<longleftrightarrow> c = CHR '' '' \<or> c = CHR 0x09 \<or> c = CHR 0x0D \<or> c = CHR 0x0A"

function Minify :: "string \<Rightarrow> fault + string" where
  "Minify [] = Inr []"
| "Minify (c # s) =
    (if is_ws c then Minify s
     else if c = CHR ''/'' \<and> c_at s = CHR ''/'' then Minify (dropWhile (\<lambda>d. d \<noteq> CHR 0x0A) s)
     else if c = CHR ''/'' \<and> c_at s = CHR ''*'' then rbind (skip_comment (c # s)) Minify
     else if c = CHR 0x22
       then rbind (copy_literal s) (\<lambda>(lit, t). rbind (Minify t) (\<lambda>out. Inr (c # lit @ out)))
     else rbind (Minify s) (\<lambda>out. Inr (c # out)))"
  by pat_completeness auto
termination
  by (relation "measure length")
    (auto dest: skip_comment_length copy_literal_length simp: le_imp_less_Suc length_dropWhile_le)

end
