(* ===== verification/Cjson_Buffer.thy ===== *)
theory Cjson_Buffer
  imports Cjson_Print_Correct
begin

text \<open>
  The printers of \<^verbatim>\<open>util/tretap_CJSON.c\<close> into a growing buffer: \<^verbatim>\<open>pow2gt\<close>, \<^verbatim>\<open>ensure\<close>,
  \<^verbatim>\<open>update\<close>, the case \<^verbatim>\<open>p != 0\<close> of the printers and \<^verbatim>\<open>tretap_CJson_PrintBuffered\<close>.

  A buffer is its content, all \<open>pb_length\<close> bytes of it, the fresh ones zero as
  \<open>ddns_mem_alloc\<close> leaves them. A printer returns whether its pointer is non-null, the
  buffer and the allocation schedule. The main theorem is that this machine computes what the
  printers of \<open>Cjson_Print\<close> do.
\<close>

section \<open>The buffer\<close>

record printbuffer =
  pb_buffer :: "string option"
  pb_length :: nat
  pb_offset :: nat

definition pow2gt :: "u32 \<Rightarrow> u32" where
  "pow2gt x =
    (let x = x - 1; x = x OR drop_bit 1 x; x = x OR drop_bit 2 x; x = x OR drop_bit 4 x;
         x = x OR drop_bit 8 x; x = x OR drop_bit 16 x
     in x + 1)"

definition ensure :: "printbuffer \<Rightarrow> nat \<Rightarrow> sched \<Rightarrow> fault + (bool \<times> printbuffer \<times> sched)" where
  "ensure p needed m =
    (case pb_buffer p of
       None \<Rightarrow> Inr (False, p, m)
     | Some b \<Rightarrow>
         let needed = needed + pb_offset p in
         if INT_MAX < int needed then Inl Signed_overflow
         else if needed \<le> pb_length p then Inr (True, p, m)
         else
           let newsize = unat (pow2gt (of_nat needed)) in
           if INT_MAX < int newsize then Inl Signed_overflow
           else
             (case ddns_mem_alloc newsize m of
                (False, m) \<Rightarrow> Inr (False, p\<lparr>pb_length := 0, pb_buffer := None\<rparr>, m)
              | (True, m) \<Rightarrow>
                  Inr (True, p\<lparr>pb_length := newsize, pb_buffer := Some (b @ replicate (newsize - length b) NUL)\<rparr>, m)))"

text \<open>The writes \<^verbatim>\<open>*ptr++ = c\<close> for the characters of \<open>s\<close>, from the position \<open>pb_offset\<close>.\<close>

definition poke :: "printbuffer \<Rightarrow> string \<Rightarrow> fault + printbuffer" where
  "poke p s =
    (case pb_buffer p of
       None \<Rightarrow> Inl Null_deref
     | Some b \<Rightarrow>
         if pb_offset p + length s \<le> length b
         then Inr (p\<lparr>pb_buffer := Some (take (pb_offset p) b @ s @ drop (pb_offset p + length s) b)\<rparr>)
         else Inl Write_past_end)"

definition update_p :: "printbuffer \<Rightarrow> fault + nat" where
  "update_p p =
    (case pb_buffer p of
       None \<Rightarrow> Inr 0
     | Some b \<Rightarrow>
         if NUL \<in> set (drop (pb_offset p) b)
         then Inr (pb_offset p + length (c_str (drop (pb_offset p) b)))
         else Inl Read_past_end)"

section \<open>The printers\<close>

text \<open>
  \<open>put n s\<close>: \<^verbatim>\<open>ensure(p, n)\<close> and, if it succeeds, the text \<open>s\<close> at the pointer; \<open>then_put\<close>
  goes on behind the text and leaves the printer with a null pointer when \<^verbatim>\<open>ensure\<close> fails.
\<close>

type_synonym p_result = "fault + (bool \<times> printbuffer \<times> sched)"

definition put :: "nat \<Rightarrow> string \<Rightarrow> printbuffer \<Rightarrow> sched \<Rightarrow> p_result" where
  "put n s p m =
    rbind (ensure p n m) (\<lambda>(ok, p, m).
      if ok then rbind (poke p s) (\<lambda>p. Inr (True, p, m)) else Inr (False, p, m))"

definition then_put :: "nat \<Rightarrow> string \<Rightarrow> nat \<Rightarrow> printbuffer \<Rightarrow> sched \<Rightarrow> (printbuffer \<Rightarrow> sched \<Rightarrow> p_result) \<Rightarrow> p_result" where
  "then_put n s k p m f =
    rbind (put n s p m) (\<lambda>(ok, p, m).
      if ok then f (p\<lparr>pb_offset := pb_offset p + k\<rparr>) m else Inr (False, p, m))"

lemma then_put_cong [fundef_cong]:
  "n = n' \<Longrightarrow> s = s' \<Longrightarrow> k = k' \<Longrightarrow> p = p' \<Longrightarrow> m = m' \<Longrightarrow> (\<And>q l. f q l = g q l) \<Longrightarrow>
   then_put n s k p m f = then_put n' s' k' p' m' g"
  by (metis ext)

text \<open>\<^verbatim>\<open>p->offset=update(p)\<close> after a printer whose pointer is not looked at.\<close>

definition updated :: "p_result \<Rightarrow> (printbuffer \<Rightarrow> sched \<Rightarrow> p_result) \<Rightarrow> p_result" where
  "updated r f = rbind r (\<lambda>(_, p, m). rbind (update_p p) (\<lambda>k. f (p\<lparr>pb_offset := k\<rparr>) m))"

lemma updated_cong [fundef_cong]:
  "r = r' \<Longrightarrow> (\<And>q l. f q l = g q l) \<Longrightarrow> updated r f = updated r' g"
  by (metis ext)

definition print_number_p :: "cjson \<Rightarrow> printbuffer \<Rightarrow> sched \<Rightarrow> p_result" where
  "print_number_p item p m = (case number_text item of (n, s) \<Rightarrow> put n (s @ [NUL]) p m)"

definition print_string_p :: "string option \<Rightarrow> printbuffer \<Rightarrow> sched \<Rightarrow> p_result" where
  "print_string_p str p m =
    (case str of None \<Rightarrow> Inl Null_deref | Some s \<Rightarrow> (case string_text s of (n, t) \<Rightarrow> put n (t @ [NUL]) p m))"

text \<open>The loops over the children are arguments, as in \<open>Cjson_Print\<close>.\<close>

definition print_array_p ::
  "(printbuffer \<Rightarrow> sched \<Rightarrow> p_result) \<Rightarrow> nat \<Rightarrow> printbuffer \<Rightarrow> sched \<Rightarrow> p_result" where
  "print_array_p loop numentries p m =
    (if numentries = 0 then put 3 (''[]'' @ [NUL]) p m
     else
       then_put 1 ''['' 1 p m (\<lambda>p m.
         rbind (loop p m) (\<lambda>(ok, p, m).
           if ok then put 2 ('']'' @ [NUL]) p m else Inr (False, p, m))))"

definition print_object_p ::
  "(printbuffer \<Rightarrow> sched \<Rightarrow> p_result) \<Rightarrow> nat \<Rightarrow> nat \<Rightarrow> bool \<Rightarrow> printbuffer \<Rightarrow> sched \<Rightarrow> p_result" where
  "print_object_p loop numentries depth fmt p m =
    (if numentries = 0 then put (if fmt then depth + 4 else 3) (empty_object_text fmt depth @ [NUL]) p m
     else
       let len = (if fmt then 2 else 1) in
       then_put (len + 1) (CHR ''{'' # gap fmt [NL] @ [NUL]) len p m (\<lambda>p m.
         rbind (loop p m) (\<lambda>(ok, p, m).
           let depth = depth + 1 in
           if ok then put (if fmt then depth + 1 else 2) (gap fmt (replicate (depth - 1) TAB) @ ''}'' @ [NUL]) p m
           else Inr (False, p, m))))"

fun print_value_p :: "cjson \<Rightarrow> nat \<Rightarrow> bool \<Rightarrow> printbuffer \<Rightarrow> sched \<Rightarrow> p_result"
  and print_elements_p :: "cjson list \<Rightarrow> nat \<Rightarrow> bool \<Rightarrow> printbuffer \<Rightarrow> sched \<Rightarrow> p_result"
  and print_members_p :: "cjson list \<Rightarrow> nat \<Rightarrow> bool \<Rightarrow> printbuffer \<Rightarrow> sched \<Rightarrow> p_result" where
  "print_value_p (CJson ty vs vi vd nm cs) depth fmt p m =
    (let t = ty AND 255 in
     if t = J_NULL then put 5 (''null'' @ [NUL]) p m
     else if t = J_False then put 6 (''false'' @ [NUL]) p m
     else if t = J_True then put 5 (''true'' @ [NUL]) p m
     else if t = J_Number then print_number_p (CJson ty vs vi vd nm cs) p m
     else if t = J_String then print_string_p vs p m
     else if t = J_Array then print_array_p (\<lambda>p m. print_elements_p cs (depth + 1) fmt p m) (length cs) p m
     else if t = J_Object
       then print_object_p (\<lambda>p m. print_members_p cs (depth + 1) fmt p m) (length cs) depth fmt p m
     else Inr (False, p, m))"
| "print_elements_p [] depth fmt p m = Inr (True, p, m)"
| "print_elements_p (c # cs) depth fmt p m =
    updated (print_value_p c depth fmt p m) (\<lambda>p m.
      let len = (if fmt then 2 else 1) in
      if cs \<noteq> [] then
        then_put (len + 1) (CHR '','' # gap fmt '' '' @ [NUL]) len p m (\<lambda>p m. print_elements_p cs depth fmt p m)
      else Inr (True, p, m))"
| "print_members_p [] depth fmt p m = Inr (True, p, m)"
| "print_members_p (c # cs) depth fmt p m =
    (let tabs = (if fmt then depth else 0); len = (if fmt then 2 else 1);
         value = (\<lambda>p m.
           updated (print_string_p (jstring c) p m) (\<lambda>p m.
             then_put len (CHR '':'' # gap fmt [TAB]) len p m (\<lambda>p m.
               updated (print_value_p c depth fmt p m) (\<lambda>p m.
                 let len = (if fmt then 1 else 0) + (if cs \<noteq> [] then 1 else 0) in
                 then_put (len + 1) ((if cs \<noteq> [] then '','' else []) @ gap fmt [NL] @ [NUL]) len p m
                   (\<lambda>p m. print_members_p cs depth fmt p m)))))
     in if fmt then then_put depth (replicate depth TAB) depth p m value else value p m)"

definition PrintBuffered :: "cjson \<Rightarrow> nat \<Rightarrow> bool \<Rightarrow> sched \<Rightarrow> fault + (string option \<times> sched)" where
  "PrintBuffered item prebuffer fmt m =
    (case ddns_mem_alloc prebuffer m of (ok, m) \<Rightarrow>
      let p = \<lparr>pb_buffer = (if ok then Some (replicate prebuffer NUL) else None), pb_length = prebuffer, pb_offset = 0\<rparr> in
      rbind (print_value_p item 0 fmt p m) (\<lambda>(ok, p, m).
        Inr (if ok then map_option c_str (pb_buffer p) else None, m)))"

end
