(* ===== verification/Cjson_Buffer_Correct.thy ===== *)
theory Cjson_Buffer_Correct
  imports Cjson_Buffer
begin

text \<open>
  The printers into a buffer write what the printers of \<open>Cjson_Print\<close> compose: \<open>carries\<close> relates a
  buffer to the text written so far, \<open>ensure_ok\<close> and \<open>put_ok\<close> give each step, and the induction over
  the tree is \<open>value_ok_print\<close>.
\<close>

section \<open>Growing the buffer\<close>

lemma or_nat_less: "a < 2 ^ n \<Longrightarrow> b < 2 ^ n \<Longrightarrow> a OR b < (2 ^ n :: nat)"
  by (simp flip: take_bit_nat_eq_self_iff)

lemma or_nat_ge: "a \<le> a OR (b :: nat)"
proof -
  have "int a \<le> int a OR int b" by (rule or_greater_eq) simp
  also have "\<dots> = int (a OR b)" by (simp add: of_nat_or_eq)
  finally show ?thesis by simp
qed

lemma smear_bounds:
  fixes x :: u32
  assumes "unat x < 2 ^ k"
  shows "unat x \<le> unat (x OR drop_bit n x)" "unat (x OR drop_bit n x) < 2 ^ k"
proof -
  have "drop_bit n (unat x) \<le> unat x" by (simp add: drop_bit_eq_div)
  then have d: "drop_bit n (unat x) < 2 ^ k" using assms by (rule le_less_trans)
  have t: "take_bit 32 (unat x) = unat x" using unat_u32_lt [of x] by (simp add: take_bit_nat_eq_self)
  show "unat x \<le> unat (x OR drop_bit n x)" by (simp add: unsigned_or_eq unsigned_drop_bit_eq or_nat_ge)
  show "unat (x OR drop_bit n x) < 2 ^ k"
    using or_nat_less [OF assms d] by (simp add: unsigned_or_eq unsigned_drop_bit_eq t)
qed

lemma pow2gt_bounds:
  assumes "0 < n" and "n \<le> 2 ^ 30"
  shows "n \<le> unat (pow2gt (of_nat n))" "unat (pow2gt (of_nat n)) \<le> 2 ^ 30"
proof -
  define x where "x = of_nat n - (1 :: u32)"
  have n: "unat (of_nat n :: u32) = n" using assms(2) by (simp add: unat_of_nat_small)
  then have "1 \<le> (of_nat n :: u32)" using assms(1) by (simp add: word_le_nat_alt)
  then have x: "unat x = n - 1" unfolding x_def by (simp add: unat_sub n)
  define y where "y = x OR drop_bit 1 x"
  define z where "z = y OR drop_bit 2 y"
  define w where "w = z OR drop_bit 4 z"
  define v where "v = w OR drop_bit 8 w"
  define u where "u = v OR drop_bit 16 v"
  have "unat x < 2 ^ 30" using x assms by simp
  note sx = smear_bounds [OF this, of 1, folded y_def]
  note sy = smear_bounds [OF sx(2), of 2, folded z_def]
  note sz = smear_bounds [OF sy(2), of 4, folded w_def]
  note sw = smear_bounds [OF sz(2), of 8, folded v_def]
  note sv = smear_bounds [OF sw(2), of 16, folded u_def]
  have p: "pow2gt (of_nat n) = u + 1"
    unfolding pow2gt_def Let_def x_def [symmetric] y_def [symmetric] z_def [symmetric] w_def [symmetric]
      v_def [symmetric] u_def [symmetric] ..
  have "unat (u + 1) = unat u + 1" using unat_u32_add [of u 1] sv(2) by simp
  then show "n \<le> unat (pow2gt (of_nat n))" "unat (pow2gt (of_nat n)) \<le> 2 ^ 30"
    unfolding p using sx(1) sy(1) sz(1) sw(1) sv x assms(1) by linarith+
qed

text \<open>\<open>carries p w s\<close>: the buffer holds \<open>w\<close>, its offset is behind it, and \<open>s\<close> follows.\<close>

definition carries :: "printbuffer \<Rightarrow> string \<Rightarrow> string \<Rightarrow> bool" where
  "carries p w s \<longleftrightarrow> (\<exists>r. pb_buffer p = Some (w @ s @ r) \<and> pb_length p = length (w @ s @ r) \<and> pb_offset p = length w)"

lemma carries_weaken: "carries p w (s @ t) \<Longrightarrow> carries p w s"
  by (auto simp: carries_def)

lemma carries_advance: "carries p w (s @ t) \<Longrightarrow> k = length s \<Longrightarrow> carries (p\<lparr>pb_offset := pb_offset p + k\<rparr>) (w @ s) t"
  by (auto simp: carries_def)

lemma ensure_ok:
  assumes "carries p w []" and "length w + n \<le> 2 ^ 30" and "0 < n"
  obtains p' where "ensure p n [] = Inr (True, p', [])" "carries p' w []" "length w + n \<le> pb_length p'"
proof -
  obtain r where r: "pb_buffer p = Some (w @ r)" "pb_length p = length (w @ r)" "pb_offset p = length w"
    using assms(1) by (auto simp: carries_def)
  have b: "length w + n \<le> unat (pow2gt (of_nat (n + length w)))" "unat (pow2gt (of_nat (n + length w))) \<le> 2 ^ 30"
    using pow2gt_bounds [of "n + length w"] assms(2,3) by (simp_all add: add.commute)
  show thesis
  proof (cases "n + length w \<le> length (w @ r)")
    case True
    then show thesis using r assms by (intro that [of p]) (auto simp: ensure_def Let_def carries_def)
  next
    case False
    let ?N = "unat (pow2gt (of_nat (n + length w)))"
    let ?p = "p\<lparr>pb_length := ?N, pb_buffer := Some ((w @ r) @ replicate (?N - length (w @ r)) NUL)\<rparr>"
    have "length (w @ r) \<le> ?N" using False b(1) by linarith
    then have "carries ?p w []" using r by (simp add: carries_def)
    moreover have "ensure p n [] = Inr (True, ?p, [])"
    proof -
      have "int k \<le> INT_MAX" if "k \<le> 2 ^ 30" for k using that by simp
      from this [OF b(2)] this [of "n + length w"] assms(2,3) b(1)
      have "int (n + length w) \<le> INT_MAX" "int ?N \<le> INT_MAX" "0 < ?N" by (simp_all add: add.commute)
      then show ?thesis using False r unfolding ensure_def Let_def by (simp add: ddns_mem_alloc_def)
    qed
    ultimately show thesis using b(1) by (intro that [of ?p]) simp_all
  qed
qed

lemma put_ok:
  assumes "carries p w []" and "length w + n \<le> 2 ^ 30" and "length s \<le> n" and "0 < n"
  obtains p' where "put n s p [] = Inr (True, p', [])" "carries p' w s"
proof -
  obtain q where q: "ensure p n [] = Inr (True, q, [])" "carries q w []" "length w + n \<le> pb_length q"
    using ensure_ok [OF assms(1,2,4)] by blast
  then obtain r where r: "pb_buffer q = Some (w @ r)" "pb_length q = length (w @ r)" "pb_offset q = length w"
    by (auto simp: carries_def)
  then have l: "length s \<le> length r" using q(3) assms(3) by simp
  let ?q = "q\<lparr>pb_buffer := Some (w @ s @ drop (length s) r)\<rparr>"
  have "poke q s = Inr ?q" using r l by (simp add: poke_def)
  moreover have "carries ?q w s" using r l by (simp add: carries_def)
  ultimately show thesis using q(1) by (intro that [of ?q]) (simp_all add: put_def)
qed

lemma then_put_ok:
  assumes "carries p w []" and "length w + n \<le> 2 ^ 30" and "length (s @ z) \<le> n" and "0 < n"
    and "\<And>q. carries q (w @ s) [] \<Longrightarrow> P (f q [])"
  shows "P (then_put n (s @ z) (length s) p [] f)"
proof -
  obtain q where q: "put n (s @ z) p [] = Inr (True, q, [])" "carries q w (s @ z)"
    using put_ok [OF assms(1-4)] by blast
  then have "carries (q\<lparr>pb_offset := pb_offset q + length s\<rparr>) (w @ s) []"
    using carries_advance [OF q(2) refl] carries_weaken [of _ _ "[]" z] by simp
  then show ?thesis using assms(5) q(1) by (simp add: then_put_def)
qed

text \<open>A printer wrote \<open>t\<close> behind \<open>w\<close>, NUL terminated; its offset is somewhere in \<open>t\<close>.\<close>

definition prints :: "p_result \<Rightarrow> string \<Rightarrow> string \<Rightarrow> bool" where
  "prints r w t \<longleftrightarrow> (\<exists>p t1 t2. r = Inr (True, p, []) \<and> t = t1 @ t2 \<and> carries p (w @ t1) (t2 @ [NUL]))"

lemma put_prints:
  assumes "carries p w []" and "length w + n \<le> 2 ^ 30" and "length t + 1 \<le> n"
  shows "prints (put n (t @ [NUL]) p []) w t"
proof -
  obtain q where "put n (t @ [NUL]) p [] = Inr (True, q, [])" "carries q w (t @ [NUL])"
    using put_ok [OF assms(1,2), of "t @ [NUL]"] assms(3) by auto
  then show ?thesis unfolding prints_def by (metis append_Nil append_Nil2)
qed

lemma updated_ok:
  assumes "prints r w t" and "NUL \<notin> set t" and "\<And>q. carries q (w @ t) [] \<Longrightarrow> P (f q [])"
  shows "P (updated r f)"
proof -
  obtain p t1 t2 where p: "r = Inr (True, p, [])" "t = t1 @ t2" "carries p (w @ t1) (t2 @ [NUL])"
    using assms(1) by (auto simp: prints_def)
  then obtain z where z: "pb_buffer p = Some ((w @ t1) @ t2 @ NUL # z)" "pb_length p = length ((w @ t1) @ t2 @ NUL # z)"
    "pb_offset p = length (w @ t1)" by (auto simp: carries_def)
  have "c_str (t2 @ NUL # z) = t2" using assms(2) p(2) by (auto simp: c_str_def takeWhile_append)
  then have "update_p p = Inr (length (w @ t))" using z p(2) by (simp add: update_p_def)
  moreover have "carries (p\<lparr>pb_offset := length (w @ t)\<rparr>) (w @ t) []" using z p(2) by (simp add: carries_def)
  ultimately show ?thesis using assms(3) p(1) by (simp add: updated_def)
qed
section \<open>The printers write the text of the tree\<close>

lemma NUL_dec_str: "NUL \<notin> set (dec_str n)"
  using dec_str_no_special by blast

lemma NUL_pad0: "NUL \<notin> set (pad0 k (dec_str n))"
  using NUL_dec_str [of n] by (auto simp: pad0_def)

lemma NUL_sign: "NUL \<notin> set (fmt_sign r)"
  by (simp add: fmt_sign_def)

lemma NUL_fmt_e: "NUL \<notin> set (fmt_e r)"
proof -
  have "\<exists>n k e. fmt_e r = fmt_sign r @ dec_str n @ ''.'' @ pad0 6 (dec_str k) @ ''e''
       @ (if e < 0 then ''-'' else ''+'') @ pad0 2 (dec_str (nat \<bar>e\<bar>))"
    unfolding fmt_e_def Let_def case_prod_beta by blast
  then obtain n k and e :: int where "fmt_e r = fmt_sign r @ dec_str n @ ''.'' @ pad0 6 (dec_str k) @ ''e''
       @ (if e < 0 then ''-'' else ''+'') @ pad0 2 (dec_str (nat \<bar>e\<bar>))" by blast
  then show ?thesis by (simp add: NUL_dec_str NUL_pad0 NUL_sign)
qed

lemma NUL_formats: "NUL \<notin> set (fmt_d i)" "NUL \<notin> set (fmt_0f r)" "NUL \<notin> set (fmt_f r)"
  by (simp_all add: fmt_d_def fmt_0f_def fmt_f_def Let_def NUL_dec_str NUL_pad0 NUL_sign)

lemma if_mem: "a \<in> S \<Longrightarrow> b \<in> S \<Longrightarrow> (if P then a else b) \<in> S"
  by simp

lemma number_text_cases:
  "snd (number_text c) \<in> {''0'', fmt_d (valueint c), fmt_dbl fmt_0f (valuedouble c),
    fmt_dbl fmt_e (valuedouble c), fmt_dbl fmt_f (valuedouble c)}"
  unfolding number_text_def Let_def if_distrib [where f = snd] snd_conv by (intro if_mem) simp_all

lemma NUL_fmt_dbl: "(\<And>r. NUL \<notin> set (f r)) \<Longrightarrow> NUL \<notin> set (fmt_dbl f d)"
  by (cases d) (simp_all add: fmt_dbl_def)

lemma NUL_number_text: "NUL \<notin> set (snd (number_text c))"
  using number_text_cases [of c] NUL_formats(1) [of "valueint c"] NUL_fmt_dbl [OF NUL_formats(2)]
    NUL_fmt_dbl [OF NUL_formats(3)] NUL_fmt_dbl [OF NUL_fmt_e]
  by (elim insertE; simp)

lemma hex_digit_not_NUL: "k < 16 \<Longrightarrow> ''0123456789abcdef'' ! k \<noteq> NUL"
proof -
  have "list_all (\<lambda>k. ''0123456789abcdef'' ! k \<noteq> NUL) [0..<16]" by code_simp
  then show "k < 16 \<Longrightarrow> ?thesis" by (simp add: list_all_iff del: nth_Cons_numeral)
qed

lemma NUL_escape_char: "NUL \<notin> set (escape_char c)"
proof -
  have z: "escape_char NUL = CHR 0x5C # ''u0000''" by code_simp
  show ?thesis
  proof (cases c rule: escape_char_cases)
  case plain
  with z show ?thesis by (cases "c = NUL") simp_all
next
  case (two d)
  have "simple_escape NUL = NUL" by code_simp
  with two z show ?thesis by (cases "d = NUL") simp_all
next
  case hex
  have "(ord c :: nat) div 16 < 16" using hex(2) by simp
  then show ?thesis using hex_digit_not_NUL [of "ord c div 16"] hex_digit_not_NUL [of "ord c mod 16"]
    by (simp add: hex(1) fmt_u04x_def del: nth_Cons_numeral)
  qed
qed

lemma NUL_string_text: "NUL \<notin> set s \<Longrightarrow> NUL \<notin> set (snd (string_text s))"
  unfolding string_text_quoted by (induction s) (simp_all add: NUL_escape_char)

lemma NUL_array_entries: "\<forall>e\<in>set es. NUL \<notin> set e \<Longrightarrow> NUL \<notin> set (array_entries fmt es)"
  by (induction es) (auto simp: gap_def)

lemma NUL_object_entries:
  "\<forall>(s, r)\<in>set ps. NUL \<notin> set s \<and> NUL \<notin> set r \<Longrightarrow> NUL \<notin> set (object_entries fmt d ps)"
  by (induction ps) (auto simp: gap_def split: if_splits)

lemma plain_nameE: "plain_name nm \<Longrightarrow> (\<And>n. nm = Some n \<Longrightarrow> NUL \<notin> set n \<Longrightarrow> thesis) \<Longrightarrow> thesis"
  by (cases nm) (simp_all add: plain_name_def)

lemma NUL_render: "printable c \<Longrightarrow> NUL \<notin> set (render fmt d c)"
proof (induction c arbitrary: d)
  case (CJson ty vs vi vd nm cs)
  define t where "t = ty AND 255"
  have p: "t \<le> J_Object" "t = J_String \<Longrightarrow> plain_name vs"
    "t = J_Array \<or> t = J_Object \<Longrightarrow> c \<in> set cs \<Longrightarrow> printable c \<and> (t = J_Object \<longrightarrow> plain_name (jstring c))" for c
    using CJson.prems by (auto simp: Let_def t_def)
  have IH: "NUL \<notin> set (render fmt (d + 1) c)" if "t = J_Array \<or> t = J_Object" "c \<in> set cs" for c
    using CJson.IH [OF that(2)] p(3) [OF that] by blast
  from and_255_cases [OF p(1)] show ?case
  proof (elim disjE)
    assume "t = J_String"
    then show ?thesis using p(2) NUL_string_text by (auto simp: t_def Let_def elim: plain_nameE)
  next
    assume t: "t = J_Array"
    then show ?thesis using IH NUL_array_entries [of "map (render fmt (d + 1)) cs" fmt]
      by (auto simp: t_def Let_def array_text_def)
  next
    assume t: "t = J_Object"
    have "NUL \<notin> set (snd (string_text (the (jstring c))))" if "c \<in> set cs" for c
      using p(3) [OF _ that] t NUL_string_text by (auto elim: plain_nameE)
    then show ?thesis
      using t IH NUL_object_entries [of "map (\<lambda>c. (snd (string_text (the (jstring c))), render fmt (d + 1) c)) cs" fmt "d + 1"]
      by (auto simp: t_def Let_def object_text_def empty_object_text_def gap_def)
  qed (auto simp: t_def Let_def NUL_number_text)
qed

lemma number_text_size: "fst (number_text c) \<le> 64"
  by (simp add: number_text_def Let_def)

lemma string_text_size: "fst (string_text s) = length (snd (string_text s)) + 1"
  by (simp add: string_text_def length_escape_loop)

definition reaches :: "p_result \<Rightarrow> string \<Rightarrow> bool" where
  "reaches r w \<longleftrightarrow> (\<exists>q. r = Inr (True, q, []) \<and> carries q w [])"

definition value_ok :: "(string \<Rightarrow> printbuffer \<Rightarrow> p_result) \<Rightarrow> string \<Rightarrow> bool" where
  "value_ok f t \<longleftrightarrow> NUL \<notin> set t \<and>
    (\<forall>p w. carries p w [] \<longrightarrow> length w + length t + 64 \<le> 2 ^ 30 \<longrightarrow> prints (f w p) w t)"

lemma elements_reach:
  assumes "\<And>c. c \<in> set cs \<Longrightarrow> value_ok (\<lambda>_ p. print_value_p c d fmt p []) (r c)"
    and "carries p w []" and "length w + length (array_entries fmt (map r cs)) + 64 \<le> 2 ^ 30"
  shows "reaches (print_elements_p cs d fmt p []) (w @ array_entries fmt (map r cs))"
  using assms
proof (induction cs arbitrary: p w)
  case Nil
  then show ?case by (simp add: reaches_def)
next
  case (Cons c cs)
  let ?sep = "CHR '','' # gap fmt '' ''"
  let ?es = "array_entries fmt (map r cs)"
  have v: "NUL \<notin> set (r c)" "prints (print_value_p c d fmt p []) w (r c)"
    using Cons.prems(1) [of c] Cons.prems(2,3) by (auto simp: value_ok_def)
  have len: "(if fmt then 2 else 1) = length ?sep" by (simp add: gap_def)
  show ?case
  proof (cases "cs = []")
    case True
    have "reaches (updated (print_value_p c d fmt p []) (\<lambda>p m. Inr (True, p, m))) (w @ r c)"
      by (rule updated_ok [OF v(2,1)]) (simp add: reaches_def)
    then show ?thesis using True by simp
  next
    case False
    have "reaches (updated (print_value_p c d fmt p []) (\<lambda>p m.
        then_put (length ?sep + 1) (?sep @ [NUL]) (length ?sep) p m (\<lambda>p m. print_elements_p cs d fmt p m)))
      (w @ array_entries fmt (map r (c # cs)))"
    proof (rule updated_ok [OF v(2,1)], rule then_put_ok, assumption)
      fix q assume "carries q ((w @ r c) @ ?sep) []"
      then have "reaches (print_elements_p cs d fmt q []) (((w @ r c) @ ?sep) @ ?es)"
        using Cons.prems False by (intro Cons.IH) auto
      then show "reaches (print_elements_p cs d fmt q []) (w @ array_entries fmt (map r (c # cs)))"
        using False by simp
    qed (use Cons.prems(3) False in auto)
    then show ?thesis using False by (simp add: len Let_def del: length_Cons)
  qed
qed

lemma array_prints:
  assumes "\<And>c. c \<in> set cs \<Longrightarrow> value_ok (\<lambda>_ p. print_value_p c d fmt p []) (r c)"
    and "carries p w []" and "t = (if cs = [] then ''[]'' else array_text fmt (map r cs))"
    and "length w + length t + 64 \<le> 2 ^ 30"
  shows "prints (print_array_p (\<lambda>p m. print_elements_p cs d fmt p m) (length cs) p []) w t"
proof (cases "cs = []")
  case True
  then show ?thesis using assms(2-4) put_prints [of p w 3 "''[]''"] by (simp add: print_array_p_def)
next
  case False
  let ?es = "array_entries fmt (map r cs)"
  have t: "t = ''['' @ ?es @ '']''" using assms(3) False by (simp add: array_text_def)
  have "prints (then_put 1 (''['' @ []) (length ''['') p [] (\<lambda>p m.
      rbind (print_elements_p cs d fmt p m) (\<lambda>(ok, p, m).
        if ok then put 2 ('']'' @ [NUL]) p m else Inr (False, p, m)))) w t"
  proof (rule then_put_ok [OF assms(2)])
    fix q assume "carries q (w @ ''['') []"
    then have "reaches (print_elements_p cs d fmt q []) ((w @ ''['') @ ?es)"
      using assms(1,4) t by (intro elements_reach) auto
    then obtain q' where q': "print_elements_p cs d fmt q [] = Inr (True, q', [])" "carries q' (w @ ''['' @ ?es) []"
      by (auto simp: reaches_def)
    obtain q'' where "put 2 ('']'' @ [NUL]) q' [] = Inr (True, q'', [])" "carries q'' (w @ ''['' @ ?es) ('']'' @ [NUL])"
      using put_ok [OF q'(2), of 2 "'']'' @ [NUL]"] assms(4) t by auto
    then show "prints (rbind (print_elements_p cs d fmt q []) (\<lambda>(ok, p, m).
        if ok then put 2 ('']'' @ [NUL]) p m else Inr (False, p, m))) w t"
      using q'(1) unfolding prints_def t
      by (intro exI [of _ q''] exI [of _ "''['' @ ?es"] exI [of _ "'']''"]) simp
  qed (use assms(4) t in auto)
  then show ?thesis using False by (simp add: print_array_p_def)
qed

lemma members_reach:
  assumes "\<And>c. c \<in> set cs \<Longrightarrow> value_ok (\<lambda>_ p. print_value_p c d fmt p []) (r c) \<and> plain_name (jstring c)"
    and "carries p w []" and "0 < d"
    and "length w + length (object_entries fmt d (map (\<lambda>c. (snd (string_text (the (jstring c))), r c)) cs)) + 64 \<le> 2 ^ 30"
  shows "reaches (print_members_p cs d fmt p [])
    (w @ object_entries fmt d (map (\<lambda>c. (snd (string_text (the (jstring c))), r c)) cs))"
  using assms
proof (induction cs arbitrary: p w)
  case Nil
  then show ?case by (simp add: reaches_def)
next
  case (Cons c cs)
  obtain n where n: "jstring c = Some n" "NUL \<notin> set n" using Cons.prems(1) [of c] by (auto elim: plain_nameE)
  let ?s = "snd (string_text n)"
  let ?tabs = "gap fmt (replicate d TAB)"
  let ?colon = "CHR '':'' # gap fmt [TAB]"
  let ?sep = "(if cs \<noteq> [] then '','' else []) @ gap fmt [NL]"
  let ?es = "object_entries fmt d (map (\<lambda>c. (snd (string_text (the (jstring c))), r c)) cs)"
  let ?all = "w @ ?tabs @ ?s @ ?colon @ r c @ ?sep @ ?es"
  have all: "w @ object_entries fmt d (map (\<lambda>c. (snd (string_text (the (jstring c))), r c)) (c # cs)) = ?all"
    by (simp add: n)
  have room: "length ?all + 64 \<le> 2 ^ 30" using Cons.prems(4) unfolding all [symmetric] by simp
  have len: "(if fmt then 2 else 1) = length ?colon"
    "(if fmt then 1 else 0) + (if cs \<noteq> [] then 1 else 0) = length ?sep" by (simp_all add: gap_def)
  define body where "body = (\<lambda>p m.
           updated (print_string_p (jstring c) p m) (\<lambda>p m.
             then_put (length ?colon) (?colon @ []) (length ?colon) p m (\<lambda>p m.
               updated (print_value_p c d fmt p m) (\<lambda>p m.
                 then_put (length ?sep + 1) (?sep @ [NUL]) (length ?sep) p m
                   (\<lambda>p m. print_members_p cs d fmt p m)))))"
  have v: "reaches (body q []) ?all" if q: "carries q (w @ ?tabs) []" for q
  proof -
    have s: "prints (print_string_p (jstring c) q []) (w @ ?tabs) ?s"
      using put_prints [OF q, of "fst (string_text n)" ?s] room
      by (simp add: print_string_p_def n case_prod_beta string_text_size)
    show ?thesis unfolding body_def
    proof (rule updated_ok [OF s NUL_string_text [OF n(2)]], rule then_put_ok, assumption)
      fix q1 assume q1: "carries q1 (((w @ ?tabs) @ ?s) @ ?colon) []"
      have c: "NUL \<notin> set (r c)" "prints (print_value_p c d fmt q1 []) (((w @ ?tabs) @ ?s) @ ?colon) (r c)"
        using Cons.prems(1) [of c] q1 room by (auto simp: value_ok_def)
      show "reaches (updated (print_value_p c d fmt q1 []) (\<lambda>p m.
          then_put (length ?sep + 1) (?sep @ [NUL]) (length ?sep) p m (\<lambda>p m. print_members_p cs d fmt p m))) ?all"
      proof (rule updated_ok [OF c(2,1)], rule then_put_ok, assumption)
        fix q2 assume "carries q2 (((((w @ ?tabs) @ ?s) @ ?colon) @ r c) @ ?sep) []"
        then have "reaches (print_members_p cs d fmt q2 []) ((((((w @ ?tabs) @ ?s) @ ?colon) @ r c) @ ?sep) @ ?es)"
          using Cons.prems(1,3) room by (intro Cons.IH) auto
        then show "reaches (print_members_p cs d fmt q2 []) ?all" by simp
      qed (use room in auto)
    qed (use room in auto)
  qed
  have "reaches (if fmt then then_put d (replicate d TAB @ []) (length (replicate d TAB)) p [] body else body p []) ?all"
  proof (cases fmt)
    case True
    have "reaches (then_put d (replicate d TAB @ []) (length (replicate d TAB)) p [] body) ?all"
      by (rule then_put_ok [OF Cons.prems(2)]) (use room v True Cons.prems(3) in \<open>auto simp: gap_def\<close>)
    then show ?thesis using True by simp
  next
    case False
    then show ?thesis using v [of p] Cons.prems(2) by (simp add: gap_def)
  qed
  moreover have "print_members_p (c # cs) d fmt p [] =
      (if fmt then then_put d (replicate d TAB) d p [] body else body p [])"
    unfolding print_members_p.simps(2) Let_def len body_def append_Nil2 append_assoc by (rule refl)
  ultimately show ?case unfolding all append_Nil2 length_replicate by simp
qed

lemma object_prints:
  assumes "\<And>c. c \<in> set cs \<Longrightarrow> value_ok (\<lambda>_ p. print_value_p c (d + 1) fmt p []) (r c) \<and> plain_name (jstring c)"
    and "carries p w []" and "t = (if cs = [] then empty_object_text fmt d
      else object_text fmt (d + 1) (map (\<lambda>c. (snd (string_text (the (jstring c))), r c)) cs))"
    and "length w + length t + 64 \<le> 2 ^ 30"
  shows "prints (print_object_p (\<lambda>p m. print_members_p cs (d + 1) fmt p m) (length cs) d fmt p []) w t"
proof (cases "cs = []")
  case True
  have "length t + 1 \<le> (if fmt then d + 4 else 3)" using assms(3) True empty_object_text_fits [of fmt d] by simp
  moreover have "(if fmt then d + 4 else 3) \<le> length t + 64"
    using assms(3) True by (auto simp: empty_object_text_def length_gap)
  ultimately have "prints (put (if fmt then d + 4 else 3) (t @ [NUL]) p []) w t"
    using assms(4) by (intro put_prints [OF assms(2)]) linarith+
  then show ?thesis using True assms(3) by (simp add: print_object_p_def)
next
  case False
  let ?es = "object_entries fmt (d + 1) (map (\<lambda>c. (snd (string_text (the (jstring c))), r c)) cs)"
  let ?open = "CHR ''{'' # gap fmt [NL]"
  let ?close = "gap fmt (replicate d TAB) @ ''}''"
  have t: "t = ?open @ ?es @ ?close" using assms(3) False by (simp add: object_text_def)
  have room: "length (w @ ?open @ ?es @ ?close) + 64 \<le> 2 ^ 30" using assms(4) t by simp
  have len: "(if fmt then 2 else 1) = length ?open" by (simp add: gap_def)
  define rest where "rest = (\<lambda>p m. rbind (print_members_p cs (d + 1) fmt p m) (\<lambda>(ok, p, m).
      if ok then put (if fmt then (d + 1) + 1 else 2) (gap fmt (replicate (d + 1 - 1) TAB) @ ''}'' @ [NUL]) p m
      else Inr (False, p, m)))"
  have "prints (then_put (length ?open + 1) (?open @ [NUL]) (length ?open) p [] rest) w t"
  proof (rule then_put_ok [OF assms(2)])
    fix q assume "carries q (w @ ?open) []"
    then have "reaches (print_members_p cs (d + 1) fmt q []) ((w @ ?open) @ ?es)"
      using assms(1) room by (intro members_reach) auto
    then obtain q' where q': "print_members_p cs (d + 1) fmt q [] = Inr (True, q', [])" "carries q' (w @ ?open @ ?es) []"
      by (auto simp: reaches_def)
    have n: "(if fmt then (d + 1) + 1 else 2) = length (?close @ [NUL])" by (simp add: gap_def)
    obtain q'' where "put (length (?close @ [NUL])) (?close @ [NUL]) q' [] = Inr (True, q'', [])"
      "carries q'' (w @ ?open @ ?es) (?close @ [NUL])"
      using put_ok [OF q'(2), of "length (?close @ [NUL])" "?close @ [NUL]"] room by auto
    then show "prints (rest q []) w t"
      using q'(1) unfolding prints_def t rest_def n
      by (intro exI [of _ q''] exI [of _ "?open @ ?es"] exI [of _ ?close]) simp
  qed (use room in auto)
  moreover have "print_object_p (\<lambda>p m. print_members_p cs (d + 1) fmt p m) (length cs) d fmt p [] =
      then_put (length ?open + 1) (?open @ [NUL]) (length ?open) p [] rest"
    using False unfolding print_object_p_def Let_def len rest_def by simp
  ultimately show ?thesis by simp
qed

lemma value_ok_print: "printable c \<Longrightarrow> value_ok (\<lambda>_ p. print_value_p c d fmt p []) (render fmt d c)"
proof (induction c arbitrary: d)
  case (CJson ty vs vi vd nm cs)
  define t where "t = ty AND 255"
  have p: "t \<le> J_Object" "t = J_String \<Longrightarrow> plain_name vs"
    "t = J_Array \<or> t = J_Object \<Longrightarrow> c \<in> set cs \<Longrightarrow> printable c \<and> (t = J_Object \<longrightarrow> plain_name (jstring c))"
    "t = J_Number \<Longrightarrow> INT_MIN \<le> vi \<and> vi \<le> INT_MAX \<and> double_ok vd" for c
    using CJson.prems by (auto simp: Let_def t_def)
  have IH: "value_ok (\<lambda>_ p. print_value_p c (d + 1) fmt p []) (render fmt (d + 1) c)"
    if "t = J_Array \<or> t = J_Object" "c \<in> set cs" for c
    using CJson.IH [OF that(2)] p(3) [OF that] by blast
  have "prints (print_value_p (CJson ty vs vi vd nm cs) d fmt q []) w (render fmt d (CJson ty vs vi vd nm cs))"
    if q: "carries q w []" and room: "length w + length (render fmt d (CJson ty vs vi vd nm cs)) + 64 \<le> 2 ^ 30" for q w
    using and_255_cases [OF p(1)]
  proof (elim disjE)
    assume t: "t = J_False"
    then show ?thesis using put_prints [OF q, of 6 "''false''"] room by (simp add: t_def Let_def)
  next
    assume t: "t = J_True"
    then show ?thesis using put_prints [OF q, of 5 "''true''"] room by (simp add: t_def Let_def)
  next
    assume t: "t = J_NULL"
    then show ?thesis using put_prints [OF q, of 5 "''null''"] room by (simp add: t_def Let_def)
  next
    assume t: "t = J_Number"
    let ?c = "CJson ty vs vi vd nm cs"
    have "length (snd (number_text ?c)) + 1 \<le> fst (number_text ?c)"
      by (rule number_text_fits) (use p(4) [OF t] in simp_all)
    moreover have "length w + fst (number_text ?c) \<le> 2 ^ 30" using number_text_size [of ?c] room by simp
    ultimately have "prints (put (fst (number_text ?c)) (snd (number_text ?c) @ [NUL]) q []) w (snd (number_text ?c))"
      by (intro put_prints [OF q])
    then show ?thesis using t by (simp add: t_def Let_def print_number_p_def case_prod_beta)
  next
    assume t: "t = J_String"
    then obtain s where s: "vs = Some s" using p(2) by (auto elim: plain_nameE)
    then have "prints (put (fst (string_text s)) (snd (string_text s) @ [NUL]) q []) w (snd (string_text s))"
      using room t by (intro put_prints [OF q]) (simp_all add: string_text_size t_def Let_def)
    then show ?thesis using t s by (simp add: t_def Let_def print_string_p_def case_prod_beta)
  next
    assume t: "t = J_Array"
    have "prints (print_array_p (\<lambda>p m. print_elements_p cs (d + 1) fmt p m) (length cs) q []) w
        (render fmt d (CJson ty vs vi vd nm cs))"
      by (rule array_prints [OF _ q _ room]) (use IH t in \<open>auto simp: t_def Let_def\<close>)
    then show ?thesis using t by (simp add: t_def Let_def)
  next
    assume t: "t = J_Object"
    have "prints (print_object_p (\<lambda>p m. print_members_p cs (d + 1) fmt p m) (length cs) d fmt q []) w
        (render fmt d (CJson ty vs vi vd nm cs))"
      by (rule object_prints [OF _ q _ room]) (use IH p(3) t in \<open>auto simp: t_def Let_def\<close>)
    then show ?thesis using t by (simp add: t_def Let_def)
  qed
  then show ?case using NUL_render [OF CJson.prems] by (simp add: value_ok_def del: render.simps print_value_p.simps)
qed

text \<open>
  C28: \<open>tretap_CJson_PrintBuffered\<close> is the unbuffered printer: with enough memory, for every
  size of the first buffer, formatted or not, growing the one buffer by powers of two gives exactly
  the text that \<open>print_value\<close> composes from its pieces, and no access is outside the buffer. The
  bound keeps the sizes within \<^verbatim>\<open>int\<close>.
\<close>

theorem PrintBuffered_is_print_value:
  assumes "printable c" and "0 < prebuffer" and "length (render fmt 0 c) + 64 \<le> 2 ^ 30"
  shows "PrintBuffered c prebuffer fmt [] = print_value c 0 fmt []"
proof -
  let ?p = "\<lparr>pb_buffer = Some (replicate prebuffer NUL), pb_length = prebuffer, pb_offset = 0\<rparr>"
  have "carries ?p [] []" by (simp add: carries_def)
  then have "prints (print_value_p c 0 fmt ?p []) [] (render fmt 0 c)"
    using value_ok_print [OF assms(1), of 0 fmt] assms(3) by (simp add: value_ok_def)
  then obtain q t1 t2 where q: "print_value_p c 0 fmt ?p [] = Inr (True, q, [])" "render fmt 0 c = t1 @ t2"
    "carries q t1 (t2 @ [NUL])" by (auto simp: prints_def)
  then obtain z where "pb_buffer q = Some (render fmt 0 c @ NUL # z)" by (auto simp: carries_def)
  moreover have "c_str (render fmt 0 c @ NUL # z) = render fmt 0 c"
    using NUL_render [OF assms(1), of fmt 0] by (auto simp: c_str_def takeWhile_append)
  ultimately have "PrintBuffered c prebuffer fmt [] = Inr (Some (render fmt 0 c), [])"
    using q(1) assms(2) by (simp add: PrintBuffered_def ddns_mem_alloc_Nil)
  then show ?thesis
    using yields_print_value [OF assms(1), of 0 fmt "[]"] by (simp add: yields_def)
qed

lemma sample_tree_size: "length (render fmt 0 sample_tree) + 64 \<le> 2 ^ 30"
proof -
  have "length (render True 0 sample_tree) \<le> 1000" "length (render False 0 sample_tree) \<le> 1000" by code_simp+
  then show ?thesis by (cases fmt) simp_all
qed

theorem PrintBuffered_is_print_value_witness:
  "PrintBuffered sample_tree 1 True [] = print_value sample_tree 0 True []"
  by (rule PrintBuffered_is_print_value [OF parsed_form_printable [OF sample_tree_parsed(1)] _ sample_tree_size]) simp

end
