(* ===== verification/Cjson_Tree_Correct.thy ===== *)
theory Cjson_Tree_Correct
  imports Cjson_Tree Cjson_Buffer_Correct
begin

text \<open>
  What the operations of \<open>Cjson_Tree\<close> do: constructed arrays with and without memory, the surgery
  on the children as list operations, and \<open>Minify\<close> as the way from formatted to unformatted text.
\<close>

section \<open>Constructed arrays\<close>

lemma create_loop_all:
  assumes "\<And>x. create x [] = (Some (f x), [])" and "\<not> first \<Longrightarrow> cs \<noteq> []" and "first \<Longrightarrow> cs = []"
  shows "create_loop create first xs cs [] = Inr (cs @ map f xs, [])"
  using assms(2,3)
proof (induction xs arbitrary: first cs)
  case (Cons x xs)
  show ?case using Cons.IH [of False "cs @ [f x]"] Cons.prems by (cases first) (simp_all add: assms(1))
qed simp

lemma create_array_all:
  assumes "\<And>x. create x [] = (Some (f x), [])"
  shows "create_array create xs [] = Inr (Some (CJson J_Array None 0 (Fin 0) None (map f xs)), [])"
  using create_loop_all [of create f True "[]", OF assms]
  by (simp add: create_array_def CreateArray_def with_item_def New_Item_Nil cjson_setters)

definition int_item :: "int \<Rightarrow> cjson" where
  "int_item n = CJson J_Number None n (Fin (of_int n)) None []"

lemma CreateIntArray_all:
  assumes "\<forall>n\<in>set ns. INT_MIN \<le> n \<and> n \<le> INT_MAX"
  shows "CreateIntArray ns [] = Inr (Some (CJson J_Array None 0 (Fin 0) None (map int_item ns)), [])"
proof -
  have c: "CreateNumber (Fin (of_int n)) [] =
      (Some (CJson J_Number None (dbl_to_int (Fin (of_int n))) (Fin (of_int n)) None []), [])" for n
    by (simp add: CreateNumber_def with_item_def New_Item_Nil cjson_setters)
  have "dbl_to_int (Fin (of_int n)) = n" if "INT_MIN \<le> n" "n \<le> INT_MAX" for n
    using that by (simp add: dbl_to_int_def trunc_def)
  then have "map (\<lambda>n. CJson J_Number None (dbl_to_int (Fin (of_int n))) (Fin (of_int n)) None []) ns = map int_item ns"
    using assms by (simp add: int_item_def)
  then show ?thesis
    using create_array_all [of "\<lambda>n. CreateNumber (Fin (of_int n))", OF c, of ns] by (simp add: CreateIntArray_def)
qed

text \<open>
  \<open>tretap_CJson_CreateIntArray\<close> checks no allocation inside its loop: when the node of an
  element but the first cannot be allocated, the call dereferences a null pointer; so it does when
  the first one fails and another element follows. With enough memory it returns the array of the
  numbers, which \<^verbatim>\<open>Print\<close> and \<^verbatim>\<open>Parse\<close> carry over unchanged.
\<close>

lemma CreateIntArray_outcomes:
  assumes "\<forall>n\<in>set ns. INT_MIN \<le> n \<and> n \<le> INT_MAX" and "1 \<le> k" and "k \<le> length ns" and "2 \<le> length ns"
  shows "CreateIntArray ns (replicate k True @ [False]) = Inl Null_deref \<and>
    (\<exists>a t. CreateIntArray ns [] = Inr (Some a, []) \<and> child a = map int_item ns \<and>
      Print a [] = Inr (Some t, []) \<and> Parse t [] = POk a [] [])"
proof
  let ?create = "\<lambda>n. CreateNumber (Fin (of_int n))"
  have ok: "?create n (True # m) = (Some (CJson J_Number None (dbl_to_int (Fin (of_int n))) (Fin (of_int n)) None []), m)" for n m
    by (simp add: CreateNumber_def with_item_def New_Item_def ddns_mem_alloc_def cjson_setters)
  have bad: "?create n (False # m) = (None, m)" for n m
    by (simp add: CreateNumber_def with_item_def New_Item_def ddns_mem_alloc_def)
  have later: "create_loop ?create False xs cs (replicate j True @ [False]) = Inl Null_deref"
    if "j < length xs" for xs cs j
    using that
  proof (induction xs arbitrary: cs j)
    case (Cons x xs)
    then show ?case by (cases j) (auto simp: ok bad)
  qed simp
  have none: "create_loop ?create False xs [] m = Inl Null_deref" if "xs \<noteq> []" for xs m
    using that by (cases xs) (auto split: prod.split option.split)
  obtain x xs where ns: "ns = x # xs" "xs \<noteq> []" using assms(4) by (cases ns; cases "tl ns") auto
  obtain j where k: "k = Suc j" using assms(2) by (cases k) auto
  have a: "CreateArray (True # m) = (Some (set_jtype J_Array blank_item), m)" for m
    by (simp add: CreateArray_def with_item_def New_Item_def ddns_mem_alloc_def)
  show "CreateIntArray ns (replicate k True @ [False]) = Inl Null_deref"
  proof (cases j)
    case 0
    then show ?thesis using ns none by (simp add: CreateIntArray_def create_array_def a k bad)
  next
    case (Suc i)
    have "i < length xs" using assms(3) ns k Suc by simp
    from later [OF this] show ?thesis using ns Suc by (simp add: CreateIntArray_def create_array_def a k ok)
  qed
  let ?a = "CJson J_Array None 0 (Fin 0) None (map int_item ns)"
  have "parsed_form ?a" using assms(1) by (auto simp: int_item_def)
  then have "printable ?a" "Parse (render True 0 ?a) [] = POk ?a [] []"
    by (rule parsed_form_printable, rule Parse_render) simp_all
  then show "\<exists>a t. CreateIntArray ns [] = Inr (Some a, []) \<and> child a = map int_item ns \<and>
      Print a [] = Inr (Some t, []) \<and> Parse t [] = POk a [] []"
    using CreateIntArray_all [OF assms(1)] yields_print_value [of ?a 0 True "[]"] by (simp add: yields_def Print_def)
qed

section \<open>Surgery on the children\<close>

lemma walk_split: "walk cs (int n) = (take n cs, drop n cs)"
  by (induction cs arbitrary: n) (auto simp: take_Cons drop_Cons split: nat.splits prod.splits)

lemma DetachItemFromArray_nth:
  "n < length (child a) \<Longrightarrow> DetachItemFromArray a (int n) =
    (Some (child a ! n), set_child (take n (child a) @ drop (Suc n) (child a)) a)"
  by (simp add: DetachItemFromArray_def walk_split Cons_nth_drop_Suc [symmetric])

lemma InsertItemInArray_nth:
  "InsertItemInArray a (int n) c = set_child (take n (child a) @ c # drop n (child a)) a"
  by (cases "drop n (child a)") (auto simp: InsertItemInArray_def walk_split AddItemToArray_def)

lemma ReplaceItemInArray_nth:
  "ReplaceItemInArray a (int n) c = set_child ((child a)[n := c]) a"
proof (cases "n < length (child a)")
  case True
  then show ?thesis
    by (simp add: ReplaceItemInArray_def walk_split Cons_nth_drop_Suc [symmetric] upd_conv_take_nth_drop)
next
  case False
  then show ?thesis by (simp add: ReplaceItemInArray_def walk_split set_child_def list_update_beyond)
qed

lemma set_child_simps [simp]: "child (set_child cs a) = cs" "set_child cs (set_child ds a) = set_child cs a"
  "set_child (child a) a = a"
  by (simp_all add: set_child_def)

lemma jstring_setters [simp]: "jstring (set_jstring s c) = s"
  by (simp add: set_jstring_def)

lemma walk_name_find:
  "walk_name cs nm i =
    (if named_sibling cs nm = None then None else Some (i + int (length (takeWhile (\<lambda>c. cjson_strcasecmp (jstring c) nm \<noteq> 0) cs))))"
  by (induction cs arbitrary: i) auto

lemma named_sibling_nth:
  assumes "named_sibling cs nm = Some c"
  shows "length (takeWhile (\<lambda>c. cjson_strcasecmp (jstring c) nm \<noteq> 0) cs) < length cs \<and>
    cs ! length (takeWhile (\<lambda>c. cjson_strcasecmp (jstring c) nm \<noteq> 0) cs) = c"
  using assms by (induction cs) (auto split: if_splits)

lemma DetachItemFromObject_find: "fst (DetachItemFromObject a nm) = GetObjectItem a nm"
proof (cases "named_sibling (child a) nm")
  case None
  then show ?thesis by (simp add: DetachItemFromObject_def GetObjectItem_def walk_name_find)
next
  case (Some c)
  from named_sibling_nth [OF this] Some show ?thesis
    by (simp add: DetachItemFromObject_def GetObjectItem_def walk_name_find DetachItemFromArray_nth)
qed


section \<open>Minify\<close>

definition inert :: "string \<Rightarrow> bool" where
  "inert t \<longleftrightarrow> (\<forall>c\<in>set t. \<not> is_ws c \<and> c \<noteq> CHR ''/'' \<and> c \<noteq> CHR 0x22)"

definition after :: "string \<Rightarrow> string \<Rightarrow> fault + string" where
  "after t s = rbind (Minify s) (\<lambda>out. Inr (t @ out))"

lemma after_after: "rbind (after t s) (\<lambda>out. Inr (u @ out)) = after (u @ t) s"
  by (cases "Minify s") (simp_all add: after_def)

lemma Minify_inert: "inert t \<Longrightarrow> Minify (t @ s) = after t s"
proof (induction t)
  case Nil
  then show ?case by (cases "Minify s") (simp_all add: after_def)
next
  case (Cons c t)
  then show ?case using after_after [of t s "[c]"] by (simp add: inert_def)
qed

lemma Minify_ws: "\<forall>c\<in>set w. is_ws c \<Longrightarrow> Minify (w @ s) = Minify s"
  by (induction w) auto

lemma Minify_gap: "\<forall>c\<in>set w. is_ws c \<Longrightarrow> Minify (gap fmt w @ s) = Minify s"
  by (simp add: gap_def Minify_ws)

lemma copy_literal_escape:
  "copy_literal (escape_char c @ t) = rbind (copy_literal t) (\<lambda>(out, u). Inr (escape_char c @ out, u))"
proof (cases c rule: escape_char_cases)
  case hex
  define x y where "x = ''0123456789abcdef'' ! (ord c div 16)" and "y = ''0123456789abcdef'' ! (ord c mod 16)"
  have p: "x \<notin> {CHR 0x22, CHR 0x5C}" "y \<notin> {CHR 0x22, CHR 0x5C}"
    using hex(2) unfolding x_def y_def by (intro hex_digit_plain; simp)+
  have "escape_char c = [CHR 0x5C, CHR ''u'', CHR ''0'', CHR ''0'', x, y]"
    by (simp add: hex(1) fmt_u04x_def x_def y_def)
  then show ?thesis using p by (cases "copy_literal t") auto
qed (cases "copy_literal t"; auto)+

lemma copy_literal_escape_loop:
  "copy_literal (escape_loop s @ CHR 0x22 # t) = Inr (escape_loop s @ [CHR 0x22], t)"
  by (induction s) (simp_all add: copy_literal_escape)

lemma Minify_string: "NUL \<notin> set s \<Longrightarrow> Minify (snd (string_text s) @ t) = after (snd (string_text s)) t"
  by (simp add: string_text_quoted copy_literal_escape_loop is_ws_def after_def)

lemma inert_append [simp]: "inert (s @ t) \<longleftrightarrow> inert s \<and> inert t"
  by (auto simp: inert_def)

lemma inert_dec_str: "inert (dec_str n)"
proof -
  have "\<not> is_ws c \<and> c \<noteq> CHR ''/'' \<and> c \<noteq> CHR 0x22" if "is_digit c" for c
    using that by (auto simp: is_ws_def is_digit_ord)
  then show ?thesis using dec_str_digits by (auto simp: inert_def)
qed
lemma inert_number_text: "inert (snd (number_text c))"
proof -
  have s: "inert (fmt_sign r)" for r by (simp add: fmt_sign_def inert_def is_ws_def)
  have p: "inert (pad0 k (dec_str n))" for k n
    unfolding pad0_def inert_append using inert_dec_str [of n] by (simp add: inert_def is_ws_def)
  have d: "inert (fmt_dbl f x)" if "\<And>r. inert (f r)" for f x
    using that by (cases x) (simp_all add: fmt_dbl_def inert_def is_ws_def)
  have c: "inert [c]" if "c \<in> {CHR ''.'', CHR ''e'', CHR ''-'', CHR ''+''}" for c
    using that by (auto simp: inert_def is_ws_def)
  have "\<exists>n k e. fmt_e r = fmt_sign r @ dec_str n @ ''.'' @ pad0 6 (dec_str k) @ ''e''
       @ (if e < 0 then ''-'' else ''+'') @ pad0 2 (dec_str (nat \<bar>e\<bar>))" for r
    unfolding fmt_e_def Let_def case_prod_beta by blast
  then obtain n k and e :: "rat \<Rightarrow> int" where e: "fmt_e r = fmt_sign r @ dec_str (n r) @ ''.'' @ pad0 6 (dec_str (k r)) @ ''e''
       @ (if e r < 0 then ''-'' else ''+'') @ pad0 2 (dec_str (nat \<bar>e r\<bar>))" for r by metis
  have "inert (fmt_e r)" for r
    unfolding e inert_append using s p inert_dec_str by (simp add: c)
  moreover have "inert (fmt_0f r)" for r by (simp add: fmt_0f_def s inert_dec_str)
  moreover have "inert (fmt_f r)" for r
    unfolding fmt_f_def Let_def inert_append using s p c inert_dec_str by blast
  moreover have "inert (fmt_d i)" for i
    using inert_dec_str [of "nat i"] inert_append [of "''-''" "dec_str (nat (- i))"] inert_dec_str [of "nat (- i)"]
      c [of "CHR ''-''"] by (simp add: fmt_d_def)
  moreover have "inert ''0''" by (simp add: inert_def is_ws_def)
  ultimately show ?thesis
    using number_text_cases [of c] d [of fmt_0f "valuedouble c"] d [of fmt_e "valuedouble c"] d [of fmt_f "valuedouble c"]
    by (elim insertE) simp_all
qed

lemma after_Nil: "Minify t = after [] t"
  by (cases "Minify t") (simp_all add: after_def)

lemma Minify_char: "inert [c] \<Longrightarrow> Minify (c # s) = rbind (Minify s) (\<lambda>out. Inr ([c] @ out))"
  by (simp add: inert_def)

lemma inert_marks: "inert '',''" "inert '':''" "inert ''[''" "inert '']''" "inert ''{''" "inert ''}''"
  by (simp_all add: inert_def is_ws_def)

lemma gap_False: "gap False w = []"
  by (simp add: gap_def)

text \<open>A piece followed by a text whose minified form is known.\<close>

lemma Minify_step:
  assumes "\<And>t. Minify (x @ t) = after y t" and "Minify s = after z u"
  shows "Minify (x @ s) = after (y @ z) u"
  using after_after [of z u y] assms by (simp add: after_def)

lemma Minify_array_entries:
  assumes "\<And>c t. c \<in> set cs \<Longrightarrow> Minify (f c @ t) = after (g c) t"
  shows "Minify (array_entries fmt (map f cs) @ t) = after (array_entries False (map g cs)) t"
  using assms
proof (induction cs)
  case Nil
  then show ?case by (simp add: after_Nil)
next
  case (Cons c cs)
  have IH: "Minify (array_entries fmt (map f cs) @ t) = after (array_entries False (map g cs)) t"
    by (rule Cons.IH) (use Cons.prems in simp)
  have "Minify ('','' @ gap fmt '' '' @ array_entries fmt (map f cs) @ t) = after ('','' @ array_entries False (map g cs)) t"
    by (rule Minify_step [OF Minify_inert [OF inert_marks(1)]]) (simp add: Minify_gap is_ws_def IH)
  then have "Minify ((if cs = [] then [] else CHR '','' # gap fmt '' '') @ array_entries fmt (map f cs) @ t) =
      after ((if cs = [] then [] else CHR '','' # gap False '' '') @ array_entries False (map g cs)) t"
    using IH by (cases "cs = []") (simp_all add: gap_False after_Nil del: Minify.simps)
  from Minify_step [OF Cons.prems(1) [of c], OF _ this] show ?case by simp
qed

lemma Minify_object_entries:
  assumes "\<And>c t. c \<in> set cs \<Longrightarrow> Minify (f c @ t) = after (g c) t"
    and "\<And>c t. c \<in> set cs \<Longrightarrow> Minify (s c @ t) = after (s c) t"
  shows "Minify (object_entries fmt d (map (\<lambda>c. (s c, f c)) cs) @ t) =
    after (object_entries False d' (map (\<lambda>c. (s c, g c)) cs)) t"
  using assms
proof (induction cs)
  case Nil
  then show ?case by (simp add: after_Nil)
next
  case (Cons c cs)
  let ?es = "object_entries fmt d (map (\<lambda>c. (s c, f c)) cs)"
  let ?es' = "object_entries False d' (map (\<lambda>c. (s c, g c)) cs)"
  let ?comma = "if map (\<lambda>c. (s c, f c)) cs = [] then [] else '',''"
  have IH: "Minify (?es @ t) = after ?es' t" by (rule Cons.IH) (use Cons.prems in simp_all)
  have 1: "Minify (?comma @ gap fmt [NL] @ ?es @ t) = after (?comma @ ?es') t"
    by (rule Minify_step, rule Minify_inert) (simp_all add: inert_marks Minify_gap is_ws_def IH inert_def)
  have 2: "Minify (f c @ ?comma @ gap fmt [NL] @ ?es @ t) = after (g c @ ?comma @ ?es') t"
    by (rule Minify_step [OF Cons.prems(1) 1]) simp
  have 3: "Minify ('':'' @ gap fmt [TAB] @ f c @ ?comma @ gap fmt [NL] @ ?es @ t) = after ('':'' @ g c @ ?comma @ ?es') t"
    by (rule Minify_step [OF Minify_inert [OF inert_marks(2)]]) (simp only: Minify_gap 2 is_ws_def list.set ball_simps simp_thms)
  have 4: "Minify (s c @ '':'' @ gap fmt [TAB] @ f c @ ?comma @ gap fmt [NL] @ ?es @ t) =
      after (s c @ '':'' @ g c @ ?comma @ ?es') t"
    by (rule Minify_step [OF Cons.prems(2) 3]) simp
  have "Minify (gap fmt (replicate d TAB) @ s c @ '':'' @ gap fmt [TAB] @ f c @ ?comma @ gap fmt [NL] @ ?es @ t) =
      after (s c @ '':'' @ g c @ ?comma @ ?es') t"
    by (subst Minify_gap) (simp add: is_ws_def, rule 4)
  then show ?case by (simp add: gap_def)
qed

lemma Minify_render: "printable c \<Longrightarrow> Minify (render fmt d c @ s) = after (render False d' c) s"
proof (induction c arbitrary: d d' s)
  case (CJson ty vs vi vd nm cs)
  define t where "t = ty AND 255"
  have p: "t \<le> J_Object" "t = J_String \<Longrightarrow> plain_name vs"
    "t = J_Array \<or> t = J_Object \<Longrightarrow> c \<in> set cs \<Longrightarrow> printable c \<and> (t = J_Object \<longrightarrow> plain_name (jstring c))" for c
    using CJson.prems by (auto simp: Let_def t_def)
  have IH: "Minify (render fmt (d + 1) c @ s) = after (render False (d' + 1) c) s"
    if "t = J_Array \<or> t = J_Object" "c \<in> set cs" for c s
    using CJson.IH [OF that(2)] p(3) [OF that] by blast
  from and_255_cases [OF p(1)] show ?case
  proof (elim disjE)
    assume "t = J_False"
    then show ?thesis using Minify_inert [of "''false''" s] by (simp add: t_def Let_def inert_def is_ws_def)
  next
    assume "t = J_True"
    then show ?thesis using Minify_inert [of "''true''" s] by (simp add: t_def Let_def inert_def is_ws_def)
  next
    assume "t = J_NULL"
    then show ?thesis using Minify_inert [of "''null''" s] by (simp add: t_def Let_def inert_def is_ws_def)
  next
    assume "t = J_Number"
    then show ?thesis using Minify_inert [OF inert_number_text] by (simp add: t_def Let_def)
  next
    assume "t = J_String"
    then show ?thesis using p(2) Minify_string by (auto simp: t_def Let_def elim: plain_nameE)
  next
    assume t: "t = J_Array"
    have "Minify (array_entries fmt (map (render fmt (d + 1)) cs) @ '']'' @ s) =
        after (array_entries False (map (render False (d' + 1)) cs)) ('']'' @ s)"
      by (rule Minify_array_entries) (use IH t in blast)
    then have "Minify (''['' @ array_entries fmt (map (render fmt (d + 1)) cs) @ '']'' @ s) =
        after (''['' @ array_entries False (map (render False (d' + 1)) cs) @ '']'') s"
      using after_after [of _ s] Minify_inert [OF inert_marks(4), of s] Minify_inert [OF inert_marks(3)]
      by (simp add: after_def rbind_def split: sum.splits)
    moreover have "Minify (''[]'' @ s) = after ''[]'' s" by (rule Minify_inert) (simp add: inert_def is_ws_def)
    ultimately show ?thesis using t by (simp add: t_def Let_def array_text_def)
  next
    assume t: "t = J_Object"
    let ?ps = "\<lambda>fmt d. map (\<lambda>c. (snd (string_text (the (jstring c))), render fmt (d + 1) c)) cs"
    have close: "Minify (gap fmt (replicate d TAB) @ ''}'' @ s) = after ''}'' s"
      by (subst Minify_gap) (simp add: is_ws_def, rule Minify_inert [OF inert_marks(6)])
    have str: "Minify (snd (string_text (the (jstring c))) @ u) = after (snd (string_text (the (jstring c)))) u"
      if "c \<in> set cs" for c u
      using p(3) [OF _ that] t Minify_string by (auto elim: plain_nameE)
    have "Minify (object_entries fmt (d + 1) (?ps fmt d) @ gap fmt (replicate d TAB) @ ''}'' @ s) =
        after (object_entries False (d' + 1) (?ps False d')) (gap fmt (replicate d TAB) @ ''}'' @ s)"
      by (rule Minify_object_entries) (use IH t str in blast)+
    also have "\<dots> = after (object_entries False (d' + 1) (?ps False d') @ ''}'') s"
      using close after_after [of "''}''" s] by (simp add: after_def)
    finally have "Minify (gap fmt [NL] @ object_entries fmt (d + 1) (?ps fmt d) @ gap fmt (replicate d TAB) @ ''}'' @ s) =
        after (object_entries False (d' + 1) (?ps False d') @ ''}'') s"
      by (subst Minify_gap) (simp_all add: is_ws_def)
    from Minify_step [OF Minify_inert [OF inert_marks(5)] this]
    have "Minify (''{'' @ gap fmt [NL] @ object_entries fmt (d + 1) (?ps fmt d) @ gap fmt (replicate d TAB) @ ''}'' @ s) =
        after (''{'' @ object_entries False (d' + 1) (?ps False d') @ ''}'') s" .
    moreover have "Minify (gap fmt (NL # replicate (d - 1) TAB) @ ''}'' @ s) = after ''}'' s"
      by (subst Minify_gap) (simp add: is_ws_def, rule Minify_inert [OF inert_marks(6)])
    from Minify_step [OF Minify_inert [OF inert_marks(5)] this]
    have "Minify (empty_object_text fmt d @ s) = after (empty_object_text False d') s"
      by (simp add: empty_object_text_def gap_def)
    ultimately show ?thesis using t by (simp add: t_def Let_def object_text_def gap_def)
  qed
qed

text \<open>
  C30: \<^verbatim>\<open>tretap_CJson_Minify\<close> takes out exactly the white space of the formatted output: minifying
  what \<^verbatim>\<open>Print\<close> wrote gives what \<^verbatim>\<open>PrintUnformatted\<close> writes, which it leaves as it is, without a
  read behind the text; white space and slashes in strings stay.
\<close>

theorem Minify_of_Print:
  assumes "printable c"
  shows "\<exists>t u. Print c [] = Inr (Some t, []) \<and> PrintUnformatted c [] = Inr (Some u, []) \<and>
    Minify t = Inr u \<and> Minify u = Inr u"
  using yields_print_value [OF assms, of 0 True "[]"] yields_print_value [OF assms, of 0 False "[]"]
    Minify_render [OF assms, of True 0 "[]" 0] Minify_render [OF assms, of False 0 "[]" 0]
  by (auto simp: yields_def Print_def PrintUnformatted_def after_def)

theorem Minify_of_Print_witness:
  "\<exists>t u. Print sample_tree [] = Inr (Some t, []) \<and> PrintUnformatted sample_tree [] = Inr (Some u, []) \<and>
    Minify t = Inr u \<and> Minify u = Inr u"
  by (rule Minify_of_Print) (rule parsed_form_printable [OF sample_tree_parsed(1)])

lemma CreateIntArray_outcomes_instance:
  "CreateIntArray [1, -2, 3] (replicate 2 True @ [False]) = Inl Null_deref \<and>
    (\<exists>a t. CreateIntArray [1, -2, 3] [] = Inr (Some a, []) \<and> child a = map int_item [1, -2, 3] \<and>
      Print a [] = Inr (Some t, []) \<and> Parse t [] = POk a [] [])"
  by (rule CreateIntArray_outcomes) simp_all

end
