(* ===== verification/Sha256.thy ===== *)
theory Sha256
  imports Prelude
begin

text \<open>
  The SHA-224/SHA-256 code of the vendored library that the program links with
  \<^verbatim>\<open>-lcrypto\<close>: \<^verbatim>\<open>crypto/sha/sha256.c\<close> and the streaming frame of
  \<^verbatim>\<open>include/crypto/md32_common.h\<close> it instantiates.

  A context is a record of the source's fields; \<open>ctx_data\<close> is the block buffer seen as the
  bytes the code addresses it by. The lengths \<open>ctx_num\<close> and \<open>ctx_md_len\<close> never leave
  their small ranges and are natural numbers; the bit counter \<open>ctx_Nh\<close>, \<open>ctx_Nl\<close> wraps
  and is kept in words. Both block functions of the file are modelled: the loop of the small
  footprint build, and the unrolled one, whose macro calls permute the working variables.
  \<open>le\<close> stands for \<^verbatim>\<open>IS_LITTLE_ENDIAN\<close>, \<open>aligned\<close> for the alignment test.
\<close>

type_synonym bytes = "u8 list"

record SHA256_CTX =
  ctx_h :: "u32 list"
  ctx_Nl :: u32
  ctx_Nh :: u32
  ctx_data :: bytes
  ctx_num :: nat
  ctx_md_len :: nat

section \<open>Words and bytes\<close>

definition ROTATE :: "u32 \<Rightarrow> nat \<Rightarrow> u32" where
  "ROTATE a n = (push_bit n a) OR (drop_bit (32 - n) (a AND 0xffffffff))"

definition HOST_c2l :: "bytes \<Rightarrow> u32" where
  "HOST_c2l c = push_bit 24 (ucast (c ! 0)) OR push_bit 16 (ucast (c ! 1))
     OR push_bit 8 (ucast (c ! 2)) OR ucast (c ! 3)"

definition HOST_l2c :: "u32 \<Rightarrow> bytes" where
  "HOST_l2c l = [ucast (drop_bit 24 l AND 0xff), ucast (drop_bit 16 l AND 0xff),
     ucast (drop_bit 8 l AND 0xff), ucast (l AND 0xff)]"

text \<open>A word read straight from memory, in the byte order of the machine.\<close>

definition native_word :: "bool \<Rightarrow> bytes \<Rightarrow> u32" where
  "native_word le c = (if le
     then ucast (c ! 0) OR push_bit 8 (ucast (c ! 1)) OR push_bit 16 (ucast (c ! 2)) OR push_bit 24 (ucast (c ! 3))
     else push_bit 24 (ucast (c ! 0)) OR push_bit 16 (ucast (c ! 1)) OR push_bit 8 (ucast (c ! 2)) OR ucast (c ! 3))"

definition K256 :: "u32 list" where
  "K256 = concat
    [[0x428a2f98, 0x71374491, 0xb5c0fbcf, 0xe9b5dba5], [0x3956c25b, 0x59f111f1, 0x923f82a4, 0xab1c5ed5],
     [0xd807aa98, 0x12835b01, 0x243185be, 0x550c7dc3], [0x72be5d74, 0x80deb1fe, 0x9bdc06a7, 0xc19bf174],
     [0xe49b69c1, 0xefbe4786, 0x0fc19dc6, 0x240ca1cc], [0x2de92c6f, 0x4a7484aa, 0x5cb0a9dc, 0x76f988da],
     [0x983e5152, 0xa831c66d, 0xb00327c8, 0xbf597fc7], [0xc6e00bf3, 0xd5a79147, 0x06ca6351, 0x14292967],
     [0x27b70a85, 0x2e1b2138, 0x4d2c6dfc, 0x53380d13], [0x650a7354, 0x766a0abb, 0x81c2c92e, 0x92722c85],
     [0xa2bfe8a1, 0xa81a664b, 0xc24b8b70, 0xc76c51a3], [0xd192e819, 0xd6990624, 0xf40e3585, 0x106aa070],
     [0x19a4c116, 0x1e376c08, 0x2748774c, 0x34b0bcb5], [0x391c0cb3, 0x4ed8aa4a, 0x5b9cca4f, 0x682e6ff3],
     [0x748f82ee, 0x78a5636f, 0x84c87814, 0x8cc70208], [0x90befffa, 0xa4506ceb, 0xbef9a3f7, 0xc67178f2]]"

definition Sigma0 :: "u32 \<Rightarrow> u32" where
  "Sigma0 x = ROTATE x 30 XOR ROTATE x 19 XOR ROTATE x 10"

definition Sigma1 :: "u32 \<Rightarrow> u32" where
  "Sigma1 x = ROTATE x 26 XOR ROTATE x 21 XOR ROTATE x 7"

definition sigma0 :: "u32 \<Rightarrow> u32" where
  "sigma0 x = ROTATE x 25 XOR ROTATE x 14 XOR drop_bit 3 x"

definition sigma1 :: "u32 \<Rightarrow> u32" where
  "sigma1 x = ROTATE x 15 XOR ROTATE x 13 XOR drop_bit 10 x"

definition Ch :: "u32 \<Rightarrow> u32 \<Rightarrow> u32 \<Rightarrow> u32" where
  "Ch x y z = (x AND y) XOR (NOT x AND z)"

definition Maj :: "u32 \<Rightarrow> u32 \<Rightarrow> u32 \<Rightarrow> u32" where
  "Maj x y z = (x AND y) XOR (x AND z) XOR (y AND z)"

section \<open>The block function of the small footprint build\<close>

type_synonym regs = "u32 \<times> u32 \<times> u32 \<times> u32 \<times> u32 \<times> u32 \<times> u32 \<times> u32"

text \<open>One turn of either loop after \<^verbatim>\<open>T1\<close> got the word of the message schedule.\<close>

definition loop_round :: "nat \<Rightarrow> u32 \<Rightarrow> regs \<Rightarrow> regs" where
  "loop_round i T1 s =
    (let (a, b, c, d, e, f, g, h) = s;
         T1 = T1 + (h + Sigma1 e + Ch e f g + K256 ! i);
         T2 = Sigma0 a + Maj a b c;
         h = g; g = f; f = e; e = d + T1; d = c; c = b; b = a; a = T1 + T2
     in (a, b, c, d, e, f, g, h))"

text \<open>What the rounds below 16 and those from 16 on put into \<^verbatim>\<open>T1\<close> and into \<^verbatim>\<open>X\<close>.\<close>

definition first_word :: "(nat \<Rightarrow> u32) \<Rightarrow> nat \<Rightarrow> u32 list \<Rightarrow> u32 \<times> u32 list" where
  "first_word W i X = (W i, X[i := W i])"

definition next_word :: "nat \<Rightarrow> u32 list \<Rightarrow> u32 \<times> u32 list" where
  "next_word i X =
    (let s0 = sigma0 (X ! ((i + 1) mod 16));
         s1 = sigma1 (X ! ((i + 14) mod 16));
         T1 = X ! (i mod 16) + (s0 + s1 + X ! ((i + 9) mod 16))
     in (T1, X[i mod 16 := T1]))"

definition loop_step :: "(nat \<Rightarrow> u32 list \<Rightarrow> u32 \<times> u32 list) \<Rightarrow> nat \<Rightarrow> regs \<times> u32 list \<Rightarrow> regs \<times> u32 list" where
  "loop_step src i s = (let (T1, X) = src i (snd s) in (loop_round i T1 (fst s), X))"

definition load_regs :: "u32 list \<Rightarrow> regs" where
  "load_regs h = (h ! 0, h ! 1, h ! 2, h ! 3, h ! 4, h ! 5, h ! 6, h ! 7)"

definition add_regs :: "u32 list \<Rightarrow> regs \<Rightarrow> u32 list" where
  "add_regs h s =
    (let (a, b, c, d, e, f, g, k) = s
     in [h ! 0 + a, h ! 1 + b, h ! 2 + c, h ! 3 + d, h ! 4 + e, h ! 5 + f, h ! 6 + g, h ! 7 + k])"

definition small_block :: "u32 list \<Rightarrow> bytes \<Rightarrow> u32 list" where
  "small_block h block =
    (let s = (load_regs h, replicate 16 0);
         s = fold (loop_step (first_word (\<lambda>i. HOST_c2l (drop (4 * i) block)))) [0..<16] s;
         s = fold (loop_step next_word) [16..<64] s
     in add_regs h (fst s))"

fun sha256_block_data_order_small :: "SHA256_CTX \<Rightarrow> bytes \<Rightarrow> nat \<Rightarrow> SHA256_CTX" where
  "sha256_block_data_order_small ctx data 0 = ctx"
| "sha256_block_data_order_small ctx data (Suc num) =
    sha256_block_data_order_small (ctx\<lparr>ctx_h := small_block (ctx_h ctx) (take 64 data)\<rparr>) (drop 64 data) num"

section \<open>The unrolled block function\<close>

definition ROUND_00_15 :: "nat \<Rightarrow> u32 \<Rightarrow> regs \<Rightarrow> regs" where
  "ROUND_00_15 i T1 s =
    (let (a, b, c, d, e, f, g, h) = s;
         T1 = T1 + (h + Sigma1 e + Ch e f g + K256 ! i);
         h = Sigma0 a + Maj a b c;
         d = d + T1;
         h = h + T1
     in (a, b, c, d, e, f, g, h))"

text \<open>
  Eight rounds in a row: each macro call names the working variables one place further. \<open>src\<close>
  is \<open>first_word\<close> in the first 16 rounds and \<open>next_word\<close>, the front of
  \<^verbatim>\<open>ROUND_16_63\<close>, in the others.
\<close>

definition eight_rounds :: "(nat \<Rightarrow> u32 list \<Rightarrow> u32 \<times> u32 list) \<Rightarrow> nat \<Rightarrow> regs \<times> u32 list \<Rightarrow> regs \<times> u32 list" where
  "eight_rounds src i s =
    (let ((a, b, c, d, e, f, g, h), X) = s;
         (T1, X) = src i X;       (a, b, c, d, e, f, g, h) = ROUND_00_15 i T1 (a, b, c, d, e, f, g, h);
         (T1, X) = src (i + 1) X; (h, a, b, c, d, e, f, g) = ROUND_00_15 (i + 1) T1 (h, a, b, c, d, e, f, g);
         (T1, X) = src (i + 2) X; (g, h, a, b, c, d, e, f) = ROUND_00_15 (i + 2) T1 (g, h, a, b, c, d, e, f);
         (T1, X) = src (i + 3) X; (f, g, h, a, b, c, d, e) = ROUND_00_15 (i + 3) T1 (f, g, h, a, b, c, d, e);
         (T1, X) = src (i + 4) X; (e, f, g, h, a, b, c, d) = ROUND_00_15 (i + 4) T1 (e, f, g, h, a, b, c, d);
         (T1, X) = src (i + 5) X; (d, e, f, g, h, a, b, c) = ROUND_00_15 (i + 5) T1 (d, e, f, g, h, a, b, c);
         (T1, X) = src (i + 6) X; (c, d, e, f, g, h, a, b) = ROUND_00_15 (i + 6) T1 (c, d, e, f, g, h, a, b);
         (T1, X) = src (i + 7) X; (b, c, d, e, f, g, h, a) = ROUND_00_15 (i + 7) T1 (b, c, d, e, f, g, h, a)
     in ((a, b, c, d, e, f, g, h), X))"

definition unrolled_block :: "bool \<Rightarrow> bool \<Rightarrow> u32 list \<Rightarrow> bytes \<Rightarrow> u32 list" where
  "unrolled_block le aligned h block =
    (let W = (if \<not> le \<and> aligned then (\<lambda>i. native_word le (drop (4 * i) block))
              else (\<lambda>i. HOST_c2l (drop (4 * i) block)));
         s = (load_regs h, replicate 16 0);
         s = eight_rounds (first_word W) 0 s;
         s = eight_rounds (first_word W) 8 s;
         s = fold (eight_rounds next_word) [16, 24, 32, 40, 48, 56] s
     in add_regs h (fst s))"

fun sha256_block_data_order :: "bool \<Rightarrow> bool \<Rightarrow> SHA256_CTX \<Rightarrow> bytes \<Rightarrow> nat \<Rightarrow> SHA256_CTX" where
  "sha256_block_data_order le aligned ctx data 0 = ctx"
| "sha256_block_data_order le aligned ctx data (Suc num) =
    sha256_block_data_order le aligned
      (ctx\<lparr>ctx_h := unrolled_block le aligned (ctx_h ctx) (take 64 data)\<rparr>) (drop 64 data) num"

section \<open>The streaming frame\<close>

definition SHA224_Init :: SHA256_CTX where
  "SHA224_Init = \<lparr>ctx_h = [0xc1059ed8, 0x367cd507, 0x3070dd17, 0xf70e5939, 0xffc00b31, 0x68581511, 0x64f98fa7, 0xbefa4fa4],
     ctx_Nl = 0, ctx_Nh = 0, ctx_data = replicate 64 0, ctx_num = 0, ctx_md_len = 28\<rparr>"

definition SHA256_Init :: SHA256_CTX where
  "SHA256_Init = \<lparr>ctx_h = [0x6a09e667, 0xbb67ae85, 0x3c6ef372, 0xa54ff53a, 0x510e527f, 0x9b05688c, 0x1f83d9ab, 0x5be0cd19],
     ctx_Nl = 0, ctx_Nh = 0, ctx_data = replicate 64 0, ctx_num = 0, ctx_md_len = 32\<rparr>"

definition sha256_192_init :: SHA256_CTX where
  "sha256_192_init = SHA256_Init\<lparr>ctx_md_len := 24\<rparr>"

text \<open>\<^verbatim>\<open>memcpy(p + n, s, \<dots>)\<close> and \<^verbatim>\<open>memset\<close> on the block buffer.\<close>

definition put_at :: "nat \<Rightarrow> bytes \<Rightarrow> bytes \<Rightarrow> bytes" where
  "put_at n s p = take n p @ s @ drop (n + length s) p"

text \<open>The bit counter: the low word carries when its sum wraps.\<close>

definition count_bits :: "SHA256_CTX \<Rightarrow> nat \<Rightarrow> SHA256_CTX" where
  "count_bits c len =
    (let l = ctx_Nl c + push_bit 3 (of_nat len);
         c = (if l < ctx_Nl c then c\<lparr>ctx_Nh := ctx_Nh c + 1\<rparr> else c);
         c = c\<lparr>ctx_Nh := ctx_Nh c + of_nat (len div 2 ^ 29)\<rparr>
     in c\<lparr>ctx_Nl := l\<rparr>)"

text \<open>The end of \<^verbatim>\<open>HASH_UPDATE\<close>: the whole blocks of the data, then what is left of it.\<close>

definition absorb_blocks :: "bool \<Rightarrow> bool \<Rightarrow> SHA256_CTX \<Rightarrow> bytes \<Rightarrow> SHA256_CTX" where
  "absorb_blocks le aligned c data =
    (let n = length data div 64;
         c = (if 0 < n then sha256_block_data_order le aligned c data n else c);
         data = (if 0 < n then drop (n * 64) data else data)
     in if length data \<noteq> 0
        then c\<lparr>ctx_num := length data, ctx_data := put_at 0 data (ctx_data c)\<rparr>
        else c)"

definition SHA256_Update :: "bool \<Rightarrow> bool \<Rightarrow> SHA256_CTX \<Rightarrow> bytes \<Rightarrow> SHA256_CTX" where
  "SHA256_Update le aligned c data =
    (let len = length data in
     if len = 0 then c
     else
       let c = count_bits c len;
           n = ctx_num c
       in if n \<noteq> 0
          then if 64 \<le> len \<or> 64 \<le> len + n
               then let c = c\<lparr>ctx_data := put_at n (take (64 - n) data) (ctx_data c)\<rparr>;
                        c = sha256_block_data_order le aligned c (ctx_data c) 1;
                        data = drop (64 - n) data;
                        c = c\<lparr>ctx_num := 0\<rparr>;
                        c = c\<lparr>ctx_data := replicate 64 0\<rparr>
                    in absorb_blocks le aligned c data
               else c\<lparr>ctx_data := put_at n data (ctx_data c), ctx_num := ctx_num c + len\<rparr>
          else absorb_blocks le aligned c data)"

definition SHA256_Transform :: "bool \<Rightarrow> bool \<Rightarrow> SHA256_CTX \<Rightarrow> bytes \<Rightarrow> SHA256_CTX" where
  "SHA256_Transform le aligned c data = sha256_block_data_order le aligned c data 1"

text \<open>
  \<^verbatim>\<open>HASH_MAKE_STRING\<close>: the cases of the switch differ in the length only; a length above 32
  makes the function return 0, here \<open>None\<close>.
\<close>

definition HASH_MAKE_STRING :: "SHA256_CTX \<Rightarrow> bytes option" where
  "HASH_MAKE_STRING c =
    (let word = (\<lambda>nn. HOST_l2c (ctx_h c ! nn)) in
     if ctx_md_len c = 24 then Some (concat (map word [0..<24 div 4]))
     else if ctx_md_len c = 28 then Some (concat (map word [0..<28 div 4]))
     else if ctx_md_len c = 32 then Some (concat (map word [0..<32 div 4]))
     else if 32 < ctx_md_len c then None
     else Some (concat (map word [0..<ctx_md_len c div 4])))"

definition SHA256_Final :: "bool \<Rightarrow> bool \<Rightarrow> SHA256_CTX \<Rightarrow> bytes option \<times> SHA256_CTX" where
  "SHA256_Final le aligned c =
    (let n = ctx_num c;
         c = c\<lparr>ctx_data := put_at n [0x80] (ctx_data c)\<rparr>;
         n = n + 1;
         full = (64 - 8 < n);
         c = (if full then c\<lparr>ctx_data := put_at n (replicate (64 - n) 0) (ctx_data c)\<rparr> else c);
         c = (if full then sha256_block_data_order le aligned c (ctx_data c) 1 else c);
         n = (if full then 0 else n);
         c = c\<lparr>ctx_data := put_at n (replicate (64 - 8 - n) 0) (ctx_data c)\<rparr>;
         c = c\<lparr>ctx_data := put_at (64 - 8) (HOST_l2c (ctx_Nh c) @ HOST_l2c (ctx_Nl c)) (ctx_data c)\<rparr>;
         c = sha256_block_data_order le aligned c (ctx_data c) 1;
         c = c\<lparr>ctx_num := 0, ctx_data := replicate 64 0\<rparr>
     in (HASH_MAKE_STRING c, c))"

definition SHA224_Update :: "bool \<Rightarrow> bool \<Rightarrow> SHA256_CTX \<Rightarrow> bytes \<Rightarrow> SHA256_CTX" where
  "SHA224_Update le aligned c data = SHA256_Update le aligned c data"

definition SHA224_Final :: "bool \<Rightarrow> bool \<Rightarrow> SHA256_CTX \<Rightarrow> bytes option \<times> SHA256_CTX" where
  "SHA224_Final le aligned c = SHA256_Final le aligned c"

end
