(* ===== verification/Sha256_Correct.thy ===== *)
theory Sha256_Correct
  imports Sha256
begin

text \<open>
  What \<^verbatim>\<open>sha256.c\<close> computes. The two block functions of the file agree for every byte
  order and alignment; one block is the compression of FIPS 180-4, stated here with right
  rotations and the full message schedule instead of a ring of 16 words; a context
  \<open>absorbed\<close> the bytes it was fed, however they were split into calls; the final call
  returns the digest of the padded message, with the length field taken modulo \<open>2 ^ 64\<close>.
\<close>


section \<open>Both block functions agree\<close>

definition turn :: "regs \<Rightarrow> regs" where
  "turn s = (let (a, b, c, d, e, f, g, h) = s in (b, c, d, e, f, g, h, a))"

definition new_a :: "nat \<Rightarrow> u32 \<Rightarrow> regs \<Rightarrow> u32" where
  "new_a i T1 s = (let (a, b, c, d, e, f, g, h) = s in
     T1 + (h + Sigma1 e + Ch e f g + K256 ! i) + (Sigma0 a + Maj a b c))"

definition new_e :: "nat \<Rightarrow> u32 \<Rightarrow> regs \<Rightarrow> u32" where
  "new_e i T1 s = (let (a, b, c, d, e, f, g, h) = s in
     d + (T1 + (h + Sigma1 e + Ch e f g + K256 ! i)))"

lemma loop_round_new:
  "loop_round i T1 (a, b, c, d, e, f, g, h) =
    (new_a i T1 (a, b, c, d, e, f, g, h), a, b, c, new_e i T1 (a, b, c, d, e, f, g, h), e, f, g)"
  by (simp add: loop_round_def new_a_def new_e_def Let_def)

lemma ROUND_new:
  "ROUND_00_15 i T1 (a, b, c, d, e, f, g, h) =
    (a, b, c, new_e i T1 (a, b, c, d, e, f, g, h), e, f, g, new_a i T1 (a, b, c, d, e, f, g, h))"
  by (simp add: ROUND_00_15_def new_a_def new_e_def Let_def add.commute)

lemma upt_eight: "[i..<i + 8] = [i, i + 1, i + 2, i + 3, i + 4, i + 5, i + 6, i + 7 :: nat]"
  by (simp add: upt_rec)

lemma eight_rounds_loop: "eight_rounds src i s = fold (loop_step src) [i..<i + 8] s"
proof -
  obtain a b c d e f g h X where s: "s = ((a, b, c, d, e, f, g, h), X)"
    by (cases s) auto
  show ?thesis
    unfolding s upt_eight eight_rounds_def loop_step_def
    by (simp only: fold_simps Let_def prod.case fst_conv snd_conv case_prod_beta loop_round_new ROUND_new comp_def id_apply)
qed


lemma fold_eights: "fold (eight_rounds src) [16, 24, 32, 40, 48, 56] s = fold (loop_step src) [16..<64] s"
proof -
  have "[16..<64] = [16..<16 + 8] @ [24..<24 + 8] @ [32..<32 + 8] @ [40..<40 + 8] @ [48..<48 + 8] @ [56..<56 + (8 :: nat)]"
    by (simp add: upt_rec)
  then show ?thesis by (simp only: fold_append fold_simps comp_def id_apply eight_rounds_loop)
qed

lemma native_word_be: "native_word False c = HOST_c2l c"
  by (simp add: native_word_def HOST_c2l_def)

lemma unrolled_small: "unrolled_block le aligned h block = small_block h block"
proof -
  have "[0..<16] = [0..<0 + 8] @ [8..<8 + (8 :: nat)]" by (simp add: upt_rec)
  then have first: "fold (loop_step src) [0..<16] s = eight_rounds src 8 (eight_rounds src 0 s)" for src s
    by (simp only: fold_append comp_def eight_rounds_loop)
  show ?thesis
    by (cases le; cases aligned)
      (simp_all only: unrolled_block_def small_block_def Let_def first fold_eights native_word_be simp_thms if_True if_False)
qed

text \<open>
  C20: The loop of the small footprint build and the unrolled rounds with their rotated arguments
  compute the same context from any number of blocks, and neither the byte order of the machine nor
  the alignment of the data changes it.
\<close>

theorem block_functions_agree:
  "sha256_block_data_order le aligned ctx data num = sha256_block_data_order_small ctx data num"
  by (induction num arbitrary: ctx data) (simp_all add: unrolled_small)

section \<open>The specification\<close>

definition ror_Sigma0 :: "u32 \<Rightarrow> u32" where
  "ror_Sigma0 x = word_rotr 2 x XOR word_rotr 13 x XOR word_rotr 22 x"

definition ror_Sigma1 :: "u32 \<Rightarrow> u32" where
  "ror_Sigma1 x = word_rotr 6 x XOR word_rotr 11 x XOR word_rotr 25 x"

definition ror_sigma0 :: "u32 \<Rightarrow> u32" where
  "ror_sigma0 x = word_rotr 7 x XOR word_rotr 18 x XOR drop_bit 3 x"

definition ror_sigma1 :: "u32 \<Rightarrow> u32" where
  "ror_sigma1 x = word_rotr 17 x XOR word_rotr 19 x XOR drop_bit 10 x"

lemma ROTATE_rotr:
  assumes "n < 32" "0 < n"
  shows "ROTATE x n = word_rotr (32 - n) x"
proof (rule bit_word_eqI)
  fix k assume "k < LENGTH(32)"
  then have k: "k < 32" by simp
  have m: "(0xffffffff :: u32) = mask 32" by (simp add: mask_eq_exp_minus_1)
  show "bit (ROTATE x n) k = bit (word_rotr (32 - n) x) k"
    using k assms
    by (cases "k < n") (auto simp: ROTATE_def m bit_simps bit_word_rotr_iff mod_if not_less add.commute dest: bit_imp_le_length)
qed


lemma rotations:
  "Sigma0 x = ror_Sigma0 x" "Sigma1 x = ror_Sigma1 x" "sigma0 x = ror_sigma0 x" "sigma1 x = ror_sigma1 x"
  by (simp_all add: Sigma0_def Sigma1_def sigma0_def sigma1_def ror_Sigma0_def ror_Sigma1_def
      ror_sigma0_def ror_sigma1_def ROTATE_rotr)

definition be_word :: "bytes \<Rightarrow> u32" where
  "be_word c = of_nat (unat (c ! 0) * 2 ^ 24 + unat (c ! 1) * 2 ^ 16 + unat (c ! 2) * 2 ^ 8 + unat (c ! 3))"

definition be_bytes :: "nat \<Rightarrow> nat \<Rightarrow> bytes" where
  "be_bytes k n = map (\<lambda>i. of_nat (n div 256 ^ (k - 1 - i))) [0..<k]"

definition fips_schedule :: "bytes \<Rightarrow> u32 list" where
  "fips_schedule block =
    fold (\<lambda>t W. W @ [ror_sigma1 (W ! (t - 2)) + W ! (t - 7) + ror_sigma0 (W ! (t - 15)) + W ! (t - 16)])
      [16..<64] (map (\<lambda>t. be_word (drop (4 * t) block)) [0..<16])"

definition fips_round :: "u32 list \<Rightarrow> nat \<Rightarrow> regs \<Rightarrow> regs" where
  "fips_round W t s =
    (let (a, b, c, d, e, f, g, h) = s;
         T1 = h + ror_Sigma1 e + Ch e f g + K256 ! t + W ! t;
         T2 = ror_Sigma0 a + Maj a b c
     in (T1 + T2, a, b, c, d + T1, e, f, g))"

definition fips_compress :: "u32 list \<Rightarrow> bytes \<Rightarrow> u32 list" where
  "fips_compress H block = add_regs H (fold (fips_round (fips_schedule block)) [0..<64] (load_regs H))"

fun fips_blocks :: "u32 list \<Rightarrow> bytes \<Rightarrow> nat \<Rightarrow> u32 list" where
  "fips_blocks H xs 0 = H"
| "fips_blocks H xs (Suc n) = fips_blocks (fips_compress H (take 64 xs)) (drop 64 xs) n"

definition fips_pad :: "bytes \<Rightarrow> bytes" where
  "fips_pad msg = msg @ [0x80] @ replicate ((119 - length msg mod 64) mod 64) 0 @ be_bytes 8 (8 * length msg)"

definition fips_hash :: "u32 list \<Rightarrow> nat \<Rightarrow> bytes \<Rightarrow> bytes" where
  "fips_hash iv len msg =
    take len (concat (map (\<lambda>w. be_bytes 4 (unat w)) (fips_blocks iv (fips_pad msg) (length (fips_pad msg) div 64))))"

lemma HOST_c2l_be_word: "HOST_c2l c = be_word c"
proof -
  have or_add: "push_bit m (ucast b) + x = push_bit m (ucast b) OR x"
    if "\<And>k. bit x k \<Longrightarrow> k < m" for m and b :: u8 and x :: u32
    by (rule disjunctive_add) (use that in \<open>fastforce simp: bit_push_bit_iff not_less\<close>)
  have low: "k < 8" if "bit (b :: u8) k" for b k using bit_imp_le_length [OF that] by simp
  have lows: "bit (push_bit n (ucast (b :: u8) :: u32)) k \<Longrightarrow> k < n + 8" for n b k
    by (auto simp: bit_simps dest: low)
  have "be_word c = push_bit 24 (ucast (c ! 0)) + (push_bit 16 (ucast (c ! 1)) + (push_bit 8 (ucast (c ! 2)) + ucast (c ! 3)))"
    by (simp add: be_word_def push_bit_eq_mult mult.commute)
  also have "\<dots> = push_bit 24 (ucast (c ! 0)) + (push_bit 16 (ucast (c ! 1)) + (push_bit 8 (ucast (c ! 2)) OR ucast (c ! 3)))"
    by (subst or_add [where m = 8]) (auto simp: bit_simps dest: low)
  also have "\<dots> = push_bit 24 (ucast (c ! 0)) + (push_bit 16 (ucast (c ! 1)) OR (push_bit 8 (ucast (c ! 2)) OR ucast (c ! 3)))"
    by (subst or_add [where m = 16]) (auto simp: bit_simps dest: low)
  also have "\<dots> = push_bit 24 (ucast (c ! 0)) OR (push_bit 16 (ucast (c ! 1)) OR (push_bit 8 (ucast (c ! 2)) OR ucast (c ! 3)))"
    by (subst or_add [where m = 24]) (auto simp: bit_simps dest: low)
  finally show ?thesis by (simp add: HOST_c2l_def or.assoc)
qed

lemma byte_of_word: "(ucast (drop_bit k (w :: u32) AND 0xff) :: u8) = of_nat (unat w div 2 ^ k)"
proof (rule bit_word_eqI)
  fix n assume "n < LENGTH(8)"
  then have n: "n < 8" by simp
  have m: "(0xff :: u32) = mask 8" by (simp add: mask_eq_exp_minus_1)
  show "bit (ucast (drop_bit k w AND 0xff) :: u8) n = bit (of_nat (unat w div 2 ^ k) :: u8) n"
    using n by (auto simp: m bit_simps bit_of_nat_iff drop_bit_eq_div [symmetric] dest: bit_imp_le_length)
qed

lemma upt_4: "[0..<4] = [0, 1, 2, 3 :: nat]" and upt_8: "[0..<8] = [0, 1, 2, 3, 4, 5, 6, 7 :: nat]"
  by (simp_all add: upt_rec)

lemma HOST_l2c_be_bytes: "HOST_l2c w = be_bytes 4 (unat w)"
  using byte_of_word [of 0 w] by (simp add: HOST_l2c_def be_bytes_def byte_of_word upt_4)

lemma byte_mod: "(of_nat (n mod 2 ^ 32 div 2 ^ k) :: u8) = of_nat (n div 2 ^ k)" if "k \<le> 24"
proof (rule bit_word_eqI)
  fix i assume "i < LENGTH(8)"
  then show "bit (of_nat (n mod 2 ^ 32 div 2 ^ k) :: u8) i = bit (of_nat (n div 2 ^ k) :: u8) i"
    unfolding drop_bit_eq_div [symmetric] take_bit_eq_mod [symmetric] using that
    by (simp add: bit_of_nat_iff bit_simps)
qed

lemma be_bytes_split: "HOST_l2c (of_nat (N div 2 ^ 32)) @ HOST_l2c (of_nat N) = be_bytes 8 N"
proof -
  have [simp]: "unat (of_nat n :: u32) = n mod 2 ^ 32" for n by (simp add: unsigned_of_nat take_bit_eq_mod)
  show ?thesis
    using byte_mod [of 0] byte_mod [of 8] byte_mod [of 16] byte_mod [of 24]
    by (simp add: HOST_l2c_be_bytes be_bytes_def upt_4 upt_8 div_mult2_eq [symmetric])
qed
subsection \<open>The message schedule\<close>

definition schedule_word :: "u32 list \<Rightarrow> nat \<Rightarrow> u32" where
  "schedule_word W t = ror_sigma1 (W ! (t - 2)) + W ! (t - 7) + ror_sigma0 (W ! (t - 15)) + W ! (t - 16)"

lemma fips_schedule_fold:
  "fips_schedule block = fold (\<lambda>t W. W @ [schedule_word W t]) [16..<64] (map (\<lambda>t. be_word (drop (4 * t) block)) [0..<16])"
  by (simp only: fips_schedule_def schedule_word_def)

lemma fold_extend:
  fixes f :: "'a list \<Rightarrow> nat \<Rightarrow> 'a"
  assumes "m \<le> n" "length W = m"
  shows "length (fold (\<lambda>t W. W @ [f W t]) [m..<n] W) = n \<and>
    (\<exists>V. fold (\<lambda>t W. W @ [f W t]) [m..<n] W = W @ V)"
  using assms
proof (induction n)
  case (Suc n)
  then show ?case by (cases "m = Suc n") auto
qed simp

lemma upt_split: "m \<le> t \<Longrightarrow> t < n \<Longrightarrow> [m..<n] = [m..<t] @ t # [Suc t..<n]"
  by (metis le_add_diff_inverse less_imp_le_nat upt_add_eq_append upt_conv_Cons)

lemma fold_extend_nth:
  fixes f :: "'a list \<Rightarrow> nat \<Rightarrow> 'a"
  assumes "m \<le> t" "t < n" "length W = m"
  defines "S \<equiv> \<lambda>n. fold (\<lambda>t W. W @ [f W t]) [m..<n] W"
  shows "S n ! t = f (S t) t" "j < t \<Longrightarrow> S t ! j = S n ! j"
proof -
  have len: "length (S k) = k" if "m \<le> k" for k using fold_extend [of m k W f] that assms by simp
  have "S n = fold (\<lambda>t W. W @ [f W t]) [Suc t..<n] (S t @ [f (S t) t])"
    unfolding S_def upt_split [OF assms(1,2)] by simp
  moreover obtain V where "fold (\<lambda>t W. W @ [f W t]) [Suc t..<n] (S t @ [f (S t) t]) = (S t @ [f (S t) t]) @ V"
    using fold_extend [of "Suc t" n "S t @ [f (S t) t]" f] assms(1,2) len [of t] by auto
  ultimately have "S n = S t @ f (S t) t # V" by simp
  then show "S n ! t = f (S t) t" "j < t \<Longrightarrow> S t ! j = S n ! j"
    using len [OF assms(1)] by (simp_all add: nth_append)
qed

lemma schedule_first:
  assumes "t < 16"
  shows "fips_schedule block ! t = be_word (drop (4 * t) block)"
proof -
  let ?W = "map (\<lambda>t. be_word (drop (4 * t) block)) [0..<16]"
  have len: "length ?W = 16" by (simp del: upt_rec_numeral)
  have "16 \<le> (64 :: nat)" by simp
  with len obtain V where "fips_schedule block = ?W @ V"
    unfolding fips_schedule_fold using conjunct2 [OF fold_extend] by blast
  with assms len show ?thesis by (simp add: nth_append del: upt_rec_numeral)
qed

lemma schedule_next:
  assumes "16 \<le> t" "t < 64"
  shows "fips_schedule block ! t = schedule_word (fips_schedule block) t"
proof -
  have len: "length (map (\<lambda>t. be_word (drop (4 * t) block)) [0..<16]) = 16" by (simp del: upt_rec_numeral)
  note e = fold_extend_nth [OF assms len, where f = schedule_word]
  have j: "t - 2 < t" "t - 7 < t" "t - 15 < t" "t - 16 < t" using assms by simp_all
  show ?thesis
    unfolding fips_schedule_fold
    by (subst e(1)) (simp only: schedule_word_def [of _ t] e(2) [OF j(1)] e(2) [OF j(2)] e(2) [OF j(3)] e(2) [OF j(4)])
qed

subsection \<open>The rounds\<close>

lemma loop_round_fips: "loop_round t (W ! t) s = fips_round W t s"
  by (cases s) (simp add: loop_round_def fips_round_def rotations Let_def algebra_simps)

lemma loop_step_at: "src i X = (V ! i, X') \<Longrightarrow> loop_step src i (s, X) = (fips_round V i s, X')"
  by (simp add: loop_step_def loop_round_fips)

lemma fold_upt_Suc: "m \<le> n \<Longrightarrow> fold f [m..<Suc n] s = f n (fold f [m..<n] s)"
  by simp

lemma first_rounds:
  assumes W: "\<And>t. t < 16 \<Longrightarrow> W t = V ! t" and "length X = 16" and "n \<le> 16"
  shows "\<exists>X'. fold (loop_step (first_word W)) [0..<n] (s, X) = (fold (fips_round V) [0..<n] s, X') \<and>
    length X' = 16 \<and> (\<forall>j < n. X' ! j = V ! j)"
  using \<open>n \<le> 16\<close>
proof (induction n)
  case (Suc n)
  then obtain X' where ih: "fold (loop_step (first_word W)) [0..<n] (s, X) = (fold (fips_round V) [0..<n] s, X')"
    "length X' = 16" "\<forall>j < n. X' ! j = V ! j" by auto
  have "first_word W n X' = (V ! n, X'[n := V ! n])" using Suc.prems W by (simp add: first_word_def)
  note step = loop_step_at [where src = "first_word W", OF this]
  have "fold (loop_step (first_word W)) [0..<Suc n] (s, X) = (fold (fips_round V) [0..<Suc n] s, X'[n := V ! n])"
    by (simp only: fold_upt_Suc le0 ih(1) step)
  with ih Suc.prems show ?case
    by (intro exI [of _ "X'[n := V ! n]"]) (simp only: length_list_update, simp add: nth_list_update less_Suc_eq del: upt_Suc)
qed (use assms in simp)

definition ring :: "u32 list \<Rightarrow> u32 list \<Rightarrow> nat \<Rightarrow> bool" where
  "ring V X n \<longleftrightarrow> length X = 16 \<and> (\<forall>j < n. n \<le> j + 16 \<longrightarrow> X ! (j mod 16) = V ! j)"

lemma ring_nth:
  assumes "ring V X n" "16 \<le> n" "0 < k" "k \<le> 16" "i mod 16 = (n - k) mod 16"
  shows "X ! (i mod 16) = V ! (n - k)"
proof -
  have "n - k < n" "n \<le> n - k + 16" using assms(2-4) by simp_all
  with assms(1) have "X ! ((n - k) mod 16) = V ! (n - k)" unfolding ring_def by blast
  then show ?thesis by (simp only: assms(5))
qed

lemma next_word_ring:
  assumes r: "ring V X n" "16 \<le> n" and V: "V ! n = schedule_word V n"
  shows "next_word n X = (V ! n, X[n mod 16 := V ! n])" "ring V (X[n mod 16 := V ! n]) (Suc n)"
proof -
  have i: "(n + 1) mod 16 = (n - 15) mod 16" "(n + 14) mod 16 = (n - 2) mod 16" "(n + 9) mod 16 = (n - 7) mod 16"
    "n mod 16 = (n - 16) mod 16"
  proof -
    obtain m where n: "n = m + 16" using r(2) by (metis le_add_diff_inverse2)
    have "n + 1 = (m + 1) + 16" "n - 15 = m + 1" "n + 14 = (m + 14) + 16" "n - 2 = m + 14"
      "n + 9 = (m + 9) + 16" "n - 7 = m + 9" "n - 16 = m" by (simp_all add: n)
    then show "(n + 1) mod 16 = (n - 15) mod 16" "(n + 14) mod 16 = (n - 2) mod 16"
      "(n + 9) mod 16 = (n - 7) mod 16" "n mod 16 = (n - 16) mod 16"
      by (simp_all only: mod_add_self2) (simp only: n mod_add_self2)
  qed
  note X = ring_nth [OF r _ _ i(1)] ring_nth [OF r _ _ i(2)] ring_nth [OF r _ _ i(3)] ring_nth [OF r _ _ i(4)]
  have le: "0 < (15 :: nat)" "(15 :: nat) \<le> 16" "0 < (2 :: nat)" "(2 :: nat) \<le> 16" "0 < (7 :: nat)" "(7 :: nat) \<le> 16"
    "0 < (16 :: nat)" "(16 :: nat) \<le> 16" by simp_all
  have "next_word n X = (schedule_word V n, X[n mod 16 := schedule_word V n])"
    unfolding next_word_def schedule_word_def
    by (simp only: Let_def rotations X(1) [OF le(1,2)] X(2) [OF le(3,4)] X(3) [OF le(5,6)] X(4) [OF le(7,8)])
      (simp only: ac_simps)
  then show "next_word n X = (V ! n, X[n mod 16 := V ! n])" by (simp only: V)
  have neq: "j mod 16 \<noteq> n mod 16" if "j < n" "Suc n \<le> j + 16" for j
  proof
    assume "j mod 16 = n mod 16"
    then have "16 dvd n - j" using that mod_eq_dvd_iff_nat [of j n 16] by simp
    with that show False by (auto dest!: dvd_imp_le)
  qed
  have "X[n mod 16 := V ! n] ! (j mod 16) = V ! j" if "j < Suc n" "Suc n \<le> j + 16" for j
  proof (cases "j = n")
    case False
    with that have "j < n" "n \<le> j + 16" by simp_all
    moreover have "n mod 16 \<noteq> j mod 16" using neq [OF \<open>j < n\<close> that(2)] by simp
    ultimately show ?thesis using r(1) by (simp add: ring_def)
  qed (use r in \<open>simp add: ring_def\<close>)
  with r(1) show "ring V (X[n mod 16 := V ! n]) (Suc n)" by (simp add: ring_def)
qed

lemma next_rounds:
  assumes "ring V X 16" and V: "\<And>t. 16 \<le> t \<Longrightarrow> t < 64 \<Longrightarrow> V ! t = schedule_word V t"
    and "16 \<le> n" "n \<le> 64"
  shows "\<exists>X'. fold (loop_step next_word) [16..<n] (s, X) = (fold (fips_round V) [16..<n] s, X') \<and> ring V X' n"
  using \<open>16 \<le> n\<close> \<open>n \<le> 64\<close>
proof (induction n rule: dec_induct)
  case base
  show ?case using assms(1) by simp
next
  case (step n)
  then obtain X' where ih: "fold (loop_step next_word) [16..<n] (s, X) = (fold (fips_round V) [16..<n] s, X')" "ring V X' n"
    by auto
  have Vn: "V ! n = schedule_word V n" using step by (intro V) auto
  note n = next_word_ring [OF ih(2) step(1) Vn]
  have "fold (loop_step next_word) [16..<Suc n] (s, X) = (fold (fips_round V) [16..<Suc n] s, X'[n mod 16 := V ! n])"
    using step(1) by (simp only: fold_upt_Suc ih(1) loop_step_at [where src = next_word, OF n(1)])
  with n(2) show ?case by blast
qed

lemma small_block_fips: "small_block H block = fips_compress H block"
proof -
  let ?V = "fips_schedule block"
  have W: "t < 16 \<Longrightarrow> HOST_c2l (drop (4 * t) block) = ?V ! t" for t by (simp add: schedule_first HOST_c2l_be_word)
  obtain X where X: "fold (loop_step (first_word (\<lambda>i. HOST_c2l (drop (4 * i) block)))) [0..<16] (load_regs H, replicate 16 0)
      = (fold (fips_round ?V) [0..<16] (load_regs H), X)" "length X = 16" "\<forall>j < 16. X ! j = ?V ! j"
    using first_rounds [where V = ?V and n = 16 and X = "replicate 16 0", OF W] by (metis length_replicate order_refl)
  then have r: "ring ?V X 16" by (simp add: ring_def)
  obtain X' where Y: "fold (loop_step next_word) [16..<64] (fold (fips_round ?V) [0..<16] (load_regs H), X)
      = (fold (fips_round ?V) [16..<64] (fold (fips_round ?V) [0..<16] (load_regs H)), X')"
    using next_rounds [OF r schedule_next, of 64] by (metis order_refl numeral_le_iff semiring_norm(68,71))
  have "[0..<64] = [0..<16] @ [16..<64 :: nat]" using upt_add_eq_append [of 0 16 48] by simp
  then have "fold (fips_round ?V) [0..<64] s = fold (fips_round ?V) [16..<64] (fold (fips_round ?V) [0..<16] s)" for s
    by (simp only: fold_append comp_def)
  then show ?thesis
    by (simp only: small_block_def fips_compress_def Let_def X(1) Y fst_conv)
qed

section \<open>The stream\<close>

lemma block_data_order_fips:
  "sha256_block_data_order le aligned c xs n = c\<lparr>ctx_h := fips_blocks (ctx_h c) xs n\<rparr>"
  by (induction n arbitrary: c xs) (simp_all add: unrolled_small small_block_fips)

lemma fips_blocks_add: "fips_blocks H xs (n + m) = fips_blocks (fips_blocks H xs n) (drop (64 * n) xs) m"
  by (induction n arbitrary: H xs) (simp_all add: add.commute)

lemma fips_blocks_append: "64 * n \<le> length xs \<Longrightarrow> fips_blocks H (xs @ ys) n = fips_blocks H xs n"
  by (induction n arbitrary: H xs) simp_all

lemma fips_blocks_end:
  assumes "length msg = 64 * q"
  shows "fips_blocks H (msg @ xs) (q + m) = fips_blocks (fips_blocks H msg q) xs m"
  by (simp add: fips_blocks_add fips_blocks_append assms)

definition absorbed :: "u32 list \<Rightarrow> nat \<Rightarrow> SHA256_CTX \<Rightarrow> bytes \<Rightarrow> bool" where
  "absorbed iv k c msg \<longleftrightarrow>
    length (ctx_data c) = 64 \<and> ctx_md_len c = k \<and> ctx_num c = length msg mod 64 \<and>
    take (ctx_num c) (ctx_data c) = drop (64 * (length msg div 64)) msg \<and>
    ctx_h c = fips_blocks iv msg (length msg div 64) \<and>
    ctx_Nh c = of_nat (8 * length msg div 2 ^ 32) \<and> ctx_Nl c = of_nat (8 * length msg)"

lemma carried:
  fixes B x y :: nat
  assumes "0 < B"
  shows "(x + y) div B = x div B + y div B + (if B \<le> x mod B + y mod B then 1 else 0)"
    and "(x + y) mod B < x mod B \<longleftrightarrow> B \<le> x mod B + y mod B"
proof -
  have lt: "x mod B < B" "y mod B < B" using assms by simp_all
  have d: "(x + y) div B = x div B + y div B + (x mod B + y mod B) div B" by (rule div_add1_eq)
  have m: "(x + y) mod B = (x mod B + y mod B) mod B" by (simp add: mod_add_eq)
  have "(x mod B + y mod B) div B = (if B \<le> x mod B + y mod B then 1 else 0)"
  proof (cases "B \<le> x mod B + y mod B")
    case True
    moreover have "x mod B + y mod B - B < B" using lt by linarith
    ultimately show ?thesis using assms by (simp add: le_div_geq)
  qed simp
  then show "(x + y) div B = x div B + y div B + (if B \<le> x mod B + y mod B then 1 else 0)"
    by (simp add: d)
  show "(x + y) mod B < x mod B \<longleftrightarrow> B \<le> x mod B + y mod B"
  proof (cases "B \<le> x mod B + y mod B")
    case True
    moreover have "x mod B + y mod B - B < B" using lt by linarith
    ultimately have "(x mod B + y mod B) mod B = x mod B + y mod B - B" by (simp add: le_mod_geq)
    with True show ?thesis using lt m by linarith
  qed (simp add: m)
qed

lemma count_bits_counts:
  assumes "ctx_Nh c = of_nat (8 * m div 2 ^ 32)" "ctx_Nl c = of_nat (8 * m)"
  shows "count_bits c len = c\<lparr>ctx_Nh := of_nat (8 * (m + len) div 2 ^ 32), ctx_Nl := of_nat (8 * (m + len))\<rparr>"
proof -
  have l: "ctx_Nl c + push_bit 3 (of_nat len) = of_nat (8 * (m + len))"
    by (simp add: assms push_bit_eq_mult algebra_simps)
  have u: "unat (of_nat n :: u32) = n mod 2 ^ 32" for n by (simp add: unsigned_of_nat take_bit_eq_mod)
  have eight: "8 * len div 2 ^ 32 = len div 2 ^ 29" using div_mult_mult1 [of 8 len "2 ^ 29"] by simp
  have sum: "8 * (m + len) div 2 ^ 32 = 8 * m div 2 ^ 32 + len div 2 ^ 29 +
      (if 2 ^ 32 \<le> 8 * m mod 2 ^ 32 + 8 * len mod 2 ^ 32 then 1 else 0)"
    and carry: "(8 * (m + len)) mod 2 ^ 32 < 8 * m mod 2 ^ 32 \<longleftrightarrow> 2 ^ 32 \<le> 8 * m mod 2 ^ 32 + 8 * len mod 2 ^ 32"
    using carried [of "2 ^ 32" "8 * m" "8 * len"] by (simp_all add: eight algebra_simps)
  have lt: "of_nat (8 * (m + len)) < ctx_Nl c \<longleftrightarrow> 2 ^ 32 \<le> 8 * m mod 2 ^ 32 + 8 * len mod 2 ^ 32"
    unfolding word_less_nat_alt u carry assms(2) ..
  define A where "A = 8 * m div 2 ^ 32"
  define B where "B = len div 2 ^ 29"
  define C where "C = 8 * (m + len)"
  define D where "D \<longleftrightarrow> (2 :: nat) ^ 32 \<le> 8 * m mod 2 ^ 32 + 8 * len mod 2 ^ 32"
  show ?thesis
    using assms(1) unfolding count_bits_def Let_def l lt sum
    unfolding A_def [symmetric] B_def [symmetric] C_def [symmetric] D_def [symmetric]
    by (cases D) simp_all
qed


lemma put_at_length [simp]: "n + length s \<le> length p \<Longrightarrow> length (put_at n s p) = length p"
  by (simp add: put_at_def)

lemma put_at_take: "n \<le> length p \<Longrightarrow> take (n + length s) (put_at n s p) = take n p @ s"
  by (simp add: put_at_def)

lemma absorb_blocks_absorbs:
  assumes msg: "length msg = 64 * q" and c: "ctx_h c = fips_blocks iv msg q" "length (ctx_data c) = 64"
    "ctx_md_len c = k" "ctx_num c = 0"
    and N: "ctx_Nh c = of_nat (8 * length (msg @ xs) div 2 ^ 32)" "ctx_Nl c = of_nat (8 * length (msg @ xs))"
  shows "absorbed iv k (absorb_blocks le aligned c xs) (msg @ xs)"
proof -
  let ?n = "length xs div 64" and ?rest = "drop (64 * (length xs div 64)) xs"
  have "absorb_blocks le aligned c xs = (let c = c\<lparr>ctx_h := fips_blocks (ctx_h c) xs ?n\<rparr> in
      if ?rest \<noteq> [] then c\<lparr>ctx_num := length ?rest, ctx_data := put_at 0 ?rest (ctx_data c)\<rparr> else c)"
    by (auto simp: absorb_blocks_def Let_def block_data_order_fips mult.commute)
  moreover have rest: "length ?rest = length xs mod 64" by (simp add: minus_mult_div_eq_mod)
  moreover have "fips_blocks iv (msg @ xs) (q + ?n) = fips_blocks (fips_blocks iv msg q) xs ?n"
    by (rule fips_blocks_end [OF msg])
  moreover have "length (msg @ xs) div 64 = q + ?n" "length (msg @ xs) mod 64 = length xs mod 64"
    by (simp_all add: msg)
  moreover have "drop (64 * (q + ?n)) (msg @ xs) = ?rest" by (simp add: msg)
  ultimately show ?thesis
    using c N put_at_take [of 0 "ctx_data c" ?rest]
    unfolding absorbed_def Let_def by (cases "?rest = []") simp_all
qed


lemma SHA256_Update_absorbs:
  assumes "absorbed iv k c msg"
  shows "absorbed iv k (SHA256_Update le aligned c xs) (msg @ xs)"
proof -
  define q where "q = length msg div 64"
  define front where "front = take (64 * q) msg"
  define rest where "rest = drop (64 * q) msg"
  define n where "n = ctx_num c"
  let ?c = "count_bits c (length xs)"
  have q: "64 * q \<le> length msg" by (simp add: q_def)
  have msg: "msg = front @ rest" and front: "length front = 64 * q"
    using q by (simp_all add: front_def rest_def)
  have n: "n = length rest" "n < 64" using assms by (simp_all add: absorbed_def n_def rest_def q_def minus_mult_div_eq_mod)
  have c: "length (ctx_data c) = 64" "ctx_md_len c = k" "take n (ctx_data c) = rest"
    "ctx_h c = fips_blocks iv front q"
    using assms fips_blocks_append [of q front iv rest] front
    unfolding msg [symmetric] by (auto simp: absorbed_def rest_def q_def n_def)
  have cnt: "?c = c\<lparr>ctx_Nh := of_nat (8 * length (msg @ xs) div 2 ^ 32), ctx_Nl := of_nat (8 * length (msg @ xs))\<rparr>"
    using assms count_bits_counts [of c "length msg" "length xs"] by (simp only: absorbed_def length_append)
  show ?thesis
  proof (cases "length xs = 0")
    case True
    with assms show ?thesis by (simp add: SHA256_Update_def)
  next
    case False
    define c2 where "c2 = c\<lparr>ctx_Nh := of_nat (8 * length (msg @ xs) div 2 ^ 32), ctx_Nl := of_nat (8 * length (msg @ xs))\<rparr>"
    have c2: "length (ctx_data c2) = 64" "ctx_md_len c2 = k" "take n (ctx_data c2) = rest" "ctx_num c2 = n"
      "ctx_h c2 = fips_blocks iv front q" "ctx_Nh c2 = of_nat (8 * length (msg @ xs) div 2 ^ 32)"
      "ctx_Nl c2 = of_nat (8 * length (msg @ xs))"
      using c by (simp_all add: c2_def n_def)
    have upd: "SHA256_Update le aligned c xs = (if n \<noteq> 0 then if 64 \<le> length xs + n
        then absorb_blocks le aligned (c2\<lparr>ctx_h := fips_blocks (ctx_h c2) (put_at n (take (64 - n) xs) (ctx_data c2)) 1,
          ctx_num := 0, ctx_data := replicate 64 0\<rparr>) (drop (64 - n) xs)
        else c2\<lparr>ctx_data := put_at n xs (ctx_data c2), ctx_num := n + length xs\<rparr>
        else absorb_blocks le aligned c2 xs)"
      using False c2(4) unfolding SHA256_Update_def Let_def cnt c2_def [symmetric] block_data_order_fips
      by (auto simp del: fips_blocks.simps simp: One_nat_def)
    consider "n = 0" | "n \<noteq> 0" "64 \<le> length xs + n" | "n \<noteq> 0" "length xs + n < 64" by linarith
    then show ?thesis
    proof cases
      case 1
      then have "rest = []" using n by simp
      then have m: "msg = front" using msg by simp
      have "absorbed iv k (absorb_blocks le aligned c2 xs) (front @ xs)"
        by (rule absorb_blocks_absorbs [OF front]) (use c2 1 m in simp_all)
      then show ?thesis by (simp only: upd 1 m simp_thms if_False)
    next
      case 2
      let ?p = "put_at n (take (64 - n) xs) (ctx_data c2)"
      have p: "?p = rest @ take (64 - n) xs" using 2 n c2 by (simp add: put_at_def)
      have len: "length (rest @ take (64 - n) xs) = 64" using 2 n by simp
      have split: "msg @ xs = (front @ rest @ take (64 - n) xs) @ drop (64 - n) xs" by (simp add: msg)
      have f: "length (front @ rest @ take (64 - n) xs) = 64 * (q + 1)" using front len by simp
      have h: "fips_blocks (ctx_h c2) ?p 1 = fips_blocks iv (front @ rest @ take (64 - n) xs) (q + 1)"
        unfolding p c2(5) by (rule fips_blocks_end [OF front, symmetric])
      show ?thesis
        unfolding upd split if_P [OF 2(1)] if_P [OF 2(2)] h
        by (rule absorb_blocks_absorbs [OF f]) (use c2 in \<open>simp_all add: msg\<close>)
    next
      case 3
      have l: "length (msg @ xs) = length rest + length xs + 64 * q" using front by (simp add: msg)
      have lt: "length rest + length xs < 64" using 3 n by simp
      have dm: "length (msg @ xs) div 64 = q" "length (msg @ xs) mod 64 = length rest + length xs"
        unfolding l using lt by simp_all
      have t: "take (n + length xs) (put_at n xs (ctx_data c2)) = rest @ xs"
        using put_at_take [of n "ctx_data c2" xs] c2 n by simp
      have "fips_blocks iv (msg @ xs) q = fips_blocks iv front q"
        using fips_blocks_append [of q front iv "rest @ xs"] front by (simp add: msg)
      then show ?thesis
        using 3 n c2 t lt unfolding upd if_P [OF 3(1)] absorbed_def dm by (simp add: front msg del: length_append)
    qed
  qed
qed


lemma fips_pad_blocks:
  fixes msg
  defines "q \<equiv> length msg div 64" and "r \<equiv> length msg mod 64"
  shows "fips_pad msg = take (64 * q) msg @ drop (64 * q) msg @ 0x80 # replicate ((119 - r) mod 64) 0 @ be_bytes 8 (8 * length msg)"
    and "length (fips_pad msg) div 64 = (if r < 56 then q + 1 else q + 2)"
proof -
  show "fips_pad msg = take (64 * q) msg @ drop (64 * q) msg @ 0x80 # replicate ((119 - r) mod 64) 0 @ be_bytes 8 (8 * length msg)"
    by (simp add: fips_pad_def r_def)
  have r: "r < 64" "length msg = 64 * q + r" by (simp_all add: q_def r_def)
  have "(119 - r) mod 64 = (if r < 56 then 55 - r else 119 - r)"
    using r(1) by (auto simp: le_mod_geq mod_less)
  then show "length (fips_pad msg) div 64 = (if r < 56 then q + 1 else q + 2)"
    using r by (simp add: fips_pad_def be_bytes_def r_def [symmetric])
qed

lemma put_at_append: "n = length xs \<Longrightarrow> put_at n s (xs @ ys) = xs @ s @ drop (length s) ys"
  by (simp add: put_at_def)

lemma SHA256_Final_blocks:
  assumes "absorbed iv k c msg"
  shows "ctx_h (snd (SHA256_Final le aligned c)) = fips_blocks iv (fips_pad msg) (length (fips_pad msg) div 64)"
    and "fst (SHA256_Final le aligned c) = HASH_MAKE_STRING (snd (SHA256_Final le aligned c))"
    and "ctx_md_len (snd (SHA256_Final le aligned c)) = k"
proof -
  define q where "q = length msg div 64"
  define r where "r = length msg mod 64"
  define front where "front = take (64 * q) msg"
  define rest where "rest = drop (64 * q) msg"
  define N where "N = be_bytes 8 (8 * length msg)"
  have front: "length front = 64 * q" "msg = front @ rest" by (simp_all add: front_def rest_def q_def)
  have r: "r < 64" "length rest = r" by (simp_all add: rest_def q_def r_def minus_mult_div_eq_mod)
  have c: "length (ctx_data c) = 64" "ctx_md_len c = k" "ctx_num c = r" "take r (ctx_data c) = rest"
    "ctx_Nh c = of_nat (8 * length msg div 2 ^ 32)" "ctx_Nl c = of_nat (8 * length msg)"
    using assms by (auto simp: absorbed_def rest_def q_def r_def)
  have h: "ctx_h c = fips_blocks iv front q"
    using assms fips_blocks_append [of q front iv rest] front(1) unfolding front(2) [symmetric]
    by (simp add: absorbed_def q_def)
  have N: "HOST_l2c (ctx_Nh c) @ HOST_l2c (ctx_Nl c) = N" "length N = 8"
    unfolding c N_def by (rule be_bytes_split) (simp add: be_bytes_def)
  obtain old where data: "ctx_data c = rest @ old" "length old = 64 - r"
    using c(1,4) r by (metis append_take_drop_id length_drop)
  let ?p = "put_at r [0x80] (ctx_data c)"
  have fin: "ctx_h (snd (SHA256_Final le aligned c)) =
     (if r < 56 then fips_blocks (ctx_h c) (put_at 56 N (put_at (r + 1) (replicate (55 - r) 0) ?p)) 1
      else fips_blocks (fips_blocks (ctx_h c) (put_at (r + 1) (replicate (63 - r) 0) ?p) 1)
        (put_at 56 N (put_at 0 (replicate 56 0) (put_at (r + 1) (replicate (63 - r) 0) ?p))) 1)"
    unfolding SHA256_Final_def Let_def block_data_order_fips using N(1) c(3)
    by (auto simp del: fips_blocks.simps)
  have p1: "put_at r [0x80] (ctx_data c) = (rest @ [0x80]) @ drop 1 old"
    using r by (simp add: data put_at_append)
  show "ctx_h (snd (SHA256_Final le aligned c)) = fips_blocks iv (fips_pad msg) (length (fips_pad msg) div 64)"
  proof (cases "r < 56")
    case True
    have p2: "put_at (r + 1) (replicate (55 - r) 0) ((rest @ [0x80]) @ drop 1 old)
        = (rest @ 0x80 # replicate (55 - r) 0) @ drop (56 - r) old"
      using r True by (subst put_at_append) (simp_all add: Suc_diff_le [symmetric])
    have p3: "put_at 56 N ((rest @ 0x80 # replicate (55 - r) 0) @ drop (56 - r) old) = rest @ 0x80 # replicate (55 - r) 0 @ N"
      using r True N data by (subst put_at_append) simp_all
    have pad: "fips_pad msg = front @ rest @ 0x80 # replicate (55 - r) 0 @ N"
      using fips_pad_blocks(1) [of msg] True by (simp add: front_def rest_def q_def r_def N_def le_mod_geq)
    have n: "length (fips_pad msg) div 64 = q + 1" using fips_pad_blocks(2) [of msg] True by (simp add: q_def r_def)
    show ?thesis
      unfolding n unfolding pad fips_blocks_end [OF front(1)]
      unfolding fin if_P [OF True] p1 p2 p3 h ..
  next
    case False
    have p2: "put_at (r + 1) (replicate (63 - r) 0) ((rest @ [0x80]) @ drop 1 old) = rest @ 0x80 # replicate (63 - r) 0"
      using r False data by (subst put_at_append) simp_all
    let ?b = "rest @ 0x80 # replicate (63 - r) 0"
    have b: "length ?b = 64" using r by simp
    have p3: "put_at 56 N (put_at 0 (replicate 56 0) ?b) = replicate 56 0 @ N"
      using b N by (simp add: put_at_def del:)
    have z: "replicate (119 - r) (0 :: u8) = replicate (63 - r) 0 @ replicate 56 0"
      using r by (simp add: replicate_add [symmetric] del:)
    have pad: "fips_pad msg = front @ ?b @ replicate 56 0 @ N"
      using fips_pad_blocks(1) [of msg] False z by (simp add: front_def rest_def q_def r_def N_def del:)
    have n: "length (fips_pad msg) div 64 = q + 2" using fips_pad_blocks(2) [of msg] False by (simp add: q_def r_def)
    have two: "fips_blocks H (?b @ xs) 2 = fips_blocks (fips_blocks H ?b 1) xs 1" for H xs
      using fips_blocks_end [of ?b 1 H xs 1] b by (simp add: numeral_2_eq_2)
    show ?thesis
      unfolding n unfolding pad fips_blocks_end [OF front(1)] two
      unfolding fin if_not_P [OF False] p1 p2 p3 h ..
  qed
  show "fst (SHA256_Final le aligned c) = HASH_MAKE_STRING (snd (SHA256_Final le aligned c))"
    "ctx_md_len (snd (SHA256_Final le aligned c)) = k"
    by (simp_all add: SHA256_Final_def Let_def block_data_order_fips c)
qed

lemma fips_blocks_length: "length H = 8 \<Longrightarrow> length (fips_blocks H xs n) = 8"
  by (induction n arbitrary: H xs) (simp_all add: fips_compress_def add_regs_def split: prod.split)

lemma take_words:
  fixes f :: "'a \<Rightarrow> 'b list"
  assumes "\<And>w. length (f w) = 4" "n \<le> length H"
  shows "concat (map (\<lambda>i. f (H ! i)) [0..<n]) = take (4 * n) (concat (map f H))"
  using assms(2)
proof (induction n)
  case (Suc n)
  have "concat (map f H) = concat (map f (take n H)) @ f (H ! n) @ concat (map f (drop (Suc n) H))"
    using Suc.prems by (metis Cons_nth_drop_Suc Suc_le_lessD append_take_drop_id concat.simps(2) concat_append list.simps(9) map_append)
  moreover have "length (concat (map f (take n H))) = 4 * n"
    using Suc.prems by (simp add: length_concat comp_def assms(1) sum_list_triv)
  ultimately show ?case using Suc assms(1) by simp
qed simp

lemma HASH_MAKE_STRING_words:
  assumes "length (ctx_h c) = 8" "ctx_md_len c = k" "k \<le> 32" "4 dvd k"
  shows "HASH_MAKE_STRING c = Some (take k (concat (map (\<lambda>w. be_bytes 4 (unat w)) (ctx_h c))))"
proof -
  have "concat (map (\<lambda>nn. HOST_l2c (ctx_h c ! nn)) [0..<k div 4]) = take (4 * (k div 4)) (concat (map HOST_l2c (ctx_h c)))"
    by (rule take_words) (use assms in \<open>simp_all add: HOST_l2c_def\<close>)
  moreover have "HOST_l2c = (\<lambda>w. be_bytes 4 (unat w))" by (simp add: fun_eq_iff HOST_l2c_be_bytes)
  ultimately show ?thesis
    using assms by (auto simp: HASH_MAKE_STRING_def Let_def)
qed

lemma SHA256_Final_fips:
  assumes "absorbed iv k c msg" "length iv = 8" "k \<le> 32" "4 dvd k"
  shows "fst (SHA256_Final le aligned c) = Some (fips_hash iv k msg)"
  unfolding SHA256_Final_blocks(2) [OF assms(1)]
  by (subst HASH_MAKE_STRING_words) (use assms in \<open>simp_all add: SHA256_Final_blocks fips_blocks_length fips_hash_def\<close>)

lemma foldl_Update_absorbs:
  "absorbed iv k c msg \<Longrightarrow> absorbed iv k (foldl (SHA256_Update le aligned) c chunks) (msg @ concat chunks)"
proof (induction chunks arbitrary: c msg)
  case (Cons x chunks)
  from Cons.IH [OF SHA256_Update_absorbs [OF Cons.prems]] show ?case by simp
qed simp

lemma init_absorbs:
  "absorbed (ctx_h SHA256_Init) 32 SHA256_Init []" "absorbed (ctx_h SHA256_Init) 24 sha256_192_init []"
  "absorbed (ctx_h SHA224_Init) 28 SHA224_Init []"
  by (simp_all add: absorbed_def SHA256_Init_def SHA224_Init_def sha256_192_init_def)

definition fips_sha256 :: "bytes \<Rightarrow> bytes" where "fips_sha256 = fips_hash (ctx_h SHA256_Init) 32"
definition fips_sha224 :: "bytes \<Rightarrow> bytes" where "fips_sha224 = fips_hash (ctx_h SHA224_Init) 28"

text \<open>
  C9: Initialise, update with any pieces (empty ones, pieces that straddle blocks, totals beyond the
  32 bit half of the length counter), finish: the SHA-256, SHA-224 and truncated SHA-256 digests of
  FIPS 180-4 of the whole message, on every machine.
\<close>

theorem SHA256_streams:
  "fst (SHA256_Final le aligned (foldl (SHA256_Update le aligned) SHA256_Init chunks)) = Some (fips_sha256 (concat chunks)) \<and>
   fst (SHA224_Final le aligned (foldl (SHA224_Update le aligned) SHA224_Init chunks)) = Some (fips_sha224 (concat chunks)) \<and>
   fst (SHA256_Final le aligned (foldl (SHA256_Update le aligned) sha256_192_init chunks)) = Some (take 24 (fips_sha256 (concat chunks)))"
proof (intro conjI)
  have iv: "length (ctx_h SHA256_Init) = 8" "length (ctx_h SHA224_Init) = 8" by (simp_all add: SHA256_Init_def SHA224_Init_def)
  have [simp]: "SHA224_Update le aligned = SHA256_Update le aligned" "SHA224_Final le aligned = SHA256_Final le aligned"
    by (simp_all add: SHA224_Update_def SHA224_Final_def fun_eq_iff)
  note absorbs = init_absorbs [THEN foldl_Update_absorbs, of le aligned chunks]
  note final = absorbs(1) [THEN SHA256_Final_fips, OF iv(1)] absorbs(2) [THEN SHA256_Final_fips, OF iv(1)]
    absorbs(3) [THEN SHA256_Final_fips, OF iv(2)]
  show "fst (SHA256_Final le aligned (foldl (SHA256_Update le aligned) SHA256_Init chunks)) = Some (fips_sha256 (concat chunks))"
    using final(1) by (simp add: fips_sha256_def)
  show "fst (SHA224_Final le aligned (foldl (SHA224_Update le aligned) SHA224_Init chunks)) = Some (fips_sha224 (concat chunks))"
    using final(3) by (simp add: fips_sha224_def)
  show "fst (SHA256_Final le aligned (foldl (SHA256_Update le aligned) sha256_192_init chunks)) = Some (take 24 (fips_sha256 (concat chunks)))"
    using final(2) by (simp add: fips_sha256_def fips_hash_def)
qed


end
