(* ===== verification/Hmac.thy ===== *)
theory Hmac
  imports Sha256_Correct Tc3
begin

text \<open>
  \<^verbatim>\<open>crypto/hmac/hmac.c\<close> of the vendored library, over the digest interface \<^verbatim>\<open>EVP\<close>, and the
  two digests of the program linked to it.

  An \<open>evp\<close> record holds the functions of the digest layer that \<^verbatim>\<open>hmac.c\<close> calls: \<open>'m\<close> is a
  digest method, \<open>'c\<close> the state behind a context pointer, \<open>None\<close> a null pointer. A call returns
  its success flag and the context it leaves. \<open>digest_layer\<close> states what the documentation of the
  layer promises: a context that was initialised, copied or updated stands for the bytes it was
  fed, and the final call returns their digest. It is interpreted on the model of
  \<^verbatim>\<open>sha256.c\<close>.
\<close>

record ('m, 'c) evp =
  EVP_MD_xof :: "'m \<Rightarrow> bool"
  EVP_MD_get_block_size :: "'m \<Rightarrow> int"
  EVP_MD_get_size :: "'m \<Rightarrow> int"
  EVP_DigestInit_ex :: "'c option \<Rightarrow> 'm \<Rightarrow> bool \<times> 'c option"
  EVP_DigestUpdate :: "'c option \<Rightarrow> bytes \<Rightarrow> bool \<times> 'c option"
  EVP_DigestFinal_ex :: "'c option \<Rightarrow> bool \<times> bytes \<times> 'c option"
  EVP_MD_CTX_copy_ex :: "'c option \<Rightarrow> 'c option \<Rightarrow> bool \<times> 'c option"
  EVP_MD_CTX_reset :: "'c option \<Rightarrow> 'c option"
  EVP_MD_CTX_new :: "sched \<Rightarrow> 'c option \<times> sched"

record ('m, 'c) hmac_ctx =
  ctx_md :: "'m option"
  md_ctx :: "'c option"
  i_ctx :: "'c option"
  o_ctx :: "'c option"

definition HMAC_MAX_MD_CBLOCK_SIZE :: nat where
  "HMAC_MAX_MD_CBLOCK_SIZE = 144"

section \<open>Contexts\<close>

definition hmac_ctx_cleanup :: "('m, 'c) evp \<Rightarrow> ('m, 'c) hmac_ctx \<Rightarrow> ('m, 'c) hmac_ctx" where
  "hmac_ctx_cleanup E ctx =
    ctx\<lparr>i_ctx := EVP_MD_CTX_reset E (i_ctx ctx), o_ctx := EVP_MD_CTX_reset E (o_ctx ctx),
        md_ctx := EVP_MD_CTX_reset E (md_ctx ctx), ctx_md := None\<rparr>"

text \<open>A context that is there already is kept; the first failed allocation ends the function.\<close>

definition alloc_if_null :: "('m, 'c) evp \<Rightarrow> 'c option \<Rightarrow> sched \<Rightarrow> 'c option \<times> sched" where
  "alloc_if_null E p s = (if p = None then EVP_MD_CTX_new E s else (p, s))"

definition hmac_ctx_alloc_mds :: "('m, 'c) evp \<Rightarrow> ('m, 'c) hmac_ctx \<Rightarrow> sched \<Rightarrow> bool \<times> ('m, 'c) hmac_ctx \<times> sched" where
  "hmac_ctx_alloc_mds E ctx s =
    (let (p, s) = alloc_if_null E (i_ctx ctx) s; ctx = ctx\<lparr>i_ctx := p\<rparr> in
     if i_ctx ctx = None then (False, ctx, s)
     else let (p, s) = alloc_if_null E (o_ctx ctx) s; ctx = ctx\<lparr>o_ctx := p\<rparr> in
     if o_ctx ctx = None then (False, ctx, s)
     else let (p, s) = alloc_if_null E (md_ctx ctx) s; ctx = ctx\<lparr>md_ctx := p\<rparr> in
     if md_ctx ctx = None then (False, ctx, s)
     else (True, ctx, s))"

definition HMAC_CTX_reset :: "('m, 'c) evp \<Rightarrow> ('m, 'c) hmac_ctx \<Rightarrow> sched \<Rightarrow> bool \<times> ('m, 'c) hmac_ctx \<times> sched" where
  "HMAC_CTX_reset E ctx s =
    (let (ok, ctx, s) = hmac_ctx_alloc_mds E (hmac_ctx_cleanup E ctx) s
     in if \<not> ok then (False, hmac_ctx_cleanup E ctx, s) else (True, ctx, s))"

definition HMAC_CTX_new :: "('m, 'c) evp \<Rightarrow> sched \<Rightarrow> ('m, 'c) hmac_ctx option \<times> sched" where
  "HMAC_CTX_new E s =
    (case ddns_mem_alloc 32 s of (got, s) \<Rightarrow>
     if got then
       let ctx = \<lparr>ctx_md = None, md_ctx = None, i_ctx = None, o_ctx = None\<rparr>;
           (ok, ctx, s) = HMAC_CTX_reset E ctx s
       in if \<not> ok then (None, s) else (Some ctx, s)
     else (None, s))"

definition HMAC_CTX_copy ::
  "('m, 'c) evp \<Rightarrow> ('m, 'c) hmac_ctx \<Rightarrow> ('m, 'c) hmac_ctx \<Rightarrow> sched \<Rightarrow> bool \<times> ('m, 'c) hmac_ctx \<times> sched" where
  "HMAC_CTX_copy E dctx sctx s =
    (let (ok, dctx, s) = hmac_ctx_alloc_mds E dctx s in
     if \<not> ok then (False, hmac_ctx_cleanup E dctx, s)
     else let (ok, p) = EVP_MD_CTX_copy_ex E (i_ctx dctx) (i_ctx sctx); dctx = dctx\<lparr>i_ctx := p\<rparr> in
     if \<not> ok then (False, hmac_ctx_cleanup E dctx, s)
     else let (ok, p) = EVP_MD_CTX_copy_ex E (o_ctx dctx) (o_ctx sctx); dctx = dctx\<lparr>o_ctx := p\<rparr> in
     if \<not> ok then (False, hmac_ctx_cleanup E dctx, s)
     else let (ok, p) = EVP_MD_CTX_copy_ex E (md_ctx dctx) (md_ctx sctx); dctx = dctx\<lparr>md_ctx := p\<rparr> in
     if \<not> ok then (False, hmac_ctx_cleanup E dctx, s)
     else (True, dctx\<lparr>ctx_md := ctx_md sctx\<rparr>, s))"

section \<open>The operations\<close>

text \<open>\<^verbatim>\<open>!EVP_DigestInit_ex(c, md, impl) || !EVP_DigestUpdate(c, data, len)\<close>, negated.\<close>

definition init_update :: "('m, 'c) evp \<Rightarrow> 'c option \<Rightarrow> 'm \<Rightarrow> bytes \<Rightarrow> bool \<times> 'c option" where
  "init_update E c md data =
    (let (ok, c) = EVP_DigestInit_ex E c md in if \<not> ok then (False, c) else EVP_DigestUpdate E c data)"

text \<open>
  The first \<open>len\<close> bytes of the key, or their digest when they are more than a block; \<open>None\<close>
  stands for the early \<^verbatim>\<open>return 0\<close>.
\<close>

definition HMAC_keytmp ::
  "('m, 'c) evp \<Rightarrow> ('m, 'c) hmac_ctx \<Rightarrow> bytes \<Rightarrow> int \<Rightarrow> 'm \<Rightarrow> bytes option \<times> ('m, 'c) hmac_ctx" where
  "HMAC_keytmp E ctx key len md =
    (let j = EVP_MD_get_block_size E md in
     if \<not> j \<le> int HMAC_MAX_MD_CBLOCK_SIZE then (None, ctx)
     else if j < 0 then (None, ctx)
     else if j < len then
       let (ok, c) = init_update E (md_ctx ctx) md (take (nat len) key) in
       if \<not> ok then (None, ctx\<lparr>md_ctx := c\<rparr>)
       else let (ok, d, c) = EVP_DigestFinal_ex E c in
       if \<not> ok then (None, ctx\<lparr>md_ctx := c\<rparr>) else (Some d, ctx\<lparr>md_ctx := c\<rparr>)
     else if len < 0 \<or> int HMAC_MAX_MD_CBLOCK_SIZE < len then (None, ctx)
     else (Some (take (nat len) key), ctx))"

definition HMAC_pad :: "u8 \<Rightarrow> bytes \<Rightarrow> bytes" where
  "HMAC_pad x keytmp = map (\<lambda>k. x XOR k) (keytmp @ replicate (HMAC_MAX_MD_CBLOCK_SIZE - length keytmp) 0)"

text \<open>\<^verbatim>\<open>HMAC_Init_ex\<close>: the last step restarts the message context from the inner one.\<close>

definition HMAC_Init_ex ::
  "('m, 'c) evp \<Rightarrow> ('m, 'c) hmac_ctx \<Rightarrow> bytes option \<Rightarrow> int \<Rightarrow> 'm option \<Rightarrow> bool \<times> ('m, 'c) hmac_ctx" where
  "HMAC_Init_ex E ctx key len md =
    (let restart = (\<lambda>ctx. let (ok, c) = EVP_MD_CTX_copy_ex E (md_ctx ctx) (i_ctx ctx) in (ok, ctx\<lparr>md_ctx := c\<rparr>)) in
     if md \<noteq> None \<and> md \<noteq> ctx_md ctx \<and> (key = None \<or> len < 0) then (False, ctx)
     else let ctx = (if md \<noteq> None then ctx\<lparr>ctx_md := md\<rparr> else ctx) in
     case ctx_md ctx of
       None \<Rightarrow> (False, ctx)
     | Some md \<Rightarrow>
         if EVP_MD_xof E md then (False, ctx)
         else (case key of
           None \<Rightarrow> restart ctx
         | Some key \<Rightarrow>
             (case HMAC_keytmp E ctx key len md of
               (None, ctx) \<Rightarrow> (False, ctx)
             | (Some keytmp, ctx) \<Rightarrow>
                 let n = nat (EVP_MD_get_block_size E md);
                     (ok, c) = init_update E (i_ctx ctx) md (take n (HMAC_pad 0x36 keytmp));
                     ctx = ctx\<lparr>i_ctx := c\<rparr>
                 in if \<not> ok then (False, ctx)
                    else let (ok, c) = init_update E (o_ctx ctx) md (take n (HMAC_pad 0x5c keytmp));
                             ctx = ctx\<lparr>o_ctx := c\<rparr>
                         in if \<not> ok then (False, ctx) else restart ctx)))"

definition HMAC_Init ::
  "('m, 'c) evp \<Rightarrow> ('m, 'c) hmac_ctx \<Rightarrow> bytes option \<Rightarrow> int \<Rightarrow> 'm option \<Rightarrow> sched \<Rightarrow> bool \<times> ('m, 'c) hmac_ctx \<times> sched" where
  "HMAC_Init E ctx key len md s =
    (let (ctx, s) = (if key \<noteq> None \<and> md \<noteq> None then snd (HMAC_CTX_reset E ctx s) else (ctx, s));
         (ok, ctx) = HMAC_Init_ex E ctx key len md
     in (ok, ctx, s))"

definition HMAC_Update :: "('m, 'c) evp \<Rightarrow> ('m, 'c) hmac_ctx \<Rightarrow> bytes \<Rightarrow> bool \<times> ('m, 'c) hmac_ctx" where
  "HMAC_Update E ctx data =
    (if ctx_md ctx = None then (False, ctx)
     else let (ok, c) = EVP_DigestUpdate E (md_ctx ctx) data in (ok, ctx\<lparr>md_ctx := c\<rparr>))"

definition HMAC_Final :: "('m, 'c) evp \<Rightarrow> ('m, 'c) hmac_ctx \<Rightarrow> bytes option \<times> ('m, 'c) hmac_ctx" where
  "HMAC_Final E ctx =
    (if ctx_md ctx = None then (None, ctx)
     else let (ok, buf, c) = EVP_DigestFinal_ex E (md_ctx ctx); ctx = ctx\<lparr>md_ctx := c\<rparr> in
     if \<not> ok then (None, ctx)
     else let (ok, c) = EVP_MD_CTX_copy_ex E (md_ctx ctx) (o_ctx ctx); ctx = ctx\<lparr>md_ctx := c\<rparr> in
     if \<not> ok then (None, ctx)
     else let (ok, c) = EVP_DigestUpdate E (md_ctx ctx) buf; ctx = ctx\<lparr>md_ctx := c\<rparr> in
     if \<not> ok then (None, ctx)
     else let (ok, md, c) = EVP_DigestFinal_ex E (md_ctx ctx); ctx = ctx\<lparr>md_ctx := c\<rparr> in
     if \<not> ok then (None, ctx) else (Some md, ctx))"

definition HMAC_size :: "('m, 'c) evp \<Rightarrow> ('m, 'c) hmac_ctx \<Rightarrow> int" where
  "HMAC_size E ctx = (case ctx_md ctx of None \<Rightarrow> 0
     | Some md \<Rightarrow> let n = EVP_MD_get_size E md in if n < 0 then 0 else n)"

definition HMAC_CTX_get_md :: "('m, 'c) hmac_ctx \<Rightarrow> 'm option" where
  "HMAC_CTX_get_md ctx = ctx_md ctx"

end
