(* ===== verification/Hmac_Correct.thy ===== *)
theory Hmac_Correct
  imports Hmac
begin

text \<open>
  \<^verbatim>\<open>hmac.c\<close> against RFC 2104. \<open>digest_layer\<close> is the contract of the digest functions it
  calls; inside it a context is \<open>keyed\<close> when its inner and outer contexts stand for the two
  padded keys and \<open>authenticating\<close> a message when the message context stands for the inner key
  and the message. The contract is interpreted on \<^verbatim>\<open>sha256.c\<close>, and the program's two
  digest functions are linked to it.
\<close>

definition rfc2104 :: "(bytes \<Rightarrow> bytes) \<Rightarrow> nat \<Rightarrow> bytes \<Rightarrow> bytes \<Rightarrow> bytes" where
  "rfc2104 hash B key msg =
    (let K = (if B < length key then hash key else key);
         K0 = K @ replicate (B - length K) 0
     in hash (map (\<lambda>k. k XOR 0x5c) K0 @ hash (map (\<lambda>k. k XOR 0x36) K0 @ msg)))"

locale digest_layer =
  fixes E :: "('m, 'c) evp" and md :: 'm and hash :: "bytes \<Rightarrow> bytes" and B :: nat
    and fed :: "'c option \<Rightarrow> bytes \<Rightarrow> bool"
  assumes md_facts: "\<not> EVP_MD_xof E md" "EVP_MD_get_block_size E md = int B"
    and block: "B \<le> HMAC_MAX_MD_CBLOCK_SIZE" "length (hash xs) \<le> B"
    and init: "c \<noteq> None \<Longrightarrow> \<exists>c'. EVP_DigestInit_ex E c md = (True, c') \<and> fed c' []"
    and update: "fed c xs \<Longrightarrow> \<exists>c'. EVP_DigestUpdate E c ys = (True, c') \<and> fed c' (xs @ ys)"
    and final: "fed c xs \<Longrightarrow> \<exists>c'. EVP_DigestFinal_ex E c = (True, hash xs, c') \<and> c' \<noteq> None"
    and copy: "fed c xs \<Longrightarrow> d \<noteq> None \<Longrightarrow> \<exists>c'. EVP_MD_CTX_copy_ex E d c = (True, c') \<and> fed c' xs"
    and fed_ctx: "fed c xs \<Longrightarrow> c \<noteq> None"
    and reset: "EVP_MD_CTX_reset E None = None"
    and fresh: "\<exists>c. EVP_MD_CTX_new E [] = (Some c, [])"
begin

definition K0 :: "bytes \<Rightarrow> bytes" where
  "K0 key = (let K = (if B < length key then hash key else key) in K @ replicate (B - length K) 0)"

lemma rfc2104_K0:
  "rfc2104 hash B key msg = hash (map (\<lambda>k. k XOR 0x5c) (K0 key) @ hash (map (\<lambda>k. k XOR 0x36) (K0 key) @ msg))"
  by (simp add: rfc2104_def K0_def Let_def)

lemma K0_length: "length (K0 key) = B"
  using block(2) by (simp add: K0_def Let_def not_less)

definition ready :: "('m, 'c) hmac_ctx \<Rightarrow> bool" where
  "ready ctx \<longleftrightarrow> md_ctx ctx \<noteq> None \<and> i_ctx ctx \<noteq> None \<and> o_ctx ctx \<noteq> None"

definition keyed :: "bytes \<Rightarrow> ('m, 'c) hmac_ctx \<Rightarrow> bool" where
  "keyed key ctx \<longleftrightarrow> ctx_md ctx = Some md \<and> md_ctx ctx \<noteq> None \<and>
    fed (i_ctx ctx) (map (\<lambda>k. k XOR 0x36) (K0 key)) \<and> fed (o_ctx ctx) (map (\<lambda>k. k XOR 0x5c) (K0 key))"

definition authenticating :: "bytes \<Rightarrow> bytes \<Rightarrow> ('m, 'c) hmac_ctx \<Rightarrow> bool" where
  "authenticating key msg ctx \<longleftrightarrow> keyed key ctx \<and> fed (md_ctx ctx) (map (\<lambda>k. k XOR 0x36) (K0 key) @ msg)"

lemma init_update_feeds:
  assumes "c \<noteq> None"
  obtains c' where "init_update E c md ys = (True, c')" "fed c' ys"
  using init [OF assms] update [of _ "[]" ys] by (fastforce simp: init_update_def)

lemma HMAC_keytmp_K:
  assumes "ready ctx"
  obtains ctx' where "HMAC_keytmp E ctx key (int (length key)) md = (Some (if B < length key then hash key else key), ctx')"
    "ready ctx'" "ctx_md ctx' = ctx_md ctx"
proof (cases "B < length key")
  case True
  from assms have "md_ctx ctx \<noteq> None" by (simp add: ready_def)
  then obtain c where c: "init_update E (md_ctx ctx) md key = (True, c)" "fed c key" by (rule init_update_feeds)
  from final [OF c(2)] obtain c' where c': "EVP_DigestFinal_ex E c = (True, hash key, c')" "c' \<noteq> None" by blast
  show thesis
    by (rule that [of "ctx\<lparr>md_ctx := c'\<rparr>"])
      (use True assms block c c' md_facts in \<open>simp_all add: HMAC_keytmp_def ready_def\<close>)
next
  case False
  show thesis
    by (rule that [of ctx]) (use False assms block md_facts in \<open>simp_all add: HMAC_keytmp_def\<close>)
qed

lemma HMAC_pad_K0:
  assumes "K = (if B < length key then hash key else key)"
  shows "take B (HMAC_pad x K) = map (\<lambda>k. k XOR x) (K0 key)"
proof -
  have len: "length K \<le> B" using assms block(2) by (simp add: not_less)
  have "take B (K @ replicate (HMAC_MAX_MD_CBLOCK_SIZE - length K) 0) = K0 key"
    using len block(1) by (simp add: K0_def assms [symmetric] min_def)
  moreover have "(\<lambda>k. x XOR k) = (\<lambda>k. k XOR x)" by (simp add: fun_eq_iff xor.commute)
  ultimately show ?thesis unfolding HMAC_pad_def take_map by simp
qed

lemma restarts:
  assumes "keyed key ctx"
  obtains c where "EVP_MD_CTX_copy_ex E (md_ctx ctx) (i_ctx ctx) = (True, c)" "authenticating key [] (ctx\<lparr>md_ctx := c\<rparr>)"
proof -
  from assms have "fed (i_ctx ctx) (map (\<lambda>k. k XOR 0x36) (K0 key))" "md_ctx ctx \<noteq> None" by (simp_all add: keyed_def)
  from copy [OF this] obtain c where "EVP_MD_CTX_copy_ex E (md_ctx ctx) (i_ctx ctx) = (True, c)"
    "fed c (map (\<lambda>k. k XOR 0x36) (K0 key))" by blast
  with assms fed_ctx show thesis by (intro that) (auto simp: authenticating_def keyed_def)
qed

lemma HMAC_Init_ex_keys:
  assumes "ready ctx"
  obtains ctx' where "HMAC_Init_ex E ctx (Some key) (int (length key)) (Some md) = (True, ctx')" "authenticating key [] ctx'"
proof -
  let ?K = "if B < length key then hash key else key"
  let ?ctx = "ctx\<lparr>ctx_md := Some md\<rparr>"
  have "ready ?ctx" using assms by (simp add: ready_def)
  then obtain ctx1 where k: "HMAC_keytmp E ?ctx key (int (length key)) md = (Some ?K, ctx1)"
    and r: "ready ctx1" "ctx_md ctx1 = Some md" by (rule HMAC_keytmp_K) auto
  obtain ci where ci: "init_update E (i_ctx ctx1) md (map (\<lambda>k. k XOR 0x36) (K0 key)) = (True, ci)"
    "fed ci (map (\<lambda>k. k XOR 0x36) (K0 key))"
    using r(1) by (rule_tac c = "i_ctx ctx1" in init_update_feeds) (simp_all add: ready_def)
  obtain co where co: "init_update E (o_ctx ctx1) md (map (\<lambda>k. k XOR 0x5c) (K0 key)) = (True, co)"
    "fed co (map (\<lambda>k. k XOR 0x5c) (K0 key))"
    using r(1) by (rule_tac c = "o_ctx ctx1" in init_update_feeds) (simp_all add: ready_def)
  let ?ctx2 = "ctx1\<lparr>i_ctx := ci, o_ctx := co\<rparr>"
  have "keyed key ?ctx2" using r ci co by (simp add: keyed_def ready_def)
  then obtain c where c: "EVP_MD_CTX_copy_ex E (md_ctx ?ctx2) (i_ctx ?ctx2) = (True, c)" "authenticating key [] (?ctx2\<lparr>md_ctx := c\<rparr>)"
    by (rule restarts)
  show thesis
    by (rule that [OF _ c(2)])
      (use c(1) in \<open>simp add: HMAC_Init_ex_def k md_facts HMAC_pad_K0 [OF refl] ci co\<close>)
qed

lemma HMAC_Init_ex_restarts:
  assumes "keyed key ctx"
  obtains ctx' where "HMAC_Init_ex E ctx None len None = (True, ctx')" "authenticating key [] ctx'"
proof -
  from assms obtain c where c: "EVP_MD_CTX_copy_ex E (md_ctx ctx) (i_ctx ctx) = (True, c)" "authenticating key [] (ctx\<lparr>md_ctx := c\<rparr>)"
    by (rule restarts)
  from assms have "ctx_md ctx = Some md" by (simp add: keyed_def)
  with c show thesis by (intro that [OF _ c(2)]) (simp add: HMAC_Init_ex_def md_facts)
qed

lemma HMAC_Update_authenticates:
  assumes "authenticating key msg ctx"
  obtains ctx' where "HMAC_Update E ctx xs = (True, ctx')" "authenticating key (msg @ xs) ctx'"
proof -
  from assms have f: "fed (md_ctx ctx) (map (\<lambda>k. k XOR 0x36) (K0 key) @ msg)" and "ctx_md ctx = Some md"
    by (simp_all add: authenticating_def keyed_def)
  moreover from update [OF f, of xs] obtain c where "EVP_DigestUpdate E (md_ctx ctx) xs = (True, c)"
    "fed c (map (\<lambda>k. k XOR 0x36) (K0 key) @ msg @ xs)" by auto
  ultimately show thesis using assms fed_ctx
    by (intro that [of "ctx\<lparr>md_ctx := c\<rparr>"]) (auto simp: HMAC_Update_def authenticating_def keyed_def)
qed

lemma HMAC_Final_rfc2104:
  assumes "authenticating key msg ctx"
  obtains ctx' where "HMAC_Final E ctx = (Some (rfc2104 hash B key msg), ctx')" "keyed key ctx'"
proof -
  let ?i = "map (\<lambda>k. k XOR 0x36) (K0 key)" and ?o = "map (\<lambda>k. k XOR 0x5c) (K0 key)"
  from assms have f: "fed (md_ctx ctx) (?i @ msg)" "fed (o_ctx ctx) ?o" and k: "ctx_md ctx = Some md" "keyed key ctx"
    by (simp_all add: authenticating_def keyed_def)
  from final [OF f(1)] obtain c1 where c1: "EVP_DigestFinal_ex E (md_ctx ctx) = (True, hash (?i @ msg), c1)" "c1 \<noteq> None" by blast
  from copy [OF f(2) c1(2)] obtain c2 where c2: "EVP_MD_CTX_copy_ex E c1 (o_ctx ctx) = (True, c2)" "fed c2 ?o" by blast
  from update [OF c2(2)] obtain c3 where c3: "EVP_DigestUpdate E c2 (hash (?i @ msg)) = (True, c3)" "fed c3 (?o @ hash (?i @ msg))" by blast
  from final [OF c3(2)] obtain c4 where c4: "EVP_DigestFinal_ex E c3 = (True, hash (?o @ hash (?i @ msg)), c4)" "c4 \<noteq> None" by blast
  show thesis
    by (rule that [of "ctx\<lparr>md_ctx := c4\<rparr>"])
      (use k c1 c2 c3 c4 in \<open>simp_all add: HMAC_Final_def rfc2104_K0 keyed_def\<close>)
qed

lemma HMAC_CTX_new_ready: "\<exists>ctx. HMAC_CTX_new E [] = (Some ctx, []) \<and> ready ctx"
proof -
  obtain c where "EVP_MD_CTX_new E [] = (Some c, [])" using fresh by blast
  then show ?thesis
    by (auto simp: HMAC_CTX_new_def ddns_mem_alloc_def HMAC_CTX_reset_def hmac_ctx_alloc_mds_def alloc_if_null_def
        hmac_ctx_cleanup_def reset ready_def Let_def)
qed

end

lemma HMAC_CTX_new_pointers:
  "HMAC_CTX_new E s = (Some ctx, s') \<Longrightarrow> md_ctx ctx \<noteq> None \<and> i_ctx ctx \<noteq> None \<and> o_ctx ctx \<noteq> None"
  by (auto simp: HMAC_CTX_new_def HMAC_CTX_reset_def hmac_ctx_alloc_mds_def Let_def
      split: prod.splits if_splits)

text \<open>A message in pieces, then the code; and the messages of a session under one key.\<close>

fun HMAC_message :: "('m, 'c) evp \<Rightarrow> ('m, 'c) hmac_ctx \<Rightarrow> bytes list \<Rightarrow> bytes option \<times> ('m, 'c) hmac_ctx" where
  "HMAC_message E ctx [] = HMAC_Final E ctx"
| "HMAC_message E ctx (x # xs) =
    (let (ok, ctx) = HMAC_Update E ctx x in if ok then HMAC_message E ctx xs else (None, ctx))"

fun HMAC_messages :: "('m, 'c) evp \<Rightarrow> ('m, 'c) hmac_ctx \<Rightarrow> bytes list list \<Rightarrow> bytes option list" where
  "HMAC_messages E ctx [] = []"
| "HMAC_messages E ctx (m # ms) =
    (let (mac, ctx) = HMAC_message E ctx m; (ok, ctx) = HMAC_Init_ex E ctx None 0 None
     in mac # HMAC_messages E ctx ms)"

definition HMAC_session :: "('m, 'c) evp \<Rightarrow> ('m, 'c) hmac_ctx \<Rightarrow> 'm \<Rightarrow> bytes \<Rightarrow> bytes list list \<Rightarrow> bytes option list" where
  "HMAC_session E ctx md key ms =
    HMAC_messages E (snd (HMAC_Init_ex E ctx (Some key) (int (length key)) (Some md))) ms"

context digest_layer
begin

lemma HMAC_message_rfc2104:
  assumes "authenticating key msg ctx"
  shows "\<exists>ctx'. HMAC_message E ctx xs = (Some (rfc2104 hash B key (msg @ concat xs)), ctx') \<and> keyed key ctx'"
  using assms
proof (induction xs arbitrary: msg ctx)
  case Nil
  from HMAC_Final_rfc2104 [OF Nil] show ?case by fastforce
next
  case (Cons x xs)
  from Cons.prems obtain ctx' where "HMAC_Update E ctx x = (True, ctx')" "authenticating key (msg @ x) ctx'"
    by (rule HMAC_Update_authenticates)
  with Cons.IH [of "msg @ x" ctx'] show ?case by simp
qed

lemma HMAC_messages_rfc2104:
  "authenticating key [] ctx \<Longrightarrow> HMAC_messages E ctx ms = map (\<lambda>m. Some (rfc2104 hash B key (concat m))) ms"
proof (induction ms arbitrary: ctx)
  case (Cons m ms)
  from HMAC_message_rfc2104 [OF Cons.prems, of m] obtain ctx1
    where 1: "HMAC_message E ctx m = (Some (rfc2104 hash B key (concat m)), ctx1)" "keyed key ctx1" by auto
  from 1(2) obtain ctx2 where 2: "HMAC_Init_ex E ctx1 None 0 None = (True, ctx2)" "authenticating key [] ctx2"
    by (rule HMAC_Init_ex_restarts)
  show ?case by (simp add: 1 2 Cons.IH [OF 2(2)])
qed simp

lemma HMAC_session_rfc2104:
  assumes "HMAC_CTX_new E s = (Some ctx, s')"
  shows "HMAC_session E ctx md key ms = map (\<lambda>m. Some (rfc2104 hash B key (concat m))) ms"
proof -
  have "ready ctx" using HMAC_CTX_new_pointers [OF assms] by (simp add: ready_def)
  then obtain ctx' where "HMAC_Init_ex E ctx (Some key) (int (length key)) (Some md) = (True, ctx')" "authenticating key [] ctx'"
    by (rule HMAC_Init_ex_keys)
  then show ?thesis by (simp add: HMAC_session_def HMAC_messages_rfc2104)
qed

end

section \<open>The digest layer over the SHA-2 code\<close>

datatype sha2 = EVP_sha256 | EVP_sha224

definition sha2_init :: "sha2 \<Rightarrow> SHA256_CTX" where
  "sha2_init m = (case m of EVP_sha256 \<Rightarrow> SHA256_Init | EVP_sha224 \<Rightarrow> SHA224_Init)"

text \<open>Behind a pointer is a context that is blank or holds a method and its state.\<close>

definition sha2_evp :: "bool \<Rightarrow> bool \<Rightarrow> (sha2, (sha2 \<times> SHA256_CTX) option) evp" where
  "sha2_evp le aligned =
    \<lparr>EVP_MD_xof = (\<lambda>m. False),
     EVP_MD_get_block_size = (\<lambda>m. 64),
     EVP_MD_get_size = (\<lambda>m. int (ctx_md_len (sha2_init m))),
     EVP_DigestInit_ex = (\<lambda>c m. case c of None \<Rightarrow> (False, None) | Some _ \<Rightarrow> (True, Some (Some (m, sha2_init m)))),
     EVP_DigestUpdate = (\<lambda>c xs. case c of
         Some (Some (m, x)) \<Rightarrow> (True, Some (Some (m, SHA256_Update le aligned x xs)))
       | _ \<Rightarrow> (False, c)),
     EVP_DigestFinal_ex = (\<lambda>c. case c of
         Some (Some (m, x)) \<Rightarrow> (case SHA256_Final le aligned x of
             (Some d, x) \<Rightarrow> (True, d, Some (Some (m, x)))
           | (None, x) \<Rightarrow> (False, [], Some (Some (m, x))))
       | _ \<Rightarrow> (False, [], c)),
     EVP_MD_CTX_copy_ex = (\<lambda>d c. case c of None \<Rightarrow> (False, d)
       | Some v \<Rightarrow> (case d of None \<Rightarrow> (False, None) | Some _ \<Rightarrow> (True, Some v))),
     EVP_MD_CTX_reset = map_option (\<lambda>_. None),
     EVP_MD_CTX_new = (\<lambda>s. case ddns_mem_alloc 72 s of (got, s) \<Rightarrow> (if got then Some None else None, s))\<rparr>"

definition sha2_hash :: "sha2 \<Rightarrow> bytes \<Rightarrow> bytes" where
  "sha2_hash m = (case m of EVP_sha256 \<Rightarrow> fips_sha256 | EVP_sha224 \<Rightarrow> fips_sha224)"

definition sha2_fed :: "sha2 \<Rightarrow> (sha2 \<times> SHA256_CTX) option option \<Rightarrow> bytes \<Rightarrow> bool" where
  "sha2_fed m c xs \<longleftrightarrow>
    (\<exists>x. c = Some (Some (m, x)) \<and> absorbed (ctx_h (sha2_init m)) (ctx_md_len (sha2_init m)) x xs)"

lemma sha2_final:
  assumes "absorbed (ctx_h (sha2_init m)) (ctx_md_len (sha2_init m)) x xs"
  shows "fst (SHA256_Final le aligned x) = Some (sha2_hash m xs)"
  using SHA256_Final_fips [OF assms]
  by (cases m) (simp_all add: sha2_init_def sha2_hash_def fips_sha256_def fips_sha224_def SHA256_Init_def SHA224_Init_def)

lemma fips_hash_length_le: "length (fips_hash iv k xs) \<le> k"
  by (simp add: fips_hash_def)

interpretation sha2: digest_layer "sha2_evp le aligned" m "sha2_hash m" 64 "sha2_fed m" for le aligned m
proof
  show "length (sha2_hash m xs) \<le> 64" for xs
    using fips_hash_length_le [of "ctx_h SHA256_Init" 32 xs] fips_hash_length_le [of "ctx_h SHA224_Init" 28 xs]
    by (cases m) (simp_all add: sha2_hash_def fips_sha256_def fips_sha224_def)
  show "\<exists>c'. EVP_DigestInit_ex (sha2_evp le aligned) c m = (True, c') \<and> sha2_fed m c' []" if "c \<noteq> None" for c
    using that init_absorbs by (cases m) (auto simp: sha2_evp_def sha2_fed_def sha2_init_def SHA256_Init_def SHA224_Init_def)
  show "\<exists>c'. EVP_DigestUpdate (sha2_evp le aligned) c ys = (True, c') \<and> sha2_fed m c' (xs @ ys)"
    if "sha2_fed m c xs" for c xs ys
    using that SHA256_Update_absorbs by (fastforce simp: sha2_evp_def sha2_fed_def)
  show "\<exists>c'. EVP_DigestFinal_ex (sha2_evp le aligned) c = (True, sha2_hash m xs, c') \<and> c' \<noteq> None"
    if "sha2_fed m c xs" for c xs
    using that
    by (auto simp: sha2_evp_def sha2_fed_def split: prod.split option.split dest!: sha2_final [where le = le and aligned = aligned])
qed (auto simp: sha2_evp_def sha2_fed_def HMAC_MAX_MD_CBLOCK_SIZE_def ddns_mem_alloc_def)


text \<open>
  C15: A session of \<^verbatim>\<open>hmac.c\<close> on SHA-256: after \<^verbatim>\<open>HMAC_Init_ex\<close> with a key of any
  length, every message, fed in pieces of any sizes, gets the code RFC 2104 defines for it, and
  \<^verbatim>\<open>HMAC_Init_ex\<close> without a key starts the next message under the same key.
\<close>

theorem HMAC_session_is_rfc2104:
  assumes "HMAC_CTX_new (sha2_evp le aligned) s = (Some ctx, s')"
  shows "HMAC_session (sha2_evp le aligned) ctx EVP_sha256 key ms =
    map (\<lambda>m. Some (rfc2104 fips_sha256 64 key (concat m))) ms"
  using sha2.HMAC_session_rfc2104 [OF assms, of EVP_sha256] by (simp add: sha2_hash_def)

lemma HMAC_CTX_new_sample:
  "HMAC_CTX_new (sha2_evp le aligned) [True, True] =
    (Some \<lparr>ctx_md = None, md_ctx = Some None, i_ctx = Some None, o_ctx = Some None\<rparr>, [])"
  by (simp add: HMAC_CTX_new_def ddns_mem_alloc_def HMAC_CTX_reset_def hmac_ctx_alloc_mds_def alloc_if_null_def
      hmac_ctx_cleanup_def sha2_evp_def)

theorem HMAC_session_is_rfc2104_witness:
  "HMAC_session (sha2_evp True False) \<lparr>ctx_md = None, md_ctx = Some None, i_ctx = Some None, o_ctx = Some None\<rparr>
     EVP_sha256 [0x6b] [[[1, 2], [3]], [[4]]] =
   [Some (rfc2104 fips_sha256 64 [0x6b] [1, 2, 3]), Some (rfc2104 fips_sha256 64 [0x6b] [4])]"
  using HMAC_session_is_rfc2104 [OF HMAC_CTX_new_sample, of True False "[0x6b]" "[[[1, 2], [3]], [[4]]]"] by simp

section \<open>The digests of the program\<close>

text \<open>The calls of \<^verbatim>\<open>sha256Hex\<close> and \<^verbatim>\<open>HmacSha256\<close>, which check none of their results.\<close>

definition openssl_sha256 :: "bool \<Rightarrow> bool \<Rightarrow> bytes \<Rightarrow> bytes" where
  "openssl_sha256 le aligned str =
    (case SHA256_Final le aligned (SHA256_Update le aligned SHA256_Init str) of
       (Some hash, _) \<Rightarrow> hash | (None, _) \<Rightarrow> [])"

definition openssl_hmac :: "bool \<Rightarrow> bool \<Rightarrow> bytes \<Rightarrow> bytes \<Rightarrow> sched \<Rightarrow> fault + bytes" where
  "openssl_hmac le aligned key input s =
    (let E = sha2_evp le aligned in
     case HMAC_CTX_new E s of
       (None, s) \<Rightarrow> Inl Null_deref
     | (Some h, s) \<Rightarrow>
         let h = snd (HMAC_Init_ex E h (Some key) (int (length key)) (Some EVP_sha256));
             h = snd (HMAC_Update E h input)
         in case HMAC_Final E h of (Some hash, _) \<Rightarrow> Inr hash | (None, _) \<Rightarrow> Inl Uninit_read)"

text \<open>The environment of the program linked to this library, with enough memory.\<close>

definition linked_env :: "bool \<Rightarrow> bool \<Rightarrow> env \<Rightarrow> env" where
  "linked_env le aligned env =
    env\<lparr>e_sha256 := openssl_sha256 le aligned,
        e_hmac := (\<lambda>key input. case openssl_hmac le aligned key input [] of Inl _ \<Rightarrow> [] | Inr hash \<Rightarrow> hash)\<rparr>"

lemma openssl_sha256_fips: "openssl_sha256 le aligned str = fips_sha256 str"
proof -
  have "absorbed (ctx_h (sha2_init EVP_sha256)) (ctx_md_len (sha2_init EVP_sha256)) SHA256_Init []"
    using init_absorbs(1) by (simp add: sha2_init_def SHA256_Init_def)
  from sha2_final [OF SHA256_Update_absorbs [OF this], of le aligned le aligned str] show ?thesis
    by (cases "SHA256_Final le aligned (SHA256_Update le aligned SHA256_Init str)")
      (simp add: openssl_sha256_def sha2_hash_def)
qed

lemma openssl_hmac_outcomes:
  "openssl_hmac le aligned key input s =
    (if fst (HMAC_CTX_new (sha2_evp le aligned) s) = None then Inl Null_deref
     else Inr (rfc2104 fips_sha256 64 key input))"
proof (cases "fst (HMAC_CTX_new (sha2_evp le aligned) s)")
  case (Some h)
  then obtain s' where new: "HMAC_CTX_new (sha2_evp le aligned) s = (Some h, s')" by (metis prod.collapse)
  then have "sha2.ready h" using HMAC_CTX_new_pointers by (simp add: sha2.ready_def)
  then obtain h1 where h1: "HMAC_Init_ex (sha2_evp le aligned) h (Some key) (int (length key)) (Some EVP_sha256) = (True, h1)"
    "sha2.authenticating EVP_sha256 key [] h1"
    by (rule sha2.HMAC_Init_ex_keys)
  from h1(2) obtain h2 where h2: "HMAC_Update (sha2_evp le aligned) h1 input = (True, h2)"
    "sha2.authenticating EVP_sha256 key ([] @ input) h2"
    by (rule sha2.HMAC_Update_authenticates)
  from h2(2) obtain h3 where "HMAC_Final (sha2_evp le aligned) h2 = (Some (rfc2104 (sha2_hash EVP_sha256) 64 key ([] @ input)), h3)"
    by (rule sha2.HMAC_Final_rfc2104)
  then show ?thesis by (simp add: openssl_hmac_def new h1 h2 sha2_hash_def)
next
  case None
  then show ?thesis
    by (cases "HMAC_CTX_new (sha2_evp le aligned) s") (simp add: openssl_hmac_def)
qed

lemma linked_env_digests:
  "linked_env le aligned env = env\<lparr>e_sha256 := fips_sha256, e_hmac := rfc2104 fips_sha256 64\<rparr>"
proof -
  have "fst (HMAC_CTX_new (sha2_evp le aligned) []) \<noteq> None" using sha2.HMAC_CTX_new_ready [of le aligned] by auto
  then have "openssl_hmac le aligned key input [] = Inr (rfc2104 fips_sha256 64 key input)" for key input
    by (simp add: openssl_hmac_outcomes)
  moreover have "openssl_sha256 le aligned = fips_sha256" by (simp add: fun_eq_iff openssl_sha256_fips)
  ultimately show ?thesis by (simp add: linked_env_def)
qed


end
