(* ===== verification/Strtoofft.thy ===== *)
theory Strtoofft
  imports Prelude
begin

text \<open>
  \<^verbatim>\<open>lib/strtoofft.c\<close> of the vendored libcurl, with which it reads the sizes of a chunked answer.

  A pointer into the text is the suffix it points at. Where \<^verbatim>\<open>long\<close> has 64 bits \<^verbatim>\<open>strtooff\<close>
  is the \<^verbatim>\<open>strtol\<close> of the C library, \<open>strtol\<close> below; elsewhere the file brings its own. A
  conversion returns the number, the end pointer and whether \<^verbatim>\<open>errno\<close> became \<^verbatim>\<open>ERANGE\<close>. The
  private version computes the next value before it tests for an overflow by comparing the two; the
  signed overflow of that computation is a fault here, so its overflow branch is never reached in a
  defined run.
\<close>

definition ISSPACE :: "char \<Rightarrow> bool" where
  "ISSPACE c \<longleftrightarrow> 9 \<le> ord c \<and> ord c \<le> 13 \<or> ord c = 32"

definition get_char :: "char \<Rightarrow> int \<Rightarrow> int" where
  "get_char c base =
    (let v = (if c \<le> CHR ''9'' \<and> CHR ''0'' \<le> c then int (ord c) - 48
              else if c \<le> CHR ''Z'' \<and> CHR ''A'' \<le> c then int (ord c) - 65 + 10
              else if c \<le> CHR ''z'' \<and> CHR ''a'' \<le> c then int (ord c) - 97 + 10
              else - 1)
     in if base \<le> v then - 1 else v)"

fun strtooff_digits :: "int \<Rightarrow> string \<Rightarrow> int \<Rightarrow> fault + int \<times> string \<times> bool" where
  "strtooff_digits base [] v = Inr (v, [], False)"
| "strtooff_digits base (c # s) v =
    (let i = get_char c base in
     if i = - 1 then Inr (v, c # s, False)
     else let newval = base * v + i in
     if newval < - (2 ^ 63) \<or> 2 ^ 63 \<le> newval then Inl Signed_overflow
     else if newval < v then Inr (v, c # s, True)
     else strtooff_digits base s newval)"

definition strtooff :: "string \<Rightarrow> int \<Rightarrow> fault + int \<times> string \<times> bool" where
  "strtooff nptr base =
    (let end0 = dropWhile ISSPACE nptr;
         negative = (c_at end0 = CHR ''-'');
         end1 = (if negative \<or> c_at end0 = CHR ''+'' then tl end0 else end0)
     in if end0 = [] then Inr (0, end0, False)
     else let (base, end2) =
           (if c_at end1 = CHR ''0'' \<and> c_at (tl end1) = CHR ''x''
            then if base = 16 \<or> base = 0 then (16, drop 2 end1) else (base, end1)
            else if c_at end1 = CHR ''0''
            then if base = 8 \<or> base = 0 then (8, tl end1) else (base, end1)
            else (base, end1));
         base = (if base = 0 then 10 else base)
     in rbind (strtooff_digits base end2 0) (\<lambda>(v, end, overflow).
          if \<not> overflow then Inr (if negative then - v else v, end, False)
          else Inr (if negative then - (2 ^ 63) else 2 ^ 63 - 1, end, True)))"

text \<open>The library function for base 16: the longest number, clamped to the range of \<^verbatim>\<open>long\<close>.\<close>

definition digits_value :: "int \<Rightarrow> string \<Rightarrow> int" where
  "digits_value base ds = foldl (\<lambda>v c. base * v + get_char c base) 0 ds"

definition strtol :: "string \<Rightarrow> int \<Rightarrow> fault + int \<times> string \<times> bool" where
  "strtol nptr base =
    (let s = dropWhile ISSPACE nptr;
         negative = (c_at s = CHR ''-'');
         s = (if negative \<or> c_at s = CHR ''+'' then tl s else s);
         s = (if base = 16 \<and> c_at s = CHR ''0'' \<and> c_at (tl s) \<in> set ''xX'' \<and> get_char (c_at (tl (tl s))) 16 \<noteq> - 1
              then tl (tl s) else s);
         ds = takeWhile (\<lambda>c. get_char c base \<noteq> - 1) s;
         v = (if negative then - digits_value base ds else digits_value base ds)
     in if ds = [] then Inr (0, nptr, False)
        else if v < - (2 ^ 63) then Inr (- (2 ^ 63), drop (length ds) s, True)
        else if 2 ^ 63 \<le> v then Inr (2 ^ 63 - 1, drop (length ds) s, True)
        else Inr (v, drop (length ds) s, False))"

datatype CURLofft = CURL_OFFT_OK | CURL_OFFT_FLOW | CURL_OFFT_INVAL

text \<open>Code, number and end pointer; \<open>conv\<close> is the \<^verbatim>\<open>strtooff\<close> of the build.\<close>

definition curlx_strtoofft ::
  "(string \<Rightarrow> int \<Rightarrow> fault + int \<times> string \<times> bool) \<Rightarrow> string \<Rightarrow> int \<Rightarrow> fault + CURLofft \<times> int \<times> string" where
  "curlx_strtoofft conv str base =
    (let str = dropWhile ISSPACE str in
     if c_at str = CHR ''-'' then Inr (CURL_OFFT_INVAL, 0, str)
     else rbind (conv str base) (\<lambda>(number, end, erange).
       if erange then Inr (CURL_OFFT_FLOW, 0, end)
       else if str = end then Inr (CURL_OFFT_INVAL, 0, end)
       else Inr (CURL_OFFT_OK, number, end)))"

section \<open>Hexadecimal sizes\<close>

definition hex_char :: "char \<Rightarrow> bool" where
  "hex_char c \<longleftrightarrow> (0x30 \<le> ord c \<and> ord c \<le> 0x39) \<or> (0x41 \<le> ord c \<and> ord c \<le> 0x46) \<or> (0x61 \<le> ord c \<and> ord c \<le> 0x66)"

definition hex_value :: "string \<Rightarrow> nat" where
  "hex_value ds = foldl (\<lambda>v c. 16 * v + nat (get_char c 16)) 0 ds"

lemma char_le_ord: "c \<le> d \<longleftrightarrow> ord c \<le> ord d"
  by (simp add: less_eq_char_def)

lemma get_char_16: "get_char c 16 = - 1 \<longleftrightarrow> \<not> hex_char c" "hex_char c \<Longrightarrow> 0 \<le> get_char c 16 \<and> get_char c 16 < 16"
  by (auto simp: get_char_def hex_char_def char_le_ord Let_def)

lemma hex_char_not_space: "hex_char c \<Longrightarrow> \<not> ISSPACE c \<and> c \<noteq> CHR ''-'' \<and> c \<noteq> CHR ''+'' \<and> c \<noteq> CHR ''x'' \<and> c \<noteq> CHR ''X'' \<and> c \<noteq> NUL"
  by (auto simp: hex_char_def ISSPACE_def)

lemma hex_value_snoc: "hex_value (ds @ [c]) = 16 * hex_value ds + nat (get_char c 16)"
  by (simp add: hex_value_def)

lemma hex_value_bound: "\<forall>c \<in> set ds. hex_char c \<Longrightarrow> hex_value ds < 16 ^ length ds"
proof (induction ds rule: rev_induct)
  case (snoc c ds)
  then have "hex_value ds < 16 ^ length ds" "get_char c 16 < 16" using get_char_16(2) by auto
  then show ?case by (simp add: hex_value_snoc)
qed (simp add: hex_value_def)

lemma digits_value_hex: "\<forall>c \<in> set ds. hex_char c \<Longrightarrow> digits_value 16 ds = int (hex_value ds)"
proof (induction ds rule: rev_induct)
  case (snoc c ds)
  then show ?case using get_char_16(2) [of c] by (simp add: hex_value_snoc digits_value_def)
qed (simp add: hex_value_def digits_value_def)

lemma strtol_hex:
  assumes ds: "\<forall>c \<in> set ds. hex_char c" "ds \<noteq> []"
  shows "strtol ds 16 =
    (if hex_value ds < 2 ^ 63 then Inr (int (hex_value ds), [], False) else Inr (2 ^ 63 - 1, [], True))"
proof -
  obtain d t where d: "ds = d # t" "hex_char d" using ds by (cases ds) auto
  note nd = hex_char_not_space [OF d(2)]
  have x: "c_at t \<notin> {CHR ''x'', CHR ''X''}" using ds d hex_char_not_space by (cases t) auto
  have tw: "takeWhile (\<lambda>c. get_char c 16 \<noteq> - 1) ds = ds" using ds by (simp add: takeWhile_eq_all_conv get_char_16)
  have "strtol ds 16 =
    (let v = digits_value 16 ds in if v < - (2 ^ 63) then Inr (- (2 ^ 63), [], True)
      else if 2 ^ 63 \<le> v then Inr (2 ^ 63 - 1, [], True) else Inr (v, [], False))"
    using nd x tw ds(2) unfolding strtol_def Let_def by (simp add: d(1))
  then show ?thesis by (simp add: digits_value_hex [OF ds(1)] Let_def not_less)
qed

lemma curlx_strtoofft_hex:
  assumes ds: "\<forall>c \<in> set ds. hex_char c" "ds \<noteq> []"
  shows "curlx_strtoofft strtol ds 16 =
    (if hex_value ds < 2 ^ 63 then Inr (CURL_OFFT_OK, int (hex_value ds), []) else Inr (CURL_OFFT_FLOW, 0, []))"
proof -
  obtain d t where d: "ds = d # t" "hex_char d" using ds by (cases ds) auto
  from hex_char_not_space [OF d(2)] have "dropWhile ISSPACE ds = ds" "c_at ds \<noteq> CHR ''-''" by (simp_all add: d)
  then show ?thesis using strtol_hex [OF ds] ds(2) by (simp add: curlx_strtoofft_def)
qed

text \<open>The private version agrees wherever the number fits.\<close>

lemma strtooff_digits_hex:
  assumes "\<forall>c \<in> set ds. hex_char c" "0 \<le> v"
  shows "foldl (\<lambda>v c. 16 * v + get_char c 16) v ds < 2 ^ 63 \<Longrightarrow>
      strtooff_digits 16 ds v = Inr (foldl (\<lambda>v c. 16 * v + get_char c 16) v ds, [], False)"
    and "v \<le> foldl (\<lambda>v c. 16 * v + get_char c 16) v ds"
  using assms
proof (induction ds arbitrary: v)
  case (Cons c ds)
  { case 1
    then have c: "get_char c 16 \<noteq> - 1" "0 \<le> get_char c 16" using get_char_16 by auto
    with 1 Cons.IH(2) [of "16 * v + get_char c 16"] have "16 * v + get_char c 16 < 2 ^ 63" by auto
    with 1 c Cons.IH(1) [of "16 * v + get_char c 16"] show ?case by (simp add: Let_def) }
  { case 2
    then have c: "0 \<le> get_char c 16" using get_char_16 by auto
    with 2 Cons.IH(2) [of "16 * v + get_char c 16"] show ?case by simp }
qed simp_all

lemma strtooff_agrees:
  assumes ds: "\<forall>c \<in> set ds. hex_char c" "ds \<noteq> []" and fits: "hex_value ds < 2 ^ 63"
  shows "curlx_strtoofft strtooff ds 16 = curlx_strtoofft strtol ds 16"
proof -
  obtain d t where d: "ds = d # t" "hex_char d" using ds by (cases ds) auto
  note nd = hex_char_not_space [OF d(2)]
  have x: "c_at t \<noteq> CHR ''x''" using ds d hex_char_not_space by (cases t) auto
  have "strtooff_digits 16 ds 0 = Inr (int (hex_value ds), [], False)"
    using strtooff_digits_hex(1) [OF ds(1), of 0] fits digits_value_hex [OF ds(1)] by (simp add: digits_value_def)
  then have "strtooff ds 16 = Inr (int (hex_value ds), [], False)"
    using nd x unfolding strtooff_def by (auto simp: d(1) Let_def simp del: strtooff_digits.simps)
  moreover have "dropWhile ISSPACE ds = ds" "c_at ds \<noteq> CHR ''-''" using nd by (simp_all add: d)
  ultimately have "curlx_strtoofft strtooff ds 16 = Inr (CURL_OFFT_OK, int (hex_value ds), [])"
    using ds(2) by (simp add: curlx_strtoofft_def)
  then show ?thesis using fits by (simp add: curlx_strtoofft_hex [OF ds])
qed

end
