(* ===== verification/Http_Chunks.thy ===== *)
theory Http_Chunks
  imports Strtoofft
begin

text \<open>
  \<^verbatim>\<open>lib/http_chunks.c\<close> of the vendored libcurl: the state machine that takes the answer of the
  DNS service apart when it comes in chunks.

  \<open>conn\<close> is the connection's chunk decoder with its trailer buffer; \<open>hexbuffer\<close> is an array
  of 17 bytes, \<open>trailer\<close> the allocated block. The client is what the decoded bytes are written to:
  \<open>accepts\<close> decides, from what a sink got before, whether a write succeeds. \<open>wrote\<close>, the
  output argument, is part of the state while a call runs. \<open>chunk_step\<close> is one turn of the loop.
\<close>

definition MAXNUM_SIZE :: nat where
  "MAXNUM_SIZE = 16"

datatype ChunkyState = CHUNK_HEX | CHUNK_LF | CHUNK_DATA | CHUNK_POSTLF | CHUNK_STOP
  | CHUNK_TRAILER | CHUNK_TRAILER_CR | CHUNK_TRAILER_POSTCR

datatype CHUNKcode = CHUNKE_STOP | CHUNKE_OK | CHUNKE_TOO_LONG_HEX | CHUNKE_ILLEGAL_HEX | CHUNKE_BAD_CHUNK
  | CHUNKE_WRITE_ERROR | CHUNKE_BAD_ENCODING | CHUNKE_OUT_OF_MEMORY

datatype sink = To_body | To_decoder | To_headers

record conn =
  hexbuffer :: string
  hexindex :: nat
  ch_state :: ChunkyState
  datasize :: int
  dataleft :: nat
  trailer :: string
  trlPos :: nat
  trlMax :: nat
  wrote :: nat
  delivered :: "sink \<Rightarrow> string"
  ch_sched :: "bool list"

record chunk_opts =
  http_te_skip :: bool
  http_ce_skip :: bool
  ignorebody :: bool
  writer_stack :: bool
  accepts :: "sink \<Rightarrow> string \<Rightarrow> string \<Rightarrow> bool"

definition Curl_isxdigit :: "char \<Rightarrow> bool" where
  "Curl_isxdigit digit \<longleftrightarrow> (0x30 \<le> ord digit \<and> ord digit \<le> 0x39)
     \<or> (0x41 \<le> ord digit \<and> ord digit \<le> 0x46) \<or> (0x61 \<le> ord digit \<and> ord digit \<le> 0x66)"

definition Curl_httpchunk_init :: "conn \<Rightarrow> conn" where
  "Curl_httpchunk_init c = c\<lparr>hexindex := 0, dataleft := 0, ch_state := CHUNK_HEX\<rparr>"

definition set_byte :: "nat \<Rightarrow> char \<Rightarrow> string \<Rightarrow> fault + string" where
  "set_byte i d b = (if i < length b then Inr (b[i := d]) else Inl Write_past_end)"

definition client_write :: "chunk_opts \<Rightarrow> sink \<Rightarrow> string \<Rightarrow> conn \<Rightarrow> conn option" where
  "client_write opts s xs c =
    (if accepts opts s (delivered c s) xs then Some (c\<lparr>delivered := (delivered c)(s := delivered c s @ xs)\<rparr>) else None)"

text \<open>The outcome of one turn: the function returns, or the loop goes on with the rest.\<close>

datatype turn_result = Returns CHUNKcode conn | Loops conn string

definition step_hex :: "char \<Rightarrow> string \<Rightarrow> conn \<Rightarrow> fault + turn_result" where
  "step_hex d datap c =
    (if Curl_isxdigit d then
       if hexindex c < MAXNUM_SIZE
       then rbind (set_byte (hexindex c) d (hexbuffer c)) (\<lambda>b.
            Inr (Loops (c\<lparr>hexbuffer := b, hexindex := hexindex c + 1\<rparr>) datap))
       else Inr (Returns CHUNKE_TOO_LONG_HEX c)
     else if hexindex c = 0 then Inr (Returns CHUNKE_ILLEGAL_HEX c)
     else rbind (set_byte (hexindex c) NUL (hexbuffer c)) (\<lambda>b.
          let c = c\<lparr>hexbuffer := b\<rparr> in
          rbind (curlx_strtoofft strtol (c_str b) 16) (\<lambda>(code, n, _).
            let c = c\<lparr>datasize := n\<rparr> in
            if code \<noteq> CURL_OFFT_OK then Inr (Returns CHUNKE_ILLEGAL_HEX c)
            else Inr (Loops (c\<lparr>ch_state := CHUNK_LF\<rparr>) (d # datap)))))"

definition step_lf :: "char \<Rightarrow> string \<Rightarrow> conn \<Rightarrow> fault + turn_result" where
  "step_lf d datap c =
    (let c = (if d = CHR 0x0A then
                if datasize c = 0 then c\<lparr>ch_state := CHUNK_TRAILER, trlPos := 0\<rparr>
                else c\<lparr>ch_state := CHUNK_DATA\<rparr>
              else c)
     in Inr (Loops c datap))"

text \<open>A negative size would make \<^verbatim>\<open>piece\<close> a huge number and the write read behind the data.\<close>

definition step_data :: "chunk_opts \<Rightarrow> string \<Rightarrow> conn \<Rightarrow> fault + turn_result" where
  "step_data opts datap c =
    (let piece = (if int (length datap) \<le> datasize c then int (length datap) else datasize c) in
     if piece < 0 then Inl Read_past_end
     else let xs = take (nat piece) datap;
              w = (if http_ce_skip opts \<or> \<not> writer_stack opts
                   then if \<not> ignorebody opts then client_write opts To_body xs c else Some c
                   else client_write opts To_decoder xs c)
     in case w of
          None \<Rightarrow> Inr (Returns CHUNKE_WRITE_ERROR c)
        | Some c \<Rightarrow>
            let c = c\<lparr>wrote := wrote c + nat piece, datasize := datasize c - piece\<rparr>;
                c = (if datasize c = 0 then c\<lparr>ch_state := CHUNK_POSTLF\<rparr> else c)
            in Inr (Loops c (drop (nat piece) datap)))"

definition step_postlf :: "char \<Rightarrow> string \<Rightarrow> conn \<Rightarrow> fault + turn_result" where
  "step_postlf d datap c =
    (if d = CHR 0x0A then Inr (Loops (Curl_httpchunk_init c) datap)
     else if d \<noteq> CHR 0x0D then Inr (Returns CHUNKE_BAD_CHUNK c)
     else Inr (Loops c datap))"

text \<open>A full trailer buffer is doubled, an absent one gets 128 bytes; three more are always there.\<close>

definition grow_trailer :: "conn \<Rightarrow> conn option" where
  "grow_trailer c =
    (if trlMax c \<le> trlPos c then
       let n = (if trlMax c \<noteq> 0 then trlMax c * 2 else 128);
           c = c\<lparr>trlMax := n\<rparr>
       in case ch_sched c of
            False # s \<Rightarrow> None
          | _ \<Rightarrow> Some (c\<lparr>trailer := take (n + 3) (trailer c) @ replicate (n + 3 - length (trailer c)) NUL,
                        ch_sched := drop 1 (ch_sched c)\<rparr>)
     else Some c)"

definition step_trailer :: "chunk_opts \<Rightarrow> char \<Rightarrow> string \<Rightarrow> conn \<Rightarrow> fault + turn_result" where
  "step_trailer opts d datap c =
    (if d = CHR 0x0D \<or> d = CHR 0x0A then
       if trlPos c \<noteq> 0 then
         rbind (set_byte (trlPos c) CHR 0x0D (trailer c)) (\<lambda>b.
         rbind (set_byte (trlPos c + 1) CHR 0x0A b) (\<lambda>b.
         rbind (set_byte (trlPos c + 2) NUL b) (\<lambda>b.
           let c = c\<lparr>trailer := b, trlPos := trlPos c + 2\<rparr> in
           case (if \<not> http_te_skip opts then client_write opts To_headers (take (trlPos c) b) c else Some c) of
             None \<Rightarrow> Inr (Returns CHUNKE_WRITE_ERROR c)
           | Some c \<Rightarrow>
               let c = c\<lparr>trlPos := 0, ch_state := CHUNK_TRAILER_CR\<rparr>
               in if d = CHR 0x0A then Inr (Loops c (d # datap)) else Inr (Loops c datap))))
       else Inr (Loops (c\<lparr>ch_state := CHUNK_TRAILER_POSTCR\<rparr>) (d # datap))
     else case grow_trailer c of
            None \<Rightarrow> Inr (Returns CHUNKE_OUT_OF_MEMORY
                      (c\<lparr>trlMax := (if trlMax c \<noteq> 0 then trlMax c * 2 else 128), ch_sched := drop 1 (ch_sched c)\<rparr>))
          | Some c \<Rightarrow>
              rbind (set_byte (trlPos c) d (trailer c)) (\<lambda>b.
                Inr (Loops (c\<lparr>trailer := b, trlPos := trlPos c + 1\<rparr>) datap)))"

definition step_trailer_cr :: "char \<Rightarrow> string \<Rightarrow> conn \<Rightarrow> fault + turn_result" where
  "step_trailer_cr d datap c =
    (if d = CHR 0x0A then Inr (Loops (c\<lparr>ch_state := CHUNK_TRAILER_POSTCR\<rparr>) datap)
     else Inr (Returns CHUNKE_BAD_CHUNK c))"

definition step_trailer_postcr :: "char \<Rightarrow> string \<Rightarrow> conn \<Rightarrow> fault + turn_result" where
  "step_trailer_postcr d datap c =
    (if d \<noteq> CHR 0x0D \<and> d \<noteq> CHR 0x0A then Inr (Loops (c\<lparr>ch_state := CHUNK_TRAILER\<rparr>) (d # datap))
     else let rest = (if d = CHR 0x0D then datap else d # datap)
          in Inr (Loops (c\<lparr>ch_state := CHUNK_STOP\<rparr>) rest))"

definition step_stop :: "char \<Rightarrow> string \<Rightarrow> conn \<Rightarrow> fault + turn_result" where
  "step_stop d datap c =
    (if d = CHR 0x0A then Inr (Returns CHUNKE_STOP (c\<lparr>dataleft := length datap\<rparr>))
     else Inr (Returns CHUNKE_BAD_CHUNK c))"

definition chunk_step :: "chunk_opts \<Rightarrow> conn \<Rightarrow> char \<Rightarrow> string \<Rightarrow> fault + turn_result" where
  "chunk_step opts c d datap =
    (case ch_state c of
       CHUNK_HEX \<Rightarrow> step_hex d datap c
     | CHUNK_LF \<Rightarrow> step_lf d datap c
     | CHUNK_DATA \<Rightarrow> step_data opts (d # datap) c
     | CHUNK_POSTLF \<Rightarrow> step_postlf d datap c
     | CHUNK_TRAILER \<Rightarrow> step_trailer opts d datap c
     | CHUNK_TRAILER_CR \<Rightarrow> step_trailer_cr d datap c
     | CHUNK_TRAILER_POSTCR \<Rightarrow> step_trailer_postcr d datap c
     | CHUNK_STOP \<Rightarrow> step_stop d datap c)"

text \<open>
  The loop ends: a turn that takes no byte moves on to a state that takes one, or returns. The
  states between which the machine moves without taking a byte are ordered for each next byte.
\<close>

definition turns_left :: "conn \<Rightarrow> string \<Rightarrow> nat" where
  "turns_left c xs = 4 * length xs +
    (if xs = [] then 0 else let eol = (hd xs = CHR 0x0D \<or> hd xs = CHR 0x0A) in
     case ch_state c of
       CHUNK_HEX \<Rightarrow> 1 | CHUNK_DATA \<Rightarrow> 1
     | CHUNK_TRAILER \<Rightarrow> (if eol then 3 else 2)
     | CHUNK_TRAILER_POSTCR \<Rightarrow> (if eol then 2 else 3)
     | CHUNK_STOP \<Rightarrow> 1
     | _ \<Rightarrow> 0)"

lemma turns_left_shorter: "length ys < length xs \<Longrightarrow> turns_left c' ys < turns_left c xs"
  by (auto simp: turns_left_def Let_def split: ChunkyState.split)

lemma step_data_decreases:
  assumes "step_data opts (d # datap) c = Inr (Loops c' rest)" "ch_state c = CHUNK_DATA"
  shows "turns_left c' rest < turns_left c (d # datap)"
proof -
  define piece where "piece = (if int (length (d # datap)) \<le> datasize c then int (length (d # datap)) else datasize c)"
  have p: "\<not> piece < 0" and rest: "rest = drop (nat piece) (d # datap)"
    using assms unfolding step_data_def piece_def [symmetric]
    by (auto simp: Let_def split: if_splits option.splits)
  show ?thesis
  proof (cases "piece = 0")
    case True
    then have "datasize c = 0" by (auto simp: piece_def split: if_splits)
    then have "ch_state c' = CHUNK_POSTLF"
      using assms(1) True unfolding step_data_def piece_def [symmetric]
      by (auto simp: Let_def client_write_def split: if_splits option.splits)
    with rest True assms(2) show ?thesis by (simp add: turns_left_def)
  next
    case False
    with p have "0 < nat piece" by simp
    then show ?thesis by (intro turns_left_shorter) (simp add: rest)
  qed
qed

lemma step_trailer_decreases:
  assumes "step_trailer opts d datap c = Inr (Loops c' rest)" "ch_state c = CHUNK_TRAILER"
  shows "turns_left c' rest < turns_left c (d # datap)"
proof -
  from assms(1) have "rest = datap \<or> rest = d # datap \<and> (d = CHR 0x0D \<or> d = CHR 0x0A) \<and>
      (ch_state c' = CHUNK_TRAILER_CR \<or> ch_state c' = CHUNK_TRAILER_POSTCR)"
    by (auto simp: step_trailer_def rbind_eq_Inr Let_def split: if_splits option.splits)
  with assms(2) show ?thesis
    by (auto simp: turns_left_def Let_def split: ChunkyState.split)
qed

lemma chunk_step_decreases:
  assumes "chunk_step opts c d datap = Inr (Loops c' rest)"
  shows "turns_left c' rest < turns_left c (d # datap)"
proof (cases "ch_state c")
  case CHUNK_HEX
  with assms have "length rest < length (d # datap) \<or> rest = d # datap \<and> ch_state c' = CHUNK_LF"
    by (auto simp: chunk_step_def step_hex_def rbind_eq_Inr Let_def split: if_splits)
  with CHUNK_HEX show ?thesis by (auto simp: turns_left_shorter) (simp add: turns_left_def)
next
  case CHUNK_DATA
  with assms show ?thesis by (intro step_data_decreases) (simp_all add: chunk_step_def)
next
  case CHUNK_TRAILER
  with assms show ?thesis by (intro step_trailer_decreases) (simp_all add: chunk_step_def)
next
  case CHUNK_TRAILER_POSTCR
  with assms show ?thesis
    by (auto simp: chunk_step_def step_trailer_postcr_def turns_left_def Let_def split: if_splits ChunkyState.split)
qed (use assms in \<open>auto simp: chunk_step_def step_lf_def step_postlf_def step_trailer_cr_def step_stop_def Let_def
  intro!: turns_left_shorter split: if_splits\<close>)

function httpchunk_loop :: "chunk_opts \<Rightarrow> conn \<Rightarrow> string \<Rightarrow> fault + CHUNKcode \<times> conn" where
  "httpchunk_loop opts c [] = Inr (CHUNKE_OK, c)"
| "httpchunk_loop opts c (d # datap) =
    (case chunk_step opts c d datap of
       Inl e \<Rightarrow> Inl e
     | Inr (Returns code c) \<Rightarrow> Inr (code, c)
     | Inr (Loops c rest) \<Rightarrow> httpchunk_loop opts c rest)"
  by pat_completeness auto
termination
  by (relation "measure (\<lambda>(opts, c, xs). turns_left c xs)") (auto dest: chunk_step_decreases)

definition Curl_httpchunk_read :: "chunk_opts \<Rightarrow> conn \<Rightarrow> string \<Rightarrow> fault + CHUNKcode \<times> conn" where
  "Curl_httpchunk_read opts c datap =
    (let c = c\<lparr>wrote := 0\<rparr>;
         raw = (if http_te_skip opts \<and> \<not> ignorebody opts then client_write opts To_body datap c else Some c)
     in case raw of
          None \<Rightarrow> Inr (CHUNKE_WRITE_ERROR, c)
        | Some c \<Rightarrow> httpchunk_loop opts c datap)"

definition Curl_chunked_strerror :: "CHUNKcode \<Rightarrow> string" where
  "Curl_chunked_strerror code =
    (case code of
       CHUNKE_TOO_LONG_HEX \<Rightarrow> ''Too long hexadecimal number''
     | CHUNKE_ILLEGAL_HEX \<Rightarrow> ''Illegal or missing hexadecimal sequence''
     | CHUNKE_BAD_CHUNK \<Rightarrow> ''Malformed encoding found''
     | CHUNKE_WRITE_ERROR \<Rightarrow> ''Write error''
     | CHUNKE_BAD_ENCODING \<Rightarrow> ''Bad content-encoding found''
     | CHUNKE_OUT_OF_MEMORY \<Rightarrow> ''Out of memory''
     | _ \<Rightarrow> ''OK'')"

text \<open>A connection as \<^verbatim>\<open>url.c\<close> hands it over: zeroed, then initialised.\<close>

definition new_conn :: "bool list \<Rightarrow> conn" where
  "new_conn s = Curl_httpchunk_init
    \<lparr>hexbuffer = replicate 17 NUL, hexindex = 0, ch_state = CHUNK_HEX, datasize = 0, dataleft = 0,
     trailer = [], trlPos = 0, trlMax = 0, wrote = 0, delivered = (\<lambda>s. []), ch_sched = s\<rparr>"

end
