(* ===== verification/Http_Chunks_Correct.thy ===== *)
theory Http_Chunks_Correct
  imports Http_Chunks
begin

text \<open>
  What \<^verbatim>\<open>http_chunks.c\<close> guarantees: no byte sequence makes it touch memory outside its
  buffers; how the network splits the answer does not matter; and a well-formed chunked body comes
  out as the concatenation of its chunks.
\<close>


section \<open>Memory safety\<close>

definition chunk_wf :: "conn \<Rightarrow> bool" where
  "chunk_wf c \<longleftrightarrow> length (hexbuffer c) = 17 \<and> hexindex c \<le> MAXNUM_SIZE \<and>
    (\<forall>d \<in> set (take (hexindex c) (hexbuffer c)). hex_char d) \<and>
    0 \<le> datasize c \<and> (ch_state c = CHUNK_DATA \<longrightarrow> 0 < datasize c) \<and>
    trlPos c \<le> trlMax c \<and> (0 < trlMax c \<longrightarrow> length (trailer c) = trlMax c + 3)"

lemma Curl_isxdigit_hex: "Curl_isxdigit d = hex_char d"
  by (simp add: Curl_isxdigit_def hex_char_def)

lemma set_byte_in: "i < length b \<Longrightarrow> set_byte i d b = Inr (b[i := d])"
  by (simp add: set_byte_def)

lemma hexbuffer_terminated:
  assumes "i < length b" "\<forall>d \<in> set (take i b). hex_char d"
  shows "c_str (b[i := NUL]) = take i b"
proof -
  have "b[i := NUL] = take i b @ NUL # drop (Suc i) b" using assms(1) by (simp add: upd_conv_take_nth_drop)
  moreover have "NUL \<notin> set (take i b)" using assms(2) hex_char_not_space by blast
  ultimately show ?thesis unfolding c_str_def
    by (simp only: \<open>b[i := NUL] = take i b @ NUL # drop (Suc i) b\<close>, subst takeWhile_append2) auto
qed

definition keeps_wf :: "fault + turn_result \<Rightarrow> bool" where
  "keeps_wf r \<longleftrightarrow> (\<exists>code c. r = Inr (Returns code c) \<and> code \<noteq> CHUNKE_OK) \<or> (\<exists>c rest. r = Inr (Loops c rest) \<and> chunk_wf c)"

lemma keeps_wf_simps [simp]:
  "keeps_wf (Inr (Loops c rest)) = chunk_wf c" "keeps_wf (Inr (Returns code c)) = (code \<noteq> CHUNKE_OK)"
  by (auto simp: keeps_wf_def)

lemma step_hex_wf:
  assumes "chunk_wf c" "ch_state c = CHUNK_HEX"
  shows "keeps_wf (step_hex d ds c)"
proof (cases "Curl_isxdigit d")
  case True
  have "\<forall>e \<in> set (take (hexindex c + 1) ((hexbuffer c)[hexindex c := d])). hex_char e" if "hexindex c < 16"
    using assms True that by (auto simp: chunk_wf_def Curl_isxdigit_hex take_Suc_conv_app_nth)
  with assms True show ?thesis
    by (simp add: step_hex_def set_byte_in chunk_wf_def MAXNUM_SIZE_def)
next
  case False
  show ?thesis
  proof (cases "hexindex c = 0")
    case nz: False
    have i: "hexindex c < length (hexbuffer c)" using assms by (simp add: chunk_wf_def MAXNUM_SIZE_def)
    have hex: "\<forall>e \<in> set (take (hexindex c) (hexbuffer c)). hex_char e" using assms by (simp add: chunk_wf_def)
    from i nz have ne: "take (hexindex c) (hexbuffer c) \<noteq> []" by auto
    show ?thesis
      using assms False nz
      by (simp add: step_hex_def set_byte_in [OF i] hexbuffer_terminated [OF i hex] curlx_strtoofft_hex [OF hex ne] Let_def)
        (simp add: chunk_wf_def)
  qed (use assms False in \<open>simp add: step_hex_def\<close>)
qed

lemma step_data_wf:
  assumes "chunk_wf c" "ch_state c = CHUNK_DATA"
  shows "keeps_wf (step_data opts xs c)"
  using assms by (auto simp: step_data_def client_write_def chunk_wf_def Let_def split: option.splits if_splits)

lemma grow_trailer_wf:
  assumes "chunk_wf c" "grow_trailer c = Some c'"
  shows "chunk_wf c'" "trlPos c' = trlPos c" "trlPos c' < length (trailer c')" "trlPos c' < trlMax c'" "ch_state c' = ch_state c"
  using assms
  by (auto simp: grow_trailer_def chunk_wf_def Let_def split: if_splits list.splits bool.splits)

lemma step_trailer_wf:
  assumes "chunk_wf c" "ch_state c = CHUNK_TRAILER"
  shows "keeps_wf (step_trailer opts d ds c)"
proof (cases "d = CHR 0x0D \<or> d = CHR 0x0A")
  case True
  show ?thesis
  proof (cases "trlPos c = 0")
    case False
    with assms have "trlPos c + 2 < length (trailer c)" by (simp add: chunk_wf_def)
    then show ?thesis
      using assms True False
      by (auto simp: step_trailer_def set_byte_in client_write_def Let_def chunk_wf_def)
  qed (use assms True in \<open>simp add: step_trailer_def chunk_wf_def\<close>)
next
  case False
  show ?thesis
  proof (cases "grow_trailer c")
    case None
    with False show ?thesis by (simp add: step_trailer_def)
  next
    case (Some c')
    note g = grow_trailer_wf [OF assms(1) Some]
    from False Some g(3) have "step_trailer opts d ds c =
        Inr (Loops (c'\<lparr>trailer := (trailer c')[trlPos c' := d], trlPos := trlPos c' + 1\<rparr>) ds)"
      by (simp add: step_trailer_def set_byte_in)
    with g show ?thesis by (simp add: chunk_wf_def)
  qed
qed

lemma chunk_step_wf: "chunk_wf c \<Longrightarrow> keeps_wf (chunk_step opts c d ds)"
  by (cases "ch_state c")
    (simp_all add: chunk_step_def step_hex_wf step_data_wf step_trailer_wf,
     auto simp: step_lf_def step_postlf_def step_trailer_cr_def step_trailer_postcr_def
       step_stop_def Let_def chunk_wf_def Curl_httpchunk_init_def)

lemma httpchunk_loop_wf:
  "chunk_wf c \<Longrightarrow> \<exists>code c'. httpchunk_loop opts c xs = Inr (code, c') \<and> (code = CHUNKE_OK \<longrightarrow> chunk_wf c')"
proof (induction opts c xs rule: httpchunk_loop.induct)
  case (2 opts c d ds)
  from chunk_step_wf [OF 2(2), of opts d ds] show ?case
    unfolding keeps_wf_def using 2(1) by auto
qed simp

section \<open>Reads in pieces\<close>

definition accepting :: "chunk_opts \<Rightarrow> bool" where
  "accepting opts \<longleftrightarrow> accepts opts = (\<lambda>s before xs. True)"

lemma client_write_accepting:
  "accepting opts \<Longrightarrow> client_write opts s xs c = Some (c\<lparr>delivered := (delivered c)(s := delivered c s @ xs)\<rparr>)"
  by (simp add: client_write_def accepting_def)

fun more_left :: "nat \<Rightarrow> turn_result \<Rightarrow> turn_result" where
  "more_left k (Returns code c) = Returns code (if code = CHUNKE_STOP then c\<lparr>dataleft := dataleft c + k\<rparr> else c)"
| "more_left k (Loops c rest) = Loops c rest"

fun more_rest :: "string \<Rightarrow> turn_result \<Rightarrow> turn_result" where
  "more_rest ys (Loops c rest) = Loops c (rest @ ys)"
| "more_rest ys (Returns code c) = Returns code c"

lemma chunk_step_append:
  assumes "ch_state c \<noteq> CHUNK_DATA"
  shows "chunk_step opts c d (ds @ ys) =
    rbind (chunk_step opts c d ds) (\<lambda>r. Inr (more_left (length ys) (more_rest ys r)))"
proof (cases "ch_state c")
  case CHUNK_HEX
  then show ?thesis by (auto simp: chunk_step_def step_hex_def set_byte_def Let_def rbind_def split: sum.split)
next
  case CHUNK_TRAILER
  then show ?thesis
    by (auto simp: chunk_step_def step_trailer_def Let_def rbind_def split: sum.split option.split)
qed (use assms in \<open>auto simp: chunk_step_def step_lf_def step_postlf_def step_trailer_cr_def step_trailer_postcr_def
  step_stop_def Let_def\<close>)

lemma step_data_append:
  assumes "accepting opts" "ch_state c = CHUNK_DATA" "0 < datasize c"
  shows "int (length xs) < datasize c \<Longrightarrow>
      \<exists>c1. step_data opts xs c = Inr (Loops c1 []) \<and> ch_state c1 = CHUNK_DATA \<and> 0 < datasize c1 \<and>
        step_data opts (xs @ ys) c = step_data opts ys c1"
    and "datasize c \<le> int (length xs) \<Longrightarrow>
      \<exists>c1 rest. step_data opts xs c = Inr (Loops c1 rest) \<and> step_data opts (xs @ ys) c = Inr (Loops c1 (rest @ ys))"
proof -
  show "\<exists>c1. step_data opts xs c = Inr (Loops c1 []) \<and> ch_state c1 = CHUNK_DATA \<and> 0 < datasize c1 \<and>
        step_data opts (xs @ ys) c = step_data opts ys c1" if "int (length xs) < datasize c"
    using that assms
    by (auto simp: step_data_def client_write_accepting Let_def nat_add_distrib nat_diff_distrib' not_le)
  show "\<exists>c1 rest. step_data opts xs c = Inr (Loops c1 rest) \<and> step_data opts (xs @ ys) c = Inr (Loops c1 (rest @ ys))"
    if "datasize c \<le> int (length xs)"
    using that assms
    by (auto simp: step_data_def client_write_accepting Let_def nat_le_iff)
qed

text \<open>The result of reading on after a read that used up its piece.\<close>

definition read_on :: "chunk_opts \<Rightarrow> fault + CHUNKcode \<times> conn \<Rightarrow> string \<Rightarrow> fault + CHUNKcode \<times> conn" where
  "read_on opts r ys = rbind r (\<lambda>(code, c).
     if code = CHUNKE_OK then httpchunk_loop opts c ys
     else Inr (code, if code = CHUNKE_STOP then c\<lparr>dataleft := dataleft c + length ys\<rparr> else c))"

lemma httpchunk_loop_append:
  "accepting opts \<Longrightarrow> chunk_wf c \<Longrightarrow>
    httpchunk_loop opts c (xs @ ys) = read_on opts (httpchunk_loop opts c xs) ys"
proof (induction opts c xs rule: httpchunk_loop.induct)
  case (1 opts c)
  then show ?case by (simp add: read_on_def)
next
  case (2 opts c d ds)
  note wf = chunk_step_wf [OF 2(3), of opts d]
  show ?case
  proof (cases "ch_state c = CHUNK_DATA")
    case False
    show ?thesis
    proof (cases "chunk_step opts c d ds")
      case (Inr r)
      show ?thesis
      proof (cases r)
        case (Returns code c')
        with wf [of ds] Inr have "code \<noteq> CHUNKE_OK" by simp
        with Returns Inr show ?thesis by (simp add: chunk_step_append [OF False] read_on_def)
      next
        case (Loops c' rest)
        with wf [of ds] Inr have "chunk_wf c'" by simp
        with 2(1) [OF _ _ 2(2)] Loops Inr show ?thesis by (simp add: chunk_step_append [OF False])
      qed
    qed (simp add: chunk_step_append [OF False] read_on_def)
  next
    case True
    then have step: "chunk_step opts c d zs = step_data opts (d # zs) c" for zs by (simp add: chunk_step_def)
    have pos: "0 < datasize c" using 2(3) True by (simp add: chunk_wf_def)
    show ?thesis
    proof (cases "datasize c \<le> int (length (d # ds))")
      case fits: True
      obtain c1 rest where c1: "step_data opts (d # ds) c = Inr (Loops c1 rest)"
        "step_data opts ((d # ds) @ ys) c = Inr (Loops c1 (rest @ ys))"
        using step_data_append(2) [OF 2(2) True pos fits] by blast
      with wf [of ds] have "chunk_wf c1" by (simp add: step)
      with 2(1) [OF _ _ 2(2)] c1 show ?thesis by (simp add: step)
    next
      case False
      then obtain c1 where c1: "step_data opts (d # ds) c = Inr (Loops c1 [])" "ch_state c1 = CHUNK_DATA"
        "step_data opts ((d # ds) @ ys) c = step_data opts ys c1"
        using step_data_append(1) [OF 2(2) True pos, of "d # ds" ys] by auto
      show ?thesis
      proof (cases ys)
        case (Cons e es)
        with c1 have "httpchunk_loop opts c1 ys = httpchunk_loop opts c ((d # ds) @ ys)"
          by (simp add: chunk_step_def True)
        with c1(1) show ?thesis by (simp add: step read_on_def)
      qed (use c1(1) in \<open>simp add: step read_on_def\<close>)
    qed
  qed
qed

text \<open>\<^verbatim>\<open>wrote\<close> and \<^verbatim>\<open>dataleft\<close> do not influence the machine.\<close>

definition same :: "conn \<Rightarrow> conn \<Rightarrow> bool" where
  "same c c' \<longleftrightarrow> c'\<lparr>wrote := 0, dataleft := 0\<rparr> = c\<lparr>wrote := 0, dataleft := 0\<rparr>"

fun same_turn :: "fault + turn_result \<Rightarrow> fault + turn_result \<Rightarrow> bool" where
  "same_turn (Inl e) (Inl f) = (e = f)"
| "same_turn (Inr (Returns k c)) (Inr (Returns k' c')) = (k = k' \<and> same c c' \<and> (k = CHUNKE_STOP \<longrightarrow> dataleft c = dataleft c'))"
| "same_turn (Inr (Loops c xs)) (Inr (Loops c' ys)) = (xs = ys \<and> same c c')"
| "same_turn _ _ = False"

lemma sameE:
  assumes "same c c'"
  obtains w l where "c' = c\<lparr>wrote := w, dataleft := l\<rparr>"
proof -
  from assms have "c' = c\<lparr>wrote := wrote c', dataleft := dataleft c'\<rparr>"
    unfolding same_def by (cases c, cases c') simp
  then show thesis by (rule that)
qed

lemma same_simp [simp]: "same c (c\<lparr>wrote := w, dataleft := l\<rparr>)"
  by (cases c) (simp add: same_def)

lemma chunk_step_same:
  assumes "same c c'"
  shows "same_turn (chunk_step opts c d ds) (chunk_step opts c' d ds)"
proof -
  obtain w l where c': "c' = c\<lparr>wrote := w, dataleft := l\<rparr>" using assms by (rule sameE)
  show ?thesis
  proof (cases "ch_state c")
    case CHUNK_HEX
    then show ?thesis unfolding c'
      by (auto simp: chunk_step_def step_hex_def set_byte_def Let_def same_def rbind_def split: sum.split)
  next
    case CHUNK_DATA
    then show ?thesis unfolding c'
      by (simp add: chunk_step_def step_data_def client_write_def Let_def same_def)
  next
    case CHUNK_TRAILER
    then show ?thesis unfolding c'
      by (simp add: chunk_step_def step_trailer_def grow_trailer_def client_write_def set_byte_def Let_def same_def rbind_def
          split: list.split bool.split)
  qed (simp_all add: c' chunk_step_def step_lf_def step_postlf_def step_trailer_cr_def step_trailer_postcr_def
    step_stop_def Let_def same_def Curl_httpchunk_init_def)
qed


definition same_result :: "fault + CHUNKcode \<times> conn \<Rightarrow> fault + CHUNKcode \<times> conn \<Rightarrow> bool" where
  "same_result r r' \<longleftrightarrow> (\<exists>e. r = Inl e \<and> r' = Inl e) \<or>
    (\<exists>k c c'. r = Inr (k, c) \<and> r' = Inr (k, c') \<and> same c c' \<and> (k = CHUNKE_STOP \<longrightarrow> dataleft c = dataleft c'))"

lemma httpchunk_loop_same: "same c c' \<Longrightarrow> same_result (httpchunk_loop opts c xs) (httpchunk_loop opts c' xs)"
proof (induction opts c xs arbitrary: c' rule: httpchunk_loop.induct)
  case (2 opts c d ds)
  note step = chunk_step_same [OF 2(2), of opts d ds]
  show ?case
  proof (cases "(chunk_step opts c d ds, chunk_step opts c' d ds)" rule: same_turn.cases)
    case (3 c1 xs c2 ys)
    with step have "same c1 c2" "xs = ys" by simp_all
    with 2(1) [of "Loops c1 xs" c1 xs c2] 3 show ?thesis by simp
  qed (use step in \<open>auto simp: same_result_def\<close>)
qed (simp add: same_result_def)

text \<open>The network hands over the answer in pieces; what is left is returned with the code.\<close>

fun read_pieces :: "chunk_opts \<Rightarrow> conn \<Rightarrow> string list \<Rightarrow> fault + CHUNKcode \<times> conn \<times> string" where
  "read_pieces opts c [] = Inr (CHUNKE_OK, c, [])"
| "read_pieces opts c (p # ps) =
    rbind (Curl_httpchunk_read opts c p) (\<lambda>(code, c).
      if code = CHUNKE_OK then read_pieces opts c ps
      else Inr (code, c, drop (length p - dataleft c) p @ concat ps))"

lemma chunk_wf_same: "same c c' \<Longrightarrow> chunk_wf c' = chunk_wf c"
  by (erule sameE) (simp add: chunk_wf_def)

lemma same_delivered: "same c c' \<Longrightarrow> delivered c' = delivered c"
  by (erule sameE) simp

lemma same_sym: "same c c' \<Longrightarrow> same c' c" and same_trans: "same c c' \<Longrightarrow> same c' c'' \<Longrightarrow> same c c''"
  by (simp_all add: same_def)

lemma dataleft_le:
  "httpchunk_loop opts c xs = Inr (CHUNKE_STOP, c') \<Longrightarrow> dataleft c' \<le> length xs"
proof (induction opts c xs rule: httpchunk_loop.induct)
  case (2 opts c d ds)
  show ?case
  proof (cases "chunk_step opts c d ds")
    case (Inr r)
    show ?thesis
    proof (cases r)
      case (Returns code c1)
      with Inr 2(2) have "ch_state c = CHUNK_STOP \<and> dataleft c' = length ds"
        by (cases "ch_state c")
          (auto simp: chunk_step_def step_hex_def step_lf_def step_data_def step_postlf_def step_trailer_def step_trailer_cr_def
            step_trailer_postcr_def step_stop_def Let_def rbind_eq_Inr split: if_splits option.splits)
      then show ?thesis by simp
    next
      case (Loops c1 rest)
      from Inr Loops have "length rest \<le> length (d # ds)"
        using chunk_step_decreases [of opts c d ds c1 rest] 
        by (cases "length rest \<le> length (d # ds)")
          (use turns_left_shorter [of "d # ds" rest c c1] in auto)
      with 2(1) [OF Inr Loops] Inr Loops 2(2) show ?thesis by auto
    qed
  qed (use 2 in simp)
qed simp

lemma read_pieces_joined:
  assumes "accepting opts" "\<not> http_te_skip opts" "chunk_wf c"
    and "httpchunk_loop opts c (concat ps) = Inr (CHUNKE_STOP, c')"
  shows "\<exists>c2. read_pieces opts c ps = Inr (CHUNKE_STOP, c2, drop (length (concat ps) - dataleft c') (concat ps)) \<and> same c' c2"
  using assms(3,4)
proof (induction ps arbitrary: c c')
  case (Cons p ps)
  let ?c = "c\<lparr>wrote := 0\<rparr>"
  have same: "same c ?c" by (simp add: same_def)
  with Cons.prems have wf: "chunk_wf ?c" by (simp add: chunk_wf_same)
  have "same_result (httpchunk_loop opts c (concat (p # ps))) (httpchunk_loop opts ?c (concat (p # ps)))"
    by (rule httpchunk_loop_same [OF same])
  with Cons.prems(2) obtain c'' where c'': "httpchunk_loop opts ?c (p @ concat ps) = Inr (CHUNKE_STOP, c'')"
    "same c' c''" "dataleft c' = dataleft c''" by (auto simp: same_result_def)
  have read: "Curl_httpchunk_read opts c p = httpchunk_loop opts ?c p"
    using assms(2) by (simp add: Curl_httpchunk_read_def Let_def)
  from httpchunk_loop_wf [OF wf, of opts p] obtain code c1 where c1: "httpchunk_loop opts ?c p = Inr (code, c1)"
    "code = CHUNKE_OK \<longrightarrow> chunk_wf c1" by blast
  note joined = httpchunk_loop_append [OF assms(1) wf, of p "concat ps", unfolded c''(1) c1(1) read_on_def, simplified]
  show ?case
  proof (cases "code = CHUNKE_OK")
    case True
    with joined have "httpchunk_loop opts c1 (concat ps) = Inr (CHUNKE_STOP, c'')" by simp
    from Cons.IH [OF _ this] True c1(2) obtain c2 where
      c2: "read_pieces opts c1 ps = Inr (CHUNKE_STOP, c2, drop (length (concat ps) - dataleft c'') (concat ps))" "same c'' c2"
      by auto
    have "dataleft c'' \<le> length (concat ps)"
      using dataleft_le \<open>httpchunk_loop opts c1 (concat ps) = Inr (CHUNKE_STOP, c'')\<close> by blast
    with c2 c''(2,3) True c1(1) show ?thesis
      by (intro exI [of _ c2]) (auto simp: read intro: same_trans)
  next
    case False
    with joined have k: "code = CHUNKE_STOP" and d: "c'' = c1\<lparr>dataleft := dataleft c1 + length (concat ps)\<rparr>"
      by (auto split: if_splits)
    have "dataleft c1 \<le> length p" using dataleft_le c1(1) k by blast
    moreover have "same c' c1" using c''(2) unfolding d same_def by simp
    ultimately show ?thesis using k c1(1) c''(3) by (simp add: read d)
  qed
qed simp

section \<open>Well-formed bodies\<close>

definition LF :: char where "LF = CHR 0x0A"
definition CR :: char where "CR = CHR 0x0D"

text \<open>
  A chunk on the wire: its size in hexadecimal, what stands between the size and the line feed (an
  extension, the carriage return), the data and its line end.
\<close>

type_synonym wire_chunk = "string \<times> string \<times> string"

definition valid_ext :: "string \<Rightarrow> bool" where
  "valid_ext ext \<longleftrightarrow> LF \<notin> set ext \<and> (ext \<noteq> [] \<longrightarrow> \<not> hex_char (hd ext))"

definition valid_size :: "string \<Rightarrow> bool" where
  "valid_size hx \<longleftrightarrow> hx \<noteq> [] \<and> (\<forall>d \<in> set hx. hex_char d) \<and> length hx \<le> 16"

definition valid_chunk :: "wire_chunk \<Rightarrow> bool" where
  "valid_chunk ch \<longleftrightarrow> (case ch of (hx, ext, xs) \<Rightarrow> valid_size hx \<and> valid_ext ext \<and>
     hex_value hx = length xs \<and> xs \<noteq> [] \<and> length xs < 2 ^ 63)"

definition chunk_text :: "wire_chunk \<Rightarrow> string" where
  "chunk_text ch = (case ch of (hx, ext, xs) \<Rightarrow> hx @ ext @ [LF] @ xs @ [CR, LF])"

definition chunk_data :: "wire_chunk \<Rightarrow> string" where
  "chunk_data ch = (case ch of (hx, ext, xs) \<Rightarrow> xs)"

definition trailer_line :: "string \<Rightarrow> bool" where
  "trailer_line l \<longleftrightarrow> l \<noteq> [] \<and> LF \<notin> set l \<and> CR \<notin> set l"

definition chunked_text :: "wire_chunk list \<Rightarrow> string \<Rightarrow> string \<Rightarrow> string list \<Rightarrow> string" where
  "chunked_text chunks zero ext trailers =
    concat (map chunk_text chunks) @ zero @ ext @ [LF] @ concat (map (\<lambda>l. l @ [CR, LF]) trailers) @ [CR, LF]"

definition give :: "chunk_opts \<Rightarrow> string \<Rightarrow> conn \<Rightarrow> conn" where
  "give opts xs c =
    (if http_ce_skip opts \<or> \<not> writer_stack opts
     then if \<not> ignorebody opts then c\<lparr>delivered := (delivered c)(To_body := delivered c To_body @ xs)\<rparr> else c
     else c\<lparr>delivered := (delivered c)(To_decoder := delivered c To_decoder @ xs)\<rparr>)"

definition at_start :: "conn \<Rightarrow> bool" where
  "at_start c \<longleftrightarrow> chunk_wf c \<and> ch_state c = CHUNK_HEX \<and> hexindex c = 0 \<and> ch_sched c = []"

lemma hex_not_eol: "hex_char d \<Longrightarrow> d \<noteq> LF \<and> d \<noteq> CR"
  by (auto simp: hex_char_def LF_def CR_def)

lemma read_size_digits:
  assumes "ch_state c = CHUNK_HEX" "length (hexbuffer c) = 17" "hexindex c + length hx \<le> 16" "\<forall>d \<in> set hx. hex_char d"
  shows "\<exists>b. httpchunk_loop opts c (hx @ rest) = httpchunk_loop opts (c\<lparr>hexbuffer := b, hexindex := hexindex c + length hx\<rparr>) rest \<and>
    length b = 17 \<and> take (hexindex c + length hx) b = take (hexindex c) (hexbuffer c) @ hx"
  using assms
proof (induction hx arbitrary: c)
  case Nil
  then show ?case by (intro exI [of _ "hexbuffer c"]) simp
next
  case (Cons d hx)
  let ?c = "c\<lparr>hexbuffer := (hexbuffer c)[hexindex c := d], hexindex := hexindex c + 1\<rparr>"
  have "httpchunk_loop opts c ((d # hx) @ rest) = httpchunk_loop opts ?c (hx @ rest)"
    using Cons.prems by (simp add: chunk_step_def step_hex_def Curl_isxdigit_hex set_byte_def MAXNUM_SIZE_def)
  moreover from Cons.IH [of ?c] Cons.prems obtain b where
    "httpchunk_loop opts ?c (hx @ rest) = httpchunk_loop opts (?c\<lparr>hexbuffer := b, hexindex := hexindex ?c + length hx\<rparr>) rest"
    "length b = 17" "take (hexindex ?c + length hx) b = take (hexindex ?c) (hexbuffer ?c) @ hx"
    by auto
  moreover have "take (hexindex ?c) (hexbuffer ?c) = take (hexindex c) (hexbuffer c) @ [d]"
    using Cons.prems by (simp add: take_Suc_conv_app_nth)
  ultimately show ?case by (intro exI [of _ b]) simp
qed

lemma skip_to_LF:
  assumes "ch_state c = CHUNK_LF" "LF \<notin> set ext"
  shows "httpchunk_loop opts c (ext @ LF # rest) = httpchunk_loop opts
    (if datasize c = 0 then c\<lparr>ch_state := CHUNK_TRAILER, trlPos := 0\<rparr> else c\<lparr>ch_state := CHUNK_DATA\<rparr>) rest"
  using assms
  by (induction ext) (auto simp: chunk_step_def step_lf_def LF_def)

lemma read_size:
  assumes "at_start c" "valid_size hx" "valid_ext ext" "hex_value hx < 2 ^ 63"
  shows "\<exists>b n. httpchunk_loop opts c (hx @ ext @ LF # rest) = httpchunk_loop opts
      (if hex_value hx = 0 then c\<lparr>hexbuffer := b, hexindex := n, datasize := 0, ch_state := CHUNK_TRAILER, trlPos := 0\<rparr>
       else c\<lparr>hexbuffer := b, hexindex := n, datasize := int (hex_value hx), ch_state := CHUNK_DATA\<rparr>) rest \<and>
    length b = 17 \<and> n \<le> 16 \<and> (\<forall>d \<in> set (take n b). hex_char d)"
proof -
  have hx: "hx \<noteq> []" "\<forall>d \<in> set hx. hex_char d" "length hx \<le> 16" using assms(2) by (simp_all add: valid_size_def)
  have "length (hexbuffer c) = 17" "ch_state c = CHUNK_HEX" "hexindex c = 0"
    using assms(1) by (simp_all add: at_start_def chunk_wf_def)
  then obtain b where b: "httpchunk_loop opts c (hx @ ext @ LF # rest) =
      httpchunk_loop opts (c\<lparr>hexbuffer := b, hexindex := length hx\<rparr>) (ext @ LF # rest)"
    "length b = 17" "take (length hx) b = hx"
    using read_size_digits [of c hx opts "ext @ LF # rest"] hx by auto
  obtain d ds where d: "ext @ LF # rest = d # ds" "\<not> hex_char d"
    using assms(3) hex_not_eol by (cases ext) (auto simp: valid_ext_def)
  have i: "length hx < length b" "length hx \<noteq> 0" using hx b by auto
  let ?b = "b[length hx := NUL]"
  let ?c = "c\<lparr>hexbuffer := ?b, hexindex := length hx, datasize := int (hex_value hx), ch_state := CHUNK_LF\<rparr>"
  have str: "c_str ?b = hx" using hexbuffer_terminated [OF i(1)] b hx by simp
  have "chunk_step opts (c\<lparr>hexbuffer := b, hexindex := length hx\<rparr>) d ds = Inr (Loops ?c (d # ds))"
    using assms(1,4) d i hx by (simp add: at_start_def chunk_step_def step_hex_def Curl_isxdigit_hex set_byte_in str curlx_strtoofft_hex)
  then have "httpchunk_loop opts (c\<lparr>hexbuffer := b, hexindex := length hx\<rparr>) (d # ds) = httpchunk_loop opts ?c (d # ds)"
    by (subst httpchunk_loop.simps(2)) (simp only: sum.case turn_result.case)
  then have "httpchunk_loop opts c (hx @ ext @ LF # rest) = httpchunk_loop opts ?c (ext @ LF # rest)"
    using b(1) by (simp only: d)
  also have "\<dots> = httpchunk_loop opts (if datasize ?c = 0 then ?c\<lparr>ch_state := CHUNK_TRAILER, trlPos := 0\<rparr> else ?c\<lparr>ch_state := CHUNK_DATA\<rparr>) rest"
    using assms(3) by (intro skip_to_LF) (simp_all add: valid_ext_def)
  finally show ?thesis
    using b hx by (intro exI [of _ ?b] exI [of _ "length hx"]) simp
qed

lemma read_data:
  assumes "accepting opts" "ch_state c = CHUNK_DATA" "datasize c = int (length xs)" "xs \<noteq> []"
  shows "httpchunk_loop opts c (xs @ CR # LF # rest) =
    httpchunk_loop opts (Curl_httpchunk_init (give opts xs c\<lparr>wrote := wrote c + length xs, datasize := 0\<rparr>)) rest"
proof -
  obtain d ds where xs: "xs = d # ds" using assms(4) by (cases xs) auto
  have "step_data opts (xs @ CR # LF # rest) c =
      Inr (Loops (give opts xs c\<lparr>wrote := wrote c + length xs, datasize := 0, ch_state := CHUNK_POSTLF\<rparr>) (CR # LF # rest))"
    using assms by (simp add: step_data_def Let_def client_write_accepting give_def)
  then have "httpchunk_loop opts c (xs @ CR # LF # rest) =
      httpchunk_loop opts (give opts xs c\<lparr>wrote := wrote c + length xs, datasize := 0, ch_state := CHUNK_POSTLF\<rparr>) (CR # LF # rest)"
    using assms(2) by (simp add: xs chunk_step_def)
  also have "\<dots> = httpchunk_loop opts (Curl_httpchunk_init (give opts xs c\<lparr>wrote := wrote c + length xs, datasize := 0\<rparr>)) rest"
    by (simp add: chunk_step_def step_postlf_def CR_def LF_def Curl_httpchunk_init_def)
  finally show ?thesis .
qed

lemma give_simps [simp]:
  "hexbuffer (give opts xs c) = hexbuffer c" "hexindex (give opts xs c) = hexindex c" "ch_state (give opts xs c) = ch_state c"
  "datasize (give opts xs c) = datasize c" "trailer (give opts xs c) = trailer c" "trlPos (give opts xs c) = trlPos c"
  "trlMax (give opts xs c) = trlMax c" "ch_sched (give opts xs c) = ch_sched c"
  by (simp_all add: give_def)

lemma read_chunk:
  assumes "accepting opts" "at_start c" "valid_chunk ch"
  shows "\<exists>c'. httpchunk_loop opts c (chunk_text ch @ rest) = httpchunk_loop opts c' rest \<and> at_start c' \<and>
    delivered c' = delivered (give opts (chunk_data ch) c)"
proof -
  obtain hx ext xs where ch: "ch = (hx, ext, xs)" by (cases ch)
  with assms(3) have v: "valid_size hx" "valid_ext ext" "hex_value hx = length xs" "xs \<noteq> []" "hex_value hx < 2 ^ 63"
    by (simp_all add: valid_chunk_def)
  obtain b n where bn: "httpchunk_loop opts c (hx @ ext @ LF # xs @ CR # LF # rest) = httpchunk_loop opts
      (c\<lparr>hexbuffer := b, hexindex := n, datasize := int (length xs), ch_state := CHUNK_DATA\<rparr>) (xs @ CR # LF # rest)"
    "length b = 17" "n \<le> 16" "\<forall>d \<in> set (take n b). hex_char d"
    using read_size [OF assms(2) v(1,2,5), of opts "xs @ CR # LF # rest"] v(3,4) by auto
  let ?c = "c\<lparr>hexbuffer := b, hexindex := n, datasize := int (length xs), ch_state := CHUNK_DATA\<rparr>"
  let ?c' = "Curl_httpchunk_init (give opts xs ?c\<lparr>wrote := wrote ?c + length xs, datasize := 0\<rparr>)"
  have "httpchunk_loop opts ?c (xs @ CR # LF # rest) = httpchunk_loop opts ?c' rest"
    using v(4) by (intro read_data [OF assms(1)]) simp_all
  then have "httpchunk_loop opts c (chunk_text ch @ rest) = httpchunk_loop opts ?c' rest"
    by (simp add: ch chunk_text_def bn(1))
  moreover have "at_start ?c'" using assms(2) bn(2-4) by (simp add: at_start_def chunk_wf_def Curl_httpchunk_init_def)
  moreover have "delivered ?c' = delivered (give opts (chunk_data ch) c)"
    by (simp add: ch chunk_data_def Curl_httpchunk_init_def give_def)
  ultimately show ?thesis by blast
qed

lemma give_give: "delivered c1 = delivered (give opts xs c) \<Longrightarrow> delivered (give opts ys c1) = delivered (give opts (xs @ ys) c)"
  by (auto simp: give_def split: if_splits)

lemma read_chunks:
  assumes "accepting opts" "at_start c" "\<forall>ch \<in> set chunks. valid_chunk ch"
  shows "\<exists>c'. httpchunk_loop opts c (concat (map chunk_text chunks) @ rest) = httpchunk_loop opts c' rest \<and> at_start c' \<and>
    delivered c' = delivered (give opts (concat (map chunk_data chunks)) c)"
  using assms(2,3)
proof (induction chunks arbitrary: c)
  case Nil
  then show ?case by (auto simp: give_def intro!: exI [of _ c])
next
  case (Cons ch chunks)
  from Cons.prems read_chunk [OF assms(1) Cons.prems(1), of ch "concat (map chunk_text chunks) @ rest"] obtain c1 where
    c1: "httpchunk_loop opts c (chunk_text ch @ concat (map chunk_text chunks) @ rest) =
      httpchunk_loop opts c1 (concat (map chunk_text chunks) @ rest)" "at_start c1"
      "delivered c1 = delivered (give opts (chunk_data ch) c)" by auto
  from Cons.IH [OF c1(2)] Cons.prems obtain c2 where
    "httpchunk_loop opts c1 (concat (map chunk_text chunks) @ rest) = httpchunk_loop opts c2 rest" "at_start c2"
    "delivered c2 = delivered (give opts (concat (map chunk_data chunks)) c1)" by auto
  with c1 show ?case by (intro exI [of _ c2]) (simp add: give_give)
qed


lemma read_trailer_chars:
  assumes "chunk_wf c" "ch_state c = CHUNK_TRAILER" "ch_sched c = []" "LF \<notin> set l" "CR \<notin> set l"
  shows "\<exists>c'. httpchunk_loop opts c (l @ rest) = httpchunk_loop opts c' rest \<and> chunk_wf c' \<and> ch_state c' = CHUNK_TRAILER \<and>
    ch_sched c' = [] \<and> delivered c' = delivered c \<and> trlPos c' = trlPos c + length l \<and>
    take (trlPos c') (trailer c') = take (trlPos c) (trailer c) @ l"
  using assms
proof (induction l arbitrary: c)
  case Nil
  then show ?case by (intro exI [of _ c]) simp
next
  case (Cons d l)
  have d: "\<not> (d = CHR 0x0D \<or> d = CHR 0x0A)" using Cons.prems by (auto simp: LF_def CR_def)
  have "grow_trailer c \<noteq> None" using Cons.prems(3) by (simp add: grow_trailer_def Let_def)
  then obtain c1 where c1: "grow_trailer c = Some c1" by blast
  note g = grow_trailer_wf [OF Cons.prems(1) c1]
  have same: "ch_sched c1 = []" "delivered c1 = delivered c" "take (trlPos c) (trailer c1) = take (trlPos c) (trailer c)"
    using c1 Cons.prems(1,3) by (auto simp: grow_trailer_def chunk_wf_def Let_def min_def split: if_splits)
  let ?c = "c1\<lparr>trailer := (trailer c1)[trlPos c1 := d], trlPos := trlPos c1 + 1\<rparr>"
  have "chunk_step opts c d (l @ rest) = Inr (Loops ?c (l @ rest))"
    using Cons.prems(2) c1 g(3) d by (simp add: chunk_step_def step_trailer_def set_byte_in)
  then have step: "httpchunk_loop opts c ((d # l) @ rest) = httpchunk_loop opts ?c (l @ rest)" by simp
  have wf: "chunk_wf ?c" using g by (simp add: chunk_wf_def)
  from Cons.IH [OF wf] Cons.prems g(5) same obtain c' where
    "httpchunk_loop opts ?c (l @ rest) = httpchunk_loop opts c' rest" "chunk_wf c'" "ch_state c' = CHUNK_TRAILER" "ch_sched c' = []"
    "delivered c' = delivered ?c" "trlPos c' = trlPos ?c + length l"
    "take (trlPos c') (trailer c') = take (trlPos ?c) (trailer ?c) @ l"
    by auto
  with step same g(2,3) show ?case
    by (intro exI [of _ c']) (simp add: take_Suc_conv_app_nth)
qed

definition at_trailer :: "conn \<Rightarrow> bool" where
  "at_trailer c \<longleftrightarrow> chunk_wf c \<and> ch_sched c = [] \<and> trlPos c = 0 \<and> (ch_state c = CHUNK_TRAILER \<or> ch_state c = CHUNK_TRAILER_POSTCR)"

definition header :: "chunk_opts \<Rightarrow> string \<Rightarrow> conn \<Rightarrow> conn" where
  "header opts l c = (if \<not> http_te_skip opts
     then c\<lparr>delivered := (delivered c)(To_headers := delivered c To_headers @ l)\<rparr> else c)"

lemma read_trailer_eol:
  assumes "accepting opts" "chunk_wf c" "ch_state c = CHUNK_TRAILER" "ch_sched c = []" "take (trlPos c) (trailer c) = l" "trlPos c = length l" "l \<noteq> []"
  shows "\<exists>c'. httpchunk_loop opts c (CR # LF # rest) = httpchunk_loop opts c' rest \<and> at_trailer c' \<and>
    delivered c' = delivered (header opts (l @ [CR, LF]) c)"
proof -
  let ?n = "length l"
  have len: "?n + 2 < length (trailer c)" using assms(2,6,7) by (auto simp: chunk_wf_def)
  let ?b = "(trailer c)[?n := CHR 0x0D, Suc ?n := CHR 0x0A]"
  have b: "take (Suc (Suc ?n)) ?b = l @ [CHR 0x0D, CHR 0x0A]"
    using len assms(5,6) by (simp add: take_Suc_conv_app_nth)
  let ?c = "header opts (l @ [CR, LF]) c\<lparr>trailer := ?b[Suc (Suc ?n) := NUL], trlPos := 0, ch_state := CHUNK_TRAILER_CR\<rparr>"
  have "chunk_step opts c CR (LF # rest) = Inr (Loops ?c (LF # rest))"
    using assms(1,3,6,7) len b
    by (simp add: chunk_step_def step_trailer_def CR_def LF_def set_byte_in client_write_accepting header_def)
  then have "httpchunk_loop opts c (CR # LF # rest) = httpchunk_loop opts (?c\<lparr>ch_state := CHUNK_TRAILER_POSTCR\<rparr>) rest"
    by (simp add: chunk_step_def step_trailer_cr_def header_def LF_def)
  moreover have "at_trailer (?c\<lparr>ch_state := CHUNK_TRAILER_POSTCR\<rparr>)"
    using assms(2,4) by (simp add: at_trailer_def chunk_wf_def header_def)
  ultimately show ?thesis by (intro exI [of _ "?c\<lparr>ch_state := CHUNK_TRAILER_POSTCR\<rparr>"]) (simp add: header_def)
qed

lemma read_trailer_line:
  assumes "accepting opts" "at_trailer c" "trailer_line l"
  shows "\<exists>c'. httpchunk_loop opts c ((l @ [CR, LF]) @ rest) = httpchunk_loop opts c' rest \<and> at_trailer c' \<and>
    delivered c' = delivered (header opts (l @ [CR, LF]) c)"
proof -
  let ?c = "c\<lparr>ch_state := CHUNK_TRAILER\<rparr>"
  obtain d l' where l: "l = d # l'" "d \<noteq> CHR 0x0D" "d \<noteq> CHR 0x0A"
    using assms(3) by (cases l) (auto simp: trailer_line_def LF_def CR_def)
  have "httpchunk_loop opts c (l @ CR # LF # rest) = httpchunk_loop opts ?c (l @ CR # LF # rest)"
  proof (cases "ch_state c = CHUNK_TRAILER")
    case False
    then have "chunk_step opts c d (l' @ CR # LF # rest) = Inr (Loops ?c (d # l' @ CR # LF # rest))"
      using assms(2) l by (auto simp: at_trailer_def chunk_step_def step_trailer_postcr_def)
    then show ?thesis unfolding l append_Cons
      by (subst httpchunk_loop.simps(2)) (simp only: sum.case turn_result.case)
  next
    case True
    then have "?c = c" by (cases c) simp
    then show ?thesis by simp
  qed
  moreover have "chunk_wf ?c" "trlPos ?c = 0" using assms(2) by (simp_all add: at_trailer_def chunk_wf_def)
  with read_trailer_chars [of ?c l opts "CR # LF # rest"] obtain c1 where
    c1: "httpchunk_loop opts ?c (l @ CR # LF # rest) = httpchunk_loop opts c1 (CR # LF # rest)" "chunk_wf c1" "ch_state c1 = CHUNK_TRAILER"
    "ch_sched c1 = []" "delivered c1 = delivered c" "trlPos c1 = length l" "take (trlPos c1) (trailer c1) = l"
    using assms(2,3) by (auto simp: at_trailer_def trailer_line_def)
  moreover obtain c2 where "httpchunk_loop opts c1 (CR # LF # rest) = httpchunk_loop opts c2 rest" "at_trailer c2"
    "delivered c2 = delivered (header opts (l @ [CR, LF]) c1)"
    using read_trailer_eol [OF assms(1) c1(2-4,7,6)] l by auto
  ultimately show ?thesis using c1(5) by (intro exI [of _ c2]) (simp add: header_def)
qed

lemma header_header: "delivered c1 = delivered (header opts xs c) \<Longrightarrow> delivered (header opts ys c1) = delivered (header opts (xs @ ys) c)"
  by (auto simp: header_def split: if_splits)

lemma read_trailers:
  assumes "accepting opts" "at_trailer c" "\<forall>l \<in> set ls. trailer_line l"
  shows "\<exists>c'. httpchunk_loop opts c (concat (map (\<lambda>l. l @ [CR, LF]) ls) @ rest) = httpchunk_loop opts c' rest \<and> at_trailer c' \<and>
    delivered c' = delivered (header opts (concat (map (\<lambda>l. l @ [CR, LF]) ls)) c)"
  using assms(2,3)
proof (induction ls arbitrary: c)
  case Nil
  then show ?case by (auto simp: header_def intro!: exI [of _ c])
next
  case (Cons l ls)
  let ?ls = "concat (map (\<lambda>l. l @ [CR, LF]) ls)"
  from read_trailer_line [OF assms(1) Cons.prems(1), of l "?ls @ rest"] Cons.prems obtain c1 where
    c1: "httpchunk_loop opts c ((l @ [CR, LF]) @ ?ls @ rest) = httpchunk_loop opts c1 (?ls @ rest)" "at_trailer c1"
      "delivered c1 = delivered (header opts (l @ [CR, LF]) c)" by auto
  from Cons.IH [OF c1(2)] Cons.prems obtain c2 where
    "httpchunk_loop opts c1 (?ls @ rest) = httpchunk_loop opts c2 rest" "at_trailer c2"
    "delivered c2 = delivered (header opts ?ls c1)" by auto
  with c1 header_header [OF c1(3), of ?ls] show ?case by (intro exI [of _ c2]) simp
qed

lemma read_end:
  assumes "at_trailer c"
  shows "\<exists>c'. httpchunk_loop opts c (CR # LF # rest) = Inr (CHUNKE_STOP, c') \<and> dataleft c' = length rest \<and> delivered c' = delivered c"
  using assms
  by (auto simp: at_trailer_def chunk_step_def step_trailer_def step_trailer_postcr_def step_stop_def CR_def LF_def Let_def)

definition chunked_result :: "chunk_opts \<Rightarrow> wire_chunk list \<Rightarrow> string list \<Rightarrow> conn \<Rightarrow> conn" where
  "chunked_result opts chunks trailers c =
    header opts (concat (map (\<lambda>l. l @ [CR, LF]) trailers)) (give opts (concat (map chunk_data chunks)) c)"

lemma read_chunked_text:
  assumes "accepting opts" "at_start c" "\<forall>ch \<in> set chunks. valid_chunk ch" "valid_size zero" "hex_value zero = 0" "valid_ext ext"
    "\<forall>l \<in> set trailers. trailer_line l"
  shows "\<exists>c'. httpchunk_loop opts c (chunked_text chunks zero ext trailers @ rest) = Inr (CHUNKE_STOP, c') \<and>
    dataleft c' = length rest \<and> delivered c' = delivered (chunked_result opts chunks trailers c)"
proof -
  let ?ls = "concat (map (\<lambda>l. l @ [CR, LF]) trailers)"
  obtain c1 where c1: "httpchunk_loop opts c (chunked_text chunks zero ext trailers @ rest) =
      httpchunk_loop opts c1 (zero @ ext @ LF # ?ls @ CR # LF # rest)" "at_start c1"
    "delivered c1 = delivered (give opts (concat (map chunk_data chunks)) c)"
    using read_chunks [OF assms(1-3), of "zero @ ext @ LF # ?ls @ CR # LF # rest"] by (auto simp: chunked_text_def)
  obtain b n where bn: "httpchunk_loop opts c1 (zero @ ext @ LF # ?ls @ CR # LF # rest) = httpchunk_loop opts
      (c1\<lparr>hexbuffer := b, hexindex := n, datasize := 0, ch_state := CHUNK_TRAILER, trlPos := 0\<rparr>) (?ls @ CR # LF # rest)"
    "length b = 17" "n \<le> 16" "\<forall>d \<in> set (take n b). hex_char d"
    using read_size [OF c1(2) assms(4,6), of opts "?ls @ CR # LF # rest"] assms(5) by auto
  let ?c2 = "c1\<lparr>hexbuffer := b, hexindex := n, datasize := 0, ch_state := CHUNK_TRAILER, trlPos := 0\<rparr>"
  have "at_trailer ?c2" using c1(2) bn(2-4) by (simp add: at_trailer_def at_start_def chunk_wf_def MAXNUM_SIZE_def)
  from read_trailers [OF assms(1) this assms(7), of "CR # LF # rest"] obtain c3 where
    c3: "httpchunk_loop opts ?c2 (?ls @ CR # LF # rest) = httpchunk_loop opts c3 (CR # LF # rest)" "at_trailer c3"
    "delivered c3 = delivered (header opts ?ls ?c2)" by auto
  from read_end [OF c3(2), of opts rest] obtain c4 where
    c4: "httpchunk_loop opts c3 (CR # LF # rest) = Inr (CHUNKE_STOP, c4)" "dataleft c4 = length rest" "delivered c4 = delivered c3" by auto
  have "delivered c4 = delivered (chunked_result opts chunks trailers c)"
    using c1(3) by (simp add: c4(3) c3(3) chunked_result_def header_def)
  with c1(1) bn(1) c3(1) c4 show ?thesis by auto
qed

section \<open>The properties\<close>

lemma new_conn_start: "at_start (new_conn [])" "chunk_wf (new_conn s)"
  by (simp_all add: at_start_def chunk_wf_def new_conn_def Curl_httpchunk_init_def)

lemma httpchunk_read_wf:
  assumes "chunk_wf c"
  shows "\<exists>code c'. Curl_httpchunk_read opts c xs = Inr (code, c') \<and> (code = CHUNKE_OK \<longrightarrow> chunk_wf c')"
proof -
  let ?c = "c\<lparr>wrote := 0\<rparr>"
  have wf: "chunk_wf ?c" "chunk_wf (?c\<lparr>delivered := D\<rparr>)" for D using assms by (simp_all add: chunk_wf_def)
  show ?thesis
    using httpchunk_loop_wf [OF wf(1), of opts xs] httpchunk_loop_wf [OF wf(2), of opts _ xs]
    by (auto simp: Curl_httpchunk_read_def client_write_def Let_def)
qed

lemma read_pieces_wf: "chunk_wf c \<Longrightarrow> \<exists>code c' rest. read_pieces opts c ps = Inr (code, c', rest)"
proof (induction ps arbitrary: c)
  case (Cons p ps)
  from httpchunk_read_wf [OF Cons.prems, of opts p] obtain code c' where
    c': "Curl_httpchunk_read opts c p = Inr (code, c')" "code = CHUNKE_OK \<longrightarrow> chunk_wf c'" by blast
  with Cons.IH [of c'] show ?case by (cases "code = CHUNKE_OK") auto
qed simp


text \<open>
  C10: A chunked body with any chunk sizes, extensions and trailers, cut anywhere by the network: the
  decoder stops exactly behind it, returns the bytes that follow, and has delivered the
  concatenation of the chunks to the body (or to the content decoder) and the trailer lines to the
  headers.
\<close>

theorem chunked_body_any_split:
  assumes "accepting opts" "\<not> http_te_skip opts"
    and "\<forall>ch \<in> set chunks. valid_chunk ch" "valid_size zero" "hex_value zero = 0" "valid_ext ext"
    and "\<forall>l \<in> set trailers. trailer_line l"
    and "concat ps = chunked_text chunks zero ext trailers @ rest"
  shows "\<exists>c. read_pieces opts (new_conn []) ps = Inr (CHUNKE_STOP, c, rest) \<and>
    delivered c = delivered (chunked_result opts chunks trailers (new_conn []))"
proof -
  obtain c' where c': "httpchunk_loop opts (new_conn []) (concat ps) = Inr (CHUNKE_STOP, c')" "dataleft c' = length rest"
    "delivered c' = delivered (chunked_result opts chunks trailers (new_conn []))"
    using read_chunked_text [OF assms(1) new_conn_start(1) assms(3-7), of rest] assms(8) by auto
  from read_pieces_joined [OF assms(1,2) new_conn_start(2) c'(1)] c'(2) assms(8) obtain c2 where
    "read_pieces opts (new_conn []) ps = Inr (CHUNKE_STOP, c2, rest)" "same c' c2" by auto
  with c'(3) same_delivered show ?thesis by fastforce
qed

definition sample_opts :: chunk_opts where
  "sample_opts = \<lparr>http_te_skip = False, http_ce_skip = False, ignorebody = False, writer_stack = False,
     accepts = (\<lambda>s before xs. True)\<rparr>"

theorem chunked_body_any_split_witness:
  "\<exists>c. read_pieces sample_opts (new_conn [])
      [''3'', [CR], LF # ''abc'' @ [CR, LF] @ ''0'', [CR, LF] @ ''T: 1'' @ [CR, LF, CR], LF # ''next''] =
    Inr (CHUNKE_STOP, c, ''next'') \<and> delivered c To_body = ''abc'' \<and> delivered c To_headers = ''T: 1'' @ [CR, LF]"
proof -
  let ?ps = "[''3'', [CR], LF # ''abc'' @ [CR, LF] @ ''0'', [CR, LF] @ ''T: 1'' @ [CR, LF, CR], LF # ''next'']"
  have v: "accepting sample_opts" "\<not> http_te_skip sample_opts"
    "\<forall>ch \<in> set [(''3'', [CR], ''abc'')]. valid_chunk ch" "valid_size ''0''" "hex_value ''0'' = 0" "valid_ext [CR]"
    "\<forall>l \<in> set [''T: 1'']. trailer_line l"
    "concat ?ps = chunked_text [(''3'', [CR], ''abc'')] ''0'' [CR] [''T: 1''] @ ''next''"
    by (simp_all add: accepting_def sample_opts_def valid_chunk_def valid_size_def valid_ext_def hex_value_def hex_char_def
        get_char_def char_le_ord trailer_line_def chunked_text_def chunk_text_def CR_def LF_def)
  show ?thesis
    using chunked_body_any_split [OF v]
    by (auto simp: chunked_result_def header_def give_def sample_opts_def chunk_data_def new_conn_def Curl_httpchunk_init_def)
qed

text \<open>
  With transfer decoding switched off the raw bytes are written to the client and the decoded ones
  again: the guard against that is missing in the data state.
\<close>

lemma te_skip_delivers_twice:
  "\<exists>c. Curl_httpchunk_read (sample_opts\<lparr>http_te_skip := True\<rparr>) (new_conn []) (''1'' @ [LF] @ ''a'') = Inr (CHUNKE_OK, c) \<and>
    delivered c To_body = ''1'' @ [LF] @ ''a'' @ ''a''"
  by (simp add: Curl_httpchunk_read_def sample_opts_def new_conn_def Curl_httpchunk_init_def client_write_def chunk_step_def
      step_hex_def Curl_isxdigit_def set_byte_def MAXNUM_SIZE_def LF_def c_str_def curlx_strtoofft_def ISSPACE_def strtol_def
      get_char_def char_le_ord Let_def digits_value_def step_lf_def step_data_def numeral_eq_Suc)


end
