(* ===== verification/Llist.thy ===== *)
theory Llist
  imports Prelude
begin

text \<open>
  \<^verbatim>\<open>lib/llist.c\<close> of the vendored libcurl: doubly linked lists whose elements live inside other
  objects. Its users are the hash table, the connection cache and the timers of a transfer.

  Memory is explicit: a heap maps the address of an element to its three fields, \<open>None\<close> is the
  null pointer, reading through it faults. The operations return the new heap and list, and the
  objects the destructor of the list was called for. \<open>linked H l xs\<close> says that the list represents
  the element addresses \<open>xs\<close>; the operations refine insertion into and removal from \<open>xs\<close>.
\<close>

type_synonym addr = nat

record 'a node =
  n_ptr :: "'a option"
  n_prev :: "addr option"
  n_next :: "addr option"

type_synonym 'a heap = "addr \<Rightarrow> 'a node"

record llist =
  l_head :: "addr option"
  l_tail :: "addr option"
  l_dtor :: bool
  l_size :: nat

definition at :: "addr \<Rightarrow> ('a node \<Rightarrow> 'a node) \<Rightarrow> 'a heap \<Rightarrow> 'a heap" where
  "at a f H = H(a := f (H a))"

definition through :: "addr option \<Rightarrow> ('a node \<Rightarrow> 'a node) \<Rightarrow> 'a heap \<Rightarrow> fault + 'a heap" where
  "through p f H = (case p of None \<Rightarrow> Inl Null_deref | Some a \<Rightarrow> Inr (at a f H))"

definition Curl_llist_init :: "bool \<Rightarrow> llist" where
  "Curl_llist_init dtor = \<lparr>l_head = None, l_tail = None, l_dtor = dtor, l_size = 0\<rparr>"

definition Curl_llist_insert_next ::
  "'a heap \<Rightarrow> llist \<Rightarrow> addr option \<Rightarrow> 'a \<Rightarrow> addr \<Rightarrow> fault + 'a heap \<times> llist" where
  "Curl_llist_insert_next H l e p ne =
    (let H = at ne (\<lambda>n. n\<lparr>n_ptr := Some p\<rparr>) H in
     if l_size l = 0 then
       Inr (at ne (\<lambda>n. n\<lparr>n_prev := None, n_next := None\<rparr>) H,
            l\<lparr>l_head := Some ne, l_tail := Some ne, l_size := l_size l + 1\<rparr>)
     else let H = at ne (\<lambda>n. n\<lparr>n_next := (case e of Some a \<Rightarrow> n_next (H a) | None \<Rightarrow> l_head l)\<rparr>) H;
              H = at ne (\<lambda>n. n\<lparr>n_prev := e\<rparr>) H
     in case e of
          None \<Rightarrow> rbind (through (l_head l) (\<lambda>n. n\<lparr>n_prev := Some ne\<rparr>) H) (\<lambda>H.
                  Inr (H, l\<lparr>l_head := Some ne, l_size := l_size l + 1\<rparr>))
        | Some a \<Rightarrow>
            let (H, l) = (case n_next (H a) of
                  Some b \<Rightarrow> (at b (\<lambda>n. n\<lparr>n_prev := Some ne\<rparr>) H, l)
                | None \<Rightarrow> (H, l\<lparr>l_tail := Some ne\<rparr>))
            in Inr (at a (\<lambda>n. n\<lparr>n_next := Some ne\<rparr>) H, l\<lparr>l_size := l_size l + 1\<rparr>))"

text \<open>Both \<^verbatim>\<open>Curl_llist_remove\<close> and \<^verbatim>\<open>Curl_llist_move\<close> begin by unlinking the head.\<close>

definition unlink_head :: "'a heap \<Rightarrow> llist \<Rightarrow> addr \<Rightarrow> 'a heap \<times> llist" where
  "unlink_head H l e =
    (let l = l\<lparr>l_head := n_next (H e)\<rparr> in
     case l_head l of
       None \<Rightarrow> (H, l\<lparr>l_tail := None\<rparr>)
     | Some b \<Rightarrow> (at b (\<lambda>n. n\<lparr>n_prev := None\<rparr>) H, l))"

definition unlink_rest :: "'a heap \<Rightarrow> llist \<Rightarrow> addr \<Rightarrow> 'a heap \<times> llist" where
  "unlink_rest H l e =
    (case n_next (H e) of
       None \<Rightarrow> (H, l\<lparr>l_tail := n_prev (H e)\<rparr>)
     | Some b \<Rightarrow> (at b (\<lambda>n. n\<lparr>n_prev := n_prev (H e)\<rparr>) H, l))"

definition Curl_llist_remove :: "'a heap \<Rightarrow> llist \<Rightarrow> addr option \<Rightarrow> 'a heap \<times> llist \<times> 'a option list" where
  "Curl_llist_remove H l e =
    (case e of
       None \<Rightarrow> (H, l, [])
     | Some a \<Rightarrow>
         if l_size l = 0 then (H, l, [])
         else let (H, l) =
                (if Some a = l_head l then unlink_head H l a
                 else let (H, l) = (case n_prev (H a) of
                        None \<Rightarrow> (H, l\<lparr>l_head := n_next (H a)\<rparr>)
                      | Some b \<Rightarrow> (at b (\<lambda>n. n\<lparr>n_next := n_next (H a)\<rparr>) H, l))
                      in unlink_rest H l a);
              ptr = n_ptr (H a);
              H = at a (\<lambda>n. n\<lparr>n_ptr := None, n_prev := None, n_next := None\<rparr>) H;
              l = l\<lparr>l_size := l_size l - 1\<rparr>
         in (H, l, if l_dtor l then [ptr] else []))"

text \<open>The loop of \<^verbatim>\<open>Curl_llist_destroy\<close> runs while the size is positive; its fuel is the size.\<close>

fun destroy_loop :: "nat \<Rightarrow> 'a heap \<Rightarrow> llist \<Rightarrow> 'a option list \<Rightarrow> fault + 'a heap \<times> llist \<times> 'a option list" where
  "destroy_loop k H l freed =
    (if l_size l = 0 then Inr (H, l, freed)
     else case k of
       0 \<Rightarrow> Inl No_return
     | Suc k \<Rightarrow> (case Curl_llist_remove H l (l_tail l) of
         (H, l, ps) \<Rightarrow> destroy_loop k H l (freed @ ps)))"

declare destroy_loop.simps [simp del]

definition Curl_llist_destroy :: "'a heap \<Rightarrow> llist \<Rightarrow> fault + 'a heap \<times> llist \<times> 'a option list" where
  "Curl_llist_destroy H l = destroy_loop (l_size l) H l []"

definition Curl_llist_count :: "llist \<Rightarrow> nat" where
  "Curl_llist_count l = l_size l"

definition Curl_llist_move ::
  "'a heap \<Rightarrow> llist \<Rightarrow> addr option \<Rightarrow> llist \<Rightarrow> addr option \<Rightarrow> fault + 'a heap \<times> llist \<times> llist" where
  "Curl_llist_move H l e to_list to_e =
    (case e of
       None \<Rightarrow> Inr (H, l, to_list)
     | Some a \<Rightarrow>
         if l_size l = 0 then Inr (H, l, to_list)
         else rbind
           (if Some a = l_head l then Inr (unlink_head H l a)
            else rbind (through (n_prev (H a)) (\<lambda>n. n\<lparr>n_next := n_next (H a)\<rparr>) H) (\<lambda>H. Inr (unlink_rest H l a)))
           (\<lambda>(H, l).
             let l = l\<lparr>l_size := l_size l - 1\<rparr> in
             if l_size to_list = 0 then
               Inr (at a (\<lambda>n. n\<lparr>n_prev := None, n_next := None\<rparr>) H, l,
                    to_list\<lparr>l_head := Some a, l_tail := Some a, l_size := l_size to_list + 1\<rparr>)
             else case to_e of
               None \<Rightarrow> Inl Null_deref
             | Some b \<Rightarrow>
                 let H = at a (\<lambda>n. n\<lparr>n_next := n_next (H b), n_prev := Some b\<rparr>) H;
                     (H, to_list) = (case n_next (H b) of
                       Some d \<Rightarrow> (at d (\<lambda>n. n\<lparr>n_prev := Some a\<rparr>) H, to_list)
                     | None \<Rightarrow> (H, to_list\<lparr>l_tail := Some a\<rparr>))
                 in Inr (at b (\<lambda>n. n\<lparr>n_next := Some a\<rparr>) H, l, to_list\<lparr>l_size := l_size to_list + 1\<rparr>)))"

section \<open>The lists they represent\<close>

definition first :: "addr list \<Rightarrow> addr option \<Rightarrow> addr option" where
  "first xs q = (case xs of [] \<Rightarrow> q | x # _ \<Rightarrow> Some x)"

definition final :: "addr list \<Rightarrow> addr option \<Rightarrow> addr option" where
  "final xs p = (if xs = [] then p else Some (last xs))"

lemma first_simps [simp]: "first [] q = q" "first (x # xs) q = Some x" "first (xs @ ys) q = first xs (first ys q)"
  by (simp_all add: first_def split: list.split)

lemma final_simps [simp]: "final [] p = p" "final (x # xs) p = final xs (Some x)" "final (xs @ ys) p = final ys (final xs p)"
  by (simp_all add: final_def)

fun chain :: "'a heap \<Rightarrow> addr option \<Rightarrow> addr list \<Rightarrow> addr option \<Rightarrow> bool" where
  "chain H p [] q = True"
| "chain H p (x # xs) q = (n_prev (H x) = p \<and> n_next (H x) = first xs q \<and> chain H (Some x) xs q)"

definition linked :: "'a heap \<Rightarrow> llist \<Rightarrow> addr list \<Rightarrow> bool" where
  "linked H l xs \<longleftrightarrow> distinct xs \<and> l_head l = first xs None \<and> l_tail l = final xs None \<and>
    l_size l = length xs \<and> chain H None xs None"

lemma chain_append [simp]: "chain H p (us @ vs) q \<longleftrightarrow> chain H p us (first vs q) \<and> chain H (final us p) vs q"
  by (induction us arbitrary: p) auto

lemma at_simps [simp]: "at a f H a = f (H a)" "b \<noteq> a \<Longrightarrow> at a f H b = H b"
  by (simp_all add: at_def)

lemma chain_at_other [simp]: "a \<notin> set xs \<Longrightarrow> chain (at a f H) p xs q = chain H p xs q"
  by (induction xs arbitrary: p) auto

lemma chain_ptr: "(\<And>n. n_prev (f n) = n_prev n \<and> n_next (f n) = n_next n) \<Longrightarrow> chain (at a f H) p xs q = chain H p xs q"
  by (induction xs arbitrary: p) (simp_all add: at_def)

lemma final_cases: "xs = [] \<or> (\<exists>ys y. xs = ys @ [y])"
  by (cases xs rule: rev_cases) auto

lemma first_cases: "first xs None = None \<longleftrightarrow> xs = []" "first xs None = Some x \<longleftrightarrow> (\<exists>ys. xs = x # ys)"
  by (auto simp: first_def split: list.splits)

lemma at_ptr [simp]:
  "n_ptr (at a (n_prev_update f) H b) = n_ptr (H b)" "n_ptr (at a (n_next_update f) H b) = n_ptr (H b)"
  by (simp_all add: at_def)

lemma insert_first:
  assumes "linked H l xs" "ne \<notin> set xs" "xs = [] \<or> e = None"
  shows "\<exists>H' l'. Curl_llist_insert_next H l e p ne = Inr (H', l') \<and> linked H' l' (ne # xs) \<and>
    n_ptr (H' ne) = Some p \<and> (\<forall>b. b \<noteq> ne \<longrightarrow> n_ptr (H' b) = n_ptr (H b)) \<and> (\<forall>b. b \<notin> set (ne # xs) \<longrightarrow> H' b = H b)"
proof (cases xs)
  case Nil
  with assms show ?thesis
    by (auto simp: Curl_llist_insert_next_def linked_def at_def Let_def)
next
  case (Cons x ys)
  with assms show ?thesis
    by (auto simp: Curl_llist_insert_next_def linked_def through_def Let_def)
qed

lemma insert_after:
  assumes "linked H l (us @ a # vs)" "ne \<notin> set (us @ a # vs)"
  shows "\<exists>H' l'. Curl_llist_insert_next H l (Some a) p ne = Inr (H', l') \<and> linked H' l' (us @ a # ne # vs) \<and>
    n_ptr (H' ne) = Some p \<and> (\<forall>b. b \<noteq> ne \<longrightarrow> n_ptr (H' b) = n_ptr (H b)) \<and> (\<forall>b. b \<notin> set (us @ a # ne # vs) \<longrightarrow> H' b = H b)"
proof (cases vs)
  case Nil
  with assms show ?thesis
    by (auto simp: Curl_llist_insert_next_def linked_def Let_def)
next
  case (Cons v ys)
  with assms show ?thesis
    by (auto simp: Curl_llist_insert_next_def linked_def Let_def)
qed

lemma remove_linked:
  assumes "linked H l (us @ a # vs)"
  shows "\<exists>H' l'. Curl_llist_remove H l (Some a) = (H', l', if l_dtor l then [n_ptr (H a)] else []) \<and> linked H' l' (us @ vs) \<and>
    l_dtor l' = l_dtor l \<and> H' a = \<lparr>n_ptr = None, n_prev = None, n_next = None\<rparr> \<and>
    (\<forall>b. b \<noteq> a \<longrightarrow> n_ptr (H' b) = n_ptr (H b)) \<and> (\<forall>b. b \<notin> set (us @ a # vs) \<longrightarrow> H' b = H b)"
proof (cases us rule: rev_cases)
  case Nil
  show ?thesis
  proof (cases vs)
    case Nil2: Nil
    with Nil assms show ?thesis
      by (auto simp: Curl_llist_remove_def unlink_head_def linked_def Let_def)
  next
    case (Cons v ys)
    with Nil assms show ?thesis
      by (auto simp: Curl_llist_remove_def unlink_head_def linked_def Let_def)
  qed
next
  case (snoc ys u)
  have head: "Some a \<noteq> first ys (Some u)" using assms snoc by (cases ys) (auto simp: linked_def)
  show ?thesis
  proof (cases vs)
    case Nil
    with snoc assms head show ?thesis
      by (auto simp: Curl_llist_remove_def unlink_rest_def linked_def Let_def)
  next
    case (Cons v zs)
    with snoc assms head show ?thesis
      by (auto simp: Curl_llist_remove_def unlink_rest_def linked_def Let_def)
  qed
qed


lemma destroy_loop_linked:
  "linked H l xs \<Longrightarrow> \<exists>H' l'. destroy_loop (length xs) H l freed =
      Inr (H', l', freed @ (if l_dtor l then map (\<lambda>a. n_ptr (H a)) (rev xs) else [])) \<and>
    linked H' l' [] \<and> l_dtor l' = l_dtor l \<and> (\<forall>b. b \<notin> set xs \<longrightarrow> H' b = H b)"
proof (induction xs arbitrary: H l freed rule: rev_induct)
  case Nil
  then show ?case by (intro exI [of _ H] exI [of _ l]) (simp add: destroy_loop.simps linked_def)
next
  case (snoc a us)
  have l: "l_tail l = Some a" "l_size l = Suc (length us)" "a \<notin> set us" using snoc.prems by (simp_all add: linked_def)
  obtain H1 l1 where r: "Curl_llist_remove H l (Some a) = (H1, l1, if l_dtor l then [n_ptr (H a)] else [])" "linked H1 l1 us"
    "l_dtor l1 = l_dtor l" "\<forall>b. b \<noteq> a \<longrightarrow> n_ptr (H1 b) = n_ptr (H b)" "\<forall>b. b \<notin> set (us @ [a]) \<longrightarrow> H1 b = H b"
    using remove_linked [of H l us a "[]"] snoc.prems by auto
  let ?f = "freed @ (if l_dtor l then [n_ptr (H a)] else [])"
  have "destroy_loop (length (us @ [a])) H l freed = destroy_loop (length us) H1 l1 ?f"
    by (subst destroy_loop.simps) (simp add: l r)
  moreover from snoc.IH [OF r(2), of ?f] obtain H2 l2 where
    "destroy_loop (length us) H1 l1 ?f = Inr (H2, l2, ?f @ (if l_dtor l1 then map (\<lambda>a. n_ptr (H1 a)) (rev us) else []))"
    "linked H2 l2 []" "l_dtor l2 = l_dtor l1" "\<forall>b. b \<notin> set us \<longrightarrow> H2 b = H1 b" by blast
  moreover have "map (\<lambda>a. n_ptr (H1 a)) (rev us) = map (\<lambda>a. n_ptr (H a)) (rev us)" using r(4) l(3) by auto
  ultimately show ?case using r(3,5) by (intro exI [of _ H2] exI [of _ l2]) (simp add: r(3))
qed

text \<open>Unlinking leaves the element alone: what it was linked to is linked without it.\<close>

definition unlinked :: "'a heap \<Rightarrow> llist \<Rightarrow> addr list \<Rightarrow> bool" where
  "unlinked H l xs \<longleftrightarrow> linked H (l\<lparr>l_size := l_size l - 1\<rparr>) xs"

lemma move_unlinks:
  assumes "linked H l (us @ a # vs)"
  shows "\<exists>H' l'. (if Some a = l_head l then Inr (unlink_head H l a)
      else rbind (through (n_prev (H a)) (\<lambda>n. n\<lparr>n_next := n_next (H a)\<rparr>) H) (\<lambda>H. Inr (unlink_rest H l a))) = Inr (H', l') \<and>
    unlinked H' l' (us @ vs) \<and> l_dtor l' = l_dtor l \<and>
    (\<forall>b. n_ptr (H' b) = n_ptr (H b)) \<and> (\<forall>b. b \<notin> set (us @ vs) \<longrightarrow> H' b = H b)"
proof (cases us rule: rev_cases)
  case Nil
  show ?thesis
  proof (cases vs)
    case Nil2: Nil
    with Nil assms show ?thesis
      by (auto simp: unlink_head_def linked_def unlinked_def Let_def)
  next
    case (Cons v ys)
    with Nil assms show ?thesis
      by (auto simp: unlink_head_def linked_def unlinked_def Let_def)
  qed
next
  case (snoc ys u)
  have head: "Some a \<noteq> first ys (Some u)" using assms snoc by (cases ys) (auto simp: linked_def)
  show ?thesis
  proof (cases vs)
    case Nil
    with snoc assms head show ?thesis
      by (auto simp: through_def unlink_rest_def linked_def unlinked_def Let_def)
  next
    case (Cons v zs)
    with snoc assms head show ?thesis
      by (auto simp: through_def unlink_rest_def linked_def unlinked_def Let_def)
  qed
qed

lemma linked_other:
  assumes "linked H l xs" "\<forall>b \<in> set xs. H' b = H b"
  shows "linked H' l xs"
proof -
  have "chain H' p xs q = chain H p xs q" for p q using assms(2) by (induction xs arbitrary: p) auto
  with assms(1) show ?thesis by (simp add: linked_def)
qed

lemma move_linked:
  assumes fr: "linked H l (us @ a # vs)" and to: "linked H t (ws @ b # zs)"
    and disjoint: "set (us @ a # vs) \<inter> set (ws @ b # zs) = {}"
  shows "\<exists>H' l' t'. Curl_llist_move H l (Some a) t (Some b) = Inr (H', l', t') \<and>
    linked H' l' (us @ vs) \<and> linked H' t' (ws @ b # a # zs) \<and> (\<forall>c. n_ptr (H' c) = n_ptr (H c))"
proof -
  obtain H1 l1 where u: "(if Some a = l_head l then Inr (unlink_head H l a)
      else rbind (through (n_prev (H a)) (\<lambda>n. n\<lparr>n_next := n_next (H a)\<rparr>) H) (\<lambda>H. Inr (unlink_rest H l a))) = Inr (H1, l1)"
    "unlinked H1 l1 (us @ vs)" "\<forall>c. n_ptr (H1 c) = n_ptr (H c)" "\<forall>c. c \<notin> set (us @ vs) \<longrightarrow> H1 c = H c"
    using move_unlinks [OF fr] by auto
  have t1: "linked H1 t (ws @ b # zs)"
    using linked_other [OF to, of H1] u(4) disjoint by auto
  let ?l = "l1\<lparr>l_size := l_size l1 - 1\<rparr>"
  have l1: "linked H1 ?l (us @ vs)" using u(2) by (simp add: unlinked_def)
  have size: "l_size l \<noteq> 0" "l_size t \<noteq> 0" using fr to by (simp_all add: linked_def)
  have nb: "n_next (H1 b) = first zs None" using t1 by (simp add: linked_def)
  have ne: "a \<noteq> b" "b \<noteq> a" "a \<notin> set ws" "a \<notin> set zs" using disjoint by auto
  show ?thesis
  proof (cases zs)
    case Nil
    let ?H = "at b (\<lambda>n. n\<lparr>n_next := Some a\<rparr>) (at a (\<lambda>n. n\<lparr>n_next := None, n_prev := Some b\<rparr>) H1)"
    let ?t = "t\<lparr>l_tail := Some a, l_size := l_size t + 1\<rparr>"
    have "Curl_llist_move H l (Some a) t (Some b) = Inr (?H, ?l, ?t)"
      unfolding Curl_llist_move_def using size u(1) nb ne Nil by (simp add: Let_def)
    moreover have "linked ?H ?l (us @ vs)" by (rule linked_other [OF l1]) (use disjoint fr in \<open>auto simp: linked_def at_def\<close>)
    moreover have "linked ?H ?t (ws @ b # a # zs)" using t1 ne Nil by (auto simp: linked_def)
    moreover have "\<forall>c. n_ptr (?H c) = n_ptr (H c)" using u(3) by (simp add: at_def)
    ultimately show ?thesis by blast
  next
    case (Cons d zs')
    then have d: "d \<noteq> a" "d \<noteq> b" "d \<notin> set ws" "d \<notin> set zs'" using t1 ne by (auto simp: linked_def)
    let ?H = "at b (\<lambda>n. n\<lparr>n_next := Some a\<rparr>) (at d (\<lambda>n. n\<lparr>n_prev := Some a\<rparr>)
      (at a (\<lambda>n. n\<lparr>n_next := Some d, n_prev := Some b\<rparr>) H1))"
    let ?t = "t\<lparr>l_size := l_size t + 1\<rparr>"
    have "Curl_llist_move H l (Some a) t (Some b) = Inr (?H, ?l, ?t)"
      unfolding Curl_llist_move_def using size u(1) nb ne Cons by (simp add: Let_def)
    moreover have "linked ?H ?l (us @ vs)"
      by (rule linked_other [OF l1]) (use disjoint fr Cons in \<open>auto simp: linked_def at_def\<close>)
    moreover have "linked ?H ?t (ws @ b # a # zs)" using t1 ne d Cons by (auto simp: linked_def)
    moreover have "\<forall>c. n_ptr (?H c) = n_ptr (H c)" using u(3) by (simp add: at_def)
    ultimately show ?thesis by blast
  qed
qed




end
