(* ===== verification/Curl_Hash.thy ===== *)
theory Curl_Hash
  imports Cjson Llist
begin

text \<open>
  \<^verbatim>\<open>lib/hash.c\<close> of the vendored libcurl, the table behind its DNS and connection caches.

  A slot is the list of the objects its linked list stores, in the order of the links; that the
  pointer code maintains it is shown in \<^theory_text>\<open>Llist\<close>. The table is \<open>None\<close> when there is no memory
  for it. The hash function and the comparison are fields, as in the source; \<open>hash_contract\<close> states
  what the callers' functions must satisfy, and the two functions of the file do. An operation
  returns the values whose destructor it called; values are non-null pointers (the destructor is
  skipped for null ones).
\<close>

type_synonym ('k, 'v) hash_element = "'k \<times> 'v"

record ('k, 'v) curl_hash =
  ch_table :: "('k, 'v) hash_element list list option"
  ch_hash_func :: "'k \<Rightarrow> nat \<Rightarrow> nat"
  ch_comp_func :: "'k \<Rightarrow> 'k \<Rightarrow> bool"
  ch_slots :: nat
  ch_size :: nat

section \<open>The operations\<close>

text \<open>The return value is 1 on failure; the function pointers are never null here.\<close>

definition Curl_hash_init ::
  "nat \<Rightarrow> ('k \<Rightarrow> nat \<Rightarrow> nat) \<Rightarrow> ('k \<Rightarrow> 'k \<Rightarrow> bool) \<Rightarrow> sched \<Rightarrow> nat \<times> ('k, 'v) curl_hash option \<times> sched" where
  "Curl_hash_init slots hfunc comparator s =
    (if slots = 0 then (1, None, s)
     else let h = \<lparr>ch_table = None, ch_hash_func = hfunc, ch_comp_func = comparator, ch_slots = slots, ch_size = 0\<rparr> in
     case ddns_mem_alloc (slots * 32) s of (got, s) \<Rightarrow>
       if got then (0, Some (h\<lparr>ch_table := Some (replicate slots [])\<rparr>), s)
       else (1, Some (h\<lparr>ch_slots := 0\<rparr>), s))"

definition mk_hash_element :: "'k \<Rightarrow> 'v \<Rightarrow> sched \<Rightarrow> ('k \<times> 'v) option \<times> sched" where
  "mk_hash_element key p s = (case ddns_mem_alloc 48 s of (got, s) \<Rightarrow> (if got then Some (key, p) else None, s))"

text \<open>\<^verbatim>\<open>FETCH_LIST\<close>: an index beyond the table is a read outside it, no table a null pointer.\<close>

definition FETCH_LIST :: "('k, 'v) curl_hash \<Rightarrow> 'k \<Rightarrow> fault + nat \<times> ('k \<times> 'v) list" where
  "FETCH_LIST h key =
    (case ch_table h of
       None \<Rightarrow> Inl Null_deref
     | Some t \<Rightarrow> let i = ch_hash_func h key (ch_slots h) in
         if i < length t then Inr (i, t ! i) else Inl Read_past_end)"

definition put_list :: "nat \<Rightarrow> ('k \<times> 'v) list \<Rightarrow> ('k, 'v) curl_hash \<Rightarrow> ('k, 'v) curl_hash" where
  "put_list i l h = h\<lparr>ch_table := map_option (\<lambda>t. t[i := l]) (ch_table h)\<rparr>"

text \<open>The loop over a list: the first element with an equal key is taken out.\<close>

fun take_key :: "('k \<Rightarrow> 'k \<Rightarrow> bool) \<Rightarrow> 'k \<Rightarrow> ('k \<times> 'v) list \<Rightarrow> ('k \<times> 'v) option \<times> ('k \<times> 'v) list" where
  "take_key cmp key [] = (None, [])"
| "take_key cmp key (he # l) =
    (if cmp (fst he) key then (Some he, l) else case take_key cmp key l of (r, l) \<Rightarrow> (r, he # l))"

definition Curl_hash_add ::
  "('k, 'v) curl_hash \<Rightarrow> 'k \<Rightarrow> 'v \<Rightarrow> sched \<Rightarrow> fault + 'v option \<times> ('k, 'v) curl_hash \<times> 'v list \<times> sched" where
  "Curl_hash_add h key p s =
    rbind (FETCH_LIST h key) (\<lambda>(i, l).
      let (old, l) = take_key (ch_comp_func h) key l;
          h = put_list i l h;
          h = (if old = None then h else h\<lparr>ch_size := ch_size h - 1\<rparr>);
          freed = (case old of None \<Rightarrow> [] | Some (_, v) \<Rightarrow> [v]);
          (he, s) = mk_hash_element key p s
      in case he of
           Some e \<Rightarrow> Inr (Some p, (put_list i (l @ [e]) h)\<lparr>ch_size := ch_size h + 1\<rparr>, freed, s)
         | None \<Rightarrow> Inr (None, h, freed, s))"

definition Curl_hash_delete :: "('k, 'v) curl_hash \<Rightarrow> 'k \<Rightarrow> fault + nat \<times> ('k, 'v) curl_hash \<times> 'v list" where
  "Curl_hash_delete h key =
    rbind (FETCH_LIST h key) (\<lambda>(i, l).
      case take_key (ch_comp_func h) key l of
        (Some (_, v), l) \<Rightarrow> Inr (0, (put_list i l h)\<lparr>ch_size := ch_size h - 1\<rparr>, [v])
      | (None, _) \<Rightarrow> Inr (1, h, []))"

definition Curl_hash_pick :: "('k, 'v) curl_hash option \<Rightarrow> 'k \<Rightarrow> fault + 'v option" where
  "Curl_hash_pick h key =
    (case h of
       None \<Rightarrow> Inr None
     | Some h \<Rightarrow> rbind (FETCH_LIST h key) (\<lambda>(i, l).
         Inr (map_option snd (fst (take_key (ch_comp_func h) key l)))))"

text \<open>Destroying a list starts at its tail.\<close>

definition Curl_hash_destroy :: "('k, 'v) curl_hash \<Rightarrow> ('k, 'v) curl_hash \<times> 'v list" where
  "Curl_hash_destroy h =
    (h\<lparr>ch_table := None, ch_size := 0, ch_slots := 0\<rparr>,
     concat (map (\<lambda>l. map snd (rev l)) (case ch_table h of None \<Rightarrow> [] | Some t \<Rightarrow> t)))"

fun clean_list :: "('v \<Rightarrow> bool) option \<Rightarrow> ('k \<times> 'v) list \<Rightarrow> nat \<Rightarrow> 'v list \<Rightarrow> ('k \<times> 'v) list \<times> nat \<times> 'v list" where
  "clean_list crit [] n freed = ([], n, freed)"
| "clean_list crit (he # l) n freed =
    (if (case crit of None \<Rightarrow> True | Some f \<Rightarrow> f (snd he)) then clean_list crit l (n - 1) (freed @ [snd he])
     else case clean_list crit l n freed of (l, n, freed) \<Rightarrow> (he # l, n, freed))"

fun clean_table :: "('v \<Rightarrow> bool) option \<Rightarrow> ('k \<times> 'v) list list \<Rightarrow> nat \<Rightarrow> 'v list \<Rightarrow> ('k \<times> 'v) list list \<times> nat \<times> 'v list" where
  "clean_table crit [] n freed = ([], n, freed)"
| "clean_table crit (l # t) n freed =
    (case clean_list crit l n freed of (l, n, freed) \<Rightarrow>
     case clean_table crit t n freed of (t, n, freed) \<Rightarrow> (l # t, n, freed))"

definition Curl_hash_clean_with_criterium ::
  "('k, 'v) curl_hash option \<Rightarrow> ('v \<Rightarrow> bool) option \<Rightarrow> ('k, 'v) curl_hash option \<times> 'v list" where
  "Curl_hash_clean_with_criterium h crit =
    (case h of
       None \<Rightarrow> (None, [])
     | Some h \<Rightarrow>
         (case ch_table h of
            None \<Rightarrow> (Some h, [])
          | Some t \<Rightarrow> (case clean_table crit t (ch_size h) [] of (t, n, freed) \<Rightarrow>
              (Some (h\<lparr>ch_table := Some t, ch_size := n\<rparr>), freed))))"

definition Curl_hash_clean :: "('k, 'v) curl_hash option \<Rightarrow> ('k, 'v) curl_hash option \<times> 'v list" where
  "Curl_hash_clean h = Curl_hash_clean_with_criterium h None"

section \<open>Hashing and comparing keys\<close>

text \<open>
  Keys are byte strings. \<^verbatim>\<open>(unsigned long) *key_str\<close> extends the sign where \<^verbatim>\<open>char\<close> is signed,
  as on x86; on ARM it is not.
\<close>

definition char_to_ulong :: "bool \<Rightarrow> char \<Rightarrow> u64" where
  "char_to_ulong signed_char c = (if signed_char then scast (byte_of_char c) else ucast (byte_of_char c))"

fun hash_str_loop :: "bool \<Rightarrow> u64 \<Rightarrow> string \<Rightarrow> u64" where
  "hash_str_loop sg h [] = h"
| "hash_str_loop sg h (c # key_str) =
    (let h = h + push_bit 5 h; h = h XOR char_to_ulong sg c in hash_str_loop sg h key_str)"

definition Curl_hash_str :: "bool \<Rightarrow> string \<Rightarrow> nat \<Rightarrow> nat" where
  "Curl_hash_str sg key slots_num = unat (hash_str_loop sg 5381 key) mod slots_num"

definition Curl_str_key_compare :: "string \<Rightarrow> string \<Rightarrow> bool" where
  "Curl_str_key_compare k1 k2 \<longleftrightarrow> length k1 = length k2 \<and> k1 = k2"

section \<open>Iteration\<close>

text \<open>The current element is the rest of its list that begins with it; \<open>[]\<close> is the null pointer.\<close>

record ('k, 'v) curl_hash_iterator =
  it_hash :: "('k, 'v) curl_hash"
  it_slot_index :: nat
  it_current :: "('k \<times> 'v) list"

definition Curl_hash_start_iterate :: "('k, 'v) curl_hash \<Rightarrow> ('k, 'v) curl_hash_iterator" where
  "Curl_hash_start_iterate hash = \<lparr>it_hash = hash, it_slot_index = 0, it_current = []\<rparr>"

fun next_slot :: "('k \<times> 'v) list list \<Rightarrow> nat \<Rightarrow> (nat \<times> ('k \<times> 'v) list) option" where
  "next_slot [] i = None"
| "next_slot (l # t) i = (if l \<noteq> [] then Some (i + 1, l) else next_slot t (i + 1))"

definition Curl_hash_next_element ::
  "('k, 'v) curl_hash_iterator \<Rightarrow> ('k \<times> 'v) option \<times> ('k, 'v) curl_hash_iterator" where
  "Curl_hash_next_element iter =
    (let h = it_hash iter;
         iter = iter\<lparr>it_current := tl (it_current iter)\<rparr>;
         iter = (if it_current iter = [] then
                   case next_slot (drop (it_slot_index iter) (case ch_table h of None \<Rightarrow> [] | Some t \<Rightarrow> t)) (it_slot_index iter) of
                     Some (i, l) \<Rightarrow> iter\<lparr>it_current := l, it_slot_index := i\<rparr>
                   | None \<Rightarrow> iter
                 else iter)
     in case it_current iter of
          he # _ \<Rightarrow> (Some he, iter)
        | [] \<Rightarrow> (None, iter\<lparr>it_current := []\<rparr>))"

text \<open>All elements an iteration returns before its null; the fuel counts the calls.\<close>

fun iterate :: "nat \<Rightarrow> ('k, 'v) curl_hash_iterator \<Rightarrow> ('k \<times> 'v) list" where
  "iterate 0 iter = []"
| "iterate (Suc n) iter =
    (case Curl_hash_next_element iter of
       (None, iter) \<Rightarrow> []
     | (Some he, iter) \<Rightarrow> he # iterate n iter)"

end
