(* ===== verification/Curl_Hash_Correct.thy ===== *)
theory Curl_Hash_Correct
  imports Curl_Hash
begin

text \<open>
  The hash table of libcurl as a map. \<open>hash_contract\<close> is what the table relies on: a hash function
  that stays below the number of slots and a comparison that is equality. Under it every operation
  keeps the table well formed (entries in the slot of their key, no key twice, a right count) and acts
  on the map \<open>hash_map\<close>; an iteration lists the map. The contract holds for the two functions libcurl
  uses for strings.
\<close>


locale hash_contract =
  fixes hf :: "'k \<Rightarrow> nat \<Rightarrow> nat" and cf :: "'k \<Rightarrow> 'k \<Rightarrow> bool"
  assumes hf_slot: "0 < n \<Longrightarrow> hf k n < n"
    and cf_equal: "cf k k' \<longleftrightarrow> k = k'"

text \<open>The state of a table and the map it stands for.\<close>

definition hash_wf :: "('k \<Rightarrow> nat \<Rightarrow> nat) \<Rightarrow> ('k \<Rightarrow> 'k \<Rightarrow> bool) \<Rightarrow> ('k, 'v) curl_hash \<Rightarrow> bool" where
  "hash_wf hf cf h \<longleftrightarrow> ch_hash_func h = hf \<and> ch_comp_func h = cf \<and> 0 < ch_slots h \<and>
    (\<exists>t. ch_table h = Some t \<and> length t = ch_slots h \<and> ch_size h = sum_list (map length t) \<and>
      (\<forall>i < length t. distinct (map fst (t ! i)) \<and> (\<forall>e \<in> set (t ! i). hf (fst e) (ch_slots h) = i)))"

definition hash_map :: "('k, 'v) curl_hash \<Rightarrow> 'k \<Rightarrow> 'v option" where
  "hash_map h k = (case ch_table h of None \<Rightarrow> None | Some t \<Rightarrow> map_of (t ! ch_hash_func h k (ch_slots h)) k)"

datatype ('k, 'v) hash_op = Add 'k 'v bool | Delete 'k | Clean "'v \<Rightarrow> bool"

text \<open>\<open>Add k v False\<close> is an insertion that gets no memory.\<close>

fun run_op :: "('k, 'v) curl_hash \<Rightarrow> ('k, 'v) hash_op \<Rightarrow> fault + ('k, 'v) curl_hash" where
  "run_op h (Add k v ok) = rbind (Curl_hash_add h k v [ok]) (\<lambda>(_, h, _). Inr h)"
| "run_op h (Delete k) = rbind (Curl_hash_delete h k) (\<lambda>(_, h, _). Inr h)"
| "run_op h (Clean f) = (case Curl_hash_clean_with_criterium (Some h) (Some f) of (h, _) \<Rightarrow>
     case h of None \<Rightarrow> Inl Null_deref | Some h \<Rightarrow> Inr h)"

fun run_ops :: "('k, 'v) curl_hash \<Rightarrow> ('k, 'v) hash_op list \<Rightarrow> fault + ('k, 'v) curl_hash" where
  "run_ops h [] = Inr h"
| "run_ops h (x # xs) = rbind (run_op h x) (\<lambda>h. run_ops h xs)"

fun map_op :: "('k \<Rightarrow> 'v option) \<Rightarrow> ('k, 'v) hash_op \<Rightarrow> 'k \<Rightarrow> 'v option" where
  "map_op m (Add k v ok) = (if ok then m(k \<mapsto> v) else m(k := None))"
| "map_op m (Delete k) = m(k := None)"
| "map_op m (Clean f) = (\<lambda>k. case m k of None \<Rightarrow> None | Some v \<Rightarrow> if f v then None else Some v)"

lemma map_of_filter_key: "map_of (filter (\<lambda>e. fst e \<noteq> k) l) = (map_of l)(k := None)"
  by (induction l) (auto simp: fun_eq_iff)

lemma filter_other_key: "k \<notin> fst ` set l \<Longrightarrow> filter (\<lambda>e. fst e \<noteq> k) l = l"
  by (induction l) auto

lemma length_filter_key:
  assumes "distinct (map fst l)" "map_of l k = Some v"
  shows "length l = Suc (length (filter (\<lambda>e. fst e \<noteq> k) l))"
  using assms
proof (induction l)
  case (Cons e l)
  show ?case
  proof (cases "fst e = k")
    case True
    with Cons.prems have "filter (\<lambda>e. fst e \<noteq> k) l = l" by (intro filter_other_key) auto
    with True show ?thesis by simp
  qed (use Cons in simp)
qed simp

lemma clean_list_filter:
  "clean_list (Some f) l n freed =
    (filter (\<lambda>e. \<not> f (snd e)) l, n - length (filter (\<lambda>e. f (snd e)) l), freed @ map snd (filter (\<lambda>e. f (snd e)) l))"
  by (induction l arbitrary: n freed) simp_all

lemma clean_table_filter:
  "clean_table (Some f) t n freed =
    (map (filter (\<lambda>e. \<not> f (snd e))) t, n - sum_list (map (\<lambda>l. length (filter (\<lambda>e. f (snd e)) l)) t),
     freed @ concat (map (\<lambda>l. map snd (filter (\<lambda>e. f (snd e)) l)) t))"
  by (induction t arbitrary: n freed) (simp_all add: clean_list_filter)

lemma map_of_filter_value:
  "distinct (map fst l) \<Longrightarrow> map_of (filter (\<lambda>e. \<not> f (snd e)) l) k = (case map_of l k of None \<Rightarrow> None | Some v \<Rightarrow> if f v then None else Some v)"
proof (induction l)
  case (Cons e l)
  then have "fst e = k \<Longrightarrow> map_of l k = None" by (auto simp: map_of_eq_None_iff)
  with Cons show ?case by (auto split: option.splits)
qed simp

lemma sum_list_filter_not:
  "sum_list (map length t) = sum_list (map (\<lambda>l. length (filter f l)) t) + sum_list (map (\<lambda>l. length (filter (\<lambda>e. \<not> f e) l)) t)"
proof (induction t)
  case (Cons l t)
  then show ?case using sum_length_filter_compl [of f l] by simp
qed simp

lemma sum_list_length_update:
  "i < length t \<Longrightarrow> sum_list (map length (t[i := l])) + length (t ! i) = sum_list (map length t) + length l"
proof (induction t arbitrary: i)
  case (Cons x t)
  then show ?case by (cases i) auto
qed simp

lemma slot_le_sum: "i < length t \<Longrightarrow> length (t ! i) \<le> sum_list (map length (t :: 'a list list))"
  by (simp add: elem_le_sum_list [of i "map length t", simplified])

context hash_contract
begin

lemma take_key_map:
  "distinct (map fst l) \<Longrightarrow> take_key cf k l = (case map_of l k of
     None \<Rightarrow> (None, l) | Some v \<Rightarrow> (Some (k, v), filter (\<lambda>e. fst e \<noteq> k) l))"
proof (induction l)
  case (Cons e l)
  have "fst e = k \<Longrightarrow> filter (\<lambda>e. fst e \<noteq> k) l = l" using Cons.prems by (intro filter_other_key) auto
  with Cons show ?case by (cases e) (auto simp: cf_equal split: option.split)
qed simp

lemma FETCH_LIST_wf:
  assumes "hash_wf hf cf h"
  obtains t i where "ch_table h = Some t" "i = hf k (ch_slots h)" "i < length t" "FETCH_LIST h k = Inr (i, t ! i)"
    "distinct (map fst (t ! i))" "hash_map h k = map_of (t ! i) k"
  using assms hf_slot by (auto simp: hash_wf_def FETCH_LIST_def Let_def hash_map_def)

text \<open>Replacing the slot of a key by one that differs in this key only.\<close>

lemma put_list_map:
  assumes wf: "hash_wf hf cf h" and t: "ch_table h = Some t" "i = hf k (ch_slots h)" "i < length t"
    and l: "distinct (map fst l)" "\<forall>e \<in> set l. hf (fst e) (ch_slots h) = i" "\<forall>k'. k' \<noteq> k \<longrightarrow> map_of l k' = map_of (t ! i) k'"
    and n: "n + length (t ! i) = ch_size h + length l"
  shows "hash_wf hf cf ((put_list i l h)\<lparr>ch_size := n\<rparr>)" "hash_map ((put_list i l h)\<lparr>ch_size := n\<rparr>) = (hash_map h)(k := map_of l k)"
proof -
  have "sum_list (map length (t[i := l])) = n"
    using sum_list_length_update [OF t(3), of l] n wf t(1) by (simp add: hash_wf_def)
  then show "hash_wf hf cf ((put_list i l h)\<lparr>ch_size := n\<rparr>)"
    using wf t l(1,2) by (auto simp: hash_wf_def put_list_def nth_list_update)
  have h: "ch_hash_func h = hf" using wf by (simp add: hash_wf_def)
  have "hash_map ((put_list i l h)\<lparr>ch_size := n\<rparr>) k' = ((hash_map h)(k := map_of l k)) k'" for k'
    using l(3) t h by (auto simp: hash_map_def put_list_def nth_list_update)
  then show "hash_map ((put_list i l h)\<lparr>ch_size := n\<rparr>) = (hash_map h)(k := map_of l k)" by blast
qed

lemma without_key:
  assumes "hash_wf hf cf h" "ch_table h = Some t" "i = hf k (ch_slots h)" "i < length t"
  defines "l \<equiv> filter (\<lambda>e. fst e \<noteq> k) (t ! i)"
  shows "distinct (map fst l)" "\<forall>e \<in> set l. hf (fst e) (ch_slots h) = i" "\<forall>k'. k' \<noteq> k \<longrightarrow> map_of l k' = map_of (t ! i) k'"
    "map_of l k = None" "k \<notin> fst ` set l"
  using assms(1,2,4) unfolding l_def
  by (auto simp: hash_wf_def map_of_filter_key distinct_map inj_on_def)

lemma take_out:
  assumes "hash_wf hf cf h" "ch_table h = Some t" "i = hf k (ch_slots h)" "i < length t" "distinct (map fst (t ! i))"
  shows "\<exists>old l. take_key (ch_comp_func h) k (t ! i) = (old, l) \<and> l = filter (\<lambda>e. fst e \<noteq> k) (t ! i) \<and>
    map_option snd old = map_of (t ! i) k \<and> (old = None \<longleftrightarrow> map_of (t ! i) k = None) \<and>
    length (t ! i) = length l + (if old = None then 0 else 1)"
proof (cases "map_of (t ! i) k")
  case None
  then have "filter (\<lambda>e. fst e \<noteq> k) (t ! i) = t ! i" by (intro filter_other_key) (simp add: map_of_eq_None_iff)
  with None assms show ?thesis by (simp add: hash_wf_def take_key_map)
next
  case (Some v)
  with assms length_filter_key [OF assms(5) Some] show ?thesis by (simp add: hash_wf_def take_key_map)
qed

lemma add_map:
  assumes "hash_wf hf cf h"
  shows "\<exists>r h' freed. Curl_hash_add h k v [ok] = Inr (r, h', freed, []) \<and> hash_wf hf cf h' \<and>
    hash_map h' = map_op (hash_map h) (Add k v ok) \<and> r = (if ok then Some v else None) \<and>
    freed = (case hash_map h k of None \<Rightarrow> [] | Some w \<Rightarrow> [w])"
proof -
  obtain t i where t: "ch_table h = Some t" "i = hf k (ch_slots h)" "i < length t" "FETCH_LIST h k = Inr (i, t ! i)"
    "distinct (map fst (t ! i))" "hash_map h k = map_of (t ! i) k"
    using assms by (rule FETCH_LIST_wf)
  obtain old l where l: "take_key (ch_comp_func h) k (t ! i) = (old, l)" "l = filter (\<lambda>e. fst e \<noteq> k) (t ! i)"
    "map_option snd old = map_of (t ! i) k" "old = None \<longleftrightarrow> map_of (t ! i) k = None"
    "length (t ! i) = length l + (if old = None then 0 else 1)"
    using take_out [OF assms t(1-3,5)] by (elim exE conjE) (rule that)
  note w = without_key [OF assms t(1-3), folded l(2)]
  let ?n = "if old = None then ch_size h else ch_size h - 1"
  have le: "length (t ! i) \<le> ch_size h" using slot_le_sum [OF t(3)] assms t(1) by (simp add: hash_wf_def)
  have freed: "(case old of None \<Rightarrow> [] | Some (_, v) \<Rightarrow> [v]) = (case hash_map h k of None \<Rightarrow> [] | Some w \<Rightarrow> [w])"
    using l(3) [symmetric] t(6) by (cases old) auto
  show ?thesis
  proof (cases ok)
    case True
    let ?h = "(put_list i (l @ [(k, v)]) h)\<lparr>ch_size := ?n + 1\<rparr>"
    have "Curl_hash_add h k v [ok] = Inr (Some v, ?h, case old of None \<Rightarrow> [] | Some (_, v) \<Rightarrow> [v], [])"
      using True by (simp add: Curl_hash_add_def t(1,4) l(1) mk_hash_element_def ddns_mem_alloc_def Let_def put_list_def)
    moreover have "hash_wf hf cf ?h" "hash_map ?h = (hash_map h)(k := map_of (l @ [(k, v)]) k)"
    proof -
      have "distinct (map fst (l @ [(k, v)]))" using w(1,5) by simp
      moreover have "\<forall>e \<in> set (l @ [(k, v)]). hf (fst e) (ch_slots h) = i" using w(2) t(2) by auto
      moreover have "\<forall>k'. k' \<noteq> k \<longrightarrow> map_of (l @ [(k, v)]) k' = map_of (t ! i) k'"
        using w(3) by (simp add: map_add_def split: option.split)
      moreover have "?n + 1 + length (t ! i) = ch_size h + length (l @ [(k, v)])" using l(5) le by (cases old) simp_all
      ultimately show "hash_wf hf cf ?h" "hash_map ?h = (hash_map h)(k := map_of (l @ [(k, v)]) k)"
        by (rule put_list_map [OF assms t(1-3)])+
    qed
    ultimately show ?thesis using True w(4) freed by (auto simp: map_add_def)
  next
    case False
    let ?h = "(put_list i l h)\<lparr>ch_size := ?n\<rparr>"
    have "Curl_hash_add h k v [ok] = Inr (None, ?h, case old of None \<Rightarrow> [] | Some (_, v) \<Rightarrow> [v], [])"
      using False by (simp add: Curl_hash_add_def t(1,4) l(1) mk_hash_element_def ddns_mem_alloc_def Let_def put_list_def)
    moreover have "hash_wf hf cf ?h" "hash_map ?h = (hash_map h)(k := map_of l k)"
      using put_list_map [OF assms t(1-3) w(1-3), of ?n] le l(5) by (cases old; simp)+
    ultimately show ?thesis using False w(4) freed by auto
  qed
qed

lemma delete_map:
  assumes "hash_wf hf cf h"
  shows "\<exists>r h' freed. Curl_hash_delete h k = Inr (r, h', freed) \<and> hash_wf hf cf h' \<and>
    hash_map h' = map_op (hash_map h) (Delete k) \<and> (r = 0 \<longleftrightarrow> hash_map h k \<noteq> None)"
proof -
  obtain t i where t: "ch_table h = Some t" "i = hf k (ch_slots h)" "i < length t" "FETCH_LIST h k = Inr (i, t ! i)"
    "distinct (map fst (t ! i))" "hash_map h k = map_of (t ! i) k"
    using assms by (rule FETCH_LIST_wf)
  obtain old l where l: "take_key (ch_comp_func h) k (t ! i) = (old, l)" "l = filter (\<lambda>e. fst e \<noteq> k) (t ! i)"
    "map_option snd old = map_of (t ! i) k" "old = None \<longleftrightarrow> map_of (t ! i) k = None"
    "length (t ! i) = length l + (if old = None then 0 else 1)"
    using take_out [OF assms t(1-3,5)] by (elim exE conjE) (rule that)
  note w = without_key [OF assms t(1-3), folded l(2)]
  have le: "length (t ! i) \<le> ch_size h" using slot_le_sum [OF t(3)] assms t(1) by (simp add: hash_wf_def)
  show ?thesis
  proof (cases old)
    case None
    then have "hash_map h k = None" using l(4) t(6) by simp
    moreover from this have "hash_map h = (hash_map h)(k := None)" by (simp add: fun_upd_idem)
    ultimately show ?thesis using None assms by (simp add: Curl_hash_delete_def t(4) l(1))
  next
    case (Some e)
    let ?h = "(put_list i l h)\<lparr>ch_size := ch_size h - 1\<rparr>"
    have "hash_wf hf cf ?h" "hash_map ?h = (hash_map h)(k := map_of l k)"
      using put_list_map [OF assms t(1-3) w(1,2,3), of "ch_size h - 1"] le l(5) Some by simp_all
    with Some show ?thesis using l(4) t(6) w(4) by (cases e) (simp add: Curl_hash_delete_def t(4) l(1))
  qed
qed

lemma pick_map: "hash_wf hf cf h \<Longrightarrow> Curl_hash_pick (Some h) k = Inr (hash_map h k)"
proof -
  assume wf: "hash_wf hf cf h"
  then obtain t i where t: "ch_table h = Some t" "i = hf k (ch_slots h)" "i < length t" "FETCH_LIST h k = Inr (i, t ! i)"
    "distinct (map fst (t ! i))" "hash_map h k = map_of (t ! i) k"
    by (rule FETCH_LIST_wf)
  from take_out [OF wf t(1-3,5)] show ?thesis by (auto simp: Curl_hash_pick_def t(4,6))
qed

lemma clean_map:
  assumes "hash_wf hf cf h"
  shows "\<exists>h' freed. Curl_hash_clean_with_criterium (Some h) (Some f) = (Some h', freed) \<and> hash_wf hf cf h' \<and>
    hash_map h' = map_op (hash_map h) (Clean f)"
proof -
  obtain t where t: "ch_table h = Some t" "length t = ch_slots h" "ch_size h = sum_list (map length t)" "0 < ch_slots h" "ch_hash_func h = hf"
    "\<And>i. i < length t \<Longrightarrow> distinct (map fst (t ! i))"
    using assms by (auto simp: hash_wf_def)
  let ?h = "h\<lparr>ch_table := Some (map (filter (\<lambda>e. \<not> f (snd e))) t),
      ch_size := ch_size h - sum_list (map (\<lambda>l. length (filter (\<lambda>e. f (snd e)) l)) t)\<rparr>"
  have "ch_size ?h = sum_list (map length (map (filter (\<lambda>e. \<not> f (snd e))) t))"
    using sum_list_filter_not [of t "\<lambda>e. f (snd e)"] by (simp add: t(3) comp_def)
  then have "hash_wf hf cf ?h"
    using assms t(1) by (auto simp: hash_wf_def distinct_map_filter)
  moreover have "hash_map ?h k = map_op (hash_map h) (Clean f) k" for k
    using t hf_slot [of "ch_slots h" k] by (simp add: hash_map_def map_of_filter_value)
  ultimately show ?thesis
    by (intro exI [of _ ?h]) (auto simp: Curl_hash_clean_with_criterium_def t(1) clean_table_filter)
qed

lemma run_op_map:
  assumes "hash_wf hf cf h"
  obtains h' where "run_op h x = Inr h'" "hash_wf hf cf h'" "hash_map h' = map_op (hash_map h) x"
proof (cases x)
  case (Add k v ok)
  with add_map [OF assms, of k v ok] that show ?thesis by auto
next
  case (Delete k)
  with delete_map [OF assms, of k] that show ?thesis by auto
next
  case (Clean f)
  with clean_map [OF assms, of f] that show ?thesis by auto
qed

lemma run_ops_map:
  "hash_wf hf cf h \<Longrightarrow> \<exists>h'. run_ops h xs = Inr h' \<and> hash_wf hf cf h' \<and> hash_map h' = foldl map_op (hash_map h) xs"
proof (induction xs arbitrary: h)
  case (Cons x xs)
  from Cons.prems obtain h1 where h1: "run_op h x = Inr h1" "hash_wf hf cf h1" "hash_map h1 = map_op (hash_map h) x"
    by (rule run_op_map)
  with Cons.IH [OF h1(2)] show ?case by simp
qed simp

lemma init_map:
  assumes "Curl_hash_init slots hf cf s = (0, Some h, s')"
  shows "hash_wf hf cf h" "hash_map h = Map.empty"
proof -
  have h: "slots \<noteq> 0" "h = \<lparr>ch_table = Some (replicate slots []), ch_hash_func = hf, ch_comp_func = cf, ch_slots = slots, ch_size = 0\<rparr>"
    using assms by (auto simp: Curl_hash_init_def Let_def split: if_splits prod.splits)
  then show "hash_wf hf cf h" by (simp add: hash_wf_def)
  show "hash_map h = Map.empty" using h hf_slot [of slots] by (simp add: hash_map_def fun_eq_iff)
qed

end

section \<open>Iteration\<close>

definition it_rest :: "('k, 'v) curl_hash_iterator \<Rightarrow> ('k \<times> 'v) list" where
  "it_rest iter = tl (it_current iter) @
    concat (drop (it_slot_index iter) (case ch_table (it_hash iter) of None \<Rightarrow> [] | Some t \<Rightarrow> t))"

lemma next_slot_rest:
  "(case next_slot (drop i t) i of
      None \<Rightarrow> concat (drop i t) = []
    | Some (j, l) \<Rightarrow> l \<noteq> [] \<and> i < j \<and> concat (drop i t) = l @ concat (drop j t))"
proof (induction "length t - i" arbitrary: i)
  case (Suc n)
  then have "i < length t" by simp
  then have d: "drop i t = t ! i # drop (i + 1) t" by (simp add: Cons_nth_drop_Suc)
  show ?case
  proof (cases "t ! i = []")
    case True
    have "n = length t - (i + 1)" using Suc(2) by simp
    from Suc(1) [OF this] True d show ?thesis
      by (cases "next_slot (drop (i + 1) t) (i + 1)") (auto simp del: concat_eq_Nil_conv)
  qed (simp add: d)
qed simp

lemma next_element_rest:
  "case it_rest iter of
     [] \<Rightarrow> fst (Curl_hash_next_element iter) = None
   | e # r \<Rightarrow> \<exists>iter'. Curl_hash_next_element iter = (Some e, iter') \<and> it_rest iter' = r"
proof (cases "tl (it_current iter)")
  case (Cons e l)
  then show ?thesis by (simp add: it_rest_def Curl_hash_next_element_def Let_def)
next
  case Nil
  let ?t = "case ch_table (it_hash iter) of None \<Rightarrow> [] | Some t \<Rightarrow> t"
  show ?thesis
  proof (cases "next_slot (drop (it_slot_index iter) ?t) (it_slot_index iter)")
    case None
    then have "it_rest iter = []"
      using next_slot_rest [of "it_slot_index iter" ?t] Nil by (simp only: it_rest_def append_Nil option.case)
    with None Nil show ?thesis by (simp add: Curl_hash_next_element_def Let_def)
  next
    case (Some p)
    then obtain j l where p: "p = (j, l)" "l \<noteq> []" "it_rest iter = l @ concat (drop j ?t)"
      using next_slot_rest [of "it_slot_index iter" ?t] Nil by (cases p) (auto simp: it_rest_def simp del: concat_eq_Nil_conv)
    then show ?thesis
      using Some Nil by (cases l) (simp_all add: Curl_hash_next_element_def Let_def it_rest_def)
  qed
qed

lemma iterate_rest: "length (it_rest iter) < n \<Longrightarrow> iterate n iter = it_rest iter"
proof (induction n arbitrary: iter)
  case (Suc n)
  show ?case
  proof (cases "it_rest iter")
    case Nil
    with next_element_rest [of iter] show ?thesis by (cases "Curl_hash_next_element iter") simp
  next
    case (Cons e r)
    with next_element_rest [of iter] obtain iter' where "Curl_hash_next_element iter = (Some e, iter')" "it_rest iter' = r" by auto
    with Suc Cons show ?thesis by simp
  qed
qed simp

context hash_contract
begin

lemma table_elements:
  assumes "hash_wf hf cf h" "ch_table h = Some t"
  shows "(k, v) \<in> set (concat t) \<longleftrightarrow> hash_map h k = Some v" "distinct (map fst (concat t))"
proof -
  have wf: "length t = ch_slots h" "0 < ch_slots h" "ch_hash_func h = hf"
    "\<And>i. i < length t \<Longrightarrow> distinct (map fst (t ! i))" "\<And>i e. i < length t \<Longrightarrow> e \<in> set (t ! i) \<Longrightarrow> hf (fst e) (ch_slots h) = i"
    using assms by (auto simp: hash_wf_def)
  let ?i = "hf k (ch_slots h)"
  have i: "?i < length t" using hf_slot wf(1,2) by simp
  have "(k, v) \<in> set (concat t) \<longleftrightarrow> (k, v) \<in> set (t ! ?i)"
  proof
    assume "(k, v) \<in> set (concat t)"
    then obtain j where "j < length t" "(k, v) \<in> set (t ! j)" by (auto simp: in_set_conv_nth [of _ t])
    with wf(5) [of j "(k, v)"] show "(k, v) \<in> set (t ! ?i)" by simp
  qed (use i in auto)
  with i show "(k, v) \<in> set (concat t) \<longleftrightarrow> hash_map h k = Some v"
    using wf(3,4) assms(2) by (simp add: hash_map_def)
  have "distinct (map fst (concat us))" if "\<And>j. j < length us \<Longrightarrow> us ! j = t ! (d + j)" "d + length us \<le> length t" for us d
    using that
  proof (induction us arbitrary: d)
    case (Cons l us)
    have "l = t ! d" "d < length t" using Cons.prems(1) [of 0] Cons.prems(2) by simp_all
    moreover have us: "us ! j = t ! (Suc d + j)" if "j < length us" for j using Cons.prems(1) [of "Suc j"] that by simp
    moreover have "distinct (map fst (concat us))" using Cons.IH [of "Suc d"] us Cons.prems(2) by simp
    moreover have "hf (fst e) (ch_slots h) \<noteq> d" if "e \<in> set (concat us)" for e
    proof -
      from that obtain j where "j < length us" "e \<in> set (us ! j)" by (auto simp: in_set_conv_nth [of _ us])
      with us [of j] wf(5) [of "Suc d + j" e] Cons.prems(2) show ?thesis by simp
    qed
    moreover have "hf (fst e) (ch_slots h) = d" if "e \<in> set l" for e
      using that wf(5) [of d e] calculation(1,2) by simp
    ultimately have "fst ` set l \<inter> fst ` set (concat us) = {}" by fastforce
    with \<open>l = t ! d\<close> \<open>d < length t\<close> wf(4) [of d] \<open>distinct (map fst (concat us))\<close> show ?case by simp
  qed simp
  from this [of t 0] show "distinct (map fst (concat t))" by simp
qed

lemma iterate_map:
  assumes "hash_wf hf cf h"
  shows "map_of (iterate (ch_size h + 1) (Curl_hash_start_iterate h)) = hash_map h"
    "length (iterate (ch_size h + 1) (Curl_hash_start_iterate h)) = ch_size h"
    "distinct (map fst (iterate (ch_size h + 1) (Curl_hash_start_iterate h)))"
    "card (dom (hash_map h)) = ch_size h"
proof -
  obtain t where t: "ch_table h = Some t" "ch_size h = sum_list (map length t)" using assms by (auto simp: hash_wf_def)
  have "it_rest (Curl_hash_start_iterate h) = concat t" by (simp add: it_rest_def Curl_hash_start_iterate_def t(1))
  moreover have len: "length (concat t) = ch_size h" by (simp add: t(2) length_concat)
  ultimately have it: "iterate (ch_size h + 1) (Curl_hash_start_iterate h) = concat t"
    using iterate_rest [of "Curl_hash_start_iterate h" "ch_size h + 1"] by simp
  note e = table_elements [OF assms t(1)]
  show m: "map_of (iterate (ch_size h + 1) (Curl_hash_start_iterate h)) = hash_map h"
    unfolding it by (rule ext) (metis e map_of_SomeD map_of_is_SomeI not_None_eq)
  show "length (iterate (ch_size h + 1) (Curl_hash_start_iterate h)) = ch_size h"
    "distinct (map fst (iterate (ch_size h + 1) (Curl_hash_start_iterate h)))"
    unfolding it using len e(2) by simp_all
  have "dom (hash_map h) = set (map fst (concat t))" using m unfolding it by (metis dom_map_of_conv_image_fst list.set_map)
  then show "card (dom (hash_map h)) = ch_size h"
    using distinct_card [OF e(2)] len by simp
qed

end

lemma Curl_hash_str_less: "0 < n \<Longrightarrow> Curl_hash_str sg k n < n"
  by (simp add: Curl_hash_str_def)

interpretation curl_str: hash_contract "Curl_hash_str sg" Curl_str_key_compare for sg
  by unfold_locales (auto simp: Curl_hash_str_less Curl_str_key_compare_def)

text \<open>
  C13: A hash table with libcurl's own hash function is a map. After any sequence of insertions, with or
  without memory, deletions and clean-ups, a lookup gives what the map gives, the count is its
  size and an iteration returns every entry once. An insertion without memory is the same as a
  deletion: the old entry is gone.
\<close>

theorem hash_table_is_map:
  assumes "Curl_hash_init slots (Curl_hash_str sg) Curl_str_key_compare s = (0, Some h, s')"
  shows "\<exists>h'. run_ops h ops = Inr h' \<and>
    (\<forall>k. Curl_hash_pick (Some h') k = Inr (foldl map_op Map.empty ops k)) \<and>
    ch_size h' = card (dom (foldl map_op Map.empty ops)) \<and>
    map_of (iterate (ch_size h' + 1) (Curl_hash_start_iterate h')) = foldl map_op Map.empty ops \<and>
    distinct (map fst (iterate (ch_size h' + 1) (Curl_hash_start_iterate h')))"
proof -
  from curl_str.run_ops_map [OF curl_str.init_map(1) [OF assms], of ops] curl_str.init_map(2) [OF assms]
  obtain h' where h': "run_ops h ops = Inr h'" "hash_wf (Curl_hash_str sg) Curl_str_key_compare h'"
    "hash_map h' = foldl map_op Map.empty ops" by auto
  with curl_str.pick_map [OF h'(2)] curl_str.iterate_map [OF h'(2)] show ?thesis
    by (intro exI [of _ h']) simp
qed

theorem hash_table_is_map_witness:
  "\<exists>h'. run_ops \<lparr>ch_table = Some [[], []], ch_hash_func = Curl_hash_str True, ch_comp_func = Curl_str_key_compare,
      ch_slots = 2, ch_size = 0\<rparr> [Add ''a'' (1 :: nat) True, Add ''b'' 2 True, Add ''a'' 3 False] = Inr h' \<and>
    Curl_hash_pick (Some h') ''a'' = Inr None \<and> Curl_hash_pick (Some h') ''b'' = Inr (Some 2)"
proof -
  let ?ops = "[Add ''a'' (1 :: nat) True, Add ''b'' 2 True, Add ''a'' 3 False]"
  have "Curl_hash_init 2 (Curl_hash_str True) Curl_str_key_compare [] = (0, Some \<lparr>ch_table = Some [[], []],
      ch_hash_func = Curl_hash_str True, ch_comp_func = Curl_str_key_compare, ch_slots = 2, ch_size = 0\<rparr>, [])"
    by (simp add: Curl_hash_init_def ddns_mem_alloc_def numeral_2_eq_2)
  from hash_table_is_map [OF this, of ?ops] show ?thesis by (auto simp: fun_upd_def)
qed


end
