(* ===== verification/Curl_Text.thy ===== *)
theory Curl_Text
  imports Http Hex
begin

text \<open>
  The text functions of the vendored libcurl: \<^verbatim>\<open>lib/escape.c\<close>, percent-encoding of URLs;
  \<^verbatim>\<open>lib/strcase.c\<close>, comparison without regard to case; \<^verbatim>\<open>lib/slist.c\<close>, the string lists in
  which the program hands over its headers.

  A pointer is the list of the bytes that may be read from it; what is behind them is a read out of
  bounds. \<^verbatim>\<open>malloc\<close> and \<^verbatim>\<open>realloc\<close> run over a schedule. Sizes are natural numbers: lengths of
  objects in memory, which twice over stay below \<^verbatim>\<open>SIZE_MAX\<close>.
\<close>

definition strlen :: "string \<Rightarrow> fault + nat" where
  "strlen s = (if NUL \<in> set s then Inr (length (c_str s)) else Inl Read_past_end)"

section \<open>Percent-encoding\<close>

definition Curl_isunreserved :: "char \<Rightarrow> bool" where
  "Curl_isunreserved c \<longleftrightarrow>
    c \<in> set ''0123456789'' \<or> c \<in> set ''abcdefghijklmnopqrstuvwxyz'' \<or>
    c \<in> set ''ABCDEFGHIJKLMNOPQRSTUVWXYZ'' \<or> c \<in> set ''-._~''"

text \<open>\<^verbatim>\<open>%%%02X\<close> of a byte; without \<^verbatim>\<open>CURL_DOES_CONVERSIONS\<close> the conversions are the identity.\<close>

definition HEX :: string where
  "HEX = ''0123456789ABCDEF''"

definition pct :: "char \<Rightarrow> string" where
  "pct c = [CHR ''%'', HEX ! (ord c div 16), HEX ! (ord c mod 16)]"

fun escape_loop :: "nat \<Rightarrow> string \<Rightarrow> nat \<Rightarrow> nat \<Rightarrow> string \<Rightarrow> sched \<Rightarrow> fault + string option \<times> sched" where
  "escape_loop 0 str alloc newlen ns m = rbind (emit alloc [NUL] ns) (\<lambda>_. Inr (Some ns, m))"
| "escape_loop (Suc len) [] alloc newlen ns m = Inl Read_past_end"
| "escape_loop (Suc len) (c # str) alloc newlen ns m =
    (if Curl_isunreserved c then rbind (emit alloc [c] ns) (\<lambda>ns. escape_loop len str alloc newlen ns m)
     else
       let newlen = newlen + 2;
           (got, alloc, m) =
             (if alloc < newlen then case ddns_mem_alloc (alloc * 2) m of (got, m) \<Rightarrow> (got, alloc * 2, m)
              else (True, alloc, m))
       in if \<not> got then Inr (None, m)
          else rbind (emit alloc (pct c @ [NUL]) ns) (\<lambda>_. escape_loop len str alloc newlen (ns @ pct c) m))"

definition curl_easy_escape :: "string \<Rightarrow> int \<Rightarrow> sched \<Rightarrow> fault + string option \<times> sched" where
  "curl_easy_escape str inlength m =
    (if inlength < 0 then Inr (None, m)
     else rbind (if inlength \<noteq> 0 then Inr (nat inlength) else strlen str) (\<lambda>n.
       let alloc = n + 1 in
       case ddns_mem_alloc alloc m of
         (False, m) \<Rightarrow> Inr (None, m)
       | (True, m) \<Rightarrow> escape_loop (alloc - 1) str alloc alloc [] m))"

definition curl_escape :: "string \<Rightarrow> int \<Rightarrow> sched \<Rightarrow> fault + string option \<times> sched" where
  "curl_escape str inlength m = curl_easy_escape str inlength m"

section \<open>Decoding\<close>

datatype CURLcode = CURLE_OK | CURLE_URL_MALFORMAT | CURLE_OUT_OF_MEMORY | CURLE_BAD_CONTENT_ENCODING

definition ISXDIGIT :: "char \<Rightarrow> bool" where
  "ISXDIGIT c \<longleftrightarrow> c \<in> set ''0123456789'' \<or> c \<in> set ''abcdef'' \<or> c \<in> set ''ABCDEF''"

text \<open>\<^verbatim>\<open>strtoul(hexstr, &ptr, 16)\<close> of two hexadecimal digits.\<close>

definition hexval :: "char \<Rightarrow> nat" where
  "hexval c = (if c \<in> set ''0123456789'' then ord c - 48
               else if c \<in> set ''abcdef'' then ord c - 87 else ord c - 55)"

text \<open>
  The byte the loop takes at its pointer with \<open>alloc\<close> bytes left, the bytes left behind it and
  the pointer behind it.
\<close>

definition decode_one :: "nat \<Rightarrow> string \<Rightarrow> fault + char \<times> nat \<times> string" where
  "decode_one alloc str =
    (case str of
       [] \<Rightarrow> Inl Read_past_end
     | c # s \<Rightarrow>
         if c = CHR ''%'' \<and> alloc > 2
         then (case s of
             [] \<Rightarrow> Inl Read_past_end
           | x # s' \<Rightarrow>
               if \<not> ISXDIGIT x then Inr (c, alloc - 1, s)
               else (case s' of
                   [] \<Rightarrow> Inl Read_past_end
                 | y # s'' \<Rightarrow>
                     if \<not> ISXDIGIT y then Inr (c, alloc - 1, s)
                     else Inr (char_of (hexval x * 16 + hexval y), alloc - 3, s'')))
         else Inr (c, alloc - 1, s))"

lemma decode_one_less: "decode_one alloc str = Inr (c, n, s) \<Longrightarrow> alloc \<noteq> 0 \<Longrightarrow> n < alloc"
  by (auto simp: decode_one_def split: list.splits if_splits)

function urldecode_loop :: "bool \<Rightarrow> nat \<Rightarrow> nat \<Rightarrow> string \<Rightarrow> string \<Rightarrow> fault + CURLcode \<times> string option" where
  "urldecode_loop reject_ctrl cap alloc str ns =
    (if alloc = 0 then rbind (emit cap [NUL] ns) (\<lambda>_. Inr (CURLE_OK, Some ns))
     else rbind (decode_one alloc str) (\<lambda>(c, alloc, str).
       if reject_ctrl \<and> ord c < 32 then Inr (CURLE_URL_MALFORMAT, None)
       else rbind (emit cap [c] ns) (\<lambda>ns. urldecode_loop reject_ctrl cap alloc str ns)))"
  by pat_completeness auto
termination
  by (relation "measure (\<lambda>(_, _, alloc, _, _). alloc)") (auto dest: decode_one_less)

declare urldecode_loop.simps [simp del]

text \<open>The output string; its length is stored with it.\<close>

definition Curl_urldecode :: "string \<Rightarrow> nat \<Rightarrow> bool \<Rightarrow> sched \<Rightarrow> fault + CURLcode \<times> string option \<times> sched" where
  "Curl_urldecode str n reject_ctrl m =
    rbind (if n \<noteq> 0 then Inr n else strlen str) (\<lambda>n.
      let alloc = n + 1 in
      case ddns_mem_alloc alloc m of
        (False, m) \<Rightarrow> Inr (CURLE_OUT_OF_MEMORY, None, m)
      | (True, m) \<Rightarrow>
          rbind (urldecode_loop reject_ctrl alloc (alloc - 1) str []) (\<lambda>(code, ns). Inr (code, ns, m)))"

text \<open>The result and what is stored in \<^verbatim>\<open>*olen\<close>, if \<open>olen\<close> is not null.\<close>

definition curl_easy_unescape ::
  "string \<Rightarrow> int \<Rightarrow> bool \<Rightarrow> sched \<Rightarrow> fault + string option \<times> nat option \<times> sched" where
  "curl_easy_unescape str n olen m =
    (if n \<ge> 0 then
       rbind (Curl_urldecode str (nat n) False m) (\<lambda>(res, out, m).
         case (res, out) of
           (CURLE_OK, Some ns) \<Rightarrow>
             if olen then
               if length ns \<le> 2147483647 then Inr (Some ns, Some (length ns), m)
               else Inr (None, None, m)
             else Inr (Some ns, None, m)
         | _ \<Rightarrow> Inr (None, None, m))
     else Inr (None, None, m))"

definition curl_unescape :: "string \<Rightarrow> int \<Rightarrow> sched \<Rightarrow> fault + string option \<times> sched" where
  "curl_unescape str n m = rbind (curl_easy_unescape str n False m) (\<lambda>(r, _, m). Inr (r, m))"

section \<open>Comparison without regard to case\<close>

definition Curl_raw_toupper :: "char \<Rightarrow> char" where
  "Curl_raw_toupper c = (if 97 \<le> ord c \<and> ord c \<le> 122 then char_of (65 + ord c - 97) else c)"

text \<open>Here a pointer is a NUL-terminated string, \<open>c_at\<close> its first byte.\<close>

fun Curl_strcasecompare :: "string \<Rightarrow> string \<Rightarrow> bool" where
  "Curl_strcasecompare (x # first) (y # second) =
    (if Curl_raw_toupper x \<noteq> Curl_raw_toupper y then Curl_raw_toupper x = Curl_raw_toupper y
     else Curl_strcasecompare first second)"
| "Curl_strcasecompare first second \<longleftrightarrow> Curl_raw_toupper (c_at first) = Curl_raw_toupper (c_at second)"

definition Curl_safe_strcasecompare :: "string option \<Rightarrow> string option \<Rightarrow> bool" where
  "Curl_safe_strcasecompare first second =
    (case (first, second) of
       (Some x, Some y) \<Rightarrow> Curl_strcasecompare x y
     | _ \<Rightarrow> first = None \<and> second = None)"

fun Curl_strncasecompare :: "string \<Rightarrow> string \<Rightarrow> nat \<Rightarrow> bool" where
  "Curl_strncasecompare first second 0 = True"
| "Curl_strncasecompare (x # first) (y # second) (Suc n) =
    (if Curl_raw_toupper x \<noteq> Curl_raw_toupper y then Curl_raw_toupper x = Curl_raw_toupper y
     else Curl_strncasecompare first second n)"
| "Curl_strncasecompare first second (Suc n) \<longleftrightarrow> Curl_raw_toupper (c_at first) = Curl_raw_toupper (c_at second)"

text \<open>What is written to \<^verbatim>\<open>dest\<close>, the terminator included when it is reached.\<close>

fun Curl_strntoupper :: "string \<Rightarrow> nat \<Rightarrow> string" where
  "Curl_strntoupper src 0 = []"
| "Curl_strntoupper [] (Suc n) = [Curl_raw_toupper NUL]"
| "Curl_strntoupper (c # src) (Suc n) = Curl_raw_toupper c # Curl_strntoupper src n"

definition curl_strequal :: "string \<Rightarrow> string \<Rightarrow> bool" where
  "curl_strequal first second = Curl_strcasecompare first second"

definition curl_strnequal :: "string \<Rightarrow> string \<Rightarrow> nat \<Rightarrow> bool" where
  "curl_strnequal first second n = Curl_strncasecompare first second n"

section \<open>String lists\<close>

text \<open>
  A list is the strings of its nodes, \<open>[]\<close> the null pointer. The state is the schedule of
  \<^verbatim>\<open>malloc\<close> and the number of blocks that are allocated.
\<close>

type_synonym blocks = "sched \<times> nat"

definition alloc_block :: "nat \<Rightarrow> blocks \<Rightarrow> bool \<times> blocks" where
  "alloc_block n b =
    (case b of (m, live) \<Rightarrow> (case ddns_mem_alloc n m of (got, m) \<Rightarrow> (got, m, if got then live + 1 else live)))"

definition free_block :: "blocks \<Rightarrow> blocks" where
  "free_block b = (case b of (m, live) \<Rightarrow> (m, live - 1))"

text \<open>The last node of a list, as the list that begins with it.\<close>

fun slist_get_last :: "string list \<Rightarrow> string list" where
  "slist_get_last [] = []"
| "slist_get_last [item] = [item]"
| "slist_get_last (item # next # list) = slist_get_last (next # list)"

definition Curl_slist_append_nodup :: "string list \<Rightarrow> string \<Rightarrow> blocks \<Rightarrow> string list \<times> blocks" where
  "Curl_slist_append_nodup list data b =
    (case alloc_block 16 b of
       (False, b) \<Rightarrow> ([], b)
     | (True, b) \<Rightarrow>
         if list = [] then ([data], b)
         else let last = slist_get_last list
              in (take (length list - length last) list @ hd last # [data], b))"

definition slist_append :: "string list \<Rightarrow> string \<Rightarrow> blocks \<Rightarrow> string list \<times> blocks" where
  "slist_append list data b =
    (case alloc_block (length (c_str data) + 1) b of
       (False, b) \<Rightarrow> ([], b)
     | (True, b) \<Rightarrow>
         (case Curl_slist_append_nodup list (c_str data) b of (list, b) \<Rightarrow>
            (list, if list = [] then free_block b else b)))"

fun curl_slist_free_all :: "string list \<Rightarrow> blocks \<Rightarrow> blocks" where
  "curl_slist_free_all [] b = b"
| "curl_slist_free_all (item # next) b = curl_slist_free_all next (free_block (free_block b))"

fun slist_duplicate_loop :: "string list \<Rightarrow> string list \<Rightarrow> blocks \<Rightarrow> string list \<times> blocks" where
  "slist_duplicate_loop [] outlist b = (outlist, b)"
| "slist_duplicate_loop (data # inlist) outlist b =
    (case slist_append outlist data b of (tmp, b) \<Rightarrow>
       if tmp = [] then ([], curl_slist_free_all outlist b)
       else slist_duplicate_loop inlist tmp b)"

definition Curl_slist_duplicate :: "string list \<Rightarrow> blocks \<Rightarrow> string list \<times> blocks" where
  "Curl_slist_duplicate inlist b = slist_duplicate_loop inlist [] b"

end
