(* ===== verification/Curl_Text_Correct.thy ===== *)
theory Curl_Text_Correct
  imports Curl_Text Tc3
begin

text \<open>
  Correctness of \<^theory_text>\<open>Curl_Text\<close>: percent-encoding and decoding against RFC 3986, the growth of the
  buffer of the encoder, comparison without regard to case as equality of normal forms, string
  lists under failing allocations.
\<close>

lemma c_str_terminated: "NUL \<notin> set s \<Longrightarrow> c_str (s @ [NUL]) = s"
  by (induction s) (auto simp: c_str_def)

section \<open>Percent-encoding\<close>

definition pct_encode :: "string \<Rightarrow> string" where
  "pct_encode s = concat (map (\<lambda>c. if Curl_isunreserved c then [c] else pct c) s)"

fun pct_decode :: "string \<Rightarrow> string" where
  "pct_decode (c # x # y # s) =
    (if c = CHR ''%'' \<and> ISXDIGIT x \<and> ISXDIGIT y then char_of (hexval x * 16 + hexval y) # pct_decode s
     else c # pct_decode (x # y # s))"
| "pct_decode s = s"

lemma pct_encode_simps [simp]:
  "pct_encode [] = []"
  "pct_encode (c # s) = (if Curl_isunreserved c then [c] else pct c) @ pct_encode s"
  by (simp_all add: pct_encode_def)

lemma length_pct [simp]: "length (pct c) = 3"
  by (simp add: pct_def)

text \<open>The buffer is large enough: \<open>newlen\<close> is what the whole output needs, and doubling reaches it.\<close>

lemma escape_loop_encodes:
  assumes "n \<le> length str" and "newlen = length ns + n + 1" and "newlen \<le> alloc"
  shows "\<exists>r m'. escape_loop n str alloc newlen ns m = Inr (r, m') \<and>
    (r = None \<or> r = Some (ns @ pct_encode (take n str))) \<and> (m = [] \<longrightarrow> r \<noteq> None)"
  using assms
proof (induction n str alloc newlen ns m rule: escape_loop.induct)
  case (3 len c str alloc newlen ns m)
  show ?case
  proof (cases "Curl_isunreserved c")
    case True
    then show ?thesis using "3.IH"(1) [OF True, of "ns @ [c]"] "3.prems" by (auto simp: emit_fits)
  next
    case False
    obtain got alloc' m' where step: "(if alloc < newlen + 2
        then case ddns_mem_alloc (alloc * 2) m of (got, m) \<Rightarrow> (got, alloc * 2, m) else (True, alloc, m)) = (got, alloc', m')"
      by (metis prod_cases3)
    have room: "newlen + 2 \<le> alloc'" using step "3.prems" by (auto split: if_splits prod.splits)
    have enough: "m = [] \<Longrightarrow> got \<and> m' = []"
      using step "3.prems" by (auto simp: ddns_mem_alloc_def split: if_splits)
    show ?thesis
    proof (cases got)
      case True
      have e: "emit alloc' (pct c @ [NUL]) ns = Inr (ns @ pct c @ [NUL])"
        by (rule emit_fits) (use room "3.prems" in simp)
      have "\<exists>r m''. escape_loop len str alloc' (newlen + 2) (ns @ pct c) m' = Inr (r, m'') \<and>
          (r = None \<or> r = Some ((ns @ pct c) @ pct_encode (take len str))) \<and> (m' = [] \<longrightarrow> r \<noteq> None)"
        by (rule "3.IH"(2) [OF False refl step [symmetric] refl refl _ e]) (use True room "3.prems" in simp_all)
      then show ?thesis using False step True enough e by auto
    qed (use False step enough in auto)
  qed
qed (auto simp: emit_fits)

text \<open>The text of a call: the given number of bytes, the C string for 0.\<close>

definition text_of :: "string \<Rightarrow> int \<Rightarrow> string" where
  "text_of str n = (if n = 0 then c_str str else take (nat n) str)"

definition readable :: "string \<Rightarrow> int \<Rightarrow> bool" where
  "readable str n \<longleftrightarrow> (if n = 0 then NUL \<in> set str else n \<le> int (length str))"

lemma text_length:
  assumes "readable str n" and "0 \<le> n"
  obtains k where "(if n \<noteq> 0 then Inr (nat n) else strlen str) = Inr k" "k \<le> length str" "take k str = text_of str n"
proof (rule that [of "length (text_of str n)"])
  show "(if n \<noteq> 0 then Inr (nat n) else strlen str) = Inr (length (text_of str n))"
    using assms by (auto simp: readable_def text_of_def strlen_def)
  show "length (text_of str n) \<le> length str" by (simp add: text_of_def c_str_def length_takeWhile_le)
  show "take (length (text_of str n)) str = text_of str n"
    using assms by (auto simp: text_of_def c_str_def readable_def takeWhile_eq_take [symmetric] min_def
        intro: takeWhile_eq_take [symmetric])
qed

lemma escape_encodes:
  assumes "readable str n" and "0 \<le> n"
  obtains r m' where "curl_easy_escape str n m = Inr (r, m')" "r = None \<or> r = Some (pct_encode (text_of str n))"
    "m = [] \<Longrightarrow> r = Some (pct_encode (text_of str n))"
proof -
  obtain k where k: "(if n \<noteq> 0 then Inr (nat n) else strlen str) = Inr k" "k \<le> length str" "take k str = text_of str n"
    by (rule text_length [OF assms])
  obtain got m1 where a: "ddns_mem_alloc (k + 1) m = (got, m1)" by fastforce
  have enough: "m = [] \<Longrightarrow> got \<and> m1 = []" using a by (auto simp: ddns_mem_alloc_def)
  have run: "\<not> n < 0" using assms by simp
  show thesis
  proof (cases got)
    case True
    obtain r m' where r: "escape_loop k str (k + 1) (k + 1) [] m1 = Inr (r, m')"
      "r = None \<or> r = Some (pct_encode (take k str))" "m1 = [] \<longrightarrow> r \<noteq> None"
      using escape_loop_encodes [of k str "k + 1" "[]" "k + 1" m1] k(2) by auto
    show thesis
      by (rule that [of r m']) (use r enough True a k run in \<open>auto simp: curl_easy_escape_def Let_def\<close>)
  next
    case False
    show thesis
      by (rule that [of None m1]) (use enough False a k run in \<open>auto simp: curl_easy_escape_def Let_def\<close>)
  qed
qed

section \<open>Decoding\<close>

definition has_ctrl :: "string \<Rightarrow> bool" where
  "has_ctrl s \<longleftrightarrow> (\<exists>c \<in> set s. ord c < 32)"

lemma has_ctrl_Cons: "has_ctrl (c # s) \<longleftrightarrow> ord c < 32 \<or> has_ctrl s"
  by (simp add: has_ctrl_def)

lemma pct_decode_short: "length s \<le> 2 \<Longrightarrow> pct_decode s = s"
  by (cases s rule: pct_decode.cases) simp_all

lemma decode_one_run:
  assumes "0 < n" and "n \<le> length str"
  obtains c n' where "decode_one n str = Inr (c, n', drop (n - n') str)" "n' < n"
    "pct_decode (take n str) = c # pct_decode (take n' (drop (n - n') str))"
proof -
  obtain c s where str: "str = c # s" using assms by (cases str) auto
  show thesis
  proof (cases "n \<le> 2")
    case True
    have "pct_decode (take n str) = c # pct_decode (take (n - 1) s)"
      using True assms(1) by (simp add: pct_decode_short str take_Cons' )
    then show thesis using that [of c "n - 1"] True assms(1) by (simp add: decode_one_def str)
  next
    case False
    then obtain k where n: "n = Suc (Suc (Suc k))"
      by (metis Suc_1 not_less_eq_eq not0_implies_Suc One_nat_def le0)
    then obtain x y t where s: "s = x # y # t"
      using assms(2) by (cases s; cases "tl s") (simp_all add: str)
    show thesis
    proof (cases "c = CHR ''%'' \<and> ISXDIGIT x \<and> ISXDIGIT y")
      case True
      show thesis
        by (rule that [of "char_of (hexval x * 16 + hexval y)" k]) (use True in \<open>simp_all add: decode_one_def str s n\<close>)
    next
      case False
      show thesis by (rule that [of c "n - 1"]) (use False in \<open>auto simp add: decode_one_def str s n\<close>)
    qed
  qed
qed

lemma urldecode_loop_decodes:
  assumes "n \<le> length str" and "length ns + n + 1 \<le> cap"
  shows "urldecode_loop reject cap n str ns =
    (if reject \<and> has_ctrl (pct_decode (take n str)) then Inr (CURLE_URL_MALFORMAT, None)
     else Inr (CURLE_OK, Some (ns @ pct_decode (take n str))))"
  using assms
proof (induction n arbitrary: str ns rule: less_induct)
  case (less n)
  show ?case
  proof (cases "n = 0")
    case True
    then show ?thesis using less.prems by (simp add: urldecode_loop.simps [of _ _ 0] emit_fits has_ctrl_def)
  next
    case False
    then obtain c n' where d: "decode_one n str = Inr (c, n', drop (n - n') str)" "n' < n"
      "pct_decode (take n str) = c # pct_decode (take n' (drop (n - n') str))"
      using decode_one_run [of n str] less.prems by blast
    have IH: "urldecode_loop reject cap n' (drop (n - n') str) (ns @ [c]) =
      (if reject \<and> has_ctrl (pct_decode (take n' (drop (n - n') str))) then Inr (CURLE_URL_MALFORMAT, None)
       else Inr (CURLE_OK, Some ((ns @ [c]) @ pct_decode (take n' (drop (n - n') str)))))"
      by (rule less.IH) (use d(2) less.prems in simp_all)
    have e: "emit cap [c] ns = Inr (ns @ [c])" by (rule emit_fits) (use less.prems False in simp)
    show ?thesis
      using False IH by (subst urldecode_loop.simps) (auto simp: d(1,3) e has_ctrl_Cons)
  qed
qed

lemma urldecode_decodes:
  assumes "readable str (int n)"
  shows "Curl_urldecode str n reject [] = (let t = pct_decode (text_of str (int n)) in
    if reject \<and> has_ctrl t then Inr (CURLE_URL_MALFORMAT, None, []) else Inr (CURLE_OK, Some t, []))"
proof -
  obtain k where l: "(if int n \<noteq> 0 then Inr (nat (int n)) else strlen str) = Inr k"
      and k: "k \<le> length str" "take k str = text_of str (int n)"
    by (rule text_length [OF assms]) simp
  then have kn: "(if n \<noteq> 0 then Inr n else strlen str) = Inr k" by (simp split: if_splits)
  have "Curl_urldecode str n reject [] =
      rbind (urldecode_loop reject (k + 1) k str []) (\<lambda>(code, ns). Inr (code, ns, []))"
    unfolding Curl_urldecode_def kn by (simp add: ddns_mem_alloc_def)
  also have "urldecode_loop reject (k + 1) k str [] =
      (if reject \<and> has_ctrl (pct_decode (text_of str (int n))) then Inr (CURLE_URL_MALFORMAT, None)
       else Inr (CURLE_OK, Some (pct_decode (text_of str (int n)))))"
    using urldecode_loop_decodes [of k str "[]" "k + 1" reject] k(1) by (simp add: k(2))
  finally show ?thesis by (simp add: Let_def)
qed

lemma HEX_digit:
  assumes "k < 16"
  shows "ISXDIGIT (HEX ! k)" "hexval (HEX ! k) = k"
proof -
  have "list_all (\<lambda>k. ISXDIGIT (HEX ! k) \<and> hexval (HEX ! k) = k) [0..<16]" by code_simp
  with assms show "ISXDIGIT (HEX ! k)" "hexval (HEX ! k) = k" by (simp_all add: list_all_iff)
qed

lemma pct_decode_pct: "pct_decode (pct c @ s) = c # pct_decode s"
proof -
  have d: "ord c div 16 < 16" using ord_lt [of c] by (simp add: less_mult_imp_div_less)
  have "char_of (ord c div 16 * 16 + ord c mod 16) = c" by (simp only: div_mult_mod_eq char_of_char)
  then show ?thesis by (simp add: pct_def HEX_digit d)
qed

lemma pct_decode_plain: "c \<noteq> CHR ''%'' \<Longrightarrow> pct_decode (c # s) = c # pct_decode s"
  by (cases s; cases "tl s") simp_all

lemma unreserved_plain: "Curl_isunreserved c \<Longrightarrow> c \<noteq> CHR ''%'' \<and> c \<noteq> NUL"
  by (auto simp: Curl_isunreserved_def)

lemma pct_decode_encode: "pct_decode (pct_encode s) = s"
  by (induction s) (simp_all add: pct_decode_pct pct_decode_plain unreserved_plain)

interpretation url: codec pct_encode "\<lambda>t. Some (pct_decode t)" "\<lambda>_. True"
  by unfold_locales (simp add: pct_decode_encode)

lemma HEX_set: "k < 16 \<Longrightarrow> HEX ! k \<in> set HEX"
  by (rule nth_mem) (simp add: HEX_def)

lemma pct_encode_chars: "c \<in> set (pct_encode s) \<Longrightarrow> Curl_isunreserved c \<or> c = CHR ''%''"
proof (induction s)
  case (Cons d s)
  have d: "ord d div 16 < 16" using ord_lt [of d] by (simp add: less_mult_imp_div_less)
  have "\<And>c. c \<in> set HEX \<Longrightarrow> Curl_isunreserved c" by (auto simp: HEX_def Curl_isunreserved_def)
  with Cons d HEX_set show ?case by (auto simp: pct_def split: if_splits)
qed simp

lemma pct_encode_no_NUL: "NUL \<notin> set (pct_encode s)"
  using pct_encode_chars [of NUL s] unreserved_plain by auto

text \<open>
  C18: Whatever bytes a string has, \<open>curl_easy_escape\<close> writes within its buffer and returns the
  percent-encoding of RFC 3986, made of unreserved characters and \<open>%\<close> only, or null when an
  allocation fails; \<open>curl_easy_unescape\<close> gives back the bytes and their number, and decoding
  without control characters fails exactly when there is one.
\<close>

theorem url_escape_roundtrip:
  assumes "s \<noteq> []" and "length s \<le> 2147483647"
  shows "\<exists>r m'. curl_easy_escape s (int (length s)) m = Inr (r, m') \<and>
    (r = None \<or> r = Some (pct_encode s)) \<and> (m = [] \<longrightarrow> r \<noteq> None) \<and>
    (\<forall>c \<in> set (pct_encode s). Curl_isunreserved c \<or> c = CHR ''%'') \<and>
    curl_easy_unescape (pct_encode s @ [NUL]) 0 True [] = Inr (Some s, Some (length s), []) \<and>
    Curl_urldecode (pct_encode s @ [NUL]) 0 True [] =
      Inr (if has_ctrl s then (CURLE_URL_MALFORMAT, None, []) else (CURLE_OK, Some s, []))"
proof -
  have whole: "text_of s (int (length s)) = s" using assms(1) by (simp add: text_of_def)
  obtain r m' where r: "curl_easy_escape s (int (length s)) m = Inr (r, m')"
    "r = None \<or> r = Some (pct_encode s)" "m = [] \<longrightarrow> r \<noteq> None"
    by (rule escape_encodes [of s "int (length s)" m]) (use assms whole in \<open>auto simp: readable_def\<close>)
  have "c_str (pct_encode s @ [NUL]) = pct_encode s"
    by (rule c_str_terminated) (rule pct_encode_no_NUL)
  then have dec: "Curl_urldecode (pct_encode s @ [NUL]) 0 reject [] =
      Inr (if reject \<and> has_ctrl s then (CURLE_URL_MALFORMAT, None, []) else (CURLE_OK, Some s, []))" for reject
    using urldecode_decodes [of "pct_encode s @ [NUL]" 0 reject]
    by (simp add: readable_def text_of_def pct_decode_encode)
  have un: "curl_easy_unescape (pct_encode s @ [NUL]) 0 True [] = Inr (Some s, Some (length s), [])"
    using assms(2) dec [of False] by (simp add: curl_easy_unescape_def)
  have chars: "\<forall>c \<in> set (pct_encode s). Curl_isunreserved c \<or> c = CHR ''%''"
    using pct_encode_chars by blast
  show ?thesis
    by (intro exI [of _ r] exI [of _ m'] conjI) (use r chars un dec [of True] in simp_all)
qed

theorem url_escape_roundtrip_witness:
  "curl_easy_unescape (''a%20b'' @ [NUL]) 0 True [] = Inr (Some ''a b'', Some 3, [])"
proof -
  have "pct_encode ''a b'' = ''a%20b''" by (simp add: Curl_isunreserved_def pct_def HEX_def)
  with url_escape_roundtrip [of "''a b''" "[]"] show ?thesis
    by (simp add: numeral_3_eq_3 del: pct_encode_simps) blast
qed

section \<open>Comparison without regard to case\<close>

abbreviation upper :: "string \<Rightarrow> string" where "upper s \<equiv> map Curl_raw_toupper s"

lemma toupper_NUL: "Curl_raw_toupper c = NUL \<longleftrightarrow> c = NUL"
  "NUL = Curl_raw_toupper c \<longleftrightarrow> c = NUL"
proof -
  have "ord (char_of (ord c - 32) :: char) \<noteq> 0" if "97 \<le> ord c" for c :: char
  proof -
    have "ord (char_of (ord c - 32) :: char) = ord c - 32"
      by (simp only: of_char_of, rule mod_less) (use ord_lt [of c] in linarith)
    with that show ?thesis by linarith
  qed
  then have "char_of (ord c - 32) \<noteq> NUL" if "97 \<le> ord c" for c
    using that by fastforce
  then show "Curl_raw_toupper c = NUL \<longleftrightarrow> c = NUL" by (auto simp: Curl_raw_toupper_def)
  then show "NUL = Curl_raw_toupper c \<longleftrightarrow> c = NUL" by metis
qed

lemma toupper_of_NUL: "Curl_raw_toupper NUL = NUL"
  by (simp add: toupper_NUL)

lemma strcasecompare_iff:
  "NUL \<notin> set first \<Longrightarrow> NUL \<notin> set second \<Longrightarrow> Curl_strcasecompare first second \<longleftrightarrow> upper first = upper second"
  by (induction first second rule: Curl_strcasecompare.induct) (auto simp: c_at_def toupper_NUL toupper_of_NUL split: list.splits)

lemma strncasecompare_iff:
  "NUL \<notin> set first \<Longrightarrow> NUL \<notin> set second \<Longrightarrow>
    Curl_strncasecompare first second n \<longleftrightarrow> take n (upper first) = take n (upper second)"
  by (induction first second n rule: Curl_strncasecompare.induct) (auto simp: c_at_def toupper_NUL toupper_of_NUL split: list.splits)

lemma strntoupper_eq:
  "NUL \<notin> set src \<Longrightarrow> Curl_strntoupper src n = take n (upper src @ [NUL])"
  by (induction src n rule: Curl_strntoupper.induct) (auto simp: toupper_NUL toupper_of_NUL)

section \<open>String lists\<close>

lemma slist_get_last_eq: "slist_get_last list = drop (length list - 1) list"
  by (induction list rule: slist_get_last.induct) (simp_all add: drop_Cons')

lemma append_nodup_eq:
  "Curl_slist_append_nodup list data b =
    (case alloc_block 16 b of (got, b) \<Rightarrow> (if got then list @ [data] else [], b))"
proof (cases "list = []")
  case False
  then have "take (length list - length (slist_get_last list)) list @ [hd (slist_get_last list)] = list"
    by (simp add: slist_get_last_eq hd_drop_conv_nth) (metis append_butlast_last_id butlast_conv_take last_conv_nth One_nat_def)
  then have "take (length list - length (slist_get_last list)) list @ hd (slist_get_last list) # [data] = list @ [data]"
    by (metis append_Cons append_Nil append_assoc)
  with False show ?thesis by (simp add: Curl_slist_append_nodup_def Let_def split: prod.split bool.split)
qed (simp add: Curl_slist_append_nodup_def split: prod.split bool.split)

text \<open>An append either succeeds with two new blocks or returns null and leaves no block behind.\<close>

lemma alloc_block_cases:
  obtains got m' where "alloc_block n (m, live) = (got, m', if got then live + 1 else live)" "ddns_mem_alloc n m = (got, m')"
  by (cases "ddns_mem_alloc n m") (auto simp: alloc_block_def)

lemma slist_append_outcomes:
  obtains (appended) m' where "slist_append list data (m, live) = (list @ [c_str data], m', live + 2)"
  | (failed) m' where "slist_append list data (m, live) = ([], m', live)" "m \<noteq> []"
proof (rule alloc_block_cases [of "length (c_str data) + 1" m live])
  fix got m1
  assume a: "alloc_block (length (c_str data) + 1) (m, live) = (got, m1, if got then live + 1 else live)"
    "ddns_mem_alloc (length (c_str data) + 1) m = (got, m1)"
  show thesis
  proof (cases got)
    case False
    with a show thesis by (intro failed [of m1]) (auto simp: slist_append_def ddns_mem_alloc_def)
  next
    case True
    show thesis
    proof (rule alloc_block_cases [of 16 m1 "live + 1"])
      fix got' m2
      assume b: "alloc_block 16 (m1, live + 1) = (got', m2, if got' then live + 1 + 1 else live + 1)"
        "ddns_mem_alloc 16 m1 = (got', m2)"
      show thesis
      proof (cases got')
        case False
        with a b True show thesis
          by (intro failed [of m2]) (auto simp: slist_append_def append_nodup_eq free_block_def ddns_mem_alloc_def)
      next
        case t: True
        with a b True show thesis
          by (intro appended [of m2]) (simp add: slist_append_def append_nodup_eq)
      qed
    qed
  qed
qed

lemma free_all_blocks: "curl_slist_free_all list (m, live) = (m, live - 2 * length list)"
  by (induction list arbitrary: live) (simp_all add: free_block_def)

lemma duplicate_loop_outcomes:
  "(\<exists>m'. slist_duplicate_loop inlist outlist (m, live) = (outlist @ map c_str inlist, m', live + 2 * length inlist)) \<or>
   (\<exists>m'. m \<noteq> [] \<and> slist_duplicate_loop inlist outlist (m, live) = ([], m', live - 2 * length outlist))"
proof (induction inlist arbitrary: outlist m live)
  case (Cons data inlist)
  show ?case
  proof (cases rule: slist_append_outcomes [of outlist data m live])
    case (appended m')
    have m: "m = [] \<Longrightarrow> m' = []"
      using appended by (auto simp: slist_append_def alloc_block_def ddns_mem_alloc_def append_nodup_eq split: if_splits prod.splits)
    from Cons.IH [of "outlist @ [c_str data]" m' "live + 2"] m show ?thesis
      by (auto simp: appended)
  next
    case (failed m')
    then show ?thesis by (simp add: free_all_blocks)
  qed
qed simp

lemma slist_duplicate_outcomes:
  "(\<exists>m'. Curl_slist_duplicate inlist (m, live) = (map c_str inlist, m', live + 2 * length inlist)) \<or>
   (\<exists>m'. m \<noteq> [] \<and> Curl_slist_duplicate inlist (m, live) = ([], m', live))"
  using duplicate_loop_outcomes [of inlist "[]" m live] by (simp add: Curl_slist_duplicate_def)

text \<open>
  The program builds its header list by \<^verbatim>\<open>*headers = curl_slist_append(*headers, ...)\<close>; the
  result of a failed append replaces the list.
\<close>

fun build_slist :: "string list \<Rightarrow> string list \<Rightarrow> blocks \<Rightarrow> string list \<times> blocks" where
  "build_slist headers [] b = (headers, b)"
| "build_slist headers (h # hs) b = (case slist_append headers h b of (headers, b) \<Rightarrow> build_slist headers hs b)"

definition header_lines :: "dnspod \<Rightarrow> string \<Rightarrow> string list" where
  "header_lines this action =
    [''Authorization: '' @ request_authorization this, ''Content-Type: '' @ request_content_type this,
     ''Host: '' @ TENCENT_REQUEST_URL, ''X-TC-Action: '' @ action,
     ''X-TC-Timestamp: '' @ dec_str (unat (request_timestamp this)), ''X-TC-Version: '' @ request_version this,
     ''X-TC-Language: zh-CN'', ''X-TC-Token: '']"

lemma build_slist_suffix:
  "\<exists>k m' n. k \<le> length headers + length hs \<and>
    build_slist headers hs (m, live) = (drop k (headers @ map c_str hs), m', live + 2 * n) \<and>
    length hs - (k - length headers) \<le> n \<and> n \<le> length hs \<and> (m = [] \<longrightarrow> k = 0)"
proof (induction hs arbitrary: headers m live)
  case (Cons h hs)
  show ?case
  proof (cases rule: slist_append_outcomes [of headers h m live])
    case (appended m1)
    have m: "m = [] \<Longrightarrow> m1 = []"
      using appended by (auto simp: slist_append_def alloc_block_def ddns_mem_alloc_def append_nodup_eq split: if_splits prod.splits)
    obtain k m' n where IH: "k \<le> length (headers @ [c_str h]) + length hs"
      "build_slist (headers @ [c_str h]) hs (m1, live + 2) = (drop k ((headers @ [c_str h]) @ map c_str hs), m', live + 2 + 2 * n)"
      "length hs - (k - length (headers @ [c_str h])) \<le> n" "n \<le> length hs" "m1 = [] \<longrightarrow> k = 0"
      using Cons.IH [of "headers @ [c_str h]" m1 "live + 2"] by blast
    show ?thesis
      by (rule exI [of _ k], rule exI [of _ m'], rule exI [of _ "n + 1"]) (use IH m appended in auto)
  next
    case (failed m1)
    obtain k m' n where IH: "k \<le> length hs"
      "build_slist [] hs (m1, live) = (drop k (map c_str hs), m', live + 2 * n)"
      "length hs - k \<le> n" "n \<le> length hs"
      using Cons.IH [of "[]" m1 live] by auto
    show ?thesis
      by (rule exI [of _ "length headers + 1 + k"], rule exI [of _ m'], rule exI [of _ n]) (use IH failed in auto)
  qed
qed auto

text \<open>
  C36: When allocations may fail, the header list of a request is a suffix of the eight lines the
  program appends: an append that fails loses every line before it, the signature first, without
  an error and without releasing their blocks. With memory the list has all eight lines.
\<close>

theorem headers_under_failures:
  "\<exists>k m' n. build_slist [] (header_lines this action) (m, live) =
      (drop k (generate_http_header this [] action), m', live + 2 * n) \<and>
    k \<le> 8 \<and> 8 - k \<le> n \<and> n \<le> 8 \<and> (m = [] \<longrightarrow> k = 0)"
proof -
  have lines: "generate_http_header this [] action = map c_str (header_lines this action)"
    by (simp add: generate_http_header_def header_lines_def curl_slist_append_def Let_def)
  have len: "length (header_lines this action) = 8" by (simp add: header_lines_def)
  show ?thesis
    using build_slist_suffix [of "[]" "header_lines this action" m live] by (simp add: lines len) blast
qed

theorem headers_under_failures_witness:
  "\<forall>this action. \<exists>m' n. build_slist [] (header_lines this action) ([], 0) =
    (generate_http_header this [] action, m', 2 * n) \<and> n = 8"
proof (intro allI)
  fix this action
  from headers_under_failures [of this action "[]" 0]
  show "\<exists>m' n. build_slist [] (header_lines this action) ([], 0) =
    (generate_http_header this [] action, m', 2 * n) \<and> n = 8" by auto
qed

text \<open>The fifth append fails: three lines are left, and eight blocks of the lost ones.\<close>

lemma headers_lost:
  "fst (build_slist [] (header_lines this action) (replicate 8 True @ [False], 0)) =
    drop 5 (generate_http_header this [] action)"
  "snd (snd (build_slist [] (header_lines this action) (replicate 8 True @ [False], 0))) = 14"
  by (simp_all add: generate_http_header_def header_lines_def curl_slist_append_def slist_append_def alloc_block_def
      ddns_mem_alloc_def append_nodup_eq numeral_nat)

end
