(* ===== verification/Splay.thy ===== *)
theory Splay
  imports Prelude
begin

text \<open>
  \<^verbatim>\<open>lib/splay.c\<close> of the vendored libcurl: the tree in which a transfer keeps its timeouts.

  Memory is explicit: one function per field of \<^verbatim>\<open>struct Curl_tree\<close>, from addresses to values; a
  pointer is \<open>None\<close> when it is null, and reading through it faults. \<open>N\<close> is the address of the
  local node of \<^verbatim>\<open>Curl_splay\<close>, which the tree does not contain. The loop of \<^verbatim>\<open>Curl_splay\<close> has
  fuel; the number of nodes is enough.
\<close>

section \<open>Keys\<close>

datatype curltime = Curltime (tv_sec: int) (tv_usec: int)

definition Curl_splaycomparekeys :: "curltime \<Rightarrow> curltime \<Rightarrow> int" where
  "Curl_splaycomparekeys i j =
    (if tv_sec i < tv_sec j then - 1 else if tv_sec i > tv_sec j then 1
     else if tv_usec i < tv_usec j then - 1 else if tv_usec i > tv_usec j then 1 else 0)"

text \<open>\<^verbatim>\<open>(unsigned int) -1\<close> becomes \<open>- 1\<close> in the \<^verbatim>\<open>int\<close> field.\<close>

definition KEY_NOTUSED :: curltime where "KEY_NOTUSED = Curltime (- 1) (- 1)"
definition tv_zero :: curltime where "tv_zero = Curltime 0 0"

section \<open>Memory\<close>

type_synonym ptr = "nat option"

record tmem =
  t_smaller :: "nat \<Rightarrow> ptr"
  t_larger :: "nat \<Rightarrow> ptr"
  t_samen :: "nat \<Rightarrow> ptr"
  t_samep :: "nat \<Rightarrow> ptr"
  t_key :: "nat \<Rightarrow> curltime"

definition set_smaller :: "nat \<Rightarrow> ptr \<Rightarrow> tmem \<Rightarrow> tmem" where
  "set_smaller a p h = h\<lparr>t_smaller := (t_smaller h)(a := p)\<rparr>"
definition set_larger :: "nat \<Rightarrow> ptr \<Rightarrow> tmem \<Rightarrow> tmem" where
  "set_larger a p h = h\<lparr>t_larger := (t_larger h)(a := p)\<rparr>"
definition set_samen :: "nat \<Rightarrow> ptr \<Rightarrow> tmem \<Rightarrow> tmem" where
  "set_samen a p h = h\<lparr>t_samen := (t_samen h)(a := p)\<rparr>"
definition set_samep :: "nat \<Rightarrow> ptr \<Rightarrow> tmem \<Rightarrow> tmem" where
  "set_samep a p h = h\<lparr>t_samep := (t_samep h)(a := p)\<rparr>"
definition set_key :: "nat \<Rightarrow> curltime \<Rightarrow> tmem \<Rightarrow> tmem" where
  "set_key a k h = h\<lparr>t_key := (t_key h)(a := k)\<rparr>"

definition deref :: "ptr \<Rightarrow> fault + nat" where
  "deref p = (case p of None \<Rightarrow> Inl Null_deref | Some a \<Rightarrow> Inr a)"

section \<open>Splaying\<close>

fun splay_loop :: "nat \<Rightarrow> curltime \<Rightarrow> tmem \<Rightarrow> ptr \<Rightarrow> nat \<Rightarrow> nat \<Rightarrow> fault + tmem \<times> nat \<times> nat \<times> nat" where
  "splay_loop fuel i h None l r = Inl Null_deref"
| "splay_loop 0 i h (Some t) l r = Inl No_return"
| "splay_loop (Suc fuel) i h (Some t) l r =
    (let c = Curl_splaycomparekeys i (t_key h t) in
     if c < 0 then
       (case t_smaller h t of
          None \<Rightarrow> Inr (h, t, l, r)
        | Some s \<Rightarrow>
            let (h, t) =
              (if Curl_splaycomparekeys i (t_key h s) < 0
               then let y = s; h = set_smaller t (t_larger h y) h; h = set_larger y (Some t) h in (h, y)
               else (h, t))
            in if t_smaller h t = None then Inr (h, t, l, r)
               else let h = set_smaller r (Some t) h in splay_loop fuel i h (t_smaller h t) l t)
     else if c > 0 then
       (case t_larger h t of
          None \<Rightarrow> Inr (h, t, l, r)
        | Some s \<Rightarrow>
            let (h, t) =
              (if Curl_splaycomparekeys i (t_key h s) > 0
               then let y = s; h = set_larger t (t_smaller h y) h; h = set_smaller y (Some t) h in (h, y)
               else (h, t))
            in if t_larger h t = None then Inr (h, t, l, r)
               else let h = set_larger l (Some t) h in splay_loop fuel i h (t_larger h t) t r)
     else Inr (h, t, l, r))"

definition Curl_splay :: "nat \<Rightarrow> nat \<Rightarrow> curltime \<Rightarrow> tmem \<Rightarrow> ptr \<Rightarrow> fault + tmem \<times> ptr" where
  "Curl_splay fuel N i h t =
    (if t = None then Inr (h, t)
     else let h = set_larger N None h; h = set_smaller N None h in
       rbind (splay_loop fuel i h t N N) (\<lambda>(h, t, l, r).
         let h = set_larger l (t_smaller h t) h;
             h = set_smaller r (t_larger h t) h;
             h = set_smaller t (t_larger h N) h;
             h = set_larger t (t_smaller h N) h
         in Inr (h, Some t)))"

section \<open>The operations\<close>

definition Curl_splayinsert ::
  "nat \<Rightarrow> nat \<Rightarrow> curltime \<Rightarrow> tmem \<Rightarrow> ptr \<Rightarrow> ptr \<Rightarrow> fault + tmem \<times> ptr" where
  "Curl_splayinsert fuel N i h t node =
    (case node of
       None \<Rightarrow> Inr (h, t)
     | Some node \<Rightarrow>
         let alone = (\<lambda>h. let h = set_key node i h; h = set_samen node (Some node) h; h = set_samep node (Some node) h
                          in Inr (h, Some node))
         in case t of
           None \<Rightarrow> alone (set_smaller node None (set_larger node None h))
         | Some _ \<Rightarrow>
             rbind (Curl_splay fuel N i h t) (\<lambda>(h, t).
             rbind (deref t) (\<lambda>t.
               if Curl_splaycomparekeys i (t_key h t) = 0 then
                 let h = set_key node KEY_NOTUSED h;
                     h = set_samen node (Some t) h;
                     h = set_samep node (t_samep h t) h
                 in rbind (deref (t_samep h t)) (\<lambda>p.
                    let h = set_samen p (Some node) h;
                        h = set_samep t (Some node) h
                    in Inr (h, Some t))
               else if Curl_splaycomparekeys i (t_key h t) < 0 then
                 let h = set_smaller node (t_smaller h t) h;
                     h = set_larger node (Some t) h;
                     h = set_smaller t None h
                 in alone h
               else
                 let h = set_larger node (t_larger h t) h;
                     h = set_smaller node (Some t) h;
                     h = set_larger t None h
                 in alone h)))"

text \<open>
  Both removals let the next node \<open>x\<close> with the same key take the place of the root \<open>t\<close>.
\<close>

definition replace_root :: "tmem \<Rightarrow> nat \<Rightarrow> nat \<Rightarrow> fault + tmem" where
  "replace_root h t x =
    (let h = set_key x (t_key h t) h;
         h = set_larger x (t_larger h t) h;
         h = set_smaller x (t_smaller h t) h;
         h = set_samep x (t_samep h t) h
     in rbind (deref (t_samep h t)) (\<lambda>p. Inr (set_samen p (Some x) h)))"

text \<open>The tree and the removed node.\<close>

definition Curl_splaygetbest :: "nat \<Rightarrow> nat \<Rightarrow> curltime \<Rightarrow> tmem \<Rightarrow> ptr \<Rightarrow> fault + tmem \<times> ptr \<times> ptr" where
  "Curl_splaygetbest fuel N i h t =
    (if t = None then Inr (h, None, None)
     else rbind (Curl_splay fuel N tv_zero h t) (\<lambda>(h, t).
       rbind (deref t) (\<lambda>t.
         if Curl_splaycomparekeys i (t_key h t) < 0 then Inr (h, Some t, None)
         else if t_samen h t \<noteq> Some t then
           rbind (deref (t_samen h t)) (\<lambda>x. rbind (replace_root h t x) (\<lambda>h. Inr (h, Some x, Some t)))
         else Inr (h, t_larger h t, Some t))))"

text \<open>The return code and the pointer at \<^verbatim>\<open>newroot\<close>, which keeps its value on an error.\<close>

definition Curl_splayremovebyaddr ::
  "nat \<Rightarrow> nat \<Rightarrow> tmem \<Rightarrow> ptr \<Rightarrow> ptr \<Rightarrow> ptr \<Rightarrow> fault + nat \<times> tmem \<times> ptr" where
  "Curl_splayremovebyaddr fuel N h t removenode newroot =
    (case (t, removenode) of
       (Some _, Some n) \<Rightarrow>
         if Curl_splaycomparekeys KEY_NOTUSED (t_key h n) = 0 then
           if t_samen h n = Some n then Inr (3, h, newroot)
           else
             rbind (deref (t_samep h n)) (\<lambda>p.
             let h = set_samen p (t_samen h n) h in
             rbind (deref (t_samen h n)) (\<lambda>s.
             let h = set_samep s (t_samep h n) h;
                 h = set_samen n (Some n) h
             in Inr (0, h, t)))
         else
           rbind (Curl_splay fuel N (t_key h n) h t) (\<lambda>(h, t).
             if t \<noteq> Some n then Inr (2, h, newroot)
             else if t_samen h n \<noteq> Some n then
               rbind (deref (t_samen h n)) (\<lambda>x. rbind (replace_root h n x) (\<lambda>h. Inr (0, h, Some x)))
             else if t_smaller h n = None then Inr (0, h, t_larger h n)
             else
               rbind (Curl_splay fuel N (t_key h n) h (t_smaller h n)) (\<lambda>(h, x).
               rbind (deref x) (\<lambda>x. Inr (0, set_larger x (t_larger h n) h, Some x))))
     | _ \<Rightarrow> Inr (1, h, newroot))"

end
