(* ===== verification/Splay_Loop.thy ===== *)
theory Splay_Loop
  imports Splay "HOL-Library.Tree"
begin

text \<open>
  What \<^verbatim>\<open>Curl_splay\<close> does: keys are ordered by time, the three trees of its loop keep the nodes in
  their order, it stops at a node that divides the others at the key, and no null pointer is read.
\<close>

section \<open>The order of keys\<close>

instantiation curltime :: linorder
begin

definition less_eq_curltime :: "curltime \<Rightarrow> curltime \<Rightarrow> bool" where
  "less_eq_curltime i j \<longleftrightarrow> tv_sec i < tv_sec j \<or> tv_sec i = tv_sec j \<and> tv_usec i \<le> tv_usec j"

definition less_curltime :: "curltime \<Rightarrow> curltime \<Rightarrow> bool" where
  "less_curltime i j \<longleftrightarrow> tv_sec i < tv_sec j \<or> tv_sec i = tv_sec j \<and> tv_usec i < tv_usec j"

instance
  by standard (auto simp: less_eq_curltime_def less_curltime_def curltime.expand)

end

lemma compare_keys [simp]:
  "Curl_splaycomparekeys i j < 0 \<longleftrightarrow> i < j"
  "0 < Curl_splaycomparekeys i j \<longleftrightarrow> j < i"
  "Curl_splaycomparekeys i j = 0 \<longleftrightarrow> i = j"
  by (auto simp: Curl_splaycomparekeys_def less_curltime_def curltime.expand)

section \<open>Memory\<close>

lemma set_simps [simp]:
  "t_smaller (set_smaller a p h) = (t_smaller h)(a := p)" "t_smaller (set_larger a p h) = t_smaller h"
  "t_smaller (set_samen a p h) = t_smaller h" "t_smaller (set_samep a p h) = t_smaller h" "t_smaller (set_key a k h) = t_smaller h"
  "t_larger (set_smaller a p h) = t_larger h" "t_larger (set_larger a p h) = (t_larger h)(a := p)"
  "t_larger (set_samen a p h) = t_larger h" "t_larger (set_samep a p h) = t_larger h" "t_larger (set_key a k h) = t_larger h"
  "t_samen (set_smaller a p h) = t_samen h" "t_samen (set_larger a p h) = t_samen h"
  "t_samen (set_samen a p h) = (t_samen h)(a := p)" "t_samen (set_samep a p h) = t_samen h" "t_samen (set_key a k h) = t_samen h"
  "t_samep (set_smaller a p h) = t_samep h" "t_samep (set_larger a p h) = t_samep h"
  "t_samep (set_samen a p h) = t_samep h" "t_samep (set_samep a p h) = (t_samep h)(a := p)" "t_samep (set_key a k h) = t_samep h"
  "t_key (set_smaller a p h) = t_key h" "t_key (set_larger a p h) = t_key h"
  "t_key (set_samen a p h) = t_key h" "t_key (set_samep a p h) = t_key h" "t_key (set_key a k h) = (t_key h)(a := k)"
  by (simp_all add: set_smaller_def set_larger_def set_samen_def set_samep_def set_key_def)

lemma deref_simps [simp]: "deref None = Inl Null_deref" "deref (Some a) = Inr a"
  by (simp_all add: deref_def)

section \<open>Trees in memory\<close>

fun rep :: "tmem \<Rightarrow> ptr \<Rightarrow> nat tree \<Rightarrow> bool" where
  "rep h p Leaf \<longleftrightarrow> p = None"
| "rep h p (Node A a B) \<longleftrightarrow> p = Some a \<and> rep h (t_smaller h a) A \<and> rep h (t_larger h a) B"

lemma rep_cong:
  "(\<And>a. a \<in> set_tree T \<Longrightarrow> t_smaller h a = t_smaller h' a \<and> t_larger h a = t_larger h' a) \<Longrightarrow> rep h p T \<longleftrightarrow> rep h' p T"
  by (induction T arbitrary: p) auto

lemma rep_other [simp]:
  "a \<notin> set_tree T \<Longrightarrow> rep (set_smaller a q h) p T \<longleftrightarrow> rep h p T"
  "a \<notin> set_tree T \<Longrightarrow> rep (set_larger a q h) p T \<longleftrightarrow> rep h p T"
  "rep (set_samen a q h) p T \<longleftrightarrow> rep h p T"
  "rep (set_samep a q h) p T \<longleftrightarrow> rep h p T"
  "rep (set_key a k h) p T \<longleftrightarrow> rep h p T"
  by (auto intro!: rep_cong)

lemma rep_None [simp]: "rep h None T \<longleftrightarrow> T = Leaf"
  by (cases T) auto

lemma rep_Some: "rep h (Some a) T \<longleftrightarrow> (\<exists>A B. T = Node A a B \<and> rep h (t_smaller h a) A \<and> rep h (t_larger h a) B)"
  by (cases T) auto

text \<open>
  The left tree of the loop is a path from \<open>N\<close> to \<open>l\<close> along \<open>larger\<close>, latest node first, each
  with its smaller subtree; the right tree likewise.
\<close>

fun lrep :: "tmem \<Rightarrow> nat \<Rightarrow> (nat tree \<times> nat) list \<Rightarrow> nat \<Rightarrow> bool" where
  "lrep h N [] l \<longleftrightarrow> l = N"
| "lrep h N ((A, a) # ls) l \<longleftrightarrow> l = a \<and> rep h (t_smaller h a) A \<and> (\<exists>l'. lrep h N ls l' \<and> t_larger h l' = Some a)"

fun rrep :: "tmem \<Rightarrow> nat \<Rightarrow> (nat \<times> nat tree) list \<Rightarrow> nat \<Rightarrow> bool" where
  "rrep h N [] r \<longleftrightarrow> r = N"
| "rrep h N ((b, B) # rs) r \<longleftrightarrow> r = b \<and> rep h (t_larger h b) B \<and> (\<exists>r'. rrep h N rs r' \<and> t_smaller h r' = Some b)"

fun lin :: "(nat tree \<times> nat) list \<Rightarrow> nat list" where
  "lin [] = []"
| "lin ((A, a) # ls) = lin ls @ inorder A @ [a]"

fun rin :: "(nat \<times> nat tree) list \<Rightarrow> nat list" where
  "rin [] = []"
| "rin ((b, B) # rs) = b # inorder B @ rin rs"

lemma lrep_mem: "lrep h N ls l \<Longrightarrow> l = N \<or> l \<in> set (lin ls)"
  by (cases ls) auto

lemma rrep_mem: "rrep h N rs r \<Longrightarrow> r = N \<or> r \<in> set (rin rs)"
  by (cases rs) auto

lemma set_inorder_tree [simp]: "set (inorder T) = set_tree T"
  by (induction T) auto

lemma lrep_set_smaller: "x \<notin> set (lin ls) \<Longrightarrow> lrep (set_smaller x q h) N ls l \<longleftrightarrow> lrep h N ls l"
  by (induction ls arbitrary: l) auto

lemma lrep_set_larger: "x \<notin> set (lin ls) \<Longrightarrow> x \<noteq> N \<Longrightarrow> lrep (set_larger x q h) N ls l \<longleftrightarrow> lrep h N ls l"
proof (induction ls arbitrary: l)
  case (Cons f ls)
  obtain A a where f: "f = (A, a)" by fastforce
  have "\<And>l'. lrep h N ls l' \<Longrightarrow> l' \<noteq> x" using lrep_mem Cons.prems f by fastforce
  then show ?case using Cons f by auto
qed auto

lemma lrep_set_end: "distinct (N # lin ls) \<Longrightarrow> lrep h N ls l \<Longrightarrow> lrep (set_larger l q h) N ls l"
proof (cases ls)
  case (Cons f ls')
  obtain A a where f: "f = (A, a)" by fastforce
  assume d: "distinct (N # lin ls)" and l: "lrep h N ls l"
  then have "l = a" by (simp add: Cons f)
  obtain l' where l': "lrep h N ls' l'" "t_larger h l' = Some a" using l by (auto simp: Cons f)
  then have "l' \<noteq> a" using d lrep_mem [OF l'(1)] by (auto simp: Cons f)
  with d l l' \<open>l = a\<close> show ?thesis by (auto simp: Cons f lrep_set_larger)
qed simp

lemma rrep_set_larger: "x \<notin> set (rin rs) \<Longrightarrow> rrep (set_larger x q h) N rs r \<longleftrightarrow> rrep h N rs r"
  by (induction rs arbitrary: r) auto

lemma rrep_set_smaller: "x \<notin> set (rin rs) \<Longrightarrow> x \<noteq> N \<Longrightarrow> rrep (set_smaller x q h) N rs r \<longleftrightarrow> rrep h N rs r"
proof (induction rs arbitrary: r)
  case (Cons f rs)
  obtain b B where f: "f = (b, B)" by fastforce
  have "\<And>r'. rrep h N rs r' \<Longrightarrow> r' \<noteq> x" using rrep_mem Cons.prems f by fastforce
  then show ?case using Cons f by auto
qed auto

lemma rrep_set_end: "distinct (N # rin rs) \<Longrightarrow> rrep h N rs r \<Longrightarrow> rrep (set_smaller r q h) N rs r"
proof (cases rs)
  case (Cons f rs')
  obtain b B where f: "f = (b, B)" by fastforce
  assume d: "distinct (N # rin rs)" and r: "rrep h N rs r"
  then have "r = b" by (simp add: Cons f)
  obtain r' where r': "rrep h N rs' r'" "t_smaller h r' = Some b" using r by (auto simp: Cons f)
  then have "r' \<noteq> b" using d rrep_mem [OF r'(1)] by (auto simp: Cons f)
  with d r r' \<open>r = b\<close> show ?thesis by (auto simp: Cons f rrep_set_smaller)
qed simp

section \<open>The loop\<close>

text \<open>The three trees of the loop and their elements in order, \<open>W\<close>.\<close>

definition split_at :: "tmem \<Rightarrow> nat \<Rightarrow> nat list \<Rightarrow> nat tree \<Rightarrow> ptr \<Rightarrow>
    (nat tree \<times> nat) list \<Rightarrow> nat \<Rightarrow> (nat \<times> nat tree) list \<Rightarrow> nat \<Rightarrow> bool" where
  "split_at h N W T t ls l rs r \<longleftrightarrow>
    rep h t T \<and> lrep h N ls l \<and> rrep h N rs r \<and> lin ls @ inorder T @ rin rs = W \<and> distinct (N # W)"

lemma split_ends:
  assumes "split_at h N W T t ls l rs r"
  shows "l \<in> set (N # W)" "r \<in> set (N # W)"
  using assms lrep_mem [of h N ls l] rrep_mem [of h N rs r] by (auto simp: split_at_def)

lemma rotate_smaller:
  assumes "split_at h N W (Node (Node A y B) t C) (Some t) ls l rs r"
  shows "split_at (set_larger y (Some t) (set_smaller t (t_larger h y) h)) N W
    (Node A y (Node B t C)) (Some y) ls l rs r"
  using assms by (auto simp: split_at_def lrep_set_larger lrep_set_smaller rrep_set_larger rrep_set_smaller)

lemma rotate_larger:
  assumes "split_at h N W (Node A t (Node B y C)) (Some t) ls l rs r"
  shows "split_at (set_smaller y (Some t) (set_larger t (t_smaller h y) h)) N W
    (Node (Node A t B) y C) (Some y) ls l rs r"
  using assms by (auto simp: split_at_def lrep_set_larger lrep_set_smaller rrep_set_larger rrep_set_smaller)

lemma link_smaller:
  assumes "split_at h N W (Node A t B) (Some t) ls l rs r"
  shows "split_at (set_smaller r (Some t) h) N W A (t_smaller h t) ls l ((t, B) # rs) t"
    and "t_smaller (set_smaller r (Some t) h) t = t_smaller h t"
proof -
  have r: "r = N \<or> r \<in> set (rin rs)" using assms rrep_mem by (auto simp: split_at_def)
  then have "r \<noteq> t" "r \<notin> set_tree A" "r \<notin> set_tree B" "r \<notin> set (lin ls)"
    using assms by (auto simp: split_at_def)
  moreover have "rrep (set_smaller r (Some t) h) N rs r"
    by (rule rrep_set_end) (use assms in \<open>auto simp: split_at_def\<close>)
  ultimately show "split_at (set_smaller r (Some t) h) N W A (t_smaller h t) ls l ((t, B) # rs) t"
    using assms by (auto simp: split_at_def lrep_set_smaller intro!: exI [of _ r])
  show "t_smaller (set_smaller r (Some t) h) t = t_smaller h t" using \<open>r \<noteq> t\<close> by simp
qed

lemma link_larger:
  assumes "split_at h N W (Node A t B) (Some t) ls l rs r"
  shows "split_at (set_larger l (Some t) h) N W B (t_larger h t) ((A, t) # ls) t rs r"
    and "t_larger (set_larger l (Some t) h) t = t_larger h t"
proof -
  have r: "l = N \<or> l \<in> set (lin ls)" using assms lrep_mem by (auto simp: split_at_def)
  then have "l \<noteq> t" "l \<notin> set_tree A" "l \<notin> set_tree B" "l \<notin> set (rin rs)"
    using assms by (auto simp: split_at_def)
  moreover have "lrep (set_larger l (Some t) h) N ls l"
    by (rule lrep_set_end) (use assms in \<open>auto simp: split_at_def\<close>)
  ultimately show "split_at (set_larger l (Some t) h) N W B (t_larger h t) ((A, t) # ls) t rs r"
    using assms by (auto simp: split_at_def rrep_set_larger intro!: exI [of _ l])
  show "t_larger (set_larger l (Some t) h) t = t_larger h t" using \<open>l \<noteq> t\<close> by simp
qed

definition unchanged :: "nat set \<Rightarrow> tmem \<Rightarrow> tmem \<Rightarrow> bool" where
  "unchanged X h h' \<longleftrightarrow> t_key h' = t_key h \<and> t_samen h' = t_samen h \<and> t_samep h' = t_samep h \<and>
    (\<forall>a. a \<notin> X \<longrightarrow> t_smaller h' a = t_smaller h a \<and> t_larger h' a = t_larger h a)"

lemma unchanged_refl: "unchanged X h h"
  by (simp add: unchanged_def)

lemma unchanged_trans: "unchanged X h h' \<Longrightarrow> unchanged X h' h'' \<Longrightarrow> unchanged X h h''"
  by (simp add: unchanged_def)

lemma unchanged_set:
  "a \<in> X \<Longrightarrow> unchanged X h h' \<Longrightarrow> unchanged X h (set_smaller a p h')"
  "a \<in> X \<Longrightarrow> unchanged X h h' \<Longrightarrow> unchanged X h (set_larger a p h')"
  by (auto simp: unchanged_def)

abbreviation ordered :: "tmem \<Rightarrow> nat list \<Rightarrow> bool" where
  "ordered h W \<equiv> sorted_wrt (\<lambda>a b. t_key h a < t_key h b) W"

lemma split_ordered:
  assumes "split_at h N W (Node A t B) p ls l rs r" and "ordered h W"
  shows "a \<in> set_tree A \<Longrightarrow> t_key h a < t_key h t" "b \<in> set_tree B \<Longrightarrow> t_key h t < t_key h b"
    "a \<in> set_tree A \<Longrightarrow> b \<in> set_tree B \<Longrightarrow> t_key h a < t_key h b"
proof -
  have "W = lin ls @ (inorder A @ t # inorder B) @ rin rs" using assms(1) by (simp add: split_at_def)
  with assms(2) have "ordered h (inorder A @ t # inorder B)" by (simp add: sorted_wrt_append)
  then show "a \<in> set_tree A \<Longrightarrow> t_key h a < t_key h t" "b \<in> set_tree B \<Longrightarrow> t_key h t < t_key h b"
    "a \<in> set_tree A \<Longrightarrow> b \<in> set_tree B \<Longrightarrow> t_key h a < t_key h b"
    by (auto simp: sorted_wrt_append)
qed

text \<open>The state in which the loop stops.\<close>

definition stopped :: "curltime \<Rightarrow> tmem \<Rightarrow> nat \<Rightarrow> nat list \<Rightarrow> tmem \<times> nat \<times> nat \<times> nat \<Rightarrow> bool" where
  "stopped i h N W res \<longleftrightarrow> (case res of (h', t, l, r) \<Rightarrow>
    \<exists>A B ls rs. split_at h' N W (Node A t B) (Some t) ls l rs r \<and> unchanged (set (N # W)) h h' \<and>
      (\<forall>a \<in> set (lin ls). t_key h a < i) \<and> (\<forall>b \<in> set (rin rs). i < t_key h b) \<and>
      (t_key h t = i \<or> i < t_key h t \<and> A = Leaf \<or> t_key h t < i \<and> B = Leaf))"

lemma stopped_trans: "unchanged (set (N # W)) h h' \<Longrightarrow> stopped i h' N W res \<Longrightarrow> stopped i h N W res"
  unfolding stopped_def by (auto simp: unchanged_def split: prod.splits)

lemma stoppedI:
  assumes "split_at h' N W (Node A t B) (Some t) ls l rs r" "unchanged (set (N # W)) h h'"
    "\<forall>a \<in> set (lin ls). t_key h a < i" "\<forall>b \<in> set (rin rs). i < t_key h b"
    "t_key h t = i \<or> i < t_key h t \<and> A = Leaf \<or> t_key h t < i \<and> B = Leaf"
  shows "stopped i h N W (h', t, l, r)"
  unfolding stopped_def using assms by blast

lemma splay_loop_stops:
  assumes "split_at h N W T (Some t) ls l rs r" "ordered h W" "size T \<le> fuel"
    "\<forall>a \<in> set (lin ls). t_key h a < i" "\<forall>b \<in> set (rin rs). i < t_key h b"
  shows "\<exists>res. splay_loop fuel i h (Some t) l r = Inr res \<and> stopped i h N W res"
  using assms
proof (induction fuel arbitrary: h T t ls l rs r)
  case 0
  then show ?case by (auto simp: split_at_def rep_Some)
next
  case (Suc fuel)
  note sp = Suc.prems(1) and ord = Suc.prems(2) and lo = Suc.prems(4) and hi = Suc.prems(5)
  obtain A B where T: "T = Node A t B" using sp by (auto simp: split_at_def rep_Some)
  note sp = sp [unfolded T]
  have rt: "rep h (t_smaller h t) A" "rep h (t_larger h t) B" using sp by (auto simp: split_at_def)
  have X: "t \<in> set (N # W)" "\<And>a. a \<in> set_tree A \<union> set_tree B \<Longrightarrow> a \<in> set (N # W)" "r \<in> set (N # W)" "l \<in> set (N # W)"
    using sp split_ends [OF sp] by (auto simp: split_at_def)
  note so = split_ordered [OF sp ord]
  consider "t_key h t = i" | "i < t_key h t" | "t_key h t < i" by (metis linorder_less_linear)
  then show ?case
  proof cases
    case 1
    then show ?thesis using sp lo hi unchanged_refl by (auto intro!: stoppedI)
  next
    case 2
    have hiB: "\<And>b. b \<in> set_tree B \<Longrightarrow> i < t_key h b" using so(2) 2 by (blast intro: less_trans)
    show ?thesis
    proof (cases A)
      case Leaf
      then show ?thesis using 2 sp lo hi unchanged_refl rt by (auto intro!: stoppedI)
    next
      case (Node A1 s A2)
      then have s: "t_smaller h t = Some s" using rt by simp
      show ?thesis
      proof (cases "i < t_key h s")
        case False
        let ?h = "set_smaller r (Some t) h"
        have u: "unchanged (set (N # W)) h ?h" using X by (intro unchanged_set unchanged_refl)
        note li = link_smaller [OF sp]
        have "\<exists>res. splay_loop fuel i ?h (Some s) l t = Inr res \<and> stopped i ?h N W res"
          by (rule Suc.IH [OF li(1) [unfolded s]]) (use Suc.prems(3) T hiB 2 lo hi ord in auto)
        then show ?thesis using 2 False s li(2) stopped_trans [OF u] by (auto simp: Let_def)
      next
        case True
        let ?h = "set_larger s (Some t) (set_smaller t (t_larger h s) h)"
        note ro = rotate_smaller [OF sp [unfolded Node]]
        have u: "unchanged (set (N # W)) h ?h" using X Node by (intro unchanged_set unchanged_refl) auto
        have rs: "rep ?h (t_smaller ?h s) A1" using ro by (auto simp: split_at_def)
        have hiR: "\<And>b. b \<in> set_tree (Node A2 t B) \<Longrightarrow> i < t_key h b"
          using split_ordered(2) [OF ro] ord True by (auto intro: less_trans)
        show ?thesis
        proof (cases A1)
          case Leaf
          then have "stopped i h N W (?h, s, l, r)"
            using ro lo hi True by (intro stoppedI [OF _ u]) auto
          then show ?thesis using 2 True s rs Leaf by (auto simp: Let_def)
        next
          case n: (Node A3 s' A4)
          then have s': "t_smaller ?h s = Some s'" using rs by auto
          note li = link_smaller [OF ro]
          have u': "unchanged (set (N # W)) h (set_smaller r (Some s) ?h)"
            by (rule unchanged_set(1) [OF split_ends(2) [OF ro] u])
          have "\<exists>res. splay_loop fuel i (set_smaller r (Some s) ?h) (Some s') l s = Inr res \<and>
              stopped i (set_smaller r (Some s) ?h) N W res"
            by (rule Suc.IH [OF li(1) [unfolded s']]) (use Suc.prems(3) T Node hiR True lo hi ord n in auto)
          then show ?thesis using 2 True s s' li(2) stopped_trans [OF u'] by (auto simp: Let_def)
        qed
      qed
    qed
  next
    case 3
    have loA: "\<And>a. a \<in> set_tree A \<Longrightarrow> t_key h a < i" using so(1) 3 by (blast intro: less_trans)
    show ?thesis
    proof (cases B)
      case Leaf
      then show ?thesis using 3 sp lo hi unchanged_refl rt by (auto intro!: stoppedI)
    next
      case (Node B1 s B2)
      then have s: "t_larger h t = Some s" using rt by simp
      show ?thesis
      proof (cases "t_key h s < i")
        case False
        let ?h = "set_larger l (Some t) h"
        have u: "unchanged (set (N # W)) h ?h" using X by (intro unchanged_set unchanged_refl)
        note li = link_larger [OF sp]
        have "\<exists>res. splay_loop fuel i ?h (Some s) t r = Inr res \<and> stopped i ?h N W res"
          by (rule Suc.IH [OF li(1) [unfolded s]]) (use Suc.prems(3) T loA 3 lo hi ord in auto)
        then show ?thesis using 3 False s li(2) stopped_trans [OF u] by (auto simp: Let_def)
      next
        case True
        let ?h = "set_smaller s (Some t) (set_larger t (t_smaller h s) h)"
        note ro = rotate_larger [OF sp [unfolded Node]]
        have u: "unchanged (set (N # W)) h ?h" using X Node by (intro unchanged_set unchanged_refl) auto
        have rs: "rep ?h (t_larger ?h s) B2" using ro by (auto simp: split_at_def)
        have loL: "\<And>a. a \<in> set_tree (Node A t B1) \<Longrightarrow> t_key h a < i"
          using split_ordered(1) [OF ro] ord True by (auto intro: less_trans)
        show ?thesis
        proof (cases B2)
          case Leaf
          then have "stopped i h N W (?h, s, l, r)"
            using ro lo hi True by (intro stoppedI [OF _ u]) auto
          then show ?thesis using 3 True s rs Leaf by (auto simp: Let_def)
        next
          case n: (Node B3 s' B4)
          then have s': "t_larger ?h s = Some s'" using rs by auto
          note li = link_larger [OF ro]
          have u': "unchanged (set (N # W)) h (set_larger l (Some s) ?h)"
            by (rule unchanged_set(2) [OF split_ends(1) [OF ro] u])
          have "\<exists>res. splay_loop fuel i (set_larger l (Some s) ?h) (Some s') s r = Inr res \<and>
              stopped i (set_larger l (Some s) ?h) N W res"
            by (rule Suc.IH [OF li(1) [unfolded s']]) (use Suc.prems(3) T Node loL True lo hi ord n in auto)
          then show ?thesis using 3 True s s' li(2) stopped_trans [OF u'] by (auto simp: Let_def)
        qed
      qed
    qed
  qed
qed

section \<open>Assembling the result\<close>

fun lplug :: "(nat tree \<times> nat) list \<Rightarrow> nat tree \<Rightarrow> nat tree" where
  "lplug [] T = T"
| "lplug ((A, a) # ls) T = lplug ls (Node A a T)"

fun rplug :: "(nat \<times> nat tree) list \<Rightarrow> nat tree \<Rightarrow> nat tree" where
  "rplug [] T = T"
| "rplug ((b, B) # rs) T = rplug rs (Node T b B)"

lemma inorder_lplug [simp]: "inorder (lplug ls T) = lin ls @ inorder T"
  by (induction ls T rule: lplug.induct) simp_all

lemma inorder_rplug [simp]: "inorder (rplug rs T) = inorder T @ rin rs"
  by (induction rs T rule: rplug.induct) simp_all

lemma set_plug [simp]:
  "set_tree (lplug ls T) = set (lin ls) \<union> set_tree T"
  "set_tree (rplug rs T) = set_tree T \<union> set (rin rs)"
  by (metis inorder_lplug set_append set_inorder_tree) (metis inorder_rplug set_append set_inorder_tree)

lemma lrep_plug: "lrep h N ls l \<Longrightarrow> rep h (t_larger h l) T \<Longrightarrow> rep h (t_larger h N) (lplug ls T)"
  by (induction ls T arbitrary: l rule: lplug.induct) auto

lemma rrep_plug: "rrep h N rs r \<Longrightarrow> rep h (t_smaller h r) T \<Longrightarrow> rep h (t_smaller h N) (rplug rs T)"
  by (induction rs T arbitrary: r rule: rplug.induct) auto

lemma assemble:
  assumes "split_at h N W (Node A t B) (Some t) ls l rs r"
  defines "h1 \<equiv> set_larger l (t_smaller h t) h"
  defines "h2 \<equiv> set_smaller r (t_larger h1 t) h1"
  defines "h3 \<equiv> set_smaller t (t_larger h2 N) h2"
  defines "h4 \<equiv> set_larger t (t_smaller h3 N) h3"
  shows "rep h4 (Some t) (Node (lplug ls A) t (rplug rs B))" "unchanged (set (N # W)) h h4"
proof -
  have d: "distinct (N # W)" and W: "W = lin ls @ inorder A @ t # inorder B @ rin rs"
    and rp: "rep h (t_smaller h t) A" "rep h (t_larger h t) B" and lr: "lrep h N ls l" "rrep h N rs r"
    using assms(1) by (auto simp: split_at_def)
  have l: "l = N \<or> l \<in> set (lin ls)" and r: "r = N \<or> r \<in> set (rin rs)"
    using lrep_mem [OF lr(1)] rrep_mem [OF lr(2)] by auto
  have lt: "l \<noteq> t" "r \<noteq> t" "N \<noteq> t" using l r d W by auto
  have la: "l \<notin> set_tree A \<union> set_tree B \<union> set (rin rs)" and ra: "r \<notin> set_tree A \<union> set_tree B \<union> set (lin ls)"
    using l r d W by auto
  have L1: "lrep h1 N ls l" unfolding h1_def by (rule lrep_set_end) (use d W lr in auto)
  have R1: "rrep h1 N rs r" unfolding h1_def using la by (simp add: rrep_set_larger lr)
  have R2: "rrep h2 N rs r" unfolding h2_def by (rule rrep_set_end) (use d W R1 in auto)
  have L2: "lrep h2 N ls l" unfolding h2_def using ra by (simp add: lrep_set_smaller L1)
  have "rep h2 (t_larger h2 l) A" "rep h2 (t_smaller h2 r) B"
    using rp la ra lt by (simp_all add: h2_def h1_def)
  then have P: "rep h2 (t_larger h2 N) (lplug ls A)" "rep h2 (t_smaller h2 N) (rplug rs B)"
    using lrep_plug [OF L2] rrep_plug [OF R2] by auto
  have "t \<notin> set_tree (lplug ls A)" "t \<notin> set_tree (rplug rs B)"
    using d W by auto
  with P lt show "rep h4 (Some t) (Node (lplug ls A) t (rplug rs B))"
    by (simp add: h4_def h3_def)
  show "unchanged (set (N # W)) h h4"
    unfolding h4_def h3_def h2_def h1_def
    using split_ends [OF assms(1)] W by (intro unchanged_set unchanged_refl) auto
qed

text \<open>
  Splaying keeps the order of the nodes and brings to the root a node that divides the others at
  the key.
\<close>

lemma splay_divides:
  assumes "rep h (Some p) T" "distinct (N # inorder T)" "ordered h (inorder T)" "size T \<le> fuel"
  obtains h' t A B where "Curl_splay fuel N i h (Some p) = Inr (h', Some t)" "rep h' (Some t) (Node A t B)"
    "inorder A @ t # inorder B = inorder T" "unchanged (set (N # inorder T)) h h'"
    "\<And>a. a \<in> set_tree A \<Longrightarrow> t_key h a < i" "\<And>b. b \<in> set_tree B \<Longrightarrow> i < t_key h b"
proof -
  let ?h = "set_smaller N None (set_larger N None h)"
  have u0: "unchanged (set (N # inorder T)) h ?h" by (intro unchanged_set unchanged_refl) auto
  have key0: "t_key ?h = t_key h" by simp
  have sp: "split_at ?h N (inorder T) T (Some p) [] N [] N" using assms by (auto simp: split_at_def)
  have "\<exists>res. splay_loop fuel i ?h (Some p) N N = Inr res \<and> stopped i ?h N (inorder T) res"
    by (rule splay_loop_stops [OF sp]) (use assms in simp_all)
  then obtain h' t l r A B ls rs where run: "splay_loop fuel i ?h (Some p) N N = Inr (h', t, l, r)"
    and st: "split_at h' N (inorder T) (Node A t B) (Some t) ls l rs r" "unchanged (set (N # inorder T)) ?h h'"
      "\<forall>a \<in> set (lin ls). t_key h a < i" "\<forall>b \<in> set (rin rs). i < t_key h b"
      "t_key h t = i \<or> i < t_key h t \<and> A = Leaf \<or> t_key h t < i \<and> B = Leaf"
    unfolding stopped_def by fastforce
  have key: "t_key h' = t_key h" using st(2) by (simp add: unchanged_def)
  have so: "\<And>a. a \<in> set_tree A \<Longrightarrow> t_key h a < t_key h t" "\<And>b. b \<in> set_tree B \<Longrightarrow> t_key h t < t_key h b"
    using split_ordered [OF st(1)] assms(3) by (simp_all add: key)
  define h1 where "h1 = set_larger l (t_smaller h' t) h'"
  define h2 where "h2 = set_smaller r (t_larger h1 t) h1"
  define h3 where "h3 = set_smaller t (t_larger h2 N) h2"
  define h4 where "h4 = set_larger t (t_smaller h3 N) h3"
  note as = assemble [OF st(1), folded h1_def, folded h2_def, folded h3_def, folded h4_def]
  show thesis
  proof (rule that [of h4 t "lplug ls A" "rplug rs B"])
    show "Curl_splay fuel N i h (Some p) = Inr (h4, Some t)"
      by (simp add: Curl_splay_def run Let_def h4_def h3_def h2_def h1_def)
    show "rep h4 (Some t) (Node (lplug ls A) t (rplug rs B))" by (rule as)
    show "inorder (lplug ls A) @ t # inorder (rplug rs B) = inorder T" using st(1) by (simp add: split_at_def)
    show "unchanged (set (N # inorder T)) h h4"
      by (rule unchanged_trans [OF u0 unchanged_trans [OF st(2) as(2)]])
    show "t_key h a < i" if "a \<in> set_tree (lplug ls A)" for a
      using that st(3,5) so(1) [of a] by (auto intro: less_trans)
    show "i < t_key h b" if "b \<in> set_tree (rplug rs B)" for b
      using that st(4,5) so(2) [of b] by (auto intro: less_trans)
  qed
qed

end
