(* ===== verification/Splay_Correct.thy ===== *)
theory Splay_Correct
  imports Splay_Loop
begin

text \<open>
  The tree as a queue of timers. A node of the tree heads a circular list of the nodes with its
  key, so tree and lists represent a queue sorted by time and, for the same time, in the order of
  insertion. The operations refine those of the queue.
\<close>

section \<open>Circular lists\<close>

fun schain :: "tmem \<Rightarrow> nat \<Rightarrow> nat list \<Rightarrow> nat \<Rightarrow> bool" where
  "schain h p [] q \<longleftrightarrow> t_samen h p = Some q \<and> t_samep h q = Some p"
| "schain h p (x # xs) q \<longleftrightarrow> t_samen h p = Some x \<and> t_samep h x = Some p \<and> schain h x xs q"

lemma schain_cong:
  "(\<And>a. a \<in> set (p # xs) \<Longrightarrow> t_samen h a = t_samen h' a) \<Longrightarrow> (\<And>a. a \<in> set (xs @ [q]) \<Longrightarrow> t_samep h a = t_samep h' a) \<Longrightarrow>
    schain h p xs q \<longleftrightarrow> schain h' p xs q"
  by (induction xs arbitrary: p) auto

lemma schain_other [simp]:
  "schain (set_smaller a r h) p xs q \<longleftrightarrow> schain h p xs q"
  "schain (set_larger a r h) p xs q \<longleftrightarrow> schain h p xs q"
  "schain (set_key a k h) p xs q \<longleftrightarrow> schain h p xs q"
  "a \<notin> set (p # xs) \<Longrightarrow> schain (set_samen a r h) p xs q \<longleftrightarrow> schain h p xs q"
  "a \<notin> set (xs @ [q]) \<Longrightarrow> schain (set_samep a r h) p xs q \<longleftrightarrow> schain h p xs q"
  by (auto intro!: schain_cong)

lemma schain_append [simp]: "schain h p (us @ n # vs) q \<longleftrightarrow> schain h p us n \<and> schain h n vs q"
  by (induction us arbitrary: p) auto

lemma schain_last: "schain h p xs q \<Longrightarrow> t_samep h q = Some (last (p # xs)) \<and> t_samen h (last (p # xs)) = Some q"
  by (induction xs arbitrary: p) auto

text \<open>Redirecting the end of a chain.\<close>

lemma schain_redirect:
  assumes "schain h p xs q" "distinct (p # xs)" "z \<notin> set xs"
  shows "schain (set_samen (last (p # xs)) (Some z) (set_samep z (Some (last (p # xs))) h)) p xs z"
  using assms by (induction xs arbitrary: p) auto

section \<open>The queue\<close>

definition group :: "tmem \<Rightarrow> (nat \<Rightarrow> nat list) \<Rightarrow> nat \<Rightarrow> (curltime \<times> nat) list" where
  "group h S a = map (Pair (t_key h a)) (a # S a)"

definition elems :: "tmem \<Rightarrow> (nat \<Rightarrow> nat list) \<Rightarrow> nat list \<Rightarrow> (curltime \<times> nat) list" where
  "elems h S W = concat (map (group h S) W)"

definition members :: "(nat \<Rightarrow> nat list) \<Rightarrow> nat list \<Rightarrow> nat list" where
  "members S W = concat (map (\<lambda>a. a # S a) W)"

lemma elems_simps [simp]:
  "elems h S [] = []" "elems h S (a # W) = group h S a @ elems h S W" "elems h S (U @ W) = elems h S U @ elems h S W"
  by (simp_all add: elems_def)

lemma members_simps [simp]:
  "members S [] = []" "members S (a # W) = a # S a @ members S W" "members S (U @ W) = members S U @ members S W"
  by (simp_all add: members_def)

lemma members_elems: "map snd (elems h S W) = members S W"
  by (induction W) (simp_all add: group_def comp_def)

lemma set_members: "set W \<subseteq> set (members S W)"
  by (induction W) auto

lemma distinct_members: "distinct (members S W) \<Longrightarrow> distinct W"
  by (induction W) (use set_members in auto)

definition node_ok :: "tmem \<Rightarrow> (nat \<Rightarrow> nat list) \<Rightarrow> nat \<Rightarrow> bool" where
  "node_ok h S a \<longleftrightarrow> schain h a (S a) a \<and> tv_zero \<le> t_key h a \<and> (\<forall>x \<in> set (S a). t_key h x = KEY_NOTUSED)"

definition nodes_ok :: "tmem \<Rightarrow> nat \<Rightarrow> (nat \<Rightarrow> nat list) \<Rightarrow> nat list \<Rightarrow> bool" where
  "nodes_ok h N S W \<longleftrightarrow> ordered h W \<and> distinct (N # members S W) \<and> (\<forall>a \<in> set W. node_ok h S a)"

definition timer_tree :: "tmem \<Rightarrow> nat \<Rightarrow> ptr \<Rightarrow> nat tree \<Rightarrow> (nat \<Rightarrow> nat list) \<Rightarrow> bool" where
  "timer_tree h N p T S \<longleftrightarrow> rep h p T \<and> nodes_ok h N S (inorder T)"

definition timers :: "tmem \<Rightarrow> nat \<Rightarrow> ptr \<Rightarrow> (curltime \<times> nat) list \<Rightarrow> bool" where
  "timers h N p q \<longleftrightarrow> (\<exists>T S. timer_tree h N p T S \<and> q = elems h S (inorder T))"

lemma timersI: "rep h p T \<Longrightarrow> nodes_ok h N S (inorder T) \<Longrightarrow> q = elems h S (inorder T) \<Longrightarrow> timers h N p q"
  by (auto simp: timers_def timer_tree_def)

text \<open>Only keys and lists of the members matter.\<close>

lemma node_ok_cong:
  assumes "S a = S' a" "\<And>x. x \<in> set (a # S a) \<Longrightarrow> t_key h x = t_key h' x \<and> t_samen h x = t_samen h' x \<and> t_samep h x = t_samep h' x"
  shows "node_ok h S a \<longleftrightarrow> node_ok h' S' a" "group h S a = group h' S' a"
proof -
  have "schain h a (S a) a \<longleftrightarrow> schain h' a (S a) a" by (rule schain_cong) (use assms(2) in auto)
  then show "node_ok h S a \<longleftrightarrow> node_ok h' S' a" "group h S a = group h' S' a"
    using assms by (auto simp: node_ok_def group_def)
qed

lemma elems_cong:
  assumes "\<And>a. a \<in> set W \<Longrightarrow> S a = S' a \<and> (\<forall>x \<in> set (a # S a). t_key h x = t_key h' x \<and> t_samen h x = t_samen h' x \<and> t_samep h x = t_samep h' x)"
  shows "elems h S W = elems h' S' W" "members S W = members S' W"
    "(\<forall>a \<in> set W. node_ok h S a) \<longleftrightarrow> (\<forall>a \<in> set W. node_ok h' S' a)" "ordered h W \<longleftrightarrow> ordered h' W"
proof -
  have n: "node_ok h S a \<longleftrightarrow> node_ok h' S' a" "group h S a = group h' S' a" if "a \<in> set W" for a
    using node_ok_cong [of S a S' h h'] assms [OF that] by blast+
  show "elems h S W = elems h' S' W" "(\<forall>a \<in> set W. node_ok h S a) \<longleftrightarrow> (\<forall>a \<in> set W. node_ok h' S' a)"
    using n by (auto simp: elems_def intro!: arg_cong [where f = concat])
  show "members S W = members S' W"
    using assms by (auto simp: members_def intro!: arg_cong [where f = concat])
  have k: "\<And>a. a \<in> set W \<Longrightarrow> t_key h a = t_key h' a" using assms by simp
  show "ordered h W \<longleftrightarrow> ordered h' W"
    using k by (induction W) auto
qed

lemma nodes_ok_append:
  "nodes_ok h N S (U @ t # V) \<longleftrightarrow> nodes_ok h N S U \<and> nodes_ok h N S V \<and> node_ok h S t \<and> distinct (N # t # S t) \<and>
    set (members S U) \<inter> set (t # S t @ members S V) = {} \<and> set (t # S t) \<inter> set (members S V) = {} \<and>
    (\<forall>a \<in> set U. t_key h a < t_key h t) \<and> (\<forall>b \<in> set V. t_key h t < t_key h b) \<and>
    (\<forall>a \<in> set U. \<forall>b \<in> set V. t_key h a < t_key h b)"
  by (auto simp: nodes_ok_def sorted_wrt_append)

lemma nodes_ok_unchanged: "unchanged X h h' \<Longrightarrow> nodes_ok h' N S W \<longleftrightarrow> nodes_ok h N S W"
  "unchanged X h h' \<Longrightarrow> elems h' S W = elems h S W"
proof -
  assume u: "unchanged X h h'"
  have *: "\<And>a. a \<in> set W \<Longrightarrow> S a = S a \<and> (\<forall>x \<in> set (a # S a). t_key h' x = t_key h x \<and> t_samen h' x = t_samen h x \<and> t_samep h' x = t_samep h x)"
    using u by (simp add: unchanged_def)
  note e = elems_cong [of W S S h' h, OF *]
  show "nodes_ok h' N S W \<longleftrightarrow> nodes_ok h N S W" "elems h' S W = elems h S W"
    using e by (simp_all add: nodes_ok_def)
qed

text \<open>What splaying makes of a queue.\<close>

lemma splay_timers:
  assumes "timer_tree h N (Some p) T S" "size T \<le> fuel"
  obtains h' t A B where "Curl_splay fuel N i h (Some p) = Inr (h', Some t)"
    "timer_tree h' N (Some t) (Node A t B) S" "inorder T = inorder A @ t # inorder B" "elems h S (inorder T) = elems h' S (inorder A @ t # inorder B)"
    "\<And>a. a \<in> set_tree A \<Longrightarrow> t_key h' a < i" "\<And>b. b \<in> set_tree B \<Longrightarrow> i < t_key h' b"
    "t_key h' = t_key h" "t_samen h' = t_samen h" "t_samep h' = t_samep h"
proof -
  have ok: "nodes_ok h N S (inorder T)" and rp: "rep h (Some p) T" using assms(1) by (auto simp: timer_tree_def)
  have d: "distinct (N # inorder T)"
    using ok distinct_members [of S "inorder T"] set_members [of "inorder T" S] by (auto simp: nodes_ok_def)
  obtain h' t A B where s: "Curl_splay fuel N i h (Some p) = Inr (h', Some t)" "rep h' (Some t) (Node A t B)"
    "inorder A @ t # inorder B = inorder T" "unchanged (set (N # inorder T)) h h'"
    "\<And>a. a \<in> set_tree A \<Longrightarrow> t_key h a < i" "\<And>b. b \<in> set_tree B \<Longrightarrow> i < t_key h b"
    by (rule splay_divides [OF rp d _ assms(2), of i]) (use ok in \<open>auto simp: nodes_ok_def\<close>)
  have k: "t_key h' = t_key h" "t_samen h' = t_samen h" "t_samep h' = t_samep h" using s(4) by (simp_all add: unchanged_def)
  show thesis
  proof (rule that [OF s(1)])
    show "timer_tree h' N (Some t) (Node A t B) S"
      using s(2,3) ok nodes_ok_unchanged [OF s(4)] by (simp add: timer_tree_def)
    show "elems h S (inorder T) = elems h' S (inorder A @ t # inorder B)"
      by (simp only: s(3) nodes_ok_unchanged [OF s(4)])
  qed (use s k in auto)
qed

section \<open>Insertion\<close>

definition q_insert :: "curltime \<Rightarrow> nat \<Rightarrow> (curltime \<times> nat) list \<Rightarrow> (curltime \<times> nat) list" where
  "q_insert i n q = takeWhile (\<lambda>(k, _). k \<le> i) q @ (i, n) # dropWhile (\<lambda>(k, _). k \<le> i) q"

lemma q_insert_between:
  assumes "\<And>k a. (k, a) \<in> set us \<Longrightarrow> k \<le> i" "\<And>k a. (k, a) \<in> set vs \<Longrightarrow> i < k"
  shows "q_insert i n (us @ vs) = us @ (i, n) # vs"
proof -
  have "dropWhile (\<lambda>(k, _). k \<le> i) vs = vs" "takeWhile (\<lambda>(k, _). k \<le> i) vs = []"
    using assms(2) by (cases vs; fastforce)+
  then show ?thesis
    using assms(1) by (simp add: q_insert_def takeWhile_append dropWhile_append) (auto simp: takeWhile_eq_all_conv)
qed

lemma elems_key: "(k, a) \<in> set (elems h S W) \<Longrightarrow> \<exists>b \<in> set W. k = t_key h b"
  by (auto simp: elems_def group_def)

text \<open>A new node becomes the root.\<close>

lemma alone_root:
  assumes ok: "nodes_ok h N S (U @ V)" and n: "n \<notin> set (N # members S (U @ V))" and i: "tv_zero \<le> i"
    and U: "\<And>a. a \<in> set U \<Longrightarrow> t_key h a < i" and V: "\<And>b. b \<in> set V \<Longrightarrow> i < t_key h b"
    and T: "rep h (t_smaller h n) A" "rep h (t_larger h n) B" "inorder A = U" "inorder B = V"
  shows "timers (set_samep n (Some n) (set_samen n (Some n) (set_key n i h))) N (Some n) (q_insert i n (elems h S (U @ V)))"
proof -
  let ?h = "set_samep n (Some n) (set_samen n (Some n) (set_key n i h))"
  let ?S = "S(n := [])"
  have nW: "n \<notin> set (U @ V)" using n set_members [of "U @ V" S] by auto
  have same: "S a = ?S a \<and> (\<forall>x \<in> set (a # S a). t_key h x = t_key ?h x \<and> t_samen h x = t_samen ?h x \<and> t_samep h x = t_samep ?h x)"
    if "a \<in> set (U @ V)" for a
  proof -
    have "set (a # S a) \<subseteq> set (members S (U @ V))" using that by (auto simp: members_def)
    then have "n \<notin> set (a # S a)" using n by auto
    then show ?thesis by auto
  qed
  note e = elems_cong [of "U @ V" S ?S h ?h, OF same]
  have eU: "elems h S U = elems ?h ?S U" "members S U = members ?S U" by (rule elems_cong; rule same; simp)+
  have eV: "elems h S V = elems ?h ?S V" "members S V = members ?S V" by (rule elems_cong; rule same; simp)+
  have sU: "\<And>a. a \<in> set U \<Longrightarrow> a \<noteq> n" "\<And>a. a \<in> set V \<Longrightarrow> a \<noteq> n" using nW by auto
  show ?thesis
  proof (rule timersI)
    show "rep ?h (Some n) (Node A n B)"
      using T nW by (auto simp flip: T(3,4))
    have "ordered ?h (U @ n # V)"
      using ok e(4) U V sU by (auto simp: nodes_ok_def sorted_wrt_append)
    moreover have "distinct (N # members ?S (U @ n # V))"
      using ok n by (auto simp: nodes_ok_def eU(2) [symmetric] eV(2) [symmetric])
    moreover have "node_ok ?h ?S a" if "a \<in> set (U @ n # V)" for a
      using that ok e(3) i by (cases "a = n") (auto simp: nodes_ok_def node_ok_def [of _ _ n])
    ultimately show "nodes_ok ?h N ?S (inorder (Node A n B))" by (simp add: nodes_ok_def T(3,4))
    have "q_insert i n (elems h S U @ elems h S V) = elems h S U @ (i, n) # elems h S V"
      by (rule q_insert_between) (use U V elems_key in \<open>fastforce+\<close>)
    then show "q_insert i n (elems h S (U @ V)) = elems ?h ?S (inorder (Node A n B))"
      by (simp add: T(3,4) eU eV group_def)
  qed
qed

text \<open>Changing the list of one node, possibly with another node at its head.\<close>

lemma relist:
  assumes ok: "nodes_ok h N S (U @ t # V)"
    and same: "\<And>x. x \<in> set (members S U) \<union> set (members S V) \<Longrightarrow>
      t_key h' x = t_key h x \<and> t_samen h' x = t_samen h x \<and> t_samep h' x = t_samep h x"
    and S': "\<And>a. a \<in> set U \<union> set V \<Longrightarrow> S' a = S a"
    and new: "node_ok h' S' t'" "t_key h' t' = t_key h t" "distinct (N # t' # S' t')"
      "set (t' # S' t') \<inter> (set (members S U) \<union> set (members S V)) = {}"
  shows "nodes_ok h' N S' (U @ t' # V)"
    "elems h' S' (U @ t' # V) = elems h S U @ map (Pair (t_key h t)) (t' # S' t') @ elems h S V"
proof -
  have other: "S a = S' a \<and> (\<forall>x \<in> set (a # S a). t_key h x = t_key h' x \<and> t_samen h x = t_samen h' x \<and> t_samep h x = t_samep h' x)"
    if a: "a \<in> set (U @ V)" for a
  proof -
    have "set (a # S a) \<subseteq> set (members S U) \<union> set (members S V)" using a by (auto simp: members_def)
    then show ?thesis using same S' a by fastforce
  qed
  have eU: "elems h S U = elems h' S' U" "members S U = members S' U" "(\<forall>a \<in> set U. node_ok h S a) = (\<forall>a \<in> set U. node_ok h' S' a)"
    "ordered h U = ordered h' U" by (rule elems_cong; rule other; simp)+
  have eV: "elems h S V = elems h' S' V" "members S V = members S' V" "(\<forall>a \<in> set V. node_ok h S a) = (\<forall>a \<in> set V. node_ok h' S' a)"
    "ordered h V = ordered h' V" by (rule elems_cong; rule other; simp)+
  note ap = ok [unfolded nodes_ok_append]
  have key: "\<And>a. a \<in> set U \<union> set V \<Longrightarrow> t_key h' a = t_key h a"
    using same set_members [of U S] set_members [of V S] by blast
  have "ordered h' (U @ t' # V)"
    using ap key new(2) eU(4) eV(4) by (simp add: nodes_ok_def sorted_wrt_append)
  moreover have "distinct (N # members S' (U @ t' # V))"
    using ap new(3,4) by (auto simp: nodes_ok_def eU(2) [symmetric] eV(2) [symmetric])
  ultimately show "nodes_ok h' N S' (U @ t' # V)"
    using new(1) eU(3) eV(3) ap by (auto simp: nodes_ok_def)
  show "elems h' S' (U @ t' # V) = elems h S U @ map (Pair (t_key h t)) (t' # S' t') @ elems h S V"
    using new(2) by (simp add: eU(1) eV(1) group_def)
qed

text \<open>A node with the key of the root goes to the end of the list of the root.\<close>

lemma append_to_root:
  assumes ok: "timer_tree h N (Some t) (Node A t B) S" and n: "n \<notin> set (N # members S (inorder A @ t # inorder B))"
    and A: "\<And>a. a \<in> set_tree A \<Longrightarrow> t_key h a < t_key h t" and B: "\<And>b. b \<in> set_tree B \<Longrightarrow> t_key h t < t_key h b"
  defines "h1 \<equiv> set_samep n (t_samep h t) (set_samen n (Some t) (set_key n KEY_NOTUSED h))"
  shows "\<exists>p. t_samep h1 t = Some p \<and> timers (set_samep t (Some n) (set_samen p (Some n) h1)) N (Some t)
    (q_insert (t_key h t) n (elems h S (inorder A @ t # inorder B)))"
proof -
  let ?U = "inorder A" and ?V = "inorder B" and ?p = "last (t # S t)" and ?S = "S(t := S t @ [n])"
  have ch: "schain h t (S t) t" and nok: "nodes_ok h N S (?U @ t # ?V)" and rp: "rep h (Some t) (Node A t B)"
    using ok by (auto simp: timer_tree_def nodes_ok_append node_ok_def)
  note ap = nok [unfolded nodes_ok_append]
  have d: "distinct (t # S t)" and nt: "n \<notin> set (t # S t)" using ap n by auto
  have p: "t_samep h t = Some ?p" "?p \<in> set (t # S t)" using schain_last [OF ch] by (simp, metis last_in_set list.distinct(1))
  let ?h = "set_samep t (Some n) (set_samen ?p (Some n) h1)"
  have "schain (set_samen ?p (Some n) (set_samep n (Some ?p) h)) t (S t) n"
    by (rule schain_redirect [OF ch d]) (use nt in simp)
  then have "schain ?h t (S t) n"
    by (rule iffD1 [OF schain_cong, rotated 2]) (use d nt p in \<open>auto simp: h1_def\<close>)
  moreover have "schain ?h n [] t" using nt p by (auto simp: h1_def)
  moreover have "\<forall>x \<in> set (S t @ [n]). t_key ?h x = KEY_NOTUSED"
    using ap by (auto simp: node_ok_def h1_def)
  ultimately have tok: "node_ok ?h ?S t" using ap nt by (auto simp: node_ok_def h1_def)
  have same: "t_key ?h x = t_key h x \<and> t_samen ?h x = t_samen h x \<and> t_samep ?h x = t_samep h x"
    if "x \<in> set (members S ?U) \<union> set (members S ?V)" for x
  proof -
    have "x \<notin> set (t # n # S t)" using that ap n by auto
    then have "x \<noteq> t" "x \<noteq> n" "x \<noteq> ?p" using p(2) by auto
    then show ?thesis by (simp add: h1_def)
  qed
  have tW: "t \<notin> set ?U \<union> set ?V" using ap set_members [of ?U S] set_members [of ?V S] by auto
  have "nodes_ok ?h N ?S (?U @ t # ?V)"
      "elems ?h ?S (?U @ t # ?V) = elems h S ?U @ map (Pair (t_key h t)) (t # ?S t) @ elems h S ?V"
    by (rule relist [OF nok same _ tok]; use ap n nt tW in \<open>auto simp: h1_def\<close>)+
  moreover have "q_insert (t_key h t) n ((elems h S ?U @ group h S t) @ elems h S ?V) =
      (elems h S ?U @ group h S t) @ (t_key h t, n) # elems h S ?V"
  proof (rule q_insert_between)
    show "k \<le> t_key h t" if "(k, a) \<in> set (elems h S ?U @ group h S t)" for k a
      using that A elems_key [of k a h S ?U] by (fastforce simp: group_def)
    show "t_key h t < k" if "(k, a) \<in> set (elems h S ?V)" for k a
      using that B elems_key [of k a h S ?V] by fastforce
  qed
  ultimately have "timers ?h N (Some t) (q_insert (t_key h t) n (elems h S (?U @ t # ?V)))"
    by (intro timersI [of _ _ "Node A t B" _ ?S]) (use rp in \<open>auto simp: h1_def group_def\<close>)
  then show ?thesis using p nt by (intro exI [of _ ?p]) (auto simp: h1_def)
qed

lemma timers_length: "timer_tree h N p T S \<Longrightarrow> size T \<le> length (elems h S (inorder T))"
proof -
  have "length W \<le> length (elems h S W)" for W by (induction W) (simp_all add: group_def)
  then show ?thesis by (metis length_inorder)
qed

lemma timers_None: "timers h N None q \<longleftrightarrow> q = []"
  by (auto simp: timers_def timer_tree_def nodes_ok_def)

lemma insert_timers:
  assumes "timers h N root q" "n \<notin> set (N # map snd q)" "tv_zero \<le> i" "length q \<le> fuel"
  shows "\<exists>h' p. Curl_splayinsert fuel N i h root (Some n) = Inr (h', p) \<and> timers h' N p (q_insert i n q)"
proof (cases root)
  case None
  let ?h = "set_smaller n None (set_larger n None h)"
  have "q = []" using assms(1) None by (simp add: timers_None)
  have "timers (set_samep n (Some n) (set_samen n (Some n) (set_key n i ?h))) N (Some n)
      (q_insert i n (elems ?h (\<lambda>_. []) ([] @ [])))"
    by (rule alone_root [where A = Leaf and B = Leaf]) (use assms in \<open>auto simp: nodes_ok_def\<close>)
  then show ?thesis using None \<open>q = []\<close> by (simp add: Curl_splayinsert_def Let_def)
next
  case (Some p)
  obtain T S where T: "timer_tree h N (Some p) T S" "q = elems h S (inorder T)"
    using assms(1) Some by (auto simp: timers_def)
  have "size T \<le> fuel" using timers_length [OF T(1)] T(2) assms(4) by simp
  then obtain h' t A B where s: "Curl_splay fuel N i h (Some p) = Inr (h', Some t)"
    "timer_tree h' N (Some t) (Node A t B) S" "inorder T = inorder A @ t # inorder B"
    "elems h S (inorder T) = elems h' S (inorder A @ t # inorder B)"
    "\<And>a. a \<in> set_tree A \<Longrightarrow> t_key h' a < i" "\<And>b. b \<in> set_tree B \<Longrightarrow> i < t_key h' b"
    by (rule splay_timers [OF T(1)]) blast
  have q: "q = elems h' S (inorder A @ t # inorder B)" using T(2) s(4) by simp
  have "map snd q = members S (inorder A @ t # inorder B)" unfolding q by (rule members_elems)
  then have n: "n \<notin> set (N # members S (inorder A @ t # inorder B))"
    using assms(2) by metis
  have ok: "nodes_ok h' N S (inorder A @ t # inorder B)" and rp: "rep h' (Some t) (Node A t B)"
    using s(2) by (auto simp: timer_tree_def)
  have nW: "n \<notin> set (inorder A @ t # inorder B)" using n set_members [of "inorder A @ t # inorder B" S] by auto
  have tW: "t \<notin> set_tree A \<union> set_tree B"
    using ok distinct_members [of S "inorder A @ t # inorder B"] by (auto simp: nodes_ok_def)
  consider "i = t_key h' t" | "i < t_key h' t" | "t_key h' t < i" by (metis linorder_less_linear)
  then show ?thesis
  proof cases
    case 1
    then show ?thesis
      using append_to_root [OF s(2) n] s(5,6) s(1) Some q by (auto simp: Curl_splayinsert_def Let_def)
  next
    case 2
    let ?h = "set_smaller t None (set_larger n (Some t) (set_smaller n (t_smaller h' t) h'))"
    have u: "nodes_ok ?h N S W \<longleftrightarrow> nodes_ok h' N S W" "elems ?h S W = elems h' S W" for W
      using elems_cong [of W S S ?h h'] by (auto simp: nodes_ok_def)
    have "timers (set_samep n (Some n) (set_samen n (Some n) (set_key n i ?h))) N (Some n)
        (q_insert i n (elems ?h S (inorder A @ (t # inorder B))))"
      by (rule alone_root [where A = A and B = "Node Leaf t B"])
        (use ok n assms(3) s(5,6) 2 rp nW tW in \<open>auto simp: u\<close>)
    moreover have "elems ?h S (inorder A @ (t # inorder B)) = q" by (simp only: u(2) q)
    ultimately show ?thesis
      using 2 less_imp_neq [OF 2] s(1) Some by (simp add: Curl_splayinsert_def Let_def)
  next
    case 3
    let ?h = "set_larger t None (set_smaller n (Some t) (set_larger n (t_larger h' t) h'))"
    have u: "nodes_ok ?h N S W \<longleftrightarrow> nodes_ok h' N S W" "elems ?h S W = elems h' S W" for W
      using elems_cong [of W S S ?h h'] by (auto simp: nodes_ok_def)
    have "timers (set_samep n (Some n) (set_samen n (Some n) (set_key n i ?h))) N (Some n)
        (q_insert i n (elems ?h S ((inorder A @ [t]) @ inorder B)))"
      by (rule alone_root [where A = "Node A t Leaf" and B = B])
        (use ok n assms(3) s(5,6) 3 rp nW tW in \<open>auto simp: u\<close>)
    moreover have "elems ?h S ((inorder A @ [t]) @ inorder B) = q" by (simp only: u(2) q append_assoc append_Cons append_Nil)
    ultimately show ?thesis
      using 3 less_imp_neq [OF 3] less_not_sym [OF 3] s(1) Some by (auto simp: Curl_splayinsert_def Let_def)
  qed
qed

section \<open>Removal\<close>

definition q_remove :: "nat \<Rightarrow> (curltime \<times> nat) list \<Rightarrow> (curltime \<times> nat) list" where
  "q_remove n q = filter (\<lambda>(_, m). m \<noteq> n) q"

lemma q_remove_other: "n \<notin> set (members S W) \<Longrightarrow> q_remove n (elems h S W) = elems h S W"
proof -
  assume "n \<notin> set (members S W)"
  then have "n \<notin> snd ` set (elems h S W)" by (simp flip: members_elems [of h S W])
  then show ?thesis unfolding q_remove_def by (intro filter_True) force
qed

lemma q_remove_append [simp]: "q_remove n (us @ vs) = q_remove n us @ q_remove n vs"
  by (simp add: q_remove_def)

lemma q_remove_group: "q_remove n (map (Pair k) xs) = map (Pair k) (filter (\<lambda>m. m \<noteq> n) xs)"
  by (induction xs) (auto simp: q_remove_def)

lemma replace_root_timers:
  assumes ok: "timer_tree h N (Some t) (Node A t B) S" and x: "S t = x # ss"
  shows "\<exists>h'. replace_root h t x = Inr h' \<and> timers h' N (Some x)
    (elems h S (inorder A) @ map (Pair (t_key h t)) (x # ss) @ elems h S (inorder B))"
proof -
  let ?U = "inorder A" and ?V = "inorder B" and ?p = "last (x # ss)" and ?S = "S(x := ss)"
  have ch: "schain h t (x # ss) t" and nok: "nodes_ok h N S (?U @ t # ?V)" and rp: "rep h (Some t) (Node A t B)"
    using ok by (auto simp: timer_tree_def nodes_ok_append node_ok_def x)
  note ap = nok [unfolded nodes_ok_append]
  have d: "distinct (t # x # ss)" using ap x by auto
  have p: "t_samep h t = Some ?p" "?p \<in> set (x # ss)" using schain_last [OF ch] by (simp, metis last_in_set list.distinct(1))
  let ?h = "set_samen ?p (Some x) (set_samep x (t_samep h t) (set_smaller x (t_smaller h t)
    (set_larger x (t_larger h t) (set_key x (t_key h t) h))))"
  have "schain (set_samen ?p (Some x) (set_samep x (Some ?p) h)) x ss x"
    by (rule schain_redirect) (use ch d in auto)
  then have "schain ?h x ss x" by (rule iffD1 [OF schain_cong, rotated 2]) (use p in auto)
  then have xok: "node_ok ?h ?S x"
    using ap x d by (auto simp: node_ok_def)
  have same: "t_key ?h y = t_key h y \<and> t_samen ?h y = t_samen h y \<and> t_samep ?h y = t_samep h y"
    if "y \<in> set (members S ?U) \<union> set (members S ?V)" for y
  proof -
    have "y \<notin> set (x # ss)" using that ap x by auto
    then have "y \<noteq> x" "y \<noteq> ?p" using p(2) by auto
    then show ?thesis by simp
  qed
  have xW: "x \<notin> set ?U \<union> set ?V" using ap x set_members [of ?U S] set_members [of ?V S] by auto
  have "nodes_ok ?h N ?S (?U @ x # ?V)"
      "elems ?h ?S (?U @ x # ?V) = elems h S ?U @ map (Pair (t_key h t)) (x # ?S x) @ elems h S ?V"
    by (rule relist [OF nok same _ xok]; use ap x xW in auto)+
  moreover have "rep ?h (Some x) (Node A x B)" using rp xW d by auto
  ultimately have "timers ?h N (Some x) (elems h S ?U @ map (Pair (t_key h t)) (x # ss) @ elems h S ?V)"
    by (intro timersI [of _ _ "Node A x B" _ ?S]) auto
  moreover have "replace_root h t x = Inr ?h" using d p by (simp add: replace_root_def Let_def)
  ultimately show ?thesis by blast
qed

lemma unlink_timers:
  assumes ok: "timer_tree h N r T S" and a: "inorder T = U @ a # V" and n: "S a = us @ n # vs"
  shows "\<exists>p s. t_samep h n = Some p \<and> t_samen h n = Some s \<and> s \<noteq> n \<and> p \<noteq> n \<and>
    timers (set_samen n (Some n) (set_samep s (Some p) (set_samen p (Some s) h))) N r (q_remove n (elems h S (inorder T)))"
proof -
  let ?p = "last (a # us)" and ?s = "hd (vs @ [a])" and ?S = "S(a := us @ vs)"
  have ch: "schain h a us n" "schain h n vs a" and nok: "nodes_ok h N S (U @ a # V)" and rp: "rep h r T"
    using ok by (auto simp: timer_tree_def nodes_ok_append node_ok_def n a)
  note ap = nok [unfolded nodes_ok_append]
  have d: "distinct (a # us @ n # vs)" using ap n by auto
  have p: "t_samep h n = Some ?p" "?p \<in> set (a # us)"
    using schain_last [OF ch(1)] by (simp, metis last_in_set list.distinct(1))
  have s: "t_samen h n = Some ?s" "?s \<in> set (a # vs)" using ch(2) by (cases vs; simp)+
  let ?h = "set_samen n (Some n) (set_samep ?s (Some ?p) (set_samen ?p (Some ?s) h))"
  have "schain (set_samen ?p (Some ?s) (set_samep ?s (Some ?p) h)) a us ?s"
    by (rule schain_redirect [OF ch(1)]) (use d s in auto)
  then have c1: "schain ?h a us ?s" by (rule iffD1 [OF schain_cong, rotated 2]) (use d in auto)
  have "schain ?h a (us @ vs) a"
  proof (cases vs)
    case (Cons v vs')
    have "?p \<notin> set (v # vs')" using p(2) d Cons by auto
    then have "schain ?h v vs' a" using ch(2) d Cons by simp
    with c1 Cons show ?thesis by simp
  qed (use c1 in simp)
  then have aok: "node_ok ?h ?S a"
    using ap n d by (auto simp: node_ok_def)
  have same: "t_key ?h y = t_key h y \<and> t_samen ?h y = t_samen h y \<and> t_samep ?h y = t_samep h y"
    if "y \<in> set (members S U) \<union> set (members S V)" for y
  proof -
    have "y \<notin> set (a # us @ n # vs)" using that ap n by auto
    then have "y \<noteq> n" "y \<noteq> ?p" "y \<noteq> ?s" using p(2) s(2) by auto
    then show ?thesis by simp
  qed
  have aW: "a \<notin> set U \<union> set V" using ap set_members [of U S] set_members [of V S] by auto
  have "nodes_ok ?h N ?S (U @ a # V)"
      "elems ?h ?S (U @ a # V) = elems h S U @ map (Pair (t_key h a)) (a # ?S a) @ elems h S V"
    by (rule relist [OF nok same _ aok]; use ap n aW in auto)+
  moreover have "q_remove n (elems h S (U @ a # V)) = elems h S U @ map (Pair (t_key h a)) (a # us @ vs) @ elems h S V"
  proof -
    have "q_remove n (elems h S U) = elems h S U" "q_remove n (elems h S V) = elems h S V"
      by (rule q_remove_other; use ap n in auto)+
    moreover have "filter (\<lambda>m. m \<noteq> n) (a # us @ n # vs) = a # us @ vs"
      using d filter_True [of us "\<lambda>m. m \<noteq> n"] filter_True [of vs "\<lambda>m. m \<noteq> n"] by fastforce
    ultimately show ?thesis by (simp only: elems_simps group_def q_remove_append q_remove_group n)
  qed
  moreover have "rep ?h r T" using rp by simp
  ultimately have "timers ?h N r (q_remove n (elems h S (inorder T)))"
    by (intro timersI [of _ _ T _ ?S]) (simp_all add: a)
  moreover have "?s \<noteq> n" "?p \<noteq> n" using d p(2) s(2) by auto
  ultimately show ?thesis using p s by blast
qed

definition q_best :: "curltime \<Rightarrow> (curltime \<times> nat) list \<Rightarrow> nat option \<times> (curltime \<times> nat) list" where
  "q_best i q = (case q of [] \<Rightarrow> (None, []) | (k, n) # q' \<Rightarrow> if i < k then (None, q) else (Some n, q'))"

lemma group_Cons: "group h S t = (t_key h t, t) # map (Pair (t_key h t)) (S t)"
  by (simp add: group_def)

lemma getbest_timers:
  assumes "timers h N root q" "length q \<le> fuel"
  shows "\<exists>h' p. Curl_splaygetbest fuel N i h root = Inr (h', p, fst (q_best i q)) \<and> timers h' N p (snd (q_best i q))"
proof (cases root)
  case None
  then show ?thesis using assms(1) by (auto simp: timers_None Curl_splaygetbest_def q_best_def)
next
  case (Some p)
  obtain T S where T: "timer_tree h N (Some p) T S" "q = elems h S (inorder T)"
    using assms(1) Some by (auto simp: timers_def)
  have "size T \<le> fuel" using timers_length [OF T(1)] T(2) assms(2) by simp
  then obtain h' t A B where s: "Curl_splay fuel N tv_zero h (Some p) = Inr (h', Some t)"
    "timer_tree h' N (Some t) (Node A t B) S" "elems h S (inorder T) = elems h' S (inorder A @ t # inorder B)"
    "\<And>a. a \<in> set_tree A \<Longrightarrow> t_key h' a < tv_zero"
    by (rule splay_timers [OF T(1)]) blast
  have ok: "nodes_ok h' N S (inorder A @ t # inorder B)" and rp: "rep h' (Some t) (Node A t B)"
    using s(2) by (auto simp: timer_tree_def)
  have "A = Leaf"
  proof (rule ccontr)
    assume "A \<noteq> Leaf"
    then obtain a where "a \<in> set_tree A" by (cases A) auto
    with ok have "tv_zero \<le> t_key h' a" by (auto simp: nodes_ok_def node_ok_def)
    with s(4) [OF \<open>a \<in> set_tree A\<close>] show False by simp
  qed
  then have q: "q = group h' S t @ elems h' S (inorder B)" using T(2) s(3) by simp
  have keep: "timers h' N (Some t) q" using s(2) unfolding timers_def T(2) s(3)
    by (intro exI [of _ "Node A t B"] exI [of _ S]) simp
  have ch: "schain h' t (S t) t" using ok by (auto simp: nodes_ok_append node_ok_def)
  show ?thesis
  proof (cases "i < t_key h' t")
    case True
    then have "q_best i q = (None, q)" by (simp add: q q_best_def group_Cons)
    then show ?thesis using True Some s(1) keep by (auto simp: Curl_splaygetbest_def)
  next
    case False
    then have best: "q_best i q = (Some t, map (Pair (t_key h' t)) (S t) @ elems h' S (inorder B))"
      by (simp add: q q_best_def group_Cons)
    show ?thesis
    proof (cases "S t")
      case Nil
      have "timers h' N (t_larger h' t) (elems h' S (inorder B))"
        by (rule timersI [of _ _ B _ S]) (use rp ok in \<open>auto simp: nodes_ok_append\<close>)
      then show ?thesis using False Some s(1) best Nil ch by (auto simp: Curl_splaygetbest_def)
    next
      case (Cons x ss)
      have "x \<noteq> t" using ok Cons by (auto simp: nodes_ok_append)
      obtain h2 where h2: "replace_root h' t x = Inr h2"
        "timers h2 N (Some x) (map (Pair (t_key h' t)) (x # ss) @ elems h' S (inorder B))"
        using replace_root_timers [OF s(2) Cons] \<open>A = Leaf\<close> by auto
      then show ?thesis using False Some s(1) best Cons ch \<open>x \<noteq> t\<close> by (auto simp: Curl_splaygetbest_def)
    qed
  qed
qed

lemma KEY_NOTUSED_small: "KEY_NOTUSED < tv_zero"
  by (simp add: KEY_NOTUSED_def tv_zero_def less_curltime_def)

lemma remove_timers:
  assumes "timers h N root q" "length q \<le> fuel" "n \<in> snd ` set q"
  shows "\<exists>h' p. Curl_splayremovebyaddr fuel N h root (Some n) root = Inr (0, h', p) \<and> timers h' N p (q_remove n q)"
proof -
  obtain T S where T: "timer_tree h N root T S" "q = elems h S (inorder T)"
    using assms(1) by (auto simp: timers_def)
  have size: "size T \<le> fuel" using timers_length [OF T(1)] T(2) assms(2) by simp
  have n: "n \<in> set (members S (inorder T))" using assms(3) by (simp add: T(2) flip: members_elems [of h S])
  obtain p where root: "root = Some p" using T(1) n by (cases root) (auto simp: timer_tree_def)
  have okT: "nodes_ok h N S (inorder T)" using T(1) by (simp add: timer_tree_def)
  show ?thesis
  proof (cases "n \<in> set_tree T")
    case False
    then obtain a where a: "a \<in> set_tree T" "n \<in> set (S a)" using n by (auto simp: members_def)
    then obtain U V us vs where split: "inorder T = U @ a # V" "S a = us @ n # vs" by (metis set_inorder_tree split_list)
    have "t_key h n = KEY_NOTUSED" using okT a by (auto simp: nodes_ok_def node_ok_def)
    moreover from unlink_timers [OF T(1) split] obtain p' s where "t_samep h n = Some p'" "t_samen h n = Some s" "s \<noteq> n" "p' \<noteq> n"
      "timers (set_samen n (Some n) (set_samep s (Some p') (set_samen p' (Some s) h))) N root (q_remove n q)"
      unfolding T(2) by blast
    ultimately show ?thesis using root by (simp add: Curl_splayremovebyaddr_def Let_def)
  next
    case True
    then have key: "t_key h n \<noteq> KEY_NOTUSED" using okT KEY_NOTUSED_small by (auto simp: nodes_ok_def node_ok_def)
    obtain h' t A B where s: "Curl_splay fuel N (t_key h n) h (Some p) = Inr (h', Some t)"
      "timer_tree h' N (Some t) (Node A t B) S" "inorder T = inorder A @ t # inorder B"
      "elems h S (inorder T) = elems h' S (inorder A @ t # inorder B)"
      "\<And>a. a \<in> set_tree A \<Longrightarrow> t_key h' a < t_key h n" "\<And>b. b \<in> set_tree B \<Longrightarrow> t_key h n < t_key h' b"
      "t_key h' = t_key h"
      by (rule splay_timers [OF T(1) [unfolded root] size]) blast
    have "n = t"
    proof -
      have "n \<in> set_tree A \<union> {t} \<union> set_tree B" using True s(3) by (metis Un_iff Un_insert_right empty_set list.simps(15) set_append set_inorder_tree sup_bot.right_neutral insert_iff)
      then show ?thesis using s(5-7) by fastforce
    qed
    have ok: "nodes_ok h' N S (inorder A @ t # inorder B)" and rp: "rep h' (Some t) (Node A t B)"
      using s(2) by (auto simp: timer_tree_def)
    note ap = ok [unfolded nodes_ok_append]
    have ch: "schain h' t (S t) t" using ap by (simp add: node_ok_def)
    have q: "q_remove n q = elems h' S (inorder A) @ map (Pair (t_key h' t)) (S t) @ elems h' S (inorder B)"
    proof -
      have o: "q_remove t (elems h' S (inorder A)) = elems h' S (inorder A)" "q_remove t (elems h' S (inorder B)) = elems h' S (inorder B)"
        by (rule q_remove_other; use ap in auto)+
      have f: "filter (\<lambda>m. m \<noteq> t) (t # S t) = S t" using ap filter_True [of "S t" "\<lambda>m. m \<noteq> t"] by fastforce
      show ?thesis unfolding T(2) s(4) \<open>n = t\<close>
        by (simp only: elems_simps group_def q_remove_append q_remove_group o f)
    qed
    show ?thesis
    proof (cases "S t")
      case (Cons x ss)
      have "x \<noteq> t" using ap Cons by auto
      obtain h2 where h2: "replace_root h' t x = Inr h2"
        "timers h2 N (Some x) (elems h' S (inorder A) @ map (Pair (t_key h' t)) (x # ss) @ elems h' S (inorder B))"
        using replace_root_timers [OF s(2) Cons] by auto
      then show ?thesis using root s(1) key q Cons ch \<open>x \<noteq> t\<close> \<open>n = t\<close>
        by (auto simp: Curl_splayremovebyaddr_def)
    next
      case Nil
      show ?thesis
      proof (cases A)
        case Leaf
        have "timers h' N (t_larger h' t) (elems h' S (inorder B))"
          by (rule timersI [of _ _ B _ S]) (use rp ap in auto)
        moreover have "t_smaller h' t = None" using rp Leaf by simp
        ultimately show ?thesis using root s(1) key q Nil ch \<open>n = t\<close> Leaf
          by (auto simp: Curl_splayremovebyaddr_def)
      next
        case (Node A1 a A2)
        then have a: "t_smaller h' t = Some a" using rp by simp
        have tA: "timer_tree h' N (Some a) A S" using rp ap a by (auto simp: timer_tree_def)
        have "size A \<le> fuel" using size arg_cong [OF s(3), of length] by simp
        have rA: "rep h' (Some a) A" and oA: "ordered h' (inorder A)" and dA: "distinct (N # inorder A)"
          using tA set_members [of "inorder A" S] distinct_members [of S "inorder A"]
          by (auto simp: timer_tree_def nodes_ok_def)
        obtain h2 x C D where s2: "Curl_splay fuel N (t_key h n) h' (Some a) = Inr (h2, Some x)"
          "rep h2 (Some x) (Node C x D)" "inorder C @ x # inorder D = inorder A" "unchanged (set (N # inorder A)) h' h2"
          "\<And>b. b \<in> set_tree D \<Longrightarrow> t_key h n < t_key h' b"
          by (rule splay_divides [OF rA dA oA \<open>size A \<le> fuel\<close>, of "t_key h n"]) blast
        have sub: "set_tree D \<subseteq> set_tree A" "x \<in> set_tree A" using s2(3) by (metis Un_iff set_append set_inorder_tree set_subset_Cons subset_eq, metis in_set_conv_decomp set_inorder_tree)
        have "D = Leaf"
        proof (rule ccontr)
          assume "D \<noteq> Leaf"
          then obtain d where "d \<in> set_tree D" by (cases D) auto
          with s2(5) [OF this] s(5) [of d] sub show False by (auto dest: less_asym)
        qed
        have nA: "t \<notin> set (N # inorder A)" "set_tree B \<inter> set (N # inorder A) = {}"
          using ap set_members [of "inorder A" S] set_members [of "inorder B" S] by (auto simp: nodes_ok_def)
        let ?h = "set_larger x (t_larger h2 t) h2"
        have lt: "t_larger h2 t = t_larger h' t" using s2(4) nA by (simp add: unchanged_def)
        have "rep h2 (t_larger h' t) B \<longleftrightarrow> rep h' (t_larger h' t) B"
          by (rule rep_cong) (use s2(4) nA in \<open>auto simp: unchanged_def\<close>)
        then have "rep h2 (t_larger h2 t) B" using rp lt by simp
        moreover have "x \<notin> set_tree B" using sub nA by auto
        moreover have "x \<notin> set_tree C"
        proof -
          have "distinct (inorder C @ x # inorder D)"
            unfolding s2(3) by (rule distinct_members [of S]) (use ap in \<open>simp add: nodes_ok_def\<close>)
          then show ?thesis by simp
        qed
        ultimately have rB: "rep ?h (Some x) (Node C x B)" using s2(2) by simp
        have same: "nodes_ok ?h N S W \<longleftrightarrow> nodes_ok h' N S W" "elems ?h S W = elems h' S W" for W
          using elems_cong [of W S S ?h h'] s2(4) by (auto simp: nodes_ok_def unchanged_def)
        have "nodes_ok h' N S (inorder A @ inorder B)"
          using ap by (auto simp: nodes_ok_def sorted_wrt_append)
        moreover have W: "inorder (Node C x B) = inorder A @ inorder B"
          using \<open>D = Leaf\<close> by (simp flip: s2(3))
        ultimately have "nodes_ok ?h N S (inorder (Node C x B))" by (simp only: same W)
        moreover have "elems h' S (inorder A @ inorder B) = elems ?h S (inorder (Node C x B))" by (simp only: same W)
        ultimately have "timers ?h N (Some x) (elems h' S (inorder A @ inorder B))"
          using rB by (rule timersI [rotated])
        then show ?thesis using root s(1,7) key q Nil ch \<open>n = t\<close> a s2(1)
          by (auto simp: Curl_splayremovebyaddr_def)
      qed
    qed
  qed
qed

section \<open>Timers through the interface\<close>

text \<open>
  What the transfers rely on: \<open>holds m q\<close> says that the state \<open>m\<close> keeps the timers \<open>q\<close>, \<open>cap\<close>
  bounds their number, \<open>ok\<close> are the nodes that may be inserted.
\<close>

locale timer_queue =
  fixes holds :: "'m \<Rightarrow> (curltime \<times> nat) list \<Rightarrow> bool"
    and ins :: "curltime \<Rightarrow> nat \<Rightarrow> 'm \<Rightarrow> fault + 'm"
    and best :: "curltime \<Rightarrow> 'm \<Rightarrow> fault + 'm \<times> nat option"
    and rm :: "nat \<Rightarrow> 'm \<Rightarrow> fault + nat \<times> 'm"
    and cap :: nat
    and ok :: "nat \<Rightarrow> bool"
  assumes ins: "holds m q \<Longrightarrow> length q < cap \<Longrightarrow> ok n \<Longrightarrow> n \<notin> snd ` set q \<Longrightarrow> tv_zero \<le> i \<Longrightarrow>
      \<exists>m'. ins i n m = Inr m' \<and> holds m' (q_insert i n q)"
    and best: "holds m q \<Longrightarrow> length q \<le> cap \<Longrightarrow>
      \<exists>m'. best i m = Inr (m', fst (q_best i q)) \<and> holds m' (snd (q_best i q))"
    and rm: "holds m q \<Longrightarrow> length q \<le> cap \<Longrightarrow> n \<in> snd ` set q \<Longrightarrow>
      \<exists>m'. rm n m = Inr (0, m') \<and> holds m' (q_remove n q)"
    and sorted_holds: "holds m q \<Longrightarrow> sorted (map fst q)"

datatype timer_op = Insert curltime nat | Best curltime | Remove nat

text \<open>A sequence of operations; \<open>Best\<close> contributes its node to the results.\<close>

fun run_timers :: "(curltime \<Rightarrow> nat \<Rightarrow> 'm \<Rightarrow> fault + 'm) \<Rightarrow> (curltime \<Rightarrow> 'm \<Rightarrow> fault + 'm \<times> nat option) \<Rightarrow>
    (nat \<Rightarrow> 'm \<Rightarrow> fault + nat \<times> 'm) \<Rightarrow> timer_op list \<Rightarrow> 'm \<Rightarrow> fault + 'm \<times> nat option list" where
  "run_timers ins best rm [] m = Inr (m, [])"
| "run_timers ins best rm (Insert i n # ops) m = rbind (ins i n m) (run_timers ins best rm ops)"
| "run_timers ins best rm (Best i # ops) m =
    rbind (best i m) (\<lambda>(m, r). rbind (run_timers ins best rm ops m) (\<lambda>(m, rs). Inr (m, r # rs)))"
| "run_timers ins best rm (Remove n # ops) m = rbind (rm n m) (\<lambda>(_, m). run_timers ins best rm ops m)"

fun q_run :: "timer_op list \<Rightarrow> (curltime \<times> nat) list \<Rightarrow> (curltime \<times> nat) list \<times> nat option list" where
  "q_run [] q = (q, [])"
| "q_run (Insert i n # ops) q = q_run ops (q_insert i n q)"
| "q_run (Best i # ops) q = (case q_run ops (snd (q_best i q)) of (q', rs) \<Rightarrow> (q', fst (q_best i q) # rs))"
| "q_run (Remove n # ops) q = q_run ops (q_remove n q)"

text \<open>No node is inserted twice, none is removed that is not there.\<close>

fun q_valid :: "nat \<Rightarrow> (nat \<Rightarrow> bool) \<Rightarrow> timer_op list \<Rightarrow> (curltime \<times> nat) list \<Rightarrow> bool" where
  "q_valid cap ok [] q \<longleftrightarrow> True"
| "q_valid cap ok (Insert i n # ops) q \<longleftrightarrow>
    length q < cap \<and> ok n \<and> n \<notin> snd ` set q \<and> tv_zero \<le> i \<and> q_valid cap ok ops (q_insert i n q)"
| "q_valid cap ok (Best i # ops) q \<longleftrightarrow> q_valid cap ok ops (snd (q_best i q))"
| "q_valid cap ok (Remove n # ops) q \<longleftrightarrow> n \<in> snd ` set q \<and> q_valid cap ok ops (q_remove n q)"

lemma q_best_simps:
  "q_best i [] = (None, [])" "q_best i ((k, n) # q) = (if i < k then (None, (k, n) # q) else (Some n, q))"
  by (simp_all add: q_best_def)

lemma q_lengths [bound_simps]:
  "length (q_insert i n q) = Suc (length q)" "length (q_remove n q) \<le> length q" "length (snd (q_best i q)) \<le> length q"
proof -
  have "length (takeWhile P q) + length (dropWhile P q) = length q" for P :: "curltime \<times> nat \<Rightarrow> bool"
    by (metis length_append takeWhile_dropWhile_id)
  then show "length (q_insert i n q) = Suc (length q)" by (simp add: q_insert_def)
qed (auto simp: q_remove_def q_best_def split: list.split)

context timer_queue
begin

lemma run_refines:
  assumes "holds m q" "length q \<le> cap" "q_valid cap ok ops q"
  shows "\<exists>m'. run_timers ins best rm ops m = Inr (m', snd (q_run ops q)) \<and> holds m' (fst (q_run ops q))"
  using assms
proof (induction ops q arbitrary: m rule: q_run.induct)
  case (2 i n ops q)
  obtain m' where "ins i n m = Inr m'" "holds m' (q_insert i n q)" using ins [of m q n i] 2 by auto
  then show ?case using 2 by (auto simp: bound_simps)
next
  case (3 i ops q)
  obtain m' where "best i m = Inr (m', fst (q_best i q))" "holds m' (snd (q_best i q))" using best [of m q i] 3 by auto
  then show ?case using 3 q_lengths(3) [of i q] by (fastforce split: prod.split)
next
  case (4 n ops q)
  obtain m' where "rm n m = Inr (0, m')" "holds m' (q_remove n q)" using rm [of m q n] 4 by auto
  then show ?case using 4 q_lengths(2) [of n q] by fastforce
qed auto

text \<open>Asking for the best node again and again gives the timers that have expired, in order.\<close>

lemma expired_in_order:
  assumes "holds m q" "length q \<le> cap"
  shows "\<exists>m'. run_timers ins best rm (replicate (length (takeWhile (\<lambda>(k, _). k \<le> i) q) + 1) (Best i)) m =
      Inr (m', map (\<lambda>e. Some (snd e)) (takeWhile (\<lambda>(k, _). k \<le> i) q) @ [None]) \<and>
    holds m' (dropWhile (\<lambda>(k, _). k \<le> i) q)"
proof -
  have "q_run (replicate (length (takeWhile (\<lambda>(k, _). k \<le> i) q) + 1) (Best i)) q =
      (dropWhile (\<lambda>(k, _). k \<le> i) q, map (\<lambda>e. Some (snd e)) (takeWhile (\<lambda>(k, _). k \<le> i) q) @ [None])"
    by (induction q) (auto simp: q_best_simps)
  moreover have "q_valid cap ok (replicate k (Best i)) q" for k by (induction k arbitrary: q) auto
  ultimately show ?thesis using run_refines [OF assms] by (metis fst_conv snd_conv)
qed

end

lemma timers_sorted: "timers h N p q \<Longrightarrow> sorted (map fst q)"
proof -
  have "ordered h W \<Longrightarrow> sorted (map fst (elems h S W))" for W S
  proof (induction W)
    case (Cons a W)
    have "\<forall>k \<in> fst ` set (elems h S W). t_key h a \<le> k"
      using Cons.prems by (auto dest!: elems_key intro: less_imp_le)
    moreover have "map fst (group h S a) = replicate (Suc (length (S a))) (t_key h a)"
      by (simp add: group_def comp_def map_replicate_const)
    ultimately show ?case using Cons by (auto simp: sorted_append)
  qed simp
  then show "timers h N p q \<Longrightarrow> sorted (map fst q)" by (auto simp: timers_def timer_tree_def nodes_ok_def)
qed

text \<open>The interface on the tree; the state is the memory and the root.\<close>

definition tree_insert :: "nat \<Rightarrow> nat \<Rightarrow> curltime \<Rightarrow> nat \<Rightarrow> tmem \<times> ptr \<Rightarrow> fault + tmem \<times> ptr" where
  "tree_insert fuel N i n m = Curl_splayinsert fuel N i (fst m) (snd m) (Some n)"

definition tree_best :: "nat \<Rightarrow> nat \<Rightarrow> curltime \<Rightarrow> tmem \<times> ptr \<Rightarrow> fault + (tmem \<times> ptr) \<times> nat option" where
  "tree_best fuel N i m = rbind (Curl_splaygetbest fuel N i (fst m) (snd m)) (\<lambda>(h, p, r). Inr ((h, p), r))"

definition tree_remove :: "nat \<Rightarrow> nat \<Rightarrow> nat \<Rightarrow> tmem \<times> ptr \<Rightarrow> fault + nat \<times> tmem \<times> ptr" where
  "tree_remove fuel N n m = Curl_splayremovebyaddr fuel N (fst m) (snd m) (Some n) (snd m)"

interpretation splay: timer_queue "\<lambda>m. timers (fst m) N (snd m)" "tree_insert fuel N" "tree_best fuel N" "tree_remove fuel N"
  fuel "\<lambda>n. n \<noteq> N" for fuel N
proof unfold_locales
  fix m :: "tmem \<times> ptr" and q :: "(curltime \<times> nat) list" and n i
  assume m: "timers (fst m) N (snd m) q"
  show "\<exists>m'. tree_insert fuel N i n m = Inr m' \<and> timers (fst m') N (snd m') (q_insert i n q)"
    if "length q < fuel" "n \<noteq> N" "n \<notin> snd ` set q" "tv_zero \<le> i"
    using insert_timers [OF m, of n i fuel] that by (fastforce simp: tree_insert_def)
  show "\<exists>m'. tree_best fuel N i m = Inr (m', fst (q_best i q)) \<and> timers (fst m') N (snd m') (snd (q_best i q))"
    if "length q \<le> fuel"
    using getbest_timers [OF m that, of i] by (fastforce simp: tree_best_def)
  show "\<exists>m'. tree_remove fuel N n m = Inr (0, m') \<and> timers (fst m') N (snd m') (q_remove n q)"
    if "length q \<le> fuel" "n \<in> snd ` set q"
    using remove_timers [OF m that] by (fastforce simp: tree_remove_def)
  show "sorted (map fst q)" using m by (rule timers_sorted)
qed

text \<open>
  C12: Started empty, the tree of timers behaves like a queue sorted by time, with the earlier
  insertion first among equal times, under any sequence of insertions, removals and requests for
  the first timer that is due: every operation returns without a null pointer and with the result
  of the queue, and asking until none is left delivers exactly the timers that are due, in order.
\<close>

theorem splay_is_timer_queue:
  assumes "q_valid fuel (\<lambda>n. n \<noteq> N) ops []"
  shows "\<exists>h' root. run_timers (tree_insert fuel N) (tree_best fuel N) (tree_remove fuel N) ops (h, None) =
      Inr ((h', root), snd (q_run ops [])) \<and>
    sorted (map fst (fst (q_run ops []))) \<and>
    (length (fst (q_run ops [])) \<le> fuel \<longrightarrow>
     (\<exists>m'. run_timers (tree_insert fuel N) (tree_best fuel N) (tree_remove fuel N)
        (replicate (length (takeWhile (\<lambda>(k, _). k \<le> now) (fst (q_run ops []))) + 1) (Best now)) (h', root) =
      Inr (m', map (\<lambda>e. Some (snd e)) (takeWhile (\<lambda>(k, _). k \<le> now) (fst (q_run ops []))) @ [None])))"
proof -
  have "timers (fst (h, None)) N (snd (h, None)) []" by (simp add: timers_None)
  from splay.run_refines [OF this _ assms] obtain m where
    m: "run_timers (tree_insert fuel N) (tree_best fuel N) (tree_remove fuel N) ops (h, None) = Inr (m, snd (q_run ops []))"
      "timers (fst m) N (snd m) (fst (q_run ops []))" by auto
  from splay.expired_in_order [OF m(2), of fuel now] splay.sorted_holds [OF m(2)] m(1) show ?thesis
    by (intro exI [of _ "fst m"] exI [of _ "snd m"]) auto
qed

definition three_timers :: tmem where
  "three_timers = \<lparr>t_smaller = (\<lambda>a. if a = 3 then Some 2 else if a = 2 then Some 1 else None), t_larger = (\<lambda>_. None),
    t_samen = Some, t_samep = Some, t_key = (\<lambda>a. Curltime (if a = 9 then 2 else int a) 0)\<rparr>"

theorem splay_is_timer_queue_witness:
  "\<exists>h' root. run_timers (tree_insert 5 0) (tree_best 5 0) (tree_remove 5 0)
      [Insert (Curltime 2 0) 1, Insert (Curltime 1 0) 2, Insert (Curltime 2 0) 3, Insert (Curltime 3 0) 4, Remove 1,
       Best (Curltime 2 5), Best (Curltime 2 5), Best (Curltime 2 5)] (three_timers, None) =
    Inr ((h', root), [Some 2, Some 3, None])"
proof -
  let ?ops = "[Insert (Curltime 2 0) 1, Insert (Curltime 1 0) 2, Insert (Curltime 2 0) 3, Insert (Curltime 3 0) 4, Remove 1,
       Best (Curltime 2 5), Best (Curltime 2 5), Best (Curltime 2 5)]"
  note run = q_insert_def q_remove_def q_best_def less_eq_curltime_def less_curltime_def tv_zero_def
  have "q_valid 5 (\<lambda>n. n \<noteq> 0) ?ops []" by (simp add: run)
  moreover have "snd (q_run ?ops []) = [Some 2, Some 3, None]" by (simp add: run)
  ultimately show ?thesis using splay_is_timer_queue [of 5 0 ?ops three_timers] by fastforce
qed

text \<open>
  A removal that fails with code 2 has splayed the tree and leaves the caller with the old root:
  here the timers of nodes 1 and 2 are lost, and the first one due is said to be that of node 3.
\<close>

lemma failed_removal_loses_timers:
  "timers three_timers 0 (Some 3) [(Curltime 1 0, 1), (Curltime 2 0, 2), (Curltime 3 0, 3)]"
  "\<exists>h'. Curl_splayremovebyaddr 5 0 three_timers (Some 3) (Some 9) (Some 3) = Inr (2, h', Some 3) \<and>
    (\<exists>h''. Curl_splaygetbest 5 0 (Curltime 4 0) h' (Some 3) = Inr (h'', None, Some 3))"
proof -
  show "timers three_timers 0 (Some 3) [(Curltime 1 0, 1), (Curltime 2 0, 2), (Curltime 3 0, 3)]"
    by (rule timersI [of _ _ "Node (Node (Node Leaf 1 Leaf) 2 Leaf) 3 Leaf" _ "\<lambda>_. []"])
      (simp_all add: three_timers_def nodes_ok_def node_ok_def group_def tv_zero_def less_eq_curltime_def less_curltime_def)
  show "\<exists>h'. Curl_splayremovebyaddr 5 0 three_timers (Some 3) (Some 9) (Some 3) = Inr (2, h', Some 3) \<and>
    (\<exists>h''. Curl_splaygetbest 5 0 (Curltime 4 0) h' (Some 3) = Inr (h'', None, Some 3))"
    by (simp add: Curl_splayremovebyaddr_def Curl_splaygetbest_def Curl_splay_def three_timers_def KEY_NOTUSED_def
        less_curltime_def tv_zero_def eval_nat_numeral(3) numeral_eq_Suc Let_def)
qed

end
