(* ===== verification/Adler32.thy ===== *)
theory Adler32
  imports Prelude
begin

text \<open>
  \<^verbatim>\<open>adler32.c\<close> of the vendored zlib, the checksum of compressed answers.

  \<^verbatim>\<open>unsigned long\<close> has 32 bits on some targets and 64 on others, so the functions are polymorphic
  in the width of their words; \<open>nd\<close> says whether \<^verbatim>\<open>NO_DIVIDE\<close> is defined. A buffer is the list of
  the bytes that may be read, \<open>None\<close> the null pointer, \<open>buf + n\<close> is \<open>drop n buf\<close>.
\<close>

abbreviation BASE :: nat where "BASE \<equiv> 65521"
abbreviation NMAX :: nat where "NMAX \<equiv> 5552"

section \<open>Reduction\<close>

definition CHOP :: "'a::len word \<Rightarrow> 'a word" where
  "CHOP a = (let tmp = drop_bit 16 a; a = a AND 0xffff in a + (push_bit 4 tmp - tmp))"

definition MOD28 :: "bool \<Rightarrow> 'a::len word \<Rightarrow> 'a word" where
  "MOD28 nd a =
    (if nd then let a = CHOP a in if a \<ge> of_nat BASE then a - of_nat BASE else a
     else a mod of_nat BASE)"

definition MOD :: "bool \<Rightarrow> 'a::len word \<Rightarrow> 'a word" where
  "MOD nd a = (if nd then let a = CHOP a in MOD28 nd a else a mod of_nat BASE)"

text \<open>On a signed 64-bit number that is not negative.\<close>

definition MOD63 :: "bool \<Rightarrow> int \<Rightarrow> int" where
  "MOD63 nd a =
    (if nd then
       let tmp = drop_bit 32 a; a = a AND 0xffffffff; a = a + (push_bit 8 tmp - push_bit 5 tmp + tmp);
           tmp = drop_bit 16 a; a = a AND 0xffff; a = a + (push_bit 4 tmp - tmp);
           tmp = drop_bit 16 a; a = a AND 0xffff; a = a + (push_bit 4 tmp - tmp)
       in if a \<ge> int BASE then a - int BASE else a
     else a mod int BASE)"

section \<open>Summing bytes\<close>

text \<open>The state of the macros is \<^verbatim>\<open>adler\<close> and \<^verbatim>\<open>sum2\<close>.\<close>

type_synonym 'a sums = "'a word \<times> 'a word"

definition DO1 :: "u8 list \<Rightarrow> nat \<Rightarrow> 'a::len sums \<Rightarrow> fault + 'a sums" where
  "DO1 buf i s =
    (case s of (adler, sum2) \<Rightarrow>
       if i < length buf
       then let adler = adler + ucast (buf ! i); sum2 = sum2 + adler in Inr (adler, sum2)
       else Inl Read_past_end)"

definition DO2 :: "u8 list \<Rightarrow> nat \<Rightarrow> 'a::len sums \<Rightarrow> fault + 'a sums" where
  "DO2 buf i s = rbind (DO1 buf i s) (DO1 buf (i + 1))"
definition DO4 :: "u8 list \<Rightarrow> nat \<Rightarrow> 'a::len sums \<Rightarrow> fault + 'a sums" where
  "DO4 buf i s = rbind (DO2 buf i s) (DO2 buf (i + 2))"
definition DO8 :: "u8 list \<Rightarrow> nat \<Rightarrow> 'a::len sums \<Rightarrow> fault + 'a sums" where
  "DO8 buf i s = rbind (DO4 buf i s) (DO4 buf (i + 4))"
definition DO16 :: "u8 list \<Rightarrow> 'a::len sums \<Rightarrow> fault + 'a sums" where
  "DO16 buf s = rbind (DO8 buf 0 s) (DO8 buf 8)"

text \<open>\<^verbatim>\<open>while (len--)\<close>, \<^verbatim>\<open>do ... while (--n)\<close> for \<open>n > 0\<close>, \<^verbatim>\<open>while (len >= 16)\<close>, \<^verbatim>\<open>while (len >= NMAX)\<close>.\<close>

fun byte_loop :: "nat \<Rightarrow> u8 list \<Rightarrow> 'a::len sums \<Rightarrow> fault + 'a sums" where
  "byte_loop 0 buf s = Inr s"
| "byte_loop (Suc len) buf s = rbind (DO1 buf 0 s) (byte_loop len (drop 1 buf))"

fun do16_loop :: "nat \<Rightarrow> u8 list \<Rightarrow> 'a::len sums \<Rightarrow> fault + u8 list \<times> 'a sums" where
  "do16_loop 0 buf s = Inr (buf, s)"
| "do16_loop (Suc n) buf s = rbind (DO16 buf s) (do16_loop n (drop 16 buf))"

function rest_loop :: "nat \<Rightarrow> u8 list \<Rightarrow> 'a::len sums \<Rightarrow> fault + 'a sums" where
  "rest_loop len buf s =
    (if 16 \<le> len then rbind (DO16 buf s) (rest_loop (len - 16) (drop 16 buf))
     else byte_loop len buf s)"
  by pat_completeness auto
termination by (relation "measure fst") auto

function nmax_loop :: "bool \<Rightarrow> nat \<Rightarrow> u8 list \<Rightarrow> 'a::len sums \<Rightarrow> fault + nat \<times> u8 list \<times> 'a sums" where
  "nmax_loop nd len buf s =
    (if NMAX \<le> len then
       rbind (do16_loop (NMAX div 16) buf s) (\<lambda>(buf, adler, sum2).
         nmax_loop nd (len - NMAX) buf (MOD nd adler, MOD nd sum2))
     else Inr (len, buf, s))"
  by pat_completeness auto
termination by (relation "measure (\<lambda>(_, len, _). len)") auto

declare rest_loop.simps [simp del] nmax_loop.simps [simp del]

section \<open>The functions\<close>

definition adler32_z :: "bool \<Rightarrow> 'a::len word \<Rightarrow> u8 list option \<Rightarrow> nat \<Rightarrow> fault + 'a word" where
  "adler32_z nd adler buf len =
    (let sum2 = drop_bit 16 adler AND 0xffff;
         adler = adler AND 0xffff
     in if len = 1 then
          (case buf of
             None \<Rightarrow> Inl Null_deref
           | Some [] \<Rightarrow> Inl Read_past_end
           | Some (b # _) \<Rightarrow>
               let adler = adler + ucast b;
                   adler = (if adler \<ge> of_nat BASE then adler - of_nat BASE else adler);
                   sum2 = sum2 + adler;
                   sum2 = (if sum2 \<ge> of_nat BASE then sum2 - of_nat BASE else sum2)
               in Inr (adler OR push_bit 16 sum2))
        else case buf of
          None \<Rightarrow> Inr 1
        | Some buf \<Rightarrow>
            if len < 16 then
              rbind (byte_loop len buf (adler, sum2)) (\<lambda>(adler, sum2).
                let adler = (if adler \<ge> of_nat BASE then adler - of_nat BASE else adler);
                    sum2 = MOD28 nd sum2
                in Inr (adler OR push_bit 16 sum2))
            else
              rbind (nmax_loop nd len buf (adler, sum2)) (\<lambda>(len, buf, s).
              rbind (if len \<noteq> 0 then
                       rbind (rest_loop len buf s) (\<lambda>(adler, sum2). Inr (MOD nd adler, MOD nd sum2))
                     else Inr s) (\<lambda>(adler, sum2).
                Inr (adler OR push_bit 16 sum2))))"

definition adler32 :: "bool \<Rightarrow> 'a::len word \<Rightarrow> u8 list option \<Rightarrow> u32 \<Rightarrow> fault + 'a word" where
  "adler32 nd adler buf len = adler32_z nd adler buf (unat len)"

definition adler32_combine_any :: "bool \<Rightarrow> 'a::len word \<Rightarrow> 'a word \<Rightarrow> int \<Rightarrow> 'a word" where
  "adler32_combine_any nd adler1 adler2 len2 =
    (if len2 < 0 then 0xffffffff
     else
       let len2 = MOD63 nd len2;
           rem = (of_int len2 :: u32);
           sum1 = adler1 AND 0xffff;
           sum2 = ucast rem * sum1;
           sum2 = MOD nd sum2;
           sum1 = sum1 + ((adler2 AND 0xffff) + of_nat BASE - 1);
           sum2 = sum2 + ((drop_bit 16 adler1 AND 0xffff) + (drop_bit 16 adler2 AND 0xffff) + of_nat BASE - ucast rem);
           sum1 = (if sum1 \<ge> of_nat BASE then sum1 - of_nat BASE else sum1);
           sum1 = (if sum1 \<ge> of_nat BASE then sum1 - of_nat BASE else sum1);
           sum2 = (if sum2 \<ge> push_bit 1 (of_nat BASE) then sum2 - push_bit 1 (of_nat BASE) else sum2);
           sum2 = (if sum2 \<ge> of_nat BASE then sum2 - of_nat BASE else sum2)
       in sum1 OR push_bit 16 sum2)"

definition adler32_combine :: "bool \<Rightarrow> 'a::len word \<Rightarrow> 'a word \<Rightarrow> int \<Rightarrow> 'a word" where
  "adler32_combine nd adler1 adler2 len2 = adler32_combine_any nd adler1 adler2 len2"

definition adler32_combine64 :: "bool \<Rightarrow> 'a::len word \<Rightarrow> 'a word \<Rightarrow> int \<Rightarrow> 'a word" where
  "adler32_combine64 nd adler1 adler2 len2 = adler32_combine_any nd adler1 adler2 len2"

end
