(* ===== verification/Adler32_Sums.thy ===== *)
theory Adler32_Sums
  imports Adler32
begin

text \<open>
  Correctness of \<^theory_text>\<open>Adler32\<close>: the sums of \<open>NMAX\<close> bytes fit 32 bits, so the deferred reductions give
  the checksum of RFC 1950; both ways to reduce agree; checksums of parts combine to that of the whole.
\<close>

section \<open>The reference\<close>

definition weighted :: "u8 list \<Rightarrow> nat" where
  "weighted ds = (\<Sum>i<length ds. (length ds - i) * unat (ds ! i))"

definition total :: "u8 list \<Rightarrow> nat" where
  "total ds = (\<Sum>i<length ds. unat (ds ! i))"

text \<open>The two sums behind the bytes \<open>ds\<close>, started from \<open>a\<close> and \<open>b\<close>, and the checksum of RFC 1950.\<close>

definition sums_from :: "u8 list \<Rightarrow> nat \<times> nat \<Rightarrow> nat \<times> nat" where
  "sums_from ds s = ((fst s + total ds) mod BASE, (snd s + length ds * fst s + weighted ds) mod BASE)"

definition pack :: "nat \<times> nat \<Rightarrow> 'a::len word" where
  "pack s = of_nat (fst s + 65536 * snd s)"

definition rfc1950_adler :: "u8 list \<Rightarrow> 'a::len word" where
  "rfc1950_adler ds = pack (sums_from ds (1, 0))"

section \<open>Sums without reduction\<close>

fun raw :: "u8 list \<Rightarrow> nat \<times> nat \<Rightarrow> nat \<times> nat" where
  "raw [] s = s"
| "raw (d # ds) s = raw ds (fst s + unat d, snd s + (fst s + unat d))"

lemma total_Cons [simp]: "total (d # ds) = unat d + total ds" "total [] = 0"
  by (simp_all add: total_def lessThan_Suc_eq_insert_0 sum.reindex del: sum.lessThan_Suc)

lemma weighted_Cons [simp]: "weighted (d # ds) = Suc (length ds) * unat d + weighted ds" "weighted [] = 0"
  by (simp_all add: weighted_def lessThan_Suc_eq_insert_0 sum.reindex del: sum.lessThan_Suc)

lemma raw_closed: "raw ds s = (fst s + total ds, snd s + length ds * fst s + weighted ds)"
  by (induction ds s rule: raw.induct) (simp_all add: algebra_simps)

lemma raw_append: "raw (xs @ ys) s = raw ys (raw xs s)"
  by (induction xs s rule: raw.induct) simp_all

lemma sums_from_raw: "sums_from ds s = (fst (raw ds s) mod BASE, snd (raw ds s) mod BASE)"
  by (simp add: sums_from_def raw_closed)

lemma mod_linear: "(b mod m + n * (a mod m) + w) mod m = (b + n * a + w) mod m" for a b n w m :: nat
  by (intro mod_add_cong) (simp_all add: mod_mult_right_eq)

lemma sums_from_mod: "sums_from ds (fst s mod BASE, snd s mod BASE) = sums_from ds s"
  unfolding sums_from_def by (simp only: fst_conv snd_conv mod_linear mod_add_left_eq)

lemma sums_from_append: "sums_from (xs @ ys) s = sums_from ys (sums_from xs s)"
proof -
  have "sums_from ys (sums_from xs s) = sums_from ys (raw xs s)"
    unfolding sums_from_raw [of xs] by (rule sums_from_mod)
  also have "\<dots> = sums_from (xs @ ys) s" by (simp only: sums_from_raw raw_append)
  finally show ?thesis ..
qed

lemma weighted_le: "2 * weighted ds \<le> 255 * (length ds * (length ds + 1))"
proof (induction ds)
  case (Cons d ds)
  have "unat d \<le> 255" using unat_u8_lt [of d] by simp
  then have "2 * (Suc (length ds) * unat d) \<le> 2 * (Suc (length ds) * 255)" by (intro mult_le_mono2)
  from add_mono [OF this Cons.IH] have "2 * weighted (d # ds) \<le> 2 * (Suc (length ds) * 255) + 255 * (length ds * (length ds + 1))"
    by (simp only: weighted_Cons distrib_left [of 2])
  also have "\<dots> = 255 * (length (d # ds) * (length (d # ds) + 1))" by (simp add: algebra_simps)
  finally show ?case .
qed simp

text \<open>\<open>NMAX\<close> is as large as it may be.\<close>

lemma raw_fits:
  assumes "length ds \<le> NMAX" "a < BASE" "b < BASE"
  shows "snd (raw ds (a, b)) < 2 ^ 32"
proof -
  have "2 * (length ds * a) \<le> 2 * (length ds * 65520)" "2 * b \<le> 2 * 65520"
    using assms by (intro mult_le_mono2; simp)+
  from add_mono [OF add_mono [OF this(2,1)] weighted_le [of ds]] have "2 * snd (raw ds (a, b)) \<le> 2 * 65520 + 2 * (length ds * 65520) + 255 * (length ds * (length ds + 1))"
    by (simp only: raw_closed fst_conv snd_conv distrib_left [of 2])
  also have "\<dots> \<le> 2 * 65520 + 2 * (NMAX * 65520) + 255 * (NMAX * (NMAX + 1))"
    using assms by (intro add_mono mult_le_mono) simp_all
  finally show ?thesis by simp
qed

section \<open>The machine sums\<close>

fun wraw :: "u8 list \<Rightarrow> 'a::len sums \<Rightarrow> 'a sums" where
  "wraw [] s = s"
| "wraw (d # ds) s = wraw ds (fst s + ucast d, snd s + (fst s + ucast d))"

lemma wraw_append: "wraw (xs @ ys) s = wraw ys (wraw xs s)"
  by (induction xs s rule: wraw.induct) simp_all

lemma DO1_run: "i < length buf \<Longrightarrow> DO1 buf i s = Inr (wraw (take 1 (drop i buf)) s)"
  by (cases s) (simp add: DO1_def Let_def take_Suc hd_drop_conv_nth)

lemma take_twice: "take (m + n) (drop i xs) = take m (drop i xs) @ take n (drop (i + m) xs)"
  by (simp add: take_add add.commute)

lemma DO2_run: "i + 2 \<le> length buf \<Longrightarrow> DO2 buf i s = Inr (wraw (take 2 (drop i buf)) s)"
  using take_twice [of 1 1 i buf] by (simp add: DO2_def DO1_run wraw_append numeral_2_eq_2 del: take_Suc_Cons)

lemma DO4_run: "i + 4 \<le> length buf \<Longrightarrow> DO4 buf i s = Inr (wraw (take 4 (drop i buf)) s)"
  using take_twice [of 2 2 i buf] by (simp add: DO4_def DO2_run wraw_append)

lemma DO8_run: "i + 8 \<le> length buf \<Longrightarrow> DO8 buf i s = Inr (wraw (take 8 (drop i buf)) s)"
  using take_twice [of 4 4 i buf] by (simp add: DO8_def DO4_run wraw_append)

lemma DO16_run: "16 \<le> length buf \<Longrightarrow> DO16 buf s = Inr (wraw (take 16 buf) s)"
  using take_twice [of 8 8 0 buf] by (simp add: DO16_def DO8_run wraw_append)

lemma byte_loop_run: "len \<le> length buf \<Longrightarrow> byte_loop len buf s = Inr (wraw (take len buf) s)"
proof (induction len arbitrary: buf s)
  case (Suc len)
  then obtain b t where "buf = b # t" by (cases buf) auto
  with Suc show ?case by (simp add: DO1_run)
qed simp

lemma do16_loop_run: "16 * n \<le> length buf \<Longrightarrow> do16_loop n buf s = Inr (drop (16 * n) buf, wraw (take (16 * n) buf) s)"
proof (induction n arbitrary: buf s)
  case (Suc n)
  have "take (16 * Suc n) buf = take 16 buf @ take (16 * n) (drop 16 buf)"
    using take_twice [of 16 "16 * n" 0 buf] by simp
  with Suc show ?case by (simp add: DO16_run wraw_append add.commute)
qed simp

lemma rest_loop_run: "len \<le> length buf \<Longrightarrow> rest_loop len buf s = Inr (wraw (take len buf) s)"
proof (induction len buf s rule: rest_loop.induct)
  case (1 len buf s)
  show ?case
  proof (cases "16 \<le> len")
    case True
    then have "take len buf = take 16 buf @ take (len - 16) (drop 16 buf)"
      using take_twice [of 16 "len - 16" 0 buf] by simp
    with 1 True show ?thesis by (simp add: rest_loop.simps [of len] DO16_run wraw_append)
  next
    case False
    with 1 show ?thesis by (simp add: rest_loop.simps [of len] byte_loop_run)
  qed
qed

text \<open>As long as the second sum fits, the words are the sums.\<close>

definition nats :: "'a::len sums \<Rightarrow> nat \<times> nat" where
  "nats s = (unat (fst s), unat (snd s))"

lemma raw_le: "fst s \<le> fst (raw ds s)" "snd s \<le> snd (raw ds s)"
  by (simp_all add: raw_closed)

lemma unat_ucast_wide:
  assumes "8 \<le> LENGTH('a::len)"
  shows "unat (ucast (d :: u8) :: 'a word) = unat d"
proof -
  have "(2::nat) ^ 8 \<le> 2 ^ LENGTH('a)" using assms by (rule power_increasing) simp
  then show ?thesis using unat_u8_lt [of d] by (simp add: unsigned_ucast_eq take_bit_nat_eq_self)
qed

lemma wraw_raw:
  fixes s :: "'a::len sums"
  assumes "8 \<le> LENGTH('a)" "snd (raw ds (nats s)) < 2 ^ LENGTH('a)"
  shows "nats (wraw ds s) = raw ds (nats s)"
  using assms(2)
proof (induction ds s rule: wraw.induct)
  case (2 d ds s)
  let ?a = "unat (fst s) + unat d" and ?b = "unat (snd s) + (unat (fst s) + unat d)"
  have u: "unat (ucast d :: 'a word) = unat d"
    by (rule unat_ucast_wide [OF assms(1)])
  have "?b < 2 ^ LENGTH('a)" using 2 raw_le(2) [of "(?a, ?b)" ds] by (simp add: nats_def)
  then have "unat (fst s + ucast d) = ?a" "unat (snd s + (fst s + ucast d)) = ?b"
    by (simp_all add: u unat_word_ariths mod_simps)
  then have "nats (fst s + ucast d, snd s + (fst s + ucast d)) = (?a, ?b)" by (simp add: nats_def)
  with 2 show ?case by (simp add: nats_def)
qed simp

section \<open>Reduction\<close>

lemma bits16:
  fixes a :: "'a::len word"
  assumes "32 \<le> LENGTH('a)"
  shows "unat (drop_bit 16 a) = unat a div 65536" "unat (a AND 0xffff) = unat a mod 65536"
    "unat (of_nat BASE :: 'a word) = BASE" "unat a < 65536 * 65536 \<Longrightarrow> unat (push_bit 4 (drop_bit 16 a)) = unat a div 65536 * 16"
proof -
  have p: "(2::nat) ^ 32 \<le> 2 ^ LENGTH('a)" using assms by (rule power_increasing) simp
  show d: "unat (drop_bit 16 a) = unat a div 65536"
    by (simp only: unsigned_drop_bit_eq) (simp add: drop_bit_eq_div take_bit_nat_eq_self)
  have "a AND 0xffff = take_bit 16 a" by (simp add: take_bit_eq_mask mask_eq_exp_minus_1)
  then show "unat (a AND 0xffff) = unat a mod 65536" using assms
    by (simp only: unsigned_take_bit_eq) (simp add: take_bit_eq_mod)
  show "unat (of_nat BASE :: 'a word) = BASE"
    by (rule unat_of_nat_small) (rule less_le_trans [OF _ p], simp)
  assume "unat a < 65536 * 65536"
  then have "unat a div 65536 * 16 < 2 ^ 32" by (simp add: less_mult_imp_div_less)
  then have "unat (drop_bit 16 a) * 16 < 2 ^ LENGTH('a)" using p d by simp
  then show "unat (push_bit 4 (drop_bit 16 a)) = unat a div 65536 * 16"
    by (simp only: unsigned_push_bit_eq) (simp add: push_bit_eq_mult take_bit_nat_eq_self d)
qed

text \<open>One step of \<^verbatim>\<open>CHOP\<close>, on numbers: \<open>65536 mod BASE = 15\<close>.\<close>

definition chop :: "nat \<Rightarrow> nat" where
  "chop n = n mod 65536 + 15 * (n div 65536)"

lemma chop_mod: "chop n mod BASE = n mod BASE"
proof -
  have "n = chop n + BASE * (n div 65536)" using mod_mult_div_eq [of n 65536] by (simp add: chop_def)
  then show ?thesis by (metis mod_mult_self2)
qed

lemma CHOP_chop:
  fixes a :: "'a::len word"
  assumes "32 \<le> LENGTH('a)" "unat a < 2 ^ 32"
  shows "unat (CHOP a) = chop (unat a)" "chop (unat a) < 2 ^ 20"
proof -
  have p: "(2::nat) ^ 32 \<le> 2 ^ LENGTH('a)" using assms(1) by (rule power_increasing) simp
  have q: "unat a div 65536 < 65536" using assms(2) by (simp add: less_mult_imp_div_less)
  note b = bits16(1,2,4) [OF assms(1), where a = a]
  have "drop_bit 16 a \<le> push_bit 4 (drop_bit 16 a)" using assms(2) b by (simp add: word_le_nat_alt)
  then have "unat (push_bit 4 (drop_bit 16 a) - drop_bit 16 a) = 15 * (unat a div 65536)"
    using assms(2) b by (simp add: unat_sub)
  moreover have "unat a mod 65536 + 15 * (unat a div 65536) < 2 ^ 20" using q by simp
  ultimately show "unat (CHOP a) = chop (unat a)" "chop (unat a) < 2 ^ 20"
    using p b by (simp_all add: CHOP_def Let_def chop_def unat_word_ariths)
qed

lemma once_reduced: "n < 2 * BASE \<Longrightarrow> (if BASE \<le> n then n - BASE else n) = n mod BASE"
  by (simp add: le_mod_geq)

lemma reduce_word:
  fixes a :: "'a::len word"
  assumes "32 \<le> LENGTH('a)" "unat a < 2 * BASE"
  shows "unat (if a \<ge> of_nat BASE then a - of_nat BASE else a) = unat a mod BASE"
  using assms(2) bits16(3) [OF assms(1)] once_reduced [of "unat a"]
  by (auto simp: word_le_nat_alt unat_sub)

lemma MOD_mod:
  fixes a :: "'a::len word"
  assumes w: "32 \<le> LENGTH('a)"
  shows "unat a < 2 ^ 32 \<Longrightarrow> unat (MOD nd a) = unat a mod BASE" "unat a < 2 ^ 28 \<Longrightarrow> unat (MOD28 nd a) = unat a mod BASE"
proof -
  have div: "unat (a mod of_nat BASE) = unat a mod BASE" by (simp only: unat_mod_distrib bits16(3) [OF w])
  have m28: "unat (MOD28 True a) = unat a mod BASE" if a: "unat a < 2 ^ 28" for a :: "'a word"
  proof -
    have "unat a < 2 ^ 32" using a by simp
    note c = CHOP_chop [OF w this]
    have "unat a div 65536 < 4096" using a by (simp add: less_mult_imp_div_less)
    then have "unat (CHOP a) < 2 * BASE" using c mod_less_divisor [of 65536 "unat a"] by (simp add: chop_def)
    from reduce_word [OF w this] show ?thesis by (simp add: MOD28_def Let_def c chop_mod)
  qed
  show "unat (MOD nd a) = unat a mod BASE" if "unat a < 2 ^ 32"
    using m28 [of "CHOP a"] CHOP_chop [OF w that] div by (simp add: MOD_def Let_def chop_mod)
  show "unat (MOD28 nd a) = unat a mod BASE" if "unat a < 2 ^ 28"
    using m28 [OF that] div by (cases nd) (simp_all add: MOD28_def)
qed

section \<open>The checksum\<close>

lemma pack_word:
  fixes x y :: "'a::len word"
  assumes w: "32 \<le> LENGTH('a)" and "unat x < BASE" "unat y < BASE"
  shows "x OR push_bit 16 y = pack (unat x, unat y)"
proof -
  have "x AND push_bit 16 y = 0"
  proof (rule bit_eqI)
    fix n
    have "take_bit 16 x = x"
      using assms(2) by (simp add: word_unat_eq_iff unsigned_take_bit_eq take_bit_nat_eq_self)
    then have "bit x n \<Longrightarrow> n < 16" by (metis bit_take_bit_iff)
    then show "bit (x AND push_bit 16 y) n \<longleftrightarrow> bit 0 n" by (auto simp: bit_and_iff bit_push_bit_iff)
  qed
  then have "x OR push_bit 16 y = x + push_bit 16 y" by (simp add: disjunctive_add_eq_or)
  also have "\<dots> = pack (unat x, unat y)" by (simp add: pack_def push_bit_eq_mult)
  finally show ?thesis .
qed

definition halves :: "'a::len word \<Rightarrow> nat \<times> nat" where
  "halves adler = (unat adler mod 65536, unat adler div 65536 mod 65536)"

lemma nats_halves:
  fixes adler :: "'a::len word"
  assumes "32 \<le> LENGTH('a)"
  shows "nats (adler AND 0xffff, drop_bit 16 adler AND 0xffff) = halves adler"
  by (simp only: nats_def halves_def fst_conv snd_conv bits16(1,2) [OF assms])

lemma nats_less_sums: "fst (sums_from ds s) < BASE" "snd (sums_from ds s) < BASE"
  by (simp_all add: sums_from_def)

lemma nmax_loop_run:
  fixes s :: "'a::len sums"
  assumes w: "32 \<le> LENGTH('a)"
  shows "len \<le> length buf \<Longrightarrow> fst (nats s) < BASE \<Longrightarrow> snd (nats s) < BASE \<Longrightarrow>
    \<exists>s'. nmax_loop nd len buf s = Inr (len mod NMAX, drop (len - len mod NMAX) buf, s') \<and>
      nats s' = sums_from (take (len - len mod NMAX) buf) (nats s)"
proof (induction nd len buf s rule: nmax_loop.induct)
  case (1 nd len buf s)
  show ?case
  proof (cases "NMAX \<le> len")
    case False
    then have "len mod NMAX = len" by simp
    then show ?thesis using 1 False by (auto simp: nmax_loop.simps [of _ len] sums_from_def total_def weighted_def nats_def)
  next
    case True
    let ?ds = "take NMAX buf" and ?k = "len - len mod NMAX"
    let ?s = "wraw ?ds s"
    have p: "(2::nat) ^ 32 \<le> 2 ^ LENGTH('a)" using w by (rule power_increasing) simp
    have fit: "snd (raw ?ds (nats s)) < 2 ^ 32"
      using raw_fits [of ?ds "fst (nats s)" "snd (nats s)"] "1.prems" True by simp
    have ns: "nats ?s = raw ?ds (nats s)" by (rule wraw_raw) (use w fit p in simp_all)
    have "fst (raw ?ds (nats s)) < 2 ^ 32"
    proof -
      have "fst (raw ds s) \<le> snd (raw ds s)" if "ds \<noteq> []" for ds s
        using that by (cases ds rule: rev_cases) (auto simp: raw_append)
      moreover have "?ds \<noteq> []" using "1.prems"(1) True by auto
      ultimately have "fst (raw ?ds (nats s)) \<le> snd (raw ?ds (nats s))" by blast
      then show ?thesis using fit by (rule le_less_trans)
    qed
    then have small: "unat (fst ?s) < 2 ^ 32" "unat (snd ?s) < 2 ^ 32" using ns fit by (simp_all add: nats_def prod_eq_iff)
    have red: "nats (MOD nd (fst ?s), MOD nd (snd ?s)) = sums_from ?ds (nats s)"
      using MOD_mod(1) [OF w, of _ nd] small ns by (simp add: nats_def sums_from_raw prod_eq_iff)
    have step: "do16_loop (NMAX div 16) buf s = Inr (drop NMAX buf, ?s)"
      using do16_loop_run [of 347 buf s] "1.prems"(1) True by simp
    have "\<exists>s'. nmax_loop nd (len - NMAX) (drop NMAX buf) (MOD nd (fst ?s), MOD nd (snd ?s)) =
        Inr ((len - NMAX) mod NMAX, drop (len - NMAX - (len - NMAX) mod NMAX) (drop NMAX buf), s') \<and>
      nats s' = sums_from (take (len - NMAX - (len - NMAX) mod NMAX) (drop NMAX buf)) (nats (MOD nd (fst ?s), MOD nd (snd ?s)))"
      by (rule "1.IH" [OF True step]) (use "1.prems"(1) True in \<open>simp_all add: red nats_less_sums\<close>)
    moreover have m: "(len - NMAX) mod NMAX = len mod NMAX" using True by (simp add: le_mod_geq)
    moreover have k: "NMAX \<le> ?k"
      using mod_less_eq_dividend [of "len - NMAX" NMAX] m True by linarith
    moreover have "take ?k buf = ?ds @ take (len - NMAX - len mod NMAX) (drop NMAX buf)"
      using take_twice [of NMAX "len - NMAX - len mod NMAX" 0 buf] k by simp
    ultimately show ?thesis
      using True step by (subst nmax_loop.simps) (auto simp: red sums_from_append split_beta)
  qed
qed

lemma total_le: "total ds \<le> length ds * 255"
proof (induction ds)
  case (Cons d ds)
  then show ?case using unat_u8_lt [of d] by simp
qed simp

lemma small_sums:
  fixes s :: "'a::len sums"
  assumes w: "32 \<le> LENGTH('a)" and s: "fst (nats s) < BASE" "snd (nats s) < BASE" and n: "length ds < NMAX"
  shows "nats (MOD nd (fst (wraw ds s)), MOD nd (snd (wraw ds s))) = sums_from ds (nats s)"
    "nats (wraw ds s) = raw ds (nats s)"
proof -
  have p: "(2::nat) ^ 32 \<le> 2 ^ LENGTH('a)" using w by (rule power_increasing) simp
  have fit: "snd (raw ds (nats s)) < 2 ^ 32" using raw_fits [of ds "fst (nats s)" "snd (nats s)"] s n by simp
  show ns: "nats (wraw ds s) = raw ds (nats s)" by (rule wraw_raw) (use w fit p in simp_all)
  have "fst (raw ds (nats s)) < 2 ^ 32"
  proof -
    have "length ds * 255 < NMAX * 255" using n by simp
    with total_le [of ds] have "total ds < NMAX * 255" by (rule le_less_trans)
    then show ?thesis using s by (simp add: raw_closed)
  qed
  then have "unat (fst (wraw ds s)) < 2 ^ 32" "unat (snd (wraw ds s)) < 2 ^ 32" using ns fit by (simp_all add: nats_def prod_eq_iff)
  then show "nats (MOD nd (fst (wraw ds s)), MOD nd (snd (wraw ds s))) = sums_from ds (nats s)"
    using MOD_mod(1) [OF w, of _ nd] ns by (simp add: nats_def sums_from_raw prod_eq_iff)
qed

lemma pack_sums:
  fixes s :: "'a::len sums"
  assumes "32 \<le> LENGTH('a)" "nats s = t" "fst t < BASE" "snd t < BASE"
  shows "fst s OR push_bit 16 (snd s) = pack t"
  using pack_word [OF assms(1), of "fst s" "snd s"] assms by (auto simp: nats_def)

lemma adler32_z_run:
  fixes adler :: "'a::len word"
  assumes w: "32 \<le> LENGTH('a)" and h: "fst (halves adler) < BASE" "snd (halves adler) < BASE" and len: "len \<le> length buf"
  shows "adler32_z nd adler (Some buf) len = Inr (pack (sums_from (take len buf) (halves adler)))"
proof -
  let ?s = "(adler AND 0xffff, drop_bit 16 adler AND 0xffff)"
  note ns = nats_halves [OF w, of adler]
  consider (one) "len = 1" | (short) "len \<noteq> 1" "len < 16" | (long) "16 \<le> len" by linarith
  then show ?thesis
  proof cases
    case one
    then obtain b t where buf: "buf = b # t" using len by (cases buf) auto
    define x where "x = fst ?s + ucast b"
    define x' where "x' = (if x \<ge> of_nat BASE then x - of_nat BASE else x)"
    define y where "y = snd ?s + x'"
    define y' where "y' = (if y \<ge> of_nat BASE then y - of_nat BASE else y)"
    have p: "(2::nat) ^ 32 \<le> 2 ^ LENGTH('a)" using w by (rule power_increasing) simp
    have u: "unat (fst ?s) = fst (halves adler)" "unat (snd ?s) = snd (halves adler)" using ns by (simp_all add: nats_def prod_eq_iff)
    have d: "unat (ucast b :: 'a word) = unat b" by (rule unat_ucast_wide) (use w in simp)
    have "unat x = fst (halves adler) + unat b"
      using u(1) d h(1) p unat_u8_lt [of b] by (simp add: unat_word_ariths x_def)
    then have x': "unat x' = (fst (halves adler) + unat b) mod BASE"
      unfolding x'_def using reduce_word [OF w, of x] h(1) unat_u8_lt [of b] by simp
    have lt: "(fst (halves adler) + unat b) mod BASE < BASE" by simp
    have "unat y = snd (halves adler) + (fst (halves adler) + unat b) mod BASE"
      unfolding y_def using u(2) x' h(2) p lt by (simp add: unat_word_ariths)
    then have y': "unat y' = (snd (halves adler) + (fst (halves adler) + unat b) mod BASE) mod BASE"
      unfolding y'_def using reduce_word [OF w, of y] h(2) lt by simp
    have "nats (x', y') = sums_from [b] (halves adler)"
      by (simp add: nats_def x' y' sums_from_def mod_add_right_eq add.assoc)
    from pack_sums [OF w this nats_less_sums]
    have sum: "x' OR push_bit 16 y' = pack (sums_from (take len buf) (halves adler))" by (simp add: one buf)
    have "adler32_z nd adler (Some buf) len = Inr (x' OR push_bit 16 y')"
      unfolding adler32_z_def Let_def one buf y'_def y_def x'_def x_def
      by (simp only: option.case list.case fst_conv snd_conv if_True simp_thms)
    then show ?thesis by (simp only: sum)
  next
    case short
    let ?ds = "take len buf"
    define s where "s = wraw ?ds ?s"
    have n: "length ?ds < NMAX" "length ?ds \<le> 15" using short by simp_all
    have ns': "nats s = raw ?ds (halves adler)"
      unfolding s_def using small_sums(2) [OF w, of ?s ?ds] ns h n by simp
    have t: "total ?ds \<le> 15 * 255" using total_le [of ?ds] n(2) by simp
    have "length ?ds * fst (halves adler) \<le> 15 * 65520" using n(2) h by (intro mult_le_mono) simp_all
    moreover have "255 * (length ?ds * (length ?ds + 1)) \<le> 255 * (15 * 16)"
      using n(2) by (intro mult_le_mono2 mult_le_mono) simp_all
    ultimately have b: "snd (nats s) < 2 ^ 28"
      using weighted_le [of ?ds] h unfolding ns' raw_closed by simp
    have "unat (if fst s \<ge> of_nat BASE then fst s - of_nat BASE else fst s) = fst (nats s) mod BASE"
      using reduce_word [OF w, of "fst s"] ns' t h by (simp add: nats_def raw_closed prod_eq_iff)
    moreover have "unat (MOD28 nd (snd s)) = snd (nats s) mod BASE"
      using MOD_mod(2) [OF w, of "snd s" nd] b by (simp add: nats_def)
    ultimately have "nats (if fst s \<ge> of_nat BASE then fst s - of_nat BASE else fst s, MOD28 nd (snd s)) = sums_from ?ds (halves adler)"
      unfolding nats_def [of "(_, _)"] fst_conv snd_conv ns' by (simp only: sums_from_raw)
    note sum = pack_sums [OF w this nats_less_sums, unfolded fst_conv snd_conv]
    have run: "byte_loop len buf ?s = Inr (fst s, snd s)" using byte_loop_run [OF len, of ?s] by (simp add: s_def)
    show ?thesis
      unfolding adler32_z_def Let_def
      by (simp only: short option.case run rbind_simps prod.case if_True if_False simp_thms sum)
  next
    case long
    let ?k = "len - len mod NMAX"
    obtain s' where s': "nmax_loop nd len buf ?s = Inr (len mod NMAX, drop ?k buf, s')"
      "nats s' = sums_from (take ?k buf) (halves adler)"
      using nmax_loop_run [OF w len, of ?s nd] h by (auto simp: ns)
    have whole: "take len buf = take ?k buf @ take (len mod NMAX) (drop ?k buf)"
      using take_twice [of ?k "len mod NMAX" 0 buf] by simp
    have c: "(len = 1) = False" "(len < 16) = False" using long by auto
    have s'p: "nmax_loop nd len buf ?s = Inr (len mod NMAX, drop ?k buf, fst s', snd s')" using s'(1) by simp
    show ?thesis
    proof (cases "len mod NMAX = 0")
      case True
      note sum = pack_sums [OF w s'(2) nats_less_sums]
      have "take len buf = take ?k buf" using True by simp
      then show ?thesis
        unfolding adler32_z_def Let_def
        by (simp only: c option.case s'p rbind_simps prod.case if_True if_False simp_thms True sum)
    next
      case False
      let ?ds = "take (len mod NMAX) (drop ?k buf)"
      have r: "rest_loop (len mod NMAX) (drop ?k buf) (fst s', snd s') = Inr (fst (wraw ?ds s'), snd (wraw ?ds s'))"
        using rest_loop_run [of "len mod NMAX" "drop ?k buf" s'] len by simp
      have "nats (MOD nd (fst (wraw ?ds s')), MOD nd (snd (wraw ?ds s'))) = sums_from ?ds (nats s')"
        by (rule small_sums(1) [OF w]) (simp_all add: s'(2) nats_less_sums)
      note sum = pack_sums [OF w this nats_less_sums, unfolded fst_conv snd_conv]
      show ?thesis
        unfolding adler32_z_def Let_def
        by (simp only: c option.case s'p r rbind_simps prod.case if_True if_False simp_thms False sum)
          (simp only: whole sums_from_append s'(2))
    qed
  qed
qed

end
