(* ===== verification/Adler32_Combine.thy ===== *)
theory Adler32_Combine
  imports Adler32_Sums
begin

text \<open>
  \<^verbatim>\<open>adler32_combine\<close>: the checksum of a text from those of its parts, and what the checksum functions
  compute for texts that arrive in pieces.
\<close>

lemma MOD63_mod:
  assumes "0 \<le> a" "a < 2 ^ 63"
  shows "MOD63 nd a = a mod int BASE"
proof (cases nd)
  case True
  have E: "x AND 0xffff = x mod 65536" "x AND 0xffffffff = x mod 4294967296"
    "drop_bit 16 x = x div 65536" "drop_bit 32 x = x div 4294967296"
    "push_bit 8 x - push_bit 5 x + x = x * 225" "push_bit 4 x - x = x * 15" for x :: int
  proof -
    have "x AND 0xffff = take_bit 16 x" "x AND 0xffffffff = take_bit 32 x"
      by (simp_all add: take_bit_eq_mask mask_eq_exp_minus_1)
    then show "x AND 0xffff = x mod 65536" "x AND 0xffffffff = x mod 4294967296"
      by (simp_all add: take_bit_eq_mod)
  qed (simp_all add: drop_bit_eq_div push_bit_eq_mult)
  define b where "b = a mod 4294967296 + a div 4294967296 * 225"
  define c where "c = b mod 65536 + b div 65536 * 15"
  define d where "d = c mod 65536 + c div 65536 * 15"
  have run: "MOD63 True a = (if d \<ge> int BASE then d - int BASE else d)"
    by (simp only: MOD63_def Let_def E if_True b_def c_def d_def)
  have "a = b + int BASE * (65551 * (a div 4294967296))" using mod_mult_div_eq [of a 4294967296] by (simp add: b_def)
  moreover have "b = c + int BASE * (b div 65536)" using mod_mult_div_eq [of b 65536] by (simp add: c_def)
  moreover have "c = d + int BASE * (c div 65536)" using mod_mult_div_eq [of c 65536] by (simp add: d_def)
  ultimately have eq: "a mod int BASE = d mod int BASE" by (metis mod_mult_self2)
  have "a div 4294967296 < 2147483648" "0 \<le> a div 4294967296" "a mod 4294967296 < 4294967296" "0 \<le> a mod 4294967296"
    using assms by simp_all
  then have "0 \<le> b" "b < 487478788096" unfolding b_def by linarith+
  then have "b div 65536 < 7438336" "0 \<le> b div 65536" "b mod 65536 < 65536" "0 \<le> b mod 65536" by simp_all
  then have "0 \<le> c" "c < 111640576" unfolding c_def by linarith+
  then have "c div 65536 < 1704" "0 \<le> c div 65536" "c mod 65536 < 65536" "0 \<le> c mod 65536" by simp_all
  then have d: "0 \<le> d" "d < 2 * int BASE" unfolding d_def by linarith+
  have "(if d \<ge> int BASE then d - int BASE else d) = d mod int BASE"
  proof (cases "int BASE \<le> d")
    case True
    then have "(d - int BASE) mod int BASE = d - int BASE" using d by (intro mod_pos_pos_trivial) auto
    with True show ?thesis by (metis minus_mod_self2)
  qed (use d in simp)
  then show ?thesis using True run eq by simp
qed (simp add: MOD63_def)

lemma halves_pack:
  assumes "32 \<le> LENGTH('a::len)" "fst t < BASE" "snd t < BASE"
  shows "halves (pack t :: 'a word) = t" "unat (pack t :: 'a word) = fst t + 65536 * snd t"
proof -
  have "(2::nat) ^ 32 \<le> 2 ^ LENGTH('a)" using assms(1) by (rule power_increasing) simp
  then show u: "unat (pack t :: 'a word) = fst t + 65536 * snd t"
    unfolding pack_def by (intro unat_of_nat_small) (use assms in simp)
  show "halves (pack t :: 'a word) = t"
    unfolding halves_def u using assms(2,3) by (simp add: prod_eq_iff)
qed

lemma twice_reduced: "n < 4 * BASE \<Longrightarrow>
    (let n = (if 2 * BASE \<le> n then n - 2 * BASE else n) in if BASE \<le> n then n - BASE else n) = n mod BASE"
  by (auto simp: Let_def le_mod_geq)

lemma thrice_reduced: "n < 3 * BASE \<Longrightarrow>
    (let n = (if BASE \<le> n then n - BASE else n) in if BASE \<le> n then n - BASE else n) = n mod BASE"
  by (auto simp: Let_def le_mod_geq)

lemma unat_reduce:
  fixes x :: "'a::len word"
  shows "unat (if x \<ge> k then x - k else x) = (if unat k \<le> unat x then unat x - unat k else unat x)"
  by (auto simp: word_le_nat_alt unat_sub)

lemma combine_run:
  fixes a1 b1 a2 b2 n :: nat
  assumes w: "32 \<le> LENGTH('a::len)" and h: "a1 < BASE" "b1 < BASE" "a2 < BASE" "b2 < BASE" and n: "n < 2 ^ 63"
  shows "adler32_combine_any nd (pack (a1, b1) :: 'a word) (pack (a2, b2)) (int n) =
    pack ((a1 + a2 + (BASE - 1)) mod BASE, (n * a1 + b1 + b2 + (BASE - n mod BASE)) mod BASE)"
proof -
  have p: "(2::nat) ^ 32 \<le> 2 ^ LENGTH('a)" using w by (rule power_increasing) simp
  define ad1 ad2 :: "'a word" where "ad1 = pack (a1, b1)" and "ad2 = pack (a2, b2)"
  have hv: "halves ad1 = (a1, b1)" "halves ad2 = (a2, b2)"
    unfolding ad1_def ad2_def by (rule halves_pack(1) [OF w]; use h in simp)+
  have u: "unat (ad1 AND 0xffff) = a1" "unat (ad2 AND 0xffff) = a2"
    "unat (drop_bit 16 ad1 AND 0xffff) = b1" "unat (drop_bit 16 ad2 AND 0xffff) = b2"
    using nats_halves [OF w, of ad1] nats_halves [OF w, of ad2] hv by (simp_all add: nats_def)
  define r where "r = n mod BASE"
  define rem :: u32 where "rem = of_int (MOD63 nd (int n))"
  have r: "r < BASE" by (simp add: r_def)
  have "MOD63 nd (int n) = int r" using n MOD63_mod [of "int n" nd] by (simp add: r_def zmod_int)
  then have "rem = of_nat r" by (simp add: rem_def)
  then have rem: "unat rem = r" using r by (simp add: unat_of_nat_small)
  have remw: "unat (ucast rem :: 'a word) = r"
    using rem r p by (simp add: unsigned_ucast_eq take_bit_nat_eq_self)
  define s2 :: "'a word" where "s2 = MOD nd (ucast rem * (ad1 AND 0xffff))"
  have "r * a1 \<le> 65520 * 65520" using r h by (intro mult_le_mono) simp_all
  then have "unat (ucast rem * (ad1 AND 0xffff) :: 'a word) = r * a1" using p by (simp add: unat_word_ariths remw u)
  then have s2: "unat s2 = r * a1 mod BASE"
    unfolding s2_def using MOD_mod(1) [OF w] \<open>r * a1 \<le> _\<close> by simp
  define x y :: "'a word" where "x = (ad1 AND 0xffff) + ((ad2 AND 0xffff) + of_nat BASE - 1)"
    and "y = s2 + ((drop_bit 16 ad1 AND 0xffff) + (drop_bit 16 ad2 AND 0xffff) + of_nat BASE - ucast rem)"
  note base = bits16(3) [OF w]
  have x: "unat x = a1 + a2 + (BASE - 1)"
  proof -
    define c :: "'a word" where "c = (ad2 AND 0xffff) + of_nat BASE"
    have "unat c = a2 + BASE" unfolding c_def using p h by (simp only: unat_word_ariths u base) simp
    then have "unat (c - 1) = a2 + (BASE - 1)" using unat_sub [of 1 c] by (simp add: word_le_nat_alt)
    then show ?thesis unfolding x_def c_def [symmetric] using p h by (simp only: unat_word_ariths u) simp
  qed
  have lt: "r * a1 mod BASE < BASE" by simp
  have y: "unat y = r * a1 mod BASE + (b1 + b2 + BASE - r)"
  proof -
    define c :: "'a word" where "c = (drop_bit 16 ad1 AND 0xffff) + (drop_bit 16 ad2 AND 0xffff) + of_nat BASE"
    have "unat c = b1 + b2 + BASE" unfolding c_def using p h by (simp only: unat_word_ariths u base) simp
    then have "unat (c - ucast rem) = b1 + b2 + BASE - r"
      using r unat_sub [of "ucast rem" c] by (simp add: word_le_nat_alt remw)
    then show ?thesis unfolding y_def c_def [symmetric] using p h lt by (simp only: unat_word_ariths s2) simp
  qed
  define x1 where "x1 = (if x \<ge> of_nat BASE then x - of_nat BASE else x)"
  define x2 where "x2 = (if x1 \<ge> of_nat BASE then x1 - of_nat BASE else x1)"
  define y1 where "y1 = (if y \<ge> push_bit 1 (of_nat BASE) then y - push_bit 1 (of_nat BASE) else y)"
  define y2 where "y2 = (if y1 \<ge> of_nat BASE then y1 - of_nat BASE else y1)"
  have base2: "unat (push_bit 1 (of_nat BASE) :: 'a word) = 2 * BASE"
    using p by (simp only: unsigned_push_bit_eq base) (simp add: push_bit_eq_mult take_bit_nat_eq_self)
  have x2: "unat x2 = (a1 + a2 + (BASE - 1)) mod BASE"
    using thrice_reduced [of "a1 + a2 + (BASE - 1)"] h
    unfolding x2_def x1_def unat_reduce base x Let_def by simp
  have y2: "unat y2 = (r * a1 mod BASE + (b1 + b2 + BASE - r)) mod BASE"
    using twice_reduced [of "r * a1 mod BASE + (b1 + b2 + BASE - r)"] h lt
    unfolding y2_def y1_def unat_reduce base base2 y Let_def by simp
  have "(r * a1 mod BASE + (b1 + b2 + BASE - r)) mod BASE = (r * a1 + (b1 + b2 + BASE - r)) mod BASE"
    by (rule mod_add_left_eq)
  also have "\<dots> = (n * a1 + (b1 + b2 + BASE - r)) mod BASE"
    unfolding r_def by (intro mod_add_cong) (simp_all add: mod_mult_left_eq)
  also have "n * a1 + (b1 + b2 + BASE - r) = n * a1 + b1 + b2 + (BASE - n mod BASE)" using r by (simp add: r_def)
  finally have y2': "unat y2 = (n * a1 + b1 + b2 + (BASE - n mod BASE)) mod BASE" using y2 by simp
  have "adler32_combine_any nd ad1 ad2 (int n) = x2 OR push_bit 16 y2"
    unfolding adler32_combine_any_def Let_def
    by (simp only: x2_def x1_def x_def y2_def y1_def y_def s2_def rem_def) simp
  also have "\<dots> = pack (unat x2, unat y2)"
    by (rule pack_word [OF w]) (simp_all add: x2 y2)
  finally show ?thesis by (simp only: x2 y2' ad1_def ad2_def)
qed

lemma sums_parts:
  "sums_from (xs @ ys) (1, 0) =
    (let s = sums_from xs (1, 0); t = sums_from ys (1, 0); n = length ys in
     ((fst s + fst t + (BASE - 1)) mod BASE, (n * fst s + snd s + snd t + (BASE - n mod BASE)) mod BASE))"
proof -
  obtain a b where s: "sums_from xs (1, 0) = (a, b)" by fastforce
  let ?n = "length ys" and ?t = "total ys" and ?w = "weighted ys"
  have "(a + (1 + ?t) mod BASE + (BASE - 1)) mod BASE = (a + (1 + ?t) + (BASE - 1)) mod BASE"
    by (intro mod_add_cong) (simp_all add: mod_add_right_eq)
  also have "a + (1 + ?t) + (BASE - 1) = (a + ?t) + BASE" by simp
  finally have fst: "(a + (1 + ?t) mod BASE + (BASE - 1)) mod BASE = (a + ?t) mod BASE" by (simp only: mod_add_self2)
  have "(?n * a + b + (?n + ?w) mod BASE + (BASE - ?n mod BASE)) mod BASE =
      (?n * a + b + (?n + ?w) + (BASE - ?n mod BASE)) mod BASE"
    by (intro mod_add_cong) (simp_all add: mod_add_right_eq)
  also have "?n * a + b + (?n + ?w) + (BASE - ?n mod BASE) = (b + ?n * a + ?w) + (?n div BASE + 1) * BASE"
  proof -
    have "?n + (BASE - ?n mod BASE) = (?n div BASE + 1) * BASE"
      using div_mult_mod_eq [of ?n BASE] mod_less_divisor [of BASE ?n] by (simp only: distrib_right)
    then show ?thesis by linarith
  qed
  finally have snd: "(?n * a + b + (?n + ?w) mod BASE + (BASE - ?n mod BASE)) mod BASE = (b + ?n * a + ?w) mod BASE"
    by (simp only: mod_mult_self1)
  have t: "sums_from ys (1, 0) = ((1 + ?t) mod BASE, (?n + ?w) mod BASE)" by (simp add: sums_from_def)
  have "sums_from (xs @ ys) (1, 0) = ((a + ?t) mod BASE, (b + ?n * a + ?w) mod BASE)"
    by (simp only: sums_from_append s sums_from_def [of ys] fst_conv snd_conv)
  then show ?thesis unfolding Let_def s t fst_conv snd_conv fst snd .
qed

text \<open>
  C19: With either way to reduce and with 32-bit or wider words, \<open>adler32_z\<close> returns the checksum of
  RFC 1950: from the initial value over a text, and from the checksum of a text over what follows
  it; no deferred sum overflows and nothing is read behind the given length. \<open>adler32_combine\<close>
  gives the checksum of a text from those of its two parts.
\<close>

theorem adler32_is_rfc1950:
  assumes "32 \<le> LENGTH('a::len)" and "length ys < 2 ^ 63"
  shows "adler32_z nd 1 (Some (xs @ rest)) (length xs) = Inr (rfc1950_adler xs :: 'a word) \<and>
    adler32_z nd (rfc1950_adler xs :: 'a word) (Some (ys @ rest)) (length ys) = Inr (rfc1950_adler (xs @ ys)) \<and>
    adler32_combine nd (rfc1950_adler xs :: 'a word) (rfc1950_adler ys) (int (length ys)) = rfc1950_adler (xs @ ys)"
proof -
  note w = assms(1)
  have one: "halves (1 :: 'a word) = (1, 0)" by (simp add: halves_def)
  have h: "halves (rfc1950_adler zs :: 'a word) = sums_from zs (1, 0)" for zs
    unfolding rfc1950_adler_def by (rule halves_pack(1) [OF w nats_less_sums])
  have "adler32_combine nd (rfc1950_adler xs :: 'a word) (rfc1950_adler ys) (int (length ys)) = rfc1950_adler (xs @ ys)"
    using combine_run [OF w nats_less_sums(1) [of xs "(1, 0)"] nats_less_sums(2) [of xs "(1, 0)"] nats_less_sums(1) [of ys "(1, 0)"]
        nats_less_sums(2) [of ys "(1, 0)"] assms(2), of nd]
    by (simp only: adler32_combine_def rfc1950_adler_def sums_parts [of xs ys] Let_def prod.collapse)
  moreover have "adler32_z nd 1 (Some (xs @ rest)) (length xs) = Inr (rfc1950_adler xs :: 'a word)"
    using adler32_z_run [OF w, of 1 "length xs" "xs @ rest" nd] by (simp add: one rfc1950_adler_def)
  moreover have "adler32_z nd (rfc1950_adler xs :: 'a word) (Some (ys @ rest)) (length ys) = Inr (rfc1950_adler (xs @ ys))"
    using adler32_z_run [OF w, of "rfc1950_adler xs" "length ys" "ys @ rest" nd]
    by (simp add: h nats_less_sums rfc1950_adler_def [of "xs @ ys"] sums_from_append)
  ultimately show ?thesis by simp
qed

theorem adler32_is_rfc1950_witness:
  "adler32_z True (1 :: 32 word) (Some (map of_nat [87, 105, 107, 105])) 4 = Inr 0x03da0195 \<and>
   adler32_combine True (rfc1950_adler [87, 105] :: 32 word) (rfc1950_adler [107, 105]) 2 = 0x03da0195"
proof -
  have r: "rfc1950_adler [87, 105, 107, 105] = (0x03da0195 :: 32 word)"
    by (simp add: rfc1950_adler_def sums_from_def pack_def)
  have four: "(4 :: nat) = Suc (Suc (Suc (Suc 0)))" by simp
  from adler32_is_rfc1950 [where 'a = 32, of "[107, 105]" True "[87, 105]" "[107, 105]"]
    adler32_is_rfc1950 [where 'a = 32, of "[]" True "[87, 105, 107, 105]" "[]"]
  show ?thesis unfolding four by (simp add: r)
qed

end
