(* ===== verification/Curl_Base64.thy ===== *)
theory Curl_Base64
  imports Base64_Correct Curl_Text
begin

text \<open>
  \<^verbatim>\<open>lib/base64.c\<close> of the vendored libcurl. A C string is its content, read with the terminator
  behind it; the input of the encoder is the list of the bytes that may be read. The decoder
  writes into an explicit buffer at a position, as the pointer arithmetic of the code does.
\<close>

section \<open>The functions\<close>

definition base64 :: "u8 list" where
  "base64 = map byte_of_char ''ABCDEFGHIJKLMNOPQRSTUVWXYZabcdefghijklmnopqrstuvwxyz0123456789+/''"

definition base64url :: "u8 list" where
  "base64url = map byte_of_char ''ABCDEFGHIJKLMNOPQRSTUVWXYZabcdefghijklmnopqrstuvwxyz0123456789-_''"

definition cat :: "u8 list \<Rightarrow> nat \<Rightarrow> u8" where
  "cat s i = (if i < length s then s ! i else 0)"

text \<open>The search through the table: the loop ends at the character or at the terminator.\<close>

fun find_char :: "u8 \<Rightarrow> u8 list \<Rightarrow> nat \<Rightarrow> nat option" where
  "find_char c [] v = (if c = 0 then Some v else None)"
| "find_char c (p # ps) v = (if p = c then Some v else find_char c ps (v + 1))"

fun quantum_loop :: "u8 list \<Rightarrow> u64 \<Rightarrow> nat \<Rightarrow> (u64 \<times> nat) option" where
  "quantum_loop [] x padding = Some (x, padding)"
| "quantum_loop (s # src) x padding =
    (if s = 61 then quantum_loop src (push_bit 6 x) (padding + 1)
     else case find_char s base64 0 of
       None \<Rightarrow> None
     | Some v \<Rightarrow> quantum_loop src (push_bit 6 x + of_nat v) padding)"

text \<open>The buffer and the returned \<^verbatim>\<open>size_t\<close>.\<close>

definition decodeQuantum :: "u8 list \<Rightarrow> nat \<Rightarrow> u8 list \<Rightarrow> fault + u8 list \<times> u64" where
  "decodeQuantum buf dest src =
    (case quantum_loop (take 4 src) 0 0 of
       None \<Rightarrow> Inr (buf, 0)
     | Some (x, padding) \<Rightarrow>
         rbind (if padding < 1 then set_at buf (dest + 2) (ucast (x AND 0xFF)) else Inr buf) (\<lambda>buf.
         let x = drop_bit 8 x in
         rbind (if padding < 2 then set_at buf (dest + 1) (ucast (x AND 0xFF)) else Inr buf) (\<lambda>buf.
         let x = drop_bit 8 x in
         rbind (set_at buf dest (ucast (x AND 0xFF))) (\<lambda>buf. Inr (buf, 3 - of_nat padding)))))"

fun quanta_loop :: "nat \<Rightarrow> u8 list \<Rightarrow> u8 list \<Rightarrow> nat \<Rightarrow> fault + (u8 list \<times> nat) option" where
  "quanta_loop 0 src buf pos = Inr (Some (buf, pos))"
| "quanta_loop (Suc n) src buf pos =
    rbind (decodeQuantum buf pos src) (\<lambda>(buf, result).
      if result = 0 then Inr None
      else quanta_loop n (drop 4 src) buf (unat (of_nat pos + result)))"

text \<open>The code, \<^verbatim>\<open>*outptr\<close> and \<^verbatim>\<open>*outlen\<close>; the fresh buffer is given as zero bytes, all of it is written.\<close>

definition Curl_base64_decode :: "u8 list \<Rightarrow> sched \<Rightarrow> fault + CURLcode \<times> u8 list option \<times> nat" where
  "Curl_base64_decode src m =
    (let srclen = length src in
     if srclen = 0 \<or> srclen mod 4 \<noteq> 0 then Inr (CURLE_BAD_CONTENT_ENCODING, None, 0)
     else let len = length (takeWhile (\<lambda>c. c \<noteq> 61) src);
              padding = (if cat src len = 61 then if cat src (len + 1) = 61 then 2 else 1 else 0)
     in if len + padding \<noteq> srclen then Inr (CURLE_BAD_CONTENT_ENCODING, None, 0)
     else let numQuantums = srclen div 4; rawlen = numQuantums * 3 - padding
     in if \<not> fst (ddns_mem_alloc (rawlen + 1) m) then Inr (CURLE_OUT_OF_MEMORY, None, 0)
     else rbind (quanta_loop numQuantums src (replicate (rawlen + 1) 0) 0) (\<lambda>r.
       case r of
         None \<Rightarrow> Inr (CURLE_BAD_CONTENT_ENCODING, None, 0)
       | Some (buf, pos) \<Rightarrow> rbind (set_at buf pos 0) (\<lambda>buf. Inr (CURLE_OK, Some buf, rawlen))))"

text \<open>The four characters of a group; \<open>snprintf\<close> writes them and a terminator.\<close>

definition obuf :: "u8 list \<Rightarrow> u8 list" where
  "obuf ibuf =
    [drop_bit 2 (ibuf ! 0 AND 0xFC),
     push_bit 4 (ibuf ! 0 AND 0x03) OR drop_bit 4 (ibuf ! 1 AND 0xF0),
     push_bit 2 (ibuf ! 1 AND 0x0F) OR drop_bit 6 (ibuf ! 2 AND 0xC0),
     ibuf ! 2 AND 0x3F]"

definition quantum_text :: "u8 list \<Rightarrow> u8 list \<Rightarrow> u8 list" where
  "quantum_text table64 indata =
    (let inputparts = length indata;
         o4 = map (\<lambda>b. table64 ! unat b) (obuf (indata @ replicate (3 - inputparts) 0))
     in if inputparts = 1 then take 2 o4 @ [61, 61]
        else if inputparts = 2 then take 3 o4 @ [61] else o4)"

function b64_parts_loop :: "u8 list \<Rightarrow> nat \<Rightarrow> nat \<Rightarrow> u8 list \<Rightarrow> u8 list \<Rightarrow> fault + u8 list" where
  "b64_parts_loop table64 cap insize indata out =
    (if insize = 0 then rbind (emit cap [0] out) (\<lambda>_. Inr out)
     else let inputparts = min 3 insize in
       if length indata < inputparts then Inl Read_past_end
       else let q = quantum_text table64 (take inputparts indata) in
         rbind (emit cap (q @ [0]) out) (\<lambda>_.
           b64_parts_loop table64 cap (insize - inputparts) (drop inputparts indata) (out @ q)))"
  by pat_completeness auto
termination by (relation "measure (\<lambda>(_, _, insize, _, _). insize)") auto

declare b64_parts_loop.simps [simp del]

definition base64_encode_any :: "u8 list \<Rightarrow> u8 list \<Rightarrow> nat \<Rightarrow> sched \<Rightarrow> fault + CURLcode \<times> u8 list option \<times> nat" where
  "base64_encode_any table64 inputbuff insize m =
    rbind (if insize \<noteq> 0 then Inr insize
           else if 0 \<in> set inputbuff then Inr (length (takeWhile (\<lambda>c. c \<noteq> 0) inputbuff)) else Inl Read_past_end) (\<lambda>insize.
      let size = unat (of_nat insize * 4 div 3 + 4 :: u64) in
      if \<not> fst (ddns_mem_alloc size m) then Inr (CURLE_OUT_OF_MEMORY, None, 0)
      else rbind (b64_parts_loop table64 size insize inputbuff []) (\<lambda>out.
        Inr (CURLE_OK, Some out, length out)))"

definition Curl_base64_encode :: "u8 list \<Rightarrow> nat \<Rightarrow> sched \<Rightarrow> fault + CURLcode \<times> u8 list option \<times> nat" where
  "Curl_base64_encode inputbuff insize m = base64_encode_any base64 inputbuff insize m"

definition Curl_base64url_encode :: "u8 list \<Rightarrow> nat \<Rightarrow> sched \<Rightarrow> fault + CURLcode \<times> u8 list option \<times> nat" where
  "Curl_base64url_encode inputbuff insize m = base64_encode_any base64url inputbuff insize m"

section \<open>The encoder\<close>

lemma base64_table: "base64 = base64_enc_map"
  by code_simp

lemma obuf_sextets:
  "obuf [a, b, c] = map (\<lambda>e. ucast (e AND 0x3F)) [drop_bit 2 (ucast a), six2 a b, six3 b c, ucast c]"
proof -
  have m: "x AND 0xFC = x AND NOT 3" "x AND 0xF0 = x AND NOT 15" "x AND 0xC0 = x AND NOT 63" for x :: u8
    by (rule arg_cong [where f = "\<lambda>k. x AND k"]; code_simp)+
  show ?thesis
    unfolding obuf_def by (simp, intro conjI; rule u8_eqI, elim insertE emptyE;
      simp add: m and_mask_numerals bit_simps six_bits)
qed

lemma quantum_text_group:
  "quantum_text base64 [a, b, c] = enc_group a b c"
  "quantum_text base64 [a, b] = take 3 (enc_group a b 0) @ [61]"
  "quantum_text base64 [a] = take 2 (enc_group a 0 0) @ [61, 61]"
proof -
  have "unat (ucast (e AND 0x3F :: u32) :: u8) = unat (e AND 0x3F)" for e
    using unat_and_63 [of e] by (simp add: unsigned_ucast_eq take_bit_nat_eq_self)
  then have e: "base64 ! unat (ucast (e AND 0x3F :: u32) :: u8) = enc_at e" for e
    by (simp add: base64_table enc_at_def)
  show "quantum_text base64 [a, b, c] = enc_group a b c"
    "quantum_text base64 [a, b] = take 3 (enc_group a b 0) @ [61]"
    "quantum_text base64 [a] = take 2 (enc_group a 0 0) @ [61, 61]"
    by (simp_all add: quantum_text_def Let_def obuf_sextets e enc_group_def numeral_2_eq_2)
qed

lemma quantum_text_rfc4648:
  assumes "0 < n" "n \<le> length src"
  shows "rfc4648 (take n src) = quantum_text base64 (take (min 3 n) src) @ rfc4648 (take (n - min 3 n) (drop (min 3 n) src))"
proof -
  consider "n = 1" | "n = 2" | k where "n = Suc (Suc (Suc k))"
    using assms(1) by (metis One_nat_def Suc_1 neq0_conv not0_implies_Suc)
  then show ?thesis
  proof cases
    case 1
    then obtain a t where "src = a # t" using assms by (cases src) auto
    with 1 show ?thesis by (simp add: quantum_text_group rfc4648_short del: rfc4648.simps(2-4))
  next
    case 2
    then obtain a b t where "src = a # b # t" using assms by (cases src; cases "tl src") auto
    with 2 show ?thesis by (simp add: quantum_text_group rfc4648_short numeral_2_eq_2 del: rfc4648.simps(2-4))
  next
    case 3
    then obtain a b c t where "src = a # b # c # t" using assms by (cases src; cases "tl src"; cases "tl (tl src)") auto
    with 3 show ?thesis by (simp add: quantum_text_group rfc4648_short numeral_3_eq_3 del: rfc4648.simps(2-4))
  qed
qed

lemma parts_size: "4 * ((n + 2) div 3) + 1 \<le> n * 4 div 3 + 4" for n :: nat
  by (cases n rule: nat_mod3_cases) simp_all

text \<open>A table that renames the characters of the standard alphabet but not the padding.\<close>

lemma quantum_text_map:
  assumes "indata \<noteq> []" "length indata \<le> 3" "f 61 = 61"
  shows "quantum_text (map f base64) indata = map f (quantum_text base64 indata)"
proof -
  have 64: "length base64 = 64" by code_simp
  have pad: "\<exists>a b c. indata @ replicate (3 - length indata) 0 = [a, b, c]"
    using assms(1,2) by (cases indata; cases "tl indata"; cases "tl (tl indata)") (auto simp: numeral_3_eq_3)
  then obtain a b c where pad: "indata @ replicate (3 - length indata) 0 = [a, b, c]" by blast
  have "unat (ucast (e AND 0x3F :: u32) :: u8) < length base64" for e
    using unat_and_63 [of e] by (simp add: 64 unsigned_ucast_eq take_bit_nat_eq_self)
  then have "map (\<lambda>b. map f base64 ! unat b) (obuf [a, b, c]) = map f (map (\<lambda>b. base64 ! unat b) (obuf [a, b, c]))"
    by (simp add: obuf_sextets)
  then show ?thesis
    unfolding quantum_text_def Let_def pad by (simp add: take_map assms(3) del: map_map)
qed

lemma parts_loop_run:
  assumes "f 61 = 61" "insize \<le> length indata" "length out + 4 * ((insize + 2) div 3) + 1 \<le> cap"
  shows "b64_parts_loop (map f base64) cap insize indata out = Inr (out @ map f (rfc4648 (take insize indata)))"
  using assms(2,3)
proof (induction insize arbitrary: indata out rule: less_induct)
  case (less n)
  show ?case
  proof (cases "n = 0")
    case True
    then show ?thesis using less.prems by (simp add: b64_parts_loop.simps [of _ _ 0] emit_fits)
  next
    case False
    let ?k = "min 3 n" and ?q = "quantum_text base64 (take (min 3 n) indata)"
    have map: "quantum_text (map f base64) (take ?k indata) = map f ?q"
      by (rule quantum_text_map) (use False less.prems assms(1) in auto)
    have split: "rfc4648 (take n indata) = ?q @ rfc4648 (take (n - ?k) (drop ?k indata))"
      by (rule quantum_text_rfc4648) (use False less.prems in simp_all)
    have "length (rfc4648 (take n indata)) = 4 * ((n + 2) div 3)" "length (rfc4648 (take (n - ?k) (drop ?k indata))) = 4 * ((n - ?k + 2) div 3)"
      using less.prems by (simp_all add: bound_simps)
    then have len: "4 * ((n + 2) div 3) = length ?q + 4 * ((n - ?k + 2) div 3)" using split by simp
    have "emit cap (map f ?q @ [0]) out = Inr (out @ map f ?q @ [0])"
      by (rule emit_fits) (use len less.prems in simp)
    moreover have "b64_parts_loop (map f base64) cap (n - ?k) (drop ?k indata) (out @ map f ?q) =
        Inr ((out @ map f ?q) @ map f (rfc4648 (take (n - ?k) (drop ?k indata))))"
      by (rule less.IH) (use False len less.prems in \<open>auto intro: diff_le_mono\<close>)
    ultimately show ?thesis
      using False less.prems by (subst b64_parts_loop.simps) (simp add: Let_def map split)
  qed
qed

lemma malloc_size: "n < 2 ^ 60 \<Longrightarrow> unat (of_nat n * 4 div 3 + 4 :: u64) = n * 4 div 3 + 4"
proof -
  assume "n < 2 ^ 60"
  then have n: "n < 1152921504606846976" by simp
  have "unat (of_nat n * 4 :: u64) = n * 4"
    using n unat_of_nat_small [of "n * 4", where 'a = 64] by simp
  then have "unat (of_nat n * 4 div 3 :: u64) = n * 4 div 3" by (simp add: unat_div)
  moreover have "n * 4 div 3 + 4 < 18446744073709551616" using n by linarith
  ultimately show ?thesis by (simp add: unat_word_ariths)
qed

lemma encode_any_run:
  assumes "src \<noteq> []" "length src < 2 ^ 60" "f 61 = 61"
  shows "base64_encode_any (map f base64) src (length src) m =
    (if fst (ddns_mem_alloc (length src * 4 div 3 + 4) m) then Inr (CURLE_OK, Some (map f (rfc4648 src)), length (rfc4648 src))
     else Inr (CURLE_OUT_OF_MEMORY, None, 0))"
proof -
  have "b64_parts_loop (map f base64) (length src * 4 div 3 + 4) (length src) src [] = Inr ([] @ map f (rfc4648 (take (length src) src)))"
    by (rule parts_loop_run) (use assms(3) parts_size [of "length src"] in simp_all)
  with assms show ?thesis by (simp add: base64_encode_any_def malloc_size Let_def)
qed

text \<open>The URL alphabet renames two characters of the standard one.\<close>

definition url_char :: "u8 \<Rightarrow> u8" where
  "url_char c = (if c = 43 then 45 else if c = 47 then 95 else c)"

lemma base64url_table: "base64url = map url_char base64"
  by code_simp

lemma encode_run:
  assumes "src \<noteq> []" "length src < 2 ^ 60"
  shows "Curl_base64_encode src (length src) m =
    (if fst (ddns_mem_alloc (length src * 4 div 3 + 4) m) then Inr (CURLE_OK, Some (rfc4648 src), length (rfc4648 src))
     else Inr (CURLE_OUT_OF_MEMORY, None, 0))"
    "Curl_base64url_encode src (length src) m =
    (if fst (ddns_mem_alloc (length src * 4 div 3 + 4) m) then Inr (CURLE_OK, Some (map url_char (rfc4648 src)), length (rfc4648 src))
     else Inr (CURLE_OUT_OF_MEMORY, None, 0))"
  using encode_any_run [OF assms, of id m] encode_any_run [OF assms, of url_char m]
  by (simp_all add: Curl_base64_encode_def Curl_base64url_encode_def base64url_table, simp_all add: url_char_def)

section \<open>The decoder\<close>

lemma find_table: "list_all (\<lambda>k. find_char (base64 ! k) base64 0 = Some k) [0..<64]"
  by code_simp

lemma find_enc_at: "find_char (enc_at e) base64 0 = Some (unat (e AND 0x3F))"
proof -
  have "unat (e AND 0x3F) \<in> set [0..<64]" using unat_and_63 by simp
  then show ?thesis using find_table unfolding list_all_iff enc_at_def base64_table [symmetric] by blast
qed

lemma plus_comb: "push_bit 6 x + ucast (e AND 0x3F) = comb x e"
proof -
  have "push_bit 6 x + ucast (e AND 0x3F) = push_bit 6 x OR ucast (e AND 0x3F)"
    by (rule disjunctive_add) (auto simp: and_mask_numerals bit_simps)
  also have "\<dots> = comb x e"
    unfolding comb_def by (rule bit_word_eqI) (auto simp: and_mask_numerals bit_simps)
  finally show ?thesis .
qed

lemma quantum_steps:
  "quantum_loop (enc_at e # src) x p = quantum_loop src (comb x e) p"
  "quantum_loop (61 # src) x p = quantum_loop src (comb x 0) (p + 1)"
  by (simp_all add: find_enc_at plus_comb) (simp add: comb_def)

lemma byte_mask: "ucast (x AND 0xFF :: u64) = (ucast x :: u8)"
proof -
  have "x AND 0xFF = take_bit 8 x" by (simp add: take_bit_eq_mask mask_eq_exp_minus_1)
  then show ?thesis by (intro u8_eqI) (auto simp: bit_simps)
qed

lemma drop_8_8: "drop_bit 8 (drop_bit 8 x) = drop_bit 16 (x :: u64)"
  by simp

lemma quantum_full:
  assumes "dest + 2 < length buf"
  shows "decodeQuantum buf dest (enc_group a b c @ src) = Inr (buf[dest + 2 := c, dest + 1 := b, dest := a], 3)"
proof -
  have "quantum_loop (take 4 (enc_group a b c @ src)) 0 0 =
      Some (comb (comb (comb (comb 0 (drop_bit 2 (ucast a))) (six2 a b)) (six3 b c)) (ucast c), 0)"
    by (simp add: enc_group_def quantum_steps del: quantum_loop.simps(2))
  then show ?thesis
    using assms regroup [of 0 a b c] by (simp add: decodeQuantum_def set_at_def Let_def byte_mask drop_8_8 del: drop_bit_drop_bit)
qed

lemma quantum_short:
  "dest + 1 < length buf \<Longrightarrow> decodeQuantum buf dest (take 3 (enc_group a b 0) @ [61]) = Inr (buf[dest + 1 := b, dest := a], 2)"
  "dest < length buf \<Longrightarrow> decodeQuantum buf dest (take 2 (enc_group a 0 0) @ [61, 61]) = Inr (buf[dest := a], 1)"
proof -
  have "quantum_loop (take 4 (take 3 (enc_group a b 0) @ [61])) 0 0 =
      Some (comb (comb (comb (comb 0 (drop_bit 2 (ucast a))) (six2 a b)) (six3 b 0)) 0, 1)"
    by (simp add: enc_group_def quantum_steps del: quantum_loop.simps(2))
  then show "decodeQuantum buf dest (take 3 (enc_group a b 0) @ [61]) = Inr (buf[dest + 1 := b, dest := a], 2)"
    if "dest + 1 < length buf"
    using that regroup [of 0 a b 0] six_zero by (simp add: decodeQuantum_def set_at_def Let_def byte_mask drop_8_8 del: drop_bit_drop_bit)
  have "quantum_loop (take 4 (take 2 (enc_group a 0 0) @ [61, 61])) 0 0 =
      Some (comb (comb (comb (comb 0 (drop_bit 2 (ucast a))) (six2 a 0)) 0) 0, 2)"
    by (simp add: enc_group_def quantum_steps del: quantum_loop.simps(2))
  then show "decodeQuantum buf dest (take 2 (enc_group a 0 0) @ [61, 61]) = Inr (buf[dest := a], 1)"
    if "dest < length buf"
    using that regroup [of 0 a 0 0] six_zero by (simp add: decodeQuantum_def set_at_def Let_def byte_mask drop_8_8 del: drop_bit_drop_bit)
qed

lemma write3: "length us = n \<Longrightarrow> (us @ x # y # z # vs)[n + 2 := c, n + 1 := b, n := a] = us @ a # b # c # vs"
  "length us = n \<Longrightarrow> (us @ x # y # vs)[n + 1 := b, n := a] = us @ a # b # vs"
  "length us = n \<Longrightarrow> (us @ x # vs)[n := a] = us @ a # vs"
  by (simp_all add: list_update_append)

lemma quanta_rfc4648:
  assumes "length us + length src < 2 ^ 64" "length vs = length src + 1"
  shows "quanta_loop (length (rfc4648 src) div 4) (rfc4648 src) (us @ vs) (length us) =
    Inr (Some (us @ src @ [last vs], length us + length src))"
  using assms
proof (induction src arbitrary: us vs rule: rfc4648.induct)
  case 1
  then show ?case by (cases vs) auto
next
  case (2 a)
  then obtain x y where vs: "vs = [x, y]" by (auto simp: length_Suc_conv)
  have "unat (of_nat (length us) + 1 :: u64) = length us + 1"
    using 2 by (simp add: unat_word_ariths unat_of_nat_small)
  with quantum_short(2) [of "length us" "us @ vs" a] show ?case
    by (simp add: rfc4648_short vs write3 del: rfc4648.simps(2) ) (simp add: enc_group_def write3)
next
  case (3 a b)
  then obtain x y z where vs: "vs = [x, y, z]" by (auto simp: length_Suc_conv)
  have "unat (of_nat (length us) + 2 :: u64) = length us + 2"
    using 3 by (simp add: unat_word_ariths unat_of_nat_small)
  with quantum_short(1) [of "length us" "us @ vs" a b] show ?case
    by (simp add: rfc4648_short vs write3 del: rfc4648.simps(3)) (simp add: enc_group_def list_update_append)
next
  case (4 a b c src)
  then obtain x y z vs' where vs: "vs = x # y # z # vs'" "vs' \<noteq> []" by (auto simp: length_Suc_conv)
  have pos: "unat (of_nat (length us) + 3 :: u64) = length us + 3"
    using 4 by (simp add: unat_word_ariths unat_of_nat_small)
  have q: "decodeQuantum (us @ vs) (length us) (enc_group a b c @ rfc4648 src) = Inr (us @ a # b # c # vs', 3)"
    using quantum_full [of "length us" "us @ vs" a b c "rfc4648 src"] by (simp add: vs list_update_append)
  have IH: "quanta_loop (length (rfc4648 src) div 4) (rfc4648 src) ((us @ [a, b, c]) @ vs') (length (us @ [a, b, c])) =
      Inr (Some ((us @ [a, b, c]) @ src @ [last vs'], length (us @ [a, b, c]) + length src))"
    by (rule "4.IH") (use 4 vs in simp_all)
  have "length (rfc4648 (a # b # c # src)) div 4 = Suc (length (rfc4648 src) div 4)"
    by (simp add: rfc4648_short enc_group_def del: rfc4648.simps(4))
  moreover have "drop 4 (enc_group a b c @ rfc4648 src) = rfc4648 src" by (simp add: enc_group_def)
  ultimately show ?case
    using q IH pos vs by (simp add: rfc4648_short numeral_3_eq_3 del: rfc4648.simps(4))
qed

lemma rfc4648_padding:
  "\<exists>body p. rfc4648 src = body @ replicate p 61 \<and> 61 \<notin> set body \<and> p \<le> 2 \<and> length src + p = 3 * (length (rfc4648 src) div 4)"
proof (induction src rule: rfc4648.induct)
  case (2 a)
  show ?case
    by (rule exI [of _ "take 2 (enc_group a 0 0)"], rule exI [of _ 2])
      (simp add: rfc4648_short enc_group_def numeral_2_eq_2 del: rfc4648.simps(2))
next
  case (3 a b)
  show ?case
    by (rule exI [of _ "take 3 (enc_group a b 0)"], rule exI [of _ 1])
      (simp add: rfc4648_short enc_group_def numeral_2_eq_2 del: rfc4648.simps(3))
next
  case (4 a b c src)
  then obtain body p where IH: "rfc4648 src = body @ replicate p 61" "61 \<notin> set body" "p \<le> 2"
    "length src + p = 3 * (length (rfc4648 src) div 4)" by blast
  show ?case
    by (rule exI [of _ "enc_group a b c @ body"], rule exI [of _ p])
      (use IH in \<open>simp add: rfc4648_short del: rfc4648.simps(4), simp add: enc_group_def\<close>)
qed auto

lemma decode_run:
  assumes "src \<noteq> []" "length src < 2 ^ 62"
  shows "Curl_base64_decode (rfc4648 src) [] = Inr (CURLE_OK, Some (src @ [0]), length src)"
proof -
  let ?t = "rfc4648 src"
  obtain body p where t: "?t = body @ replicate p 61" "61 \<notin> set body" "p \<le> 2" "length src + p = 3 * (length ?t div 4)"
    using rfc4648_padding [of src] by blast
  have four: "length ?t mod 4 = 0" "0 < length ?t" using assms(1) by (cases src; simp add: bound_simps div_greater_zero_iff)+
  have len: "takeWhile (\<lambda>c. c \<noteq> 61) ?t = body"
    unfolding t(1) using t(2) by (cases p) (auto simp: takeWhile_append takeWhile_eq_all_conv)
  have pad: "(if cat ?t (length body) = 61 then if cat ?t (length body + 1) = 61 then 2 else 1 else 0) = p"
    using t(3) unfolding t(1) by (auto simp: cat_def nth_append)
  have raw: "length ?t div 4 * 3 - p = length src" using t(4) by simp
  have last: "last (replicate (length src + 1) (0 :: u8)) = 0" by simp
  have q: "quanta_loop (length ?t div 4) ?t (replicate (length src + 1) 0) 0 = Inr (Some (src @ [0], length src))"
    using quanta_rfc4648 [of "[]" src "replicate (length src + 1) 0"] assms(2)
    by (simp only: last append_Nil list.size(3) length_replicate add_0) simp
  have "length body + p = length ?t" unfolding t(1) by simp
  then show ?thesis
    unfolding Curl_base64_decode_def Let_def len pad raw
    using four q by (simp add: ddns_mem_alloc_def set_at_def)
qed

section \<open>Safety on any text\<close>

lemma quantum_loop_padding:
  "quantum_loop qs x p = Some (x', p') \<Longrightarrow> p' = p + length (filter (\<lambda>c. c = 61) qs)"
  by (induction qs arbitrary: x p) (fastforce split: if_splits option.splits)+

text \<open>A quantum of four characters, the last \<open>p\<close> of them \<open>=\<close>, fills \<open>3 - p\<close> bytes or is rejected.\<close>

lemma quantum_safe:
  assumes "dest + (3 - p) \<le> length buf" "length (filter (\<lambda>c. c = 61) (take 4 src)) = p" "p \<le> 2"
  shows "\<exists>buf' r. decodeQuantum buf dest src = Inr (buf', r) \<and> length buf' = length buf \<and> (r = 0 \<or> r = of_nat (3 - p))"
proof (cases "quantum_loop (take 4 src) 0 0")
  case (Some xp)
  obtain x where x: "quantum_loop (take 4 src) 0 0 = Some (x, p)"
    using quantum_loop_padding [of "take 4 src" 0 0 "fst xp" "snd xp"] Some assms(2) by (cases xp) auto
  consider "p = 0" | "p = 1" | "p = 2" using assms(3) by linarith
  then show ?thesis
    by cases (use x assms(1) in \<open>simp_all add: decodeQuantum_def set_at_def Let_def\<close>)
qed (simp add: decodeQuantum_def)

lemma quanta_safe:
  assumes "length src = 4 * n" "src = body @ replicate p 61" "61 \<notin> set body" "p \<le> 2"
    "length buf = pos + (3 * n - p) + 1" "length buf < 2 ^ 64"
  shows "quanta_loop n src buf pos = Inr None \<or>
    (\<exists>buf'. quanta_loop n src buf pos = Inr (Some (buf', pos + (3 * n - p))) \<and> length buf' = length buf)"
  using assms
proof (induction n arbitrary: src body buf pos)
  case 0
  then show ?case by simp
next
  case (Suc n)
  show ?case
  proof (cases "n = 0")
    case True
    have "filter (\<lambda>c. c = 61) (body @ replicate p 61) = replicate p 61" using Suc.prems(3) by (auto simp: filter_empty_conv)
    moreover have "take 4 src = src" using Suc.prems True by simp
    ultimately have f: "length (filter (\<lambda>c. c = 61) (take 4 src)) = p" using Suc.prems(2) by simp
    obtain buf' r where q: "decodeQuantum buf pos src = Inr (buf', r)" "length buf' = length buf" "r = 0 \<or> r = of_nat (3 - p)"
      using quantum_safe [OF _ f, of pos buf] Suc.prems True by auto
    have "pos + (3 - p) < 2 ^ 64" using Suc.prems True by simp
    then have "unat (of_nat pos + of_nat (3 - p) :: u64) = pos + (3 - p)"
      using unat_of_nat_small [of "pos + (3 - p)", where 'a = 64] by (simp only: of_nat_add len_num0 len_bit0 len_num1) simp
    then show ?thesis using q True by auto
  next
    case False
    have b4: "4 \<le> length body" using Suc.prems False by simp
    then have t: "take 4 src = take 4 body" "drop 4 src = drop 4 body @ replicate p 61" using Suc.prems(2) by simp_all
    have f: "length (filter (\<lambda>c. c = 61) (take 4 src)) = 0"
      using Suc.prems(3) unfolding t by (auto simp: filter_empty_conv dest: in_set_takeD)
    have room: "pos + (3 - 0) \<le> length buf" using Suc.prems False by simp
    obtain buf' r where q: "decodeQuantum buf pos src = Inr (buf', r)" "length buf' = length buf" "r = 0 \<or> r = of_nat 3"
      using quantum_safe [OF room f] by auto
    have pos: "unat (of_nat pos + 3 :: u64) = pos + 3"
      using Suc.prems room by (simp add: unat_word_ariths unat_of_nat_small)
    have IH: "quanta_loop n (drop 4 src) buf' (pos + 3) = Inr None \<or>
      (\<exists>buf''. quanta_loop n (drop 4 src) buf' (pos + 3) = Inr (Some (buf'', pos + 3 + (3 * n - p))) \<and> length buf'' = length buf')"
      by (rule Suc.IH [of _ "drop 4 body"]) (use Suc.prems False q t in \<open>auto dest: in_set_dropD\<close>)
    have "pos + 3 + (3 * n - p) = pos + (3 * Suc n - p)" using False Suc.prems by simp
    with q pos IH show ?thesis by auto
  qed
qed

lemma padded_text:
  fixes src :: "u8 list"
  defines "len \<equiv> length (takeWhile (\<lambda>c. c \<noteq> 61) src)"
  assumes p: "p = (if cat src len = 61 then if cat src (len + 1) = 61 then 2 else 1 else 0)" and sum: "len + p = length src"
  shows "src = takeWhile (\<lambda>c. c \<noteq> 61) src @ replicate p 61"
proof (rule nth_equalityI)
  show "length src = length (takeWhile (\<lambda>c. c \<noteq> 61) src @ replicate p 61)" using sum by (simp add: len_def)
  fix i assume i: "i < length src"
  show "src ! i = (takeWhile (\<lambda>c. c \<noteq> 61) src @ replicate p 61) ! i"
  proof (cases "i < len")
    case True
    then show ?thesis by (simp add: nth_append takeWhile_nth len_def)
  next
    case False
    have "p \<le> 2" by (simp add: p)
    then consider "i = len" "1 \<le> p" | "i = len + 1" "p = 2" using False i sum by linarith
    then have "src ! i = 61"
      by cases (use i p in \<open>auto simp: cat_def split: if_splits\<close>)
    moreover have "i - len < p" using i sum False by linarith
    ultimately show ?thesis using False by (simp add: nth_append len_def)
  qed
qed

lemma decode_safe:
  assumes "length src < 2 ^ 62"
  shows "\<exists>code out n. Curl_base64_decode src m = Inr (code, out, n) \<and>
    (code = CURLE_OK \<longrightarrow> (\<exists>buf. out = Some buf \<and> length buf = n + 1))"
proof -
  define len where "len = length (takeWhile (\<lambda>c. c \<noteq> 61) src)"
  define p where "p = (if cat src len = 61 then if cat src (len + 1) = 61 then 2 else 1 else (0 :: nat))"
  define n where "n = length src div 4"
  have unfold: "Curl_base64_decode src m =
    (if length src = 0 \<or> length src mod 4 \<noteq> 0 then Inr (CURLE_BAD_CONTENT_ENCODING, None, 0)
     else if len + p \<noteq> length src then Inr (CURLE_BAD_CONTENT_ENCODING, None, 0)
     else if \<not> fst (ddns_mem_alloc (n * 3 - p + 1) m) then Inr (CURLE_OUT_OF_MEMORY, None, 0)
     else rbind (quanta_loop n src (replicate (n * 3 - p + 1) 0) 0) (\<lambda>r.
       case r of None \<Rightarrow> Inr (CURLE_BAD_CONTENT_ENCODING, None, 0)
       | Some (buf, pos) \<Rightarrow> rbind (set_at buf pos 0) (\<lambda>buf. Inr (CURLE_OK, Some buf, n * 3 - p))))"
    unfolding Curl_base64_decode_def Let_def len_def p_def n_def ..
  show ?thesis
  proof (cases "length src = 0 \<or> length src mod 4 \<noteq> 0 \<or> len + p \<noteq> length src \<or> \<not> fst (ddns_mem_alloc (n * 3 - p + 1) m)")
    case True
    then show ?thesis unfolding unfold by auto
  next
    case False
    have body: "src = takeWhile (\<lambda>c. c \<noteq> 61) src @ replicate p 61"
      by (rule padded_text) (use False in \<open>simp_all add: p_def len_def\<close>)
    have no: "61 \<notin> set (takeWhile (\<lambda>c. c \<noteq> 61) src)" by (auto dest: set_takeWhileD)
    have n4: "length src = 4 * n" using False by (auto simp: n_def)
    have "p \<le> 2" by (simp add: p_def)
    have run: "quanta_loop n src (replicate (n * 3 - p + 1) 0) 0 = Inr None \<or>
      (\<exists>buf'. quanta_loop n src (replicate (n * 3 - p + 1) 0) 0 = Inr (Some (buf', 0 + (3 * n - p))) \<and>
        length buf' = length (replicate (n * 3 - p + 1) (0 :: u8)))"
      by (rule quanta_safe [OF n4 body no \<open>p \<le> 2\<close>]) (use n4 assms in simp_all)
    then show ?thesis
      using False unfolding unfold by (auto simp: set_at_def mult.commute)
  qed
qed

section \<open>Agreement\<close>

text \<open>
  C21: libcurl's Base64 and the program's are one encoding. For any non-empty input libcurl's
  encoder writes, within its block, the RFC 4648 text the program's encoder writes, its URL
  variant the same text in the URL alphabet, and both report a failed allocation as
  CURLE_OUT_OF_MEMORY; each decoder returns the input from that text; and on no text at all
  does libcurl's decoder write outside its block or return a block of another size than it reports.
\<close>

theorem curl_base64_agrees:
  assumes "src \<noteq> []" "length src < 2 ^ 28"
  shows "Curl_base64_encode src (length src) m \<in>
      {Inr (CURLE_OK, Some (rfc4648 src), length (rfc4648 src)), Inr (CURLE_OUT_OF_MEMORY, None, 0)}
    \<and> Curl_base64_encode src (length src) [] = Inr (CURLE_OK, Some (rfc4648 src), length (rfc4648 src))
    \<and> b64_encode (length (rfc4648 src) + 1) (of_nat (length (rfc4648 src) + 1)) src =
        Inr (0, of_nat (length (rfc4648 src)), rfc4648 src @ [0])
    \<and> Curl_base64url_encode src (length src) [] = Inr (CURLE_OK, Some (map url_char (rfc4648 src)), length (rfc4648 src))
    \<and> Curl_base64_decode (rfc4648 src) [] = Inr (CURLE_OK, Some (src @ [0]), length src)
    \<and> b64_decode (length src + 2) (of_nat (length src + 2)) (rfc4648 src) = Inr (0, of_nat (length src), src)
    \<and> (\<forall>txt m'. length txt < 2 ^ 62 \<longrightarrow> (\<exists>code out n. Curl_base64_decode txt m' = Inr (code, out, n)
        \<and> (code = CURLE_OK \<longrightarrow> (\<exists>buf. out = Some buf \<and> length buf = n + 1))))"
proof (intro conjI allI impI)
  have n: "0 < length src" "length src < 2 ^ 60" "length src < 2 ^ 62" "length src < 2 ^ 29" using assms by simp_all
  have t: "length (rfc4648 src) = 4 * ((length src + 2) div 3)" by (simp add: bound_simps)
  have b: "3 * ((length src + 2) div 3) \<le> length src + 2"
    by (cases "length src" rule: nat_mod3_cases) simp_all
  have small: "length src < 268435456" using assms(2) by simp
  have u: "unat (of_nat k :: u32) = k" if "k < 1073741824" for k
    by (rule unat_of_nat_small) (use that in simp)
  show "Curl_base64_encode src (length src) m \<in>
      {Inr (CURLE_OK, Some (rfc4648 src), length (rfc4648 src)), Inr (CURLE_OUT_OF_MEMORY, None, 0)}"
    by (simp add: encode_run(1) [OF assms(1) n(2)])
  show "Curl_base64_encode src (length src) [] = Inr (CURLE_OK, Some (rfc4648 src), length (rfc4648 src))"
    "Curl_base64url_encode src (length src) [] = Inr (CURLE_OK, Some (map url_char (rfc4648 src)), length (rfc4648 src))"
    by (simp_all add: encode_run [OF assms(1) n(2)] ddns_mem_alloc_def)
  show "Curl_base64_decode (rfc4648 src) [] = Inr (CURLE_OK, Some (src @ [0]), length src)"
    by (rule decode_run [OF assms(1) n(3)])
  show "b64_encode (length (rfc4648 src) + 1) (of_nat (length (rfc4648 src) + 1)) src =
        Inr (0, of_nat (length (rfc4648 src)), rfc4648 src @ [0])"
  proof (rule b64_encode_correct [OF n(1,4)])
    have "unat (of_nat (length (rfc4648 src) + 1) :: u32) = length (rfc4648 src) + 1"
      by (rule u) (use t b small in linarith)
    then show "4 * ((length src + 2) div 3) + 1 \<le> unat (of_nat (length (rfc4648 src) + 1) :: u32)"
      "unat (of_nat (length (rfc4648 src) + 1) :: u32) \<le> length (rfc4648 src) + 1" using t by simp_all
  qed
  show "b64_decode (length src + 2) (of_nat (length src + 2)) (rfc4648 src) = Inr (0, of_nat (length src), src)"
  proof (rule b64_decode_correct [OF n(1) assms(2)])
    have "unat (of_nat (length src + 2) :: u32) = length src + 2"
      by (rule u) (use small in simp)
    then show "3 * ((length src + 2) div 3) \<le> unat (of_nat (length src + 2) :: u32)"
      "unat (of_nat (length src + 2) :: u32) \<le> length src + 2" using b by simp_all
  qed
qed (rule decode_safe)

theorem curl_base64_agrees_witness:
  "Curl_base64_decode (rfc4648 [68, 68, 78, 83]) [] = Inr (CURLE_OK, Some [68, 68, 78, 83, 0], 4)"
  using curl_base64_agrees [of "[68, 68, 78, 83]" "[]"] by simp

end
