(* ===== verification/Curl_Inet.thy ===== *)
theory Curl_Inet
  imports Ip_Address
begin

text \<open>
  \<^verbatim>\<open>lib/inet_ntop.c\<close> and \<^verbatim>\<open>lib/inet_pton.c\<close> of the vendored libcurl, its own conversions between
  addresses in network order and their text. The blocks \<^verbatim>\<open>tmp\<close> of both are explicit and every
  access to them is checked; they are given as zero bytes where the code leaves them unset, and
  the bytes are written before they are read. A C string is its content, the end of the list being
  its terminator. \<open>curl_inet_ntop4\<close> and the like are the \<^verbatim>\<open>static\<close> functions without the prefix.
\<close>

section \<open>Printing\<close>

text \<open>\<^verbatim>\<open>snprintf\<close> writes 15 characters and the terminator at most; \<^verbatim>\<open>dst\<close> has \<open>sz\<close> bytes.\<close>

definition curl_inet_ntop4 :: "u8 list \<Rightarrow> nat \<Rightarrow> fault + string option" where
  "curl_inet_ntop4 src sz =
    (if length src < 4 then Inl Read_past_end
     else let tmp = take 15 (dec_str (unat (src ! 0)) @ ''.'' @ dec_str (unat (src ! 1)) @ ''.''
                @ dec_str (unat (src ! 2)) @ ''.'' @ dec_str (unat (src ! 3)));
              len = length tmp
     in if len = 0 \<or> sz \<le> len then Inr None
     else rbind (emit sz (tmp @ [NUL]) []) (\<lambda>_. Inr (Some tmp)))"

definition words_of :: "u8 list \<Rightarrow> u64 list" where
  "words_of src = fold (\<lambda>i words. words[i div 2 := words ! (i div 2) OR push_bit (8 * (1 - i mod 2)) (ucast (src ! i))])
     [0..<16] (replicate 8 0)"

record run =
  run_base :: int
  run_len :: int

text \<open>The search for the longest run of zeros: the state is \<^verbatim>\<open>best\<close> and \<^verbatim>\<open>cur\<close>.\<close>

definition runs_step :: "int \<times> u64 \<Rightarrow> run \<times> run \<Rightarrow> run \<times> run" where
  "runs_step = (\<lambda>(i, w) (best, cur).
    if w = 0 then
      if run_base cur = - 1 then (best, \<lparr>run_base = i, run_len = 1\<rparr>) else (best, cur\<lparr>run_len := run_len cur + 1\<rparr>)
    else if run_base cur \<noteq> - 1 then
      (if run_base best = - 1 \<or> run_len cur > run_len best then cur else best, cur\<lparr>run_base := - 1\<rparr>)
    else (best, cur))"

definition best_of :: "u64 list \<Rightarrow> run" where
  "best_of words =
    (case fold runs_step (zip [0, 1, 2, 3, 4, 5, 6, 7] words) (\<lparr>run_base = - 1, run_len = 0\<rparr>, \<lparr>run_base = - 1, run_len = 0\<rparr>) of
       (best, cur) \<Rightarrow>
         let best = (if run_base cur \<noteq> - 1 \<and> (run_base best = - 1 \<or> run_len cur > run_len best) then cur else best)
         in if run_base best \<noteq> - 1 \<and> run_len best < 2 then best\<lparr>run_base := - 1\<rparr> else best)"

text \<open>The text in \<^verbatim>\<open>tmp\<close>, 46 bytes; \<open>None\<close> is the return on ENOSPC.\<close>

fun format_loop :: "run \<Rightarrow> u64 list \<Rightarrow> u8 list \<Rightarrow> nat list \<Rightarrow> string \<Rightarrow> fault + string option" where
  "format_loop best words src [] out = Inr (Some out)"
| "format_loop best words src (i # is) out =
    (if run_base best \<noteq> - 1 \<and> int i \<ge> run_base best \<and> int i < run_base best + run_len best then
       if int i = run_base best then rbind (emit 46 '':'' out) (\<lambda>out. format_loop best words src is out)
       else format_loop best words src is out
     else rbind (if i \<noteq> 0 then emit 46 '':'' out else Inr out) (\<lambda>out.
       if i = 6 \<and> run_base best = 0 \<and> (run_len best = 6 \<or> run_len best = 5 \<and> words ! 5 = 0xFFFF) then
         rbind (curl_inet_ntop4 (drop 12 src) (46 - length out)) (\<lambda>r.
           case r of None \<Rightarrow> Inr None | Some t \<Rightarrow> Inr (Some (out @ t)))
       else let t = take 4 (hex_str (unat (words ! i))) in
         rbind (emit 46 (t @ [NUL]) out) (\<lambda>_. format_loop best words src is (out @ t))))"

definition curl_inet_ntop6 :: "u8 list \<Rightarrow> nat \<Rightarrow> fault + string option" where
  "curl_inet_ntop6 src sz =
    (if length src < 16 then Inl Read_past_end
     else let words = words_of src; best = best_of words in
       rbind (format_loop best words src [0, 1, 2, 3, 4, 5, 6, 7] []) (\<lambda>r.
         case r of None \<Rightarrow> Inr None
         | Some out \<Rightarrow>
             rbind (if run_base best \<noteq> - 1 \<and> run_base best + run_len best = 8 then emit 46 '':'' out else Inr out) (\<lambda>out.
             rbind (emit 46 [NUL] out) (\<lambda>tmp.
               if length tmp > sz then Inr None
               else rbind (emit sz tmp []) (\<lambda>_. Inr (Some out))))))"

datatype family = AF_INET_4 | AF_INET_6 | AF_unknown

definition Curl_inet_ntop :: "family \<Rightarrow> u8 list \<Rightarrow> nat \<Rightarrow> fault + string option" where
  "Curl_inet_ntop af src sz =
    (case af of AF_INET_4 \<Rightarrow> curl_inet_ntop4 src sz
     | AF_INET_6 \<Rightarrow> curl_inet_ntop6 src sz
     | AF_unknown \<Rightarrow> Inr None)"

section \<open>Reading\<close>

fun pton4_loop :: "string \<Rightarrow> u8 list \<Rightarrow> nat \<Rightarrow> bool \<Rightarrow> nat \<Rightarrow> fault + u8 list option" where
  "pton4_loop [] tmp tp saw_digit octets = Inr (if octets < 4 then None else Some tmp)"
| "pton4_loop (ch # src) tmp tp saw_digit octets =
    (if is_digit ch then
       let val = unat (tmp ! tp) * 10 + digit_val ch in
       if saw_digit \<and> tmp ! tp = 0 then Inr None
       else if val > 255 then Inr None
       else rbind (set_at tmp tp (of_nat val)) (\<lambda>tmp.
         if \<not> saw_digit then
           if octets + 1 > 4 then Inr None else pton4_loop src tmp tp True (octets + 1)
         else pton4_loop src tmp tp saw_digit octets)
     else if ch = CHR ''.'' \<and> saw_digit then
       if octets = 4 then Inr None
       else rbind (set_at tmp (tp + 1) 0) (\<lambda>tmp. pton4_loop src tmp (tp + 1) False octets)
     else Inr None)"

definition curl_inet_pton4 :: "string \<Rightarrow> fault + u8 list option" where
  "curl_inet_pton4 src = pton4_loop src (replicate 4 0) 0 False 0"

text \<open>\<^verbatim>\<open>strchr\<close> in the lower case and then in the upper case digits: the value is the index.\<close>

definition xdigit :: "char \<Rightarrow> nat option" where
  "xdigit ch = (case List.find (\<lambda>k. ''0123456789abcdef'' ! k = ch) [0..<16] of
     Some k \<Rightarrow> Some k | None \<Rightarrow> List.find (\<lambda>k. ''0123456789ABCDEF'' ! k = ch) [0..<16])"

text \<open>Two bytes of a group, and \<^verbatim>\<open>memcpy\<close> of four.\<close>

definition put_group :: "u8 list \<Rightarrow> nat \<Rightarrow> u64 \<Rightarrow> fault + u8 list" where
  "put_group tmp tp val =
    rbind (set_at tmp tp (ucast (drop_bit 8 val AND 0xFF))) (\<lambda>tmp. set_at tmp (tp + 1) (ucast (val AND 0xFF)))"

record pton6 =
  p_tmp :: "u8 list"
  p_tp :: nat
  p_colonp :: "nat option"
  p_saw :: nat
  p_val :: u64

fun pton6_loop :: "string \<Rightarrow> string \<Rightarrow> pton6 \<Rightarrow> fault + pton6 option" where
  "pton6_loop [] curtok s = Inr (Some s)"
| "pton6_loop (ch # src) curtok s =
    (case xdigit ch of
       Some d \<Rightarrow>
         let s = s\<lparr>p_val := push_bit 4 (p_val s) OR of_nat d, p_saw := p_saw s + 1\<rparr> in
         if p_saw s > 4 then Inr None else pton6_loop src curtok s
     | None \<Rightarrow>
         if ch = CHR '':'' then
           if p_saw s = 0 then
             if p_colonp s \<noteq> None then Inr None else pton6_loop src src (s\<lparr>p_colonp := Some (p_tp s)\<rparr>)
           else if p_tp s + 2 > 16 then Inr None
           else rbind (put_group (p_tmp s) (p_tp s) (p_val s)) (\<lambda>tmp.
             pton6_loop src src (s\<lparr>p_tmp := tmp, p_tp := p_tp s + 2, p_saw := 0, p_val := 0\<rparr>))
         else if ch = CHR ''.'' \<and> p_tp s + 4 \<le> 16 then
           rbind (curl_inet_pton4 curtok) (\<lambda>r. case r of
             None \<Rightarrow> Inr None
           | Some dst \<Rightarrow> Inr (Some (s\<lparr>p_tmp := take (p_tp s) (p_tmp s) @ dst @ drop (p_tp s + 4) (p_tmp s),
               p_tp := p_tp s + 4, p_saw := 0\<rparr>)))
         else Inr None)"

fun shift_loop :: "nat \<Rightarrow> nat \<Rightarrow> nat list \<Rightarrow> u8 list \<Rightarrow> fault + u8 list" where
  "shift_loop colonp n [] tmp = Inr tmp"
| "shift_loop colonp n (i # is) tmp =
    rbind (set_at tmp (16 - i) (tmp ! (colonp + n - i))) (\<lambda>tmp.
    rbind (set_at tmp (colonp + n - i) 0) (\<lambda>tmp. shift_loop colonp n is tmp))"

definition pton6_end :: "pton6 \<Rightarrow> fault + u8 list option" where
  "pton6_end s =
    (if p_saw s \<noteq> 0 \<and> p_tp s + 2 > 16 then Inr None
     else rbind (if p_saw s \<noteq> 0 then rbind (put_group (p_tmp s) (p_tp s) (p_val s)) (\<lambda>tmp. Inr (tmp, p_tp s + 2))
                 else Inr (p_tmp s, p_tp s)) (\<lambda>(tmp, tp).
       case p_colonp s of
         Some colonp \<Rightarrow>
           let n = tp - colonp in
           if tp = 16 then Inr None
           else rbind (shift_loop colonp n [1..<n + 1] tmp) (\<lambda>tmp. Inr (Some tmp))
       | None \<Rightarrow> if tp \<noteq> 16 then Inr None else Inr (Some tmp)))"

definition curl_inet_pton6 :: "string \<Rightarrow> fault + u8 list option" where
  "curl_inet_pton6 src =
    (if c_at src = CHR '':'' \<and> c_at (drop 1 src) \<noteq> CHR '':'' then Inr None
     else let src = (if c_at src = CHR '':'' then drop 1 src else src)
     in rbind (pton6_loop src src \<lparr>p_tmp = replicate 16 0, p_tp = 0, p_colonp = None, p_saw = 0, p_val = 0\<rparr>) (\<lambda>r.
       case r of None \<Rightarrow> Inr None | Some s \<Rightarrow> pton6_end s))"

text \<open>The return value, and \<^verbatim>\<open>dst\<close> where it is 1; \<open>- 1\<close> is EAFNOSUPPORT.\<close>

definition Curl_inet_pton :: "family \<Rightarrow> string \<Rightarrow> fault + int \<times> u8 list option" where
  "Curl_inet_pton af src =
    (let result = (\<lambda>r. Inr (case r of None \<Rightarrow> (0, None) | Some dst \<Rightarrow> (1, Some dst)))
     in case af of AF_INET_4 \<Rightarrow> rbind (curl_inet_pton4 src) result
     | AF_INET_6 \<Rightarrow> rbind (curl_inet_pton6 src) result
     | AF_unknown \<Rightarrow> Inr (- 1, None))"

end
