(* ===== verification/Curl_Inet_Correct.thy ===== *)
theory Curl_Inet_Correct
  imports Curl_Inet
begin

text \<open>
  What libcurl's address conversions do: the printer writes the text of the C library's printer
  as \<open>Ip_Address\<close> has it, in its block; the reader inverts it on every address and is safe on
  every text.
\<close>

section \<open>Groups and bytes\<close>

definition group_bytes :: "16 word \<Rightarrow> u8 list" where
  "group_bytes w = [ucast (drop_bit 8 w), ucast w]"

definition bytes_of :: "16 word list \<Rightarrow> u8 list" where
  "bytes_of ws = concat (map group_bytes ws)"

lemma bytes_of_simps [simp]:
  "bytes_of [] = []" "bytes_of (w # ws) = ucast (drop_bit 8 w) # ucast w # bytes_of ws"
  "bytes_of (us @ vs) = bytes_of us @ bytes_of vs" "length (bytes_of ws) = 2 * length ws"
  by (simp_all add: bytes_of_def group_bytes_def) (induction ws; simp add: group_bytes_def)

lemma length8: "length ws = 8 \<Longrightarrow> \<exists>a b c d e f g h. ws = [a, b, c, d, e, f, g, h]"
  by (auto simp: length_Suc_conv numeral_eq_Suc)

lemma group_join: "push_bit 8 (ucast (ucast (drop_bit 8 w) :: u8)) OR ucast (ucast w :: u8) = (ucast w :: u64)" for w :: "16 word"
proof (rule bit_word_eqI)
  fix n
  show "bit (push_bit 8 (ucast (ucast (drop_bit 8 w) :: u8)) OR ucast (ucast w :: u8) :: u64) n = bit (ucast w :: u64) n" if "n < LENGTH(64)"
    using that bit_imp_le_length [of w n] by (auto simp: bit_simps)
qed

lemma group_split:
  "ucast (drop_bit 8 (push_bit 8 (ucast a) OR ucast b :: 16 word)) = a"
  "ucast (push_bit 8 (ucast a) OR ucast b :: 16 word) = b" for a b :: u8
proof -
  show "ucast (drop_bit 8 (push_bit 8 (ucast a) OR ucast b :: 16 word)) = a"
  proof (rule bit_word_eqI)
    fix n
    show "bit (ucast (drop_bit 8 (push_bit 8 (ucast a) OR ucast b :: 16 word)) :: u8) n = bit a n" if "n < LENGTH(8)"
      using that bit_imp_le_length [of b "8 + n"] by (auto simp: bit_simps)
  qed
  show "ucast (push_bit 8 (ucast a) OR ucast b :: 16 word) = b"
    by (rule bit_word_eqI) (auto simp: bit_simps)
qed

lemma bytes_of_nth:
  "k < length ws \<Longrightarrow> bytes_of ws ! (2 * k) = ucast (drop_bit 8 (ws ! k)) \<and> bytes_of ws ! Suc (2 * k) = ucast (ws ! k)"
proof (induction ws arbitrary: k)
  case (Cons w ws)
  then show ?case by (cases k) auto
qed simp

lemma words_of_bytes:
  assumes "length ws = 8"
  shows "words_of (bytes_of ws) = map ucast ws"
proof -
  let ?f = "\<lambda>i words. words[i div 2 := words ! (i div 2) OR push_bit (8 * (1 - i mod 2)) (ucast (bytes_of ws ! i) :: u64)]"
  have "fold ?f [0..<2 * k] (replicate 8 0) = map ucast (take k ws) @ replicate (8 - k) 0" if "k \<le> 8" for k
    using that
  proof (induction k)
    case (Suc k)
    have "[0..<2 * Suc k] = [0..<2 * k] @ [2 * k, Suc (2 * k)]" by simp
    moreover have "replicate (8 - k) (0 :: u64) = 0 # replicate (8 - Suc k) 0"
      using Suc.prems by (simp add: Suc_diff_le [symmetric] replicate_Suc [symmetric] del: replicate_Suc)
    moreover have "take (Suc k) ws = take k ws @ [ws ! k]" using Suc.prems assms by (simp add: take_Suc_conv_app_nth)
    ultimately show ?case
      using Suc assms bytes_of_nth [of k ws]
      by (simp add: list_update_append nth_append group_join)
  qed simp
  from this [of 8] assms show ?thesis unfolding words_of_def by (simp del: upt_Suc)
qed

lemma bytes_of_surj:
  assumes "length src = 2 * n"
  shows "\<exists>ws. length ws = n \<and> src = bytes_of ws"
  using assms
proof (induction n arbitrary: src)
  case (Suc n)
  then obtain a b t where src: "src = a # b # t" "length t = 2 * n" by (auto simp: length_Suc_conv)
  with Suc.IH obtain ws where "length ws = n" "t = bytes_of ws" by blast
  then show ?case using src
    by (intro exI [of _ "(push_bit 8 (ucast a) OR ucast b) # ws"]) (simp only: bytes_of_simps length_Cons group_split)
qed simp

lemma unat_group_less: "unat w < 65536" for w :: "16 word"
  using unsigned_less [of w] by simp

lemma unat_group [simp]: "unat (ucast w :: u64) = unat w" for w :: "16 word"
  using unat_group_less [of w] by (simp add: unsigned_ucast_eq take_bit_nat_eq_self)

section \<open>The longest run\<close>

definition run_is :: "run \<Rightarrow> nat \<times> nat \<Rightarrow> bool" where
  "run_is r = (\<lambda>(b, l). run_base r = - 1 \<and> l = 0 \<and> run_len r = 0 \<or> run_base r = int b \<and> run_len r = int l \<and> 0 < l)"

definition better :: "nat \<times> nat \<Rightarrow> nat \<times> nat \<Rightarrow> nat \<times> nat" where
  "better best cur = (if snd best < snd cur then cur else best)"

definition last_run :: "run \<times> run \<Rightarrow> run" where
  "last_run = (\<lambda>(best, cur). if run_base cur \<noteq> - 1 \<and> (run_base best = - 1 \<or> run_len cur > run_len best) then cur else best)"

lemmas runs_step_simp = runs_step_def [THEN fun_cong, THEN fun_cong, of "(i, w)" "(best, cur)" for i w best cur, simplified]

lemma runs_are_best_run:
  assumes "run_is best p"
  shows "run_base cur = - 1 \<Longrightarrow>
      run_is (last_run (fold runs_step (zip (map int [i..<i + length ws]) (map ucast ws)) (best, cur))) (best_run ws i p)"
    "run_is cur (b, Suc l) \<Longrightarrow>
      run_is (last_run (fold runs_step (zip (map int [i..<i + length ws]) (map ucast ws)) (best, cur)))
        (best_run ws i (better p (b, Suc l + zero_run ws)))"
  using assms
proof (induction ws arbitrary: i best cur p b l)
  case Nil
  { case 1 then show ?case by (simp add: last_run_def) }
  { case 2 then show ?case by (cases p) (auto simp: last_run_def run_is_def better_def) }
next
  case (Cons w ws)
  have zip: "zip (map int [i..<i + length (w # ws)]) (map ucast (w # ws)) =
      (int i, ucast w) # zip (map int [Suc i..<Suc i + length ws]) (map ucast ws)" for i
    by (simp add: upt_conv_Cons del: upt_Suc)
  have w0: "ucast w = (0 :: u64) \<longleftrightarrow> w = 0" by (simp add: word_unat_eq_iff unat_group)
  { case 1
    let ?rest = "\<lambda>s. run_is (last_run (fold runs_step (zip (map int [Suc i..<Suc i + length ws]) (map ucast ws)) s))"
    show ?case
    proof (cases "w = 0")
      case True
      have "?rest (best, \<lparr>run_base = int i, run_len = 1\<rparr>) (best_run ws (Suc i) (better p (i, Suc 0 + zero_run ws)))"
        by (rule Cons.IH(2) [where l = 0, OF _ 1(2)]) (simp add: run_is_def)
      then show ?thesis using 1(1) True unfolding zip fold_simps by (simp add: w0 runs_step_simp better_def split: if_splits del: upt_Suc)
    next
      case False
      have "?rest (best, cur) (best_run ws (Suc i) p)" by (rule Cons.IH(1) [OF 1])
      then show ?thesis using 1(1) False unfolding zip fold_simps by (simp add: w0 runs_step_simp del: upt_Suc)
    qed }
  { case 2
    let ?rest = "\<lambda>s. run_is (last_run (fold runs_step (zip (map int [Suc i..<Suc i + length ws]) (map ucast ws)) s))"
    from 2 have cur: "run_base cur = int b" "run_len cur = int (Suc l)" by (simp_all add: run_is_def)
    show ?case
    proof (cases "w = 0")
      case True
      have "?rest (best, cur\<lparr>run_len := run_len cur + 1\<rparr>) (best_run ws (Suc i) (better p (b, Suc (Suc l) + zero_run ws)))"
        by (rule Cons.IH(2) [OF _ 2(2)]) (use cur in \<open>simp add: run_is_def\<close>)
      moreover have "\<not> snd (better p (b, Suc (Suc l) + zero_run ws)) < Suc (zero_run ws)" by (simp add: better_def)
      ultimately show ?thesis using cur True unfolding zip fold_simps by (simp add: w0 runs_step_simp del: upt_Suc)
    next
      case False
      let ?best = "if run_base best = - 1 \<or> run_len cur > run_len best then cur else best"
      have "run_is ?best (better p (b, Suc l))" using 2 cur by (cases p) (auto simp: run_is_def better_def)
      note IH = Cons.IH(1) [OF _ this]
      have "?rest (?best, cur\<lparr>run_base := - 1\<rparr>) (best_run ws (Suc i) (better p (b, Suc l)))" by (rule IH) simp
      then show ?thesis using cur False unfolding zip fold_simps by (simp add: w0 runs_step_simp del: upt_Suc)
    qed }
qed

definition same_best :: "run \<Rightarrow> (nat \<times> nat) option \<Rightarrow> bool" where
  "same_best r b = (case b of None \<Rightarrow> run_base r = - 1 | Some (base, len) \<Rightarrow> run_base r = int base \<and> run_len r = int len)"

lemma best_of_best:
  assumes "length ws = 8"
  shows "same_best (best_of (map ucast ws)) (ntop6_best ws)"
proof -
  let ?none = "\<lparr>run_base = - 1, run_len = 0\<rparr>"
  have "run_is (last_run (fold runs_step (zip (map int [0..<0 + length ws]) (map ucast ws)) (?none, ?none))) (best_run ws 0 (0, 0))"
    by (rule runs_are_best_run(1)) (simp_all add: run_is_def)
  moreover have "map int [0..<0 + length ws] = [0, 1, 2, 3, 4, 5, 6, 7]" unfolding assms by code_simp
  ultimately have "run_is (last_run (fold runs_step (zip [0, 1, 2, 3, 4, 5, 6, 7] (map ucast ws)) (?none, ?none))) (best_run ws 0 (0, 0))"
    by simp
  moreover have "best_of (map ucast ws) = (let best = last_run (fold runs_step (zip [0, 1, 2, 3, 4, 5, 6, 7] (map ucast ws)) (?none, ?none))
      in if run_base best \<noteq> - 1 \<and> run_len best < 2 then best\<lparr>run_base := - 1\<rparr> else best)"
    by (simp add: best_of_def last_run_def Let_def split: prod.splits)
  ultimately show ?thesis
    by (cases "best_run ws 0 (0, 0)") (auto simp: same_best_def run_is_def ntop6_best_def Let_def)
qed

lemma zero_run_le: "zero_run ws \<le> length ws" "k < zero_run ws \<Longrightarrow> ws ! k = 0"
  by (induction ws arbitrary: k; auto simp: nth_Cons' split: if_splits)+

lemma ntop6_bestD:
  assumes "ntop6_best ws = Some (b, l)" "length ws = 8"
  shows "2 \<le> l" "b + l \<le> 8" "\<And>k. b \<le> k \<Longrightarrow> k < b + l \<Longrightarrow> ws ! k = 0"
proof -
  have l: "best_run ws 0 (0, 0) = (b, l)" "2 \<le> l" using assms(1) by (auto simp: ntop6_best_def Let_def split: if_splits)
  with best_run_zero [OF l(1)] have z: "l = zero_run (drop b ws)" by auto
  show "2 \<le> l" by (rule l(2))
  show "b + l \<le> 8" using zero_run_le(1) [of "drop b ws"] z l(2) assms(2) by simp
  show "ws ! k = 0" if "b \<le> k" "k < b + l" for k
    using zero_run_le(2) [of "k - b" "drop b ws"] z that \<open>b + l \<le> 8\<close> assms(2) by simp
qed

section \<open>The text\<close>

text \<open>The address of the last two groups, as the C library's printer has it.\<close>

lemma dotted_quad:
  assumes "n < 65536" "m < 65536"
  shows "(n * 65536 + m) div 16777216 = n div 256" "(n * 65536 + m) div 65536 mod 256 = n mod 256"
    "(n * 65536 + m) div 256 mod 256 = m div 256" "(n * 65536 + m) mod 256 = (m :: nat) mod 256"
proof -
  have "(n * 65536 + m) div 65536 = n" using assms(2) by simp
  then show "(n * 65536 + m) div 65536 mod 256 = n mod 256" "(n * 65536 + m) div 16777216 = n div 256"
    using div_mult2_eq [of "n * 65536 + m" 65536 256] by simp_all
  have "m div 256 < 256" using assms(2) by (simp add: less_mult_imp_div_less)
  moreover have "(n * 65536 + m) div 256 = n * 256 + m div 256"
  proof -
    have "n * 65536 + m = m + (n * 256) * 256" by simp
    then show ?thesis by (simp only: div_mult_self1)
  qed
  ultimately show "(n * 65536 + m) div 256 mod 256 = m div 256" by simp
  have "n * 65536 + m = m + (n * 256) * 256" by simp
  then show "(n * 65536 + m) mod 256 = m mod 256" by (simp only: mod_mult_self1)
qed

lemma unat_group_bytes:
  "unat (ucast (drop_bit 8 w) :: u8) = unat w div 256" "unat (drop_bit 8 w) mod 256 = unat w div 256" "unat (ucast w :: u8) = unat w mod 256" for w :: "16 word"
proof -
  have "unat w div 256 < 256" using unat_group_less [of w] by (simp add: less_mult_imp_div_less)
  then show "unat (ucast (drop_bit 8 w) :: u8) = unat w div 256"
    by (simp add: unsigned_ucast_eq unsigned_drop_bit_eq drop_bit_eq_div unat_div take_bit_nat_eq_self)
  then show "unat (drop_bit 8 w) mod 256 = unat w div 256"
    by (simp add: unsigned_ucast_eq take_bit_eq_mod)
  show "unat (ucast w :: u8) = unat w mod 256"
    by (simp add: unsigned_ucast_eq take_bit_eq_mod)
qed

lemma length_dec_str: "n < 256 \<Longrightarrow> length (dec_str n) \<le> 3"
proof -
  assume n: "n < 256"
  have L: "length (dec_str k) = (if k < 10 then 1 else Suc (length (dec_str (k div 10))))" for k
    by (subst dec_str.simps) simp
  have "n div 10 div 10 < 10" using n by (simp add: div_mult2_eq [symmetric] less_mult_imp_div_less)
  then show ?thesis using L [of n] L [of "n div 10"] L [of "n div 10 div 10"] by simp
qed

definition quad :: "u8 list \<Rightarrow> string" where
  "quad src = dec_str (unat (src ! 0)) @ ''.'' @ dec_str (unat (src ! 1)) @ ''.''
     @ dec_str (unat (src ! 2)) @ ''.'' @ dec_str (unat (src ! 3))"

lemma length_quad: "7 \<le> length (quad src)" "length (quad src) \<le> 15"
proof -
  have b: "1 \<le> length (dec_str (unat b)) \<and> length (dec_str (unat b)) \<le> 3" for b :: u8
    using length_dec_str [of "unat b"] unat_u8_lt [of b] by (simp add: Suc_le_eq)
  show "7 \<le> length (quad src)" "length (quad src) \<le> 15"
    using b [of "src ! 0"] b [of "src ! 1"] b [of "src ! 2"] b [of "src ! 3"] unfolding quad_def by simp_all
qed

lemma ntop4_run:
  assumes "4 \<le> length src"
  shows "curl_inet_ntop4 src sz = Inr (if sz \<le> length (quad src) then None else Some (quad src))"
  using assms length_quad [of src] unfolding curl_inet_ntop4_def quad_def [symmetric] by (auto simp add: Let_def emit_fits)

lemma quad_is_ntop4: "quad (bytes_of [v, w]) = inet_ntop4 (of_nat (unat v * 65536 + unat w))"
proof -
  have "unat v * 65536 + unat w < 4294967296" using unat_group_less [of v] unat_group_less [of w] by linarith
  then have "unat (of_nat (unat v * 65536 + unat w) :: u32) = unat v * 65536 + unat w"
    by (intro unat_of_nat_small) simp
  then show ?thesis
    unfolding inet_ntop4_def Let_def quad_def
    using dotted_quad [OF unat_group_less [of v] unat_group_less [of w]] 
    by (simp only: bytes_of_simps nth_Cons_0 nth_Cons_numeral One_nat_def nth_Cons_Suc unat_group_bytes numeral_2_eq_2 numeral_3_eq_3)
qed

section \<open>Printing\<close>

text \<open>The loop from group \<open>i\<close> on writes what the C library's printer writes from there.\<close>

lemma format_ntop6:
  assumes best: "same_best best b" and ws: "length ws = 8" "words = map ucast ws" "src = bytes_of ws"
    and "is = [i..<8]" "i \<le> 8" "length out \<le> 5 * i - 1"
  shows "format_loop best words src is out = Inr (Some (out @ ntop6_loop b ws is)) \<and> length (out @ ntop6_loop b ws is) \<le> 45"
  using assms(5-)
proof (induction "is" arbitrary: i out)
  case Nil
  have "i = 8" using Nil(1,2) upt_eq_Nil_conv [of i 8] by auto
  with Nil show ?case by simp
next
  case (Cons j "is")
  have i: "i < 8" using Cons.prems(1) by (cases "i < 8") auto
  then have j: "j = i" and tail: "is = [Suc i..<8]" using Cons.prems(1) by (simp_all add: upt_conv_Cons)
  have inb: "run_base best \<noteq> - 1 \<and> int i \<ge> run_base best \<and> int i < run_base best + run_len best \<longleftrightarrow> in_best b i"
    using best by (cases b) (auto simp: same_best_def in_best_def)
  have base: "in_best b i \<Longrightarrow> (int i = run_base best) = (b \<noteq> None \<and> fst (the b) = i)"
    using best by (cases b) (auto simp: same_best_def in_best_def)
  have "ucast (ws ! 5) = (0xFFFF :: u64) \<longleftrightarrow> ws ! 5 = 0xFFFF" by (simp add: word_unat_eq_iff)
  then have v4: "run_base best = 0 \<and> (run_len best = 6 \<or> run_len best = 5 \<and> words ! 5 = 0xFFFF) \<longleftrightarrow> ntop6_v4 b ws"
    using best ws by (cases b) (auto simp: same_best_def ntop6_v4_def)
  have room: "length out + 5 \<le> 5 * Suc i - 1 \<or> i = 0 \<and> out = []" "length out \<le> 34"
    using Cons.prems(3) i by (cases "i = 0"; simp)+
  show ?case
  proof (cases "in_best b i")
    case True
    define out' where "out' = (if b \<noteq> None \<and> fst (the b) = i then out @ '':'' else out)"
    have "length out' \<le> 5 * Suc i - 1" using room by (auto simp: out'_def)
    from Cons.IH [OF tail _ this] i
    have "format_loop best words src is out' = Inr (Some (out' @ ntop6_loop b ws is)) \<and> length (out' @ ntop6_loop b ws is) \<le> 45" by simp
    moreover have "emit 46 '':'' out = Inr (out @ '':'')" by (rule emit_fits) (use room in simp)
    ultimately show ?thesis
      unfolding j format_loop.simps ntop6_loop.simps inb base [OF True]
      by (cases "b \<noteq> None \<and> fst (the b) = i") (simp_all only: True if_True if_False rbind_simps out'_def append.simps append_assoc append_Nil simp_thms)
  next
    case False
    define out' where "out' = (if i \<noteq> 0 then out @ '':'' else out)"
    have l: "length out' + 4 \<le> 5 * Suc i - 1" "length out' \<le> 35" using room by (auto simp: out'_def)
    have e: "(if i \<noteq> 0 then emit 46 '':'' out else Inr out) = Inr out'"
      using room by (simp add: out'_def emit_fits)
    show ?thesis
    proof (cases "i = 6 \<and> ntop6_v4 b ws")
      case True
      have "length (drop 12 src) = 4" using ws by simp
      moreover have "drop 12 src = bytes_of [ws ! 6, ws ! 7]"
        using length8 [OF ws(1)] ws(3) by auto
      moreover have "length out' \<le> 30" using Cons.prems(3) True by (simp add: out'_def)
      ultimately have "curl_inet_ntop4 (drop 12 src) (46 - length out') = Inr (Some (quad (bytes_of [ws ! 6, ws ! 7])))"
        using length_quad(2) [of "bytes_of [ws ! 6, ws ! 7]"] ntop4_run [of "drop 12 src" "46 - length out'"] by simp
      then have "rbind (curl_inet_ntop4 (drop 12 src) (46 - length out')) (\<lambda>r. case r of None \<Rightarrow> Inr None | Some t \<Rightarrow> Inr (Some (out' @ t)))
          = Inr (Some (out' @ quad (bytes_of [ws ! 6, ws ! 7])))" by simp
      moreover have "length (out' @ quad (bytes_of [ws ! 6, ws ! 7])) \<le> 45"
        using length_quad(2) [of "bytes_of [ws ! 6, ws ! 7]"] \<open>length out' \<le> 30\<close> by simp
      moreover have "out @ (if i \<noteq> 0 then '':'' else []) = out'" by (simp add: out'_def)
      ultimately show ?thesis
        unfolding j format_loop.simps ntop6_loop.simps inb v4 e rbind_simps if_not_P [OF False] if_P [OF True] quad_is_ntop4
        by (simp del: bytes_of_simps flip: append_assoc)
    next
      case v: False
      let ?t = "hex_str (unat (ws ! i))"
      have t: "take 4 (hex_str (unat (words ! i))) = ?t" "length ?t \<le> 4"
        using length_hex_str(1) [OF unat_group_less] ws i by (simp_all)
      have "length (out' @ ?t) \<le> 5 * Suc i - 1" using l t by simp
      from Cons.IH [OF tail _ this] i
      have IH: "format_loop best words src is (out' @ ?t) = Inr (Some ((out' @ ?t) @ ntop6_loop b ws is)) \<and>
        length ((out' @ ?t) @ ntop6_loop b ws is) \<le> 45" by simp
      moreover have "emit 46 (?t @ [NUL]) out' = Inr (out' @ ?t @ [NUL])" by (rule emit_fits) (use l t in simp)
      moreover have "out @ (if i \<noteq> 0 then '':'' else []) = out'" by (simp add: out'_def)
      ultimately show ?thesis
        unfolding j format_loop.simps ntop6_loop.simps inb v4 e rbind_simps if_not_P [OF False] if_not_P [OF v] Let_def t
        by (simp flip: append_assoc)
    qed
  qed
qed

text \<open>A run at the end leaves room for the colon behind it.\<close>

lemma length_ntop6_loop:
  assumes "\<not> ntop6_v4 b ws" "length ws = 8"
  shows "is \<noteq> [] \<Longrightarrow> \<forall>i\<in>set is. i < 8 \<Longrightarrow> in_best b (last is) \<Longrightarrow> length (ntop6_loop b ws is) + 4 \<le> 5 * length is"
proof (induction "is")
  case (Cons i "is")
  have "length (hex_str (unat (ws ! i))) \<le> 4" by (rule length_hex_str(1)) (rule unat_group_less)
  with Cons assms(1) show ?case by (cases "is = []") auto
qed simp

lemma ntop6_run:
  assumes "length ws = 8"
  shows "curl_inet_ntop6 (bytes_of ws) sz = Inr (if sz \<le> length (inet_ntop6 ws) then None else Some (inet_ntop6 ws))"
    and "length (inet_ntop6 ws) \<le> 45"
proof -
  let ?b = "ntop6_best ws" and ?best = "best_of (map ucast ws)" and ?is = "[0, 1, 2, 3, 4, 5, 6, 7] :: nat list"
  let ?tail = "case ?b of None \<Rightarrow> [] | Some (base, len) \<Rightarrow> if base + len = 8 then '':'' else []"
  have upt: "?is = [0..<8]" by code_simp
  have "format_loop ?best (map ucast ws) (bytes_of ws) ?is [] = Inr (Some ([] @ ntop6_loop ?b ws ?is)) \<and> length ([] @ ntop6_loop ?b ws ?is) \<le> 45"
    by (rule format_ntop6 [OF best_of_best [OF assms] assms refl refl upt]) simp_all
  then have run: "format_loop ?best (map ucast ws) (bytes_of ws) ?is [] = Inr (Some (ntop6_loop ?b ws ?is))"
    and len: "length (ntop6_loop ?b ws ?is) \<le> 45" by simp_all
  have colon: "run_base ?best \<noteq> - 1 \<and> run_base ?best + run_len ?best = 8 \<longleftrightarrow> ?tail = '':''" "?tail \<noteq> '':'' \<Longrightarrow> ?tail = []"
    using best_of_best [OF assms] by (cases ?b; auto simp: same_best_def split: if_splits)+
  have short: "length (ntop6_loop ?b ws ?is) \<le> 36" if e: "?tail = '':''"
  proof -
    from e obtain base len where b: "?b = Some (base, len)" "base + len = 8" by (cases ?b) (auto split: if_splits)
    with ntop6_bestD [OF b(1) assms] have "\<not> ntop6_v4 ?b ws" "in_best ?b (last ?is)"
      by (auto simp: ntop6_v4_def in_best_def)
    from length_ntop6_loop [OF this(1) assms _ _ this(2)] show ?thesis by simp
  qed
  have t: "inet_ntop6 ws = ntop6_loop ?b ws ?is @ ?tail" by (simp add: inet_ntop6_def Let_def)
  have l: "length (ntop6_loop ?b ws ?is @ ?tail) \<le> 45" using len short colon(2) by (cases "?tail = '':''") auto
  then show "length (inet_ntop6 ws) \<le> 45" unfolding t .
  have "(if run_base ?best \<noteq> - 1 \<and> run_base ?best + run_len ?best = 8 then emit 46 '':'' (ntop6_loop ?b ws ?is) else Inr (ntop6_loop ?b ws ?is))
      = Inr (inet_ntop6 ws)"
    unfolding colon(1) t using short colon(2) by (cases "?tail = '':''") (simp_all add: emit_fits)
  moreover have "emit 46 [NUL] (inet_ntop6 ws) = Inr (inet_ntop6 ws @ [NUL])" by (rule emit_fits) (use l t in simp)
  ultimately show "curl_inet_ntop6 (bytes_of ws) sz = Inr (if sz \<le> length (inet_ntop6 ws) then None else Some (inet_ntop6 ws))"
    unfolding curl_inet_ntop6_def Let_def words_of_bytes [OF assms] run rbind_simps option.case
    using assms by (simp only: rbind_simps) (simp add: emit_def)
qed

end
