(* ===== verification/Curl_Inet_Roundtrip.thy ===== *)
theory Curl_Inet_Roundtrip
  imports Curl_Inet_Correct
begin

text \<open>
  The reader of libcurl's address texts: it returns the address from every text the printer
  writes, and ends without an access outside its block on every text.
\<close>

section \<open>Dotted quads\<close>

lemma pton4_octet:
  assumes "n \<le> 255" "octets \<le> 3" "tp < length tmp" "tmp ! tp = 0"
  shows "pton4_loop (dec_str n @ s) tmp tp False octets = pton4_loop s (tmp[tp := of_nat n]) tp True (octets + 1)"
  using assms
proof (induction n arbitrary: s rule: dec_str.induct)
  case (1 n)
  show ?case
  proof (cases "n < 10")
    case True
    with 1(2-) show ?thesis by (subst dec_str.simps) (simp add: Let_def set_at_def)
  next
    case False
    have n: "n div 10 \<noteq> 0" "10 * (n div 10) + n mod 10 = n" "n div 10 \<le> 255" using False 1(2) by simp_all
    have u: "unat (of_nat (n div 10) :: u8) = n div 10" by (rule unat_of_nat_small) (use n 1(2) in simp)
    then have "(of_nat (n div 10) :: u8) \<noteq> 0" using n(1) by (auto simp: word_unat_eq_iff)
    with u n show ?thesis
      using 1(1) [OF False n(3) 1(3-)] 1(2-) False
      by (subst dec_str.simps) (simp add: Let_def set_at_def mult.commute)
  qed
qed

lemma pton4_quad:
  assumes "length src = 4"
  shows "curl_inet_pton4 (quad src) = Inr (Some src)"
proof -
  obtain a b c d where src: "src = [a, b, c, d]" using assms by (auto simp: length_Suc_conv numeral_eq_Suc)
  have le: "unat x \<le> 255" for x :: u8 using unat_u8_lt [of x] by simp
  show ?thesis
    unfolding curl_inet_pton4_def quad_def src
    using pton4_octet [OF le, of _ _ _ _ "[]"]
    by (simp add: pton4_octet [OF le] set_at_def is_digit_def numeral_eq_Suc)
qed

section \<open>Groups\<close>

lemma xdigits: "list_all (\<lambda>k. xdigit (''0123456789abcdef'' ! k) = Some k) [0..<16]"
  "list_all (\<lambda>k. xdigit (digit_char k) = Some k) [0..<10]" "xdigit CHR ''.'' = None" "xdigit CHR '':'' = None"
  by code_simp+

lemma xdigit_simps [simp]:
  "k < 16 \<Longrightarrow> xdigit (''0123456789abcdef'' ! k) = Some k" "k < 10 \<Longrightarrow> xdigit (digit_char k) = Some k"
  using xdigits(1,2) unfolding list_all_iff by (simp_all only: set_upt atLeastLessThan_iff) simp_all

declare xdigits(3,4) [simp]

lemma shift_digit:
  assumes "d < 16"
  shows "push_bit 4 (of_nat n) OR of_nat d = (of_nat (16 * n + d) :: u64)"
proof -
  have "take_bit 4 (of_nat d :: u64) = of_nat (take_bit 4 d)" by (simp only: take_bit_of_nat)
  also have "take_bit 4 d = d" using assms by (simp add: take_bit_nat_eq_self)
  finally have lt: "bit (of_nat d :: u64) i \<Longrightarrow> i < 4" for i by (metis bit_take_bit_iff)
  have "push_bit 4 (of_nat n) OR of_nat d = (push_bit 4 (of_nat n) + of_nat d :: u64)"
    by (intro disjunctive_add [symmetric]) (auto simp: bit_push_bit_iff dest: lt)
  then show ?thesis by (simp add: push_bit_eq_mult mult.commute)
qed

text \<open>The state between two groups, when the bytes \<open>us\<close> are read.\<close>

definition pst :: "u8 list \<Rightarrow> nat option \<Rightarrow> pton6" where
  "pst us c = \<lparr>p_tmp = us @ replicate (16 - length us) 0, p_tp = length us, p_colonp = c, p_saw = 0, p_val = 0\<rparr>"

lemma pton6_hex:
  assumes "n < 65536" "p_saw s = 0" "p_val s = 0"
  shows "pton6_loop (hex_str n @ t) cur s = pton6_loop t cur (s\<lparr>p_val := of_nat n, p_saw := length (hex_str n)\<rparr>)"
  using assms(1)
proof (induction n arbitrary: t rule: hex_str.induct)
  case (1 n)
  show ?case
  proof (cases "n < 16")
    case True
    with assms shift_digit [of n 0] show ?thesis by (subst (1 2) hex_str.simps) (simp add: Let_def)
  next
    case False
    have h: "hex_str n = hex_str (n div 16) @ [''0123456789abcdef'' ! (n mod 16)]"
      using False by (subst hex_str.simps) simp
    then have "length (hex_str (n div 16)) + 1 \<le> 4" using length_hex_str(1) [OF 1(2)] by simp
    moreover have "16 * (n div 16) + n mod 16 = n" by simp
    ultimately show ?thesis
      using 1(1) [OF False, of "(''0123456789abcdef'' ! (n mod 16)) # t"] 1(2) shift_digit [of "n mod 16" "n div 16"]
      unfolding h by (simp add: Let_def less_mult_imp_div_less del: of_nat_add)
  qed
qed

lemma pton6_dec:
  assumes "n < 256" "p_saw s = 0"
  shows "\<exists>v. pton6_loop (dec_str n @ t) cur s = pton6_loop t cur (s\<lparr>p_val := v, p_saw := length (dec_str n)\<rparr>)"
  using assms(1)
proof (induction n arbitrary: t rule: dec_str.induct)
  case (1 n)
  show ?case
  proof (cases "n < 10")
    case True
    with assms show ?thesis by (subst (1 2) dec_str.simps) (auto simp add: Let_def)
  next
    case False
    have h: "dec_str n = dec_str (n div 10) @ [digit_char (n mod 10)]"
      using False by (subst dec_str.simps) simp
    then have "length (dec_str (n div 10)) + 1 \<le> 4" using length_dec_str [OF 1(2)] by simp
    moreover have "n div 10 < 256" using 1(2) by simp
    ultimately show ?thesis
      using 1(1) [OF False, of "digit_char (n mod 10) # t"] 1(2)
      unfolding h by (auto simp add: Let_def)
  qed
qed

lemma put_group_pst:
  assumes "length us + 2 \<le> 16" "n = unat w"
  shows "put_group (us @ replicate (16 - length us) 0) (length us) (of_nat n) = Inr ((us @ group_bytes w) @ replicate (16 - length (us @ group_bytes w)) 0)"
proof -
  have r: "replicate (16 - length us) (0 :: u8) = 0 # 0 # replicate (14 - length us) 0"
    using assms(1) by (simp add: replicate_Suc [symmetric] numeral_eq_Suc Suc_diff_le del: replicate_Suc)
  have w: "of_nat n = (ucast w :: u64)" using assms(2) by (simp add: word_unat_eq_iff)
  have m: "x AND 0xFF = take_bit 8 x" for x :: u64 by (simp add: take_bit_eq_mask mask_eq_exp_minus_1)
  have "ucast (drop_bit 8 (ucast w :: u64) AND 0xFF) = (ucast (drop_bit 8 w) :: u8)" "ucast ((ucast w :: u64) AND 0xFF) = (ucast w :: u8)"
    unfolding m by (rule bit_word_eqI, use bit_imp_le_length [of w] in \<open>force simp: bit_simps\<close>)+
  then show ?thesis
    unfolding put_group_def w r group_bytes_def
    by (simp add: set_at_def list_update_append del: drop_bit_and)
qed

lemma pton6_group:
  assumes "length us + 2 \<le> 16"
  shows "pton6_loop (hex_str (unat w) @ CHR '':'' # t) cur (pst us c) = pton6_loop t t (pst (us @ group_bytes w) c)"
proof -
  have "hex_str (unat w) \<noteq> []" by (subst hex_str.simps) simp
  moreover have "pton6_loop (hex_str (unat w) @ CHR '':'' # t) cur (pst us c) =
      pton6_loop (CHR '':'' # t) cur ((pst us c)\<lparr>p_val := of_nat (unat w), p_saw := length (hex_str (unat w))\<rparr>)"
    by (rule pton6_hex) (simp_all add: unat_group_less pst_def)
  ultimately show ?thesis
    using assms put_group_pst [OF assms refl, of w] by (simp add: pst_def group_bytes_def)
qed

definition colons :: "16 word list \<Rightarrow> string" where
  "colons ws = concat (map (\<lambda>w. hex_str (unat w) @ '':'') ws)"

lemma pton6_groups:
  assumes "length us + 2 * length ws \<le> 16"
  shows "pton6_loop (colons ws @ t) cur (pst us c) = pton6_loop t (if ws = [] then cur else t) (pst (us @ bytes_of ws) c)"
  using assms
proof (induction ws arbitrary: us cur)
  case (Cons w ws)
  have l: "length us + 2 \<le> 16" using Cons.prems by simp
  have "pton6_loop (colons (w # ws) @ t) cur (pst us c) = pton6_loop (colons ws @ t) (colons ws @ t) (pst (us @ group_bytes w) c)"
    using pton6_group [OF l, of w "colons ws @ t" cur c] by (simp add: colons_def)
  also have "\<dots> = pton6_loop t t (pst ((us @ group_bytes w) @ bytes_of ws) c)"
    using Cons.IH [of "us @ group_bytes w" "colons ws @ t"] Cons.prems by (cases ws) (simp_all add: group_bytes_def colons_def)
  finally show ?case by (simp add: group_bytes_def)
qed (simp add: colons_def)

section \<open>The end of the text\<close>

lemma shift_zeros:
  assumes "length us + length vs + z + length ws = 16" "0 < z" "n = length vs + length ws"
  shows "shift_loop (length us) n [Suc (length ws)..<n + 1] (us @ vs @ replicate z 0 @ ws) = Inr (us @ replicate z 0 @ vs @ ws)"
  using assms(1,3)
proof (induction vs arbitrary: ws rule: rev_induct)
  case Nil
  then show ?case by simp
next
  case (snoc v vs)
  let ?i = "Suc (length ws)"
  have upt: "[?i..<n + 1] = ?i # [Suc ?i..<n + 1]" by (rule upt_conv_Cons) (use snoc.prems in simp)
  have z: "replicate z (0 :: u8) = replicate (z - 1) 0 @ [0]" "replicate z (0 :: u8) = 0 # replicate (z - 1) 0"
    using assms(2) by (cases z; simp add: replicate_append_same)+
  have idx: "16 - ?i = length us + (length vs + (1 + (z - 1)))" "length us + n - ?i = length us + length vs"
    using snoc.prems assms(2) by simp_all
  have "set_at (us @ (vs @ [v]) @ replicate z 0 @ ws) (16 - ?i) v = Inr (us @ vs @ v # replicate (z - 1) 0 @ v # ws)"
    unfolding idx z(1) by (simp add: set_at_def list_update_append)
  moreover have "set_at (us @ vs @ v # replicate (z - 1) 0 @ v # ws) (length us + n - ?i) 0 = Inr (us @ vs @ replicate z 0 @ v # ws)"
    unfolding idx z(2) by (simp add: set_at_def list_update_append)
  moreover have "(us @ (vs @ [v]) @ replicate z 0 @ ws) ! (length us + n - ?i) = v"
    unfolding idx by (simp add: nth_append)
  moreover have "shift_loop (length us) n [Suc (length (v # ws))..<n + 1] (us @ vs @ replicate z 0 @ v # ws) = Inr (us @ replicate z 0 @ vs @ v # ws)"
    by (rule snoc.IH) (use snoc.prems in simp_all)
  ultimately show ?case
    unfolding upt by simp
qed

lemma pton6_end_pst:
  "length us = 16 \<Longrightarrow> pton6_end (pst us None) = Inr (Some us)"
  "length us + length vs < 16 \<Longrightarrow>
    pton6_end (pst (us @ vs) (Some (length us))) = Inr (Some (us @ replicate (16 - length us - length vs) 0 @ vs))"
proof -
  show "length us = 16 \<Longrightarrow> pton6_end (pst us None) = Inr (Some us)"
    by (simp add: pton6_end_def pst_def)
  assume l: "length us + length vs < 16"
  from shift_zeros [of us vs "16 - length us - length vs" "[]" "length vs"] l
  show "pton6_end (pst (us @ vs) (Some (length us))) = Inr (Some (us @ replicate (16 - length us - length vs) 0 @ vs))"
    by (simp add: pton6_end_def pst_def del: upt_Suc)
qed

abbreviation pton6_rest :: "fault + pton6 option \<Rightarrow> fault + u8 list option" where
  "pton6_rest r \<equiv> rbind r (\<lambda>r. case r of None \<Rightarrow> Inr None | Some s \<Rightarrow> pton6_end s)"

fun joined :: "16 word list \<Rightarrow> string" where
  "joined [] = []"
| "joined (w # ws) = hex_str (unat w) @ (if ws = [] then [] else CHR '':'' # joined ws)"

lemma joined_colons: "ws \<noteq> [] \<Longrightarrow> joined ws = colons (butlast ws) @ hex_str (unat (last ws))"
  by (induction ws) (auto simp: colons_def)

lemma hex_str_nonempty [simp]: "hex_str n \<noteq> []"
  by (subst hex_str.simps) simp

lemma pton6_joined:
  assumes "length us + 2 * length ws \<le> 16"
  shows "pton6_rest (pton6_loop (joined ws) cur (pst us c)) = pton6_end (pst (us @ bytes_of ws) c)"
proof (cases "ws = []")
  case False
  let ?us = "us @ bytes_of (butlast ws)" and ?w = "last ws"
  obtain cur' where "pton6_loop (joined ws) cur (pst us c) = pton6_loop (hex_str (unat ?w)) cur' (pst ?us c)"
    using pton6_groups [of us "butlast ws" "hex_str (unat ?w)" cur c] assms False by (simp add: joined_colons)
  also have "\<dots> = Inr (Some ((pst ?us c)\<lparr>p_val := of_nat (unat ?w), p_saw := length (hex_str (unat ?w))\<rparr>))"
    using pton6_hex [of "unat ?w" "pst ?us c" "[]" cur'] unat_group_less [of ?w] by (simp add: pst_def)
  finally have run: "pton6_loop (joined ws) cur (pst us c) = \<dots>" .
  have l: "length ?us + 2 \<le> 16" using assms False by (cases ws rule: rev_cases) simp_all
  have "pton6_end ((pst ?us c)\<lparr>p_val := of_nat (unat ?w), p_saw := length (hex_str (unat ?w))\<rparr>) = pton6_end (pst (?us @ group_bytes ?w) c)"
    using l put_group_pst [OF l refl, of ?w] by (simp add: pton6_end_def pst_def group_bytes_def)
  moreover have "bytes_of ws = bytes_of (butlast ws) @ group_bytes ?w"
    using False bytes_of_simps(3) [of "butlast ws" "[?w]"] by (simp add: group_bytes_def del: bytes_of_simps(3))
  ultimately show ?thesis unfolding run by simp
qed simp

lemma pton6_quad:
  assumes "length us + 4 \<le> 16" "length src = 4"
  shows "pton6_rest (pton6_loop (quad src) (quad src) (pst us c)) = pton6_end (pst (us @ src) c)"
proof -
  obtain t where t: "quad src = dec_str (unat (src ! 0)) @ CHR ''.'' # t" by (simp add: quad_def)
  have saw: "p_saw (pst us c) = 0" by (simp add: pst_def)
  obtain v where run: "pton6_loop (quad src) (quad src) (pst us c) = pton6_loop (CHR ''.'' # t) (quad src)
      ((pst us c)\<lparr>p_val := v, p_saw := length (dec_str (unat (src ! 0)))\<rparr>)"
    using pton6_dec [OF unat_u8_lt [of "src ! 0", simplified] saw, of "CHR ''.'' # t" "quad src"] unfolding t by auto
  have "drop 4 (replicate (16 - length us) (0 :: u8)) = replicate (12 - length us) 0" by simp
  then have "pton6_loop (quad src) (quad src) (pst us c) = Inr (Some ((pst (us @ src) c)\<lparr>p_val := v\<rparr>))"
    unfolding run using assms pton4_quad [OF assms(2)] by (simp add: pst_def)
  then show ?thesis by (simp add: pton6_end_def pst_def)
qed

section \<open>The shape of a printed address\<close>

definition piece :: "16 word list \<Rightarrow> nat \<Rightarrow> string" where
  "piece ws i = (if i \<noteq> 0 then '':'' else []) @ hex_str (unat (ws ! i))"

lemma ntop6_loop_pieces:
  "\<forall>i\<in>set js. \<not> in_best b i \<and> \<not> (i = 6 \<and> ntop6_v4 b ws) \<Longrightarrow>
    ntop6_loop b ws (js @ is) = concat (map (piece ws) js) @ ntop6_loop b ws is"
  by (induction js) (auto simp: piece_def)

lemma ntop6_loop_inside:
  "\<forall>i\<in>set js. in_best b i \<and> fst (the b) \<noteq> i \<Longrightarrow> ntop6_loop b ws (js @ is) = ntop6_loop b ws is"
  by (induction js) auto

lemma pieces_front:
  "n \<le> length ws \<Longrightarrow> concat (map (piece ws) [0..<n]) @ '':'' = (if n = 0 then '':'' else colons (take n ws))"
proof (induction n)
  case (Suc n)
  have "take (Suc n) ws = take n ws @ [ws ! n]" using Suc.prems by (simp add: take_Suc_conv_app_nth)
  then show ?case
    using Suc by (cases "n = 0") (simp_all add: piece_def colons_def flip: append_assoc)
qed simp

lemma pieces_back:
  assumes "0 < n" "n \<le> length ws"
  shows "concat (map (piece ws) [n..<length ws]) @ (if n = length ws then '':'' else []) = CHR '':'' # joined (drop n ws)"
  using assms(2,1)
proof (induction n rule: inc_induct)
  case (step n)
  then have "[n..<length ws] = n # [Suc n..<length ws]" "drop n ws = ws ! n # drop (Suc n) ws" "drop (Suc n) ws = [] \<longleftrightarrow> Suc n = length ws"
    by (auto simp add: upt_conv_Cons Cons_nth_drop_Suc)
  with step show ?case by (auto simp: piece_def)
qed simp

lemma inet_ntop6_shape:
  assumes ws: "length ws = 8"
  shows "inet_ntop6 ws = (case ntop6_best ws of None \<Rightarrow> joined ws
    | Some (b, l) \<Rightarrow> (if b = 0 then '':'' else colons (take b ws)) @ CHR '':'' #
        (if ntop6_v4 (ntop6_best ws) ws then (if l = 5 then colons [ws ! 5] else []) @ quad (bytes_of [ws ! 6, ws ! 7])
         else joined (drop (b + l) ws)))"
proof (cases "ntop6_best ws")
  case None
  have all: "[0, 1, 2, 3, 4, 5, 6, 7] = [0..<8]" by code_simp
  have "inet_ntop6 ws = concat (map (piece ws) [0..<8])"
    using ntop6_loop_pieces [of "[0..<8]" None ws "[]"] None all
    by (simp add: inet_ntop6_def Let_def in_best_def ntop6_v4_def del: upt_Suc)
  also have "\<dots> = concat (map (piece ws) [0]) @ concat (map (piece ws) [1..<8])"
    using upt_conv_Cons [of 0 8] by (simp del: upt_Suc upt_rec_numeral)
  also have "concat (map (piece ws) [1..<8]) = CHR '':'' # joined (drop 1 ws)"
    using pieces_back [of 1 ws] ws by (simp del: upt_Suc upt_rec_numeral)
  finally show ?thesis using None ws by (cases ws) (auto simp: piece_def)
next
  case (Some p)
  then obtain b l where b: "ntop6_best ws = Some (b, l)" by (cases p) simp
  note bl = ntop6_bestD [OF b ws]
  let ?b = "Some (b, l)"
  have "[0, 1, 2, 3, 4, 5, 6, 7] = [0..<8]" by code_simp
  also have "\<dots> = [0..<b] @ b # [Suc b..<b + l] @ [b + l..<8]"
    using bl(1,2) upt_add_eq_append [of 0 b "8 - b"] upt_add_eq_append [of b "b + l" "8 - (b + l)"] upt_conv_Cons [of b "b + l"]
    by (simp del: upt_Suc upt_rec_numeral)
  finally have "ntop6_loop ?b ws [0, 1, 2, 3, 4, 5, 6, 7] = ntop6_loop ?b ws ([0..<b] @ b # [Suc b..<b + l] @ [b + l..<8])" by simp
  also have "\<dots> = concat (map (piece ws) [0..<b]) @ ntop6_loop ?b ws (b # [Suc b..<b + l] @ [b + l..<8])"
    by (rule ntop6_loop_pieces) (auto simp: in_best_def ntop6_v4_def)
  also have "ntop6_loop ?b ws (b # [Suc b..<b + l] @ [b + l..<8]) = '':'' @ ntop6_loop ?b ws ([Suc b..<b + l] @ [b + l..<8])"
    using bl(1) by (simp add: in_best_def)
  also have "ntop6_loop ?b ws ([Suc b..<b + l] @ [b + l..<8]) = ntop6_loop ?b ws [b + l..<8]"
    by (rule ntop6_loop_inside) (auto simp: in_best_def)
  also have "concat (map (piece ws) [0..<b]) @ '':'' @ ntop6_loop ?b ws [b + l..<8] =
      (if b = 0 then '':'' else colons (take b ws)) @ ntop6_loop ?b ws [b + l..<8]"
    using pieces_front [of b ws] bl ws by simp
  finally have t: "inet_ntop6 ws = (if b = 0 then '':'' else colons (take b ws)) @ ntop6_loop ?b ws [b + l..<8] @ (if b + l = 8 then '':'' else [])"
    by (simp add: inet_ntop6_def Let_def b)
  show ?thesis
  proof (cases "ntop6_v4 ?b ws")
    case False
    then have "ntop6_loop ?b ws [b + l..<8] = concat (map (piece ws) [b + l..<8])"
      using ntop6_loop_pieces [of "[b + l..<8]" ?b ws "[]"] by (simp add: in_best_def)
    then have "ntop6_loop ?b ws [b + l..<8] @ (if b + l = 8 then '':'' else []) = CHR '':'' # joined (drop (b + l) ws)"
      using pieces_back [of "b + l" ws] bl ws by simp
    then show ?thesis unfolding t b using False by simp
  next
    case True
    then have v: "b = 0" "l = 6 \<or> l = 5 \<and> ws ! 5 = 0xFFFF" by (auto simp: ntop6_v4_def)
    have six: "[6..<8] = [6, 7 :: nat]" "[5..<8] = [5, 6, 7 :: nat]" by code_simp+
    have "\<not> in_best ?b 6" using v by (auto simp: in_best_def)
    then have tail: "ntop6_loop ?b ws [6, 7] = CHR '':'' # quad (bytes_of [ws ! 6, ws ! 7])"
      using True by (simp add: quad_is_ntop4 del: bytes_of_simps)
    from v(2) show ?thesis
    proof
      assume "l = 6"
      then show ?thesis unfolding t b using True tail v(1) six by (simp del: bytes_of_simps)
    next
      assume l: "l = 5 \<and> ws ! 5 = 0xFFFF"
      then have "ntop6_loop ?b ws [5, 6, 7] = CHR '':'' # colons [ws ! 5] @ quad (bytes_of [ws ! 6, ws ! 7])"
        using ntop6_loop_pieces [of "[5]" ?b ws "[6, 7]"] tail v(1) by (simp add: in_best_def piece_def colons_def del: bytes_of_simps)
      then show ?thesis unfolding t b using True l v(1) six by (simp del: bytes_of_simps)
    qed
  qed
qed

section \<open>Reading printed addresses\<close>

lemma hex_str_first: "c_at (hex_str n @ t) \<noteq> CHR '':''"
  using hex_str_no_dot [of n] by (cases "hex_str n") auto

lemma pton6_start: "pst [] None = \<lparr>p_tmp = replicate 16 0, p_tp = 0, p_colonp = None, p_saw = 0, p_val = 0\<rparr>"
  by (simp add: pst_def)

lemma pton6_colon: "pton6_loop (CHR '':'' # t) cur (pst us None) = pton6_loop t t (pst us (Some (length us)))"
  by (simp add: pst_def)

lemma zero_group_bytes: "\<forall>w\<in>set ws. w = 0 \<Longrightarrow> bytes_of ws = replicate (2 * length ws) 0"
  by (induction ws) (auto simp: numeral_2_eq_2)

lemma pton6_ntop6:
  assumes ws: "length ws = 8"
  shows "curl_inet_pton6 (inet_ntop6 ws) = Inr (Some (bytes_of ws))"
proof (cases "ntop6_best ws")
  case None
  then have t: "inet_ntop6 ws = joined ws" using inet_ntop6_shape [OF ws] by simp
  have "c_at (joined ws) \<noteq> CHR '':''" using ws hex_str_first by (cases ws) auto
  then show ?thesis
    unfolding t curl_inet_pton6_def pton6_start [symmetric]
    using pton6_joined [of "[]" ws "joined ws" None] ws pton6_end_pst(1) [of "bytes_of ws"] by (simp add: Let_def)
next
  case (Some p)
  then obtain b l where b: "ntop6_best ws = Some (b, l)" by (cases p) simp
  note bl = ntop6_bestD [OF b ws]
  let ?v4 = "ntop6_v4 (ntop6_best ws) ws" and ?us = "bytes_of (take b ws)" and ?vs = "bytes_of (drop (b + l) ws)"
  define rest where "rest = (if ?v4 then (if l = 5 then colons [ws ! 5] else []) @ quad (bytes_of [ws ! 6, ws ! 7])
      else joined (drop (b + l) ws))"
  have t: "inet_ntop6 ws = (if b = 0 then '':'' else colons (take b ws)) @ CHR '':'' # rest"
    using inet_ntop6_shape [OF ws] b by (simp add: rest_def)
  have us: "length ?us = 2 * b" "length ?us + length ?vs < 16" using bl ws by simp_all
  have "curl_inet_pton6 (inet_ntop6 ws) = pton6_rest (pton6_loop rest rest (pst ?us (Some (length ?us))))"
  proof (cases "b = 0")
    case True
    then show ?thesis
      unfolding t curl_inet_pton6_def pton6_start [symmetric] using pton6_colon [of rest "CHR '':'' # rest" "[]"] by (simp add: Let_def)
  next
    case False
    then obtain w ws' where w: "take b ws = w # ws'" using ws by (cases ws; cases b) auto
    have first: "c_at (colons (take b ws) @ CHR '':'' # rest) \<noteq> CHR '':''"
      unfolding w using hex_str_first by (simp add: colons_def)
    have "length [] + 2 * length (take b ws) \<le> 16" using bl by simp
    from pton6_groups [OF this, of "CHR '':'' # rest" "colons (take b ws) @ CHR '':'' # rest" None]
    have "pton6_loop (colons (take b ws) @ CHR '':'' # rest) (colons (take b ws) @ CHR '':'' # rest) (pst [] None) =
        pton6_loop (CHR '':'' # rest) (CHR '':'' # rest) (pst ?us None)"
      unfolding w by (simp only: list.distinct if_False append_Nil)
    then show ?thesis
      unfolding t curl_inet_pton6_def pton6_start [symmetric] using False first pton6_colon [of rest "CHR '':'' # rest" ?us] by (simp add: Let_def)
  qed
  also have "\<dots> = pton6_end (pst (?us @ ?vs) (Some (length ?us)))"
  proof (cases ?v4)
    case False
    then show ?thesis using pton6_joined [of ?us "drop (b + l) ws" rest] us by (simp add: rest_def)
  next
    case True
    then have v: "b = 0" "l = 6 \<or> l = 5" by (auto simp: ntop6_v4_def b)
    obtain a0 a1 a2 a3 a4 a5 a6 a7 where e: "ws = [a0, a1, a2, a3, a4, a5, a6, a7]" using length8 [OF ws] by blast
    from v(2) show ?thesis
    proof
      assume "l = 6"
      then show ?thesis using True v(1) pton6_quad [of "[]" "bytes_of [ws ! 6, ws ! 7]"] by (simp add: rest_def e)
    next
      assume l: "l = 5"
      let ?q = "quad (bytes_of [ws ! 6, ws ! 7])"
      have "pton6_loop rest rest (pst [] (Some 0)) = pton6_loop ?q ?q (pst (bytes_of [ws ! 5]) (Some 0))"
        using pton6_groups [of "[]" "[ws ! 5]" ?q rest "Some 0"] True l by (simp add: rest_def del: bytes_of_simps(2))
      then show ?thesis using l v(1) pton6_quad [of "bytes_of [ws ! 5]" "bytes_of [ws ! 6, ws ! 7]"] by (simp add: e)
    qed
  qed
  also have "\<dots> = Inr (Some (?us @ replicate (16 - length ?us - length ?vs) 0 @ ?vs))"
    by (rule pton6_end_pst(2)) (rule us(2))
  also have "?us @ replicate (16 - length ?us - length ?vs) 0 @ ?vs = bytes_of ws"
  proof -
    have "ws = take b ws @ take l (drop b ws) @ drop (b + l) ws"
      by (metis append_take_drop_id drop_drop add.commute)
    moreover have "bytes_of (take l (drop b ws)) = replicate (2 * l) 0"
    proof -
      have "\<forall>w\<in>set (take l (drop b ws)). w = 0"
        using bl(2,3) ws by (auto simp: in_set_conv_nth)
      from zero_group_bytes [OF this] show ?thesis using bl(2) ws by simp
    qed
    moreover have "16 - length ?us - length ?vs = 2 * l" using bl(2) ws by simp
    ultimately show ?thesis by (metis bytes_of_simps(3))
  qed
  finally show ?thesis .
qed

section \<open>Any text\<close>

lemma pton4_safe:
  assumes "length tmp = 4" "tp \<le> 3" "octets = (if saw then tp + 1 else tp)"
  shows "\<exists>r. pton4_loop s tmp tp saw octets = Inr r \<and> (\<forall>d. r = Some d \<longrightarrow> length d = 4)"
  using assms
proof (induction s arbitrary: tmp tp saw octets)
  case (Cons c s)
  let ?val = "unat (tmp ! tp) * 10 + digit_val c"
  have digit: "\<exists>r. pton4_loop s (tmp[tp := of_nat ?val]) tp True (tp + 1) = Inr r \<and> (\<forall>d. r = Some d \<longrightarrow> length d = 4)"
    by (rule Cons.IH) (use Cons.prems in simp_all)
  have dot: "\<exists>r. pton4_loop s (tmp[tp + 1 := 0]) (tp + 1) False (tp + 1) = Inr r \<and> (\<forall>d. r = Some d \<longrightarrow> length d = 4)"
    if "tp + 1 \<le> 3" by (rule Cons.IH) (use Cons.prems that in simp_all)
  consider "is_digit c" "saw \<and> tmp ! tp = 0 \<or> ?val > 255" | "is_digit c" "\<not> (saw \<and> tmp ! tp = 0)" "\<not> ?val > 255"
    | "\<not> is_digit c" "c = CHR ''.''" saw | "\<not> is_digit c" "\<not> (c = CHR ''.'' \<and> saw)" by blast
  then show ?case
  proof cases
    case 2
    then have "pton4_loop (c # s) tmp tp saw octets = pton4_loop s (tmp[tp := of_nat ?val]) tp True (tp + 1)"
      using Cons.prems by (cases saw) (simp_all add: Let_def set_at_def)
    with digit show ?thesis by simp
  next
    case 3
    then have "pton4_loop (c # s) tmp tp saw octets = (if tp = 3 then Inr None else pton4_loop s (tmp[tp + 1 := 0]) (tp + 1) False (tp + 1))"
      using Cons.prems by (simp add: set_at_def)
    with dot Cons.prems(2) show ?thesis by (cases "tp = 3") auto
  qed (auto simp: Let_def)
qed simp

definition p_inv :: "pton6 \<Rightarrow> bool" where
  "p_inv s \<longleftrightarrow> length (p_tmp s) = 16 \<and> p_tp s \<le> 16 \<and> (\<forall>k. p_colonp s = Some k \<longrightarrow> k \<le> p_tp s)"

lemma put_group_safe: "tp + 2 \<le> length tmp \<Longrightarrow> \<exists>tmp'. put_group tmp tp v = Inr tmp' \<and> length tmp' = length tmp"
  by (simp add: put_group_def set_at_def)

lemma pton6_loop_safe:
  "p_inv s \<Longrightarrow> \<exists>r. pton6_loop str cur s = Inr r \<and> (\<forall>s'. r = Some s' \<longrightarrow> p_inv s')"
proof (induction str arbitrary: cur s)
  case (Cons c str)
  show ?case
  proof (cases "xdigit c")
    case (Some d)
    have "p_inv (s\<lparr>p_val := push_bit 4 (p_val s) OR of_nat d, p_saw := p_saw s + 1\<rparr>)"
      using Cons.prems by (simp add: p_inv_def)
    from Cons.IH [OF this, of cur] Some show ?thesis by (auto simp: Let_def)
  next
    case None
    consider "c = CHR '':''" "p_saw s = 0" | "c = CHR '':''" "p_saw s \<noteq> 0" | "c = CHR ''.''" "p_tp s + 4 \<le> 16"
      | "c \<noteq> CHR '':''" "\<not> (c = CHR ''.'' \<and> p_tp s + 4 \<le> 16)" by blast
    then show ?thesis
    proof cases
      case 1
      have "p_inv (s\<lparr>p_colonp := Some (p_tp s)\<rparr>)" using Cons.prems by (simp add: p_inv_def)
      from Cons.IH [OF this, of str] 1 show ?thesis by auto
    next
      case 2
      show ?thesis
      proof (cases "p_tp s + 2 \<le> 16")
        case True
        then obtain tmp where tmp: "put_group (p_tmp s) (p_tp s) (p_val s) = Inr tmp" "length tmp = 16"
          using put_group_safe [of "p_tp s" "p_tmp s" "p_val s"] Cons.prems by (auto simp: p_inv_def)
        have "p_inv (s\<lparr>p_tmp := tmp, p_tp := p_tp s + 2, p_saw := 0, p_val := 0\<rparr>)"
          using Cons.prems tmp(2) True by (auto simp: p_inv_def)
        from Cons.IH [OF this, of str] show ?thesis using 2 True tmp(1) by simp
      qed (use 2 in simp)
    next
      case 3
      obtain r where r: "curl_inet_pton4 cur = Inr r" "\<And>d. r = Some d \<Longrightarrow> length d = 4"
        using pton4_safe [of "replicate 4 0" 0 0 False cur] unfolding curl_inet_pton4_def by auto
      have "p_inv (s\<lparr>p_tmp := take (p_tp s) (p_tmp s) @ d @ drop (p_tp s + 4) (p_tmp s), p_tp := p_tp s + 4, p_saw := 0\<rparr>)"
        if "r = Some d" for d
        using Cons.prems 3(2) r(2) [OF that] by (auto simp: p_inv_def)
      then show ?thesis using 3 r(1) by (cases r) (auto simp: add.commute)
    qed (use None in auto)
  qed
qed simp

lemma shift_loop_safe:
  "\<forall>i\<in>set is. 1 \<le> i \<and> i \<le> k + n \<Longrightarrow> 0 < k + n \<Longrightarrow> k + n < 16 \<Longrightarrow> length tmp = 16 \<Longrightarrow>
    \<exists>tmp'. shift_loop k n is tmp = Inr tmp' \<and> length tmp' = 16"
  by (induction "is" arbitrary: tmp) (auto simp: set_at_def)

lemma pton6_end_safe:
  assumes "p_inv s"
  shows "\<exists>r. pton6_end s = Inr r \<and> (\<forall>d. r = Some d \<longrightarrow> length d = 16)"
proof -
  define c where "c = p_colonp s"
  define tail where "tail = (\<lambda>(tmp, tp). case c of Some k \<Rightarrow> let n = tp - k in if tp = 16 then Inr None
        else rbind (shift_loop k n [1..<n + 1] tmp) (\<lambda>tmp. Inr (Some tmp))
      | None \<Rightarrow> if tp \<noteq> 16 then Inr None else Inr (Some tmp))"
  have split: "pton6_end s = (if p_saw s \<noteq> 0 \<and> p_tp s + 2 > 16 then Inr None
     else rbind (if p_saw s \<noteq> 0 then rbind (put_group (p_tmp s) (p_tp s) (p_val s)) (\<lambda>tmp. Inr (tmp, p_tp s + 2))
                 else Inr (p_tmp s, p_tp s)) tail)"
    unfolding pton6_end_def tail_def c_def ..
  have fin: "\<exists>r. tail (tmp, tp) = Inr r \<and> (\<forall>d. r = Some d \<longrightarrow> length d = 16)"
    if "length tmp = 16" "tp \<le> 16" "\<And>k. c = Some k \<Longrightarrow> k \<le> tp" for tmp tp
  proof (cases c)
    case (Some k)
    note h = that(1,2) that(3) [OF Some]
    show ?thesis
    proof (cases "tp = 0 \<or> tp = 16")
      case False
      have "\<forall>i\<in>set [1..<tp - k + 1]. 1 \<le> i \<and> i \<le> k + (tp - k)" using h(3) by auto
      then obtain tmp' where "shift_loop k (tp - k) [1..<tp - k + 1] tmp = Inr tmp'" "length tmp' = 16"
        using shift_loop_safe [of "[1..<tp - k + 1]" k "tp - k" tmp] h False by (auto simp del: upt_Suc)
      then show ?thesis using Some False by (simp add: tail_def Let_def del: upt_Suc)
    qed (use Some h in \<open>auto simp: tail_def Let_def\<close>)
  qed (use that in \<open>auto simp: tail_def\<close>)
  show ?thesis
  proof (cases "p_saw s = 0")
    case True
    with fin [of "p_tmp s" "p_tp s"] assms show ?thesis
      unfolding split by (simp add: p_inv_def c_def)
  next
    case False
    show ?thesis
    proof (cases "p_tp s + 2 \<le> 16")
      case True
      then obtain tmp where "put_group (p_tmp s) (p_tp s) (p_val s) = Inr tmp" "length tmp = 16"
        using put_group_safe [of "p_tp s" "p_tmp s" "p_val s"] assms by (auto simp: p_inv_def)
      moreover have "k \<le> p_tp s + 2" if "c = Some k" for k using assms that by (auto simp: p_inv_def c_def)
      ultimately show ?thesis
        using fin [of tmp "p_tp s + 2"] False True unfolding split by simp
    qed (use False in \<open>simp add: split\<close>)
  qed
qed

lemma pton6_safe: "\<exists>r. curl_inet_pton6 s = Inr r \<and> (\<forall>d. r = Some d \<longrightarrow> length d = 16)"
proof -
  have "p_inv (pst [] None)" by (simp add: p_inv_def pst_def)
  from pton6_loop_safe [OF this] obtain r where
    r: "pton6_loop (if c_at s = CHR '':'' then drop 1 s else s) (if c_at s = CHR '':'' then drop 1 s else s) (pst [] None) = Inr r"
    "\<And>s'. r = Some s' \<Longrightarrow> p_inv s'" by blast
  show ?thesis
  proof (cases r)
    case None
    then show ?thesis using r(1) unfolding curl_inet_pton6_def pton6_start [symmetric] by (simp add: Let_def)
  next
    case (Some s')
    then show ?thesis
      using r(1) pton6_end_safe [OF r(2) [OF Some]] unfolding curl_inet_pton6_def pton6_start [symmetric] by (auto simp: Let_def)
  qed
qed

text \<open>
  C16: libcurl's conversions of addresses are inverse and safe. Every IPv6 address is printed,
  within the 46 bytes of the block, as the text the C library's printer writes, the first of the
  longest runs of zero groups compressed, and null is returned exactly when the caller's buffer
  is too small for it; the reader returns the address from that text; so for IPv4. On any text
  at all the reader ends without an access outside its block: it returns - 1 for an unknown
  family, or 0, or 1 with the bytes of an address of the family.
\<close>

theorem inet_text_roundtrip:
  assumes "length ws = 8" "length src = 4"
  shows "Curl_inet_ntop AF_INET_6 (bytes_of ws) sz = Inr (if sz \<le> length (inet_ntop6 ws) then None else Some (inet_ntop6 ws))
    \<and> Curl_inet_pton AF_INET_6 (inet_ntop6 ws) = Inr (1, Some (bytes_of ws))
    \<and> Curl_inet_ntop AF_INET_4 src sz = Inr (if sz \<le> length (quad src) then None else Some (quad src))
    \<and> Curl_inet_pton AF_INET_4 (quad src) = Inr (1, Some src)
    \<and> length (inet_ntop6 ws) < 46 \<and> length (quad src) < 16
    \<and> (\<forall>af str. \<exists>code dst. Curl_inet_pton af str = Inr (code, dst) \<and>
        (code, map_option length dst) \<in> {(- 1, None), (0, None), (1, Some (if af = AF_INET_4 then 4 else 16))})"
proof (intro conjI allI)
  show "Curl_inet_ntop AF_INET_6 (bytes_of ws) sz = Inr (if sz \<le> length (inet_ntop6 ws) then None else Some (inet_ntop6 ws))"
    "length (inet_ntop6 ws) < 46"
    using ntop6_run [OF assms(1)] by (simp_all add: Curl_inet_ntop_def)
  show "Curl_inet_ntop AF_INET_4 src sz = Inr (if sz \<le> length (quad src) then None else Some (quad src))"
    "Curl_inet_pton AF_INET_4 (quad src) = Inr (1, Some src)" "length (quad src) < 16"
    using ntop4_run [of src sz] pton4_quad [OF assms(2)] length_quad(2) [of src] assms(2)
    by (simp_all add: Curl_inet_ntop_def Curl_inet_pton_def)
  show "Curl_inet_pton AF_INET_6 (inet_ntop6 ws) = Inr (1, Some (bytes_of ws))"
    by (simp add: Curl_inet_pton_def pton6_ntop6 [OF assms(1)])
  fix af str
  obtain r4 r6 where "curl_inet_pton4 str = Inr r4" "\<And>d. r4 = Some d \<Longrightarrow> length d = 4"
    "curl_inet_pton6 str = Inr r6" "\<And>d. r6 = Some d \<Longrightarrow> length d = 16"
    using pton4_safe [of "replicate 4 0" 0 0 False str] pton6_safe [of str] unfolding curl_inet_pton4_def by auto
  then show "\<exists>code dst. Curl_inet_pton af str = Inr (code, dst) \<and>
      (code, map_option length dst) \<in> {(- 1, None), (0, None), (1, Some (if af = AF_INET_4 then 4 else 16))}"
    by (cases af; cases r4; cases r6) (auto simp: Curl_inet_pton_def Let_def)
qed

theorem inet_text_roundtrip_witness:
  "Curl_inet_pton AF_INET_6 (inet_ntop6 [0x240E, 0x3A0, 0, 0, 0, 1, 0, 0xFF]) =
     Inr (1, Some (bytes_of [0x240E, 0x3A0, 0, 0, 0, 1, 0, 0xFF]))"
  using inet_text_roundtrip [of "[0x240E, 0x3A0, 0, 0, 0, 1, 0, 0xFF]" "[127, 0, 0, 1]" 46] by simp

text \<open>A colon behind the last group, or behind one group of the second part, is not noticed.\<close>

lemma trailing_colon_accepted:
  "curl_inet_pton6 ''1:2:3:4:5:6:7:8:'' = curl_inet_pton6 ''1:2:3:4:5:6:7:8''"
  "curl_inet_pton6 ''1::2:'' = Inr (Some [0, 1, 0, 0, 0, 0, 0, 0, 0, 0, 0, 0, 0, 0, 0, 2])"
  by code_simp+

end
