(* ===== verification/Cjson_Typed.thy ===== *)
theory Cjson_Typed
  imports Cjson_Parse
begin

text \<open>
  The typing of parsed JSON: the \<^verbatim>\<open>type\<close> of every node of a parsed tree says which of its other
  fields are meaningful, which the decoders of the answers and the printers rely on.
\<close>

section \<open>Typing\<close>

fun well_typed :: "cjson \<Rightarrow> bool" where
  "well_typed (CJson ty vs vi vd nm cs) \<longleftrightarrow>
    ty = J_Array \<and> vs = None \<and> (\<forall>c\<in>set cs. well_typed c \<and> jstring c = None) \<or>
    ty = J_Object \<and> vs = None \<and> (\<forall>c\<in>set cs. well_typed c \<and> jstring c \<noteq> None) \<or>
    cs = [] \<and> (ty = J_String \<and> vs \<noteq> None \<or> ty \<in> {J_False, J_True, J_NULL, J_Number} \<and> vs = None)"

definition gives :: "('a \<Rightarrow> bool) \<Rightarrow> 'a parse \<Rightarrow> bool" where
  "gives Q r = (case r of POk x s m \<Rightarrow> Q x | PFail e \<Rightarrow> True | PFault u \<Rightarrow> True | PFuel \<Rightarrow> True)"

lemma gives_simps [simp]:
  "gives Q (POk x s m) = Q x" "gives Q (PFail e)" "gives Q (PFault u)" "gives Q PFuel"
  by (simp_all add: gives_def)

lemma gives_pbind: "gives P r \<Longrightarrow> (\<And>x s m. P x \<Longrightarrow> gives Q (f x s m)) \<Longrightarrow> gives Q (pbind r f)"
  by (cases r) simp_all

lemma gives_plift: "(\<And>x. r = Inr x \<Longrightarrow> gives Q (f x)) \<Longrightarrow> gives Q (plift r f)"
  by (cases r) simp_all

lemma gives_new_item: "(\<And>m'. gives Q (f blank_item m')) \<Longrightarrow> gives Q (with_new_item m f)"
  by (auto simp: with_new_item_def dest: New_Item_SomeD split: prod.splits option.splits)

lemma gives_let: "(\<And>x. gives Q (f x)) \<Longrightarrow> gives Q (Let a f)"
  by simp

lemma gives_prod: "(\<And>a b. gives Q (f a b)) \<Longrightarrow> gives Q (case p of (a, b) \<Rightarrow> f a b)"
  by (cases p) simp

text \<open>A node the parsers are called with: only its type and its name may be set.\<close>

definition fresh :: "cjson \<Rightarrow> bool" where
  "fresh c \<longleftrightarrow> valuestring c = None \<and> child c = []"

definition typed_as :: "string option \<Rightarrow> cjson \<Rightarrow> bool" where
  "typed_as nm c \<longleftrightarrow> well_typed c \<and> jstring c = nm"

definition typed_member :: "cjson \<Rightarrow> bool" where
  "typed_member c \<longleftrightarrow> well_typed c \<and> jstring c \<noteq> None"

definition typed_parser :: "value_parser \<Rightarrow> bool" where
  "typed_parser pv \<longleftrightarrow> (\<forall>c s m. fresh c \<longrightarrow> gives (typed_as (jstring c)) (pv c s m))"

lemma typed_parserD: "typed_parser pv \<Longrightarrow> fresh c \<Longrightarrow> gives (typed_as (jstring c)) (pv c s m)"
  by (simp add: typed_parser_def)

lemma fresh_blank [simp]: "fresh blank_item" "jstring blank_item = None"
  by (simp_all add: fresh_def blank_item_def)

lemmas typed_simps = typed_as_def fresh_def cjson_setters

section \<open>The parsers\<close>

lemma gives_string:
  "fresh c \<Longrightarrow> gives (\<lambda>x. typed_as (jstring c) x \<and> jtype x = J_String \<and> child x = [] \<and> valuestring x \<noteq> None) (parse_string c s m)"
  unfolding parse_string_def
  by (auto intro!: gives_plift simp: typed_simps split: prod.splits bool.splits)

lemma gives_number: "fresh c \<Longrightarrow> gives (typed_as (jstring c)) (parse_number c s m)"
  unfolding parse_number_def
  by (intro gives_let gives_prod gives_plift) (simp add: typed_simps)

lemma gives_array_loop:
  assumes "typed_parser pv"
  shows "\<forall>c\<in>set cs. typed_as None c \<Longrightarrow> gives (\<lambda>cs. \<forall>c\<in>set cs. typed_as None c) (array_loop pv k cs s m)"
proof (induction k arbitrary: cs s m)
  case (Suc k)
  then show ?case
    using typed_parserD [OF assms fresh_blank(1)]
    by (auto intro!: gives_new_item gives_pbind [where P = "typed_as None"])
qed simp

lemma gives_array:
  assumes "typed_parser pv" "fresh c"
  shows "gives (typed_as (jstring c)) (parse_array pv c s m)"
proof -
  have "gives (\<lambda>cs. \<forall>c\<in>set cs. typed_as None c) (parse_elements pv s m)" for s m
    unfolding parse_elements_def using typed_parserD [OF assms(1) fresh_blank(1)]
    by (auto intro!: gives_new_item gives_pbind [where P = "typed_as None"] gives_array_loop [OF assms(1)])
  then show ?thesis
    using assms(2) unfolding parse_array_def Let_def
    by (auto intro!: gives_pbind [where P = "\<lambda>cs. \<forall>c\<in>set cs. typed_as None c"] simp: typed_simps)
qed

lemma gives_member:
  assumes "typed_parser pv" "fresh c"
  shows "gives typed_member (parse_member pv c s m)"
  unfolding parse_member_def Let_def
proof (rule gives_pbind [OF gives_string [OF assms(2)]])
  fix x s m
  assume x: "typed_as (jstring c) x \<and> jtype x = J_String \<and> child x = [] \<and> valuestring x \<noteq> None"
  let ?c = "set_valuestring None (set_jstring (valuestring x) x)"
  have "fresh ?c" "jstring ?c \<noteq> None" using x by (simp_all add: typed_simps)
  with typed_parserD [OF assms(1) this(1)]
  show "gives typed_member
      (if c_at (skip s) \<noteq> CHR '':'' then PFail (Some (skip s))
       else pbind (pv ?c (skip (drop 1 (skip s))) m) (\<lambda>c s m. POk c (skip s) m))"
    by (auto intro!: gives_pbind [where P = "typed_as (jstring ?c)"] simp: typed_as_def typed_member_def)
qed

lemma gives_object_loop:
  assumes "typed_parser pv"
  shows "\<forall>c\<in>set cs. typed_member c \<Longrightarrow>
    gives (\<lambda>cs. \<forall>c\<in>set cs. typed_member c) (object_loop pv k cs s m)"
proof (induction k arbitrary: cs s m)
  case (Suc k)
  then show ?case
    by (auto intro!: gives_new_item gives_pbind [OF gives_member [OF assms fresh_blank(1)]])
qed simp

lemma gives_object:
  assumes "typed_parser pv" "fresh c"
  shows "gives (typed_as (jstring c)) (parse_object pv c s m)"
proof -
  have "gives (\<lambda>cs. \<forall>c\<in>set cs. typed_member c) (parse_members pv s m)" for s m
    unfolding parse_members_def
    by (auto intro!: gives_new_item gives_pbind [OF gives_member [OF assms(1) fresh_blank(1)]] gives_object_loop [OF assms(1)]
        simp del: object_loop.simps)
  then show ?thesis
    using assms(2) unfolding parse_object_def Let_def
    by (auto intro!: gives_pbind [where P = "\<lambda>cs. \<forall>c\<in>set cs. typed_member c"] simp: typed_simps typed_member_def)
qed

lemma typed_parse_value: "typed_parser (parse_value n)"
proof (induction n)
  case 0
  then show ?case by (simp add: typed_parser_def)
next
  case (Suc n)
  have "gives (typed_as (jstring c)) (parse_value (Suc n) c s m)" if "fresh c" for c s m
  proof -
    have "gives (typed_as (jstring c)) (parse_string c s m)"
      using gives_string [OF that, of s m] by (simp add: gives_def split: parse.splits)
    with gives_number [OF that, of s m] gives_array [OF Suc.IH that, of s m] gives_object [OF Suc.IH that, of s m] that
    show ?thesis unfolding parse_value.simps by (simp add: typed_simps)
  qed
  then show ?case unfolding typed_parser_def by blast
qed

text \<open>
  C22: Parsed trees are well typed, whatever the text and whatever allocations fail: in a tree the
  parser returns every node has one of the seven types; a string node has its text and no other
  node has one; only arrays and objects have children; every member of an object has a name, no
  element of an array has one, and neither has the root.
\<close>

theorem parsed_trees_well_typed:
  "case ParseWithOpts v z m of
     POk c t m' \<Rightarrow> well_typed c \<and> jstring c = None
   | PFail e \<Rightarrow> True | PFault u \<Rightarrow> True | PFuel \<Rightarrow> True"
proof -
  have "gives (typed_as (jstring blank_item)) (parse_value (Suc (length v)) blank_item s m)" for s m
    by (rule typed_parserD [OF typed_parse_value fresh_blank(1)])
  then have "gives (typed_as None) (ParseWithOpts v z m)"
    unfolding ParseWithOpts_def Let_def
    by (auto intro!: gives_new_item gives_pbind [where P = "typed_as None"] simp del: parse_value.simps)
  then show ?thesis by (simp add: gives_def typed_as_def split: parse.splits)
qed

end
