(* ===== verification/Curl_Path.thy ===== *)
theory Curl_Path
  imports Cjson
begin

text \<open>
  \<^verbatim>\<open>lib/dotdot.c\<close> of the vendored libcurl: the dot segments of a URL's path are removed. The clone
  of the input is modified in place and read through a pointer, so \<open>clone\<close> is the memory from the
  pointer to the end of its block, terminators included; \<open>out\<close> is what lies before \<^verbatim>\<open>outptr\<close> in a
  block of \<open>cap\<close> bytes, and \<open>fin\<close> that a terminator was written at \<^verbatim>\<open>outptr\<close>.
\<close>

section \<open>The function\<close>

definition curl_strdup :: "string \<Rightarrow> sched \<Rightarrow> string option \<times> sched" where
  "curl_strdup str m = (case ddns_mem_alloc (length str + 1) m of (got, m) \<Rightarrow> (if got then Some str else None, m))"

text \<open>\<^verbatim>\<open>while(outptr > out)\<close>: back to the last slash, or to the start.\<close>

fun back_up :: "string \<Rightarrow> string" where
  "back_up [] = []"
| "back_up (c # tuo) = (if c = CHR ''/'' then tuo else back_up tuo)"

definition drop_segment :: "string \<Rightarrow> string" where
  "drop_segment out = rev (back_up (rev out))"

text \<open>Step E: at least one character is copied, whatever it is.\<close>

fun copy_segment :: "nat \<Rightarrow> string \<Rightarrow> string \<Rightarrow> fault + string \<times> string" where
  "copy_segment cap [] out = Inl Read_past_end"
| "copy_segment cap (c # clone) out =
    rbind (emit cap [c] out) (\<lambda>out.
      case clone of [] \<Rightarrow> Inl Read_past_end
      | d # _ \<Rightarrow> if d \<noteq> NUL \<and> d \<noteq> CHR ''/'' then copy_segment cap clone out else Inr (clone, out))"

text \<open>One turn: the moved pointer, the output and whether it is terminated.\<close>

definition dot_step :: "nat \<Rightarrow> string \<Rightarrow> string \<Rightarrow> bool \<Rightarrow> fault + string \<times> string \<times> bool" where
  "dot_step cap clone out fin =
    (if take 2 clone = ''./'' then Inr (drop 2 clone, out, fin)
     else if take 3 clone = ''../'' then Inr (drop 3 clone, out, fin)
     else if take 3 clone = ''/./'' then Inr (drop 2 clone, out, fin)
     else if take 3 clone = ''/.'' @ [NUL] then Inr (CHR ''/'' # drop 2 clone, out, fin)
     else if take 4 clone = ''/../'' then
       rbind (emit cap [NUL] (drop_segment out)) (\<lambda>_. Inr (drop 3 clone, drop_segment out, True))
     else if take 4 clone = ''/..'' @ [NUL] then
       rbind (emit cap [NUL] (drop_segment out)) (\<lambda>_. Inr (CHR ''/'' # drop 3 clone, drop_segment out, True))
     else if take 2 clone = ''.'' @ [NUL] \<or> take 3 clone = ''..'' @ [NUL] then
       (case out of
          [] \<Rightarrow> rbind (emit cap [NUL] []) (\<lambda>_. Inr (NUL # drop 1 clone, [], True))
        | _ # t \<Rightarrow> Inr (NUL # drop 1 clone, NUL # t, fin))
     else rbind (copy_segment cap clone out) (\<lambda>(clone, out).
       rbind (emit cap [NUL] out) (\<lambda>_. Inr (clone, out, True))))"

lemma copy_segment_shrinks: "copy_segment cap clone out = Inr (clone', out') \<Longrightarrow> length clone' < length clone"
proof (induction clone arbitrary: out)
  case (Cons c clone)
  then show ?case
    by (cases clone) (fastforce simp: rbind_eq_Inr split: if_splits)+
qed simp

lemma dot_step_shrinks:
  assumes "dot_step cap clone out fin = Inr (d # clone', out', fin')" "d \<noteq> NUL"
  shows "length (d # clone') < length clone"
proof -
  have long: "length clone \<ge> k" if "take k clone = w" "length w = k" for k w
    using that by (metis length_take min.cobounded2 min.commute)
  show ?thesis
    using assms unfolding dot_step_def
    by (auto simp: rbind_eq_Inr split: if_splits list.splits dest: copy_segment_shrinks dest!: long arg_cong [where f = length, of "drop _ _"])
qed

function dot_loop :: "nat \<Rightarrow> string \<Rightarrow> string \<Rightarrow> bool \<Rightarrow> fault + string \<times> bool" where
  "dot_loop cap clone out fin =
    rbind (dot_step cap clone out fin) (\<lambda>(clone, out, fin).
      case clone of [] \<Rightarrow> Inl Read_past_end
      | d # t \<Rightarrow> if d \<noteq> NUL then dot_loop cap (d # t) out fin else Inr (out, fin))"
  by pat_completeness auto
termination
  by (relation "measure (\<lambda>(_, clone, _, _). length clone)") (auto dest: dot_step_shrinks)

declare dot_loop.simps [simp del]

text \<open>
  \<open>None\<close> is NULL. A block that is returned without a terminator is no string: \<open>Uninit_read\<close>,
  as every use of it reads bytes that were never written.
\<close>

definition Curl_dedotdotify :: "string \<Rightarrow> sched \<Rightarrow> fault + string option" where
  "Curl_dedotdotify input m =
    (let inlen = length input; cap = inlen + 1;
         (got, m) = ddns_mem_alloc (inlen + 1) m
     in if \<not> got then Inr None
     else case curl_strdup input m of
       (None, _) \<Rightarrow> Inr None
     | (Some clone, _) \<Rightarrow>
         if clone = [] then Inr (Some clone)
         else let oindex = length (takeWhile (\<lambda>c. c \<noteq> CHR ''?'') clone);
                  queryp = (oindex < length clone);
                  clone = (if queryp then clone[oindex := NUL] else clone) @ [NUL]
         in rbind (dot_loop cap clone [] False) (\<lambda>(out, fin).
              if queryp then rbind (emit cap (drop oindex input @ [NUL]) out) (\<lambda>_. Inr (Some (c_str (out @ drop oindex input))))
              else if fin then Inr (Some (c_str out)) else Inl Uninit_read))"

end
