(* ===== verification/Curl_Path_Correct.thy ===== *)
theory Curl_Path_Correct
  imports Curl_Path
begin

text \<open>
  \<open>Curl_dedotdotify\<close> against a reading of RFC 3986, section 5.2.4, on lists of segments, for every
  absolute path; the memory safety of the function, and where it ends.
\<close>

section \<open>Paths as lists of segments\<close>

fun split_slash :: "string \<Rightarrow> string list" where
  "split_slash [] = [[]]"
| "split_slash (c # s) =
    (if c = CHR ''/'' then [] # split_slash s else (c # hd (split_slash s)) # tl (split_slash s))"

definition path_text :: "string list \<Rightarrow> string" where
  "path_text segs = concat (map (\<lambda>s. CHR ''/'' # s) segs)"

text \<open>The segments that are kept, behind those of \<open>st\<close>: a dot segment at the end leaves an empty one.\<close>

fun resolve :: "string list \<Rightarrow> string list \<Rightarrow> string list" where
  "resolve st [] = st"
| "resolve st [s] = (if s = ''.'' then st @ [[]] else if s = ''..'' then butlast st @ [[]] else st @ [s])"
| "resolve st (s # t # ss) =
    (if s = ''.'' then resolve st (t # ss) else if s = ''..'' then resolve (butlast st) (t # ss)
     else resolve (st @ [s]) (t # ss))"

lemma path_text_simps [simp]:
  "path_text [] = []" "path_text (s # ss) = CHR ''/'' # s @ path_text ss" "path_text (ss @ ts) = path_text ss @ path_text ts"
  by (simp_all add: path_text_def)

lemma split_slash_nonempty [simp]: "split_slash s \<noteq> []"
  by (cases s) simp_all

lemma path_text_split: "path_text (split_slash s) = CHR ''/'' # s"
proof (induction s)
  case (Cons c s)
  then show ?case by (cases "split_slash s") (use split_slash_nonempty [of s] in auto)
qed simp

lemma split_slash_chars: "t \<in> set (split_slash s) \<Longrightarrow> CHR ''/'' \<notin> set t \<and> set t \<subseteq> set s"
proof (induction s arbitrary: t)
  case (Cons c s)
  obtain u us where u: "split_slash s = u # us" by (cases "split_slash s") (use split_slash_nonempty [of s] in auto)
  then have "CHR ''/'' \<notin> set u \<and> set u \<subseteq> set s" "\<And>t. t \<in> set us \<Longrightarrow> CHR ''/'' \<notin> set t \<and> set t \<subseteq> set s"
    using Cons.IH by auto
  with Cons.prems u show ?case by (cases "c = CHR ''/''") fastforce+
qed simp

section \<open>The loop\<close>

definition plain_seg :: "string \<Rightarrow> bool" where
  "plain_seg s \<longleftrightarrow> CHR ''/'' \<notin> set s \<and> NUL \<notin> set s"

lemma copy_run:
  "plain_seg s \<Longrightarrow> c = NUL \<or> c = CHR ''/'' \<Longrightarrow> length out + Suc (length s) \<le> cap \<Longrightarrow>
    copy_segment cap (x # s @ c # r) out = Inr (c # r, out @ x # s)"
proof (induction s arbitrary: x out)
  case (Cons a s)
  have "copy_segment cap (a # s @ c # r) (out @ [x]) = Inr (c # r, (out @ [x]) @ a # s)"
    by (rule Cons.IH) (use Cons.prems in \<open>simp_all add: plain_seg_def\<close>)
  then show ?case
    using Cons.prems by (subst copy_segment.simps(2)) (auto simp add: plain_seg_def emit_fits simp del: copy_segment.simps)
qed (auto simp: emit_fits)

lemma back_up_rest: "CHR ''/'' \<notin> set s \<Longrightarrow> back_up (s @ CHR ''/'' # t) = t"
  by (induction s) auto

lemma drop_segment_text: "\<forall>s\<in>set st. plain_seg s \<Longrightarrow> drop_segment (path_text st) = path_text (butlast st)"
  by (cases st rule: rev_cases) (auto simp: drop_segment_def back_up_rest plain_seg_def)

text \<open>What the tests say of a path that starts with the segment \<open>s\<close>.\<close>

lemma dot_tests:
  assumes "plain_seg s" "c = NUL \<or> c = CHR ''/''"
  shows "take 3 (CHR ''/'' # s @ c # r) = ''/./'' \<longleftrightarrow> s = ''.'' \<and> c = CHR ''/''"
    "take 3 (CHR ''/'' # s @ c # r) = ''/.'' @ [NUL] \<longleftrightarrow> s = ''.'' \<and> c = NUL"
    "take 4 (CHR ''/'' # s @ c # r) = ''/../'' \<longleftrightarrow> s = ''..'' \<and> c = CHR ''/''"
    "take 4 (CHR ''/'' # s @ c # r) = ''/..'' @ [NUL] \<longleftrightarrow> s = ''..'' \<and> c = NUL"
  using assms
  by (cases s; cases "tl s"; cases "tl (tl s)"; auto simp: plain_seg_def)+

lemma dot_step_seg:
  assumes "plain_seg s" "c = NUL \<or> c = CHR ''/''" "\<forall>t\<in>set st. plain_seg t" "length (path_text st) + Suc (length s) < cap"
  shows "dot_step cap (CHR ''/'' # s @ c # r) (path_text st) fin =
    Inr (if s = ''.'' then (if c = NUL then CHR ''/'' # c # r else c # r, path_text st, fin)
         else if s = ''..'' then (if c = NUL then CHR ''/'' # c # r else c # r, path_text (butlast st), True)
         else (c # r, path_text (st @ [s]), True))"
proof -
  have b: "length (path_text (butlast st)) \<le> length (path_text st)"
    by (cases st rule: rev_cases) simp_all
  show ?thesis
    unfolding dot_step_def dot_tests [OF assms(1,2)] drop_segment_text [OF assms(3)]
    using assms(2,4) b copy_run [OF assms(1,2), of "path_text st" cap "CHR ''/''" r]
    by (auto simp: emit_fits)
qed

lemma dot_loop_run:
  assumes "segs \<noteq> []" "\<forall>s\<in>set segs. plain_seg s" "\<forall>s\<in>set st. plain_seg s" "length (path_text (st @ segs)) < cap"
  shows "dot_loop cap (path_text segs @ NUL # r) (path_text st) fin = Inr (path_text (resolve st segs), True)"
  using assms
proof (induction st segs arbitrary: fin rule: resolve.induct)
  case (1 st)
  then show ?case by simp
next
  case (2 st s)
  have slash: "dot_loop cap (CHR ''/'' # NUL # r) (path_text ts) f = Inr (path_text (ts @ [[]]), True)"
    if "\<forall>t\<in>set ts. plain_seg t" "length (path_text ts) \<le> length (path_text st)" for ts f
    using dot_step_seg [of "[]" NUL ts cap r f] that 2
    by (subst dot_loop.simps) (simp add: plain_seg_def)
  have b: "\<forall>t\<in>set (butlast st). plain_seg t" "length (path_text (butlast st)) \<le> length (path_text st)"
    using 2 by (auto dest: in_set_butlastD) (cases st rule: rev_cases; simp)
  show ?case
    using dot_step_seg [of s NUL st cap r fin] 2 slash [of st] slash [OF b]
    by (subst dot_loop.simps) simp
next
  case (3 st s t ss)
  have b: "\<forall>t\<in>set (butlast st). plain_seg t" "length (path_text (butlast st)) \<le> length (path_text st)"
    using 3 by (auto dest: in_set_butlastD) (cases st rule: rev_cases; simp)
  show ?case
    using dot_step_seg [of s "CHR ''/''" st cap "t @ path_text ss @ NUL # r" fin] 3 b
    by (subst dot_loop.simps) simp
qed

section \<open>Every path\<close>

lemma resolve_length: "length (path_text (resolve st segs)) \<le> length (path_text (st @ segs))"
proof (induction st segs rule: resolve.induct)
  case (2 st s)
  then show ?case by (cases st rule: rev_cases) auto
next
  case (3 st s t ss)
  then show ?case by (cases st rule: rev_cases) (auto split: if_splits)
qed simp

lemma resolve_no_dots:
  "segs \<noteq> [] \<or> st \<noteq> [] \<Longrightarrow> \<forall>s\<in>set st. s \<noteq> ''.'' \<and> s \<noteq> ''..'' \<Longrightarrow> s \<in> set (resolve st segs) \<Longrightarrow> s \<noteq> ''.'' \<and> s \<noteq> ''..''"
  by (induction st segs rule: resolve.induct) (auto split: if_splits dest: in_set_butlastD)

lemma resolve_id: "\<forall>s\<in>set segs. s \<noteq> ''.'' \<and> s \<noteq> ''..'' \<Longrightarrow> resolve st segs = st @ segs"
  by (induction st segs rule: resolve.induct) auto

lemma resolve_nonempty: "segs \<noteq> [] \<Longrightarrow> resolve st segs \<noteq> []"
  by (induction st segs rule: resolve.induct) auto

lemma resolve_chars: "s \<in> set (resolve st segs) \<Longrightarrow> s \<in> set st \<or> s \<in> set segs \<or> s = []"
  by (induction st segs rule: resolve.induct) (auto split: if_splits dest: in_set_butlastD)

lemma dedot_unfold:
  assumes "ddns_mem_alloc (length input + 1) m = (True, m1)" "curl_strdup input m1 = (Some input, m2)" "input \<noteq> []"
    and "length (takeWhile (\<lambda>c. c \<noteq> CHR ''?'') input) = i"
  shows "Curl_dedotdotify input m =
    rbind (dot_loop (length input + 1) ((if i < length input then input[i := NUL] else input) @ [NUL]) [] False) (\<lambda>(out, fin).
      if i < length input then rbind (emit (length input + 1) (drop i input @ [NUL]) out) (\<lambda>_. Inr (Some (c_str (out @ drop i input))))
      else if fin then Inr (Some (c_str out)) else Inl Uninit_read)"
  unfolding Curl_dedotdotify_def Let_def using assms(1-3) by (simp add: assms(4))

lemma dedot_segments:
  assumes "segs \<noteq> []" "\<forall>s\<in>set segs. plain_seg s \<and> CHR ''?'' \<notin> set s" "q = [] \<or> hd q = CHR ''?''" "NUL \<notin> set q"
  shows "Curl_dedotdotify (path_text segs @ q) [] = Inr (Some (path_text (resolve [] segs) @ q))"
proof -
  let ?p = "path_text segs" and ?o = "path_text (resolve [] segs)"
  let ?in = "?p @ q" and ?cap = "length (?p @ q) + 1"
  have pq: "CHR ''?'' \<notin> set ?p" "NUL \<notin> set ?p" using assms(2) by (auto simp: path_text_def plain_seg_def)
  have idx: "length (takeWhile (\<lambda>c. c \<noteq> CHR ''?'') ?in) = length ?p"
  proof -
    have "takeWhile (\<lambda>c. c \<noteq> CHR ''?'') ?p = ?p" using pq(1) by (subst takeWhile_eq_all_conv) auto
    moreover have "\<forall>c\<in>set ?p. c \<noteq> CHR ''?''" using pq(1) by auto
    ultimately show ?thesis using assms(3) by (cases q) (simp_all add: takeWhile_append2 del: takeWhile_eq_all_conv)
  qed
  have ne: "?p \<noteq> []" using assms(1) by (cases segs) auto
  have clone: "(if length ?p < length ?in then ?in[length ?p := NUL] else ?in) @ [NUL] = ?p @ NUL # (if q = [] then [] else tl q @ [NUL])"
    by (cases q) (simp_all add: list_update_append)
  have run: "dot_loop ?cap (?p @ NUL # r) [] False = Inr (?o, True)" for r
    using dot_loop_run [OF assms(1), of "[]" ?cap r False] assms(2) by simp
  have len: "length ?o \<le> length ?p" using resolve_length [of "[]" segs] by simp
  have o: "NUL \<notin> set ?o"
  proof
    assume "NUL \<in> set ?o"
    then obtain s where s: "s \<in> set (resolve [] segs)" "NUL \<in> set s" by (auto simp: path_text_def split: if_splits)
    with resolve_chars [OF s(1)] assms(2) show False by (auto simp: plain_seg_def)
  qed
  have un: "Curl_dedotdotify ?in [] =
      rbind (dot_loop ?cap (?p @ NUL # (if q = [] then [] else tl q @ [NUL])) [] False) (\<lambda>(out, fin).
        if length ?p < length ?in then rbind (emit ?cap (drop (length ?p) ?in @ [NUL]) out) (\<lambda>_. Inr (Some (c_str (out @ drop (length ?p) ?in))))
        else if fin then Inr (Some (c_str out)) else Inl Uninit_read)"
    using dedot_unfold [OF _ _ _ idx, of "[]" "[]" "[]"] ne unfolding clone by (simp add: ddns_mem_alloc_def curl_strdup_def)
  show ?thesis
  proof (cases "q = []")
    case False
    then have "emit ?cap (q @ [NUL]) ?o = Inr (?o @ q @ [NUL])" using len by (intro emit_fits) simp
    moreover have "c_str (?o @ q) = ?o @ q" using o assms(4) by (intro c_str_id) simp
    ultimately show ?thesis unfolding un run using False by simp
  qed (use un run o in \<open>simp add: c_str_id\<close>)
qed

section \<open>Any input\<close>

text \<open>\<open>c_str clone\<close> is what is left to read; what is written and what is left fit the block.\<close>

definition dot_inv :: "nat \<Rightarrow> string \<Rightarrow> string \<Rightarrow> bool" where
  "dot_inv cap clone out \<longleftrightarrow> NUL \<in> set clone \<and> length out + length (c_str clone) < cap"

lemma c_str_Cons [simp]: "c_str (c # s) = (if c = NUL then [] else c # c_str s)"
  by (simp add: c_str_def)

lemma copy_segment_safe:
  "c \<noteq> NUL \<Longrightarrow> NUL \<in> set clone \<Longrightarrow> length out + length (c_str (c # clone)) < cap \<Longrightarrow> cap \<le> cap' \<Longrightarrow>
    \<exists>clone' out'. copy_segment cap' (c # clone) out = Inr (clone', out') \<and> dot_inv cap clone' out'"
proof (induction clone arbitrary: c out)
  case (Cons d clone)
  show ?case
  proof (cases "d \<noteq> NUL \<and> d \<noteq> CHR ''/''")
    case True
    have "\<exists>clone' out'. copy_segment cap' (d # clone) (out @ [c]) = Inr (clone', out') \<and> dot_inv cap clone' out'"
      by (rule Cons.IH) (use Cons.prems True in auto)
    then show ?thesis
      using Cons.prems True by (subst copy_segment.simps(2)) (simp add: emit_fits del: copy_segment.simps)
  qed (use Cons.prems in \<open>auto simp: emit_fits dot_inv_def\<close>)
qed simp

lemma length_drop_segment: "length (drop_segment out) \<le> length out"
proof -
  have "length (back_up s) \<le> length s" for s by (induction s) auto
  then show ?thesis unfolding drop_segment_def by (metis length_rev)
qed

lemma dot_step_safe:
  assumes "dot_inv cap clone out" "c_at clone \<noteq> NUL" "cap \<le> cap'"
  shows "\<exists>clone' out' fin'. dot_step cap' clone out fin = Inr (clone', out', fin') \<and> dot_inv cap clone' out'"
proof -
  obtain c t where clone: "clone = c # t" "c \<noteq> NUL" using assms(2) by (cases clone) auto
  have fit: "length out + length (c_str clone) < cap" "NUL \<in> set t" using assms(1) clone by (auto simp: dot_inv_def)
  have pre: "\<exists>r. clone = w @ r" if "take k clone = w" for k w using that by (metis append_take_drop_id)
  note d = length_drop_segment [of out]
  consider w where "w \<in> {''./'', ''../'', ''/./'', ''/.'' @ [NUL], ''/../'', ''/..'' @ [NUL], ''.'' @ [NUL], ''..'' @ [NUL]}" "take (length w) clone = w"
    | "\<forall>w\<in>{''./'', ''../'', ''/./'', ''/.'' @ [NUL], ''/../'', ''/..'' @ [NUL], ''.'' @ [NUL], ''..'' @ [NUL]}. take (length w) clone \<noteq> w"
    by blast
  then show ?thesis
  proof cases
    case 1
    then obtain r where r: "clone = w @ r" using pre by blast
    from 1(1) show ?thesis
      by (elim insertE emptyE; use r fit d assms(1,3) in \<open>auto simp: dot_step_def dot_inv_def emit_fits split: list.splits\<close>)
  next
    case 2
    then have "dot_step cap' clone out fin = rbind (copy_segment cap' clone out) (\<lambda>(clone, out). rbind (emit cap' [NUL] out) (\<lambda>_. Inr (clone, out, True)))"
      unfolding dot_step_def by (simp add: numeral_eq_Suc)
    with copy_segment_safe [OF clone(2) fit(2) _ assms(3), of out] fit(1) clone assms(3) show ?thesis
      by (auto simp: dot_inv_def emit_fits)
  qed
qed

lemma dot_loop_safe:
  "dot_inv n clone out \<Longrightarrow> c_at clone \<noteq> NUL \<Longrightarrow> n \<le> cap \<Longrightarrow>
    \<exists>out' fin'. dot_loop cap clone out fin = Inr (out', fin') \<and> length out' < n"
proof (induction cap clone out fin rule: dot_loop.induct)
  case (1 cap clone out fin)
  obtain clone' out' fin' where step: "dot_step cap clone out fin = Inr (clone', out', fin')" "dot_inv n clone' out'"
    using dot_step_safe [OF 1(2-4)] by blast
  obtain d t where c: "clone' = d # t" using step(2) by (cases clone') (auto simp: dot_inv_def)
  show ?case
  proof (cases "d = NUL")
    case True
    then show ?thesis using step c by (subst dot_loop.simps) (simp add: dot_inv_def)
  next
    case False
    have "\<exists>out'' fin''. dot_loop cap (d # t) out' fin' = Inr (out'', fin'') \<and> length out'' < n"
      by (rule "1.IH" [OF step(1) _ _ c False]) (use step(2) c False 1(4) in simp_all)
    then show ?thesis using step(1) c False by (subst dot_loop.simps) simp
  qed
qed

lemma dedot_safe:
  assumes "NUL \<notin> set input" "c_at input \<noteq> CHR ''?''"
  shows "Curl_dedotdotify input m \<in> range Inr \<union> {Inl Uninit_read}"
proof (cases "fst (ddns_mem_alloc (length input + 1) m) \<and> fst (curl_strdup input (snd (ddns_mem_alloc (length input + 1) m))) \<noteq> None \<and> input \<noteq> []")
  case True
  obtain m1 where m1: "ddns_mem_alloc (length input + 1) m = (True, m1)" using True by (cases "ddns_mem_alloc (length input + 1) m") auto
  obtain m2 where m2: "curl_strdup input m1 = (Some input, m2)"
    using True m1 by (cases "curl_strdup input m1") (auto simp: curl_strdup_def split: prod.splits if_splits)
  let ?i = "length (takeWhile (\<lambda>c. c \<noteq> CHR ''?'') input)" and ?cap = "length input + 1"
  let ?clone = "(if ?i < length input then input[?i := NUL] else input) @ [NUL]"
  have le: "?i \<le> length input" by (rule length_takeWhile_le)
  have c: "c_str ?clone = takeWhile (\<lambda>c. c \<noteq> CHR ''?'') input"
  proof -
    have t: "take ?i input = takeWhile (\<lambda>c. c \<noteq> CHR ''?'') input" by (simp add: takeWhile_eq_take [symmetric])
    have "NUL \<notin> set (takeWhile (\<lambda>c. c \<noteq> CHR ''?'') input)" using assms(1) by (auto dest: set_takeWhileD)
    moreover have "?clone = takeWhile (\<lambda>c. c \<noteq> CHR ''?'') input @ NUL # (if ?i < length input then drop (Suc ?i) input @ [NUL] else [])"
      using le t by (auto simp: upd_conv_take_nth_drop)
    ultimately show ?thesis by (auto simp: c_str_def takeWhile_append takeWhile_eq_all_conv)
  qed
  have "NUL \<in> set ?clone" by simp
  then have "dot_inv (?i + 1) ?clone []" by (simp add: dot_inv_def c)
  moreover have "c_at ?clone \<noteq> NUL" using True assms by (cases input) (auto simp: c_str_def)
  moreover have "?i + 1 \<le> ?cap" using le by simp
  ultimately obtain out fin where out: "dot_loop ?cap ?clone [] False = Inr (out, fin)" "length out < ?i + 1"
    using dot_loop_safe by blast
  then have "emit ?cap (drop ?i input @ [NUL]) out = Inr (out @ drop ?i input @ [NUL])"
    by (intro emit_fits) (use le in simp)
  then show ?thesis
    unfolding dedot_unfold [OF m1 m2 conjunct2 [OF conjunct2 [OF True]] refl] out(1) by (cases fin) simp_all
qed (auto simp: Curl_dedotdotify_def Let_def curl_strdup_def split: prod.splits if_splits option.splits)

section \<open>The contract\<close>

lemma dedot_alloc: "Curl_dedotdotify input m = Inr None \<or> Curl_dedotdotify input m = Curl_dedotdotify input []"
proof -
  obtain ok1 m1 where a: "ddns_mem_alloc (length input + 1) m = (ok1, m1)" by fastforce
  obtain r m2 where b: "curl_strdup input m1 = (r, m2)" by fastforce
  have r: "r = None \<or> r = Some input" using b by (auto simp: curl_strdup_def split: prod.splits if_splits)
  show ?thesis
    using r unfolding Curl_dedotdotify_def Let_def a prod.case b
    by (cases ok1; elim disjE; simp add: ddns_mem_alloc_def curl_strdup_def)
qed

definition kept_segments :: "string \<Rightarrow> string list" where
  "kept_segments path = resolve [] (split_slash (drop 1 path))"

lemma dedot_absolute:
  assumes "NUL \<notin> set path" "CHR ''?'' \<notin> set path" "c_at path = CHR ''/''" "q = [] \<or> hd q = CHR ''?''" "NUL \<notin> set q"
  shows "Curl_dedotdotify (path @ q) [] = Inr (Some (path_text (kept_segments path) @ q))"
proof -
  obtain s where s: "path = CHR ''/'' # s" using assms(3) by (cases path) auto
  have segs: "\<forall>t\<in>set (split_slash s). plain_seg t \<and> CHR ''?'' \<notin> set t"
    using split_slash_chars [of _ s] assms(1,2) s by (fastforce simp: plain_seg_def)
  show ?thesis
    using dedot_segments [OF split_slash_nonempty segs assms(4,5)] by (simp add: path_text_split s kept_segments_def)
qed

lemma split_path_text:
  "ss \<noteq> [] \<Longrightarrow> \<forall>s\<in>set ss. CHR ''/'' \<notin> set s \<Longrightarrow> split_slash (drop 1 (path_text ss)) = ss"
proof (induction ss)
  case (Cons s ss)
  have "CHR ''/'' \<notin> set s \<Longrightarrow> split_slash (s @ CHR ''/'' # t) = s # split_slash t" for t by (induction s) auto
  moreover have "CHR ''/'' \<notin> set s \<Longrightarrow> split_slash s = [s]" by (induction s) auto
  ultimately show ?case using Cons by (cases ss) auto
qed simp

text \<open>
  C38: For every absolute path, with or without a query, \<open>Curl_dedotdotify\<close> returns the path RFC 3986
  asks for, or null when memory fails: the segments are kept in order except dots, two dots take
  the segment before them away, a dot segment at the end leaves a slash, the query is not touched.
  The result has no dot segment, is not longer than the input and is left as it is by a second
  call. For any input that does not start with a question mark no access leaves its block; the one
  other defect is a result without a terminator.
\<close>

theorem dedotdotify_rfc3986:
  assumes "NUL \<notin> set input" "c_at input = CHR ''/''"
    and "path = takeWhile (\<lambda>c. c \<noteq> CHR ''?'') input" "query = dropWhile (\<lambda>c. c \<noteq> CHR ''?'') input"
    and "t = path_text (kept_segments path) @ query"
  shows "Curl_dedotdotify input [] = Inr (Some t) \<and> Curl_dedotdotify input m \<in> {Inr None, Inr (Some t)}
    \<and> set (kept_segments path) \<inter> {''.'', ''..''} = {} \<and> length t \<le> length input \<and> Curl_dedotdotify t [] = Inr (Some t)
    \<and> (\<forall>input' m'. NUL \<notin> set input' \<longrightarrow> c_at input' \<noteq> CHR ''?'' \<longrightarrow> Curl_dedotdotify input' m' \<in> range Inr \<union> {Inl Uninit_read})"
proof (intro conjI allI impI)
  have input: "input = path @ query" by (simp add: assms(3,4))
  have p: "NUL \<notin> set path" "CHR ''?'' \<notin> set path" "c_at path = CHR ''/''" "NUL \<notin> set query" "query = [] \<or> hd query = CHR ''?''"
    using assms(1,2) hd_dropWhile [of "\<lambda>c. c \<noteq> CHR ''?''" input]
    by (auto simp: assms(3,4) dest: set_takeWhileD set_dropWhileD) (cases input; simp)
  obtain s where s: "path = CHR ''/'' # s" using p(3) by (cases path) auto
  let ?k = "kept_segments path"
  show run: "Curl_dedotdotify input [] = Inr (Some t)"
    unfolding input assms(5) by (rule dedot_absolute [OF p(1,2,3,5,4)])
  then show "Curl_dedotdotify input m \<in> {Inr None, Inr (Some t)}" using dedot_alloc [of input m] by auto
  have chars: "set u \<subseteq> set s \<and> CHR ''/'' \<notin> set u" if "u \<in> set ?k" for u
    using resolve_chars [of u "[]" "split_slash s"] split_slash_chars [of u s] that by (auto simp: kept_segments_def s)
  have "?k \<noteq> []" using resolve_nonempty [of "split_slash s" "[]"] by (simp add: kept_segments_def s)
  moreover have "\<forall>s\<in>set ?k. s \<noteq> ''.'' \<and> s \<noteq> ''..''"
    using resolve_no_dots [of "split_slash s" "[]"] by (auto simp: kept_segments_def s)
  moreover have "\<forall>t\<in>set ?k. set t \<subseteq> set path \<and> CHR ''/'' \<notin> set t" using chars s by fastforce
  ultimately have k: "?k \<noteq> []" "\<forall>s\<in>set ?k. s \<noteq> ''.'' \<and> s \<noteq> ''..''" "\<forall>t\<in>set ?k. set t \<subseteq> set path \<and> CHR ''/'' \<notin> set t"
    by blast+
  then show "set ?k \<inter> {''.'', ''..''} = {}" by auto
  show "length t \<le> length input"
    using resolve_length [of "[]" "split_slash s"] by (simp add: assms(5) input kept_segments_def s path_text_split)
  have "set (path_text ?k) \<subseteq> set path" using k(3) s by (auto simp: path_text_def)
  moreover have "c_at (path_text ?k) = CHR ''/''" using k(1) by (cases ?k) simp_all
  moreover have "kept_segments (path_text ?k) = ?k"
    using resolve_id [of ?k "[]"] split_path_text [OF k(1)] k(2,3) by (simp add: kept_segments_def)
  ultimately show "Curl_dedotdotify t [] = Inr (Some t)"
    using dedot_absolute [of "path_text ?k" query] p unfolding assms(5) by auto
next
  fix input' m'
  assume "NUL \<notin> set input'" "c_at input' \<noteq> CHR ''?''"
  then show "Curl_dedotdotify input' m' \<in> range Inr \<union> {Inl Uninit_read}" by (rule dedot_safe)
qed

theorem dedotdotify_rfc3986_witness:
  "Curl_dedotdotify ''/a/b/../c/./d?x=..'' [] = Inr (Some ''/a/c/d?x=..'')"
  using dedotdotify_rfc3986 [of "''/a/b/../c/./d?x=..''" _ _ _ "[]", OF _ _ refl refl refl]
  by (simp add: kept_segments_def)

text \<open>
  What the caller's slash avoids: with a question mark in front step E copies the terminator that
  was put in its place and runs on into the query, which is then appended once more, behind the
  block; a path of dots alone is returned without a terminator.
\<close>

lemma dedot_leading_query:
  "Curl_dedotdotify ''?foo'' [] = Inl Write_past_end" "Curl_dedotdotify ''./'' [] = Inl Uninit_read"
  by code_simp+

end
