(* ===== verification/Curl_Hostcheck.thy ===== *)
theory Curl_Hostcheck
  imports Curl_Text_Correct Curl_Inet_Roundtrip Curl_Path
begin

text \<open>
  \<^verbatim>\<open>lib/hostcheck.c\<close> of the vendored libcurl: does the name in a server's certificate, possibly with a
  wildcard, stand for the host the client wants to talk to? The request of every update passes
  this test. Pointers into a string are positions; \<open>Curl_inet_pton\<close> is libcurl's own.
\<close>

section \<open>The functions\<close>

definition strchr :: "string \<Rightarrow> char \<Rightarrow> nat option" where
  "strchr s c = (if c \<in> set s then Some (length (takeWhile (\<lambda>d. d \<noteq> c) s)) else None)"

definition strip_dot :: "string \<Rightarrow> fault + string" where
  "strip_dot s = (if s = [] then Inl Read_past_end else Inr (if last s = CHR ''.'' then butlast s else s))"

definition hostmatch :: "string \<Rightarrow> string \<Rightarrow> fault + bool" where
  "hostmatch hostname pattern =
    rbind (strip_dot hostname) (\<lambda>hostname.
    rbind (strip_dot pattern) (\<lambda>pattern.
    case strchr pattern CHR ''*'' of
      None \<Rightarrow> Inr (Curl_strcasecompare pattern hostname)
    | Some pattern_wildcard \<Rightarrow>
        rbind (Curl_inet_pton AF_INET_4 hostname) (\<lambda>(r, _).
        if r > 0 then Inr False
        else rbind (Curl_inet_pton AF_INET_6 hostname) (\<lambda>(r, _).
        if r > 0 then Inr False
        else
          let pattern_label_end = strchr pattern CHR ''.'';
              wildcard_enabled = (case pattern_label_end of None \<Rightarrow> False
                | Some e \<Rightarrow> \<not> (strchr (drop (e + 1) pattern) CHR ''.'' = None \<or> pattern_wildcard > e
                    \<or> Curl_strncasecompare pattern ''xn--'' 4))
          in if \<not> wildcard_enabled then Inr (Curl_strcasecompare pattern hostname)
          else case (pattern_label_end, strchr hostname CHR ''.'') of
            (Some e, Some hostname_label_end) \<Rightarrow>
              if \<not> Curl_strcasecompare (drop e pattern) (drop hostname_label_end hostname) then Inr False
              else if hostname_label_end < e then Inr False
              else let prefixlen = pattern_wildcard; suffixlen = e - (pattern_wildcard + 1)
                in Inr (Curl_strncasecompare pattern hostname prefixlen \<and>
                     Curl_strncasecompare (drop (pattern_wildcard + 1) pattern) (drop (hostname_label_end - suffixlen) hostname) suffixlen)
          | _ \<Rightarrow> Inr False))))"

definition Curl_cert_hostcheck :: "string option \<Rightarrow> string option \<Rightarrow> sched \<Rightarrow> fault + int" where
  "Curl_cert_hostcheck match_pattern hostname m =
    (case (match_pattern, hostname) of
       (Some p, Some h) \<Rightarrow>
         if p = [] \<or> h = [] then Inr 0
         else (case curl_strdup p m of
           (None, _) \<Rightarrow> Inr 0
         | (Some matchp, m) \<Rightarrow> (case curl_strdup h m of
             (None, _) \<Rightarrow> Inr 0
           | (Some hostp, _) \<Rightarrow> rbind (hostmatch hostp matchp) (\<lambda>match. Inr (if match then 1 else 0))))
     | _ \<Rightarrow> Inr 0)"

section \<open>RFC 6125\<close>

definition undot :: "string \<Rightarrow> string" where
  "undot s = (if s \<noteq> [] \<and> last s = CHR ''.'' then butlast s else s)"

definition is_ip :: "string \<Rightarrow> bool" where
  "is_ip h \<longleftrightarrow> (\<exists>dst. Curl_inet_pton AF_INET_4 h = Inr (1, dst) \<or> Curl_inet_pton AF_INET_6 h = Inr (1, dst))"

text \<open>
  The wildcard stands for at least one character inside the first label; two more labels must
  follow, and they are compared as a whole.
\<close>

definition wildcard_match :: "string \<Rightarrow> string \<Rightarrow> bool" where
  "wildcard_match p h \<longleftrightarrow> (\<exists>pre suf rest pre' mid suf' rest'.
     p = pre @ ''*'' @ suf @ ''.'' @ rest \<and> h = pre' @ mid @ suf' @ ''.'' @ rest' \<and> mid \<noteq> [] \<and>
     upper pre' = upper pre \<and> upper suf' = upper suf \<and> upper rest' = upper rest \<and>
     CHR ''*'' \<notin> set pre \<and> CHR ''.'' \<notin> set (pre @ suf @ pre' @ mid @ suf') \<and> CHR ''.'' \<in> set rest \<and>
     upper (take 4 p) \<noteq> ''XN--'')"

definition host_matches :: "string \<Rightarrow> string \<Rightarrow> bool" where
  "host_matches p h \<longleftrightarrow> \<not> (CHR ''*'' \<in> set p \<and> is_ip h) \<and> (upper p = upper h \<or> wildcard_match p h)"

section \<open>Positions\<close>

lemma takeWhile_before: "c \<notin> set u \<Longrightarrow> takeWhile (\<lambda>d. d \<noteq> c) (u @ c # v) = u"
  by (induction u) auto

lemma strchr_append: "c \<notin> set u \<Longrightarrow> strchr (u @ c # v) c = Some (length u)"
  by (simp add: strchr_def takeWhile_before)

lemma strchr_SomeD: "strchr s c = Some n \<Longrightarrow> \<exists>u v. s = u @ c # v \<and> c \<notin> set u \<and> n = length u"
  using split_list_first [of c s] by (auto simp: strchr_def takeWhile_before split: if_splits)

lemma strchr_None: "strchr s c = None \<longleftrightarrow> c \<notin> set s"
  by (simp add: strchr_def)

lemma sep_unique: "c \<notin> set u \<Longrightarrow> c \<notin> set u' \<Longrightarrow> u @ c # v = u' @ c # v' \<longleftrightarrow> u = u' \<and> v = v'"
proof (induction u arbitrary: u')
  case Nil
  then show ?case by (cases u') auto
next
  case (Cons d u)
  then show ?case by (cases u') auto
qed

lemma toupper_sep:
  "Curl_raw_toupper c = CHR ''.'' \<longleftrightarrow> c = CHR ''.''" "Curl_raw_toupper c = CHR ''*'' \<longleftrightarrow> c = CHR ''*''"
proof -
  have big: "d \<noteq> CHR ''.'' \<and> d \<noteq> CHR ''*''" if "65 \<le> ord d" for d :: char
    using that by auto
  have "65 \<le> ord (Curl_raw_toupper c) \<and> 65 \<le> ord c" if "97 \<le> ord c \<and> ord c \<le> 122"
  proof -
    have "ord (char_of (65 + ord c - 97) :: char) = 65 + ord c - 97"
      by (simp only: of_char_of, rule mod_less) (use that in linarith)
    with that show ?thesis unfolding Curl_raw_toupper_def if_P [OF that] by linarith
  qed
  moreover have "Curl_raw_toupper c = c" if "\<not> (97 \<le> ord c \<and> ord c \<le> 122)"
    unfolding Curl_raw_toupper_def by (rule if_not_P [OF that])
  ultimately show "Curl_raw_toupper c = CHR ''.'' \<longleftrightarrow> c = CHR ''.''" "Curl_raw_toupper c = CHR ''*'' \<longleftrightarrow> c = CHR ''*''"
    using big by (cases "97 \<le> ord c \<and> ord c \<le> 122"; simp only: simp_thms)+
qed

lemma in_map_fixed: "(\<And>c. f c = d \<longleftrightarrow> c = d) \<Longrightarrow> d \<in> set (map f s) \<longleftrightarrow> d \<in> set s"
  by (induction s) (simp_all add: eq_commute [of d])

lemma upper_sep: "CHR ''.'' \<in> set (upper s) \<longleftrightarrow> CHR ''.'' \<in> set s" "CHR ''*'' \<in> set (upper s) \<longleftrightarrow> CHR ''*'' \<in> set s"
  by (rule in_map_fixed, rule toupper_sep)+

text \<open>Two names equal up to case have their separators at the same places.\<close>

lemma map_split: "map f h = xs @ y # ys \<Longrightarrow> \<exists>u d v. h = u @ d # v \<and> map f u = xs \<and> f d = y \<and> map f v = ys"
  by (auto simp: map_eq_append_conv map_eq_Cons_conv)

lemma upper_split:
  assumes "upper (u @ c # v) = upper h" "c \<in> {CHR ''.'', CHR ''*''}" "c \<notin> set u"
  shows "\<exists>u' v'. h = u' @ c # v' \<and> upper u' = upper u \<and> upper v' = upper v \<and> c \<notin> set u'"
proof -
  have c: "Curl_raw_toupper d = c \<longleftrightarrow> d = c" for d using assms(2) toupper_sep [of d] by (elim insertE emptyE) simp_all
  have "upper h = upper u @ Curl_raw_toupper c # upper v" using assms(1) by (simp only: map_append list.map)
  from map_split [OF this] obtain u' d v' where
    h: "h = u' @ d # v'" "upper u' = upper u" "Curl_raw_toupper d = Curl_raw_toupper c" "upper v' = upper v" by blast
  have "Curl_raw_toupper c = c" using c by blast
  then have "d = c" using h(3) c by metis
  moreover have "c \<notin> set u'"
    using assms(3) in_map_fixed [OF c, of u] in_map_fixed [OF c, of u'] unfolding h(2) by blast
  ultimately show ?thesis using h by blast
qed

section \<open>The test\<close>

lemma strip_dot_run: "s \<noteq> [] \<Longrightarrow> strip_dot s = Inr (undot s)"
  by (simp add: strip_dot_def undot_def)

lemma undot_no_NUL: "NUL \<notin> set s \<Longrightarrow> NUL \<notin> set (undot s)"
  by (auto simp: undot_def dest: in_set_butlastD)

lemma pton_result:
  "\<exists>r d. Curl_inet_pton AF_INET_4 h = Inr (r, d) \<and> (r = 0 \<or> r = 1)"
  "\<exists>r d. Curl_inet_pton AF_INET_6 h = Inr (r, d) \<and> (r = 0 \<or> r = 1)"
proof -
  obtain r4 r6 where "curl_inet_pton4 h = Inr r4" "curl_inet_pton6 h = Inr r6"
    using pton4_safe [of "replicate 4 0" 0 0 False h] pton6_safe [of h] unfolding curl_inet_pton4_def by auto
  then show "\<exists>r d. Curl_inet_pton AF_INET_4 h = Inr (r, d) \<and> (r = 0 \<or> r = 1)"
    "\<exists>r d. Curl_inet_pton AF_INET_6 h = Inr (r, d) \<and> (r = 0 \<or> r = 1)"
    by (cases r4; cases r6; simp add: Curl_inet_pton_def Let_def)+
qed

lemma wildcard_matchD:
  assumes "wildcard_match p h"
  shows "CHR ''*'' \<in> set p" "CHR ''.'' \<in> set p" "CHR ''.'' \<in> set h"
  using assms unfolding wildcard_match_def by auto

lemma cut3:
  assumes "a + 1 + c \<le> length xs"
  obtains us vs ws where "xs = us @ vs @ ws" "length us = a" "length ws = c" "vs \<noteq> []"
proof
  let ?n = "length xs - c - a"
  show "xs = take a xs @ take ?n (drop a xs) @ drop ?n (drop a xs)" by (simp only: append_take_drop_id)
qed (use assms in simp_all)

text \<open>The comparisons behind the guards, for a pattern cut at its wildcard and its first dot.\<close>

lemma wildcard_result:
  assumes p: "p = pre @ CHR ''*'' # suf @ CHR ''.'' # rest" "CHR ''*'' \<notin> set pre" "CHR ''.'' \<notin> set (pre @ suf)"
    and h: "h = lab @ CHR ''.'' # hrest" "CHR ''.'' \<notin> set lab"
    and guards: "CHR ''.'' \<in> set rest" "upper (take 4 p) \<noteq> ''XN--''"
  shows "upper rest = upper hrest \<and> length pre + 1 + length suf \<le> length lab \<and> upper pre = take (length pre) (upper h)
      \<and> upper suf = take (length suf) (upper (drop (length lab - length suf) h)) \<longleftrightarrow> wildcard_match p h"
proof
  assume a: "upper rest = upper hrest \<and> length pre + 1 + length suf \<le> length lab \<and> upper pre = take (length pre) (upper h)
      \<and> upper suf = take (length suf) (upper (drop (length lab - length suf) h))"
  then have len: "length pre + 1 + length suf \<le> length lab" by blast
  obtain pre' mid suf' where lab: "lab = pre' @ mid @ suf'" "length pre' = length pre" "length suf' = length suf" "mid \<noteq> []"
    using cut3 [OF len] by blast
  have "take (length pre) (upper h) = upper pre'" using lab(2) by (simp add: h(1) lab(1))
  moreover have "take (length suf) (upper (drop (length lab - length suf) h)) = upper suf'" using lab(3) by (simp add: h(1) lab(1))
  ultimately have "upper pre' = upper pre" "upper suf' = upper suf" "upper hrest = upper rest" using a by simp_all
  moreover have "p = pre @ ''*'' @ suf @ ''.'' @ rest" "h = pre' @ mid @ suf' @ ''.'' @ hrest" using p(1) h(1) lab(1) by simp_all
  moreover have "CHR ''.'' \<notin> set (pre @ suf @ pre' @ mid @ suf')" using p(3) h(2) lab(1) by simp
  ultimately show "wildcard_match p h" unfolding wildcard_match_def using p(2) guards lab(4) by blast
next
  assume "wildcard_match p h"
  then obtain pre1 suf1 rest1 pre' mid suf' rest' where w:
    "p = pre1 @ ''*'' @ suf1 @ ''.'' @ rest1" "h = pre' @ mid @ suf' @ ''.'' @ rest'" "mid \<noteq> []"
    "upper pre' = upper pre1" "upper suf' = upper suf1" "upper rest' = upper rest1"
    "CHR ''*'' \<notin> set pre1" "CHR ''.'' \<notin> set (pre1 @ suf1 @ pre' @ mid @ suf')"
    unfolding wildcard_match_def by blast
  have "pre @ CHR ''*'' # suf @ CHR ''.'' # rest = pre1 @ CHR ''*'' # suf1 @ CHR ''.'' # rest1"
    using p(1) w(1) by simp
  then have "pre = pre1" "suf @ CHR ''.'' # rest = suf1 @ CHR ''.'' # rest1"
    unfolding sep_unique [OF p(2) w(7)] by blast+
  moreover from this(2) have "suf = suf1" "rest = rest1"
    using sep_unique [of "CHR ''.''" suf suf1 rest rest1] p(3) w(8) by simp_all
  moreover have "lab = pre' @ mid @ suf'" "hrest = rest'"
    using h(1) w(2) sep_unique [of "CHR ''.''" lab "pre' @ mid @ suf'" hrest rest'] h(2) w(8) by simp_all
  moreover have "length pre' = length pre1" "length suf' = length suf1" using w(4,5) by (metis length_map)+
  ultimately show "upper rest = upper hrest \<and> length pre + 1 + length suf \<le> length lab \<and> upper pre = take (length pre) (upper h)
      \<and> upper suf = take (length suf) (upper (drop (length lab - length suf) h))"
    using w(3-6) h(1) by (cases mid) (simp_all add: take_map drop_map)
qed

lemma xn_test: "NUL \<notin> set p \<Longrightarrow> Curl_strncasecompare p ''xn--'' 4 \<longleftrightarrow> upper (take 4 p) = ''XN--''"
proof -
  have x: "Curl_raw_toupper CHR ''x'' = CHR ''X''" "Curl_raw_toupper CHR ''n'' = CHR ''N''" "Curl_raw_toupper CHR ''-'' = CHR ''-''"
    by code_simp+
  assume "NUL \<notin> set p"
  then show ?thesis by (subst strncasecompare_iff) (simp_all add: x take_map)
qed

lemma wildcard_enabled:
  assumes "strchr p CHR ''*'' = Some w" "strchr p CHR ''.'' = Some e" "NUL \<notin> set p"
  shows "\<not> (strchr (drop (e + 1) p) CHR ''.'' = None \<or> w > e \<or> Curl_strncasecompare p ''xn--'' 4) \<longleftrightarrow>
    (\<exists>pre suf rest. p = pre @ CHR ''*'' # suf @ CHR ''.'' # rest \<and> CHR ''*'' \<notin> set pre \<and> CHR ''.'' \<notin> set (pre @ suf) \<and>
      CHR ''.'' \<in> set rest \<and> upper (take 4 p) \<noteq> ''XN--'' \<and> w = length pre \<and> e = length pre + 1 + length suf)"
proof -
  obtain a b where p: "p = a @ CHR ''.'' # b" "CHR ''.'' \<notin> set a" "e = length a" using strchr_SomeD [OF assms(2)] by blast
  obtain c d where q: "p = c @ CHR ''*'' # d" "CHR ''*'' \<notin> set c" "w = length c" using strchr_SomeD [OF assms(1)] by blast
  show ?thesis
  proof
    assume en: "\<not> (strchr (drop (e + 1) p) CHR ''.'' = None \<or> w > e \<or> Curl_strncasecompare p ''xn--'' 4)"
    have b: "CHR ''.'' \<in> set b" using en by (simp add: p(1,3) strchr_None)
    have star: "p ! w = CHR ''*''" "p ! e = CHR ''.''" by (simp add: q(1,3), simp add: p(1,3))
    then have "w \<noteq> e" by auto
    then have "w < length a" using en p(3) by simp
    then have "a ! w = CHR ''*''" using star(1) p(1) by (simp add: nth_append)
    then have "CHR ''*'' \<in> set a" using nth_mem [OF \<open>w < length a\<close>] by simp
    then obtain pre suf where a: "a = pre @ CHR ''*'' # suf" "CHR ''*'' \<notin> set pre" by (metis split_list_first)
    have "pre @ CHR ''*'' # suf @ CHR ''.'' # b = c @ CHR ''*'' # d" using p(1) q(1) a(1) by simp
    then have "pre = c" unfolding sep_unique [OF a(2) q(2)] by blast
    then show "\<exists>pre suf rest. p = pre @ CHR ''*'' # suf @ CHR ''.'' # rest \<and> CHR ''*'' \<notin> set pre \<and> CHR ''.'' \<notin> set (pre @ suf) \<and>
      CHR ''.'' \<in> set rest \<and> upper (take 4 p) \<noteq> ''XN--'' \<and> w = length pre \<and> e = length pre + 1 + length suf"
      using a p b q(3) en xn_test [OF assms(3)] by (intro exI [of _ pre] exI [of _ suf] exI [of _ b]) simp
  next
    assume "\<exists>pre suf rest. p = pre @ CHR ''*'' # suf @ CHR ''.'' # rest \<and> CHR ''*'' \<notin> set pre \<and> CHR ''.'' \<notin> set (pre @ suf) \<and>
      CHR ''.'' \<in> set rest \<and> upper (take 4 p) \<noteq> ''XN--'' \<and> w = length pre \<and> e = length pre + 1 + length suf"
    then obtain pre suf rest where "p = pre @ CHR ''*'' # suf @ CHR ''.'' # rest" "CHR ''.'' \<in> set rest"
      "upper (take 4 p) \<noteq> ''XN--''" "w = length pre" "e = length pre + 1 + length suf" by blast
    then show "\<not> (strchr (drop (e + 1) p) CHR ''.'' = None \<or> w > e \<or> Curl_strncasecompare p ''xn--'' 4)"
      using xn_test [OF assms(3)] by (simp add: strchr_None)
  qed
qed

lemma is_ip_results:
  assumes "Curl_inet_pton AF_INET_4 h = Inr (r4, d4)" "Curl_inet_pton AF_INET_6 h = Inr (r6, d6)"
  shows "is_ip h \<longleftrightarrow> r4 = 1 \<or> r6 = 1"
  using assms by (auto simp add: is_ip_def)

lemma wildcard_match_shape:
  assumes "wildcard_match p h" "strchr p CHR ''*'' = Some w" "strchr p CHR ''.'' = Some e"
  shows "\<exists>pre suf rest. p = pre @ CHR ''*'' # suf @ CHR ''.'' # rest \<and> CHR ''*'' \<notin> set pre \<and> CHR ''.'' \<notin> set (pre @ suf) \<and>
      CHR ''.'' \<in> set rest \<and> upper (take 4 p) \<noteq> ''XN--'' \<and> w = length pre \<and> e = length pre + 1 + length suf"
proof -
  from assms(1) obtain pre suf rest where p: "p = pre @ CHR ''*'' # suf @ CHR ''.'' # rest" "CHR ''*'' \<notin> set pre"
    "CHR ''.'' \<notin> set (pre @ suf)" "CHR ''.'' \<in> set rest" "upper (take 4 p) \<noteq> ''XN--''"
    unfolding wildcard_match_def by auto
  have "strchr p CHR ''*'' = Some (length pre)" unfolding p(1) by (rule strchr_append [OF p(2)])
  moreover have "strchr p CHR ''.'' = Some (length (pre @ CHR ''*'' # suf))"
    using strchr_append [of "CHR ''.''" "pre @ CHR ''*'' # suf" rest] p(1,3) by simp
  ultimately show ?thesis using assms(2,3) p by (intro exI [of _ pre] exI [of _ suf] exI [of _ rest]) simp
qed

lemma equal_wildcard:
  assumes "upper p = upper h" and p: "p = pre @ CHR ''*'' # suf @ CHR ''.'' # rest" "CHR ''*'' \<notin> set pre"
    "CHR ''.'' \<notin> set (pre @ suf)" "CHR ''.'' \<in> set rest" "upper (take 4 p) \<noteq> ''XN--''"
  shows "wildcard_match p h"
proof -
  obtain a b where h: "h = a @ CHR ''*'' # b" "upper a = upper pre" "upper b = upper (suf @ CHR ''.'' # rest)"
    using upper_split [of pre "CHR ''*''" "suf @ CHR ''.'' # rest" h] assms(1) p by auto
  obtain c d where b: "b = c @ CHR ''.'' # d" "upper c = upper suf" "upper d = upper rest" "CHR ''.'' \<notin> set c"
    using upper_split [of suf "CHR ''.''" rest b] h(3) p(3) by auto
  have "CHR ''.'' \<notin> set pre" using p(3) by simp
  then have "CHR ''.'' \<notin> set a" using upper_sep(1) [of a] upper_sep(1) [of pre] unfolding h(2) by blast
  then have "CHR ''.'' \<notin> set (pre @ suf @ a @ ''*'' @ c)" using p(3) b(4) by simp
  moreover have "p = pre @ ''*'' @ suf @ ''.'' @ rest" using p(1) by (simp only: append_Cons append_Nil)
  moreover have "h = a @ ''*'' @ c @ ''.'' @ d" using h(1) b(1) by (simp only: append_Cons append_Nil append_assoc)
  ultimately show ?thesis
    unfolding wildcard_match_def using p(2,4,5) h(2) b(2,3) by blast
qed

lemma hostmatch_run:
  assumes "hostname \<noteq> []" "pattern \<noteq> []" "NUL \<notin> set hostname" "NUL \<notin> set pattern"
  shows "hostmatch hostname pattern = Inr (host_matches (undot pattern) (undot hostname))"
proof -
  define h p where "h = undot hostname" and "p = undot pattern"
  have n: "NUL \<notin> set h" "NUL \<notin> set p" using undot_no_NUL assms(3,4) by (simp_all add: h_def p_def)
  note strip = strip_dot_run [OF assms(1)] strip_dot_run [OF assms(2)]
  obtain r4 d4 where r4: "Curl_inet_pton AF_INET_4 h = Inr (r4, d4)" "r4 = 0 \<or> r4 = 1" using pton_result(1) by blast
  obtain r6 d6 where r6: "Curl_inet_pton AF_INET_6 h = Inr (r6, d6)" "r6 = 0 \<or> r6 = 1" using pton_result(2) by blast
  note ip = is_ip_results [OF r4(1) r6(1)]
  have eq: "Curl_strcasecompare p h \<longleftrightarrow> upper p = upper h" by (rule strcasecompare_iff [OF n(2,1)])
  have unfold: "hostmatch hostname pattern =
    (case strchr p CHR ''*'' of
      None \<Rightarrow> Inr (upper p = upper h)
    | Some w \<Rightarrow> if is_ip h then Inr False
        else let ple = strchr p CHR ''.'';
              enabled = (case ple of None \<Rightarrow> False
                | Some e \<Rightarrow> \<not> (strchr (drop (e + 1) p) CHR ''.'' = None \<or> w > e \<or> Curl_strncasecompare p ''xn--'' 4))
          in if \<not> enabled then Inr (upper p = upper h)
          else case (ple, strchr h CHR ''.'') of
            (Some e, Some he) \<Rightarrow>
              if \<not> Curl_strcasecompare (drop e p) (drop he h) then Inr False
              else if he < e then Inr False
              else let prefixlen = w; suffixlen = e - (w + 1)
                in Inr (Curl_strncasecompare p h prefixlen \<and>
                     Curl_strncasecompare (drop (w + 1) p) (drop (he - suffixlen) h) suffixlen)
          | _ \<Rightarrow> Inr False)"
    unfolding hostmatch_def strip rbind_simps h_def [symmetric] p_def [symmetric] r4(1) r6(1) prod.case eq ip
    using r4(2) r6(2) by (intro option.case_cong refl) auto
  show ?thesis
  proof (cases "strchr p CHR ''*''")
    case None
    then have no: "CHR ''*'' \<notin> set p" by (simp add: strchr_None)
    then have "host_matches p h \<longleftrightarrow> upper p = upper h" unfolding host_matches_def using wildcard_matchD(1) [of p h] by blast
    then show ?thesis unfolding unfold None option.case h_def [symmetric] p_def [symmetric] by (simp only:)
  next
    case (Some w)
    then have star: "CHR ''*'' \<in> set p" using strchr_None [of p "CHR ''*''"] by (metis option.distinct(1))
    let ?r = "upper p = upper h \<or> wildcard_match p h"
    show ?thesis
    proof (cases "is_ip h")
      case True
      then show ?thesis unfolding unfold Some option.case h_def [symmetric] p_def [symmetric] host_matches_def using star by simp
    next
      case False
      then have goal: "host_matches p h \<longleftrightarrow> ?r" by (simp add: host_matches_def)
      show ?thesis
      proof (cases "strchr p CHR ''.''")
        case None
        then have "\<not> wildcard_match p h" using wildcard_matchD(2) [of p h] strchr_None by metis
        then show ?thesis unfolding unfold Some None option.case h_def [symmetric] p_def [symmetric] goal using False by simp
      next
        case e: (Some e)
        let ?en = "\<not> (strchr (drop (e + 1) p) CHR ''.'' = None \<or> w > e \<or> Curl_strncasecompare p ''xn--'' 4)"
        note en = wildcard_enabled [OF Some e n(2)]
        show ?thesis
        proof (cases ?en)
          case no: False
          then have "\<not> wildcard_match p h" using wildcard_match_shape [OF _ Some e, of h] en by blast
          then show ?thesis
            unfolding unfold Some e option.case h_def [symmetric] p_def [symmetric] goal Let_def if_not_P [OF False] if_P [OF no] by simp
        next
          case yes: True
          then obtain pre suf rest where d: "p = pre @ CHR ''*'' # suf @ CHR ''.'' # rest" "CHR ''*'' \<notin> set pre"
            "CHR ''.'' \<notin> set (pre @ suf)" "CHR ''.'' \<in> set rest" "upper (take 4 p) \<noteq> ''XN--''" "w = length pre" "e = length pre + 1 + length suf"
            unfolding en by blast
          show ?thesis
          proof (cases "strchr h CHR ''.''")
            case None
            then have "CHR ''.'' \<notin> set h" by (simp add: strchr_None)
            moreover have "CHR ''.'' \<in> set p" using d(1) by simp
            ultimately have "\<not> ?r" using wildcard_matchD(3) [of p h] upper_sep(1) [of p] upper_sep(1) [of h] by metis
            then show ?thesis
              unfolding unfold Some e None option.case h_def [symmetric] p_def [symmetric] goal Let_def if_not_P [OF False] using yes by simp
          next
            case he: (Some he)
            then obtain lab hrest where l: "h = lab @ CHR ''.'' # hrest" "CHR ''.'' \<notin> set lab" "he = length lab"
              using strchr_SomeD by blast
            have r: "host_matches p h \<longleftrightarrow> wildcard_match p h" using goal equal_wildcard [OF _ d(1-5)] by blast
            have cmp: "Curl_strcasecompare (drop e p) (drop he h) \<longleftrightarrow> upper rest = upper hrest"
              by (subst strcasecompare_iff) (use n in \<open>simp_all add: d(1,7) l(1,3)\<close>)
            have pre: "Curl_strncasecompare p h w \<longleftrightarrow> upper pre = take (length pre) (upper h)"
              by (subst strncasecompare_iff [OF n(2,1)]) (simp add: d(1,6) take_map)
            have "NUL \<notin> set (drop (he - length suf) h)" "NUL \<notin> set (drop (w + 1) p)" using n in_set_dropD by fast+
            note sf = strncasecompare_iff [OF this(2,1)]
            have suf: "Curl_strncasecompare (drop (w + 1) p) (drop (he - length suf) h) (length suf)
                \<longleftrightarrow> upper suf = take (length suf) (upper (drop (he - length suf) h))"
              unfolding sf by (simp add: d(1,6) take_map)
            have len: "e - (w + 1) = length suf" "he < e \<longleftrightarrow> \<not> length pre + 1 + length suf \<le> length lab"
              using d(6,7) l(3) by auto
            show ?thesis
              unfolding unfold Some e he option.case prod.case h_def [symmetric] p_def [symmetric] Let_def
                if_not_P [OF False] r wildcard_result [OF d(1-3) l(1,2) d(4,5), symmetric] cmp pre len suf
              using yes by (simp add: l(3))
          qed
        qed
      qed
    qed
  qed
qed

section \<open>The verdict\<close>

text \<open>
  C37: for two names that are C strings, Curl_cert_hostcheck gives 1 exactly when the certificate's name stands for
  the host by the rules of RFC 6125 - equal up to case and one final dot, or the wildcard standing for
  one or more characters of the first label, the rest of the label and all the later ones (two at
  least) being equal, never for an IP address and never inside an internationalised label -, and 0
  otherwise; an empty or missing name and a failing allocation give 0, whatever the names are.
\<close>

theorem cert_hostcheck_rfc6125:
  assumes "NUL \<notin> set p" "NUL \<notin> set h"
  shows "Curl_cert_hostcheck (Some p) (Some h) [] =
      Inr (if p \<noteq> [] \<and> h \<noteq> [] \<and> host_matches (undot p) (undot h) then 1 else 0)
    \<and> Curl_cert_hostcheck (Some p) (Some h) m \<in> {Inr 0, Curl_cert_hostcheck (Some p) (Some h) []}
    \<and> Curl_cert_hostcheck None host m = Inr 0 \<and> Curl_cert_hostcheck pattern None m = Inr 0"
proof (intro conjI)
  have run: "Curl_cert_hostcheck (Some p) (Some h) m =
      (if p = [] \<or> h = [] then Inr 0 else case curl_strdup p m of (None, _) \<Rightarrow> Inr 0
        | (Some _, m) \<Rightarrow> case curl_strdup h m of (None, _) \<Rightarrow> Inr 0
            | (Some _, _) \<Rightarrow> Inr (if host_matches (undot p) (undot h) then 1 else 0))" for m
    using hostmatch_run [of h p] assms
    by (auto simp: Curl_cert_hostcheck_def curl_strdup_def split: prod.splits if_splits)
  show one: "Curl_cert_hostcheck (Some p) (Some h) [] =
      Inr (if p \<noteq> [] \<and> h \<noteq> [] \<and> host_matches (undot p) (undot h) then 1 else 0)"
    unfolding run by (simp add: curl_strdup_def ddns_mem_alloc_Nil)
  show "Curl_cert_hostcheck (Some p) (Some h) m \<in> {Inr 0, Curl_cert_hostcheck (Some p) (Some h) []}"
    unfolding one unfolding run by (auto split: prod.splits option.splits)
qed (simp_all add: Curl_cert_hostcheck_def split: option.split)

theorem cert_hostcheck_rfc6125_witness:
  "host_matches ''*.tencentcloudapi.com'' ''dnspod.tencentcloudapi.com'' \<and>
   Curl_cert_hostcheck (Some ''*.tencentcloudapi.com'') (Some ''tencentcloudapi.com'') [] = Inr 0"
proof -
  have run: "Curl_cert_hostcheck (Some ''*.tencentcloudapi.com'') (Some ''dnspod.tencentcloudapi.com'') [] = Inr 1" by code_simp
  have no: "Curl_cert_hostcheck (Some ''*.tencentcloudapi.com'') (Some ''tencentcloudapi.com'') [] = Inr 0" by code_simp
  show ?thesis
    using run no cert_hostcheck_rfc6125 [of "''*.tencentcloudapi.com''" "''dnspod.tencentcloudapi.com''" "[]" None None]
    by (simp add: undot_def split: if_splits)
qed

end
