(* ===== verification/Ossl_Lhash.thy ===== *)
theory Ossl_Lhash
  imports Curl_Hash
begin

text \<open>
  \<^verbatim>\<open>crypto/lhash/lhash.c\<close> of the vendored OpenSSL: the hash table of its object names, its
  configuration and its error strings. It grows and shrinks by one bucket at a time.

  A node is its \<^verbatim>\<open>data\<close> pointer and the stored hash, a bucket the list of its nodes, \<open>lh_b\<close> the block
  of buckets, null pointers as empty lists. \<open>'s\<close> is what a callback of \<^verbatim>\<open>doall\<close> works on; it leaves the table alone. The fields
  of the numbers are natural numbers: the model is of tables below \<open>2 ^ 31\<close> buckets, as the code
  casts an index to \<^verbatim>\<open>int\<close>.
\<close>

type_synonym 'd lh_node = "'d \<times> u64"

record ('d, 's) lhash =
  lh_b :: "'d lh_node list list"
  lh_comp :: "'d \<Rightarrow> 'd \<Rightarrow> int"
  lh_hash :: "'d \<Rightarrow> u64"
  lh_hashw :: "('d \<Rightarrow> ('d \<Rightarrow> u64) \<Rightarrow> u64) option"
  lh_compw :: "('d \<Rightarrow> 'd \<Rightarrow> ('d \<Rightarrow> 'd \<Rightarrow> int) \<Rightarrow> int) option"
  lh_daw :: "('d \<Rightarrow> ('d \<Rightarrow> 's \<Rightarrow> 's) \<Rightarrow> 's \<Rightarrow> 's) option"
  lh_daaw :: "('d \<Rightarrow> ('d \<Rightarrow> 's \<Rightarrow> 's) \<Rightarrow> 's \<Rightarrow> 's) option"
  lh_num_nodes :: nat
  lh_num_alloc_nodes :: nat
  lh_p :: nat
  lh_pmax :: nat
  lh_up_load :: nat
  lh_down_load :: nat
  lh_num_items :: nat
  lh_error :: nat

section \<open>Hashing text\<close>

definition strhash_step :: "u64 \<Rightarrow> u64 \<Rightarrow> u64" where
  "strhash_step v ret =
    (let r = unat ((drop_bit 2 v XOR v) AND 0xf);
         ret = push_bit r ret OR drop_bit (32 - r) ret;
         ret = ret AND 0xFFFFFFFF
     in ret XOR v * v)"

fun LH_strhash_loop :: "bool \<Rightarrow> u64 \<Rightarrow> u64 \<Rightarrow> string \<Rightarrow> u64" where
  "LH_strhash_loop sg n ret [] = ret"
| "LH_strhash_loop sg n ret (c # cs) =
    (if c = NUL then ret else LH_strhash_loop sg (n + 0x100) (strhash_step (n OR char_to_ulong sg c) ret) cs)"

definition OPENSSL_LH_strhash :: "bool \<Rightarrow> string option \<Rightarrow> u64" where
  "OPENSSL_LH_strhash sg c =
    (case c of None \<Rightarrow> 0
     | Some c \<Rightarrow> if c_at c = NUL then 0
         else let ret = LH_strhash_loop sg 0x100 0 c in drop_bit 16 ret XOR ret)"

fun strcasehash_loop :: "bool \<Rightarrow> u64 \<Rightarrow> u64 \<Rightarrow> string \<Rightarrow> u64" where
  "strcasehash_loop sg n ret [] = ret"
| "strcasehash_loop sg n ret (c # cs) =
    (if c = NUL then ret else strcasehash_loop sg (n + 0x100) (strhash_step (n OR (NOT 0x20 AND char_to_ulong sg c)) ret) cs)"

definition ossl_lh_strcasehash :: "bool \<Rightarrow> string option \<Rightarrow> u64" where
  "ossl_lh_strcasehash sg c =
    (case c of None \<Rightarrow> 0
     | Some c \<Rightarrow> if c_at c = NUL then 0
         else let ret = strcasehash_loop sg 0x100 0 c in drop_bit 16 ret XOR ret)"

section \<open>Comparing text\<close>

text \<open>Of the result of \<^verbatim>\<open>strcmp\<close> only the sign is promised.\<close>

fun strcmp :: "string \<Rightarrow> string \<Rightarrow> int" where
  "strcmp [] s2 = (if c_at s2 = NUL then 0 else - 1)"
| "strcmp (c # s1) s2 =
    (if c \<noteq> c_at s2 then (if ord c < (ord (c_at s2) :: nat) then - 1 else 1) else if c = NUL then 0 else strcmp s1 (tl s2))"

definition char_to_int :: "bool \<Rightarrow> char \<Rightarrow> int" where
  "char_to_int signed_char c = (if signed_char then sint (byte_of_char c) else uint (byte_of_char c))"

definition ossl_tolower :: "int \<Rightarrow> int" where
  "ossl_tolower c = (if 0x41 \<le> c \<and> c \<le> 0x5A then c XOR 0x20 else c)"

fun OPENSSL_strcasecmp :: "bool \<Rightarrow> string \<Rightarrow> string \<Rightarrow> int" where
  "OPENSSL_strcasecmp sg [] s2 = ossl_tolower 0 - ossl_tolower (char_to_int sg (c_at s2))"
| "OPENSSL_strcasecmp sg (c # s1) s2 =
    (let t = ossl_tolower (char_to_int sg c) - ossl_tolower (char_to_int sg (c_at s2))
     in if t \<noteq> 0 then t else if c = NUL then 0 else OPENSSL_strcasecmp sg s1 (tl s2))"

section \<open>The table\<close>

definition MIN_NODES :: nat where "MIN_NODES = 16"
definition LH_LOAD_MULT :: nat where "LH_LOAD_MULT = 256"
definition UP_LOAD :: nat where "UP_LOAD = 2 * LH_LOAD_MULT"
definition DOWN_LOAD :: nat where "DOWN_LOAD = LH_LOAD_MULT"

text \<open>The default functions read the data as text, which \<open>as_text\<close> is.\<close>

definition OPENSSL_LH_new ::
  "bool \<Rightarrow> ('d \<Rightarrow> string) \<Rightarrow> ('d \<Rightarrow> u64) option \<Rightarrow> ('d \<Rightarrow> 'd \<Rightarrow> int) option \<Rightarrow> sched
    \<Rightarrow> ('d, 's) lhash option \<times> sched" where
  "OPENSSL_LH_new sg as_text h c m =
    (case ddns_mem_alloc 104 m of (got, m) \<Rightarrow>
     if \<not> got then (None, m)
     else case ddns_mem_alloc (8 * MIN_NODES) m of (got, m) \<Rightarrow>
     if \<not> got then (None, m)
     else (Some \<lparr>lh_b = replicate MIN_NODES [], lh_comp = (case c of None \<Rightarrow> (\<lambda>a b. strcmp (as_text a) (as_text b)) | Some c \<Rightarrow> c),
       lh_hash = (case h of None \<Rightarrow> (\<lambda>d. OPENSSL_LH_strhash sg (Some (as_text d))) | Some h \<Rightarrow> h), lh_hashw = None, lh_compw = None, lh_daw = None,
       lh_daaw = None, lh_num_nodes = MIN_NODES div 2, lh_num_alloc_nodes = MIN_NODES, lh_p = 0,
       lh_pmax = MIN_NODES div 2, lh_up_load = UP_LOAD, lh_down_load = DOWN_LOAD, lh_num_items = 0, lh_error = 0\<rparr>, m))"

definition OPENSSL_LH_set_thunks ::
  "('d, 's) lhash \<Rightarrow> ('d \<Rightarrow> ('d \<Rightarrow> u64) \<Rightarrow> u64) \<Rightarrow> ('d \<Rightarrow> 'd \<Rightarrow> ('d \<Rightarrow> 'd \<Rightarrow> int) \<Rightarrow> int)
    \<Rightarrow> ('d \<Rightarrow> ('d \<Rightarrow> 's \<Rightarrow> 's) \<Rightarrow> 's \<Rightarrow> 's) \<Rightarrow> ('d \<Rightarrow> ('d \<Rightarrow> 's \<Rightarrow> 's) \<Rightarrow> 's \<Rightarrow> 's) \<Rightarrow> ('d, 's) lhash" where
  "OPENSSL_LH_set_thunks lh hw cw daw daaw =
    lh\<lparr>lh_compw := Some cw, lh_hashw := Some hw, lh_daw := Some daw, lh_daaw := Some daaw\<rparr>"

text \<open>The functions a search applies.\<close>

definition lh_hashes :: "('d, 's) lhash \<Rightarrow> 'd \<Rightarrow> u64" where
  "lh_hashes lh data = (case lh_hashw lh of Some w \<Rightarrow> w data (lh_hash lh) | None \<Rightarrow> lh_hash lh data)"

definition lh_compares :: "('d, 's) lhash \<Rightarrow> 'd \<Rightarrow> 'd \<Rightarrow> int" where
  "lh_compares lh a b = (case lh_compw lh of Some w \<Rightarrow> w a b (lh_comp lh) | None \<Rightarrow> lh_comp lh a b)"

text \<open>How many nodes of a bucket the search passes.\<close>

fun chain_pos :: "('d \<Rightarrow> 'd \<Rightarrow> int) \<Rightarrow> u64 \<Rightarrow> 'd \<Rightarrow> 'd lh_node list \<Rightarrow> nat" where
  "chain_pos cmp hash data [] = 0"
| "chain_pos cmp hash data (n1 # ns) =
    (if snd n1 \<noteq> hash then Suc (chain_pos cmp hash data ns)
     else if cmp (fst n1) data = 0 then 0 else Suc (chain_pos cmp hash data ns))"

definition slot_of :: "nat \<Rightarrow> nat \<Rightarrow> nat \<Rightarrow> nat \<Rightarrow> nat" where
  "slot_of alloc pmax p hash = (let nn = hash mod pmax in if nn < p then hash mod alloc else nn)"

text \<open>The bucket, the position in it where the node is or would be, and the hash.\<close>

definition getrn :: "('d, 's) lhash \<Rightarrow> 'd \<Rightarrow> fault + nat \<times> nat \<times> u64" where
  "getrn lh data =
    (let hash = lh_hashes lh data;
         nn = slot_of (lh_num_alloc_nodes lh) (lh_pmax lh) (lh_p lh) (unat hash)
     in if nn < length (lh_b lh) then Inr (nn, chain_pos (lh_compares lh) hash data (lh_b lh ! nn), hash)
        else Inl Read_past_end)"

section \<open>Growing and shrinking\<close>

fun split_loop :: "nat \<Rightarrow> nat \<Rightarrow> 'd lh_node list \<Rightarrow> 'd lh_node list \<Rightarrow> 'd lh_node list \<times> 'd lh_node list" where
  "split_loop nni p [] n2 = ([], n2)"
| "split_loop nni p (np # n1) n2 =
    (if unat (snd np) mod nni \<noteq> p then split_loop nni p n1 (np # n2)
     else case split_loop nni p n1 n2 of (n1, n2) \<Rightarrow> (np # n1, n2))"

text \<open>The block behind \<^verbatim>\<open>realloc\<close> and \<^verbatim>\<open>memset\<close>: the first \<open>nni\<close> buckets are kept.\<close>

definition expand :: "('d, 's) lhash \<Rightarrow> sched \<Rightarrow> fault + bool \<times> ('d, 's) lhash \<times> sched" where
  "expand lh m =
    (let nni = lh_num_alloc_nodes lh; p = lh_p lh; pmax = lh_pmax lh; j = nni * 2;
         (got, m) = (if p + 1 \<ge> pmax then ddns_mem_alloc (8 * j) m else (True, m))
     in if \<not> got then Inr (False, lh\<lparr>lh_error := lh_error lh + 1\<rparr>, m)
     else if p + 1 \<ge> pmax \<and> length (lh_b lh) < nni then Inl Uninit_read
     else
       let lh = (if p + 1 \<ge> pmax
                 then lh\<lparr>lh_b := take nni (lh_b lh) @ replicate (j - nni) [], lh_pmax := nni, lh_num_alloc_nodes := j, lh_p := 0\<rparr>
                 else lh\<lparr>lh_p := p + 1\<rparr>);
           lh = lh\<lparr>lh_num_nodes := lh_num_nodes lh + 1\<rparr>
       in if p + pmax < length (lh_b lh)
          then let (n1, n2) = split_loop nni p (lh_b lh ! p) []
               in Inr (True, lh\<lparr>lh_b := (lh_b lh)[p + pmax := n2, p := n1]\<rparr>, m)
          else Inl Write_past_end)"

definition contract :: "('d, 's) lhash \<Rightarrow> sched \<Rightarrow> fault + ('d, 's) lhash \<times> sched" where
  "contract lh m =
    (let l = lh_p lh + lh_pmax lh - 1
     in if l \<ge> length (lh_b lh) then Inl Read_past_end
     else
       let np = lh_b lh ! l; lh = lh\<lparr>lh_b := (lh_b lh)[l := []]\<rparr>;
           (got, m) = (if lh_p lh = 0 then ddns_mem_alloc (8 * lh_pmax lh) m else (True, m));
           lh = (if lh_p lh \<noteq> 0 then lh\<lparr>lh_p := lh_p lh - 1\<rparr>
                 else let lh = (if got then lh\<lparr>lh_b := take (lh_pmax lh) (lh_b lh)\<rparr> else lh\<lparr>lh_error := lh_error lh + 1\<rparr>);
                          lh = lh\<lparr>lh_num_alloc_nodes := lh_num_alloc_nodes lh div 2, lh_pmax := lh_pmax lh div 2\<rparr>
                      in lh\<lparr>lh_p := lh_pmax lh - 1\<rparr>);
           lh = lh\<lparr>lh_num_nodes := lh_num_nodes lh - 1\<rparr>
       in if lh_p lh < length (lh_b lh)
          then Inr (lh\<lparr>lh_b := (lh_b lh)[lh_p lh := lh_b lh ! lh_p lh @ np]\<rparr>, m)
          else Inl Read_past_end)"

section \<open>The operations\<close>

text \<open>A null pointer as a result is \<open>None\<close>; stored data are never null.\<close>

definition lh_place :: "('d, 's) lhash \<Rightarrow> 'd \<Rightarrow> sched \<Rightarrow> fault + 'd option \<times> ('d, 's) lhash \<times> sched" where
  "lh_place lh data m =
    rbind (getrn lh data) (\<lambda>(i, k, hash).
      let ns = lh_b lh ! i in
      if k = length ns then
        (case ddns_mem_alloc 24 m of (got, m) \<Rightarrow>
           if \<not> got then Inr (None, lh\<lparr>lh_error := lh_error lh + 1\<rparr>, m)
           else Inr (None, lh\<lparr>lh_b := (lh_b lh)[i := ns @ [(data, hash)]], lh_num_items := lh_num_items lh + 1\<rparr>, m))
      else Inr (Some (fst (ns ! k)), lh\<lparr>lh_b := (lh_b lh)[i := ns[k := (data, snd (ns ! k))]]\<rparr>, m))"

definition OPENSSL_LH_insert :: "('d, 's) lhash \<Rightarrow> 'd \<Rightarrow> sched \<Rightarrow> fault + 'd option \<times> ('d, 's) lhash \<times> sched" where
  "OPENSSL_LH_insert lh data m =
    (let lh = lh\<lparr>lh_error := 0\<rparr>
     in rbind (if lh_up_load lh \<le> lh_num_items lh * LH_LOAD_MULT div lh_num_nodes lh then expand lh m else Inr (True, lh, m))
       (\<lambda>(ok, lh, m). if \<not> ok then Inr (None, lh, m) else lh_place lh data m))"

definition OPENSSL_LH_delete :: "('d, 's) lhash \<Rightarrow> 'd \<Rightarrow> sched \<Rightarrow> fault + 'd option \<times> ('d, 's) lhash \<times> sched" where
  "OPENSSL_LH_delete lh data m =
    (let lh = lh\<lparr>lh_error := 0\<rparr>
     in rbind (getrn lh data) (\<lambda>(i, k, hash).
       let ns = lh_b lh ! i in
       if k = length ns then Inr (None, lh, m)
       else
         let lh = lh\<lparr>lh_b := (lh_b lh)[i := take k ns @ drop (k + 1) ns], lh_num_items := lh_num_items lh - 1\<rparr>
         in rbind (if lh_num_nodes lh > MIN_NODES \<and> lh_down_load lh \<ge> lh_num_items lh * LH_LOAD_MULT div lh_num_nodes lh
                   then contract lh m else Inr (lh, m))
              (\<lambda>(lh, m). Inr (Some (fst (ns ! k)), lh, m))))"

definition OPENSSL_LH_retrieve :: "('d, 's) lhash \<Rightarrow> 'd \<Rightarrow> fault + 'd option \<times> ('d, 's) lhash" where
  "OPENSSL_LH_retrieve lh data =
    (let lh = (if lh_error lh \<noteq> 0 then lh\<lparr>lh_error := 0\<rparr> else lh)
     in rbind (getrn lh data) (\<lambda>(i, k, hash).
       let ns = lh_b lh ! i in Inr (if k = length ns then None else Some (fst (ns ! k)), lh)))"

text \<open>The loop over the buckets runs from the last to the first.\<close>

fun doall_chain :: "('d \<Rightarrow> 's \<Rightarrow> 's) \<Rightarrow> 'd lh_node list \<Rightarrow> 's \<Rightarrow> 's" where
  "doall_chain call [] st = st"
| "doall_chain call (a # n) st = doall_chain call n (call (fst a) st)"

fun doall_loop :: "('d \<Rightarrow> 's \<Rightarrow> 's) \<Rightarrow> 'd lh_node list list \<Rightarrow> nat \<Rightarrow> 's \<Rightarrow> fault + 's" where
  "doall_loop call b 0 st = Inr st"
| "doall_loop call b (Suc i) st =
    (if i < length b then doall_loop call b i (doall_chain call (b ! i) st) else Inl Read_past_end)"

definition doall_util_fn ::
  "('d, 's) lhash option \<Rightarrow> ('d \<Rightarrow> ('d \<Rightarrow> 's \<Rightarrow> 's) \<Rightarrow> 's \<Rightarrow> 's) \<Rightarrow> ('d \<Rightarrow> 's \<Rightarrow> 's) \<Rightarrow> 's \<Rightarrow> fault + 's" where
  "doall_util_fn lh wfunc func st =
    (case lh of None \<Rightarrow> Inr st
     | Some lh \<Rightarrow> doall_loop (\<lambda>d. wfunc d func) (lh_b lh) (lh_num_nodes lh) st)"

text \<open>The thunks are called through their fields, which \<^verbatim>\<open>OPENSSL_LH_set_thunks\<close> sets.\<close>

definition OPENSSL_LH_doall :: "('d, 's) lhash option \<Rightarrow> ('d \<Rightarrow> 's \<Rightarrow> 's) \<Rightarrow> 's \<Rightarrow> fault + 's" where
  "OPENSSL_LH_doall lh func st =
    (case lh of None \<Rightarrow> Inr st
     | Some l \<Rightarrow> (case lh_daw l of
         Some w \<Rightarrow> doall_util_fn lh w func st
       | None \<Rightarrow> if concat (take (lh_num_nodes l) (lh_b l)) = [] then Inr st else Inl Null_deref))"

definition OPENSSL_LH_doall_arg :: "('d, 's) lhash option \<Rightarrow> ('d \<Rightarrow> 's \<Rightarrow> 's) \<Rightarrow> 's \<Rightarrow> fault + 's" where
  "OPENSSL_LH_doall_arg lh func arg =
    (case lh of None \<Rightarrow> Inr arg
     | Some l \<Rightarrow> (case lh_daaw l of
         Some w \<Rightarrow> doall_util_fn lh w func arg
       | None \<Rightarrow> if concat (take (lh_num_nodes l) (lh_b l)) = [] then Inr arg else Inl Null_deref))"

definition OPENSSL_LH_doall_arg_thunk ::
  "('d, 's) lhash option \<Rightarrow> ('d \<Rightarrow> ('d \<Rightarrow> 's \<Rightarrow> 's) \<Rightarrow> 's \<Rightarrow> 's) \<Rightarrow> ('d \<Rightarrow> 's \<Rightarrow> 's) \<Rightarrow> 's \<Rightarrow> fault + 's" where
  "OPENSSL_LH_doall_arg_thunk lh daaw fn arg = doall_util_fn lh daaw fn arg"

text \<open>The number of nodes released is a result; freeing the table releases two blocks more.\<close>

definition OPENSSL_LH_flush :: "('d, 's) lhash \<Rightarrow> fault + nat \<times> ('d, 's) lhash" where
  "OPENSSL_LH_flush lh =
    (if lh_num_nodes lh \<le> length (lh_b lh)
     then Inr (length (concat (take (lh_num_nodes lh) (lh_b lh))),
       lh\<lparr>lh_b := replicate (lh_num_nodes lh) [] @ drop (lh_num_nodes lh) (lh_b lh), lh_num_items := 0\<rparr>)
     else Inl Write_past_end)"

definition OPENSSL_LH_free :: "('d, 's) lhash option \<Rightarrow> fault + nat" where
  "OPENSSL_LH_free lh =
    (case lh of None \<Rightarrow> Inr 0 | Some lh \<Rightarrow> rbind (OPENSSL_LH_flush lh) (\<lambda>(n, _). Inr (n + 2)))"

definition OPENSSL_LH_num_items :: "('d, 's) lhash option \<Rightarrow> nat" where
  "OPENSSL_LH_num_items lh = (case lh of None \<Rightarrow> 0 | Some lh \<Rightarrow> lh_num_items lh)"

definition OPENSSL_LH_set_down_load :: "('d, 's) lhash \<Rightarrow> nat \<Rightarrow> ('d, 's) lhash" where
  "OPENSSL_LH_set_down_load lh down_load = lh\<lparr>lh_down_load := down_load\<rparr>"

section \<open>Configuration values\<close>

text \<open>
  \<^verbatim>\<open>crypto/conf/conf_api.c\<close> keeps the configuration of the library in a table; \<open>cv_addr\<close> is the
  address of a value. An entry without a name stands for a section, its value is the stack of the
  values of the section.
\<close>

datatype conf_data = Conf_Text string | Conf_Stack nat

record conf_value =
  cv_addr :: nat
  cv_section :: string
  cv_name :: "string option"
  cv_value :: conf_data

definition conf_value_hash :: "bool \<Rightarrow> conf_value \<Rightarrow> u64" where
  "conf_value_hash sg v =
    push_bit 2 (OPENSSL_LH_strhash sg (Some (cv_section v))) XOR OPENSSL_LH_strhash sg (cv_name v)"

definition conf_value_cmp :: "conf_value \<Rightarrow> conf_value \<Rightarrow> int" where
  "conf_value_cmp a b =
    (let i = strcmp (cv_section a) (cv_section b)
     in if i \<noteq> 0 then i
     else case (cv_name a, cv_name b) of
       (Some n, Some n') \<Rightarrow> strcmp n n'
     | (None, None) \<Rightarrow> 0
     | (None, Some _) \<Rightarrow> - 1
     | (Some _, None) \<Rightarrow> 1)"

end
