(* ===== verification/Ossl_Lhash_Correct.thy ===== *)
theory Ossl_Lhash_Correct
  imports Ossl_Lhash "HOL-Library.Multiset"
begin

text \<open>
  The table of \<open>Ossl_Lhash\<close> is a set of data, no two of which are equal for its comparison. The
  buckets below \<open>p\<close> and the last \<open>p\<close> are divided by the larger modulus, the others not yet; each
  operation keeps every node in the bucket a search looks at.
\<close>

section \<open>Addresses of buckets\<close>

lemma mod_double: "h mod (2 * n) = h mod n \<or> h mod (2 * n) = h mod n + n" for h n :: nat
proof -
  have "h mod (n * 2) = n * (h div n mod 2) + h mod n" by (rule mod_mult2_eq)
  moreover have "h div n mod 2 = 0 \<or> h div n mod 2 = 1" by linarith
  ultimately show ?thesis by (auto simp: mult.commute)
qed

lemma slot_cases:
  assumes "0 < n"
  obtains r q where "h mod (2 * n) = q" "r < n" "q = r \<or> q = r + n"
    "\<And>p. slot_of (2 * n) n p h = (if r < p then q else r)"
proof (rule that [OF refl _ mod_double])
  show "h mod n < n" using assms by simp
qed (simp add: slot_of_def Let_def)

lemma slot_less:
  assumes "p < n"
  shows "slot_of (2 * n) n p h < p + n"
proof -
  have "0 < n" using assms by simp
  then obtain r q where "r < n" "q = r \<or> q = r + n" "slot_of (2 * n) n p h = (if r < p then q else r)"
    by (rule slot_cases [where h = h]) blast
  with assms show ?thesis by auto
qed

lemma slot_top: "slot_of m n 0 h = h mod n"
  by (simp add: slot_of_def)

text \<open>Growing: only the nodes of bucket \<open>p\<close> change their place.\<close>

lemma slot_grow:
  assumes "p < n"
  shows "(if n \<le> p + 1 then slot_of (2 * (2 * n)) (2 * n) 0 h else slot_of (2 * n) n (p + 1) h)
      = (if slot_of (2 * n) n p h = p then h mod (2 * n) else slot_of (2 * n) n p h)"
    and "slot_of (2 * n) n p h = p \<Longrightarrow> h mod (2 * n) = p \<or> h mod (2 * n) = p + n"
proof -
  have "0 < n" using assms by simp
  then obtain r q where c: "h mod (2 * n) = q" "r < n" "q = r \<or> q = r + n" "\<And>p. slot_of (2 * n) n p h = (if r < p then q else r)"
    by (rule slot_cases [where h = h]) blast
  show "(if n \<le> p + 1 then slot_of (2 * (2 * n)) (2 * n) 0 h else slot_of (2 * n) n (p + 1) h)
      = (if slot_of (2 * n) n p h = p then h mod (2 * n) else slot_of (2 * n) n p h)"
    unfolding slot_top c(1,4) using c(2,3) assms by (auto split: if_splits)
  show "slot_of (2 * n) n p h = p \<Longrightarrow> h mod (2 * n) = p \<or> h mod (2 * n) = p + n"
    unfolding c(1,4) using c(2,3) assms by (auto split: if_splits)
qed

text \<open>Shrinking: only the nodes of the last bucket do.\<close>

lemma slot_shrink:
  assumes "p < n" "0 < p"
  shows "slot_of (2 * n) n (p - 1) h = (if slot_of (2 * n) n p h = p + n - 1 then p - 1 else slot_of (2 * n) n p h)"
proof -
  have "0 < n" using assms by simp
  then obtain r q where "r < n" "q = r \<or> q = r + n" and c: "\<And>p. slot_of (2 * n) n p h = (if r < p then q else r)"
    by (rule slot_cases [where h = h]) blast
  moreover obtain k where "p = Suc k" using assms(2) by (cases p) simp_all
  ultimately show ?thesis unfolding c using assms by (auto split: if_splits)
qed

lemma slot_shrink_0:
  assumes "0 < k"
  shows "slot_of (2 * k) k (k - 1) h = (if slot_of (2 * (2 * k)) (2 * k) 0 h = 2 * k - 1 then k - 1 else slot_of (2 * (2 * k)) (2 * k) 0 h)"
proof -
  from assms obtain r q where c: "h mod (2 * k) = q" "r < k" "q = r \<or> q = r + k" "\<And>p. slot_of (2 * k) k p h = (if r < p then q else r)"
    by (rule slot_cases [where h = h]) blast
  obtain j where "k = Suc j" using assms by (cases k) simp_all
  then show ?thesis unfolding slot_top c(1,4) using c(2,3) by (auto split: if_splits)
qed

section \<open>Well-formed tables\<close>

definition lh_slot :: "('d, 's) lhash \<Rightarrow> u64 \<Rightarrow> nat" where
  "lh_slot lh h = slot_of (lh_num_alloc_nodes lh) (lh_pmax lh) (lh_p lh) (unat h)"

definition lh_shape :: "('d, 's) lhash \<Rightarrow> bool" where
  "lh_shape lh \<longleftrightarrow> lh_num_nodes lh = lh_p lh + lh_pmax lh \<and> lh_p lh < lh_pmax lh \<and>
     lh_num_alloc_nodes lh = 2 * lh_pmax lh \<and> (\<exists>j. lh_pmax lh = 8 * 2 ^ j) \<and> lh_num_alloc_nodes lh \<le> length (lh_b lh)"

definition lh_placed :: "('d \<Rightarrow> u64) \<Rightarrow> ('d, 's) lhash \<Rightarrow> bool" where
  "lh_placed hash lh \<longleftrightarrow>
     (\<forall>i<length (lh_b lh). \<forall>n\<in>set (lh_b lh ! i). snd n = hash (fst n) \<and> lh_slot lh (hash (fst n)) = i)"

definition lh_data :: "('d, 's) lhash \<Rightarrow> 'd list" where
  "lh_data lh = map fst (concat (lh_b lh))"

definition unique_for :: "('d \<Rightarrow> 'd \<Rightarrow> int) \<Rightarrow> 'd list \<Rightarrow> bool" where
  "unique_for cmp ds \<longleftrightarrow> distinct ds \<and> (\<forall>a\<in>set ds. \<forall>b\<in>set ds. cmp a b = 0 \<longrightarrow> a = b)"

definition lh_wf :: "('d \<Rightarrow> u64) \<Rightarrow> ('d \<Rightarrow> 'd \<Rightarrow> int) \<Rightarrow> ('d, 's) lhash \<Rightarrow> bool" where
  "lh_wf hash cmp lh \<longleftrightarrow> lh_hashes lh = hash \<and> lh_compares lh = cmp \<and> lh_shape lh \<and> lh_placed hash lh \<and>
     unique_for cmp (lh_data lh) \<and> lh_num_items lh = length (lh_data lh)"

lemma lh_access_update:
  "lh_hashes (lh_b_update f lh) = lh_hashes lh" "lh_compares (lh_b_update f lh) = lh_compares lh"
  "lh_hashes (lh_num_items_update g lh) = lh_hashes lh" "lh_compares (lh_num_items_update g lh) = lh_compares lh"
  "lh_hashes (lh_error_update g lh) = lh_hashes lh" "lh_compares (lh_error_update g lh) = lh_compares lh"
  "lh_hashes (lh_p_update g lh) = lh_hashes lh" "lh_compares (lh_p_update g lh) = lh_compares lh"
  "lh_hashes (lh_pmax_update g lh) = lh_hashes lh" "lh_compares (lh_pmax_update g lh) = lh_compares lh"
  "lh_hashes (lh_num_nodes_update g lh) = lh_hashes lh" "lh_compares (lh_num_nodes_update g lh) = lh_compares lh"
  "lh_hashes (lh_num_alloc_nodes_update g lh) = lh_hashes lh" "lh_compares (lh_num_alloc_nodes_update g lh) = lh_compares lh"
  by (simp_all add: lh_hashes_def lh_compares_def fun_eq_iff split: option.split)

lemma lh_wf_error [simp]: "lh_wf hash cmp (lh_error_update g lh) = lh_wf hash cmp lh" "lh_data (lh_error_update g lh) = lh_data lh"
  by (simp_all add: lh_wf_def lh_access_update lh_shape_def lh_placed_def lh_slot_def lh_data_def)

lemma mset_concat_update: "i < length b \<Longrightarrow> mset (concat (b[i := l])) + mset (b ! i) = mset (concat b) + mset l"
  by (induction b arbitrary: i) (auto split: nat.split)

lemma mset_data_update:
  "i < length (lh_b lh) \<Longrightarrow>
    mset (lh_data (lh\<lparr>lh_b := (lh_b lh)[i := l]\<rparr>)) + mset (map fst (lh_b lh ! i)) = mset (lh_data lh) + mset (map fst l)"
  using arg_cong [OF mset_concat_update [of i "lh_b lh" l], of "image_mset fst"] by (simp add: lh_data_def)

lemma mset_exchange:
  assumes "A + M = D + L" "L + {#x#} = M + {#d#}"
  shows "A + {#x#} = add_mset d D"
proof -
  have "A + {#x#} + M = (A + M) + {#x#}" by (simp only: ac_simps)
  also have "\<dots> = D + (L + {#x#})" unfolding assms(1) by (simp only: ac_simps)
  also have "\<dots> = add_mset d D + M" unfolding assms(2) by simp
  finally show ?thesis by (rule add_right_imp_eq)
qed

lemma unique_perm: "mset ds = mset ds' \<Longrightarrow> unique_for cmp ds \<longleftrightarrow> unique_for cmp ds'"
  unfolding unique_for_def by (metis mset_eq_imp_distinct_iff mset_eq_setD)

lemma placed_update:
  assumes "lh_placed hash lh" "\<And>n. n \<in> set l \<Longrightarrow> snd n = hash (fst n) \<and> lh_slot lh (hash (fst n)) = i"
  shows "lh_placed hash (lh\<lparr>lh_b := (lh_b lh)[i := l]\<rparr>)"
proof -
  have "snd n = hash (fst n) \<and> lh_slot lh (hash (fst n)) = j"
    if "j < length (lh_b lh)" "n \<in> set ((lh_b lh)[i := l] ! j)" for j n
    using assms(1) assms(2) [of n] that unfolding lh_placed_def by (cases "i = j") auto
  then show ?thesis by (simp add: lh_placed_def lh_slot_def)
qed

lemma chain_pos_le: "chain_pos cmp h d ns \<le> length ns"
  by (induction ns) auto

lemma chain_pos_found: "chain_pos cmp h d ns < length ns \<Longrightarrow> cmp (fst (ns ! chain_pos cmp h d ns)) d = 0"
  by (induction ns) (auto split: if_splits)

lemma chain_pos_none: "chain_pos cmp h d ns = length ns \<Longrightarrow> n \<in> set ns \<Longrightarrow> snd n = h \<Longrightarrow> cmp (fst n) d \<noteq> 0"
  by (induction ns) (auto split: if_splits)

lemma node_data: "i < length (lh_b lh) \<Longrightarrow> k < length (lh_b lh ! i) \<Longrightarrow> fst (lh_b lh ! i ! k) \<in> set (lh_data lh)"
  by (auto simp: lh_data_def intro!: imageI bexI [of _ "lh_b lh ! i"])

text \<open>What a search returns, and the operations on sets.\<close>

definition finds :: "('d \<Rightarrow> 'd \<Rightarrow> int) \<Rightarrow> 'd set \<Rightarrow> 'd \<Rightarrow> 'd option \<Rightarrow> bool" where
  "finds cmp S d r \<longleftrightarrow> (case r of None \<Rightarrow> \<forall>x\<in>S. cmp x d \<noteq> 0 | Some x \<Rightarrow> x \<in> S \<and> cmp x d = 0)"

definition set_drop :: "('d \<Rightarrow> 'd \<Rightarrow> int) \<Rightarrow> 'd \<Rightarrow> 'd set \<Rightarrow> 'd set" where
  "set_drop cmp d S = {x \<in> S. cmp x d \<noteq> 0}"

definition set_put :: "('d \<Rightarrow> 'd \<Rightarrow> int) \<Rightarrow> 'd \<Rightarrow> 'd set \<Rightarrow> 'd set" where
  "set_put cmp d S = insert d (set_drop cmp d S)"

text \<open>Moving nodes between buckets.\<close>

lemma empty_bucket:
  assumes "lh_shape lh" "lh_placed hash lh" "lh_num_nodes lh \<le> i" "i < length (lh_b lh)"
  shows "lh_b lh ! i = []"
proof (rule ccontr)
  assume "lh_b lh ! i \<noteq> []"
  then have "hd (lh_b lh ! i) \<in> set (lh_b lh ! i)" by simp
  then have "lh_slot lh (hash (fst (hd (lh_b lh ! i)))) = i" using assms(2,4) by (simp add: lh_placed_def)
  moreover have "lh_slot lh h < lh_num_nodes lh" for h
    using assms(1) slot_less [of "lh_p lh" "lh_pmax lh"] by (simp add: lh_shape_def lh_slot_def)
  ultimately show False using assms(3) by (metis not_less)
qed

lemma relocate:
  assumes "lh_wf hash cmp lh" "lh_hashes lh' = lh_hashes lh" "lh_compares lh' = lh_compares lh" "lh_shape lh'" "lh_placed hash lh'"
    "mset (concat (lh_b lh')) = mset (concat (lh_b lh))" "lh_num_items lh' = lh_num_items lh"
  shows "lh_wf hash cmp lh'" "set (lh_data lh') = set (lh_data lh)"
proof -
  have ds: "mset (lh_data lh') = mset (lh_data lh)" using arg_cong [OF assms(6), of "image_mset fst"] by (simp add: lh_data_def)
  have "length (lh_data lh') = length (lh_data lh)" using arg_cong [OF ds, of size] by simp
  then show "lh_wf hash cmp lh'" using assms(1-5,7) unique_perm [OF ds] by (simp add: lh_wf_def)
  show "set (lh_data lh') = set (lh_data lh)" using mset_eq_setD [OF ds] .
qed

lemma concat_empty_tail: "\<forall>i<length b. k \<le> i \<longrightarrow> b ! i = [] \<Longrightarrow> concat (take k b) = concat b"
proof -
  assume a: "\<forall>i<length b. k \<le> i \<longrightarrow> b ! i = []"
  have "\<forall>x\<in>set (drop k b). x = []" using a by (auto simp: in_set_conv_nth)
  then have "concat (drop k b) = []" by simp
  then show ?thesis by (metis append_Nil2 append_take_drop_id concat_append)
qed

lemma split_loop_run:
  "split_loop nni p l n2 = (filter (\<lambda>n. unat (snd n) mod nni = p) l, rev (filter (\<lambda>n. unat (snd n) mod nni \<noteq> p) l) @ n2)"
  by (induction l arbitrary: n2) simp_all

text \<open>The block of \<open>expand\<close>, and the table before and behind the move.\<close>

lemma expand_moves:
  assumes w: "lh_wf hash cmp lh"
    and "lh_b l1 = B" "lh_hashes l1 = lh_hashes lh" "lh_compares l1 = lh_compares lh" "lh_num_items l1 = lh_num_items lh"
    and sh: "lh_shape l1" and B: "concat B = concat (lh_b lh)" "\<And>i. i < length B \<Longrightarrow> B ! i = (if i < lh_num_nodes lh then lh_b lh ! i else [])"
    and slot: "\<And>h. lh_slot l1 h = (if lh_slot lh h = lh_p lh then unat h mod lh_num_alloc_nodes lh else lh_slot lh h)"
    and len: "lh_p lh + lh_pmax lh < length B"
    and split: "split_loop (lh_num_alloc_nodes lh) (lh_p lh) (B ! lh_p lh) [] = (n1, n2)"
  shows "lh_wf hash cmp (l1\<lparr>lh_b := B[lh_p lh + lh_pmax lh := n2, lh_p lh := n1]\<rparr>)"
    "set (lh_data (l1\<lparr>lh_b := B[lh_p lh + lh_pmax lh := n2, lh_p lh := n1]\<rparr>)) = set (lh_data lh)"
proof -
  let ?p = "lh_p lh" and ?q = "lh_p lh + lh_pmax lh" and ?nni = "lh_num_alloc_nodes lh"
  let ?l2 = "l1\<lparr>lh_b := B[?q := n2, ?p := n1]\<rparr>"
  have shp: "lh_num_nodes lh = ?q" "?p < lh_pmax lh" "?nni = 2 * lh_pmax lh" "?nni \<le> length (lh_b lh)" and pl: "lh_placed hash lh"
    using w by (auto simp: lh_wf_def lh_shape_def)
  have n: "n1 = filter (\<lambda>n. unat (snd n) mod ?nni = ?p) (B ! ?p)" "n2 = rev (filter (\<lambda>n. unat (snd n) mod ?nni \<noteq> ?p) (B ! ?p))"
    using split by (simp_all add: split_loop_run)
  have bp: "B ! ?p = lh_b lh ! ?p" "B ! ?q = []" using B(2) len shp by simp_all
  have at: "snd x = hash (fst x) \<and> lh_slot lh (hash (fst x)) = i" if "i < length B" "x \<in> set (B ! i)" for i x
  proof -
    have "i < lh_num_nodes lh" "x \<in> set (lh_b lh ! i)" using that B(2) [OF that(1)] by (auto split: if_splits)
    moreover from this(1) have "i < length (lh_b lh)" using shp by simp
    ultimately show ?thesis using pl unfolding lh_placed_def by blast
  qed
  have pq: "?p < length B" "?p \<noteq> ?q" using len shp by simp_all
  have "snd x = hash (fst x) \<and> lh_slot l1 (hash (fst x)) = i"
    if i: "i < length B" and x: "x \<in> set (B[?q := n2, ?p := n1] ! i)" for i x
  proof -
    consider "i = ?p" "x \<in> set n1" | "i = ?q" "x \<in> set n2" | "i \<noteq> ?p" "i \<noteq> ?q" "x \<in> set (B ! i)"
      using x i pq len by (cases "i = ?p"; cases "i = ?q") (simp_all add: nth_list_update)
    then show ?thesis
    proof cases
      case 1
      then show ?thesis using at [OF pq(1), of x] n(1) by (simp add: slot)
    next
      case 2
      then have "x \<in> set (B ! ?p)" "unat (snd x) mod ?nni \<noteq> ?p" using n(2) by auto
      moreover have "unat (hash (fst x)) mod ?nni = ?p \<or> unat (hash (fst x)) mod ?nni = ?q" if "lh_slot lh (hash (fst x)) = ?p"
        using slot_grow(2) [OF shp(2), of "unat (hash (fst x))"] that by (simp add: lh_slot_def shp(3))
      ultimately show ?thesis using at [OF pq(1), of x] 2 by (simp add: slot)
    next
      case 3
      then show ?thesis using at [OF i] by (simp add: slot)
    qed
  qed
  then have "lh_placed hash ?l2" by (simp add: lh_placed_def lh_slot_def)
  moreover have "mset n1 + mset n2 = mset (B ! ?p)" unfolding n by (simp add: multiset_partition [of _ "\<lambda>n. unat (snd n) mod ?nni = ?p", symmetric])
  then have "mset (concat (B[?q := n2, ?p := n1])) + (mset n1 + mset n2) = mset (concat B) + (mset n1 + mset n2)"
    using mset_concat_update [OF len, of n2] mset_concat_update [of ?p "B[?q := n2]" n1] pq bp(2) by (simp add: ac_simps)
  then have "mset (concat (B[?q := n2, ?p := n1])) = mset (concat B)" by (rule add_right_imp_eq)
  moreover have "lh_shape ?l2" using sh assms(2) by (simp add: lh_shape_def)
  ultimately show "lh_wf hash cmp ?l2" "set (lh_data ?l2) = set (lh_data lh)"
    using relocate [OF w, of ?l2] assms(3-5) B(1) by (simp_all add: lh_access_update)
qed

lemma alloc_Nil: "ddns_mem_alloc n [] = (got, m) \<Longrightarrow> m = []"
  by (simp add: ddns_mem_alloc_def split: if_splits)

lemma expand_run:
  assumes w: "lh_wf hash cmp lh"
  shows "\<exists>ok lh' m'. expand lh m = Inr (ok, lh', m') \<and> lh_wf hash cmp lh' \<and> set (lh_data lh') = set (lh_data lh) \<and>
    lh_num_items lh' = lh_num_items lh \<and> (m' \<noteq> [] \<longrightarrow> m \<noteq> []) \<and>
    (if ok then lh_error lh' = lh_error lh \<and> lh_num_nodes lh' = lh_num_nodes lh + 1
     else m \<noteq> [] \<and> lh_error lh' = lh_error lh + 1 \<and> lh_num_nodes lh' = lh_num_nodes lh)"
proof -
  let ?p = "lh_p lh" and ?n = "lh_pmax lh" and ?nni = "lh_num_alloc_nodes lh" and ?b = "lh_b lh"
  have shp: "lh_num_nodes lh = ?p + ?n" "?p < ?n" "?nni = 2 * ?n" "?nni \<le> length ?b" and pl: "lh_placed hash lh" and sh: "lh_shape lh"
    using w by (auto simp: lh_wf_def lh_shape_def)
  from sh obtain j where j: "?n = 8 * 2 ^ j" unfolding lh_shape_def by blast
  have empty: "?b ! i = []" if "lh_num_nodes lh \<le> i" "i < length ?b" for i using empty_bucket [OF sh pl that] .
  show ?thesis
  proof (cases "?n \<le> ?p + 1")
    case False
    let ?l1 = "lh\<lparr>lh_p := ?p + 1, lh_num_nodes := lh_num_nodes lh + 1\<rparr>"
    obtain n1 n2 where sp: "split_loop ?nni ?p (?b ! ?p) [] = (n1, n2)" by (cases "split_loop ?nni ?p (?b ! ?p) []")
    have "expand lh m = Inr (True, ?l1\<lparr>lh_b := ?b[?p + ?n := n2, ?p := n1]\<rparr>, m)"
      using False sp shp by (simp add: expand_def Let_def)
    moreover have "lh_slot ?l1 h = (if lh_slot lh h = ?p then unat h mod ?nni else lh_slot lh h)" for h
      using slot_grow(1) [OF shp(2), of "unat h"] False by (simp add: lh_slot_def shp(3))
    moreover have "lh_shape ?l1" using sh False by (simp add: lh_shape_def)
    moreover have "?b ! i = (if i < lh_num_nodes lh then ?b ! i else [])" if "i < length ?b" for i using empty [of i] that by simp
    ultimately show ?thesis
      using expand_moves [OF w, of ?l1 ?b n1 n2] shp sp by (intro exI [of _ True]) (simp add: lh_access_update)
  next
    case True
    show ?thesis
    proof (cases "ddns_mem_alloc (8 * (?nni * 2)) m")
      case (Pair got m')
      then have nil: "m' \<noteq> [] \<longrightarrow> m \<noteq> []" using alloc_Nil by blast
      show ?thesis
      proof (cases got)
        case False
        then have "m \<noteq> []" using Pair shp by (auto simp: ddns_mem_alloc_def)
        moreover have "expand lh m = Inr (False, lh\<lparr>lh_error := lh_error lh + 1\<rparr>, m')"
          using True Pair False by (simp add: expand_def Let_def)
        ultimately show ?thesis using w by (intro exI [of _ False]) simp
      next
        case got: True
        let ?B = "take ?nni ?b @ replicate (?nni * 2 - ?nni) []"
        let ?l1 = "lh\<lparr>lh_b := ?B, lh_pmax := ?nni, lh_num_alloc_nodes := ?nni * 2, lh_p := 0, lh_num_nodes := lh_num_nodes lh + 1\<rparr>"
        obtain n1 n2 where sp: "split_loop ?nni ?p (?B ! ?p) [] = (n1, n2)" by (cases "split_loop ?nni ?p (?B ! ?p) []")
        have "expand lh m = Inr (True, ?l1\<lparr>lh_b := ?B[?p + ?n := n2, ?p := n1]\<rparr>, m')"
          using True Pair got sp shp by (simp add: expand_def Let_def)
        moreover have "lh_slot ?l1 h = (if lh_slot lh h = ?p then unat h mod ?nni else lh_slot lh h)" for h
          using slot_grow(1) [OF shp(2), of "unat h"] True by (simp add: lh_slot_def shp(3) mult.commute)
        moreover have "lh_shape ?l1" using shp j True by (auto simp: lh_shape_def intro!: exI [of _ "Suc j"])
        moreover have "?B ! i = (if i < lh_num_nodes lh then ?b ! i else [])" if "i < length ?B" for i
          using that shp True empty [of i] by (auto simp: nth_append)
        moreover have "concat ?B = concat ?b" using concat_empty_tail [of ?b ?nni] empty shp by (simp add: concat_replicate_trivial)
        ultimately show ?thesis
          using expand_moves [OF w, of ?l1 ?B n1 n2] shp sp got nil by (intro exI [of _ True]) (simp add: lh_access_update)
      qed
    qed
  qed
qed

lemma contract_moves:
  assumes w: "lh_wf hash cmp lh"
    and "lh_b l1 = B" "lh_hashes l1 = lh_hashes lh" "lh_compares l1 = lh_compares lh" "lh_num_items l1 = lh_num_items lh"
    and sh: "lh_shape l1" and l: "l < length (lh_b lh)"
    and B: "mset (concat B) + mset (lh_b lh ! l) = mset (concat (lh_b lh))"
      "\<And>i. i < length B \<Longrightarrow> i < length (lh_b lh) \<and> B ! i = (if i = l then [] else lh_b lh ! i)"
    and slot: "\<And>h. lh_slot l1 h = (if lh_slot lh h = l then q else lh_slot lh h)"
    and q: "q < length B" "q \<noteq> l"
  shows "lh_wf hash cmp (l1\<lparr>lh_b := B[q := B ! q @ lh_b lh ! l]\<rparr>)"
    "set (lh_data (l1\<lparr>lh_b := B[q := B ! q @ lh_b lh ! l]\<rparr>)) = set (lh_data lh)"
proof -
  let ?l2 = "l1\<lparr>lh_b := B[q := B ! q @ lh_b lh ! l]\<rparr>"
  have pl: "lh_placed hash lh" using w by (simp add: lh_wf_def)
  have at: "snd x = hash (fst x) \<and> lh_slot lh (hash (fst x)) = i" if "i < length (lh_b lh)" "x \<in> set (lh_b lh ! i)" for i x
    using pl that unfolding lh_placed_def by blast
  have "snd x = hash (fst x) \<and> lh_slot l1 (hash (fst x)) = i"
    if i: "i < length B" and x: "x \<in> set (B[q := B ! q @ lh_b lh ! l] ! i)" for i x
  proof -
    consider "i = q" "x \<in> set (lh_b lh ! l)" | "x \<in> set (B ! i)"
      using x i q by (cases "i = q") auto
    then show ?thesis
    proof cases
      case 1
      then show ?thesis using at [OF l, of x] by (simp add: slot)
    next
      case 2
      then have "i \<noteq> l" "x \<in> set (lh_b lh ! i)" using B(2) [OF i] by (auto split: if_splits)
      then show ?thesis using at [of i x] B(2) [OF i] by (simp add: slot)
    qed
  qed
  then have "lh_placed hash ?l2" by (simp add: lh_placed_def lh_slot_def)
  moreover have "mset (concat (B[q := B ! q @ lh_b lh ! l])) + mset (B ! q) = mset (concat (lh_b lh)) + mset (B ! q)"
    using mset_concat_update [OF q(1), of "B ! q @ lh_b lh ! l"] unfolding B(1) [symmetric] by (simp add: ac_simps)
  then have "mset (concat (B[q := B ! q @ lh_b lh ! l])) = mset (concat (lh_b lh))" by (rule add_right_imp_eq)
  moreover have "lh_shape ?l2" using sh assms(2) by (simp add: lh_shape_def)
  ultimately show "lh_wf hash cmp ?l2" "set (lh_data ?l2) = set (lh_data lh)"
    using relocate [OF w, of ?l2] assms(3-5) by (simp_all add: lh_access_update)
qed

lemma contract_run:
  assumes w: "lh_wf hash cmp lh" and big: "MIN_NODES < lh_num_nodes lh"
  shows "\<exists>lh' m'. contract lh m = Inr (lh', m') \<and> lh_wf hash cmp lh' \<and> set (lh_data lh') = set (lh_data lh) \<and>
    lh_num_items lh' = lh_num_items lh \<and> lh_num_nodes lh' = lh_num_nodes lh - 1"
proof -
  let ?p = "lh_p lh" and ?n = "lh_pmax lh" and ?b = "lh_b lh"
  let ?l = "?p + ?n - 1"
  have shp: "lh_num_nodes lh = ?p + ?n" "?p < ?n" "lh_num_alloc_nodes lh = 2 * ?n" "2 * ?n \<le> length ?b"
    and pl: "lh_placed hash lh" and sh: "lh_shape lh"
    using w by (auto simp: lh_wf_def lh_shape_def)
  from sh obtain j where j: "?n = 8 * 2 ^ j" unfolding lh_shape_def by blast
  have l: "?l < length ?b" "\<not> length ?b \<le> ?l" using shp by simp_all
  have cl: "mset (concat (?b[?l := []])) + mset (?b ! ?l) = mset (concat ?b)" using mset_concat_update [OF l(1), of "[]"] by simp
  have at: "?b[?l := []] ! i = (if i = ?l then [] else ?b ! i)" if "i < length ?b" for i using that by (simp add: nth_list_update)
  show ?thesis
  proof (cases "?p = 0")
    case False
    let ?l1 = "lh\<lparr>lh_b := ?b[?l := []], lh_p := ?p - 1, lh_num_nodes := lh_num_nodes lh - 1\<rparr>"
    have "contract lh m = Inr (?l1\<lparr>lh_b := ?b[?l := [], ?p - 1 := ?b[?l := []] ! (?p - 1) @ ?b ! ?l]\<rparr>, m)"
      using False l(2) less_imp_diff_less [OF less_le_trans [OF shp(2)], of "length ?b" 1] shp by (simp add: contract_def Let_def)
    moreover have "lh_slot ?l1 h = (if lh_slot lh h = ?l then ?p - 1 else lh_slot lh h)" for h
      using slot_shrink [OF shp(2), of "unat h"] False by (simp add: lh_slot_def shp(3))
    moreover have "lh_shape ?l1" using sh False by (auto simp: lh_shape_def)
    moreover have "?p - 1 < length (?b[?l := []])" "?p - 1 \<noteq> ?l" using shp False by simp_all
    ultimately show ?thesis
      using contract_moves [OF w, of ?l1 "?b[?l := []]" ?l "?p - 1"] l(1) cl at by (simp add: lh_access_update)
  next
    case True
    have "j \<noteq> 0" using big shp(1) True j by (intro notI) (simp add: MIN_NODES_def)
    then obtain i where i: "j = Suc i" by (cases j) auto
    let ?k = "8 * 2 ^ i :: nat"
    have k: "?n = 2 * ?k" "0 < ?k" "?l = 2 * ?k - 1" using j i True by simp_all
    obtain got m' where Pair: "ddns_mem_alloc (8 * ?n) m = (got, m')" by fastforce
    let ?B = "if got then take ?n (?b[?l := []]) else ?b[?l := []]"
    let ?e = "if got then lh_error lh else lh_error lh + 1"
    let ?l1 = "lh\<lparr>lh_b := ?B, lh_error := ?e, lh_num_alloc_nodes := ?n, lh_pmax := ?k, lh_p := ?k - 1, lh_num_nodes := lh_num_nodes lh - 1\<rparr>"
    have len: "length ?B = (if got then ?n else length ?b)" using shp by simp
    have q: "?k - 1 < length ?B" "?k - 1 \<noteq> ?l" using k shp len by auto
    have run: "contract lh m = Inr (?l1\<lparr>lh_b := ?B[?k - 1 := ?B ! (?k - 1) @ ?b ! ?l]\<rparr>, m')"
      using True Pair q shp k by (cases got) (simp_all add: contract_def Let_def)
    have slot: "lh_slot ?l1 h = (if lh_slot lh h = ?l then ?k - 1 else lh_slot lh h)" for h
      using slot_shrink_0 [OF k(2), of "unat h"] True by (simp add: lh_slot_def shp(3) k(1,3))
    have shape: "lh_shape ?l1" using shp k True len by (auto simp: lh_shape_def)
    have "concat (take ?n (?b[?l := []])) = concat (?b[?l := []])"
      by (rule concat_empty_tail) (use empty_bucket [OF sh pl] shp True in \<open>auto simp: nth_list_update\<close>)
    then have mB: "mset (concat ?B) + mset (?b ! ?l) = mset (concat ?b)" using cl by simp
    have iB: "i < length ?b \<and> ?B ! i = (if i = ?l then [] else ?b ! i)" if "i < length ?B" for i
      using that at [of i] len shp by (cases got) simp_all
    have acc: "lh_b ?l1 = ?B" "lh_hashes ?l1 = lh_hashes lh" "lh_compares ?l1 = lh_compares lh" "lh_num_items ?l1 = lh_num_items lh"
      by (simp_all add: lh_access_update)
    note moves = contract_moves [OF w acc shape l(1) mB iB slot q]
    let ?l2 = "?l1\<lparr>lh_b := ?B[?k - 1 := ?B ! (?k - 1) @ ?b ! ?l]\<rparr>"
    have "lh_num_items ?l2 = lh_num_items lh" "lh_num_nodes ?l2 = lh_num_nodes lh - 1" by simp_all
    with run moves show ?thesis by blast
  qed
qed

text \<open>What the operations leave alone.\<close>

definition same_settings :: "('d, 's) lhash \<Rightarrow> ('d, 's) lhash \<Rightarrow> bool" where
  "same_settings lh lh' \<longleftrightarrow>
     lh_up_load lh' = lh_up_load lh \<and> lh_down_load lh' = lh_down_load lh \<and> lh_daw lh' = lh_daw lh"

lemma same_settings_simps [simp]:
  "same_settings lh lh" "same_settings lh (lh_error_update f lh') = same_settings lh lh'"
  "same_settings lh (lh_b_update g lh') = same_settings lh lh'" "same_settings lh (lh_num_items_update f lh') = same_settings lh lh'"
  "same_settings lh (lh_p_update f lh') = same_settings lh lh'" "same_settings lh (lh_pmax_update f lh') = same_settings lh lh'"
  "same_settings lh (lh_num_nodes_update f lh') = same_settings lh lh'"
  "same_settings lh (lh_num_alloc_nodes_update f lh') = same_settings lh lh'"
  "same_settings (lh_error_update f lh) lh' = same_settings lh lh'" "same_settings (lh_b_update g lh) lh' = same_settings lh lh'"
  "same_settings (lh_num_items_update f lh) lh' = same_settings lh lh'"
  by (simp_all add: same_settings_def)

lemma same_settings_trans: "same_settings l1 l2 \<Longrightarrow> same_settings l2 l3 \<Longrightarrow> same_settings l1 l3"
  by (simp add: same_settings_def)

lemma expand_keeps: "expand lh m = Inr (ok, lh', m') \<Longrightarrow> same_settings lh lh' \<and> (m = [] \<longrightarrow> m' = [])"
  unfolding expand_def
  by (cases "ddns_mem_alloc (8 * (lh_num_alloc_nodes lh * 2)) m"; cases "fst (ddns_mem_alloc (8 * (lh_num_alloc_nodes lh * 2)) m)";
      cases "lh_p lh + 1 \<ge> lh_pmax lh")
    (auto simp: Let_def split: if_split_asm prod.split_asm dest: alloc_Nil)

lemma contract_keeps: "contract lh m = Inr (lh', m') \<Longrightarrow> same_settings lh lh' \<and> (m = [] \<longrightarrow> m' = [])"
  unfolding contract_def
  by (cases "ddns_mem_alloc (8 * lh_pmax lh) m"; cases "fst (ddns_mem_alloc (8 * lh_pmax lh) m)"; cases "lh_p lh = 0")
    (auto simp: Let_def split: if_split_asm dest: alloc_Nil)

lemma place_keeps: "lh_place lh d m = Inr (r, lh', m') \<Longrightarrow> same_settings lh lh' \<and> (m = [] \<longrightarrow> m' = [])"
  by (auto simp: lh_place_def rbind_eq_Inr Let_def split: if_split_asm prod.split_asm dest: alloc_Nil)

lemma insert_keeps:
  assumes "OPENSSL_LH_insert lh d m = Inr (r, lh', m')"
  shows "same_settings lh lh' \<and> (m = [] \<longrightarrow> m' = [])"
proof -
  let ?lh = "lh\<lparr>lh_error := 0\<rparr>"
  let ?g = "if lh_up_load ?lh \<le> lh_num_items ?lh * LH_LOAD_MULT div lh_num_nodes ?lh then expand ?lh m else Inr (True, ?lh, m)"
  obtain ok l1 m1 where 1: "?g = Inr (ok, l1, m1)" and 2: "(if \<not> ok then Inr (None, l1, m1) else lh_place l1 d m1) = Inr (r, lh', m')"
    using assms unfolding OPENSSL_LH_insert_def Let_def rbind_eq_Inr split_paired_Ex prod.case by blast
  have "same_settings lh l1 \<and> (m = [] \<longrightarrow> m1 = [])" using 1 expand_keeps [of ?lh m ok l1 m1] by (auto split: if_split_asm)
  moreover have "same_settings l1 lh' \<and> (m1 = [] \<longrightarrow> m' = [])" using 2 place_keeps [of l1 d m1 r lh' m'] by (auto split: if_split_asm)
  ultimately show ?thesis using same_settings_trans by blast
qed

lemma delete_keeps:
  assumes "OPENSSL_LH_delete lh d m = Inr (r, lh', m')"
  shows "same_settings lh lh' \<and> (m = [] \<longrightarrow> m' = [])"
  using assms unfolding OPENSSL_LH_delete_def Let_def
  by (auto simp: rbind_eq_Inr split: if_split_asm dest!: contract_keeps)

text \<open>The order of a visit.\<close>

lemma doall_chain_fold: "doall_chain call l st = fold (\<lambda>n. call (fst n)) l st"
  by (induction l arbitrary: st) simp_all

lemma doall_loop_run: "i \<le> length b \<Longrightarrow> doall_loop call b i st = Inr (fold (\<lambda>n. call (fst n)) (concat (rev (take i b))) st)"
  by (induction i arbitrary: st) (simp_all add: doall_chain_fold take_Suc_conv_app_nth)

lemma concat_rev: "mset (concat (rev b)) = mset (concat b)" "length (concat (rev b)) = length (concat b)"
  by (induction b) (simp_all add: ac_simps)

lemma visited_data:
  assumes "lh_wf hash cmp lh"
  shows "mset (map fst (concat (rev (take (lh_num_nodes lh) (lh_b lh))))) = mset (lh_data lh)"
proof -
  have "\<forall>i<length (lh_b lh). lh_num_nodes lh \<le> i \<longrightarrow> lh_b lh ! i = []"
    using empty_bucket [of lh hash] assms by (auto simp: lh_wf_def)
  then have "concat (take (lh_num_nodes lh) (lh_b lh)) = concat (lh_b lh)" by (rule concat_empty_tail)
  then show ?thesis by (simp add: lh_data_def concat_rev)
qed

section \<open>Runs\<close>

datatype 'd lh_op = LH_put 'd | LH_del 'd

text \<open>An operation is marked when it took effect.\<close>

fun run_lh :: "('d, 's) lhash \<Rightarrow> 'd lh_op list \<Rightarrow> sched \<Rightarrow> fault + ('d, 's) lhash \<times> sched \<times> bool list" where
  "run_lh lh [] m = Inr (lh, m, [])"
| "run_lh lh (LH_put d # ops) m =
    rbind (OPENSSL_LH_insert lh d m) (\<lambda>(_, lh, m).
    rbind (run_lh lh ops m) (\<lambda>(lh', m', oks). Inr (lh', m', (lh_error lh = 0) # oks)))"
| "run_lh lh (LH_del d # ops) m =
    rbind (OPENSSL_LH_delete lh d m) (\<lambda>(_, lh, m).
    rbind (run_lh lh ops m) (\<lambda>(lh', m', oks). Inr (lh', m', True # oks)))"

fun run_set :: "('d \<Rightarrow> 'd \<Rightarrow> int) \<Rightarrow> 'd lh_op list \<Rightarrow> bool list \<Rightarrow> 'd set \<Rightarrow> 'd set" where
  "run_set cmp (LH_put d # ops) (ok # oks) S = run_set cmp ops oks (if ok then set_put cmp d S else S)"
| "run_set cmp (LH_del d # ops) (ok # oks) S = run_set cmp ops oks (set_drop cmp d S)"
| "run_set cmp _ _ S = S"

section \<open>The operations under their contract\<close>

locale lhash_contract =
  fixes hash :: "'d \<Rightarrow> u64" and cmp :: "'d \<Rightarrow> 'd \<Rightarrow> int"
  assumes cmp_refl: "cmp a a = 0"
    and cmp_sym: "cmp a b = 0 \<Longrightarrow> cmp b a = 0"
    and cmp_trans: "cmp a b = 0 \<Longrightarrow> cmp b c = 0 \<Longrightarrow> cmp a c = 0"
    and cmp_hash: "cmp a b = 0 \<Longrightarrow> hash a = hash b"
begin

lemma getrn_run:
  assumes "lh_wf hash cmp lh"
  obtains i k where "getrn lh d = Inr (i, k, hash d)" "i < length (lh_b lh)" "lh_slot lh (hash d) = i"
    "k \<le> length (lh_b lh ! i)"
    "k < length (lh_b lh ! i) \<Longrightarrow> cmp (fst (lh_b lh ! i ! k)) d = 0 \<and> snd (lh_b lh ! i ! k) = hash d"
    "k = length (lh_b lh ! i) \<Longrightarrow> \<forall>x\<in>set (lh_data lh). cmp x d \<noteq> 0"
proof -
  let ?i = "lh_slot lh (hash d)"
  let ?k = "chain_pos (lh_compares lh) (hash d) d (lh_b lh ! ?i)"
  from assms have w: "lh_hashes lh = hash" "lh_compares lh = cmp" "lh_shape lh" "lh_placed hash lh" by (simp_all add: lh_wf_def)
  have i: "?i < length (lh_b lh)"
    using w(3) slot_less [of "lh_p lh" "lh_pmax lh" "unat (hash d)"] by (auto simp: lh_shape_def lh_slot_def)
  then have run: "getrn lh d = Inr (?i, ?k, hash d)" "?k \<le> length (lh_b lh ! ?i)"
    using w(1) by (simp_all add: getrn_def lh_slot_def Let_def chain_pos_le)
  have found: "cmp (fst (lh_b lh ! ?i ! ?k)) d = 0 \<and> snd (lh_b lh ! ?i ! ?k) = hash d" if "?k < length (lh_b lh ! ?i)"
  proof -
    have c: "cmp (fst (lh_b lh ! ?i ! ?k)) d = 0" using chain_pos_found that by (metis w(2))
    moreover have "snd (lh_b lh ! ?i ! ?k) = hash (fst (lh_b lh ! ?i ! ?k))"
      using w(4) i nth_mem [OF that] unfolding lh_placed_def by blast
    ultimately show ?thesis using cmp_hash by metis
  qed
  have "\<forall>x\<in>set (lh_data lh). cmp x d \<noteq> 0" if none: "?k = length (lh_b lh ! ?i)"
  proof
    fix x assume "x \<in> set (lh_data lh)"
    then obtain j n where n: "j < length (lh_b lh)" "n \<in> set (lh_b lh ! j)" "fst n = x"
      by (auto simp: lh_data_def in_set_conv_nth [of _ "lh_b lh"])
    then have p: "snd n = hash x" "lh_slot lh (hash x) = j" using w(4) unfolding lh_placed_def by blast+
    show "cmp x d \<noteq> 0"
    proof
      assume z: "cmp x d = 0"
      then have "hash x = hash d" by (rule cmp_hash)
      then have "n \<in> set (lh_b lh ! ?i)" "snd n = hash d" using n p by simp_all
      from chain_pos_none [OF none this] show False using z w(2) n(3) by simp
    qed
  qed
  then show thesis using that run i found by blast
qed

lemma retrieve_run:
  assumes "lh_wf hash cmp lh"
  shows "\<exists>r. OPENSSL_LH_retrieve lh d = Inr (r, lh\<lparr>lh_error := 0\<rparr>) \<and> finds cmp (set (lh_data lh)) d r"
proof -
  have e: "(if lh_error lh \<noteq> 0 then lh\<lparr>lh_error := 0\<rparr> else lh) = lh\<lparr>lh_error := 0\<rparr>" by simp
  have "lh_wf hash cmp (lh\<lparr>lh_error := 0\<rparr>)" using assms by simp
  then obtain i k where g: "getrn (lh\<lparr>lh_error := 0\<rparr>) d = Inr (i, k, hash d)" "i < length (lh_b lh)" "k \<le> length (lh_b lh ! i)"
    "k < length (lh_b lh ! i) \<Longrightarrow> cmp (fst (lh_b lh ! i ! k)) d = 0" "k = length (lh_b lh ! i) \<Longrightarrow> \<forall>x\<in>set (lh_data lh). cmp x d \<noteq> 0"
    by (rule getrn_run [where d = d]) simp
  have "finds cmp (set (lh_data lh)) d (if k = length (lh_b lh ! i) then None else Some (fst (lh_b lh ! i ! k)))"
    using g(2-5) node_data [of i lh k] by (simp add: finds_def)
  then show ?thesis unfolding OPENSSL_LH_retrieve_def e Let_def g(1) by (simp split: if_splits)
qed

lemma unique_new: "unique_for cmp ds \<Longrightarrow> \<forall>x\<in>set ds. cmp x d \<noteq> 0 \<Longrightarrow> unique_for cmp (d # ds)"
  using cmp_refl cmp_sym unfolding unique_for_def by auto

lemma unique_swap:
  assumes "unique_for cmp (x # rest)" "cmp x d = 0"
  shows "unique_for cmp (d # rest)" "set (d # rest) = set_put cmp d (set (x # rest))"
proof -
  have far: "cmp y d \<noteq> 0" if "y \<in> set rest" for y
  proof
    assume "cmp y d = 0"
    then have "cmp y x = 0" using cmp_trans cmp_sym [OF assms(2)] by blast
    then show False using assms(1) that by (auto simp: unique_for_def)
  qed
  then have "d \<notin> set rest" "\<forall>y\<in>set rest. cmp d y \<noteq> 0" using cmp_refl cmp_sym by blast+
  then show "unique_for cmp (d # rest)" using assms(1) far by (auto simp: unique_for_def)
  show "set (d # rest) = set_put cmp d (set (x # rest))" using far assms(2) by (auto simp: set_put_def set_drop_def)
qed

lemma place_run:
  assumes w: "lh_wf hash cmp lh"
  shows "\<exists>r lh' m'. lh_place lh d m = Inr (r, lh', m') \<and> lh_wf hash cmp lh' \<and> finds cmp (set (lh_data lh)) d r \<and>
    lh_num_nodes lh' = lh_num_nodes lh \<and>
    (if lh_error lh' = lh_error lh then set (lh_data lh') = set_put cmp d (set (lh_data lh))
     else r = None \<and> lh_error lh' = lh_error lh + 1 \<and> m \<noteq> [] \<and> set (lh_data lh') = set (lh_data lh))"
proof -
  obtain i k where g: "getrn lh d = Inr (i, k, hash d)" "i < length (lh_b lh)" "lh_slot lh (hash d) = i" "k \<le> length (lh_b lh ! i)"
    "k < length (lh_b lh ! i) \<Longrightarrow> cmp (fst (lh_b lh ! i ! k)) d = 0 \<and> snd (lh_b lh ! i ! k) = hash d"
    "k = length (lh_b lh ! i) \<Longrightarrow> \<forall>x\<in>set (lh_data lh). cmp x d \<noteq> 0"
    using getrn_run [OF w, of d] by blast
  let ?ns = "lh_b lh ! i" and ?S = "set (lh_data lh)"
  have u: "unique_for cmp (lh_data lh)" and pl: "lh_placed hash lh" and items: "lh_num_items lh = length (lh_data lh)"
    and sh: "lh_shape lh" and fs: "lh_hashes lh = hash" "lh_compares lh = cmp" using w by (simp_all add: lh_wf_def)
  have here: "snd n = hash (fst n) \<and> lh_slot lh (hash (fst n)) = i" if "n \<in> set ?ns" for n
    using pl g(2) that by (auto simp: lh_placed_def)
  show ?thesis
  proof (cases "k = length ?ns")
    case True
    let ?lh = "lh\<lparr>lh_b := (lh_b lh)[i := ?ns @ [(d, hash d)]], lh_num_items := lh_num_items lh + 1\<rparr>"
    have none: "\<forall>x\<in>?S. cmp x d \<noteq> 0" using g(6) [OF True] .
    have ds: "mset (lh_data ?lh) = mset (d # lh_data lh)"
      using mset_data_update [OF g(2), of "?ns @ [(d, hash d)]"] by (simp add: lh_data_def)
    have "unique_for cmp (d # lh_data lh)" by (rule unique_new [OF u none])
    then have "unique_for cmp (lh_data ?lh)" unfolding unique_perm [OF ds] .
    moreover have "snd n = hash (fst n) \<and> lh_slot lh (hash (fst n)) = i" if "n \<in> set (?ns @ [(d, hash d)])" for n
      using here [of n] that g(3) by (cases "n \<in> set ?ns") simp_all
    then have "lh_placed hash ?lh"
      using placed_update [OF pl, of "?ns @ [(d, hash d)]" i] by (simp add: lh_placed_def lh_slot_def)
    moreover have "length (lh_data ?lh) = length (lh_data lh) + 1" using arg_cong [OF ds, of size] by simp
    ultimately have "lh_wf hash cmp ?lh" using sh fs items by (simp add: lh_wf_def lh_access_update lh_shape_def)
    moreover have "set (lh_data ?lh) = set_put cmp d ?S" using mset_eq_setD [OF ds] none by (auto simp: set_put_def set_drop_def)
    moreover have "finds cmp ?S d None" using none by (simp add: finds_def)
    moreover have run: "lh_place lh d m = (case ddns_mem_alloc 24 m of (got, m) \<Rightarrow>
        if \<not> got then Inr (None, lh\<lparr>lh_error := lh_error lh + 1\<rparr>, m) else Inr (None, ?lh, m))"
      unfolding lh_place_def g(1) rbind_simps prod.case Let_def if_P [OF True] ..
    moreover have "m \<noteq> []" if "ddns_mem_alloc 24 m = (False, m')" for m' using that by (auto simp: ddns_mem_alloc_def)
    ultimately show ?thesis
      using w by (cases "ddns_mem_alloc 24 m"; cases "fst (ddns_mem_alloc 24 m)") simp_all
  next
    case False
    then have k: "k < length ?ns" using g(4) by simp
    let ?x = "fst (?ns ! k)" and ?l = "?ns[k := (d, snd (?ns ! k))]"
    let ?lh = "lh\<lparr>lh_b := (lh_b lh)[i := ?l]\<rparr>"
    have x: "cmp ?x d = 0" "snd (?ns ! k) = hash d" "?x \<in> ?S" using g(5) [OF k] node_data [OF g(2) k] by auto
    have "mset ?l + {#?ns ! k#} = mset ?ns + {#(d, hash d)#}"
      using k x(2) by (simp add: mset_update)
    from arg_cong [OF this, of "image_mset fst"] have l: "mset (map fst ?l) + {#?x#} = mset (map fst ?ns) + {#d#}" by simp
    have ds: "mset (lh_data ?lh) + {#?x#} = mset (d # lh_data lh)"
      using mset_exchange [OF mset_data_update [OF g(2), of ?l] l] by simp
    obtain rest where rest: "mset (lh_data lh) = mset (?x # rest)"
      using x(3) by (metis mset.simps(2) multi_member_split set_mset_mset ex_mset)
    have ds': "mset (lh_data ?lh) = mset (d # rest)" using ds rest by simp
    have "unique_for cmp (?x # rest)" using u unique_perm [OF rest] by simp
    then have "unique_for cmp (d # rest)" "set (d # rest) = set_put cmp d (set (?x # rest))"
      using unique_swap [OF _ x(1)] by blast+
    moreover have "set (?x # rest) = ?S" using mset_eq_setD [OF rest] ..
    ultimately have "unique_for cmp (lh_data ?lh)" "set (lh_data ?lh) = set_put cmp d ?S"
      using unique_perm [OF ds'] mset_eq_setD [OF ds'] by simp_all
    moreover have "snd n = hash (fst n) \<and> lh_slot lh (hash (fst n)) = i" if "n \<in> set ?l" for n
    proof -
      have "n = (d, snd (?ns ! k)) \<or> n \<in> set ?ns" using that set_update_subset_insert [of ?ns k] by blast
      then show ?thesis using here [of n] g(3) x(2) by (elim disjE) simp_all
    qed
    then have "lh_placed hash ?lh" by (rule placed_update [OF pl])
    moreover have "length (lh_data ?lh) = length (lh_data lh)" using arg_cong [OF ds, of size] by simp
    ultimately have "lh_wf hash cmp ?lh" "set (lh_data ?lh) = set_put cmp d ?S"
      using sh fs items by (simp_all add: lh_wf_def lh_access_update lh_shape_def)
    moreover have "lh_place lh d m = Inr (Some ?x, ?lh, m)"
      unfolding lh_place_def g(1) rbind_simps prod.case Let_def if_not_P [OF False] ..
    moreover have "finds cmp ?S d (Some ?x)" using x by (simp add: finds_def)
    ultimately show ?thesis by simp
  qed
qed

lemma items_card: "lh_wf hash cmp lh \<Longrightarrow> lh_num_items lh = card (set (lh_data lh))"
  by (simp add: lh_wf_def unique_for_def distinct_card)

lemma insert_run:
  assumes w: "lh_wf hash cmp lh"
  shows "\<exists>r lh' m'. OPENSSL_LH_insert lh d m = Inr (r, lh', m') \<and> lh_wf hash cmp lh' \<and>
    (if lh_error lh' = 0 then finds cmp (set (lh_data lh)) d r \<and> set (lh_data lh') = set_put cmp d (set (lh_data lh))
     else r = None \<and> m \<noteq> [] \<and> set (lh_data lh') = set (lh_data lh)) \<and>
    (lh_up_load lh = UP_LOAD \<longrightarrow> lh_num_items lh \<le> 2 * lh_num_nodes lh \<longrightarrow> lh_num_items lh' \<le> 2 * lh_num_nodes lh')"
proof -
  let ?lh = "lh\<lparr>lh_error := 0\<rparr>" and ?S = "set (lh_data lh)"
  have w0: "lh_wf hash cmp ?lh" using w by simp
  have nn: "0 < lh_num_nodes lh" using w by (auto simp: lh_wf_def lh_shape_def)
  let ?full = "lh_up_load lh \<le> lh_num_items lh * LH_LOAD_MULT div lh_num_nodes lh"
  have "\<exists>ok l1 m1. (if ?full then expand ?lh m else Inr (True, ?lh, m)) = Inr (ok, l1, m1) \<and> lh_wf hash cmp l1 \<and>
      set (lh_data l1) = ?S \<and> (ok \<longrightarrow> lh_error l1 = 0 \<and> lh_num_nodes l1 = (if ?full then lh_num_nodes lh + 1 else lh_num_nodes lh) \<and> (m1 \<noteq> [] \<longrightarrow> m \<noteq> [])) \<and>
      (\<not> ok \<longrightarrow> m \<noteq> [] \<and> lh_error l1 = 1 \<and> lh_num_nodes l1 = lh_num_nodes lh)"
    using expand_run [OF w0, of m] w0 by (cases ?full) (auto split: if_splits)
  then obtain ok l1 m1 where e: "(if ?full then expand ?lh m else Inr (True, ?lh, m)) = Inr (ok, l1, m1)" "lh_wf hash cmp l1"
      "set (lh_data l1) = ?S" "ok \<Longrightarrow> lh_error l1 = 0 \<and> lh_num_nodes l1 = (if ?full then lh_num_nodes lh + 1 else lh_num_nodes lh) \<and> (m1 \<noteq> [] \<longrightarrow> m \<noteq> [])"
      "\<not> ok \<Longrightarrow> m \<noteq> [] \<and> lh_error l1 = 1 \<and> lh_num_nodes l1 = lh_num_nodes lh" by blast
  have run: "OPENSSL_LH_insert lh d m = (if \<not> ok then Inr (None, l1, m1) else lh_place l1 d m1)"
    using e(1) by (simp add: OPENSSL_LH_insert_def)
  show ?thesis
  proof (cases ok)
    case False
    then show ?thesis using run e(2,3,5) items_card [OF w] items_card [OF e(2)] by simp
  next
    case True
    obtain r lh' m' where p: "lh_place l1 d m1 = Inr (r, lh', m')" "lh_wf hash cmp lh'" "finds cmp ?S d r" "lh_num_nodes lh' = lh_num_nodes l1"
      "if lh_error lh' = 0 then set (lh_data lh') = set_put cmp d ?S else r = None \<and> m1 \<noteq> [] \<and> set (lh_data lh') = ?S"
      using place_run [OF e(2), of d m1] e(3) e(4) [OF True] by (auto split: if_splits)
    have "lh_num_items lh' \<le> lh_num_items lh + 1"
      using p(5) card_insert_le_m1 [of "card ?S + 1" "set_drop cmp d ?S" d] card_mono [of ?S "set_drop cmp d ?S"]
      unfolding items_card [OF w] items_card [OF p(2)] by (auto simp: set_put_def set_drop_def split: if_splits)
    moreover have "lh_num_items lh + 1 \<le> 2 * lh_num_nodes l1" if "lh_up_load lh = UP_LOAD" "lh_num_items lh \<le> 2 * lh_num_nodes lh"
    proof (cases ?full)
      case True
      then show ?thesis using e(4) [OF \<open>ok\<close>] that(2) by simp
    next
      case False
      then have "lh_num_items lh * 256 < 512 * lh_num_nodes lh"
        using that(1) nn by (simp add: UP_LOAD_def LH_LOAD_MULT_def div_less_iff_less_mult not_le)
      then show ?thesis using e(4) [OF \<open>ok\<close>] False by simp
    qed
    ultimately show ?thesis using run True p e(4) by fastforce
  qed
qed

lemma delete_run:
  assumes w: "lh_wf hash cmp lh"
  shows "\<exists>r lh' m'. OPENSSL_LH_delete lh d m = Inr (r, lh', m') \<and> lh_wf hash cmp lh' \<and>
    finds cmp (set (lh_data lh)) d r \<and> set (lh_data lh') = set_drop cmp d (set (lh_data lh)) \<and>
    (lh_down_load lh = DOWN_LOAD \<longrightarrow> lh_num_items lh \<le> 2 * lh_num_nodes lh \<longrightarrow> lh_num_items lh' \<le> 2 * lh_num_nodes lh')"
proof -
  let ?lh = "lh\<lparr>lh_error := 0\<rparr>" and ?S = "set (lh_data lh)"
  have w0: "lh_wf hash cmp ?lh" using w by simp
  obtain i k where g: "getrn ?lh d = Inr (i, k, hash d)" "i < length (lh_b lh)" "k \<le> length (lh_b lh ! i)"
    "k < length (lh_b lh ! i) \<Longrightarrow> cmp (fst (lh_b lh ! i ! k)) d = 0"
    "k = length (lh_b lh ! i) \<Longrightarrow> \<forall>x\<in>?S. cmp x d \<noteq> 0"
    by (rule getrn_run [OF w0, of d]) simp
  let ?ns = "lh_b lh ! i"
  show ?thesis
  proof (cases "k = length ?ns")
    case True
    then have "OPENSSL_LH_delete lh d m = Inr (None, ?lh, m)"
      unfolding OPENSSL_LH_delete_def Let_def g(1) rbind_simps prod.case by simp
    moreover have "finds cmp ?S d None" "set_drop cmp d ?S = ?S" using g(5) [OF True] by (auto simp: finds_def set_drop_def)
    ultimately show ?thesis using w0 by simp
  next
    case False
    then have k: "k < length ?ns" using g(3) by simp
    let ?x = "fst (?ns ! k)" and ?l = "take k ?ns @ drop (k + 1) ?ns"
    let ?l1 = "?lh\<lparr>lh_b := (lh_b lh)[i := ?l], lh_num_items := lh_num_items lh - 1\<rparr>"
    have x: "cmp ?x d = 0" "?x \<in> ?S" using g(4) [OF k] node_data [OF g(2) k] by auto
    have "?ns = take k ?ns @ ?ns ! k # drop (k + 1) ?ns" using id_take_nth_drop [OF k] by simp
    then have l: "mset (map fst ?ns) = mset (map fst ?l) + {#?x#}" "set ?l \<subseteq> set ?ns"
      using set_take_subset [of k ?ns] set_drop_subset [of "k + 1" ?ns]
      by (metis (no_types, lifting) map_append list.map(2) mset_append mset.simps(2) add_mset_add_single union_mset_add_mset_right)
        (simp add: set_take_subset set_drop_subset)
    have "mset (lh_data ?l1) + mset (map fst ?ns) = mset (lh_data lh) + mset (map fst ?l)"
      using mset_data_update [OF g(2), of ?l] by (simp add: lh_data_def)
    then have "mset (?x # lh_data ?l1) + mset (map fst ?l) = mset (lh_data lh) + mset (map fst ?l)" unfolding l(1) by (simp add: ac_simps)
    then have ds: "mset (lh_data lh) = mset (?x # lh_data ?l1)" by (metis add_right_imp_eq)
    have u: "unique_for cmp (?x # lh_data ?l1)" using w unfolding lh_wf_def unique_perm [OF ds] by blast
    have S: "?S = insert ?x (set (lh_data ?l1))" using mset_eq_setD [OF ds] by simp
    have far: "cmp y d \<noteq> 0" if "y \<in> set (lh_data ?l1)" for y
    proof
      assume "cmp y d = 0"
      then have "cmp y ?x = 0" using cmp_trans cmp_sym [OF x(1)] by blast
      then show False using u that by (auto simp: unique_for_def)
    qed
    then have drop: "set (lh_data ?l1) = set_drop cmp d ?S" using x(1) unfolding S by (auto simp: set_drop_def)
    have pl: "lh_placed hash lh" using w by (simp add: lh_wf_def)
    have "snd n = hash (fst n) \<and> lh_slot lh (hash (fst n)) = i" if "n \<in> set ?l" for n
      using pl g(2) that l(2) unfolding lh_placed_def by blast
    then have "lh_placed hash (lh\<lparr>lh_b := (lh_b lh)[i := ?l]\<rparr>)" by (rule placed_update [OF pl])
    then have "lh_placed hash ?l1" by (simp add: lh_placed_def lh_slot_def)
    moreover have "length (lh_data lh) = length (lh_data ?l1) + 1" using arg_cong [OF ds, of size] by simp
    moreover have "unique_for cmp (lh_data ?l1)" using u by (simp add: unique_for_def)
    ultimately have w1: "lh_wf hash cmp ?l1" using w by (auto simp: lh_wf_def lh_access_update lh_shape_def)
    let ?c = "lh_num_nodes lh > MIN_NODES \<and> lh_down_load lh \<ge> (lh_num_items lh - 1) * LH_LOAD_MULT div lh_num_nodes lh"
    have "\<exists>lh' m'. (if ?c then contract ?l1 m else Inr (?l1, m)) = Inr (lh', m') \<and> lh_wf hash cmp lh' \<and> set (lh_data lh') = set (lh_data ?l1) \<and>
      lh_num_items lh' = lh_num_items lh - 1 \<and> lh_num_nodes lh' = (if ?c then lh_num_nodes lh - 1 else lh_num_nodes lh)"
      using contract_run [OF w1, of m] w1 by auto
    then obtain lh' m' where c: "(if ?c then contract ?l1 m else Inr (?l1, m)) = Inr (lh', m')" "lh_wf hash cmp lh'"
      "set (lh_data lh') = set (lh_data ?l1)" "lh_num_items lh' = lh_num_items lh - 1"
      "lh_num_nodes lh' = (if ?c then lh_num_nodes lh - 1 else lh_num_nodes lh)" by blast
    let ?l0 = "?lh\<lparr>lh_b := (lh_b ?lh)[i := take k (lh_b ?lh ! i) @ drop (k + 1) (lh_b ?lh ! i)], lh_num_items := lh_num_items ?lh - 1\<rparr>"
    have no: "k \<noteq> length (lh_b ?lh ! i)" and l0: "?l0 = ?l1" using False by simp_all
    have test: "lh_num_nodes ?l1 > MIN_NODES \<and> lh_down_load ?l1 \<ge> lh_num_items ?l1 * LH_LOAD_MULT div lh_num_nodes ?l1 \<longleftrightarrow> ?c" by simp
    have "OPENSSL_LH_delete lh d m = Inr (Some (fst (lh_b ?lh ! i ! k)), lh', m')"
      unfolding OPENSSL_LH_delete_def Let_def g(1) rbind_simps prod.case if_not_P [OF no] l0 test c(1) ..
    moreover have "lh_num_items lh' \<le> 2 * lh_num_nodes lh'" if "lh_down_load lh = DOWN_LOAD" "lh_num_items lh \<le> 2 * lh_num_nodes lh"
    proof (cases ?c)
      case True
      then have "(lh_num_items lh - 1) * 256 div lh_num_nodes lh < 257" "16 < lh_num_nodes lh"
        using that(1) by (simp_all add: DOWN_LOAD_def LH_LOAD_MULT_def MIN_NODES_def)
      then have "(lh_num_items lh - 1) * 256 < 257 * lh_num_nodes lh" by (simp add: div_less_iff_less_mult)
      then show ?thesis using c(4,5) True \<open>16 < lh_num_nodes lh\<close> by simp
    qed (use c(4,5) that(2) in auto)
    moreover have "finds cmp ?S d (Some ?x)" using x by (simp add: finds_def)
    ultimately show ?thesis using c(2,3) drop by auto
  qed
qed

lemma run_lh_run:
  assumes "lh_wf hash cmp lh" "lh_up_load lh = UP_LOAD" "lh_down_load lh = DOWN_LOAD" "lh_num_items lh \<le> 2 * lh_num_nodes lh"
  shows "\<exists>lh' m' oks. run_lh lh ops m = Inr (lh', m', oks) \<and> lh_wf hash cmp lh' \<and> lh_daw lh' = lh_daw lh \<and>
    (m = [] \<longrightarrow> oks = replicate (length ops) True) \<and> lh_num_items lh' \<le> 2 * lh_num_nodes lh' \<and>
    set (lh_data lh') = run_set cmp ops oks (set (lh_data lh))"
  using assms
proof (induction ops arbitrary: lh m)
  case Nil
  then show ?case by simp
next
  case (Cons op ops)
  show ?case
  proof (cases op)
    case (LH_put d)
    obtain r l1 m1 where i: "OPENSSL_LH_insert lh d m = Inr (r, l1, m1)" "lh_wf hash cmp l1"
      "if lh_error l1 = 0 then set (lh_data l1) = set_put cmp d (set (lh_data lh)) else m \<noteq> [] \<and> set (lh_data l1) = set (lh_data lh)"
      "lh_num_items l1 \<le> 2 * lh_num_nodes l1"
      using insert_run [OF Cons.prems(1), of d m] Cons.prems(2,4) by (auto split: if_splits)
    note k = insert_keeps [OF i(1), unfolded same_settings_def]
    obtain l2 m2 oks where "run_lh l1 ops m1 = Inr (l2, m2, oks)" "lh_wf hash cmp l2" "lh_daw l2 = lh_daw l1"
      "m1 = [] \<longrightarrow> oks = replicate (length ops) True" "lh_num_items l2 \<le> 2 * lh_num_nodes l2"
      "set (lh_data l2) = run_set cmp ops oks (set (lh_data l1))"
      using Cons.IH [OF i(2), of m1] k Cons.prems(2,3) i(4) by auto
    then show ?thesis using i(1,3) k LH_put by (cases "lh_error l1 = 0") simp_all
  next
    case (LH_del d)
    obtain r l1 m1 where i: "OPENSSL_LH_delete lh d m = Inr (r, l1, m1)" "lh_wf hash cmp l1"
      "set (lh_data l1) = set_drop cmp d (set (lh_data lh))" "lh_num_items l1 \<le> 2 * lh_num_nodes l1"
      using delete_run [OF Cons.prems(1), of d m] Cons.prems(3,4) by auto
    note k = delete_keeps [OF i(1), unfolded same_settings_def]
    obtain l2 m2 oks where "run_lh l1 ops m1 = Inr (l2, m2, oks)" "lh_wf hash cmp l2" "lh_daw l2 = lh_daw l1"
      "m1 = [] \<longrightarrow> oks = replicate (length ops) True" "lh_num_items l2 \<le> 2 * lh_num_nodes l2"
      "set (lh_data l2) = run_set cmp ops oks (set (lh_data l1))"
      using Cons.IH [OF i(2), of m1] k Cons.prems(2,3) i(4) by auto
    then show ?thesis using i(1,3) k LH_del by simp
  qed
qed

lemma visit_run:
  assumes "lh_wf hash cmp lh" "lh_daw lh = Some daw"
  shows "\<exists>ds. distinct ds \<and> set ds = set (lh_data lh) \<and>
    (\<forall>func st. OPENSSL_LH_doall (Some lh) func st = Inr (fold (\<lambda>d. daw d func) ds st))"
    "OPENSSL_LH_free (Some lh) = Inr (lh_num_items lh + 2)"
proof -
  let ?ns = "concat (rev (take (lh_num_nodes lh) (lh_b lh)))"
  have n: "lh_num_nodes lh \<le> length (lh_b lh)" using assms(1) by (auto simp: lh_wf_def lh_shape_def)
  note v = visited_data [OF assms(1)]
  have "distinct (map fst ?ns)" using assms(1) mset_eq_imp_distinct_iff [OF v] by (simp add: lh_wf_def unique_for_def)
  moreover have "set (map fst ?ns) = set (lh_data lh)" using mset_eq_setD [OF v] .
  moreover have "OPENSSL_LH_doall (Some lh) func st = Inr (fold (\<lambda>d. daw d func) (map fst ?ns) st)" for func st
    using doall_loop_run [OF n] by (simp add: OPENSSL_LH_doall_def doall_util_fn_def assms(2) fold_map comp_def)
  ultimately show "\<exists>ds. distinct ds \<and> set ds = set (lh_data lh) \<and>
    (\<forall>func st. OPENSSL_LH_doall (Some lh) func st = Inr (fold (\<lambda>d. daw d func) ds st))" by blast
  have "length ?ns = length (lh_data lh)" using arg_cong [OF v, of size] by simp
  then show "OPENSSL_LH_free (Some lh) = Inr (lh_num_items lh + 2)"
    using n assms(1) by (simp add: OPENSSL_LH_free_def OPENSSL_LH_flush_def lh_wf_def concat_rev)
qed

lemma new_wf:
  assumes "OPENSSL_LH_new sg as_text (Some hash) (Some cmp) m0 = (Some new, m1)"
    and "lh = OPENSSL_LH_set_thunks new (\<lambda>d h. h d) (\<lambda>a b c. c a b) daw daaw"
  shows "lh_wf hash cmp lh" "lh_up_load lh = UP_LOAD" "lh_down_load lh = DOWN_LOAD" "lh_num_items lh = 0" "lh_data lh = []" "lh_daw lh = Some daw"
proof -
  have lh: "lh = \<lparr>lh_b = replicate MIN_NODES [], lh_comp = cmp, lh_hash = hash, lh_hashw = Some (\<lambda>d h. h d),
      lh_compw = Some (\<lambda>a b c. c a b), lh_daw = Some daw, lh_daaw = Some daaw, lh_num_nodes = MIN_NODES div 2,
      lh_num_alloc_nodes = MIN_NODES, lh_p = 0, lh_pmax = MIN_NODES div 2, lh_up_load = UP_LOAD,
      lh_down_load = DOWN_LOAD, lh_num_items = 0, lh_error = 0\<rparr>"
    using assms by (auto simp: OPENSSL_LH_new_def OPENSSL_LH_set_thunks_def split: prod.splits if_splits)
  have "concat (replicate n []) = ([] :: 'x list)" for n by (induction n) simp_all
  then show data: "lh_data lh = []" unfolding lh lh_data_def by simp
  have "\<exists>j. (8 :: nat) = 8 * 2 ^ j" by (rule exI [of _ 0]) simp
  moreover have "lh_hashes lh = hash" "lh_compares lh = cmp"
    by (intro ext, simp add: lh lh_hashes_def, intro ext, simp add: lh lh_compares_def)
  ultimately show "lh_wf hash cmp lh" unfolding lh_wf_def data
    by (simp add: lh lh_shape_def lh_placed_def unique_for_def MIN_NODES_def)
qed (use assms in \<open>auto simp: OPENSSL_LH_new_def OPENSSL_LH_set_thunks_def split: prod.splits if_splits\<close>)

end

section \<open>The functions of the library satisfy the contract\<close>

lemma strcmp_eq: "strcmp a b = 0 \<longleftrightarrow> c_str a = c_str b"
proof (induction a b rule: strcmp.induct)
  case (1 b)
  then show ?case by (cases b) (simp_all add: c_str_def)
next
  case (2 c a b)
  then show ?case by (cases b) (auto simp: c_str_def)
qed

lemma strhash_c_str: "LH_strhash_loop sg n ret (c_str s) = LH_strhash_loop sg n ret s"
  by (induction s arbitrary: n ret) (simp_all add: c_str_def)

lemma c_at_c_str: "c_at (c_str s) = c_at s"
  by (cases s) (simp_all add: c_str_def)

lemma strcmp_hash: "strcmp a b = 0 \<Longrightarrow> OPENSSL_LH_strhash sg (Some a) = OPENSSL_LH_strhash sg (Some b)"
  unfolding strcmp_eq using strhash_c_str [of sg "0x100" 0 a] strhash_c_str [of sg "0x100" 0 b] c_at_c_str [of a] c_at_c_str [of b]
  by (simp add: OPENSSL_LH_strhash_def)

interpretation lh_str: lhash_contract "\<lambda>s. OPENSSL_LH_strhash sg (Some s)" strcmp for sg
  by unfold_locales (rule strcmp_hash | simp add: strcmp_eq)+

lemma conf_value_cmp_eq:
  "conf_value_cmp a b = 0 \<longleftrightarrow> c_str (cv_section a) = c_str (cv_section b) \<and> map_option c_str (cv_name a) = map_option c_str (cv_name b)"
  by (cases "cv_name a"; cases "cv_name b") (simp_all add: conf_value_cmp_def Let_def strcmp_eq)

lemma conf_value_cmp_hash: "conf_value_cmp a b = 0 \<Longrightarrow> conf_value_hash sg a = conf_value_hash sg b"
  unfolding conf_value_cmp_eq conf_value_hash_def
  using strcmp_hash [of "cv_section a" "cv_section b" sg] strcmp_hash [of "the (cv_name a)" "the (cv_name b)" sg]
  by (cases "cv_name a"; cases "cv_name b") (simp_all add: strcmp_eq)

interpretation lh_conf: lhash_contract "conf_value_hash sg" conf_value_cmp for sg
  by unfold_locales (rule conf_value_cmp_hash | simp add: conf_value_cmp_eq)+

text \<open>Folding the case of letters folds the bit the hash leaves out.\<close>

lemma tolower_mask: "NOT 0x20 AND (word_of_int (ossl_tolower i) :: u64) = NOT 0x20 AND word_of_int i"
proof (rule bit_word_eqI)
  fix n assume "n < LENGTH(64)"
  have "bit (0x20 :: int) n \<longleftrightarrow> bit (0x20 :: u64) n" using \<open>n < LENGTH(64)\<close> bit_word_of_int_iff [of "0x20 :: int" n, where ?'a = 64] by simp
  then show "bit (NOT 0x20 AND (word_of_int (ossl_tolower i) :: u64)) n = bit (NOT 0x20 AND word_of_int i :: u64) n"
    using \<open>n < LENGTH(64)\<close> by (auto simp: ossl_tolower_def bit_simps)
qed

lemma char_to_ulong_int: "char_to_ulong sg c = word_of_int (char_to_int sg c)"
  by (cases sg) (simp_all only: char_to_ulong_def char_to_int_def scast_eq ucast_eq if_True if_False)

lemma char_to_int_0: "char_to_int sg c = 0 \<longleftrightarrow> c = NUL"
proof -
  have "char_to_int sg c = 0 \<longleftrightarrow> byte_of_char c = 0"
    by (simp add: char_to_int_def signed_eq_0_iff unsigned_eq_0_iff)
  also have "\<dots> \<longleftrightarrow> byte_of_char c = byte_of_char NUL" by (simp add: byte_of_char_def)
  also have "\<dots> \<longleftrightarrow> c = NUL" by (metis char_of_byte_inverse)
  finally show ?thesis .
qed

lemma tolower_0: "ossl_tolower i = 0 \<longleftrightarrow> i = 0"
proof -
  have "i XOR 0x20 \<noteq> 0" if "0x41 \<le> i"
  proof
    assume "i XOR 0x20 = 0"
    then have "(i XOR 0x20) XOR 0x20 = 0x20" by simp
    then show False using that by (simp add: xor.assoc)
  qed
  then show ?thesis by (auto simp: ossl_tolower_def)
qed

definition folded :: "bool \<Rightarrow> string \<Rightarrow> int list" where
  "folded sg s = map (\<lambda>c. ossl_tolower (char_to_int sg c)) (c_str s)"

lemma folded_simps: "folded sg [] = []"
  "folded sg (c # s) = (if c = NUL then [] else ossl_tolower (char_to_int sg c) # folded sg s)"
  by (simp_all add: folded_def c_str_def)

lemma lower_NUL: "ossl_tolower (char_to_int sg c) = 0 \<longleftrightarrow> c = NUL" "ossl_tolower 0 = 0" "char_to_int sg NUL = 0"
  by (simp_all add: tolower_0 char_to_int_0)

lemma strcasecmp_eq: "OPENSSL_strcasecmp sg a b = 0 \<longleftrightarrow> folded sg a = folded sg b"
proof (induction sg a b rule: OPENSSL_strcasecmp.induct)
  case (1 sg b)
  have "0 = ossl_tolower (char_to_int sg (c_at b)) \<longleftrightarrow> c_at b = NUL" by (metis lower_NUL(1))
  then show ?case by (cases b) (simp_all add: folded_simps lower_NUL(2,3))
next
  case (2 sg c a b)
  show ?case
  proof (cases b)
    case Nil
    then show ?thesis by (simp add: folded_simps lower_NUL Let_def)
  next
    case (Cons d b')
    show ?thesis
    proof (cases "ossl_tolower (char_to_int sg c) = ossl_tolower (char_to_int sg d)")
      case True
      then have "c = NUL \<longleftrightarrow> d = NUL" by (metis lower_NUL(1))
      then show ?thesis using 2 True Cons by (auto simp: folded_simps)
    next
      case False
      then have "\<not> (c = NUL \<and> d = NUL)" by blast
      then show ?thesis using False Cons by (auto simp: folded_simps lower_NUL)
    qed
  qed
qed

lemma strcasehash_folded:
  "folded sg a = folded sg b \<Longrightarrow> strcasehash_loop sg n ret a = strcasehash_loop sg n ret b"
proof (induction a arbitrary: b n ret)
  case Nil
  then show ?case by (cases b) (auto simp: folded_simps split: if_splits)
next
  case (Cons c a)
  show ?case
  proof (cases "c = NUL")
    case True
    then show ?thesis using Cons.prems by (cases b) (auto simp: folded_simps split: if_splits)
  next
    case False
    then obtain d b' where b: "b = d # b'" "d \<noteq> NUL" "folded sg a = folded sg b'"
      "ossl_tolower (char_to_int sg c) = ossl_tolower (char_to_int sg d)"
      using Cons.prems by (cases b) (auto simp: folded_simps split: if_splits)
    then have "NOT 0x20 AND char_to_ulong sg c = NOT 0x20 AND char_to_ulong sg d"
      unfolding char_to_ulong_int by (metis tolower_mask)
    then show ?thesis using Cons.IH [OF b(3)] False b(1,2) by simp
  qed
qed

lemma strcasecmp_hash:
  assumes "OPENSSL_strcasecmp sg a b = 0"
  shows "ossl_lh_strcasehash sg (Some a) = ossl_lh_strcasehash sg (Some b)"
proof -
  have f: "folded sg a = folded sg b" using assms strcasecmp_eq by blast
  then have "c_at a = NUL \<longleftrightarrow> c_at b = NUL" by (cases a; cases b) (auto simp: folded_simps split: if_splits)
  then show ?thesis using strcasehash_folded [OF f, of "0x100" 0] by (simp add: ossl_lh_strcasehash_def)
qed

interpretation lh_strcase: lhash_contract "\<lambda>s. ossl_lh_strcasehash sg (Some s)" "OPENSSL_strcasecmp sg" for sg
  by unfold_locales (rule strcasecmp_hash | simp add: strcasecmp_eq)+

section \<open>The configuration table\<close>

text \<open>
  C39: The table of OpenSSL, with the hash and comparison of its configuration entries, is a set of
  entries with one per section and name, whatever is inserted and deleted and whatever requests for
  memory fail: a lookup finds the entry of the set with the given section and name or none, the
  count is the size of the set and at most twice the number of buckets, a visit calls its function
  once for every entry, freeing releases every node, and no bucket outside the block is touched.
  An insertion without memory leaves the set as it is; with memory all take effect.
\<close>

theorem conf_table_is_set:
  assumes "OPENSSL_LH_new sg as_text (Some (conf_value_hash sg)) (Some conf_value_cmp) m0 = (Some new, m)"
    and "lh = OPENSSL_LH_set_thunks new (\<lambda>d h. h d) (\<lambda>a b c. c a b) daw daaw"
  shows "\<exists>lh' m' oks. run_lh lh ops m = Inr (lh', m', oks) \<and> (m = [] \<longrightarrow> oks = replicate (length ops) True) \<and>
    (let S = run_set conf_value_cmp ops oks {} in
      (\<forall>d. \<exists>r. OPENSSL_LH_retrieve lh' d = Inr (r, lh'\<lparr>lh_error := 0\<rparr>) \<and> finds conf_value_cmp S d r) \<and>
      lh_num_items lh' = card S \<and> card S \<le> 2 * lh_num_nodes lh' \<and>
      (\<exists>ds. distinct ds \<and> set ds = S \<and>
        (\<forall>func st. OPENSSL_LH_doall (Some lh') func st = Inr (fold (\<lambda>d. daw d func) ds st))) \<and>
      OPENSSL_LH_free (Some lh') = Inr (card S + 2))"
proof -
  note new = lh_conf.new_wf [OF assms]
  obtain lh' m' oks where run: "run_lh lh ops m = Inr (lh', m', oks)" "m = [] \<longrightarrow> oks = replicate (length ops) True"
    and w: "lh_wf (conf_value_hash sg) conf_value_cmp lh'" and daw: "lh_daw lh' = Some daw" and load: "lh_num_items lh' \<le> 2 * lh_num_nodes lh'"
    and S: "set (lh_data lh') = run_set conf_value_cmp ops oks {}"
    using lh_conf.run_lh_run [OF new(1,2,3), of ops m] new(4,5,6) by auto
  show ?thesis
    using run load lh_conf.retrieve_run [OF w] lh_conf.items_card [OF w] lh_conf.visit_run [OF w daw]
    unfolding S by (intro exI [of _ lh'] exI [of _ m'] exI [of _ oks]) (simp add: Let_def)
qed

theorem conf_table_is_set_witness:
  "\<exists>(lh' :: (conf_value, nat) lhash) r. OPENSSL_LH_retrieve lh' \<lparr>cv_addr = 0, cv_section = ''default'', cv_name = Some ''dir'', cv_value = Conf_Text []\<rparr>
      = Inr (Some \<lparr>cv_addr = 2, cv_section = ''default'', cv_name = Some ''dir'', cv_value = Conf_Text ''/b''\<rparr>, r) \<and>
    lh_num_items lh' = 1"
proof -
  let ?v = "\<lambda>a t. \<lparr>cv_addr = a, cv_section = ''default'', cv_name = Some ''dir'', cv_value = Conf_Text t\<rparr>"
  let ?ops = "[LH_put (?v 1 ''/a''), LH_put (?v 2 ''/b'')]"
  have "\<exists>new :: (conf_value, nat) lhash. OPENSSL_LH_new True cv_section (Some (conf_value_hash True)) (Some conf_value_cmp) [] = (Some new, [])"
    by (simp add: OPENSSL_LH_new_def ddns_mem_alloc_def MIN_NODES_def)
  then obtain new :: "(conf_value, nat) lhash" where new: "OPENSSL_LH_new True cv_section (Some (conf_value_hash True)) (Some conf_value_cmp) [] = (Some new, [])" by blast
  have S: "run_set conf_value_cmp ?ops [True, True] {} = {?v 2 ''/b''}"
    by (auto simp: set_put_def set_drop_def conf_value_cmp_eq)
  define ops where "ops = [LH_put (?v 1 ''/a''), LH_put (?v 2 ''/b'')]"
  obtain lh' :: "(conf_value, nat) lhash" and oks where oks: "([] :: sched) = [] \<longrightarrow> oks = replicate (length ops) True"
    and look: "\<forall>d. \<exists>r. OPENSSL_LH_retrieve lh' d = Inr (r, lh'\<lparr>lh_error := 0\<rparr>) \<and> finds conf_value_cmp (run_set conf_value_cmp ops oks {}) d r"
    and count: "lh_num_items lh' = card (run_set conf_value_cmp ops oks {})"
    using conf_table_is_set [OF new refl, of "\<lambda>d f. f d" "\<lambda>d f. f d" ops] unfolding Let_def
    by blast
  from oks have "oks = [True, True]" by (simp add: ops_def numeral_2_eq_2)
  then have S': "run_set conf_value_cmp ops oks {} = {?v 2 ''/b''}" using S by (simp only: ops_def)
  have n: "lh_num_items lh' = 1" unfolding count S' by (rule is_singletonI [THEN is_singleton_altdef [THEN iffD1]])
  note r = look [unfolded S']
  then obtain x where x: "OPENSSL_LH_retrieve lh' (?v 0 []) = Inr (x, lh'\<lparr>lh_error := 0\<rparr>)" "finds conf_value_cmp {?v 2 ''/b''} (?v 0 []) x" by blast
  from x(2) have "x = Some (?v 2 ''/b'')" by (auto simp: finds_def conf_value_cmp_eq split: option.splits)
  with x(1) n show ?thesis by blast
qed

end
