(* ===== verification/Ossl_Stack.thy ===== *)
theory Ossl_Stack
  imports Cjson "HOL-Library.Signed_Division"
begin

text \<open>
  \<^verbatim>\<open>crypto/stack/stack.c\<close> and \<^verbatim>\<open>crypto/bsearch.c\<close> of the vendored OpenSSL, with the checked
  arithmetic of \<^verbatim>\<open>include/internal/safe_math.h\<close> they use: the growing arrays of pointers in which the
  library keeps certificates, ciphers and the values of its configuration.

  A pointer to an element is an option, \<open>None\<close> for null. A cell of the block \<open>sk_data\<close> is \<open>Unset\<close>
  where \<^verbatim>\<open>malloc\<close> and \<^verbatim>\<open>realloc\<close> leave it so. \<open>sk_comp\<close> is a function pointer of a type \<open>'c\<close> with
  equality; \<open>call\<close> is what calling it does to two cells. A null stack is \<open>None\<close>. The reports to
  the error queue are left out.
\<close>

datatype 'p cell = Unset | Ptr "'p option"

record ('p, 'c) stack =
  sk_num :: int
  sk_data :: "'p cell list option"
  sk_sorted :: bool
  sk_num_alloc :: int
  sk_comp :: "'c option"

section \<open>Checked arithmetic\<close>

text \<open>A result and whether \<^verbatim>\<open>err\<close> was set.\<close>

definition fits_int :: "int \<Rightarrow> bool" where
  "fits_int x \<longleftrightarrow> INT_MIN \<le> x \<and> x \<le> INT_MAX"

definition safe_add_int :: "int \<Rightarrow> int \<Rightarrow> int \<times> bool" where
  "safe_add_int a b = (if fits_int (a + b) then (a + b, False) else (if a < 0 then INT_MIN else INT_MAX, True))"

definition safe_mul_int :: "int \<Rightarrow> int \<Rightarrow> int \<times> bool" where
  "safe_mul_int a b = (if fits_int (a * b) then (a * b, False) else (if (a < 0) \<noteq> (b < 0) then INT_MIN else INT_MAX, True))"

definition safe_div_int :: "int \<Rightarrow> int \<Rightarrow> int \<times> bool" where
  "safe_div_int a b =
    (if b = 0 then (if a < 0 then INT_MIN else INT_MAX, True)
     else if b = - 1 \<and> a = INT_MIN then (INT_MAX, True)
     else (a sdiv b, False))"

definition safe_mod_int :: "int \<Rightarrow> int \<Rightarrow> int \<times> bool" where
  "safe_mod_int a b =
    (if b = 0 then (0, True)
     else if b = - 1 \<and> a = INT_MIN then (INT_MAX, True)
     else (a smod b, False))"

definition safe_muldiv_int :: "int \<Rightarrow> int \<Rightarrow> int \<Rightarrow> int \<times> bool" where
  "safe_muldiv_int a b c =
    (if c = 0 then (if a = 0 \<or> b = 0 then 0 else INT_MAX, True)
     else
       let (x, e2) = safe_mul_int a b
       in if \<not> e2 then safe_div_int x c
       else
         let (a, b) = (if b > a then (b, a) else (a, b));
             (q, e3) = safe_div_int a c;
             (r, e4) = safe_mod_int a c;
             (x, e5) = safe_mul_int r b;
             (y, e6) = safe_mul_int q b;
             (q, e7) = safe_div_int x c;
             (z, e8) = safe_add_int y q
         in (z, e3 \<or> e4 \<or> e5 \<or> e6 \<or> e7 \<or> e8))"

section \<open>Growing\<close>

definition min_nodes :: int where "min_nodes = 4"
definition max_nodes :: int where "max_nodes = INT_MAX"

text \<open>The loop has fuel; a block of at least \<open>min_nodes\<close> pointers reaches every size in 46 steps.\<close>

fun compute_growth :: "nat \<Rightarrow> int \<Rightarrow> int \<Rightarrow> fault + int" where
  "compute_growth 0 target current = (if current < target then Inl No_return else Inr current)"
| "compute_growth (Suc fuel) target current =
    (if \<not> current < target then Inr current
     else if current \<ge> max_nodes then Inr 0
     else
       let (current, err) = safe_muldiv_int current 8 5
       in if err then Inr 0
       else compute_growth fuel target (if current \<ge> max_nodes then max_nodes else current))"

definition growth_fuel :: nat where "growth_fuel = 46"

definition sk_reserve :: "('p, 'c) stack \<Rightarrow> int \<Rightarrow> bool \<Rightarrow> sched \<Rightarrow> fault + bool \<times> ('p, 'c) stack \<times> sched" where
  "sk_reserve st n exact m =
    (if n > max_nodes - sk_num st then Inr (False, st, m)
     else
       let num_alloc = (if sk_num st + n < min_nodes then min_nodes else sk_num st + n)
       in case sk_data st of
         None \<Rightarrow>
           (case ddns_mem_alloc (8 * nat num_alloc) m of (got, m) \<Rightarrow>
              if \<not> got then Inr (False, st, m)
              else Inr (True, st\<lparr>sk_data := Some (replicate (nat num_alloc) (Ptr None)), sk_num_alloc := num_alloc\<rparr>, m))
       | Some d \<Rightarrow>
           if (if exact then num_alloc = sk_num_alloc st else num_alloc \<le> sk_num_alloc st) then Inr (True, st, m)
           else rbind (if exact then Inr num_alloc else compute_growth growth_fuel num_alloc (sk_num_alloc st)) (\<lambda>num_alloc.
             if \<not> exact \<and> num_alloc = 0 then Inr (False, st, m)
             else case ddns_mem_alloc (8 * nat num_alloc) m of (got, m) \<Rightarrow>
               if \<not> got then Inr (False, st, m)
               else Inr (True, st\<lparr>sk_data := Some (take (nat num_alloc) d @ replicate (nat num_alloc - length d) Unset),
                 sk_num_alloc := num_alloc\<rparr>, m)))"

definition OPENSSL_sk_new_reserve :: "'c option \<Rightarrow> int \<Rightarrow> sched \<Rightarrow> fault + ('p, 'c) stack option \<times> sched" where
  "OPENSSL_sk_new_reserve c n m =
    (case ddns_mem_alloc 32 m of (got, m) \<Rightarrow>
     if \<not> got then Inr (None, m)
     else
       let st = \<lparr>sk_num = 0, sk_data = None, sk_sorted = False, sk_num_alloc = 0, sk_comp = c\<rparr>
       in if n \<le> 0 then Inr (Some st, m)
       else rbind (sk_reserve st n True m) (\<lambda>(ok, st, m). Inr (if ok then Some st else None, m)))"

definition OPENSSL_sk_new :: "'c option \<Rightarrow> sched \<Rightarrow> fault + ('p, 'c) stack option \<times> sched" where
  "OPENSSL_sk_new c m = OPENSSL_sk_new_reserve c 0 m"

definition OPENSSL_sk_new_null :: "sched \<Rightarrow> fault + ('p, 'c) stack option \<times> sched" where
  "OPENSSL_sk_new_null m = OPENSSL_sk_new_reserve None 0 m"

definition OPENSSL_sk_reserve ::
  "('p, 'c) stack option \<Rightarrow> int \<Rightarrow> sched \<Rightarrow> fault + bool \<times> ('p, 'c) stack option \<times> sched" where
  "OPENSSL_sk_reserve st n m =
    (case st of
       None \<Rightarrow> Inr (False, None, m)
     | Some s \<Rightarrow> if n < 0 then Inr (True, st, m)
         else rbind (sk_reserve s n True m) (\<lambda>(ok, s, m). Inr (ok, Some s, m)))"

definition OPENSSL_sk_set_cmp_func :: "('p, 'c) stack \<Rightarrow> 'c option \<Rightarrow> 'c option \<times> ('p, 'c) stack" where
  "OPENSSL_sk_set_cmp_func sk c =
    (sk_comp sk, (if sk_comp sk \<noteq> c then sk\<lparr>sk_sorted := False\<rparr> else sk)\<lparr>sk_comp := c\<rparr>)"

section \<open>Access\<close>

text \<open>Reading, writing and moving cells of the block.\<close>

definition sk_read :: "('p, 'c) stack \<Rightarrow> int \<Rightarrow> fault + 'p option" where
  "sk_read st i =
    (case sk_data st of
       None \<Rightarrow> Inl Null_deref
     | Some d \<Rightarrow> if 0 \<le> i \<and> nat i < length d
         then (case d ! nat i of Unset \<Rightarrow> Inl Uninit_read | Ptr p \<Rightarrow> Inr p) else Inl Read_past_end)"

definition sk_write :: "('p, 'c) stack \<Rightarrow> int \<Rightarrow> 'p option \<Rightarrow> fault + ('p, 'c) stack" where
  "sk_write st i p =
    (case sk_data st of
       None \<Rightarrow> Inl Null_deref
     | Some d \<Rightarrow> if 0 \<le> i \<and> nat i < length d then Inr (st\<lparr>sk_data := Some (d[nat i := Ptr p])\<rparr>) else Inl Write_past_end)"

definition sk_move :: "('p, 'c) stack \<Rightarrow> int \<Rightarrow> int \<Rightarrow> int \<Rightarrow> fault + ('p, 'c) stack" where
  "sk_move st dst src n =
    (case sk_data st of
       None \<Rightarrow> Inl Null_deref
     | Some d \<Rightarrow>
         if nat src + nat n > length d then Inl Read_past_end
         else if nat dst + nat n > length d then Inl Write_past_end
         else Inr (st\<lparr>sk_data := Some (take (nat dst) d @ take (nat n) (drop (nat src) d) @ drop (nat dst + nat n) d)\<rparr>))"

definition OPENSSL_sk_insert ::
  "('p, 'c) stack option \<Rightarrow> 'p option \<Rightarrow> int \<Rightarrow> sched \<Rightarrow> fault + int \<times> ('p, 'c) stack option \<times> sched" where
  "OPENSSL_sk_insert st data loc m =
    (case st of
       None \<Rightarrow> Inr (0, None, m)
     | Some s \<Rightarrow>
         if sk_num s = max_nodes then Inr (0, Some s, m)
         else rbind (sk_reserve s 1 False m) (\<lambda>(ok, s, m).
           if \<not> ok then Inr (0, Some s, m)
           else rbind (if loc \<ge> sk_num s \<or> loc < 0 then sk_write s (sk_num s) data
                       else rbind (sk_move s (loc + 1) loc (sk_num s - loc)) (\<lambda>s. sk_write s loc data)) (\<lambda>s.
             Inr (sk_num s + 1, Some (s\<lparr>sk_num := sk_num s + 1, sk_sorted := False\<rparr>), m))))"

definition internal_delete :: "('p, 'c) stack \<Rightarrow> int \<Rightarrow> fault + 'p option \<times> ('p, 'c) stack" where
  "internal_delete st loc =
    rbind (sk_read st loc) (\<lambda>ret.
    rbind (if loc \<noteq> sk_num st - 1 then sk_move st loc (loc + 1) (sk_num st - loc - 1) else Inr st) (\<lambda>st.
      Inr (ret, st\<lparr>sk_num := sk_num st - 1\<rparr>)))"

text \<open>The search for a pointer, from index \<open>i\<close>; \<open>k\<close> indices are left.\<close>

fun ptr_scan :: "('p, 'c) stack \<Rightarrow> 'p option \<Rightarrow> int \<Rightarrow> nat \<Rightarrow> fault + int option" where
  "ptr_scan st p i 0 = Inr None"
| "ptr_scan st p i (Suc k) =
    rbind (sk_read st i) (\<lambda>x. if x = p then Inr (Some i) else ptr_scan st p (i + 1) k)"

definition OPENSSL_sk_delete_ptr :: "('p, 'c) stack option \<Rightarrow> 'p option \<Rightarrow> fault + 'p option \<times> ('p, 'c) stack option" where
  "OPENSSL_sk_delete_ptr st p =
    (case st of
       None \<Rightarrow> Inr (None, None)
     | Some s \<Rightarrow> rbind (ptr_scan s p 0 (nat (sk_num s))) (\<lambda>r.
         case r of
           Some i \<Rightarrow> rbind (internal_delete s i) (\<lambda>(x, s). Inr (x, Some s))
         | None \<Rightarrow> Inr (None, Some s)))"

definition OPENSSL_sk_delete :: "('p, 'c) stack option \<Rightarrow> int \<Rightarrow> fault + 'p option \<times> ('p, 'c) stack option" where
  "OPENSSL_sk_delete st loc =
    (case st of
       None \<Rightarrow> Inr (None, None)
     | Some s \<Rightarrow> if loc < 0 \<or> loc \<ge> sk_num s then Inr (None, Some s)
         else rbind (internal_delete s loc) (\<lambda>(x, s). Inr (x, Some s)))"

definition OPENSSL_sk_push where
  "OPENSSL_sk_push st data m =
    (case st of None \<Rightarrow> Inr (0, None, m) | Some s \<Rightarrow> OPENSSL_sk_insert st data (sk_num s) m)"

definition OPENSSL_sk_unshift where
  "OPENSSL_sk_unshift st data m = OPENSSL_sk_insert st data 0 m"

definition OPENSSL_sk_shift :: "('p, 'c) stack option \<Rightarrow> fault + 'p option \<times> ('p, 'c) stack option" where
  "OPENSSL_sk_shift st =
    (case st of
       None \<Rightarrow> Inr (None, None)
     | Some s \<Rightarrow> if sk_num s = 0 then Inr (None, Some s)
         else rbind (internal_delete s 0) (\<lambda>(x, s). Inr (x, Some s)))"

definition OPENSSL_sk_pop :: "('p, 'c) stack option \<Rightarrow> fault + 'p option \<times> ('p, 'c) stack option" where
  "OPENSSL_sk_pop st =
    (case st of
       None \<Rightarrow> Inr (None, None)
     | Some s \<Rightarrow> if sk_num s = 0 then Inr (None, Some s)
         else rbind (internal_delete s (sk_num s - 1)) (\<lambda>(x, s). Inr (x, Some s)))"

definition OPENSSL_sk_zero :: "('p, 'c) stack option \<Rightarrow> fault + ('p, 'c) stack option" where
  "OPENSSL_sk_zero st =
    (case st of
       None \<Rightarrow> Inr None
     | Some s \<Rightarrow> if sk_num s = 0 then Inr (Some s)
         else (case sk_data s of
           None \<Rightarrow> Inl Null_deref
         | Some d \<Rightarrow> if length d < nat (sk_num s) then Inl Write_past_end
             else Inr (Some (s\<lparr>sk_data := Some (replicate (nat (sk_num s)) (Ptr None) @ drop (nat (sk_num s)) d), sk_num := 0\<rparr>))))"

definition OPENSSL_sk_num :: "('p, 'c) stack option \<Rightarrow> int" where
  "OPENSSL_sk_num st = (case st of None \<Rightarrow> - 1 | Some s \<Rightarrow> sk_num s)"

definition OPENSSL_sk_value :: "('p, 'c) stack option \<Rightarrow> int \<Rightarrow> fault + 'p option" where
  "OPENSSL_sk_value st i =
    (case st of None \<Rightarrow> Inr None | Some s \<Rightarrow> if i < 0 \<or> i \<ge> sk_num s then Inr None else sk_read s i)"

definition OPENSSL_sk_set :: "('p, 'c) stack option \<Rightarrow> int \<Rightarrow> 'p option \<Rightarrow> fault + 'p option \<times> ('p, 'c) stack option" where
  "OPENSSL_sk_set st i data =
    (case st of
       None \<Rightarrow> Inr (None, None)
     | Some s \<Rightarrow> if i < 0 \<or> i \<ge> sk_num s then Inr (None, Some s)
         else rbind (sk_write s i data) (\<lambda>s.
           let s = s\<lparr>sk_sorted := False\<rparr> in rbind (sk_read s i) (\<lambda>x. Inr (x, Some s))))"

section \<open>Binary search\<close>

text \<open>
  \<open>probe i\<close> is the comparison of the key with the element at index \<open>i\<close>. The sum of the bounds and the
  offset \<^verbatim>\<open>i * size\<close> are \<^verbatim>\<open>int\<close> values. The loop ends with the last index it looked at.
\<close>

function bsearch_loop :: "(int \<Rightarrow> fault + int) \<Rightarrow> int \<Rightarrow> int \<Rightarrow> int \<Rightarrow> int \<Rightarrow> int \<Rightarrow> fault + int \<times> int" where
  "bsearch_loop probe sz l h i c =
    (if \<not> l < h then Inr (i, c)
     else if l + h > INT_MAX then Inl Signed_overflow
     else let i = (l + h) div 2
     in if i * sz > INT_MAX then Inl Signed_overflow
     else rbind (probe i) (\<lambda>c.
       if c < 0 then bsearch_loop probe sz l i i c
       else if c > 0 then bsearch_loop probe sz (i + 1) h i c
       else Inr (i, c)))"
  by pat_completeness auto
termination
  by (relation "measure (\<lambda>(_, _, l, h, _, _). nat (h - l))") auto

declare bsearch_loop.simps [simp del]

fun first_match :: "(int \<Rightarrow> fault + int) \<Rightarrow> nat \<Rightarrow> fault + int" where
  "first_match probe 0 = Inr 0"
| "first_match probe (Suc i) =
    rbind (probe (int i)) (\<lambda>c. if c = 0 then first_match probe i else Inr (int (Suc i)))"

definition ossl_bsearch :: "(int \<Rightarrow> fault + int) \<Rightarrow> int \<Rightarrow> int \<Rightarrow> bool \<Rightarrow> bool \<Rightarrow> fault + int option" where
  "ossl_bsearch probe num sz VALUE_ON_NOMATCH FIRST_VALUE_ON_MATCH =
    (if num = 0 then Inr None
     else rbind (bsearch_loop probe sz 0 num 0 0) (\<lambda>(i, c).
       if c \<noteq> 0 \<and> \<not> VALUE_ON_NOMATCH then Inr None
       else if c = 0 \<and> FIRST_VALUE_ON_MATCH then rbind (first_match probe (nat i)) (\<lambda>i. Inr (Some i))
       else Inr (Some i)))"

section \<open>Searching\<close>

text \<open>The linear search; \<open>many\<close> says that the caller wants the number of matches.\<close>

fun comp_scan :: "('p, 'c) stack \<Rightarrow> ('p option \<Rightarrow> int) \<Rightarrow> bool \<Rightarrow> int \<Rightarrow> nat \<Rightarrow> int \<Rightarrow> int \<Rightarrow> fault + int \<times> int" where
  "comp_scan st f many i 0 res n = Inr (res, if res = - 1 then 0 else n)"
| "comp_scan st f many i (Suc k) res n =
    rbind (sk_read st i) (\<lambda>x.
      if f x = 0 then
        if n \<ge> INT_MAX then Inl Signed_overflow
        else if \<not> many then Inr (i, n + 1)
        else comp_scan st f many (i + 1) k (if res = - 1 then i else res) (n + 1)
      else comp_scan st f many (i + 1) k res n)"

fun count_run :: "('p, 'c) stack \<Rightarrow> ('p option \<Rightarrow> int) \<Rightarrow> int \<Rightarrow> nat \<Rightarrow> int \<Rightarrow> fault + int" where
  "count_run st f i 0 n = Inr n"
| "count_run st f i (Suc k) n =
    rbind (sk_read st i) (\<lambda>x. if f x \<noteq> 0 then Inr n else count_run st f (i + 1) k (n + 1))"

text \<open>\<open>pnum\<close> is what the caller's pointer points at, \<open>None\<close> for a null pointer.\<close>

definition internal_find ::
  "('c \<Rightarrow> 'p option \<Rightarrow> 'p option \<Rightarrow> int) \<Rightarrow> ('p, 'c) stack option \<Rightarrow> 'p option \<Rightarrow> bool \<Rightarrow> bool \<Rightarrow> int option
    \<Rightarrow> fault + int \<times> int option" where
  "internal_find call st data on_nomatch first pnum =
    (case st of
       None \<Rightarrow> Inr (- 1, pnum)
     | Some s \<Rightarrow>
         if sk_num s = 0 then Inr (- 1, pnum)
         else case sk_comp s of
           None \<Rightarrow> rbind (ptr_scan s data 0 (nat (sk_num s))) (\<lambda>r. case r of
               Some i \<Rightarrow> Inr (i, map_option (\<lambda>_. 1) pnum)
             | None \<Rightarrow> Inr (- 1, map_option (\<lambda>_. 0) pnum))
         | Some c \<Rightarrow>
             if data = None then Inr (- 1, pnum)
             else if \<not> sk_sorted s then
               rbind (comp_scan s (call c data) (pnum \<noteq> None) 0 (nat (sk_num s)) (- 1) (case pnum of None \<Rightarrow> 0 | Some n \<Rightarrow> n))
                 (\<lambda>(res, n). Inr (res, map_option (\<lambda>_. n) pnum))
             else
               rbind (ossl_bsearch (\<lambda>i. rbind (sk_read s i) (\<lambda>x. Inr (call c data x))) (sk_num s) 8 on_nomatch (first \<or> pnum \<noteq> None))
                 (\<lambda>r. case r of
                   None \<Rightarrow> Inr (- 1, map_option (\<lambda>_. 0) pnum)
                 | Some i \<Rightarrow>
                     if pnum = None then Inr (i, None)
                     else rbind (count_run s (call c data) i (nat (sk_num s - i)) 0) (\<lambda>n. Inr (i, Some n))))"

definition OPENSSL_sk_find where
  "OPENSSL_sk_find call st data = rbind (internal_find call st data False True None) (\<lambda>(i, _). Inr i)"

definition OPENSSL_sk_find_ex where
  "OPENSSL_sk_find_ex call st data = rbind (internal_find call st data True False None) (\<lambda>(i, _). Inr i)"

definition OPENSSL_sk_find_all where
  "OPENSSL_sk_find_all call st data pnum =
    rbind (internal_find call st data False True (Some pnum)) (\<lambda>(i, n). Inr (i, the n))"

section \<open>Sorting, copying and freeing\<close>

fun sk_values :: "('p, 'c) stack \<Rightarrow> int \<Rightarrow> nat \<Rightarrow> fault + 'p option list" where
  "sk_values st i 0 = Inr []"
| "sk_values st i (Suc k) = rbind (sk_read st i) (\<lambda>x. rbind (sk_values st (i + 1) k) (\<lambda>xs. Inr (x # xs)))"

definition OPENSSL_sk_sort ::
  "(('p option \<Rightarrow> 'p option \<Rightarrow> int) \<Rightarrow> 'p option list \<Rightarrow> 'p option list) \<Rightarrow> ('c \<Rightarrow> 'p option \<Rightarrow> 'p option \<Rightarrow> int)
    \<Rightarrow> ('p, 'c) stack option \<Rightarrow> fault + ('p, 'c) stack option" where
  "OPENSSL_sk_sort qsort call st =
    (case st of
       None \<Rightarrow> Inr None
     | Some s \<Rightarrow> (case sk_comp s of
         None \<Rightarrow> Inr (Some s)
       | Some c \<Rightarrow>
           if sk_sorted s then Inr (Some s)
           else rbind (if sk_num s > 1
               then rbind (sk_values s 0 (nat (sk_num s))) (\<lambda>xs.
                 Inr (s\<lparr>sk_data := Some (map Ptr (qsort (call c) xs) @ drop (nat (sk_num s)) (the (sk_data s)))\<rparr>))
               else Inr s)
             (\<lambda>s. Inr (Some (s\<lparr>sk_sorted := True\<rparr>)))))"

definition OPENSSL_sk_is_sorted :: "('p, 'c) stack option \<Rightarrow> bool" where
  "OPENSSL_sk_is_sorted st = (case st of None \<Rightarrow> True | Some s \<Rightarrow> sk_sorted s)"

definition OPENSSL_sk_dup :: "('p, 'c) stack option \<Rightarrow> sched \<Rightarrow> fault + ('p, 'c) stack option \<times> sched" where
  "OPENSSL_sk_dup sk m =
    (case ddns_mem_alloc 32 m of (got, m) \<Rightarrow>
     if \<not> got then Inr (None, m)
     else case sk of
       None \<Rightarrow> Inr (Some \<lparr>sk_num = 0, sk_data = None, sk_sorted = False, sk_num_alloc = 0, sk_comp = None\<rparr>, m)
     | Some s \<Rightarrow>
         if sk_num s = 0 then Inr (Some (s\<lparr>sk_data := None, sk_num_alloc := 0\<rparr>), m)
         else (case ddns_mem_alloc (8 * nat (sk_num_alloc s)) m of (got, m) \<Rightarrow>
           if \<not> got then Inr (None, m)
           else (case sk_data s of
               None \<Rightarrow> Inl Null_deref
             | Some d \<Rightarrow>
                 if length d < nat (sk_num s) then Inl Read_past_end
                 else if sk_num_alloc s < sk_num s then Inl Write_past_end
                 else Inr (Some (s\<lparr>sk_data := Some (take (nat (sk_num s)) d @ replicate (nat (sk_num_alloc s) - nat (sk_num s)) Unset)\<rparr>), m))))"

text \<open>The loop of the deep copy: the copies so far, and the state of the copying function.\<close>

fun copy_loop :: "('p \<Rightarrow> sched \<Rightarrow> 'p option \<times> sched) \<Rightarrow> ('p, 'c) stack \<Rightarrow> int \<Rightarrow> nat \<Rightarrow> 'p option list \<Rightarrow> sched
    \<Rightarrow> fault + 'p option list \<times> bool \<times> sched" where
  "copy_loop copy_func sk i 0 out m = Inr (out, True, m)"
| "copy_loop copy_func sk i (Suc k) out m =
    rbind (sk_read sk i) (\<lambda>x. case x of
      None \<Rightarrow> copy_loop copy_func sk (i + 1) k (out @ [None]) m
    | Some p \<Rightarrow> (case copy_func p m of
        (None, m) \<Rightarrow> Inr (out, False, m)
      | (Some q, m) \<Rightarrow> copy_loop copy_func sk (i + 1) k (out @ [Some q]) m))"

text \<open>The second result is what \<^verbatim>\<open>free_func\<close> was called for.\<close>

definition OPENSSL_sk_deep_copy ::
  "('p \<Rightarrow> sched \<Rightarrow> 'p option \<times> sched) \<Rightarrow> ('p, 'c) stack option \<Rightarrow> sched
    \<Rightarrow> fault + ('p, 'c) stack option \<times> 'p list \<times> sched" where
  "OPENSSL_sk_deep_copy copy_func sk m =
    (case ddns_mem_alloc 32 m of (got, m) \<Rightarrow>
     if \<not> got then Inr (None, [], m)
     else case sk of
       None \<Rightarrow> Inr (Some \<lparr>sk_num = 0, sk_data = None, sk_sorted = False, sk_num_alloc = 0, sk_comp = None\<rparr>, [], m)
     | Some s \<Rightarrow>
         if sk_num s = 0 then Inr (Some (s\<lparr>sk_data := None, sk_num_alloc := 0\<rparr>), [], m)
         else let num_alloc = (if sk_num s > min_nodes then sk_num s else min_nodes)
         in (case ddns_mem_alloc (8 * nat num_alloc) m of (got, m) \<Rightarrow>
           if \<not> got then Inr (None, [], m)
           else rbind (copy_loop copy_func s 0 (nat (sk_num s)) [] m) (\<lambda>(out, ok, m).
             if \<not> ok then Inr (None, List.map_filter id (rev out), m)
             else Inr (Some (s\<lparr>sk_num_alloc := num_alloc,
               sk_data := Some (map Ptr out @ replicate (nat num_alloc - length out) (Ptr None))\<rparr>), [], m))))"

text \<open>The elements \<^verbatim>\<open>func\<close> is called for, in order.\<close>

definition OPENSSL_sk_pop_free :: "('p, 'c) stack option \<Rightarrow> fault + 'p list" where
  "OPENSSL_sk_pop_free st =
    (case st of
       None \<Rightarrow> Inr []
     | Some s \<Rightarrow> rbind (sk_values s 0 (nat (sk_num s))) (\<lambda>xs. Inr (List.map_filter id xs)))"

end
