(* ===== verification/Ossl_Stack_Correct.thy ===== *)
theory Ossl_Stack_Correct
  imports Ossl_Stack Ossl_Lhash "HOL-Library.Multiset"
begin

text \<open>
  The stacks of \<open>Ossl_Stack\<close> are lists: every operation does to the list what its name says, in
  bounds, and the two searches find the same element.
\<close>

section \<open>Growing\<close>

lemma muldiv_run:
  assumes "0 \<le> c" "c \<le> INT_MAX"
  shows "\<exists>z. safe_muldiv_int c 8 5 = (z, c * 8 div 5 > INT_MAX) \<and> (c * 8 div 5 \<le> INT_MAX \<longrightarrow> z = c * 8 div 5)"
proof (cases "c * 8 \<le> INT_MAX")
  case True
  have div: "safe_div_int (c * 8) 5 = (c * 8 div 5, False)" using assms by (simp add: safe_div_int_def signed_divide_int_def sgn_if)
  have "safe_mul_int c 8 = (c * 8, False)" using True assms by (simp add: safe_mul_int_def fits_int_def)
  then have "safe_muldiv_int c 8 5 = (c * 8 div 5, False)" using div by (simp add: safe_muldiv_int_def)
  moreover have "c * 8 div 5 \<le> INT_MAX" using True assms by linarith
  ultimately show ?thesis by simp
next
  case False
  obtain q r where c: "c = 5 * q + r" "0 \<le> r" "r < 5" "0 \<le> q" "c div 5 = q" "c mod 5 = r"
    using assms by (metis mult_div_mod_eq pos_mod_bound pos_mod_sign pos_imp_zdiv_nonneg_iff zero_less_numeral)
  have e: "c * 8 = r * 8 + 5 * (q * 8)" using c(1) by simp
  have sums: "c * 8 div 5 = q * 8 + r * 8 div 5" unfolding e by (subst div_mult_self2) simp_all
  have big: "8 < c" using False by simp
  have div: "safe_div_int c 5 = (q, False)" "safe_mod_int c 5 = (r, False)" "safe_div_int (r * 8) 5 = (r * 8 div 5, False)"
    using c(2,5,6) big
    by (simp_all add: safe_div_int_def safe_mod_int_def signed_divide_int_def signed_modulo_int_def sgn_if)
  have mul: "safe_mul_int c 8 = (INT_MAX, True)" "safe_mul_int r 8 = (r * 8, False)"
    using False big c(2,3) by (simp_all add: safe_mul_int_def fits_int_def)
  have pos: "0 \<le> r * 8 div 5" using c by simp
  have run: "safe_muldiv_int c 8 5 = (let (y, e6) = safe_mul_int q 8; (z, e8) = safe_add_int y (r * 8 div 5) in (z, e6 \<or> e8))"
    using big by (simp add: safe_muldiv_int_def mul div)
  show ?thesis
  proof (cases "q * 8 \<le> INT_MAX")
    case True
    then have "safe_mul_int q 8 = (q * 8, False)" using c(4) by (simp add: safe_mul_int_def fits_int_def)
    then show ?thesis unfolding run sums using pos c(4) by (simp add: safe_add_int_def fits_int_def)
  next
    case no: False
    then have "safe_mul_int q 8 = (INT_MAX, True)" using c(4) by (simp add: safe_mul_int_def fits_int_def)
    then show ?thesis unfolding run sums using no pos by (simp split: prod.split)
  qed
qed

lemma growth_run:
  assumes "0 \<le> c" "c \<le> INT_MAX" "target \<le> INT_MAX" "3 * 2147483648 * 5 ^ k \<le> (3 * c - 4) * 8 ^ k"
  shows "\<exists>r. compute_growth k target c = Inr r \<and> (r = 0 \<or> target \<le> r \<and> c \<le> r \<and> r \<le> INT_MAX) \<and>
    (target \<le> 1342177279 \<longrightarrow> target \<le> r \<and> c \<le> r)"
  using assms
proof (induction k arbitrary: c)
  case 0
  then show ?case by simp
next
  case (Suc k)
  show ?case
  proof (cases "c < target")
    case False
    then show ?thesis using Suc.prems by simp
  next
    case True
    then have c: "\<not> max_nodes \<le> c" using Suc.prems(3) by (simp add: max_nodes_def)
    obtain z where z: "safe_muldiv_int c 8 5 = (z, c * 8 div 5 > INT_MAX)" "c * 8 div 5 \<le> INT_MAX \<longrightarrow> z = c * 8 div 5"
      using muldiv_run [OF Suc.prems(1,2)] by blast
    show ?thesis
    proof (cases "c * 8 div 5 \<le> INT_MAX")
      case False
      then have "1342177279 < target" using True by linarith
      then show ?thesis using True c z(1) False by simp
    next
      case le: True
      let ?c = "c * 8 div 5"
      have run: "compute_growth (Suc k) target c = compute_growth k target ?c"
        using True c z le by (simp add: max_nodes_def)
      have "5 * (3 * y - 4) \<ge> 8 * (3 * c - 4)" if "5 * y \<ge> 8 * c - 4" for y :: int using that by simp
      moreover have "5 * ?c \<ge> 8 * c - 4" by linarith
      ultimately have "5 * (3 * ?c - 4) \<ge> 8 * (3 * c - 4)" by blast
      then have "8 * (3 * c - 4) * 8 ^ k \<le> 5 * (3 * ?c - 4) * (8 :: int) ^ k" by (rule mult_right_mono) simp
      with Suc.prems(4) have "3 * 2147483648 * 5 ^ k \<le> (3 * ?c - 4) * (8 :: int) ^ k" by (simp add: algebra_simps)
      moreover have "c \<le> ?c" "0 \<le> ?c" using Suc.prems(1) by linarith+
      ultimately show ?thesis using Suc.IH [of ?c] le Suc.prems(3) unfolding run by fastforce
    qed
  qed
qed

lemma growth_fuel_run:
  assumes "4 \<le> c" "c \<le> INT_MAX" "target \<le> INT_MAX"
  shows "\<exists>r. compute_growth growth_fuel target c = Inr r \<and> (r = 0 \<or> target \<le> r \<and> c \<le> r \<and> r \<le> INT_MAX) \<and>
    (target \<le> 1342177279 \<longrightarrow> target \<le> r \<and> c \<le> r)"
proof (rule growth_run)
  have "3 * 2147483648 * (5 :: int) ^ 46 \<le> 8 * 8 ^ 46" by simp
  also have "\<dots> \<le> (3 * c - 4) * 8 ^ 46" by (rule mult_right_mono) (use assms in simp_all)
  finally show "3 * 2147483648 * 5 ^ growth_fuel \<le> (3 * c - 4) * 8 ^ growth_fuel" by (simp add: growth_fuel_def)
qed (use assms in simp_all)

section \<open>Stacks as lists\<close>

definition sk_rep :: "('p, 'c) stack \<Rightarrow> 'p option list \<Rightarrow> bool" where
  "sk_rep st xs \<longleftrightarrow> sk_num st = int (length xs) \<and>
     (case sk_data st of
        None \<Rightarrow> xs = [] \<and> sk_num_alloc st = 0
      | Some d \<Rightarrow> (\<exists>rest. d = map Ptr xs @ rest) \<and> int (length d) = sk_num_alloc st \<and> 4 \<le> sk_num_alloc st \<and> sk_num_alloc st \<le> INT_MAX)"

lemma rep_num: "sk_rep st xs \<Longrightarrow> sk_num st = int (length xs)" "sk_rep st xs \<Longrightarrow> int (length xs) \<le> INT_MAX"
  by (auto simp: sk_rep_def split: option.splits)

lemma read_rep: "sk_rep st xs \<Longrightarrow> i < length xs \<Longrightarrow> sk_read st (int i) = Inr (xs ! i)"
  by (auto simp: sk_rep_def sk_read_def nth_append split: option.splits)

lemma rep_flags: "sk_rep (st\<lparr>sk_sorted := s\<rparr>) xs = sk_rep st xs" "sk_rep (st\<lparr>sk_comp := c\<rparr>) xs = sk_rep st xs"
  by (simp_all add: sk_rep_def split: option.split)

lemma reserve_run:
  assumes "sk_rep st xs" "0 \<le> n"
  shows "\<exists>ok st' m'. sk_reserve st n exact m = Inr (ok, st', m') \<and> sk_rep st' xs \<and>
    sk_sorted st' = sk_sorted st \<and> sk_comp st' = sk_comp st \<and> (m = [] \<longrightarrow> m' = []) \<and>
    (ok \<longrightarrow> sk_data st' \<noteq> None \<and> int (length xs) + n \<le> sk_num_alloc st') \<and>
    (\<not> ok \<longrightarrow> m \<noteq> [] \<or> 1342177279 < int (length xs) + n)"
proof (cases "n > max_nodes - sk_num st")
  case True
  then show ?thesis using assms rep_num(1) [OF assms(1)] 
    by (intro exI [of _ False]) (simp add: sk_reserve_def max_nodes_def)
next
  case False
  let ?n = "if sk_num st + n < min_nodes then min_nodes else sk_num st + n"
  have num: "sk_num st = int (length xs)" by (rule rep_num(1) [OF assms(1)])
  have n: "4 \<le> ?n" "int (length xs) + n \<le> ?n" "?n \<le> INT_MAX" "0 < nat ?n" "?n = 4 \<or> ?n = int (length xs) + n"
    using False num by (simp_all add: min_nodes_def max_nodes_def)
  have nil: "m' = []" if "ddns_mem_alloc k [] = (got, m')" for k got m' using that by (simp add: ddns_mem_alloc_def split: if_splits)
  have fails: "m \<noteq> []" if "ddns_mem_alloc k m = (False, m')" "0 < k" for k m' using that by (auto simp: ddns_mem_alloc_def)
  show ?thesis
  proof (cases "sk_data st")
    case None
    obtain got m' where a: "ddns_mem_alloc (8 * nat ?n) m = (got, m')" by fastforce
    then have "m = [] \<longrightarrow> m' = []" using nil by blast
    moreover have "xs = []" using assms(1) None by (simp add: sk_rep_def)
    moreover have "\<not> got \<Longrightarrow> m \<noteq> []" using fails a n by auto
    ultimately show ?thesis using a n assms(1) False None
      by (intro exI [of _ got]) (cases got; simp add: sk_reserve_def sk_rep_def Let_def)
  next
    case (Some d)
    obtain rest where d: "d = map Ptr xs @ rest" "int (length d) = sk_num_alloc st" "4 \<le> sk_num_alloc st" "sk_num_alloc st \<le> INT_MAX"
      using assms(1) Some by (auto simp: sk_rep_def)
    let ?stay = "if exact then ?n = sk_num_alloc st else ?n \<le> sk_num_alloc st"
    show ?thesis
    proof (cases ?stay)
      case True
      then have "sk_reserve st n exact m = Inr (True, st, m)" using False Some by (simp add: sk_reserve_def Let_def)
      then show ?thesis using assms(1) Some True n(2) by (auto split: if_splits)
    next
      case stay: False
      obtain r where r: "(if exact then Inr ?n else compute_growth growth_fuel ?n (sk_num_alloc st)) = Inr r"
        "r = 0 \<or> ?n \<le> r \<and> r \<le> INT_MAX" "exact \<Longrightarrow> r = ?n" "?n \<le> 1342177279 \<longrightarrow> ?n \<le> r"
        using growth_fuel_run [OF d(3,4) n(3)] n by (cases exact) auto
      obtain got m' where a: "ddns_mem_alloc (8 * nat r) m = (got, m')" by fastforce
      have run: "sk_reserve st n exact m = (if \<not> exact \<and> r = 0 then Inr (False, st, m)
         else if \<not> got then Inr (False, st, m')
         else Inr (True, st\<lparr>sk_data := Some (take (nat r) d @ replicate (nat r - length d) Unset), sk_num_alloc := r\<rparr>, m'))"
        using False Some stay a unfolding sk_reserve_def Let_def if_not_P [OF False] option.case if_not_P [OF stay] r(1)
        by (simp only: rbind_simps prod.case option.case if_False)
      show ?thesis
      proof (cases "r = 0")
        case True
        then have "\<not> exact" "1342177279 < ?n" using r(3,4) n by auto
        then show ?thesis unfolding run using True assms(1) n(5) by (auto split: if_splits)
      next
        case nz: False
        then have nr: "?n \<le> r" "r \<le> INT_MAX" "0 < nat r" using r(2) n by auto
        show ?thesis
        proof (cases got)
          case False
          then show ?thesis unfolding run using nz a nil fails nr assms(1) by auto
        next
          case True
          let ?d = "take (nat r) d @ replicate (nat r - length d) Unset"
          have "length xs \<le> nat r" using nr n(2) assms(2) by linarith
          then have "?d = map Ptr xs @ take (nat r - length xs) rest @ replicate (nat r - length d) Unset"
            unfolding d(1) by simp
          then have "\<exists>rest. ?d = map Ptr xs @ rest" by blast
          moreover have "int (length ?d) = r" "4 \<le> r" using nr n(1) by simp_all
          ultimately have "sk_rep (st\<lparr>sk_data := Some ?d, sk_num_alloc := r\<rparr>) xs"
            using num nr(2) by (simp add: sk_rep_def)
          then show ?thesis unfolding run using nz True a nil nr n(2) by auto
        qed
      qed
    qed
  qed
qed

text \<open>The list operations.\<close>

definition list_insert :: "'a list \<Rightarrow> int \<Rightarrow> 'a \<Rightarrow> 'a list" where
  "list_insert xs loc x = (if 0 \<le> loc \<and> loc < int (length xs) then take (nat loc) xs @ x # drop (nat loc) xs else xs @ [x])"

definition list_delete :: "'a list \<Rightarrow> nat \<Rightarrow> 'a list" where
  "list_delete xs i = take i xs @ drop (i + 1) xs"

lemma rep_block:
  assumes "sk_rep st xs" "sk_data st \<noteq> None"
  obtains rest where "sk_data st = Some (map Ptr xs @ rest)" "int (length xs + length rest) = sk_num_alloc st"
    "4 \<le> sk_num_alloc st" "sk_num_alloc st \<le> INT_MAX" "sk_num st = int (length xs)"
  using assms by (auto simp: sk_rep_def)

lemma rep_of_block:
  "sk_data st = Some (map Ptr xs @ rest) \<Longrightarrow> int (length xs + length rest) = sk_num_alloc st \<Longrightarrow> 4 \<le> sk_num_alloc st \<Longrightarrow>
    sk_num_alloc st \<le> INT_MAX \<Longrightarrow> sk_num st = int (length xs) \<Longrightarrow> sk_rep st xs"
  by (auto simp: sk_rep_def)

lemma write_rep:
  assumes "sk_rep st xs" "i < length xs"
  shows "\<exists>d. sk_write st (int i) p = Inr (st\<lparr>sk_data := d\<rparr>) \<and> sk_rep (st\<lparr>sk_data := d\<rparr>) (xs[i := p])"
proof -
  have "sk_data st \<noteq> None" using assms by (auto simp: sk_rep_def split: option.splits)
  then obtain rest where b: "sk_data st = Some (map Ptr xs @ rest)" "int (length xs + length rest) = sk_num_alloc st"
    "4 \<le> sk_num_alloc st" "sk_num_alloc st \<le> INT_MAX" "sk_num st = int (length xs)" by (rule rep_block [OF assms(1)])
  have "(map Ptr xs @ rest)[i := Ptr p] = map Ptr (xs[i := p]) @ rest" using assms(2) by (simp add: list_update_append map_update)
  then show ?thesis using b assms(2) by (auto simp: sk_write_def intro!: rep_of_block)
qed

lemma sk_insert_run:
  assumes "sk_rep s xs"
  shows "\<exists>r s' m'. OPENSSL_sk_insert (Some s) p loc m = Inr (r, Some s', m') \<and> sk_comp s' = sk_comp s \<and> (m = [] \<longrightarrow> m' = []) \<and>
    (if r \<noteq> 0 then r = int (length xs) + 1 \<and> sk_rep s' (list_insert xs loc p) \<and> \<not> sk_sorted s'
     else sk_rep s' xs \<and> sk_sorted s' = sk_sorted s \<and> (m \<noteq> [] \<or> 1342177279 \<le> int (length xs)))"
proof (cases "sk_num s = max_nodes")
  case True
  then show ?thesis using assms rep_num(1) [OF assms] by (simp add: OPENSSL_sk_insert_def max_nodes_def)
next
  case False
  obtain ok s1 m1 where r: "sk_reserve s 1 False m = Inr (ok, s1, m1)" "sk_rep s1 xs" "sk_sorted s1 = sk_sorted s" "sk_comp s1 = sk_comp s"
    "m = [] \<longrightarrow> m1 = []" "ok \<longrightarrow> sk_data s1 \<noteq> None \<and> int (length xs) + 1 \<le> sk_num_alloc s1"
    "\<not> ok \<longrightarrow> m \<noteq> [] \<or> 1342177279 < int (length xs) + 1"
    using reserve_run [OF assms, of 1 False m] by auto
  show ?thesis
  proof (cases ok)
    case False
    then show ?thesis using r \<open>sk_num s \<noteq> max_nodes\<close> by (auto simp: OPENSSL_sk_insert_def)
  next
    case True
    with r(6) obtain rest where b: "sk_data s1 = Some (map Ptr xs @ rest)" "int (length xs + length rest) = sk_num_alloc s1"
      "4 \<le> sk_num_alloc s1" "sk_num_alloc s1 \<le> INT_MAX" "sk_num s1 = int (length xs)" using rep_block [OF r(2)] by metis
    have "0 < length rest" using r(6) True b(2) by linarith
    then obtain z rest' where rest: "rest = z # rest'" by (cases rest) auto
    let ?w = "if loc \<ge> sk_num s1 \<or> loc < 0 then sk_write s1 (sk_num s1) p
       else rbind (sk_move s1 (loc + 1) loc (sk_num s1 - loc)) (\<lambda>s. sk_write s loc p)"
    have "?w = Inr (s1\<lparr>sk_data := Some (map Ptr (list_insert xs loc p) @ rest')\<rparr>)"
    proof (cases "loc \<ge> sk_num s1 \<or> loc < 0")
      case True
      then have l: "list_insert xs loc p = xs @ [p]" using b(5) by (auto simp: list_insert_def)
      show ?thesis unfolding if_P [OF True] l using b rest by (simp add: sk_write_def list_update_append)
    next
      case no: False
      then obtain i where i: "loc = int i" "i < length xs" 
        using no b(5) that [of "nat loc"] by (auto simp: nat_less_iff)
      have l: "list_insert xs loc p = take i xs @ p # drop i xs" using i by (simp add: list_insert_def)
      have mv: "sk_move s1 (loc + 1) loc (sk_num s1 - loc) =
          Inr (s1\<lparr>sk_data := Some (map Ptr (take i xs) @ Ptr (xs ! i) # map Ptr (drop i xs) @ rest')\<rparr>)"
        using i b(1,5) rest
        by (simp add: sk_move_def nat_diff_distrib nat_add_distrib take_map drop_map take_Suc_conv_app_nth)
      show ?thesis unfolding if_not_P [OF no] l mv rbind_simps using i by (simp add: sk_write_def list_update_append)
    qed
    then have run: "OPENSSL_sk_insert (Some s) p loc m = Inr (int (length xs) + 1,
        Some (s1\<lparr>sk_data := Some (map Ptr (list_insert xs loc p) @ rest'), sk_num := int (length xs) + 1, sk_sorted := False\<rparr>), m1)"
      using \<open>sk_num s \<noteq> max_nodes\<close> r(1) True b(5) by (simp add: OPENSSL_sk_insert_def)
    have "length (list_insert xs loc p) = length xs + 1" by (auto simp: list_insert_def)
    then show ?thesis unfolding run using b rest r(4,5) by (auto intro!: rep_of_block)
  qed
qed

lemma internal_delete_run:
  assumes "sk_rep s xs" "i < length xs"
  shows "\<exists>s'. internal_delete s (int i) = Inr (xs ! i, s') \<and> sk_rep s' (list_delete xs i) \<and> sk_comp s' = sk_comp s \<and> sk_sorted s' = sk_sorted s"
proof -
  have "sk_data s \<noteq> None" using assms by (auto simp: sk_rep_def split: option.splits)
  then obtain rest where b: "sk_data s = Some (map Ptr xs @ rest)" "int (length xs + length rest) = sk_num_alloc s"
    "4 \<le> sk_num_alloc s" "sk_num_alloc s \<le> INT_MAX" "sk_num s = int (length xs)" by (rule rep_block [OF assms(1)])
  have len: "length (list_delete xs i) = length xs - 1" using assms(2) by (simp add: list_delete_def)
  obtain z where z: "(if int i \<noteq> sk_num s - 1 then sk_move s (int i) (int i + 1) (sk_num s - int i - 1) else Inr s)
      = Inr (s\<lparr>sk_data := Some (map Ptr (list_delete xs i) @ z # rest)\<rparr>)"
  proof (cases "int i = sk_num s - 1")
    case True
    then have i: "i = length xs - 1" using b(5) assms(2) by linarith
    then have "list_delete xs i @ [xs ! i] = xs" using assms(2) by (simp add: list_delete_def take_Suc_conv_app_nth [symmetric])
    then have "map Ptr xs @ rest = map Ptr (list_delete xs i) @ Ptr (xs ! i) # rest" by (metis append.assoc append_Cons append_Nil list.simps(8,9) map_append)
    then show thesis using that [of "Ptr (xs ! i)"] True b(1) by simp
  next
    case False
    let ?n = "length xs - i - 1"
    have n: "nat (sk_num s - int i - 1) = ?n" "nat (int i + 1) = i + 1" "i + 1 + ?n = length xs" "0 < ?n"
      using b(5) False assms(2) by (auto simp: nat_add_distrib)
    have "drop (i + ?n) (map Ptr xs @ rest) = Ptr (last xs) # rest"
    proof -
      have "drop (length xs - 1) xs = [last xs]" using assms(2) by (cases xs rule: rev_cases) simp_all
      moreover have "i + ?n = length xs - 1" using n(3) by simp
      ultimately have "drop (i + ?n) xs = [last xs]" by simp
      then show ?thesis using n(3) by (simp add: drop_map)
    qed
    then have "sk_move s (int i) (int i + 1) (sk_num s - int i - 1) = Inr (s\<lparr>sk_data := Some (map Ptr (list_delete xs i) @ Ptr (last xs) # rest)\<rparr>)"
      using b(1) n assms(2) by (simp add: sk_move_def list_delete_def take_map drop_map)
    then show thesis using that [of "Ptr (last xs)"] False by simp
  qed
  have "sk_rep (s\<lparr>sk_data := Some (map Ptr (list_delete xs i) @ z # rest), sk_num := sk_num s - 1\<rparr>) (list_delete xs i)"
    by (rule rep_of_block) (use b len assms(2) in \<open>auto simp: of_nat_diff\<close>)
  then show ?thesis using z read_rep [OF assms] by (simp add: internal_delete_def)
qed

section \<open>Searching\<close>

text \<open>The index of the first element an argument compares equal with, and how many there are.\<close>

definition first_zero :: "('a \<Rightarrow> int) \<Rightarrow> 'a list \<Rightarrow> int" where
  "first_zero f xs = (if \<exists>x\<in>set xs. f x = 0 then int (length (takeWhile (\<lambda>x. f x \<noteq> 0) xs)) else - 1)"

definition zeros :: "('a \<Rightarrow> int) \<Rightarrow> 'a list \<Rightarrow> int" where
  "zeros f xs = int (length (filter (\<lambda>x. f x = 0) xs))"

lemma first_zero_simps: "first_zero f [] = - 1"
  "first_zero f (x # xs) = (if f x = 0 then 0 else if first_zero f xs = - 1 then - 1 else first_zero f xs + 1)"
  by (auto simp: first_zero_def)

lemma first_zeroI:
  assumes "i < length xs" "f (xs ! i) = 0" "\<And>j. j < i \<Longrightarrow> f (xs ! j) \<noteq> 0"
  shows "first_zero f xs = int i"
  using assms
proof (induction xs arbitrary: i)
  case (Cons x xs)
  show ?case
  proof (cases i)
    case (Suc k)
    have "f (xs ! j) \<noteq> 0" if "j < k" for j using Cons.prems(3) [of "Suc j"] Suc that by simp
    then have "first_zero f xs = int k" using Cons.IH [of k] Cons.prems(1,2) Suc by simp
    moreover have "f x \<noteq> 0" using Cons.prems(3) [of 0] Suc by simp
    ultimately show ?thesis using Suc by (simp add: first_zero_simps)
  qed (use Cons.prems in \<open>simp add: first_zero_simps\<close>)
qed simp

lemma first_zero_none: "\<forall>x\<in>set xs. f x \<noteq> 0 \<Longrightarrow> first_zero f xs = - 1"
  by (simp add: first_zero_def)

lemma first_zero_ge: "- 1 \<le> first_zero f xs"
  by (simp add: first_zero_def)

lemma first_zero_not: "2 + first_zero f xs \<noteq> 0"
  using first_zero_ge [of f xs] by linarith

lemma takeWhile_stops: "\<exists>x\<in>set xs. f x = 0 \<Longrightarrow> length (takeWhile (\<lambda>x. f x \<noteq> (0 :: int)) xs) < length xs"
  by (induction xs) auto

lemma ptr_scan_run:
  assumes "sk_rep st xs" "i + k = length xs"
  shows "ptr_scan st p (int i) k = Inr (let r = first_zero (\<lambda>x. if x = p then 0 else 1) (drop i xs) in if r = - 1 then None else Some (int i + r))"
  using assms(2)
proof (induction k arbitrary: i)
  case (Suc k)
  then have "i < length xs" by simp
  note d = Cons_nth_drop_Suc [OF this, symmetric]
  have "ptr_scan st p (int (Suc i)) k = Inr (let r = first_zero (\<lambda>x. if x = p then 0 else 1) (drop (Suc i) xs) in if r = - 1 then None else Some (int (Suc i) + r))"
    by (rule Suc.IH) (use Suc.prems in simp)
  then show ?case unfolding d by (auto simp: first_zero_not read_rep [OF assms(1) \<open>i < length xs\<close>] first_zero_simps Let_def add.commute)
qed (simp add: first_zero_simps)

lemma comp_scan_first:
  assumes "sk_rep st xs" "i + k = length xs"
  shows "\<exists>n. comp_scan st f False (int i) k (- 1) 0 = Inr (let r = first_zero f (drop i xs) in if r = - 1 then - 1 else int i + r, n)"
  using assms(2)
proof (induction k arbitrary: i)
  case (Suc k)
  then have "i < length xs" by simp
  note d = Cons_nth_drop_Suc [OF this, symmetric]
  obtain n where "comp_scan st f False (int (Suc i)) k (- 1) 0 = Inr (let r = first_zero f (drop (Suc i) xs) in if r = - 1 then - 1 else int (Suc i) + r, n)"
    using Suc.IH [of "Suc i"] Suc.prems by auto
  then show ?case unfolding d by (auto simp: first_zero_not read_rep [OF assms(1) \<open>i < length xs\<close>] first_zero_simps Let_def add.commute)
qed (simp add: first_zero_simps)

lemma comp_scan_all:
  assumes "sk_rep st xs" "i + k = length xs" "n + int k \<le> INT_MAX"
  shows "comp_scan st f True (int i) k res n = Inr (let r = (if res \<noteq> - 1 then res else if first_zero f (drop i xs) = - 1 then - 1 else int i + first_zero f (drop i xs))
    in (r, if r = - 1 then 0 else n + zeros f (drop i xs)))"
  using assms(2,3)
proof (induction k arbitrary: i res n)
  case (Suc k)
  then have "i < length xs" by simp
  note d = Cons_nth_drop_Suc [OF this, symmetric]
  have IH: "comp_scan st f True (int (Suc i)) k res n = Inr (let r = (if res \<noteq> - 1 then res else if first_zero f (drop (Suc i) xs) = - 1 then - 1 else int (Suc i) + first_zero f (drop (Suc i) xs))
    in (r, if r = - 1 then 0 else n + zeros f (drop (Suc i) xs)))" if "n + int k \<le> INT_MAX" for res n
    by (rule Suc.IH) (use Suc.prems(1) that in simp_all)
  have s: "int i + 1 = int (Suc i)" by simp
  have pos: "first_zero f ys = - 1 \<or> 0 \<le> first_zero f ys" for ys by (simp add: first_zero_def)
  show ?case
  proof (cases "f (xs ! i) = 0")
    case True
    have "comp_scan st f True (int i) (Suc k) res n = comp_scan st f True (int (Suc i)) k (if res = - 1 then int i else res) (n + 1)"
      using Suc.prems(2) True by (simp add: read_rep [OF assms(1) \<open>i < length xs\<close>] s)
    also have "\<dots> = Inr (let r = (if res = - 1 then int i else res) in (r, n + 1 + zeros f (drop (Suc i) xs)))"
      by (subst IH) (use Suc.prems(2) in \<open>auto simp: Let_def\<close>)
    finally show ?thesis unfolding d using True by (auto simp: Let_def first_zero_simps zeros_def)
  next
    case False
    have "comp_scan st f True (int i) (Suc k) res n = comp_scan st f True (int (Suc i)) k res n"
      using False by (simp add: read_rep [OF assms(1) \<open>i < length xs\<close>] s)
    also have "\<dots> = Inr (let r = (if res \<noteq> - 1 then res else if first_zero f (drop (Suc i) xs) = - 1 then - 1 else int (Suc i) + first_zero f (drop (Suc i) xs))
    in (r, if r = - 1 then 0 else n + zeros f (drop (Suc i) xs)))" by (rule IH) (use Suc.prems(2) in simp)
    finally show ?thesis unfolding d using False pos [of "drop (Suc i) xs"] by (auto simp: Let_def first_zero_simps zeros_def)
  qed
qed (simp add: first_zero_simps zeros_def Let_def)

text \<open>In a list that is sorted for the comparison the elements are before, equal to and behind the argument.\<close>

locale cmp_contract =
  fixes cmp :: "'p option \<Rightarrow> 'p option \<Rightarrow> int"
  assumes flip: "sgn (cmp b a) = - sgn (cmp a b)"
    and trans: "cmp a b \<le> 0 \<Longrightarrow> cmp b c \<le> 0 \<Longrightarrow> cmp a c \<le> 0"
begin

lemma flip_le: "cmp b a \<le> 0 \<longleftrightarrow> 0 \<le> cmp a b"
  using flip [of a b] by (auto simp: sgn_if split: if_splits)

lemma before_after:
  assumes "sorted_wrt (\<lambda>a b. cmp a b \<le> 0) xs" "i < j" "j < length xs"
  shows "cmp key (xs ! i) < 0 \<Longrightarrow> cmp key (xs ! j) < 0" "0 < cmp key (xs ! j) \<Longrightarrow> 0 < cmp key (xs ! i)"
proof -
  have ij: "cmp (xs ! i) (xs ! j) \<le> 0" using sorted_wrt_nth_less [OF assms(1,2,3)] .
  show "cmp key (xs ! i) < 0 \<Longrightarrow> cmp key (xs ! j) < 0"
    using trans [OF ij, of key] flip_le [of "xs ! j" key] flip_le [of "xs ! i" key] by (meson not_le)
  show "0 < cmp key (xs ! j) \<Longrightarrow> 0 < cmp key (xs ! i)"
    using trans [OF _ ij, of key] by (meson not_le)
qed

lemma bsearch_loop_run:
  assumes "\<And>i. i < length xs \<Longrightarrow> probe (int i) = Inr (cmp key (xs ! i))" "sorted_wrt (\<lambda>a b. cmp a b \<le> 0) xs"
    and "int (length xs) * 8 \<le> INT_MAX + 1" "l \<le> h" "h \<le> length xs" "l < h \<or> c \<noteq> 0 \<and> i < length xs"
    and "\<And>j. j < l \<Longrightarrow> 0 < cmp key (xs ! j)" "\<And>j. h \<le> j \<Longrightarrow> j < length xs \<Longrightarrow> cmp key (xs ! j) < 0"
  shows "\<exists>i' c'. bsearch_loop probe 8 (int l) (int h) (int i) c = Inr (int i', c') \<and> i' < length xs \<and>
    (if c' = 0 then cmp key (xs ! i') = 0 else \<forall>j<length xs. cmp key (xs ! j) \<noteq> 0)"
  using assms(4-8)
proof (induction "h - l" arbitrary: l h i c rule: less_induct)
  case less
  show ?case
  proof (cases "l < h")
    case False
    then have lh: "l = h" using less.prems(1) by simp
    have "cmp key (xs ! j) \<noteq> 0" if "j < length xs" for j
      using less.prems(4) [of j] less.prems(5) [of j] that lh by (cases "j < l") (simp_all add: not_less)
    then show ?thesis using less.prems(3) lh by (subst bsearch_loop.simps) auto
  next
    case True
    obtain k where k: "(l + h) div 2 = k" by blast
    have i: "l \<le> k" "k < h" "(int l + int h) div 2 = int k" "k < length xs"
      using True less.prems(2) k [symmetric] by (simp_all add: zdiv_int)
    have small: "\<not> int l + int h > INT_MAX" "\<not> int k * 8 > INT_MAX" using assms(3) less.prems(2) i by linarith+
    have run: "bsearch_loop probe 8 (int l) (int h) (int i) c =
        (let c = cmp key (xs ! k) in if c < 0 then bsearch_loop probe 8 (int l) (int k) (int k) c
         else if c > 0 then bsearch_loop probe 8 (int k + 1) (int h) (int k) c else Inr (int k, c))"
      using True small assms(1) [OF i(4)] by (subst bsearch_loop.simps) (simp add: i(3) Let_def)
    consider "cmp key (xs ! k) < 0" | "0 < cmp key (xs ! k)" | "cmp key (xs ! k) = 0" by linarith
    then show ?thesis
    proof cases
      case 1
      have "cmp key (xs ! j) < 0" if "k \<le> j" "j < length xs" for j
        using 1 before_after(1) [OF assms(2), of k j] that by (cases "j = k") auto
      then have "\<exists>i' c'. bsearch_loop probe 8 (int l) (int k) (int k) (cmp key (xs ! k)) = Inr (int i', c') \<and> i' < length xs \<and>
          (if c' = 0 then cmp key (xs ! i') = 0 else \<forall>j<length xs. cmp key (xs ! j) \<noteq> 0)"
        using 1 [THEN less_imp_neq] i less.prems(4) by (intro less.hyps) auto
      then show ?thesis unfolding run using 1 by (simp add: Let_def)
    next
      case 2
      have "0 < cmp key (xs ! j)" if "j < k + 1" for j
        using 2 before_after(2) [OF assms(2), of j k] i(4) that by (cases "j = k") auto
      then have goal: "\<exists>i' c'. bsearch_loop probe 8 (int (k + 1)) (int h) (int k) (cmp key (xs ! k)) = Inr (int i', c') \<and> i' < length xs \<and>
          (if c' = 0 then cmp key (xs ! i') = 0 else \<forall>j<length xs. cmp key (xs ! j) \<noteq> 0)"
        using 2 [THEN less_imp_neq] i less.prems(2,5) by (intro less.hyps) auto
      have "bsearch_loop probe 8 (int l) (int h) (int i) c = bsearch_loop probe 8 (int (k + 1)) (int h) (int k) (cmp key (xs ! k))"
        unfolding run using 2 by (simp add: Let_def add.commute)
      then show ?thesis using goal by (simp only:)
    next
      case 3
      then show ?thesis unfolding run using i(4) by (simp add: Let_def)
    qed
  qed
qed

lemma first_match_run:
  assumes "\<And>i. i < length xs \<Longrightarrow> probe (int i) = Inr (cmp key (xs ! i))" "sorted_wrt (\<lambda>a b. cmp a b \<le> 0) xs"
    and "i < length xs" "cmp key (xs ! i) = 0"
  shows "first_match probe i = Inr (first_zero (cmp key) xs)"
  using assms(3,4)
proof (induction i)
  case 0
  then show ?case using first_zeroI [of 0 xs "cmp key"] by simp
next
  case (Suc i)
  show ?case
  proof (cases "cmp key (xs ! i) = 0")
    case True
    then show ?thesis using Suc assms(1) [of i] by simp
  next
    case False
    have "cmp key (xs ! j) \<noteq> 0" if "j < Suc i" for j
    proof (cases "j = i")
      case no: False
      then have "j < i" using that by simp
      moreover have "0 < cmp key (xs ! i)"
        using False before_after(1) [OF assms(2) lessI Suc.prems(1), of key] Suc.prems(2) by linarith
      ultimately show ?thesis using before_after(2) [OF assms(2) \<open>j < i\<close>, of key] Suc.prems(1) by simp
    qed (use False in simp)
    then have "first_zero (cmp key) xs = int (Suc i)" 
      using first_zeroI [of "Suc i" xs "cmp key"] Suc.prems by blast
    then show ?thesis using False assms(1) [of i] Suc.prems(1) by simp
  qed
qed

lemma bsearch_run:
  assumes "\<And>i. i < length xs \<Longrightarrow> probe (int i) = Inr (cmp key (xs ! i))" "sorted_wrt (\<lambda>a b. cmp a b \<le> 0) xs"
    and "int (length xs) * 8 \<le> INT_MAX + 1"
  shows "ossl_bsearch probe (int (length xs)) 8 False True =
      Inr (if first_zero (cmp key) xs = - 1 then None else Some (first_zero (cmp key) xs))"
    and "xs \<noteq> [] \<Longrightarrow> \<exists>i<length xs. ossl_bsearch probe (int (length xs)) 8 True fst_only = Inr (Some (int i)) \<and>
      ((\<exists>x\<in>set xs. cmp key x = 0) \<longrightarrow> cmp key (xs ! i) = 0)"
proof -
  have loop: "\<exists>i c. bsearch_loop probe 8 0 (int (length xs)) 0 0 = Inr (int i, c) \<and> i < length xs \<and>
      (if c = 0 then cmp key (xs ! i) = 0 else \<forall>j<length xs. cmp key (xs ! j) \<noteq> 0)" if "xs \<noteq> []"
    using bsearch_loop_run [OF assms, of 0 "length xs" 0 0] that by simp
  show "ossl_bsearch probe (int (length xs)) 8 False True =
      Inr (if first_zero (cmp key) xs = - 1 then None else Some (first_zero (cmp key) xs))"
  proof (cases "xs = []")
    case False
    then obtain i c where b: "bsearch_loop probe 8 0 (int (length xs)) 0 0 = Inr (int i, c)" "i < length xs"
      "if c = 0 then cmp key (xs ! i) = 0 else \<forall>j<length xs. cmp key (xs ! j) \<noteq> 0" using loop by blast
    show ?thesis
    proof (cases "c = 0")
      case True
      then have z: "cmp key (xs ! i) = 0" using b(3) by simp
      moreover have "first_zero (cmp key) xs \<noteq> - 1" using z b(2) nth_mem [OF b(2)] by (auto simp: first_zero_def)
      ultimately show ?thesis using b(1) True False first_match_run [OF assms(1,2) b(2)] by (simp add: ossl_bsearch_def)
    next
      case no: False
      then have "first_zero (cmp key) xs = - 1" using b(3) by (intro first_zero_none) (auto simp: in_set_conv_nth)
      then show ?thesis using b(1) no False by (simp add: ossl_bsearch_def)
    qed
  qed (simp add: ossl_bsearch_def first_zero_simps)
  show "\<exists>i<length xs. ossl_bsearch probe (int (length xs)) 8 True fst_only = Inr (Some (int i)) \<and>
      ((\<exists>x\<in>set xs. cmp key x = 0) \<longrightarrow> cmp key (xs ! i) = 0)" if ne: "xs \<noteq> []"
  proof -
    obtain i c where b: "bsearch_loop probe 8 0 (int (length xs)) 0 0 = Inr (int i, c)" "i < length xs"
      "if c = 0 then cmp key (xs ! i) = 0 else \<forall>j<length xs. cmp key (xs ! j) \<noteq> 0" using loop [OF ne] by blast
    show ?thesis
    proof (cases "c = 0 \<and> fst_only")
      case True
      then have z: "cmp key (xs ! i) = 0" using b(3) by simp
      have "\<exists>x\<in>set xs. cmp key x = 0" using z nth_mem [OF b(2)] by blast
      then have w: "first_zero (cmp key) xs = int (length (takeWhile (\<lambda>x. cmp key x \<noteq> 0) xs))" by (simp add: first_zero_def)
      have l: "length (takeWhile (\<lambda>x. cmp key x \<noteq> 0) xs) < length xs"
        by (rule takeWhile_stops) fact
      have "cmp key (xs ! length (takeWhile (\<lambda>x. cmp key x \<noteq> 0) xs)) = 0" using nth_length_takeWhile [OF l] by simp
      then show ?thesis using l b(1) True ne first_match_run [OF assms(1,2) b(2) z] w
        by (intro exI [of _ "length (takeWhile (\<lambda>x. cmp key x \<noteq> 0) xs)"]) (simp add: ossl_bsearch_def)
    next
      case False
      then show ?thesis using b ne by (intro exI [of _ i]) (auto simp: ossl_bsearch_def in_set_conv_nth split: if_splits)
    qed
  qed
qed

lemma count_run_run:
  assumes "sk_rep st xs" "i + k = length xs" "sorted_wrt (\<lambda>a b. cmp a b \<le> 0) xs" "\<And>j. i \<le> j \<Longrightarrow> j < length xs \<Longrightarrow> cmp key (xs ! j) \<le> 0"
  shows "count_run st (cmp key) (int i) k n = Inr (n + zeros (cmp key) (drop i xs))"
  using assms(2,4)
proof (induction k arbitrary: i n)
  case (Suc k)
  then have i: "i < length xs" by simp
  note d = Cons_nth_drop_Suc [OF i, symmetric]
  show ?case
  proof (cases "cmp key (xs ! i) = 0")
    case True
    have "count_run st (cmp key) (int (Suc i)) k (n + 1) = Inr (n + 1 + zeros (cmp key) (drop (Suc i) xs))"
      by (rule Suc.IH) (use Suc.prems in simp_all)
    then show ?thesis using True unfolding d by (simp add: read_rep [OF assms(1) i] zeros_def add.commute)
  next
    case False
    then have lt: "cmp key (xs ! i) < 0" using Suc.prems(2) [of i] i by simp
    have "cmp key (xs ! j) \<noteq> 0" if "i \<le> j" "j < length xs" for j
      using before_after(1) [OF assms(3), of i j key] lt that by (cases "i = j") auto
    then have "filter (\<lambda>x. cmp key x = 0) (drop i xs) = []" by (auto simp: filter_empty_conv in_set_conv_nth)
    then show ?thesis using False by (simp add: read_rep [OF assms(1) i] zeros_def)
  qed
qed (simp add: zeros_def)

end

section \<open>The searches of a stack\<close>

text \<open>What an element is compared with: the pointer itself, or by the comparison of the stack.\<close>

definition sk_match :: "('c \<Rightarrow> 'p option \<Rightarrow> 'p option \<Rightarrow> int) \<Rightarrow> 'c option \<Rightarrow> 'p option \<Rightarrow> 'p option \<Rightarrow> int" where
  "sk_match call cf p x =
    (case cf of None \<Rightarrow> (if x = p then 0 else 1) | Some c \<Rightarrow> if p = None then 1 else call c p x)"

definition kept_sorted :: "('c \<Rightarrow> 'p option \<Rightarrow> 'p option \<Rightarrow> int) \<Rightarrow> bool \<Rightarrow> 'c option \<Rightarrow> 'p option list \<Rightarrow> bool" where
  "kept_sorted call srt cf xs \<longleftrightarrow> (srt \<longrightarrow> (\<forall>c. cf = Some c \<longrightarrow> sorted_wrt (\<lambda>a b. call c a b \<le> 0) xs))"

lemma match_const: "first_zero (sk_match call (Some c) None) xs = - 1" "zeros (sk_match call (Some c) None) xs = 0"
  by (simp_all add: sk_match_def first_zero_def zeros_def)

lemma match_eta: "p \<noteq> None \<Longrightarrow> sk_match call (Some c) p = call c p" "sk_match call None p = (\<lambda>x. if x = p then 0 else 1)"
  by (auto simp: sk_match_def fun_eq_iff)

lemma find_run:
  assumes "sk_rep s xs" "kept_sorted call (sk_sorted s) (sk_comp s) xs" "\<And>c. cmp_contract (call c)" "int (length xs) * 8 \<le> INT_MAX + 1"
  shows "OPENSSL_sk_find call (Some s) p = Inr (first_zero (sk_match call (sk_comp s) p) xs)"
proof (cases "xs = []")
  case True
  then show ?thesis using rep_num(1) [OF assms(1)] by (simp add: OPENSSL_sk_find_def internal_find_def first_zero_simps)
next
  case False
  have num: "sk_num s = int (length xs)" "sk_num s \<noteq> 0" "nat (sk_num s) = length xs" using rep_num(1) [OF assms(1)] False by simp_all
  show ?thesis
  proof (cases "sk_comp s")
    case None
    have "ptr_scan s p 0 (length xs) = Inr (let r = first_zero (\<lambda>x. if x = p then 0 else 1) xs in if r = - 1 then None else Some r)"
      using ptr_scan_run [OF assms(1), of 0 "length xs" p] by (simp add: Let_def)
    then show ?thesis using num None by (simp add: OPENSSL_sk_find_def internal_find_def match_eta Let_def)
  next
    case (Some c)
    show ?thesis
    proof (cases "p = None")
      case True
      then show ?thesis using num Some by (simp add: OPENSSL_sk_find_def internal_find_def match_const)
    next
      case p: False
      then obtain y where y: "p = Some y" by blast
      note c = assms(3) [of c]
      have read: "rbind (sk_read s (int i)) (\<lambda>x. Inr (call c p x)) = Inr (call c p (xs ! i))" if "i < length xs" for i
        using read_rep [OF assms(1) that] by simp
      show ?thesis
      proof (cases "sk_sorted s")
        case True
        then have "sorted_wrt (\<lambda>a b. call c a b \<le> 0) xs" using assms(2) Some by (simp add: kept_sorted_def)
        from cmp_contract.bsearch_run(1) [OF c, of xs "\<lambda>i. rbind (sk_read s i) (\<lambda>x. Inr (call c p x))" p, OF read this assms(4)]
        show ?thesis using num Some y True by (simp add: OPENSSL_sk_find_def internal_find_def match_eta split: if_splits)
      next
        case unsorted: False
        obtain n where "comp_scan s (call c p) False 0 (length xs) (- 1) 0 = Inr (let r = first_zero (call c p) xs in if r = - 1 then - 1 else r, n)"
          using comp_scan_first [OF assms(1), of 0 "length xs" "call c p"] by (auto simp: Let_def)
        then show ?thesis using num Some y unsorted by (simp add: OPENSSL_sk_find_def internal_find_def match_eta Let_def split: if_splits)
      qed
    qed
  qed
qed

text \<open>
  The number of matches is right where the stack is sorted; in a linear search it is added to whatever
  the caller's variable holds.
\<close>

lemma find_all_run:
  assumes "sk_rep s xs" "kept_sorted call (sk_sorted s) (sk_comp s) xs" "\<And>c. cmp_contract (call c)" "int (length xs) * 8 \<le> INT_MAX + 1"
    and "xs \<noteq> []" "sk_comp s = Some c" "p \<noteq> None" "n + int (length xs) \<le> INT_MAX"
  shows "OPENSSL_sk_find_all call (Some s) p n = Inr (first_zero (call c p) xs,
    if first_zero (call c p) xs = - 1 then 0 else (if sk_sorted s then 0 else n) + zeros (call c p) xs)"
proof -
  have num: "sk_num s = int (length xs)" "sk_num s \<noteq> 0" "nat (sk_num s) = length xs" using rep_num(1) [OF assms(1)] assms(5) by simp_all
  obtain y where y: "p = Some y" using assms(7) by blast
  note c = assms(3) [of c]
  have read: "rbind (sk_read s (int i)) (\<lambda>x. Inr (call c p x)) = Inr (call c p (xs ! i))" if "i < length xs" for i
    using read_rep [OF assms(1) that] by simp
  show ?thesis
  proof (cases "sk_sorted s")
    case False
    obtain y where "p = Some y" using assms(7) by blast
    then show ?thesis using False num assms(6) comp_scan_all [OF assms(1), of 0 "length xs" n "call c p" "- 1"] assms(8)
      by (simp add: OPENSSL_sk_find_all_def internal_find_def Let_def)
  next
    case True
    then have srt: "sorted_wrt (\<lambda>a b. call c a b \<le> 0) xs" using assms(2,6) by (simp add: kept_sorted_def)
    let ?r = "first_zero (call c p) xs"
    note b = cmp_contract.bsearch_run(1) [OF c, of xs "\<lambda>i. rbind (sk_read s i) (\<lambda>x. Inr (call c p x))" p, OF read srt assms(4)]
    show ?thesis
    proof (cases "?r = - 1")
      case True
      then show ?thesis using num assms(6) y b \<open>sk_sorted s\<close> by (simp add: OPENSSL_sk_find_all_def internal_find_def)
    next
      case False
      let ?k = "length (takeWhile (\<lambda>x. call c p x \<noteq> 0) xs)"
      have ex: "\<exists>x\<in>set xs. call c p x = 0" using False by (auto simp: first_zero_def split: if_splits)
      then have r: "?r = int ?k" by (simp add: first_zero_def)
      have k: "?k < length xs" by (rule takeWhile_stops [OF ex])
      have z: "call c p (xs ! ?k) = 0" using nth_length_takeWhile [OF k] by simp
      have le: "call c p (xs ! j) \<le> 0" if "?k \<le> j" "j < length xs" for j
        using cmp_contract.before_after(2) [OF c srt, of ?k j p] that z by (cases "?k = j") (auto intro: leI)
      have "zeros (call c p) (take ?k xs) = 0"
        unfolding zeros_def takeWhile_eq_take [symmetric] by (auto simp: filter_empty_conv dest: set_takeWhileD)
      moreover have "zeros (call c p) xs = zeros (call c p) (take ?k xs) + zeros (call c p) (drop ?k xs)"
        by (simp add: zeros_def flip: filter_append length_append of_nat_add)
      ultimately have zs: "zeros (call c p) xs = zeros (call c p) (drop ?k xs)" by simp
      have "count_run s (call c p) (int ?k) (length xs - ?k) 0 = Inr (0 + zeros (call c p) (drop ?k xs))"
        by (rule cmp_contract.count_run_run [OF c assms(1) _ srt le]) (use k in simp_all)
      moreover have "nat (sk_num s - int ?k) = length xs - ?k" using num by simp
      ultimately show ?thesis using num assms(6) y b \<open>sk_sorted s\<close> False zs
        by (simp add: OPENSSL_sk_find_all_def internal_find_def r [unfolded y])
    qed
  qed
qed

section \<open>Runs\<close>

datatype ('p, 'c) sk_op = SK_push "'p option" | SK_unshift "'p option" | SK_insert "'p option" int | SK_pop | SK_shift
  | SK_delete int | SK_delete_ptr "'p option" | SK_set int "'p option" | SK_zero | SK_sort | SK_set_cmp "'c option" | SK_reserve int

datatype ('p, 'c) sk_res = R_int int | R_ptr "'p option" | R_cmp "'c option" | R_unit

text \<open>A step on a stack, and on a list with the flag and the comparison. A step fails with the number 0.\<close>

definition sk_step ::
  "(('p option \<Rightarrow> 'p option \<Rightarrow> int) \<Rightarrow> 'p option list \<Rightarrow> 'p option list) \<Rightarrow> ('c \<Rightarrow> 'p option \<Rightarrow> 'p option \<Rightarrow> int)
    \<Rightarrow> ('p, 'c) sk_op \<Rightarrow> ('p, 'c) stack option \<Rightarrow> sched \<Rightarrow> fault + ('p, 'c) sk_res \<times> ('p, 'c) stack option \<times> sched" where
  "sk_step qsort call op st m =
    (case op of
       SK_push p \<Rightarrow> rbind (OPENSSL_sk_push st p m) (\<lambda>(r, st, m). Inr (R_int r, st, m))
     | SK_unshift p \<Rightarrow> rbind (OPENSSL_sk_unshift st p m) (\<lambda>(r, st, m). Inr (R_int r, st, m))
     | SK_insert p loc \<Rightarrow> rbind (OPENSSL_sk_insert st p loc m) (\<lambda>(r, st, m). Inr (R_int r, st, m))
     | SK_pop \<Rightarrow> rbind (OPENSSL_sk_pop st) (\<lambda>(x, st). Inr (R_ptr x, st, m))
     | SK_shift \<Rightarrow> rbind (OPENSSL_sk_shift st) (\<lambda>(x, st). Inr (R_ptr x, st, m))
     | SK_delete loc \<Rightarrow> rbind (OPENSSL_sk_delete st loc) (\<lambda>(x, st). Inr (R_ptr x, st, m))
     | SK_delete_ptr p \<Rightarrow> rbind (OPENSSL_sk_delete_ptr st p) (\<lambda>(x, st). Inr (R_ptr x, st, m))
     | SK_set i p \<Rightarrow> rbind (OPENSSL_sk_set st i p) (\<lambda>(x, st). Inr (R_ptr x, st, m))
     | SK_zero \<Rightarrow> rbind (OPENSSL_sk_zero st) (\<lambda>st. Inr (R_unit, st, m))
     | SK_sort \<Rightarrow> rbind (OPENSSL_sk_sort qsort call st) (\<lambda>st. Inr (R_unit, st, m))
     | SK_set_cmp c \<Rightarrow> (case st of None \<Rightarrow> Inl Null_deref
         | Some s \<Rightarrow> let (old, s) = OPENSSL_sk_set_cmp_func s c in Inr (R_cmp old, Some s, m))
     | SK_reserve n \<Rightarrow> rbind (OPENSSL_sk_reserve st n m) (\<lambda>(ok, st, m). Inr (R_int (if ok then 1 else 0), st, m)))"

definition list_at :: "'a option list \<Rightarrow> int \<Rightarrow> 'a option" where
  "list_at xs i = (if 0 \<le> i \<and> i < int (length xs) then xs ! nat i else None)"

definition list_step ::
  "(('p option \<Rightarrow> 'p option \<Rightarrow> int) \<Rightarrow> 'p option list \<Rightarrow> 'p option list) \<Rightarrow> ('c \<Rightarrow> 'p option \<Rightarrow> 'p option \<Rightarrow> int)
    \<Rightarrow> ('p, 'c) sk_op \<Rightarrow> 'p option list \<times> bool \<times> 'c option \<Rightarrow> ('p, 'c) sk_res \<times> 'p option list \<times> bool \<times> 'c option" where
  "list_step qsort call op = (\<lambda>(xs, srt, cf).
    let drop_at = (\<lambda>i. (R_ptr (list_at xs i), if 0 \<le> i \<and> i < int (length xs) then list_delete xs (nat i) else xs, srt, cf))
    in case op of
       SK_push p \<Rightarrow> (R_int (int (length xs) + 1), xs @ [p], False, cf)
     | SK_unshift p \<Rightarrow> (R_int (int (length xs) + 1), p # xs, False, cf)
     | SK_insert p loc \<Rightarrow> (R_int (int (length xs) + 1), list_insert xs loc p, False, cf)
     | SK_pop \<Rightarrow> drop_at (int (length xs) - 1)
     | SK_shift \<Rightarrow> drop_at 0
     | SK_delete loc \<Rightarrow> drop_at loc
     | SK_delete_ptr p \<Rightarrow> drop_at (first_zero (\<lambda>x. if x = p then 0 else 1) xs)
     | SK_set i p \<Rightarrow> if 0 \<le> i \<and> i < int (length xs) then (R_ptr p, xs[nat i := p], False, cf) else (R_ptr None, xs, srt, cf)
     | SK_zero \<Rightarrow> (R_unit, [], srt, cf)
     | SK_sort \<Rightarrow> (case cf of None \<Rightarrow> (R_unit, xs, srt, cf)
         | Some c \<Rightarrow> (R_unit, if srt \<or> length xs \<le> 1 then xs else qsort (call c) xs, True, cf))
     | SK_set_cmp c \<Rightarrow> (R_cmp cf, xs, srt \<and> cf = c, c)
     | SK_reserve n \<Rightarrow> (R_int 1, xs, srt, cf))"

definition sk_view :: "('p, 'c) stack \<Rightarrow> 'p option list \<Rightarrow> bool \<Rightarrow> 'c option \<Rightarrow> bool" where
  "sk_view s xs srt cf \<longleftrightarrow> sk_rep s xs \<and> sk_sorted s = srt \<and> sk_comp s = cf"

lemma delete_ok:
  assumes "sk_view s xs srt cf" "0 \<le> i" "i < int (length xs)"
  shows "\<exists>s'. internal_delete s i = Inr (list_at xs i, s') \<and> sk_view s' (list_delete xs (nat i)) srt cf"
proof -
  have "nat i < length xs" using assms by simp
  from internal_delete_run [of s xs, OF _ this] show ?thesis using assms by (auto simp: sk_view_def list_at_def)
qed

definition op_need :: "('p, 'c) sk_op \<Rightarrow> nat" where
  "op_need op = (case op of SK_push _ \<Rightarrow> 1 | SK_unshift _ \<Rightarrow> 1 | SK_insert _ _ \<Rightarrow> 1 | SK_reserve n \<Rightarrow> nat n | _ \<Rightarrow> 0)"

lemma insert_ok:
  assumes "sk_view s xs srt cf"
  shows "\<exists>r s' m'. OPENSSL_sk_insert (Some s) p loc m = Inr (r, Some s', m') \<and> (m = [] \<longrightarrow> m' = []) \<and>
    (if r = 0 then sk_view s' xs srt cf \<and> (m \<noteq> [] \<or> 1342177279 < int (length xs) + 1)
     else r = int (length xs) + 1 \<and> sk_view s' (list_insert xs loc p) False cf)"
  using sk_insert_run [of s xs p loc m] assms unfolding sk_view_def by (auto split: if_splits)

lemma values_run:
  assumes "sk_rep st xs" "i + k = length xs"
  shows "sk_values st (int i) k = Inr (drop i xs)"
  using assms(2)
proof (induction k arbitrary: i)
  case (Suc k)
  then have i: "i < length xs" by simp
  have "sk_values st (int (Suc i)) k = Inr (drop (Suc i) xs)" by (rule Suc.IH) (use Suc.prems in simp)
  then show ?case using Cons_nth_drop_Suc [OF i] by (simp add: read_rep [OF assms(1) i] add.commute)
qed simp

text \<open>One step: it takes effect on the list, or fails and changes nothing.\<close>

definition step_agrees where
  "step_agrees qsort call op xs srt cf m res \<longleftrightarrow>
    (\<exists>r s' m'. res = Inr (r, Some s', m') \<and> (m = [] \<longrightarrow> m' = []) \<and>
      (if r = R_int 0 then sk_view s' xs srt cf \<and> (m \<noteq> [] \<or> 1342177279 < int (length xs) + int (op_need op))
       else case list_step qsort call op (xs, srt, cf) of (r', xs', srt', cf') \<Rightarrow> r = r' \<and> sk_view s' xs' srt' cf'))"

lemma agrees_ok:
  "r \<noteq> R_int 0 \<Longrightarrow> m = [] \<longrightarrow> m' = [] \<Longrightarrow> list_step qsort call op (xs, srt, cf) = (r, xs', srt', cf') \<Longrightarrow> sk_view s' xs' srt' cf' \<Longrightarrow>
    step_agrees qsort call op xs srt cf m (Inr (r, Some s', m'))"
  by (simp add: step_agrees_def)

lemma agrees_fail:
  "m = [] \<longrightarrow> m' = [] \<Longrightarrow> sk_view s' xs srt cf \<Longrightarrow> m \<noteq> [] \<or> 1342177279 < int (length xs) + int (op_need op) \<Longrightarrow>
    step_agrees qsort call op xs srt cf m (Inr (R_int 0, Some s', m'))"
  by (simp add: step_agrees_def)

lemma agrees_insert:
  assumes "sk_view s xs srt cf" "list_step qsort call op (xs, srt, cf) = (R_int (int (length xs) + 1), list_insert xs loc p, False, cf)" "op_need op = 1"
  shows "step_agrees qsort call op xs srt cf m (rbind (OPENSSL_sk_insert (Some s) p loc m) (\<lambda>(r, st, m). Inr (R_int r, st, m)))"
proof -
  obtain r s' m' where r: "OPENSSL_sk_insert (Some s) p loc m = Inr (r, Some s', m')" "m = [] \<longrightarrow> m' = []"
    "if r = 0 then sk_view s' xs srt cf \<and> (m \<noteq> [] \<or> 1342177279 < int (length xs) + 1)
     else r = int (length xs) + 1 \<and> sk_view s' (list_insert xs loc p) False cf"
    using insert_ok [OF assms(1), of p loc m] by blast
  show ?thesis
  proof (cases "r = 0")
    case True
    have "step_agrees qsort call op xs srt cf m (Inr (R_int 0, Some s', m'))"
      by (rule agrees_fail [OF r(2)]) (use r(3) True assms(3) in simp_all)
    then show ?thesis using r(1) True by simp
  next
    case False
    have "step_agrees qsort call op xs srt cf m (Inr (R_int (int (length xs) + 1), Some s', m'))"
      by (rule agrees_ok [OF _ r(2) assms(2)]) (use r(3) False in simp_all)
    then show ?thesis using r(1,3) False by simp
  qed
qed

lemma step_run:
  assumes v: "sk_view s xs srt cf" and qsort: "\<And>f ys. length (qsort f ys) = length ys"
  shows "step_agrees qsort call op xs srt cf m (sk_step qsort call op (Some s) m)"
proof -
  have rep: "sk_rep s xs" and flags: "sk_sorted s = srt" "sk_comp s = cf" using v by (simp_all add: sk_view_def)
  note num = rep_num(1) [OF rep]
  have drop: "\<exists>s'. (if i < 0 \<or> int (length xs) \<le> i then Inr (None, Some s)
      else rbind (internal_delete s i) (\<lambda>(x, s). Inr (x, Some s))) = Inr (list_at xs i, Some s') \<and>
    sk_view s' (if 0 \<le> i \<and> i < int (length xs) then list_delete xs (nat i) else xs) srt cf" for i
    using delete_ok [OF v, of i] v by (cases "0 \<le> i \<and> i < int (length xs)") (auto simp: list_at_def)
  show ?thesis
  proof (cases op)
    case (SK_push p)
    have "list_insert xs (int (length xs)) p = xs @ [p]" by (simp add: list_insert_def)
    then show ?thesis using agrees_insert [OF v, of qsort call op "int (length xs)" p m] SK_push num
      by (simp add: sk_step_def OPENSSL_sk_push_def list_step_def op_need_def)
  next
    case (SK_unshift p)
    have "list_insert xs 0 p = p # xs" by (simp add: list_insert_def)
    then show ?thesis using agrees_insert [OF v, of qsort call op 0 p m] SK_unshift
      by (simp add: sk_step_def OPENSSL_sk_unshift_def list_step_def op_need_def)
  next
    case (SK_insert p loc)
    then show ?thesis using agrees_insert [OF v, of qsort call op loc p m]
      by (simp add: sk_step_def list_step_def op_need_def)
  next
    case SK_pop
    have "OPENSSL_sk_pop (Some s) = (if int (length xs) - 1 < 0 \<or> int (length xs) \<le> int (length xs) - 1 then Inr (None, Some s)
      else rbind (internal_delete s (int (length xs) - 1)) (\<lambda>(x, s). Inr (x, Some s)))"
      using num by (simp add: OPENSSL_sk_pop_def)
    then show ?thesis using drop [of "int (length xs) - 1"] SK_pop by (auto simp: sk_step_def list_step_def Let_def intro!: agrees_ok)
  next
    case SK_shift
    have "OPENSSL_sk_shift (Some s) = (if (0 :: int) < 0 \<or> int (length xs) \<le> 0 then Inr (None, Some s)
      else rbind (internal_delete s 0) (\<lambda>(x, s). Inr (x, Some s)))"
      using num by (simp add: OPENSSL_sk_shift_def)
    then show ?thesis using drop [of 0] SK_shift by (auto simp: sk_step_def list_step_def Let_def intro!: agrees_ok)
  next
    case (SK_delete loc)
    have "OPENSSL_sk_delete (Some s) loc = (if loc < 0 \<or> int (length xs) \<le> loc then Inr (None, Some s)
      else rbind (internal_delete s loc) (\<lambda>(x, s). Inr (x, Some s)))"
      using num by (simp add: OPENSSL_sk_delete_def)
    then show ?thesis using drop [of loc] SK_delete by (auto simp: sk_step_def list_step_def Let_def intro!: agrees_ok)
  next
    case (SK_delete_ptr p)
    let ?r = "first_zero (\<lambda>x. if x = p then 0 else 1) xs"
    have "?r < int (length xs)" "?r = - 1 \<or> 0 \<le> ?r"
      using takeWhile_stops [of xs "\<lambda>x. if x = p then 0 else 1"] by (auto simp: first_zero_def)
    then have "OPENSSL_sk_delete_ptr (Some s) p = (if ?r < 0 \<or> int (length xs) \<le> ?r then Inr (None, Some s)
      else rbind (internal_delete s ?r) (\<lambda>(x, s). Inr (x, Some s)))"
      using num ptr_scan_run [OF rep, of 0 "length xs" p] by (auto simp: OPENSSL_sk_delete_ptr_def Let_def)
    then show ?thesis using drop [of ?r] SK_delete_ptr by (auto simp: sk_step_def list_step_def Let_def intro!: agrees_ok)
  next
    case (SK_set i p)
    show ?thesis
    proof (cases "0 \<le> i \<and> i < int (length xs)")
      case True
      then have k: "nat i < length xs" "int (nat i) = i" by auto
      obtain d where d: "sk_write s i p = Inr (s\<lparr>sk_data := d\<rparr>)" "sk_rep (s\<lparr>sk_data := d\<rparr>) (xs[nat i := p])"
        using write_rep [OF rep k(1), of p] k(2) by auto
      then have rep': "sk_rep (s\<lparr>sk_data := d, sk_sorted := False\<rparr>) (xs[nat i := p])" using rep_flags(1) by blast
      from read_rep [OF this, of "nat i"] have "sk_read (s\<lparr>sk_data := d, sk_sorted := False\<rparr>) i = Inr p" using k by simp
      then show ?thesis using True SK_set num d(1) rep' flags 
        by (auto simp: sk_step_def OPENSSL_sk_set_def list_step_def sk_view_def intro!: agrees_ok)
    next
      case False
      then show ?thesis using SK_set num v by (auto simp: sk_step_def OPENSSL_sk_set_def list_step_def intro!: agrees_ok)
    qed
  next
    case SK_zero
    show ?thesis
    proof (cases "xs = []")
      case True
      then show ?thesis using SK_zero num v by (simp add: sk_step_def OPENSSL_sk_zero_def list_step_def agrees_ok)
    next
      case False
      then have "sk_data s \<noteq> None" using rep by (auto simp: sk_rep_def split: option.splits)
      then obtain rest where b: "sk_data s = Some (map Ptr xs @ rest)" "int (length xs + length rest) = sk_num_alloc s"
        "4 \<le> sk_num_alloc s" "sk_num_alloc s \<le> INT_MAX" by (rule rep_block [OF rep])
      then have "OPENSSL_sk_zero (Some s) = Inr (Some (s\<lparr>sk_data := Some (map Ptr [] @ replicate (length xs) (Ptr None) @ rest), sk_num := 0\<rparr>))"
        using num False by (simp add: OPENSSL_sk_zero_def)
      moreover have "sk_rep (s\<lparr>sk_data := Some (map Ptr [] @ replicate (length xs) (Ptr None) @ rest), sk_num := 0\<rparr>) []"
        by (rule rep_of_block [where rest = "replicate (length xs) (Ptr None) @ rest"]) (use b in simp_all)
      ultimately show ?thesis using SK_zero flags by (auto simp: sk_step_def list_step_def sk_view_def intro!: agrees_ok)
    qed
  next
    case (SK_set_cmp c)
    then show ?thesis using v
      by (auto simp: sk_step_def OPENSSL_sk_set_cmp_func_def list_step_def sk_view_def rep_flags intro!: agrees_ok)
  next
    case (SK_reserve n)
    show ?thesis
    proof (cases "n < 0")
      case True
      then show ?thesis using SK_reserve v by (auto simp: sk_step_def OPENSSL_sk_reserve_def list_step_def intro!: agrees_ok)
    next
      case False
      then obtain ok s' m' where r: "sk_reserve s n True m = Inr (ok, s', m')" "sk_rep s' xs" "sk_sorted s' = sk_sorted s" "sk_comp s' = sk_comp s"
        "m = [] \<longrightarrow> m' = []" "\<not> ok \<longrightarrow> m \<noteq> [] \<or> 1342177279 < int (length xs) + n"
        using reserve_run [OF rep, of n True m] by auto
      then show ?thesis using SK_reserve False flags
        by (cases ok) (auto simp: sk_step_def OPENSSL_sk_reserve_def list_step_def op_need_def sk_view_def intro!: agrees_ok agrees_fail split: if_split_asm)
    qed
  next
    case SK_sort
    show ?thesis
    proof (cases cf)
      case None
      then show ?thesis using SK_sort flags v by (auto simp: sk_step_def OPENSSL_sk_sort_def list_step_def intro!: agrees_ok)
    next
      case (Some c)
      show ?thesis
      proof (cases "srt \<or> length xs \<le> 1")
        case True
        then have "sk_step qsort call op (Some s) m = Inr (R_unit, Some (s\<lparr>sk_sorted := True\<rparr>), m)"
          using SK_sort Some flags num by (auto simp: sk_step_def OPENSSL_sk_sort_def)
        moreover have "sk_view (s\<lparr>sk_sorted := True\<rparr>) xs True cf" using v by (simp add: sk_view_def rep_flags)
        ultimately show ?thesis using SK_sort Some True by (auto simp: list_step_def intro!: agrees_ok)
      next
        case False
        then have "sk_data s \<noteq> None" using rep by (auto simp: sk_rep_def split: option.splits)
        then obtain rest where b: "sk_data s = Some (map Ptr xs @ rest)" "int (length xs + length rest) = sk_num_alloc s"
          "4 \<le> sk_num_alloc s" "sk_num_alloc s \<le> INT_MAX" by (rule rep_block [OF rep])
        let ?s = "s\<lparr>sk_data := Some (map Ptr (qsort (call c) xs) @ rest), sk_sorted := True\<rparr>"
        have "sk_values s 0 (length xs) = Inr xs" using values_run [OF rep, of 0 "length xs"] by simp
        then have "sk_step qsort call op (Some s) m = Inr (R_unit, Some ?s, m)"
          using SK_sort Some flags num False b(1) by (auto simp: sk_step_def OPENSSL_sk_sort_def)
        moreover have "sk_rep ?s (qsort (call c) xs)"
          by (rule rep_of_block) (use b num qsort in simp_all)
        ultimately show ?thesis using SK_sort Some False flags by (auto simp: list_step_def sk_view_def intro!: agrees_ok)
      qed
    qed
  qed
qed

fun sk_run ::
  "(('p option \<Rightarrow> 'p option \<Rightarrow> int) \<Rightarrow> 'p option list \<Rightarrow> 'p option list) \<Rightarrow> ('c \<Rightarrow> 'p option \<Rightarrow> 'p option \<Rightarrow> int)
    \<Rightarrow> ('p, 'c) sk_op list \<Rightarrow> ('p, 'c) stack option \<Rightarrow> sched \<Rightarrow> fault + ('p, 'c) sk_res list \<times> ('p, 'c) stack option \<times> sched" where
  "sk_run qsort call [] st m = Inr ([], st, m)"
| "sk_run qsort call (op # ops) st m =
    rbind (sk_step qsort call op st m) (\<lambda>(r, st, m).
    rbind (sk_run qsort call ops st m) (\<lambda>(rs, st, m). Inr (r # rs, st, m)))"

text \<open>The list takes the steps that did not fail.\<close>

fun list_run ::
  "(('p option \<Rightarrow> 'p option \<Rightarrow> int) \<Rightarrow> 'p option list \<Rightarrow> 'p option list) \<Rightarrow> ('c \<Rightarrow> 'p option \<Rightarrow> 'p option \<Rightarrow> int)
    \<Rightarrow> ('p, 'c) sk_op list \<Rightarrow> ('p, 'c) sk_res list \<Rightarrow> 'p option list \<times> bool \<times> 'c option
    \<Rightarrow> ('p, 'c) sk_res list \<times> 'p option list \<times> bool \<times> 'c option" where
  "list_run qsort call (op # ops) (r # rs) st =
    (if r = R_int 0 then case list_run qsort call ops rs st of (rs, st) \<Rightarrow> (R_int 0 # rs, st)
     else case list_step qsort call op st of (r, st) \<Rightarrow> (case list_run qsort call ops rs st of (rs, st) \<Rightarrow> (r # rs, st)))"
| "list_run qsort call _ _ st = ([], st)"

lemma sorted_delete:
  assumes "sorted_wrt P xs"
  shows "sorted_wrt P (list_delete xs i)"
proof (cases "i < length xs")
  case True
  have "sorted_wrt P (take i xs @ xs ! i # drop (i + 1) xs)" using assms id_take_nth_drop [OF True] by simp
  then show ?thesis by (simp add: list_delete_def sorted_wrt_append)
qed (use assms in \<open>simp add: list_delete_def\<close>)

lemma list_step_keeps:
  assumes "list_step qsort call op (xs, srt, cf) = (r, xs', srt', cf')"
    and "\<And>f ys. length (qsort f ys) = length ys" "\<And>c ys. sorted_wrt (\<lambda>a b. call c a b \<le> 0) (qsort (call c) ys)"
  shows "length xs' \<le> length xs + op_need op" "kept_sorted call srt cf xs \<Longrightarrow> kept_sorted call srt' cf' xs'"
proof -
  have l: "length (list_insert xs i p) = Suc (length xs)" for i p by (auto simp: list_insert_def)
  have d: "length (list_delete xs i) \<le> length xs" for i by (simp add: list_delete_def)
  show "length xs' \<le> length xs + op_need op"
    using assms(1) d le_SucI [OF d]
    by (cases op) (auto simp: list_step_def op_need_def Let_def l assms(2) split: if_splits option.splits)
  have short: "sorted_wrt P ys" if "length ys \<le> 1" for P and ys :: "'x list" using that by (cases ys) auto
  show "kept_sorted call srt cf xs \<Longrightarrow> kept_sorted call srt' cf' xs'"
    using assms(1) sorted_delete
    by (cases op) (auto simp: list_step_def kept_sorted_def Let_def assms(3) short split: if_splits option.splits)
qed

lemma run_run:
  assumes qsort: "\<And>f ys. length (qsort f ys) = length ys" "\<And>c ys. sorted_wrt (\<lambda>a b. call c a b \<le> 0) (qsort (call c) ys)"
    and "sk_view s xs srt cf" "kept_sorted call srt cf xs"
  shows "\<exists>rs s' m' xs' srt' cf'. sk_run qsort call ops (Some s) m = Inr (rs, Some s', m') \<and> (m = [] \<longrightarrow> m' = []) \<and>
    list_run qsort call ops rs (xs, srt, cf) = (rs, xs', srt', cf') \<and> sk_view s' xs' srt' cf' \<and> kept_sorted call srt' cf' xs' \<and>
    (m = [] \<longrightarrow> length xs + sum_list (map op_need ops) \<le> 1342177279 \<longrightarrow> R_int 0 \<notin> set rs)"
  using assms(3,4)
proof (induction ops arbitrary: s xs srt cf m)
  case Nil
  then show ?case by auto
next
  case (Cons op ops)
  obtain r s1 m1 where st: "sk_step qsort call op (Some s) m = Inr (r, Some s1, m1)" "m = [] \<longrightarrow> m1 = []"
    "if r = R_int 0 then sk_view s1 xs srt cf \<and> (m \<noteq> [] \<or> 1342177279 < int (length xs) + int (op_need op))
     else case list_step qsort call op (xs, srt, cf) of (r', xs', srt', cf') \<Rightarrow> r = r' \<and> sk_view s1 xs' srt' cf'"
    using step_run [OF Cons.prems(1), where call = call and qsort = qsort and op = op and m = m, OF qsort(1)] unfolding step_agrees_def by blast
  show ?case
  proof (cases "r = R_int 0")
    case True
    then have v: "sk_view s1 xs srt cf" "m \<noteq> [] \<or> 1342177279 < int (length xs) + int (op_need op)" using st(3) by simp_all
    obtain rs s' m' xs' srt' cf' where "sk_run qsort call ops (Some s1) m1 = Inr (rs, Some s', m')" "m1 = [] \<longrightarrow> m' = []"
      "list_run qsort call ops rs (xs, srt, cf) = (rs, xs', srt', cf')" "sk_view s' xs' srt' cf'" "kept_sorted call srt' cf' xs'"
      using Cons.IH [OF v(1) Cons.prems(2), of m1] by blast
    then show ?thesis using st(1,2) True v(2) by (auto intro!: exI [of _ "R_int 0 # rs"])
  next
    case False
    obtain x1 f1 c1 where l: "list_step qsort call op (xs, srt, cf) = (r, x1, f1, c1)" and v: "sk_view s1 x1 f1 c1"
      using st(3) False by (auto split: prod.splits)
    note k = list_step_keeps [OF l qsort]
    obtain rs s' m' xs' srt' cf' where "sk_run qsort call ops (Some s1) m1 = Inr (rs, Some s', m')" "m1 = [] \<longrightarrow> m' = []"
      "list_run qsort call ops rs (x1, f1, c1) = (rs, xs', srt', cf')" "sk_view s' xs' srt' cf'" "kept_sorted call srt' cf' xs'"
      "m1 = [] \<longrightarrow> length x1 + sum_list (map op_need ops) \<le> 1342177279 \<longrightarrow> R_int 0 \<notin> set rs"
      using Cons.IH [OF v k(2) [OF Cons.prems(2)], of m1] by blast
    then show ?thesis using st(1,2) False l k(1) by (intro exI [of _ "r # rs"]) auto
  qed
qed

lemma dup_run:
  assumes "sk_view s xs srt cf"
  shows "\<exists>r m'. OPENSSL_sk_dup (Some s) m = Inr (r, m') \<and> (case r of None \<Rightarrow> m \<noteq> [] | Some t \<Rightarrow> sk_view t xs srt cf)"
proof -
  have rep: "sk_rep s xs" using assms by (simp add: sk_view_def)
  note num = rep_num(1) [OF rep]
  have fails: "m \<noteq> []" if "ddns_mem_alloc k m = (False, m')" "0 < k" for k m m' using that by (auto simp: ddns_mem_alloc_def)
  obtain g1 m1 where a: "ddns_mem_alloc 32 m = (g1, m1)" by fastforce
  show ?thesis
  proof (cases g1)
    case False
    then show ?thesis using a fails [of 32 m m1] by (simp add: OPENSSL_sk_dup_def)
  next
    case True
    show ?thesis
    proof (cases "xs = []")
      case True
      then show ?thesis using a \<open>g1\<close> num assms by (simp add: OPENSSL_sk_dup_def sk_view_def sk_rep_def)
    next
      case False
      then have "sk_data s \<noteq> None" using rep by (auto simp: sk_rep_def split: option.splits)
      then obtain rest where b: "sk_data s = Some (map Ptr xs @ rest)" "int (length xs + length rest) = sk_num_alloc s"
        "4 \<le> sk_num_alloc s" "sk_num_alloc s \<le> INT_MAX" by (rule rep_block [OF rep])
      obtain g2 m2 where a2: "ddns_mem_alloc (8 * nat (sk_num_alloc s)) m1 = (g2, m2)" by fastforce
      show ?thesis
      proof (cases g2)
        case no: False
        then have "m1 \<noteq> []" using fails a2 b(3) by auto
        then have "m \<noteq> []" using a by (auto simp: ddns_mem_alloc_def split: if_splits)
        then show ?thesis using a a2 \<open>g1\<close> no num False by (simp add: OPENSSL_sk_dup_def)
      next
        case yes: True
        let ?t = "s\<lparr>sk_data := Some (map Ptr xs @ replicate (nat (sk_num_alloc s) - length xs) Unset)\<rparr>"
        have "OPENSSL_sk_dup (Some s) m = Inr (Some ?t, m2)"
          using a a2 \<open>g1\<close> yes num False b(1,2) by (simp add: OPENSSL_sk_dup_def)
        moreover have "sk_rep ?t xs"
          by (rule rep_of_block [where rest = "replicate (nat (sk_num_alloc s) - length xs) Unset"]) (use b num in auto)
        ultimately show ?thesis using assms by (simp add: sk_view_def)
      qed
    qed
  qed
qed

text \<open>
  Three limits of the code: a count on top of what the caller left in the variable, the offset of
  an element as an \<^verbatim>\<open>int\<close>, and a growth that is refused before \<open>max_nodes\<close> is reached.
\<close>

lemma find_all_adds:
  "OPENSSL_sk_find_all (\<lambda>_ x y. if x = y then 0 else 1)
    (Some \<lparr>sk_num = 1, sk_data = Some [Ptr (Some True), Ptr None, Ptr None, Ptr None], sk_sorted = False, sk_num_alloc = 4, sk_comp = Some ()\<rparr>)
    (Some True) 7 = Inr (0, 8)"
  by code_simp

lemma bsearch_offset_overflow: "ossl_bsearch (\<lambda>i. Inr 1) 536870912 8 False True = Inl Signed_overflow"
  by code_simp

lemma growth_refused: "compute_growth growth_fuel 1500000001 1500000000 = Inr 0"
  by code_simp

section \<open>Strings\<close>

text \<open>The comparison of the library's stacks of strings, \<^verbatim>\<open>crypto/x509/v3_utl.c\<close>; their elements are not null.\<close>

definition sk_strcmp :: "string option \<Rightarrow> string option \<Rightarrow> int" where
  "sk_strcmp a b = strcmp (case a of None \<Rightarrow> [] | Some s \<Rightarrow> s) (case b of None \<Rightarrow> [] | Some s \<Rightarrow> s)"

lemma ord_neq: "c \<noteq> d \<Longrightarrow> \<not> ord c < (ord d :: nat) \<Longrightarrow> ord d < (ord c :: nat)"
  by (metis linorder_neqE_nat of_char_eq_iff)

lemma ord_0: "ord c = 0 \<longleftrightarrow> c = NUL" "0 < ord c \<longleftrightarrow> c \<noteq> NUL" for c :: char
  using of_char_eq_iff [of c NUL, where ?'a = nat] by auto

lemma strcmp_flip: "strcmp b a = - strcmp a b"
proof (induction a b rule: strcmp.induct)
  case (1 b)
  then show ?case by (cases b) (auto simp: ord_0 dest: ord_neq)
next
  case (2 c a b)
  then show ?case by (cases b) (auto simp: ord_0 dest: ord_neq)
qed

lemma strcmp_trans: "strcmp a b \<le> 0 \<Longrightarrow> strcmp b c \<le> 0 \<Longrightarrow> strcmp a c \<le> 0"
proof (induction a arbitrary: b c)
  case Nil
  then show ?case by (cases b; cases c) (auto split: if_splits)
next
  case (Cons x a)
  show ?case
  proof (cases b)
    case Nil
    then show ?thesis using Cons.prems by (cases c) (auto simp: ord_0 split: if_splits)
  next
    case b: (Cons y b')
    show ?thesis
    proof (cases c)
      case Nil
      then show ?thesis using Cons.prems b by (auto split: if_splits)
    next
      case c: (Cons z c')
      show ?thesis
        using Cons.prems Cons.IH [of b' c'] b c by (auto split: if_splits)
    qed
  qed
qed

interpretation sk_str: cmp_contract sk_strcmp
proof
  show "sgn (sk_strcmp b a) = - sgn (sk_strcmp a b)" for a b :: "string option"
  proof -
    have "sk_strcmp b a = - sk_strcmp a b" unfolding sk_strcmp_def by (rule strcmp_flip)
    then show ?thesis by simp
  qed
  show "sk_strcmp a b \<le> 0 \<Longrightarrow> sk_strcmp b c \<le> 0 \<Longrightarrow> sk_strcmp a c \<le> 0" for a b c :: "string option"
    unfolding sk_strcmp_def by (rule strcmp_trans)
qed

section \<open>Stacks are lists\<close>

text \<open>
  C40: A stack of OpenSSL is a list, for comparisons that order their arguments and a qsort that sorts.
  Whatever is pushed, inserted, set, deleted, sorted or reserved, and whatever requests for memory fail,
  no access leaves the block or reads an unset cell and the growth loop ends; each operation gives
  the result of the list operation or fails with 0 and changes nothing, and it fails only for lack of
  memory or near 2^31 elements. The elements read back are those of the list, a copy has the same, freeing meets every
  non-null element once, and a search gives the index of the first match, whether it is binary or
  linear, up to 2^28 elements.
\<close>

theorem stack_refines_list:
  assumes "\<And>c. cmp_contract (call c)" and "\<And>f ys. mset (qsort f ys) = mset ys"
    and "\<And>c ys. sorted_wrt (\<lambda>a b. call c a b \<le> 0) (qsort (call c) ys)"
    and "OPENSSL_sk_new cf m0 = Inr (Some s, m)"
  shows "\<exists>rs s' m' xs srt cf'. sk_run qsort call ops (Some s) m = Inr (rs, Some s', m') \<and>
    list_run qsort call ops rs ([], False, cf) = (rs, xs, srt, cf') \<and>
    (m = [] \<longrightarrow> sum_list (map op_need ops) \<le> 1342177279 \<longrightarrow> R_int 0 \<notin> set rs) \<and>
    OPENSSL_sk_num (Some s') = int (length xs) \<and> (\<forall>i. OPENSSL_sk_value (Some s') i = Inr (list_at xs i)) \<and>
    OPENSSL_sk_is_sorted (Some s') = srt \<and>
    (int (length xs) * 8 \<le> INT_MAX + 1 \<longrightarrow>
      (\<forall>p. OPENSSL_sk_find call (Some s') p = Inr (first_zero (sk_match call cf' p) xs))) \<and>
    (\<forall>m. \<exists>t m'. OPENSSL_sk_dup (Some s') m = Inr (t, m') \<and> (case t of None \<Rightarrow> m \<noteq> [] | Some t \<Rightarrow> sk_view t xs srt cf')) \<and>
    OPENSSL_sk_pop_free (Some s') = Inr (List.map_filter id xs)"
proof -
  have len: "length (qsort f ys) = length ys" for f ys using arg_cong [OF assms(2), of size f ys] by simp
  have "s = \<lparr>sk_num = 0, sk_data = None, sk_sorted = False, sk_num_alloc = 0, sk_comp = cf\<rparr>"
    using assms(4) by (auto simp: OPENSSL_sk_new_def OPENSSL_sk_new_reserve_def split: prod.splits if_splits)
  then have "sk_view s [] False cf" "kept_sorted call False cf []" by (simp_all add: sk_view_def sk_rep_def kept_sorted_def)
  from run_run [OF len assms(3) this, of ops m] obtain rs s' m' xs srt cf' where
    run: "sk_run qsort call ops (Some s) m = Inr (rs, Some s', m')" "list_run qsort call ops rs ([], False, cf) = (rs, xs, srt, cf')"
      "m = [] \<longrightarrow> sum_list (map op_need ops) \<le> 1342177279 \<longrightarrow> R_int 0 \<notin> set rs"
    and v: "sk_view s' xs srt cf'" and k: "kept_sorted call srt cf' xs" unfolding list.size add_0 by blast
  have rep: "sk_rep s' xs" and flags: "sk_sorted s' = srt" "sk_comp s' = cf'" using v by (simp_all add: sk_view_def)
  have num: "sk_num s' = int (length xs)" by (rule rep_num(1) [OF rep])
  have "OPENSSL_sk_value (Some s') i = Inr (list_at xs i)" for i
    using read_rep [OF rep, of "nat i"] num by (auto simp: OPENSSL_sk_value_def list_at_def nat_less_iff)
  moreover have "OPENSSL_sk_find call (Some s') p = Inr (first_zero (sk_match call cf' p) xs)" if "int (length xs) * 8 \<le> INT_MAX + 1" for p
    using find_run [OF rep _ assms(1) that] k flags by simp
  moreover have "OPENSSL_sk_pop_free (Some s') = Inr (List.map_filter id xs)"
    using values_run [OF rep, of 0 "length xs"] num by (simp add: OPENSSL_sk_pop_free_def)
  moreover have "OPENSSL_sk_num (Some s') = int (length xs)" "OPENSSL_sk_is_sorted (Some s') = srt"
    using num flags by (simp_all add: OPENSSL_sk_num_def OPENSSL_sk_is_sorted_def)
  ultimately show ?thesis using run dup_run [OF v] by blast
qed

text \<open>An insertion sort can stand for qsort.\<close>

fun ins :: "('a \<Rightarrow> 'a \<Rightarrow> int) \<Rightarrow> 'a \<Rightarrow> 'a list \<Rightarrow> 'a list" where
  "ins f x [] = [x]"
| "ins f x (y # ys) = (if f x y \<le> 0 then x # y # ys else y # ins f x ys)"

fun insertion_sort :: "('a \<Rightarrow> 'a \<Rightarrow> int) \<Rightarrow> 'a list \<Rightarrow> 'a list" where
  "insertion_sort f [] = []"
| "insertion_sort f (x # xs) = ins f x (insertion_sort f xs)"

lemma ins_mset: "mset (ins f x ys) = add_mset x (mset ys)" "mset (insertion_sort f ys) = mset ys"
proof -
  show ins: "mset (ins f x ys) = add_mset x (mset ys)" for x ys by (induction ys) auto
  show "mset (insertion_sort f ys) = mset ys" by (induction ys) (simp_all add: ins)
qed

context cmp_contract begin

lemma ins_sorted: "sorted_wrt (\<lambda>a b. cmp a b \<le> 0) ys \<Longrightarrow> sorted_wrt (\<lambda>a b. cmp a b \<le> 0) (ins cmp x ys)"
proof (induction ys)
  case (Cons y ys)
  have s: "set (ins cmp x ys) = insert x (set ys)" using arg_cong [OF ins_mset(1), of set_mset] by (simp add: set_mset_mset)
  show ?case
  proof (cases "cmp x y \<le> 0")
    case True
    then show ?thesis using Cons.prems trans [OF True] by auto
  next
    case False
    then have "cmp y x \<le> 0" using flip_le [of y x] by simp
    then show ?thesis using Cons False by (auto simp: s)
  qed
qed simp

lemma insertion_sorted: "sorted_wrt (\<lambda>a b. cmp a b \<le> 0) (insertion_sort cmp ys)"
  by (induction ys) (simp_all add: ins_sorted)

end

theorem stack_refines_list_witness:
  "\<exists>s'. sk_run insertion_sort (\<lambda>_ :: unit. sk_strcmp) [SK_push (Some ''b''), SK_push (Some ''a''), SK_sort]
      (Some \<lparr>sk_num = 0, sk_data = None, sk_sorted = False, sk_num_alloc = 0, sk_comp = Some ()\<rparr>) []
      = Inr ([R_int 1, R_int 2, R_unit], Some s', []) \<and>
    OPENSSL_sk_find (\<lambda>_ :: unit. sk_strcmp) (Some s') (Some ''b'') = Inr 1"
proof -
  let ?ops = "[SK_push (Some ''b''), SK_push (Some ''a''), SK_sort] :: (string, unit) sk_op list"
  let ?s = "\<lparr>sk_num = 0, sk_data = None, sk_sorted = False, sk_num_alloc = 0, sk_comp = Some ()\<rparr> :: (string, unit) stack"
  have new: "OPENSSL_sk_new (Some ()) [] = Inr (Some ?s, [])" by code_simp
  have "sk_run insertion_sort (\<lambda>_. sk_strcmp) ?ops (Some ?s) [] = Inr ([R_int 1, R_int 2, R_unit], Some
      \<lparr>sk_num = 2, sk_data = Some [Ptr (Some ''a''), Ptr (Some ''b''), Ptr None, Ptr None], sk_sorted = True, sk_num_alloc = 4, sk_comp = Some ()\<rparr>, [])"
    (is "_ = Inr (?rs, Some ?s', [])") by code_simp
  moreover have "list_run insertion_sort (\<lambda>_. sk_strcmp) ?ops ?rs ([], False, Some ()) = (?rs, [Some ''a'', Some ''b''], True, Some ())"
    by code_simp
  moreover have "first_zero (sk_match (\<lambda>_. sk_strcmp) (Some ()) (Some ''b'')) [Some ''a'', Some ''b''] = 1" by code_simp
  ultimately show ?thesis
    using stack_refines_list [where call = "\<lambda>_ :: unit. sk_strcmp" and qsort = insertion_sort, OF sk_str.cmp_contract_axioms ins_mset(2) sk_str.insertion_sorted new, of ?ops]
    by auto
qed

end
