(* ===== verification/Spec2Isabelle.thy ===== *)
theory Spec2Isabelle
  imports Ddns_Main Base64_Correct Cjson_Tree_Correct Hmac_Correct Http_Chunks_Correct Curl_Hash_Correct
    Curl_Text_Correct Splay_Correct Adler32_Combine Curl_Base64 Curl_Inet_Roundtrip Cjson_Typed
    Curl_Path_Correct Curl_Hostcheck Ossl_Lhash_Correct Ossl_Stack_Correct
begin

text \<open>
  A verification library for \<^verbatim>\<open>DDNS_CloudTencent\<close>, a dynamic-DNS client: it finds the public
  address of the host it runs on and writes it into the DNS records of one name at DNSPod, the DNS
  service of Tencent Cloud.

  \<^bold>\<open>The program.\<close> \<^verbatim>\<open>main\<close> (\<^verbatim>\<open>src/src/x86/main.cpp\<close>) reads the configuration file, lets the two
  address objects \<^verbatim>\<open>_IPv4\<close> and \<^verbatim>\<open>_IPv6\<close> (\<^verbatim>\<open>develop/check_ip_wan.cpp\<close>) look for a public address
  among the interfaces and ask an address service for the address the host is seen under, and
  drives the client of the DNS service (\<^verbatim>\<open>develop/cloudTencent/\<close>): list the domains, list the
  records of the name, delete all records but the first of each family, set the first record of a
  family to the address when both sources agree. Requests are signed with the TC3 scheme and sent by
  \<^verbatim>\<open>curl_request\<close> (\<^verbatim>\<open>util/curl_request_api.cpp\<close>); answers are parsed by a copy of cJSON
  (\<^verbatim>\<open>util/tretap_CJSON.c\<close>). \<^verbatim>\<open>util/tretap_base_64.c\<close> is a library of its own.

  \<^bold>\<open>The theories.\<close>

  \<^item> \<open>Prelude\<close>: undefined behaviour as values (\<open>fault\<close>), sequencing with faults and with a state,
    bounded buffers, C strings, the locale \<open>codec\<close> of encode/decode pairs.
  \<^item> \<open>Decimal\<close>, \<open>Double\<close>: decimal numerals; doubles as rationals with rounding to 53 bits.
  \<^item> \<open>Base64\<close>, \<open>Base64_Correct\<close>: both functions of \<^verbatim>\<open>tretap_base_64.c\<close> with 32-bit sizes; equality
    with RFC 4648, round trip, memory safety, the wrap of the size check.
  \<^item> \<open>Hex\<close>: \<^verbatim>\<open>HexEncode\<close>, \<^verbatim>\<open>sha256Hex\<close>, \<^verbatim>\<open>HmacSha256\<close>.
  \<^item> \<open>Config_File\<close>: the two readers of \<^verbatim>\<open>ddns_config.txt\<close>.
  \<^item> \<open>Ip_Address\<close>: the address classes, the tests for public addresses, the choice of the local one.
  \<^item> \<open>Cjson\<close>, \<open>Cjson_Parse\<close>, \<open>Cjson_Parse_Correct\<close>, \<open>Cjson_Values\<close>: nodes, queries and copies of
    trees; the parser; its termination, its memory safety and the values it reads.
  \<^item> \<open>Http\<close>: the environment of a run, requests, \<^verbatim>\<open>curl_request\<close>.
  \<^item> \<open>Response_Decode\<close>, \<open>Answers\<close>: the decoders of the two answers, and whole answers as text.
  \<^item> \<open>Tc3\<close>: the signature of a request and its verification by the service.
  \<^item> \<open>Dnspod\<close>, \<open>Dnspod_Correct\<close>: the requests of the class, their payloads read back, the locale
    \<open>allowed_calls\<close> of what a run may send.
  \<^item> \<open>Ddns_Main\<close>: \<^verbatim>\<open>main\<close> over an environment, and what holds of every run: only requests of the
    expected kinds and signed, a record only ever set to an own public address both sources agree
    on, the first record of a family updated when the services answer.

  The rest of the JSON library of the program:

  \<^item> \<open>Cjson_Print\<close>, \<open>Cjson_Print_Correct\<close>: the printers that build their text from allocated
    pieces; every piece fits its block, and a printed tree is parsed back.
  \<^item> \<open>Cjson_Buffer\<close>, \<open>Cjson_Buffer_Correct\<close>: the printers into one growing buffer, shown equal to
    the others.
  \<^item> \<open>Cjson_Tree\<close>, \<open>Cjson_Tree_Correct\<close>: constructors, surgery on the children of a node and
    \<^verbatim>\<open>Minify\<close>, refining the operations on lists.
  \<^item> \<open>Cjson_Typed\<close>: the trees the parser builds are well typed.

  The vendored libraries under \<^verbatim>\<open>src/doc\<close>, as far as a request of the program runs through them by
  itself:

  \<^item> \<open>Sha256\<close>, \<open>Sha256_Correct\<close> (\<^verbatim>\<open>crypto/sha/sha256.c\<close>, \<^verbatim>\<open>include/crypto/md32_common.h\<close> of
    OpenSSL): streaming equals hashing at once, and both block functions agree.
  \<^item> \<open>Hmac\<close>, \<open>Hmac_Correct\<close> (\<^verbatim>\<open>crypto/hmac/hmac.c\<close>): RFC 2104 over the locale \<open>digest_layer\<close>, which
    the SHA-256 model interprets; the digests of \<open>Tc3\<close> linked to both.
  \<^item> \<open>Strtoofft\<close>, \<open>Http_Chunks\<close>, \<open>Http_Chunks_Correct\<close> (\<^verbatim>\<open>lib/strtoofft.c\<close>, \<^verbatim>\<open>lib/http_chunks.c\<close> of
    curl): the decoder of chunked answers; it is safe, and a body arrives whole however the network
    cuts it.
  \<^item> \<open>Llist\<close> (\<^verbatim>\<open>lib/llist.c\<close>), \<open>Curl_Hash\<close>, \<open>Curl_Hash_Correct\<close> (\<^verbatim>\<open>lib/hash.c\<close>): linked lists in an
    explicit memory refine lists, hash tables refine maps (locale \<open>hash_contract\<close>).
  \<^item> \<open>Splay\<close>, \<open>Splay_Loop\<close>, \<open>Splay_Correct\<close> (\<^verbatim>\<open>lib/splay.c\<close>): the tree of timers in an explicit
    memory refines a queue sorted by time (locale \<open>timer_queue\<close>).
  \<^item> \<open>Curl_Text\<close>, \<open>Curl_Text_Correct\<close> (\<^verbatim>\<open>lib/escape.c\<close>, \<^verbatim>\<open>lib/strcase.c\<close>, \<^verbatim>\<open>lib/slist.c\<close>):
    percent-encoding, comparison without regard to case, the header list of a request.
  \<^item> \<open>Curl_Base64\<close> (\<^verbatim>\<open>lib/base64.c\<close>): agreement with \<open>Base64\<close>, the program's own encoder.
  \<^item> \<open>Curl_Inet\<close>, \<open>Curl_Inet_Correct\<close>, \<open>Curl_Inet_Roundtrip\<close> (\<^verbatim>\<open>lib/inet_ntop.c\<close>,
    \<^verbatim>\<open>lib/inet_pton.c\<close>): IPv4 and IPv6 addresses as text and back.
  \<^item> \<open>Curl_Path\<close>, \<open>Curl_Path_Correct\<close> (\<^verbatim>\<open>lib/dotdot.c\<close>): the dot segments of a path, by RFC 3986.
  \<^item> \<open>Curl_Hostcheck\<close> (\<^verbatim>\<open>lib/hostcheck.c\<close>): the name in a certificate against the host, by RFC 6125.
  \<^item> \<open>Adler32\<close>, \<open>Adler32_Sums\<close>, \<open>Adler32_Combine\<close> (\<^verbatim>\<open>adler32.c\<close> of zlib): RFC 1950, from pieces and
    from checksums of parts.
  \<^item> \<open>Ossl_Lhash\<close>, \<open>Ossl_Lhash_Correct\<close> (\<^verbatim>\<open>crypto/lhash/lhash.c\<close> of OpenSSL): the hash table that grows
    and shrinks by one bucket at a time is a set of items up to their comparison (locale
    \<open>lhash_contract\<close>).
  \<^item> \<open>Ossl_Stack\<close>, \<open>Ossl_Stack_Correct\<close> (\<^verbatim>\<open>crypto/stack/stack.c\<close>, \<^verbatim>\<open>crypto/bsearch.c\<close>,
    \<^verbatim>\<open>include/internal/safe_math.h\<close>): stacks are lists, and the binary search of a sorted stack
    finds what a scan finds (locale \<open>cmp_contract\<close>).

  \<^bold>\<open>How the parts rest on each other.\<close> \<open>Ddns_Main\<close> runs \<open>Config_File\<close>, \<open>Ip_Address\<close> and \<open>Dnspod\<close>;
  \<open>Dnspod\<close> signs with \<open>Tc3\<close>, sends with \<open>Http\<close> and reads with \<open>Response_Decode\<close>, which queries the
  trees \<open>Cjson_Parse\<close> builds. The digests of \<open>Tc3\<close> are fields of the environment \<open>env\<close>, and
  \<open>Hmac_Correct\<close> instantiates them with the models of the vendored code. Laws one part relies on and
  another provides are locales, interpreted where the provider is modelled.

  \<^bold>\<open>Conventions.\<close> Undefined behaviour is a value: an operation gives \<open>Inl\<close> of a \<open>fault\<close> for an access
  outside a block, a null pointer or an unset byte that is used, so the absence of faults is a theorem. Memory
  requests are answered by a schedule, a list of successes and failures, all successes when it is
  at its end. Integers keep their width where an operation may leave it.

  \<^bold>\<open>Bounds and fuel.\<close> The JSON parser has fuel for its nesting; one more than the length of the text is
  always enough. The loop of \<^verbatim>\<open>Curl_splay\<close> has the number of nodes of the tree, the walks through
  linked lists the number of elements, the growth of a stack 46 steps, which reach every size from
  the smallest block on. Every other loop is a recursion with a termination proof.
  The round trip of \<^verbatim>\<open>tretap_base_64.c\<close> is for texts below \<open>2 ^ 28\<close> bytes, as its
  size computation wraps at \<open>2 ^ 29\<close>; printed JSON is below \<open>2 ^ 31\<close> bytes, the range of the
  \<^verbatim>\<open>int\<close> sizes of the printers; the binary search of a stack computes byte offsets as
  \<^verbatim>\<open>int\<close> and is for \<open>2 ^ 28\<close> elements; the sizes of curl's text functions are lengths of objects in memory.

  \<^bold>\<open>Not modelled.\<close> What only releases or exposes memory of the JSON library (\<^verbatim>\<open>Delete\<close>,
  \<^verbatim>\<open>InitHooks\<close>, \<^verbatim>\<open>GetErrorPtr\<close>), as trees are values here; console messages; the empty or unused
  files \<^verbatim>\<open>rsa_decode.cpp\<close>, \<^verbatim>\<open>cloudAlibaba\<close>, \<^verbatim>\<open>test.c\<close>, \<^verbatim>\<open>app_api.h\<close>; the makefiles. Of the vendored
  libraries: TLS, sockets, the transfer itself (its outcome for a request is a parameter of the
  environment), the digest providers and assembly variants of OpenSSL, big numbers and the other
  ciphers, compression, and their tests, tools and generated tables. The program reaches them only
  through \<^verbatim>\<open>curl_easy_perform\<close>.
\<close>

end
